(* ===== verification/Prelude.thy ===== *)
theory Prelude
  imports Main "HOL-Library.Word" "HOL-Library.Monad_Syntax"
begin

text \<open>
  Shared ground of the development: the widths of C's integer types on the 64-bit targets the
  pods are built for, the shape of a C function that reports failure through a Boolean result,
  a loop combinator with its rules, and the generic lemmas the components share.

  Every C function that can do something C leaves undefined (read outside an object, free a
  block twice) or that need not return is modelled with a result of type \<open>'a option\<close>:
  \<open>None\<close> says that the C program has no defined result there. A C function that returns
  \<open>bool\<close> and fills an out-parameter returns \<open>'a option\<close> inside that: \<open>None\<close> is
  \<open>return false\<close>, \<open>Some v\<close> is \<open>return true\<close> with \<open>v\<close> stored.
\<close>

unbundle bit_operations_syntax

section \<open>Machine integers\<close>

type_synonym u8 = "8 word"
type_synonym u16 = "16 word"
type_synonym u32 = "32 word"
type_synonym u64 = "64 word"

section \<open>Fact collections\<close>

named_theorems c_simps \<open>unfolding of the control-flow combinators\<close>

section \<open>Functions that fail through their Boolean result\<close>

text \<open>
  \<open>c_try m f\<close> is the C idiom \<open>if (!m(&x)) return false; f(x)\<close> over a state that both
  parts update: a failure of \<open>m\<close> is returned with the state \<open>m\<close> left behind.
\<close>

definition c_try ::
  "('a option \<times> 's) option \<Rightarrow> ('a \<Rightarrow> 's \<Rightarrow> ('b option \<times> 's) option) \<Rightarrow> ('b option \<times> 's) option"
where
  "c_try m f =
     (case m of
        None \<Rightarrow> None
      | Some (r, s) \<Rightarrow> (case r of None \<Rightarrow> Some (None, s) | Some a \<Rightarrow> f a s))"

lemma c_try_None [simp, c_simps]: "c_try None f = None"
  by (simp add: c_try_def)

lemma c_try_fail [simp, c_simps]: "c_try (Some (None, s)) f = Some (None, s)"
  by (simp add: c_try_def)

lemma c_try_ok [simp, c_simps]: "c_try (Some (Some a, s)) f = f a s"
  by (simp add: c_try_def)

lemma c_try_cases:
  assumes "c_try m f = Some (r, s')"
  obtains (fail) "m = Some (None, s')" and "r = None"
    | (ok) a s where "m = Some (Some a, s)" and "f a s = Some (r, s')"
  using assms by (auto simp: c_try_def split: option.splits prod.splits)

lemma c_try_eq_Some_Some:
  "c_try m f = Some (Some b, s') \<longleftrightarrow> (\<exists>a s. m = Some (Some a, s) \<and> f a s = Some (Some b, s'))"
  by (auto simp: c_try_def split: option.splits prod.splits)

text \<open>A total step composed with a total continuation is total.\<close>

lemma c_try_total:
  assumes "\<exists>r s. m = Some (r, s) \<and> P r s"
    and "\<And>a s. P (Some a) s \<Longrightarrow> \<exists>r s'. f a s = Some (r, s') \<and> Q r s'"
    and "\<And>s. P None s \<Longrightarrow> Q None s"
  shows "\<exists>r s'. c_try m f = Some (r, s') \<and> Q r s'"
proof -
  from assms(1) obtain r s where m: "m = Some (r, s)" and p: "P r s" by blast
  show ?thesis
  proof (cases r)
    case None
    with m p assms(3) show ?thesis by simp
  next
    case (Some a)
    with m p assms(2) show ?thesis by simp
  qed
qed

section \<open>Loops\<close>

text \<open>
  \<open>c_loop body s\<close> runs \<open>body\<close> from the loop state \<open>s\<close>: \<open>Inl s'\<close> is the next
  round with state \<open>s'\<close>, \<open>Inr r\<close> leaves the loop (a false guard, a \<open>break\<close> or a
  \<open>return\<close> from inside it) with result \<open>r\<close>. A loop that never leaves is \<open>None\<close>.
\<close>

partial_function (option) c_loop :: "('s \<Rightarrow> ('s + 'r) option) \<Rightarrow> 's \<Rightarrow> 'r option" where
  "c_loop body s =
     Option.bind (body s) (\<lambda>x. case x of Inl s' \<Rightarrow> c_loop body s' | Inr r \<Rightarrow> Some r)"

declare c_loop.simps [code]

lemma c_loop_next: "body s = Some (Inl s') \<Longrightarrow> c_loop body s = c_loop body s'"
  by (subst c_loop.simps) simp

lemma c_loop_exit: "body s = Some (Inr r) \<Longrightarrow> c_loop body s = Some r"
  by (subst c_loop.simps) simp

lemma c_loop_stuck: "body s = None \<Longrightarrow> c_loop body s = None"
  by (subst c_loop.simps) simp

text \<open>Partial correctness: an invariant of the rounds holds where the loop is left.\<close>

lemma c_loop_partial:
  assumes "c_loop body s = Some r" and "I s"
    and step: "\<And>s s'. I s \<Longrightarrow> body s = Some (Inl s') \<Longrightarrow> I s'"
    and leave: "\<And>s r. I s \<Longrightarrow> body s = Some (Inr r) \<Longrightarrow> Q r"
  shows "Q r"
proof -
  have "I s \<longrightarrow> Q r"
  proof (rule c_loop.raw_induct [where P = "\<lambda>b s r. b = body \<longrightarrow> I s \<longrightarrow> Q r",
        OF _ assms(1), THEN mp, OF _ refl])
    fix f b s r
    assume IH: "\<And>b s r. f b s = Some r \<Longrightarrow> b = body \<longrightarrow> I s \<longrightarrow> Q r"
      and eq: "b s \<bind> (\<lambda>x. case x of Inl s' \<Rightarrow> f b s' | Inr r \<Rightarrow> Some r) = Some r"
    show "b = body \<longrightarrow> I s \<longrightarrow> Q r"
    proof (intro impI)
      assume b: "b = body" and s: "I s"
      from eq obtain x where x: "body s = Some x"
        and rest: "(case x of Inl s' \<Rightarrow> f b s' | Inr r \<Rightarrow> Some r) = Some r"
        unfolding b by (auto simp: Option.bind_eq_Some_conv)
      show "Q r"
      proof (cases x)
        case (Inl s')
        with rest IH b have "I s' \<longrightarrow> Q r" by simp
        with step [OF s] x Inl show ?thesis by simp
      next
        case (Inr r')
        with rest leave [OF s] x show ?thesis by simp
      qed
    qed
  qed
  with assms(2) show ?thesis by blast
qed

text \<open>Total correctness: with a measure the rounds decrease, the loop is left.\<close>

lemma c_loop_total:
  fixes m :: "'s \<Rightarrow> nat"
  assumes "I s"
    and "\<And>s. I s \<Longrightarrow> (\<exists>s'. body s = Some (Inl s') \<and> I s' \<and> m s' < m s) \<or>
                 (\<exists>r. body s = Some (Inr r) \<and> Q r)"
  shows "\<exists>r. c_loop body s = Some r \<and> Q r"
  using assms(1)
proof (induction "m s" arbitrary: s rule: less_induct)
  case less
  from assms(2) [OF less.prems] show ?case
  proof
    assume "\<exists>s'. body s = Some (Inl s') \<and> I s' \<and> m s' < m s"
    with less.hyps show ?thesis by (metis c_loop_next)
  next
    assume "\<exists>r. body s = Some (Inr r) \<and> Q r"
    then show ?thesis by (metis c_loop_exit)
  qed
qed

section \<open>Words\<close>

lemma unat_ucast_u8_u64 [simp]: "unat ((ucast (b :: u8) :: u64)) = unat b"
  by transfer (simp add: take_bit_eq_mod)

lemma unat_ucast_u8_u32 [simp]: "unat ((ucast (b :: u8) :: u32)) = unat b"
  by transfer (simp add: take_bit_eq_mod)

lemma unat_ucast_u32_u64 [simp]: "unat ((ucast (b :: u32) :: u64)) = unat b"
  by transfer (simp add: take_bit_eq_mod)

lemma unat_u8_lt: "unat (b :: u8) < 256"
  using unsigned_less [of b, where ?'a = nat] by simp


subsection \<open>Reading words as numbers\<close>

lemma unat_push_bit_small:
  fixes x :: "'a::len word"
  assumes "unat x * 2 ^ m < 2 ^ LENGTH('a)"
  shows "unat (push_bit m x) = unat x * 2 ^ m"
  using assms
  by (simp add: unsigned_push_bit_eq push_bit_eq_mult [of m "unat x"] take_bit_nat_eq_self)

lemma bit_word_small:
  fixes r :: "'a::len word"
  assumes "unat r < 2 ^ m" and "m \<le> n"
  shows "\<not> bit r n"
proof -
  have "\<not> bit (unat r) n"
    using assms by (metis bit_take_bit_iff not_le take_bit_nat_eq_self)
  then show ?thesis by (simp add: bit_unsigned_iff)
qed

lemma unat_or_push_bit:
  fixes r x :: "'a::len word"
  assumes r: "unat r < 2 ^ m" and x: "unat x * 2 ^ m < 2 ^ LENGTH('a)"
  shows "unat (r OR push_bit m x) = unat r + unat x * 2 ^ m"
proof -
  have "unat (r OR push_bit m x) = (unat r OR push_bit m (unat x))"
    using x by (simp add: unsigned_or_eq unat_push_bit_small push_bit_eq_mult [of m "unat x"])
  also have "\<dots> = unat r + push_bit m (unat x)"
  proof (rule disjunctive_add [symmetric])
    fix n show "\<not> bit (unat r) n \<or> \<not> bit (push_bit m (unat x)) n"
      using r by (metis bit_push_bit_iff_nat bit_take_bit_iff not_le take_bit_nat_eq_self)
  qed
  finally show ?thesis by (simp add: push_bit_eq_mult)
qed

lemma and_7F: "unat (b AND 0x7F :: u8) = unat b mod 128"
proof -
  have "unat (b AND 0x7F) = unat b AND mask 7"
    by (simp add: unsigned_and_eq mask_eq_exp_minus_1)
  then show ?thesis by (simp add: take_bit_eq_mask [symmetric] take_bit_eq_mod)
qed

lemma and_80: "b AND 0x80 = 0 \<longleftrightarrow> unat (b :: u8) < 128"
proof -
  have "b AND 0x80 = 0 \<longleftrightarrow> \<not> bit b 7"
    by (simp add: bit_iff_and_push_bit_not_eq_0)
  also have "bit b 7 \<longleftrightarrow> bit (unat b) 7"
    by (simp add: bit_unsigned_iff)
  also have "bit (unat b) 7 \<longleftrightarrow> odd (unat b div 128)"
    by (simp add: bit_iff_odd)
  also have "(\<not> odd (unat b div 128)) \<longleftrightarrow> unat b < 128"
  proof -
    have "unat b div 128 < 2"
      using unat_u8_lt [of b] by (simp add: less_mult_imp_div_less)
    then have "unat b div 128 = 0 \<or> unat b div 128 = 1" by linarith
    then show ?thesis by (auto simp: div_eq_0_iff)
  qed
  finally show ?thesis .
qed

lemma or_80: "unat b < 128 \<Longrightarrow> unat (b OR 0x80 :: u8) = unat b + 128"
  using unat_or_push_bit [of b 7 1] by simp

lemma unat_of_nat_u8: "n < 256 \<Longrightarrow> unat (of_nat n :: u8) = n"
  by (simp add: unat_of_nat take_bit_nat_eq_self)

section \<open>Little-endian numbers\<close>

primrec le_val :: "u8 list \<Rightarrow> nat" where
  "le_val [] = 0"
| "le_val (b # bs) = unat b + 256 * le_val bs"

primrec le_bytes :: "nat \<Rightarrow> nat \<Rightarrow> u8 list" where
  "le_bytes 0 x = []"
| "le_bytes (Suc n) x = of_nat x # le_bytes n (x div 256)"

lemma length_le_bytes [simp]: "length (le_bytes n x) = n"
  by (induction n arbitrary: x) simp_all

lemma le_val_le_bytes: "le_val (le_bytes n x) = x mod 256 ^ n"
proof (induction n arbitrary: x)
  case (Suc n)
  then show ?case
    by (simp add: unat_of_nat take_bit_eq_mod mod_mult2_eq add.commute)
qed simp

lemma le_val_lt: "le_val bs < 256 ^ length bs"
proof (induction bs)
  case (Cons b bs)
  then show ?case using unat_u8_lt [of b] by simp
qed simp

lemma le_bytes_le_val: "le_bytes (length bs) (le_val bs) = bs"
proof (induction bs)
  case (Cons b bs)
  moreover have "(unat b + 256 * le_val bs) div 256 = le_val bs"
    using unat_u8_lt [of b] by simp
  moreover have "(of_nat (unat b + 256 * le_val bs) :: u8) = b"
    unfolding word_unat_eq_iff unat_of_nat take_bit_eq_mod using unat_u8_lt [of b] by simp
  ultimately show ?case by (simp del: of_nat_add of_nat_mult)
qed simp

lemma list_of_4: "length xs = 4 \<Longrightarrow> \<exists>a b c d. xs = [a, b, c, d]"
  by (auto simp: length_Suc_conv eval_nat_numeral)

lemma list_of_8: "length xs = 8 \<Longrightarrow> \<exists>a b c d e f g h. xs = [a, b, c, d, e, f, g, h]"
  by (auto simp: length_Suc_conv eval_nat_numeral)

lemma le_bytes_add: "le_bytes (m + n) x = le_bytes m x @ le_bytes n (x div 256 ^ m)"
  by (induction m arbitrary: x) (simp_all add: div_mult2_eq)

lemma le_bytes_4:
  "le_bytes 4 x = [of_nat x, of_nat (x div 2 ^ 8), of_nat (x div 2 ^ 16), of_nat (x div 2 ^ 24)]"
proof -
  have "le_bytes (Suc (Suc (Suc (Suc 0)))) x =
      [of_nat x, of_nat (x div 2 ^ 8), of_nat (x div 2 ^ 16), of_nat (x div 2 ^ 24)]"
    by (simp add: div_mult2_eq [symmetric])
  moreover have "(4 :: nat) = Suc (Suc (Suc (Suc 0)))" by simp
  ultimately show ?thesis by (simp only:)
qed

lemma le_bytes_8:
  "le_bytes 8 x = [of_nat x, of_nat (x div 2 ^ 8), of_nat (x div 2 ^ 16), of_nat (x div 2 ^ 24),
     of_nat (x div 2 ^ 32), of_nat (x div 2 ^ 40), of_nat (x div 2 ^ 48), of_nat (x div 2 ^ 56)]"
  using le_bytes_add [of 4 4 x] by (simp add: le_bytes_4 div_mult2_eq [symmetric])

end
