(* ===== verification/Pb_Types.thy ===== *)
theory Pb_Types
  imports Prelude
begin

text \<open>
  \<open>nanopb/pb.h\<close>: field types, wire types, field descriptors and error messages, in the
  configuration the pods are built with (\<open>PB_FIELD_32BIT\<close>, \<open>PB_ENABLE_MALLOC\<close>,
  \<open>PB_NO_PACKED_STRUCTS\<close>): \<open>pb_size_t\<close> is 32 bits, \<open>size_t\<close> and pointers are 64
  bits. A descriptor array \<open>pb_field_t[]\<close> is the list of its fields up to the terminator
  \<open>PB_LAST_FIELD\<close>, which \<open>field_at\<close> supplies at the end. Its \<open>ptr\<close> is null, the
  descriptor array of a submessage, or the bytes of a default value.
\<close>

section \<open>Type codes\<close>

abbreviation (input) PB_LTYPE_BOOL :: u8 where "PB_LTYPE_BOOL \<equiv> 0x00"
abbreviation (input) PB_LTYPE_VARINT :: u8 where "PB_LTYPE_VARINT \<equiv> 0x01"
abbreviation (input) PB_LTYPE_UVARINT :: u8 where "PB_LTYPE_UVARINT \<equiv> 0x02"
abbreviation (input) PB_LTYPE_SVARINT :: u8 where "PB_LTYPE_SVARINT \<equiv> 0x03"
abbreviation (input) PB_LTYPE_FIXED32 :: u8 where "PB_LTYPE_FIXED32 \<equiv> 0x04"
abbreviation (input) PB_LTYPE_FIXED64 :: u8 where "PB_LTYPE_FIXED64 \<equiv> 0x05"
abbreviation (input) PB_LTYPE_LAST_PACKABLE :: u8 where "PB_LTYPE_LAST_PACKABLE \<equiv> 0x05"
abbreviation (input) PB_LTYPE_BYTES :: u8 where "PB_LTYPE_BYTES \<equiv> 0x06"
abbreviation (input) PB_LTYPE_STRING :: u8 where "PB_LTYPE_STRING \<equiv> 0x07"
abbreviation (input) PB_LTYPE_SUBMESSAGE :: u8 where "PB_LTYPE_SUBMESSAGE \<equiv> 0x08"
abbreviation (input) PB_LTYPE_EXTENSION :: u8 where "PB_LTYPE_EXTENSION \<equiv> 0x09"
abbreviation (input) PB_LTYPE_FIXED_LENGTH_BYTES :: u8 where
  "PB_LTYPE_FIXED_LENGTH_BYTES \<equiv> 0x0A"

abbreviation (input) PB_HTYPE_REQUIRED :: u8 where "PB_HTYPE_REQUIRED \<equiv> 0x00"
abbreviation (input) PB_HTYPE_OPTIONAL :: u8 where "PB_HTYPE_OPTIONAL \<equiv> 0x10"
abbreviation (input) PB_HTYPE_REPEATED :: u8 where "PB_HTYPE_REPEATED \<equiv> 0x20"
abbreviation (input) PB_HTYPE_ONEOF :: u8 where "PB_HTYPE_ONEOF \<equiv> 0x30"

abbreviation (input) PB_ATYPE_STATIC :: u8 where "PB_ATYPE_STATIC \<equiv> 0x00"
abbreviation (input) PB_ATYPE_POINTER :: u8 where "PB_ATYPE_POINTER \<equiv> 0x80"
abbreviation (input) PB_ATYPE_CALLBACK :: u8 where "PB_ATYPE_CALLBACK \<equiv> 0x40"

definition PB_ATYPE :: "u8 \<Rightarrow> u8" where
  "PB_ATYPE x = x AND 0xC0"

definition PB_HTYPE :: "u8 \<Rightarrow> u8" where
  "PB_HTYPE x = x AND 0x30"

definition PB_LTYPE :: "u8 \<Rightarrow> u8" where
  "PB_LTYPE x = x AND 0x0F"

abbreviation (input) PB_SIZE_MAX :: u32 where "PB_SIZE_MAX \<equiv> 0xFFFFFFFF"
abbreviation (input) PB_MAX_REQUIRED_FIELDS :: u32 where "PB_MAX_REQUIRED_FIELDS \<equiv> 64"

section \<open>Wire types\<close>

text \<open>\<open>pb_wire_type_t\<close> has the values 0, 1, 2 and 5, but \<open>pb_decode_tag\<close> casts any
  three-bit value to it, so the model keeps the number.\<close>

type_synonym pb_wire_type = u32

abbreviation (input) PB_WT_VARINT :: pb_wire_type where "PB_WT_VARINT \<equiv> 0"
abbreviation (input) PB_WT_64BIT :: pb_wire_type where "PB_WT_64BIT \<equiv> 1"
abbreviation (input) PB_WT_STRING :: pb_wire_type where "PB_WT_STRING \<equiv> 2"
abbreviation (input) PB_WT_32BIT :: pb_wire_type where "PB_WT_32BIT \<equiv> 5"

section \<open>Field descriptors\<close>

datatype pb_field =
    PbField (tag: u32) (ftype: u8) (data_offset: u32) (size_offset: u32)
      (data_size: u32) (array_size: u32) (fptr: field_ptr)
  and field_ptr = PtrNull | PtrFields "pb_field list" | PtrData "u8 list"

definition PB_LAST_FIELD :: pb_field where
  "PB_LAST_FIELD = PbField 0 0 0 0 0 0 PtrNull"

definition field_at :: "pb_field list \<Rightarrow> nat \<Rightarrow> pb_field" where
  "field_at fs i = (if i < length fs then fs ! i else PB_LAST_FIELD)"

lemma field_at_in: "i < length fs \<Longrightarrow> field_at fs i = fs ! i"
  by (simp add: field_at_def)

lemma field_at_end [simp]: "field_at fs (length fs) = PB_LAST_FIELD"
  by (simp add: field_at_def)

lemma tag_PB_LAST_FIELD [simp]: "tag PB_LAST_FIELD = 0"
  by (simp add: PB_LAST_FIELD_def)

text \<open>
  The initialiser macros of \<open>pb.h\<close>. The offsets and sizes that the C compiler computes
  (\<open>offsetof\<close>, \<open>pb_membersize\<close>, \<open>pb_delta\<close>) are arguments: \<open>fd\<close> is the data
  offset, \<open>delta\<close> the signed distance to the count or \<open>has_\<close> member, \<open>msize\<close> the
  size of one item and \<open>n\<close> the number of items.
\<close>

definition PB_REQUIRED_STATIC :: "u32 \<Rightarrow> u32 \<Rightarrow> u32 \<Rightarrow> u8 \<Rightarrow> field_ptr \<Rightarrow> pb_field" where
  "PB_REQUIRED_STATIC t fd msize lt p =
     PbField t (PB_ATYPE_STATIC OR PB_HTYPE_REQUIRED OR lt) fd 0 msize 0 p"

definition PB_OPTIONAL_STATIC :: "u32 \<Rightarrow> u32 \<Rightarrow> u32 \<Rightarrow> u32 \<Rightarrow> u8 \<Rightarrow> field_ptr \<Rightarrow> pb_field" where
  "PB_OPTIONAL_STATIC t fd delta msize lt p =
     PbField t (PB_ATYPE_STATIC OR PB_HTYPE_OPTIONAL OR lt) fd delta msize 0 p"

definition PB_SINGULAR_STATIC :: "u32 \<Rightarrow> u32 \<Rightarrow> u32 \<Rightarrow> u8 \<Rightarrow> field_ptr \<Rightarrow> pb_field" where
  "PB_SINGULAR_STATIC t fd msize lt p =
     PbField t (PB_ATYPE_STATIC OR PB_HTYPE_OPTIONAL OR lt) fd 0 msize 0 p"

definition PB_REPEATED_STATIC ::
  "u32 \<Rightarrow> u32 \<Rightarrow> u32 \<Rightarrow> u32 \<Rightarrow> u32 \<Rightarrow> u8 \<Rightarrow> field_ptr \<Rightarrow> pb_field" where
  "PB_REPEATED_STATIC t fd delta msize n lt p =
     PbField t (PB_ATYPE_STATIC OR PB_HTYPE_REPEATED OR lt) fd delta msize n p"

definition PB_REPEATED_FIXED_COUNT ::
  "u32 \<Rightarrow> u32 \<Rightarrow> u32 \<Rightarrow> u32 \<Rightarrow> u8 \<Rightarrow> field_ptr \<Rightarrow> pb_field" where
  "PB_REPEATED_FIXED_COUNT t fd msize n lt p =
     PbField t (PB_ATYPE_STATIC OR PB_HTYPE_REPEATED OR lt) fd 0 msize n p"

definition PB_REQUIRED_POINTER :: "u32 \<Rightarrow> u32 \<Rightarrow> u32 \<Rightarrow> u8 \<Rightarrow> field_ptr \<Rightarrow> pb_field" where
  "PB_REQUIRED_POINTER t fd msize lt p =
     PbField t (PB_ATYPE_POINTER OR PB_HTYPE_REQUIRED OR lt) fd 0 msize 0 p"

definition PB_OPTIONAL_POINTER :: "u32 \<Rightarrow> u32 \<Rightarrow> u32 \<Rightarrow> u8 \<Rightarrow> field_ptr \<Rightarrow> pb_field" where
  "PB_OPTIONAL_POINTER t fd msize lt p =
     PbField t (PB_ATYPE_POINTER OR PB_HTYPE_OPTIONAL OR lt) fd 0 msize 0 p"

definition PB_SINGULAR_POINTER :: "u32 \<Rightarrow> u32 \<Rightarrow> u32 \<Rightarrow> u8 \<Rightarrow> field_ptr \<Rightarrow> pb_field" where
  "PB_SINGULAR_POINTER t fd msize lt p =
     PbField t (PB_ATYPE_POINTER OR PB_HTYPE_OPTIONAL OR lt) fd 0 msize 0 p"

definition PB_REPEATED_POINTER :: "u32 \<Rightarrow> u32 \<Rightarrow> u32 \<Rightarrow> u32 \<Rightarrow> u8 \<Rightarrow> field_ptr \<Rightarrow> pb_field" where
  "PB_REPEATED_POINTER t fd delta msize lt p =
     PbField t (PB_ATYPE_POINTER OR PB_HTYPE_REPEATED OR lt) fd delta msize 0 p"

definition PB_OPTIONAL_CALLBACK :: "u32 \<Rightarrow> u32 \<Rightarrow> u32 \<Rightarrow> u8 \<Rightarrow> field_ptr \<Rightarrow> pb_field" where
  "PB_OPTIONAL_CALLBACK t fd msize lt p =
     PbField t (PB_ATYPE_CALLBACK OR PB_HTYPE_OPTIONAL OR lt) fd 0 msize 0 p"

definition PB_OPTEXT_STATIC :: "u32 \<Rightarrow> u32 \<Rightarrow> u8 \<Rightarrow> field_ptr \<Rightarrow> pb_field" where
  "PB_OPTEXT_STATIC t msize lt p =
     PbField t (PB_ATYPE_STATIC OR PB_HTYPE_REQUIRED OR lt) 0 0 msize 0 p"

definition PB_ONEOF_STATIC :: "u32 \<Rightarrow> u32 \<Rightarrow> u32 \<Rightarrow> u32 \<Rightarrow> u8 \<Rightarrow> field_ptr \<Rightarrow> pb_field" where
  "PB_ONEOF_STATIC t fd delta msize lt p =
     PbField t (PB_ATYPE_STATIC OR PB_HTYPE_ONEOF OR lt) fd delta msize 0 p"

lemmas pb_field_macros = PB_REQUIRED_STATIC_def PB_OPTIONAL_STATIC_def PB_SINGULAR_STATIC_def
  PB_REPEATED_STATIC_def PB_REPEATED_FIXED_COUNT_def PB_REQUIRED_POINTER_def
  PB_OPTIONAL_POINTER_def PB_SINGULAR_POINTER_def PB_REPEATED_POINTER_def PB_OPTIONAL_CALLBACK_def
  PB_OPTEXT_STATIC_def PB_ONEOF_STATIC_def

lemmas pb_type_defs = PB_ATYPE_def PB_HTYPE_def PB_LTYPE_def

section \<open>Error messages\<close>

text \<open>The message literals the library stores in \<open>errmsg\<close>; \<open>E_user\<close> stands for a
  message of the library's user.\<close>

datatype pb_errmsg =
    E_end_of_stream | E_io_error | E_varint_overflow | E_invalid_wire_type
  | E_parent_stream_too_short | E_array_overflow | E_invalid_field_type | E_invalid_size
  | E_size_too_large | E_realloc_failed | E_too_many_array_entries | E_callback_failed
  | E_wrong_size_for_fixed_count_field | E_missing_required_field | E_invalid_union_tag
  | E_iterator_error | E_invalid_data_size | E_integer_too_large | E_bytes_overflow
  | E_string_overflow | E_invalid_field_descriptor | E_incorrect_fixed_length_bytes_size
  | E_stream_full | E_array_max_size_exceeded | E_callback_error | E_submsg_size_changed
  | E_bytes_size_exceeded | E_user nat

text \<open>\<open>PB_SET_ERROR\<close>: the first message sticks.\<close>

definition PB_SET_ERROR :: "pb_errmsg option \<Rightarrow> pb_errmsg \<Rightarrow> pb_errmsg option" where
  "PB_SET_ERROR old msg = (case old of Some m \<Rightarrow> Some m | None \<Rightarrow> Some msg)"

lemma PB_SET_ERROR_None [simp]: "PB_SET_ERROR None msg = Some msg"
  by (simp add: PB_SET_ERROR_def)

lemma PB_SET_ERROR_Some [simp]: "PB_SET_ERROR (Some m) msg = Some m"
  by (simp add: PB_SET_ERROR_def)

lemma PB_SET_ERROR_not_None [simp]: "PB_SET_ERROR old msg \<noteq> None"
  by (simp add: PB_SET_ERROR_def split: option.splits)

end
