(* ===== verification/Pb_IStream.thy ===== *)
theory Pb_IStream
  imports Pb_Types
begin

text \<open>
  The input stream of \<open>nanopb/pb_decode.c\<close>: \<open>pb_istream_t\<close>, \<open>pb_read\<close>,
  \<open>pb_readbyte\<close> and the buffer callback \<open>buf_read\<close>. The model's \<open>i_state\<close> is
  what \<open>stream->state\<close> points to: the bytes from the read position to the end of the
  buffer (for a user's stream, its private state). A read past the end of the buffer is
  \<open>None\<close>. The callbacks of user streams are the parameter \<open>rd\<close>.
\<close>

section \<open>State\<close>

datatype icallback = Buf_read | User_read nat

record pb_istream =
  i_callback :: icallback
  i_state :: "u8 list"
  bytes_left :: u64
  i_errmsg :: "pb_errmsg option"

text \<open>A callback gets the stream, whether the destination is non-null, and the count; it
  returns its verdict, the bytes it stored, and the stream.\<close>

type_synonym iresult = "(bool \<times> u8 list \<times> pb_istream) option"
type_synonym user_read = "nat \<Rightarrow> pb_istream \<Rightarrow> bool \<Rightarrow> u64 \<Rightarrow> iresult"

definition i_error :: "pb_errmsg \<Rightarrow> pb_istream \<Rightarrow> pb_istream" where
  "i_error msg s = s\<lparr>i_errmsg := PB_SET_ERROR (i_errmsg s) msg\<rparr>"

lemma i_error_simps [simp]:
  "i_callback (i_error msg s) = i_callback s"
  "i_state (i_error msg s) = i_state s"
  "bytes_left (i_error msg s) = bytes_left s"
  "i_errmsg (i_error msg s) = PB_SET_ERROR (i_errmsg s) msg"
  by (simp_all add: i_error_def)

section \<open>Operations\<close>

definition buf_read :: "pb_istream \<Rightarrow> bool \<Rightarrow> u64 \<Rightarrow> iresult" where
  "buf_read s want count =
     (if unat count \<le> length (i_state s)
      then Some (True, if want then take (unat count) (i_state s) else [],
                 s\<lparr>i_state := drop (unat count) (i_state s)\<rparr>)
      else None)"

definition i_call :: "user_read \<Rightarrow> pb_istream \<Rightarrow> bool \<Rightarrow> u64 \<Rightarrow> iresult" where
  "i_call rd s want count =
     (case i_callback s of
        Buf_read \<Rightarrow> buf_read s want count
      | User_read k \<Rightarrow> rd k s want count)"

text \<open>The part of \<open>pb_read\<close> after the skipping branch, for a count that is not zero.\<close>

definition pb_read_direct :: "user_read \<Rightarrow> pb_istream \<Rightarrow> bool \<Rightarrow> u64 \<Rightarrow> iresult" where
  "pb_read_direct rd s want count =
     (if bytes_left s < count then Some (False, [], i_error E_end_of_stream s)
      else do {
        (ok, bs, s') \<leftarrow> i_call rd s want count;
        if \<not> ok then Some (False, bs, i_error E_io_error s')
        else Some (True, bs, s'\<lparr>bytes_left := bytes_left s' - count\<rparr>)
      })"

definition pb_read_some :: "user_read \<Rightarrow> pb_istream \<Rightarrow> u64 \<Rightarrow> iresult" where
  "pb_read_some rd s count =
     (if count = 0 then Some (True, [], s) else pb_read_direct rd s True count)"

text \<open>Skipping on a user's stream: sixteen bytes at a time into a scratch array.\<close>

function pb_skip_bytes :: "user_read \<Rightarrow> pb_istream \<Rightarrow> u64 \<Rightarrow> iresult" where
  "pb_skip_bytes rd s count =
     (if count > 16
      then do {
        (ok, bs, s') \<leftarrow> pb_read_some rd s 16;
        if \<not> ok then Some (False, [], s') else pb_skip_bytes rd s' (count - 16)
      }
      else do {
        (ok, bs, s') \<leftarrow> pb_read_some rd s count;
        Some (ok, [], s')
      })"
  by pat_completeness auto
termination
  by (relation "measure (\<lambda>(rd, s, count). unat count)")
    (auto simp: word_less_nat_alt unat_sub word_le_nat_alt)

declare pb_skip_bytes.simps [simp del]

definition pb_read :: "user_read \<Rightarrow> pb_istream \<Rightarrow> bool \<Rightarrow> u64 \<Rightarrow> iresult" where
  "pb_read rd s want count =
     (if count = 0 then Some (True, [], s)
      else if \<not> want \<and> i_callback s \<noteq> Buf_read then pb_skip_bytes rd s count
      else pb_read_direct rd s want count)"

text \<open>\<open>pb_readbyte\<close>: the byte through \<open>*buf\<close>; a callback that claims success without
  storing it leaves the byte undefined.\<close>

definition pb_readbyte :: "user_read \<Rightarrow> pb_istream \<Rightarrow> (u8 option \<times> pb_istream) option" where
  "pb_readbyte rd s =
     (if bytes_left s = 0 then Some (None, i_error E_end_of_stream s)
      else do {
        (ok, bs, s') \<leftarrow> i_call rd s True 1;
        if \<not> ok then Some (None, i_error E_io_error s')
        else (case bs of
                [] \<Rightarrow> None
              | b # _ \<Rightarrow> Some (Some b, s'\<lparr>bytes_left := bytes_left s' - 1\<rparr>))
      })"

definition pb_istream_from_buffer :: "u8 list \<Rightarrow> u64 \<Rightarrow> pb_istream" where
  "pb_istream_from_buffer buf bufsize =
     \<lparr>i_callback = Buf_read, i_state = buf, bytes_left = bufsize, i_errmsg = None\<rparr>"

text \<open>The Boolean result of a read whose bytes nobody looks at.\<close>

definition read_ok :: "iresult \<Rightarrow> (unit option \<times> pb_istream) option" where
  "read_ok m = map_option (\<lambda>(ok, bs, s). (if ok then Some () else None, s)) m"

lemma read_ok_simps [simp]:
  "read_ok None = None"
  "read_ok (Some (True, bs, s)) = Some (Some (), s)"
  "read_ok (Some (False, bs, s)) = Some (None, s)"
  by (simp_all add: read_ok_def)

section \<open>What a well-behaved source promises\<close>

text \<open>
  \<open>pend s\<close> are the bytes the source can still deliver from the stream state of \<open>s\<close>.
  \<open>stream_ok\<close> says that the declared \<open>bytes_left\<close> are really there, \<open>advances s n s'\<close>
  that going from \<open>s\<close> to \<open>s'\<close> consumed exactly \<open>n\<close> bytes and nothing else changed.
\<close>

definition stream_ok :: "(pb_istream \<Rightarrow> u8 list) \<Rightarrow> pb_istream \<Rightarrow> bool" where
  "stream_ok pend s \<longleftrightarrow> unat (bytes_left s) \<le> length (pend s)"

definition advances ::
  "(pb_istream \<Rightarrow> u8 list) \<Rightarrow> pb_istream \<Rightarrow> nat \<Rightarrow> pb_istream \<Rightarrow> bool" where
  "advances pend s n s' \<longleftrightarrow>
     n \<le> unat (bytes_left s) \<and> unat (bytes_left s') = unat (bytes_left s) - n \<and>
     pend s' = drop n (pend s) \<and> i_callback s' = i_callback s \<and> i_errmsg s' = i_errmsg s"

lemma advances_0 [simp]: "advances pend s 0 s"
  by (simp add: advances_def)

lemma advances_trans:
  "advances pend s n s' \<Longrightarrow> advances pend s' m s'' \<Longrightarrow> advances pend s (n + m) s''"
  by (auto simp: advances_def add.commute)

lemma advances_stream_ok: "advances pend s n s' \<Longrightarrow> stream_ok pend s \<Longrightarrow> stream_ok pend s'"
  by (auto simp: advances_def stream_ok_def)

text \<open>The interface between a source of bytes and the decoder: the callback delivers the pending
  bytes in order, and touches nothing but its own state.\<close>

locale input_source =
  fixes rd :: user_read
    and pend :: "pb_istream \<Rightarrow> u8 list"
  assumes call_ok: "n \<noteq> 0 \<Longrightarrow> unat n \<le> length (pend s) \<Longrightarrow>
      \<exists>st. i_call rd s want n =
             Some (True, if want then take (unat n) (pend s) else [], s\<lparr>i_state := st\<rparr>) \<and>
           pend (s\<lparr>i_state := st\<rparr>) = drop (unat n) (pend s)"
    and pend_bytes_left: "pend (s\<lparr>bytes_left := k\<rparr>) = pend s"
    and pend_errmsg: "pend (s\<lparr>i_errmsg := e\<rparr>) = pend s"
begin

lemma pend_i_error [simp]: "pend (i_error m s) = pend s"
  by (simp add: i_error_def pend_errmsg)

lemma stream_ok_i_error [simp]: "stream_ok pend (i_error m s) = stream_ok pend s"
  by (simp add: stream_ok_def)

lemma read_direct_ok:
  assumes "stream_ok pend s" and "n \<noteq> 0" and "n \<le> bytes_left s"
  obtains s' where
    "pb_read_direct rd s want n = Some (True, if want then take (unat n) (pend s) else [], s')"
    and "advances pend s (unat n) s'"
proof -
  have n: "unat n \<le> unat (bytes_left s)"
    using assms(3) by (simp add: word_le_nat_alt)
  then have "unat n \<le> length (pend s)"
    using assms(1) by (simp add: stream_ok_def)
  from call_ok [OF assms(2) this] obtain st where
    st: "i_call rd s want n =
        Some (True, if want then take (unat n) (pend s) else [], s\<lparr>i_state := st\<rparr>)"
      "pend (s\<lparr>i_state := st\<rparr>) = drop (unat n) (pend s)"
    by blast
  have "pb_read_direct rd s want n =
      Some (True, if want then take (unat n) (pend s) else [],
        s\<lparr>i_state := st, bytes_left := bytes_left s - n\<rparr>)"
    using assms(3) st(1) by (simp add: pb_read_direct_def not_less)
  moreover have "advances pend s (unat n) (s\<lparr>i_state := st, bytes_left := bytes_left s - n\<rparr>)"
    using n st(2) assms(3) by (simp add: advances_def unat_sub pend_bytes_left)
  ultimately show thesis by (rule that)
qed

lemma read_direct_short:
  "bytes_left s < n \<Longrightarrow> pb_read_direct rd s want n = Some (False, [], i_error E_end_of_stream s)"
  by (simp add: pb_read_direct_def)

lemma readbyte_ok:
  assumes "stream_ok pend s" and "bytes_left s \<noteq> 0"
  obtains s' where "pb_readbyte rd s = Some (Some (hd (pend s)), s')" and "advances pend s 1 s'"
proof -
  have le: "1 \<le> bytes_left s" and pos: "0 < unat (bytes_left s)"
    using assms(2) by (simp_all add: word_le_nat_alt unat_gt_0 Suc_le_eq)
  with assms(1) have ne: "pend s \<noteq> []" and len: "unat (1 :: u64) \<le> length (pend s)"
    by (auto simp: stream_ok_def)
  from call_ok [OF _ len, of True] obtain st where
    st: "i_call rd s True 1 = Some (True, [hd (pend s)], s\<lparr>i_state := st\<rparr>)"
      "pend (s\<lparr>i_state := st\<rparr>) = drop 1 (pend s)"
    using ne by (auto simp: take_Suc)
  have "pb_readbyte rd s =
      Some (Some (hd (pend s)), s\<lparr>i_state := st, bytes_left := bytes_left s - 1\<rparr>)"
    using assms(2) st(1) by (simp add: pb_readbyte_def)
  moreover have "advances pend s 1 (s\<lparr>i_state := st, bytes_left := bytes_left s - 1\<rparr>)"
    using pos le st(2) by (simp add: advances_def unat_sub pend_bytes_left)
  ultimately show thesis by (rule that)
qed

lemma readbyte_end:
  "bytes_left s = 0 \<Longrightarrow> pb_readbyte rd s = Some (None, i_error E_end_of_stream s)"
  by (simp add: pb_readbyte_def)

end

text \<open>A buffer stream is such a source, whatever callbacks the user streams have.\<close>

definition buf_pending :: "pb_istream \<Rightarrow> u8 list" where
  "buf_pending s = (case i_callback s of Buf_read \<Rightarrow> i_state s | User_read k \<Rightarrow> [])"

lemma buf_pending_Buf [simp]: "i_callback s = Buf_read \<Longrightarrow> buf_pending s = i_state s"
  by (simp add: buf_pending_def)

interpretation buffer: input_source rd buf_pending for rd
  by unfold_locales
    (auto simp: buf_pending_def i_call_def buf_read_def unat_eq_0 split: icallback.splits)

text \<open>For a buffer stream \<open>advances\<close> determines the resulting stream.\<close>

lemma advances_buffer:
  assumes "advances buf_pending s n s'" and "i_callback s = Buf_read"
  shows "s' = s\<lparr>i_state := drop n (i_state s), bytes_left := bytes_left s - of_nat n\<rparr>"
proof -
  have "bytes_left s' = of_nat (unat (bytes_left s) - n)"
    using assms(1) by (metis advances_def of_nat_unat ucast_id)
  also have "\<dots> = bytes_left s - of_nat n"
    using assms(1) by (simp add: advances_def of_nat_diff)
  finally show ?thesis
    using assms by (intro pb_istream.equality) (auto simp: advances_def)
qed

end
