(* ===== verification/Pb_Decode_Prim.thy ===== *)
theory Pb_Decode_Prim
  imports Pb_IStream
begin

text \<open>
  The helper functions of \<open>nanopb/pb_decode.c\<close> that read wire-format tokens: varints, tags,
  skipping, raw values, length-delimited substreams and the fixed-width scalars. Each is the C
  function with its loop as \<open>c_loop\<close>; \<open>bitpos\<close> is the C program's \<open>uint_fast8_t\<close>
  (eight bits on the targets), so its wrap-around is in the model.
\<close>

section \<open>Varints\<close>

text \<open>One round of the multi-byte case of \<open>pb_decode_varint32_eof\<close>.\<close>

definition varint32_round ::
  "user_read \<Rightarrow> u8 \<times> u32 \<times> pb_istream \<Rightarrow>
   ((u8 \<times> u32 \<times> pb_istream) + (u32 option \<times> pb_istream)) option" where
  "varint32_round rd = (\<lambda>(bitpos, result, s). do {
     (r, s1) \<leftarrow> pb_readbyte rd s;
     (case r of
        None \<Rightarrow> Some (Inr (None, s1))
      | Some byte \<Rightarrow>
          let sign_extension = (if bitpos < 63 then 0xFF else 0x01);
              bitpos' = bitpos + 7
          in if bitpos \<ge> 32 \<and> byte AND 0x7F \<noteq> 0 \<and>
                (drop_bit 31 result = 0 \<or> byte \<noteq> sign_extension)
             then Some (Inr (None, i_error E_varint_overflow s1))
             else let result' = (if bitpos \<ge> 32 then result
                                 else result OR push_bit (unat bitpos) (ucast (byte AND 0x7F)))
                  in if byte AND 0x80 \<noteq> 0 then Some (Inl (bitpos', result', s1))
                     else if bitpos' = 35 \<and> byte AND 0x70 \<noteq> 0
                     then Some (Inr (None, i_error E_varint_overflow s1))
                     else Some (Inr (Some result', s1)))
   })"

text \<open>The second component of the result is whether \<open>*eof\<close> was set.\<close>

definition pb_decode_varint32_eof ::
  "user_read \<Rightarrow> pb_istream \<Rightarrow> (u32 option \<times> bool \<times> pb_istream) option" where
  "pb_decode_varint32_eof rd s = do {
     (r, s1) \<leftarrow> pb_readbyte rd s;
     (case r of
        None \<Rightarrow> Some (None, bytes_left s1 = 0, s1)
      | Some byte \<Rightarrow>
          if byte AND 0x80 = 0 then Some (Some (ucast byte), False, s1)
          else do {
            (v, s2) \<leftarrow> c_loop (varint32_round rd) (7, ucast (byte AND 0x7F), s1);
            Some (v, False, s2)
          })
   }"

definition pb_decode_varint32 ::
  "user_read \<Rightarrow> pb_istream \<Rightarrow> (u32 option \<times> pb_istream) option" where
  "pb_decode_varint32 rd s = do {
     (v, eof, s1) \<leftarrow> pb_decode_varint32_eof rd s;
     Some (v, s1)
   }"

definition varint_round ::
  "user_read \<Rightarrow> u8 \<times> u64 \<times> pb_istream \<Rightarrow>
   ((u8 \<times> u64 \<times> pb_istream) + (u64 option \<times> pb_istream)) option" where
  "varint_round rd = (\<lambda>(bitpos, result, s).
     if bitpos \<ge> 64 then Some (Inr (None, i_error E_varint_overflow s))
     else do {
       (r, s1) \<leftarrow> pb_readbyte rd s;
       (case r of
          None \<Rightarrow> Some (Inr (None, s1))
        | Some byte \<Rightarrow>
            let result' = result OR push_bit (unat bitpos) (ucast (byte AND 0x7F));
                bitpos' = bitpos + 7
            in if byte AND 0x80 \<noteq> 0 then Some (Inl (bitpos', result', s1))
               else Some (Inr (Some result', s1)))
     })"

definition pb_decode_varint :: "user_read \<Rightarrow> pb_istream \<Rightarrow> (u64 option \<times> pb_istream) option" where
  "pb_decode_varint rd s = c_loop (varint_round rd) (0, 0, s)"

definition pb_decode_svarint :: "user_read \<Rightarrow> pb_istream \<Rightarrow> (u64 option \<times> pb_istream) option" where
  "pb_decode_svarint rd s =
     c_try (pb_decode_varint rd s)
       (\<lambda>value s1.
          if value AND 1 \<noteq> 0 then Some (Some (NOT (drop_bit 1 value)), s1)
          else Some (Some (drop_bit 1 value), s1))"

section \<open>Skipping and tags\<close>

definition skip_varint_round ::
  "user_read \<Rightarrow> pb_istream \<Rightarrow> (pb_istream + (unit option \<times> pb_istream)) option" where
  "skip_varint_round rd s = do {
     (ok, bs, s1) \<leftarrow> pb_read rd s True 1;
     if \<not> ok then Some (Inr (None, s1))
     else (case bs of
             [] \<Rightarrow> None
           | byte # _ \<Rightarrow> if byte AND 0x80 \<noteq> 0 then Some (Inl s1) else Some (Inr (Some (), s1)))
   }"

definition pb_skip_varint :: "user_read \<Rightarrow> pb_istream \<Rightarrow> (unit option \<times> pb_istream) option" where
  "pb_skip_varint rd s = c_loop (skip_varint_round rd) s"

definition pb_skip_string :: "user_read \<Rightarrow> pb_istream \<Rightarrow> (unit option \<times> pb_istream) option" where
  "pb_skip_string rd s =
     c_try (pb_decode_varint32 rd s)
       (\<lambda>length s1. read_ok (pb_read rd s1 False (ucast length)))"

text \<open>Wire type and tag, and whether \<open>*eof\<close> is set on return.\<close>

definition pb_decode_tag ::
  "user_read \<Rightarrow> pb_istream \<Rightarrow> ((pb_wire_type \<times> u32) option \<times> bool \<times> pb_istream) option" where
  "pb_decode_tag rd s = do {
     (v, eof, s1) \<leftarrow> pb_decode_varint32_eof rd s;
     (case v of
        None \<Rightarrow> Some (None, eof, s1)
      | Some temp \<Rightarrow>
          if temp = 0 then Some (None, True, s1)
          else Some (Some (temp AND 7, drop_bit 3 temp), eof, s1))
   }"

definition pb_skip_field ::
  "user_read \<Rightarrow> pb_istream \<Rightarrow> pb_wire_type \<Rightarrow> (unit option \<times> pb_istream) option" where
  "pb_skip_field rd s wire_type =
     (if wire_type = PB_WT_VARINT then pb_skip_varint rd s
      else if wire_type = PB_WT_64BIT then read_ok (pb_read rd s False 8)
      else if wire_type = PB_WT_STRING then pb_skip_string rd s
      else if wire_type = PB_WT_32BIT then read_ok (pb_read rd s False 4)
      else Some (None, i_error E_invalid_wire_type s))"

text \<open>\<open>read_raw_value\<close>: the bytes it leaves in the buffer of \<open>max_size\<close> bytes; their
  number is \<open>*size\<close> on return.\<close>

definition raw_varint_round ::
  "user_read \<Rightarrow> nat \<Rightarrow> u8 list \<times> pb_istream \<Rightarrow>
   ((u8 list \<times> pb_istream) + (u8 list option \<times> pb_istream)) option" where
  "raw_varint_round rd max_size = (\<lambda>(buf, s).
     if length buf + 1 > max_size then Some (Inr (None, s))
     else do {
       (ok, bs, s1) \<leftarrow> pb_read rd s True 1;
       if \<not> ok then Some (Inr (None, s1))
       else (case bs of
               [] \<Rightarrow> None
             | byte # _ \<Rightarrow>
                 if byte AND 0x80 \<noteq> 0 then Some (Inl (buf @ [byte], s1))
                 else Some (Inr (Some (buf @ [byte]), s1)))
     })"

definition raw_bytes :: "iresult \<Rightarrow> (u8 list option \<times> pb_istream) option" where
  "raw_bytes m = map_option (\<lambda>(ok, bs, s). (if ok then Some bs else None, s)) m"

definition read_raw_value ::
  "user_read \<Rightarrow> pb_istream \<Rightarrow> pb_wire_type \<Rightarrow> nat \<Rightarrow> (u8 list option \<times> pb_istream) option" where
  "read_raw_value rd s wire_type max_size =
     (if wire_type = PB_WT_VARINT then c_loop (raw_varint_round rd max_size) ([], s)
      else if wire_type = PB_WT_64BIT then raw_bytes (pb_read rd s True 8)
      else if wire_type = PB_WT_32BIT then raw_bytes (pb_read rd s True 4)
      else Some (None, i_error E_invalid_wire_type s))"

section \<open>Substreams\<close>

text \<open>The substream is the result; the parent's \<open>bytes_left\<close> is reduced at once, its read
  position only when the substream is closed.\<close>

definition pb_make_string_substream ::
  "user_read \<Rightarrow> pb_istream \<Rightarrow> (pb_istream option \<times> pb_istream) option" where
  "pb_make_string_substream rd s =
     c_try (pb_decode_varint32 rd s)
       (\<lambda>size s1.
          if bytes_left s1 < ucast size then Some (None, i_error E_parent_stream_too_short s1)
          else Some (Some (s1\<lparr>bytes_left := ucast size\<rparr>),
                     s1\<lparr>bytes_left := bytes_left s1 - ucast size\<rparr>))"

definition pb_close_string_substream ::
  "user_read \<Rightarrow> pb_istream \<Rightarrow> pb_istream \<Rightarrow> (unit option \<times> pb_istream) option" where
  "pb_close_string_substream rd s sub = do {
     (ok, bs, sub1) \<leftarrow>
        (if bytes_left sub \<noteq> 0 then pb_read rd sub False (bytes_left sub) else Some (True, [], sub));
     if \<not> ok then Some (None, s)
     else Some (Some (), s\<lparr>i_state := i_state sub1, i_errmsg := i_errmsg sub1\<rparr>)
   }"

section \<open>Fixed-width scalars\<close>

definition pb_decode_fixed32 :: "user_read \<Rightarrow> pb_istream \<Rightarrow> (u32 option \<times> pb_istream) option" where
  "pb_decode_fixed32 rd s = do {
     (ok, bs, s1) \<leftarrow> pb_read rd s True 4;
     if \<not> ok then Some (None, s1)
     else (case bs of
       [b0, b1, b2, b3] \<Rightarrow>
         Some (Some (push_bit 0 (ucast b0) OR push_bit 8 (ucast b1) OR
                     push_bit 16 (ucast b2) OR push_bit 24 (ucast b3)), s1)
     | _ \<Rightarrow> None)
   }"

definition pb_decode_fixed64 :: "user_read \<Rightarrow> pb_istream \<Rightarrow> (u64 option \<times> pb_istream) option" where
  "pb_decode_fixed64 rd s = do {
     (ok, bs, s1) \<leftarrow> pb_read rd s True 8;
     if \<not> ok then Some (None, s1)
     else (case bs of
       [b0, b1, b2, b3, b4, b5, b6, b7] \<Rightarrow>
         Some (Some (push_bit 0 (ucast b0) OR push_bit 8 (ucast b1) OR
                     push_bit 16 (ucast b2) OR push_bit 24 (ucast b3) OR
                     push_bit 32 (ucast b4) OR push_bit 40 (ucast b5) OR
                     push_bit 48 (ucast b6) OR push_bit 56 (ucast b7)), s1)
     | _ \<Rightarrow> None)
   }"

definition pb_decode_bool :: "user_read \<Rightarrow> pb_istream \<Rightarrow> (bool option \<times> pb_istream) option" where
  "pb_decode_bool rd s =
     c_try (pb_decode_varint32 rd s) (\<lambda>value s1. Some (Some (value \<noteq> 0), s1))"

end
