(* ===== verification/Pb_OStream.thy ===== *)
theory Pb_OStream
  imports Pb_Types "HOL-Library.Sublist"
begin

text \<open>
  The output stream of \<open>nanopb/pb_encode.c\<close> and the functions that write wire-format
  tokens. \<open>o_state\<close> holds the bytes stored so far behind \<open>stream->state\<close> (for a user's
  stream, its private state), \<open>o_room\<close> the bytes of the caller's buffer still ahead of it; a
  store past the buffer is \<open>None\<close>. The callbacks of user streams are the parameter \<open>wr\<close>.
\<close>

section \<open>State\<close>

datatype ocallback = O_null | Buf_write | User_write nat

record pb_ostream =
  o_callback :: ocallback
  o_state :: "u8 list"
  o_room :: nat
  max_size :: u64
  bytes_written :: u64
  o_errmsg :: "pb_errmsg option"

type_synonym oresult = "(unit option \<times> pb_ostream) option"
type_synonym user_write = "nat \<Rightarrow> pb_ostream \<Rightarrow> u8 list \<Rightarrow> (bool \<times> pb_ostream) option"

definition o_error :: "pb_errmsg \<Rightarrow> pb_ostream \<Rightarrow> pb_ostream" where
  "o_error msg s = s\<lparr>o_errmsg := PB_SET_ERROR (o_errmsg s) msg\<rparr>"

lemma o_error_simps [simp]:
  "o_callback (o_error msg s) = o_callback s"
  "o_state (o_error msg s) = o_state s"
  "o_room (o_error msg s) = o_room s"
  "max_size (o_error msg s) = max_size s"
  "bytes_written (o_error msg s) = bytes_written s"
  "o_errmsg (o_error msg s) = PB_SET_ERROR (o_errmsg s) msg"
  by (simp_all add: o_error_def)

definition PB_OSTREAM_SIZING :: pb_ostream where
  "PB_OSTREAM_SIZING =
     \<lparr>o_callback = O_null, o_state = [], o_room = 0, max_size = 0, bytes_written = 0,
      o_errmsg = None\<rparr>"

definition pb_ostream_from_buffer :: "nat \<Rightarrow> u64 \<Rightarrow> pb_ostream" where
  "pb_ostream_from_buffer room bufsize =
     \<lparr>o_callback = Buf_write, o_state = [], o_room = room, max_size = bufsize,
      bytes_written = 0, o_errmsg = None\<rparr>"

section \<open>Writing bytes\<close>

definition buf_write :: "pb_ostream \<Rightarrow> u8 list \<Rightarrow> (bool \<times> pb_ostream) option" where
  "buf_write s bs =
     (if length bs \<le> o_room s
      then Some (True, s\<lparr>o_state := o_state s @ bs, o_room := o_room s - length bs\<rparr>)
      else None)"

definition o_call :: "user_write \<Rightarrow> pb_ostream \<Rightarrow> u8 list \<Rightarrow> (bool \<times> pb_ostream) option" where
  "o_call wr s bs =
     (case o_callback s of
        O_null \<Rightarrow> None
      | Buf_write \<Rightarrow> buf_write s bs
      | User_write k \<Rightarrow> wr k s bs)"

text \<open>\<open>buf\<close> is \<open>None\<close> for a null pointer; the callback sees the first \<open>count\<close> bytes
  behind it.\<close>

definition pb_write :: "user_write \<Rightarrow> pb_ostream \<Rightarrow> u8 list option \<Rightarrow> u64 \<Rightarrow> oresult" where
  "pb_write wr s buf count =
     (if count > 0 \<and> o_callback s \<noteq> O_null
      then if bytes_written s + count < bytes_written s \<or> bytes_written s + count > max_size s
           then Some (None, o_error E_stream_full s)
           else (case buf of
                   None \<Rightarrow> None
                 | Some bs \<Rightarrow>
                     if length bs < unat count then None
                     else do {
                       (ok, s1) \<leftarrow> o_call wr s (take (unat count) bs);
                       if \<not> ok then Some (None, o_error E_io_error s1)
                       else Some (Some (), s1\<lparr>bytes_written := bytes_written s1 + count\<rparr>)
                     })
      else Some (Some (), s\<lparr>bytes_written := bytes_written s + count\<rparr>))"

section \<open>Varints and tags\<close>

text \<open>The \<open>while (value)\<close> loop of \<open>pb_encode_varint\<close>: what it stores in the local buffer of
  ten bytes.\<close>

function varint_chunks :: "u64 \<Rightarrow> u8 list" where
  "varint_chunks value =
     (if value = 0 then []
      else (ucast (value AND 0x7F) OR 0x80) # varint_chunks (drop_bit 7 value))"
  by pat_completeness auto
termination
proof (relation "measure unat")
  fix v :: u64
  assume "v \<noteq> 0"
  then have "0 < unat v" by (simp add: unat_gt_0)
  then show "(drop_bit 7 v, v) \<in> measure unat"
    by (simp add: drop_bit_eq_div unat_div)
qed simp

declare varint_chunks.simps [simp del]

definition pb_encode_varint :: "user_write \<Rightarrow> pb_ostream \<Rightarrow> u64 \<Rightarrow> oresult" where
  "pb_encode_varint wr s value =
     (if value \<le> 0x7F then pb_write wr s (Some [ucast value]) 1
      else let buffer = varint_chunks value; i = length buffer
           in if i > 10 then None
              else pb_write wr s (Some (buffer[i - 1 := (buffer ! (i - 1)) AND 0x7F])) (of_nat i))"

definition pb_encode_svarint :: "user_write \<Rightarrow> pb_ostream \<Rightarrow> u64 \<Rightarrow> oresult" where
  "pb_encode_svarint wr s value =
     (let zigzagged = (if value <s 0 then NOT (push_bit 1 value) else push_bit 1 value)
      in pb_encode_varint wr s zigzagged)"

definition pb_encode_tag :: "user_write \<Rightarrow> pb_ostream \<Rightarrow> pb_wire_type \<Rightarrow> u32 \<Rightarrow> oresult" where
  "pb_encode_tag wr s wiretype field_number =
     (let tag = push_bit 3 (ucast field_number :: u64) OR ucast wiretype
      in pb_encode_varint wr s tag)"

text \<open>\<open>None\<close> is the \<open>default\<close> branch of the switch.\<close>

definition wire_type_of_ltype :: "u8 \<Rightarrow> pb_wire_type option" where
  "wire_type_of_ltype lt =
     (if lt = PB_LTYPE_BOOL \<or> lt = PB_LTYPE_VARINT \<or> lt = PB_LTYPE_UVARINT \<or>
         lt = PB_LTYPE_SVARINT then Some PB_WT_VARINT
      else if lt = PB_LTYPE_FIXED32 then Some PB_WT_32BIT
      else if lt = PB_LTYPE_FIXED64 then Some PB_WT_64BIT
      else if lt = PB_LTYPE_BYTES \<or> lt = PB_LTYPE_STRING \<or> lt = PB_LTYPE_SUBMESSAGE \<or>
              lt = PB_LTYPE_FIXED_LENGTH_BYTES then Some PB_WT_STRING
      else None)"

definition pb_encode_tag_for_field :: "user_write \<Rightarrow> pb_ostream \<Rightarrow> pb_field \<Rightarrow> oresult" where
  "pb_encode_tag_for_field wr s field =
     (case wire_type_of_ltype (PB_LTYPE (ftype field)) of
        None \<Rightarrow> Some (None, o_error E_invalid_field_type s)
      | Some wiretype \<Rightarrow> pb_encode_tag wr s wiretype (tag field))"

section \<open>Length-delimited and fixed-width values\<close>

definition pb_encode_string :: "user_write \<Rightarrow> pb_ostream \<Rightarrow> u8 list option \<Rightarrow> u64 \<Rightarrow> oresult" where
  "pb_encode_string wr s buffer len =
     c_try (pb_encode_varint wr s len) (\<lambda>_ s1. pb_write wr s1 buffer len)"

definition pb_encode_fixed32 :: "user_write \<Rightarrow> pb_ostream \<Rightarrow> u32 \<Rightarrow> oresult" where
  "pb_encode_fixed32 wr s val =
     pb_write wr s
       (Some [ucast (val AND 0xFF), ucast (drop_bit 8 val AND 0xFF),
              ucast (drop_bit 16 val AND 0xFF), ucast (drop_bit 24 val AND 0xFF)]) 4"

definition pb_encode_fixed64 :: "user_write \<Rightarrow> pb_ostream \<Rightarrow> u64 \<Rightarrow> oresult" where
  "pb_encode_fixed64 wr s val =
     pb_write wr s
       (Some [ucast (val AND 0xFF), ucast (drop_bit 8 val AND 0xFF),
              ucast (drop_bit 16 val AND 0xFF), ucast (drop_bit 24 val AND 0xFF),
              ucast (drop_bit 32 val AND 0xFF), ucast (drop_bit 40 val AND 0xFF),
              ucast (drop_bit 48 val AND 0xFF), ucast (drop_bit 56 val AND 0xFF)]) 8"

section \<open>What an encoder writes\<close>

definition o_ok :: "(pb_ostream \<Rightarrow> nat) \<Rightarrow> pb_ostream \<Rightarrow> bool" where
  "o_ok room s \<longleftrightarrow>
     o_callback s \<noteq> O_null \<and> o_errmsg s = None \<and> bytes_written s \<le> max_size s \<and>
     unat (max_size s) - unat (bytes_written s) \<le> room s"

definition o_fits :: "pb_ostream \<Rightarrow> nat \<Rightarrow> bool" where
  "o_fits s n \<longleftrightarrow> unat (bytes_written s) + n \<le> unat (max_size s)"

definition emitted ::
  "(pb_ostream \<Rightarrow> nat) \<Rightarrow> (pb_ostream \<Rightarrow> u8 list) \<Rightarrow> pb_ostream \<Rightarrow> u8 list \<Rightarrow> pb_ostream \<Rightarrow> bool"
where
  "emitted room out s bs s' \<longleftrightarrow>
     out s' = out s @ bs \<and> room s' = room s - length bs \<and>
     unat (bytes_written s') = unat (bytes_written s) + length bs \<and>
     max_size s' = max_size s \<and> o_callback s' = o_callback s \<and> o_errmsg s' = o_errmsg s"

text \<open>
  \<open>encodes room out F bs\<close>: the encoder \<open>F\<close> stands for the byte string \<open>bs\<close>. On a sizing
  stream it only counts; on a stream with room it stores exactly \<open>bs\<close>; on a stream whose
  declared size is too small it stores a prefix and fails with the message "stream full", as long
  as the count of bytes does not pass \<open>2 ^ 64\<close>.
\<close>

definition encodes ::
  "(pb_ostream \<Rightarrow> nat) \<Rightarrow> (pb_ostream \<Rightarrow> u8 list) \<Rightarrow> (pb_ostream \<Rightarrow> oresult) \<Rightarrow> u8 list \<Rightarrow> bool"
where
  "encodes room out F bs \<longleftrightarrow>
     (\<forall>s. o_callback s = O_null \<longrightarrow>
        F s = Some (Some (), s\<lparr>bytes_written := bytes_written s + of_nat (length bs)\<rparr>)) \<and>
     (\<forall>s. o_ok room s \<and> o_fits s (length bs) \<longrightarrow>
        (\<exists>s'. F s = Some (Some (), s') \<and> emitted room out s bs s')) \<and>
     (\<forall>s. o_ok room s \<and> \<not> o_fits s (length bs) \<and> unat (bytes_written s) + length bs < 2 ^ 64 \<longrightarrow>
        (\<exists>s' cs. F s = Some (None, s') \<and> prefix cs bs \<and> out s' = out s @ cs \<and>
           o_errmsg s' = Some E_stream_full))"

lemma encodesI:
  assumes "\<And>s. o_callback s = O_null \<Longrightarrow>
        F s = Some (Some (), s\<lparr>bytes_written := bytes_written s + of_nat (length bs)\<rparr>)"
    and "\<And>s. o_ok room s \<Longrightarrow> o_fits s (length bs) \<Longrightarrow>
        \<exists>s'. F s = Some (Some (), s') \<and> emitted room out s bs s'"
    and "\<And>s. o_ok room s \<Longrightarrow> \<not> o_fits s (length bs) \<Longrightarrow>
        unat (bytes_written s) + length bs < 2 ^ 64 \<Longrightarrow>
        \<exists>s' cs. F s = Some (None, s') \<and> prefix cs bs \<and> out s' = out s @ cs \<and>
           o_errmsg s' = Some E_stream_full"
  shows "encodes room out F bs"
  using assms by (simp add: encodes_def)

lemma encodes_sizing:
  "encodes room out F bs \<Longrightarrow> o_callback s = O_null \<Longrightarrow>
   F s = Some (Some (), s\<lparr>bytes_written := bytes_written s + of_nat (length bs)\<rparr>)"
  by (simp add: encodes_def)

lemma encodes_fits:
  assumes "encodes room out F bs" and "o_ok room s" and "o_fits s (length bs)"
  obtains s' where "F s = Some (Some (), s')" and "emitted room out s bs s'"
  using assms unfolding encodes_def by blast

lemma encodes_full:
  assumes "encodes room out F bs" and "o_ok room s" and "\<not> o_fits s (length bs)"
    and "unat (bytes_written s) + length bs < 2 ^ 64"
  obtains s' cs where "F s = Some (None, s')" and "prefix cs bs" and "out s' = out s @ cs"
    and "o_errmsg s' = Some E_stream_full"
  using assms unfolding encodes_def by blast

lemma emitted_trans:
  "emitted room out s bs s' \<Longrightarrow> emitted room out s' cs s'' \<Longrightarrow> emitted room out s (bs @ cs) s''"
  by (auto simp: emitted_def)

lemma emitted_o_ok:
  assumes "emitted room out s bs s'" and "o_ok room s" and "o_fits s (length bs)"
  shows "o_ok room s'"
  using assms by (auto simp: emitted_def o_ok_def o_fits_def word_le_nat_alt)

lemma emitted_o_fits:
  "emitted room out s bs s' \<Longrightarrow> o_fits s' n \<longleftrightarrow> o_fits s (length bs + n)"
  by (auto simp: emitted_def o_fits_def)

lemma encodes_Nil: "encodes room out (\<lambda>s. Some (Some (), s)) []"
  by (rule encodesI) (auto simp: emitted_def o_fits_def o_ok_def word_le_nat_alt)

text \<open>Sequencing encoders concatenates their byte strings.\<close>

lemma encodes_seq:
  assumes F: "encodes room out F bs" and G: "encodes room out G cs"
  shows "encodes room out (\<lambda>s. c_try (F s) (\<lambda>_ s1. G s1)) (bs @ cs)"
proof (rule encodesI)
  fix s :: pb_ostream assume s: "o_callback s = O_null"
  then show "c_try (F s) (\<lambda>_ s1. G s1) =
      Some (Some (), s\<lparr>bytes_written := bytes_written s + of_nat (length (bs @ cs))\<rparr>)"
    by (simp add: encodes_sizing [OF F] encodes_sizing [OF G] add.assoc)
next
  fix s :: pb_ostream assume s: "o_ok room s" and fits: "o_fits s (length (bs @ cs))"
  then have "o_fits s (length bs)" by (simp add: o_fits_def)
  from F s this obtain s1 where s1: "F s = Some (Some (), s1)" "emitted room out s bs s1"
    by (rule encodes_fits)
  have "o_ok room s1" "o_fits s1 (length cs)"
    using emitted_o_ok [OF s1(2) s \<open>o_fits s (length bs)\<close>] emitted_o_fits [OF s1(2)] fits by simp_all
  with G obtain s2 where "G s1 = Some (Some (), s2)" "emitted room out s1 cs s2"
    by (rule encodes_fits)
  with s1 show "\<exists>s'. c_try (F s) (\<lambda>_ s1. G s1) = Some (Some (), s') \<and>
      emitted room out s (bs @ cs) s'"
    by (auto intro: emitted_trans)
next
  fix s :: pb_ostream assume s: "o_ok room s" and full: "\<not> o_fits s (length (bs @ cs))"
    and small: "unat (bytes_written s) + length (bs @ cs) < 2 ^ 64"
  show "\<exists>s' xs. c_try (F s) (\<lambda>_ s1. G s1) = Some (None, s') \<and> prefix xs (bs @ cs) \<and>
      out s' = out s @ xs \<and> o_errmsg s' = Some E_stream_full"
  proof (cases "o_fits s (length bs)")
    case False
    have "unat (bytes_written s) + length bs < 2 ^ 64" using small by simp
    with F s False obtain s' xs where "F s = Some (None, s')" "prefix xs bs" "out s' = out s @ xs"
      "o_errmsg s' = Some E_stream_full" by (rule encodes_full)
    then show ?thesis by auto
  next
    case True
    with F s obtain s1 where s1: "F s = Some (Some (), s1)" "emitted room out s bs s1"
      by (rule encodes_fits)
    have "o_ok room s1" "\<not> o_fits s1 (length cs)"
      using emitted_o_ok [OF s1(2) s True] emitted_o_fits [OF s1(2)] full by simp_all
    moreover have "unat (bytes_written s1) + length cs < 2 ^ 64"
      using small s1(2) by (simp add: emitted_def)
    ultimately obtain s' xs where "G s1 = Some (None, s')" "prefix xs cs" "out s' = out s1 @ xs"
      "o_errmsg s' = Some E_stream_full" using G by (elim encodes_full [rotated 1])
    with s1 show ?thesis by (auto simp: emitted_def)
  qed
qed

text \<open>The interface between a sink of bytes and the encoder.\<close>

locale output_sink =
  fixes wr :: user_write
    and room :: "pb_ostream \<Rightarrow> nat"
    and out :: "pb_ostream \<Rightarrow> u8 list"
  assumes accept: "bs \<noteq> [] \<Longrightarrow> o_callback s \<noteq> O_null \<Longrightarrow> length bs \<le> room s \<Longrightarrow>
      \<exists>st r. o_call wr s bs = Some (True, s\<lparr>o_state := st, o_room := r\<rparr>) \<and>
        out (s\<lparr>o_state := st, o_room := r\<rparr>) = out s @ bs \<and>
        room (s\<lparr>o_state := st, o_room := r\<rparr>) = room s - length bs"
    and sink_frame: "room (s\<lparr>bytes_written := n\<rparr>) = room s" "out (s\<lparr>bytes_written := n\<rparr>) = out s"
      "room (s\<lparr>max_size := n\<rparr>) = room s" "out (s\<lparr>max_size := n\<rparr>) = out s"
      "room (s\<lparr>o_errmsg := e\<rparr>) = room s" "out (s\<lparr>o_errmsg := e\<rparr>) = out s"
begin

lemma encodes_write:
  assumes len: "length bs < 2 ^ 64"
  shows "encodes room out (\<lambda>s. pb_write wr s (Some bs) (of_nat (length bs))) bs"
proof (cases "bs = []")
  case True
  then show ?thesis
    using encodes_Nil by (simp add: pb_write_def)
next
  case False
  have u: "unat (of_nat (length bs) :: u64) = length bs"
    using len by (simp add: unat_of_nat take_bit_nat_eq_self)
  have pos: "(0 :: u64) < of_nat (length bs)"
    using False u by (simp add: word_less_nat_alt)
  have wraps: "(bytes_written s + of_nat (length bs) < bytes_written s \<or>
        bytes_written s + of_nat (length bs) > max_size s) \<longleftrightarrow> \<not> o_fits s (length bs)"
    if "bytes_written s \<le> max_size s" for s :: pb_ostream
    using that u len unsigned_less [of "max_size s", where ?'a = nat]
    by (auto simp: o_fits_def word_less_nat_alt word_le_nat_alt unat_plus_if' split: if_splits)
  show ?thesis
  proof (rule encodesI)
    fix s :: pb_ostream assume "o_callback s = O_null"
    then show "pb_write wr s (Some bs) (of_nat (length bs)) =
        Some (Some (), s\<lparr>bytes_written := bytes_written s + of_nat (length bs)\<rparr>)"
      by (simp add: pb_write_def)
  next
    fix s :: pb_ostream assume s: "o_ok room s" and fits: "o_fits s (length bs)"
    then have "length bs \<le> room s" and cb: "o_callback s \<noteq> O_null" and "bytes_written s \<le> max_size s"
      by (auto simp: o_ok_def o_fits_def)
    with accept [OF False cb] obtain st r where st:
      "o_call wr s bs = Some (True, s\<lparr>o_state := st, o_room := r\<rparr>)"
      "out (s\<lparr>o_state := st, o_room := r\<rparr>) = out s @ bs"
      "room (s\<lparr>o_state := st, o_room := r\<rparr>) = room s - length bs" by blast
    let ?s = "s\<lparr>o_state := st, o_room := r, bytes_written := bytes_written s + of_nat (length bs)\<rparr>"
    have "pb_write wr s (Some bs) (of_nat (length bs)) = Some (Some (), ?s)"
      using pos cb wraps [OF \<open>bytes_written s \<le> max_size s\<close>] fits st(1) u by (auto simp: pb_write_def)
    moreover have "emitted room out s bs ?s"
      using st fits u unsigned_less [of "max_size s", where ?'a = nat]
      by (auto simp: emitted_def sink_frame o_fits_def unat_plus_if')
    ultimately show "\<exists>s'. pb_write wr s (Some bs) (of_nat (length bs)) = Some (Some (), s') \<and>
        emitted room out s bs s'" by blast
  next
    fix s :: pb_ostream assume s: "o_ok room s" and full: "\<not> o_fits s (length bs)"
    then have "pb_write wr s (Some bs) (of_nat (length bs)) = Some (None, o_error E_stream_full s)"
      using pos wraps [of s] by (auto simp: pb_write_def o_ok_def)
    moreover have "out (o_error E_stream_full s) = out s"
      by (simp add: o_error_def sink_frame)
    ultimately show "\<exists>s' cs. pb_write wr s (Some bs) (of_nat (length bs)) = Some (None, s') \<and>
        prefix cs bs \<and> out s' = out s @ cs \<and> o_errmsg s' = Some E_stream_full"
      using s by (intro exI [of _ "o_error E_stream_full s"] exI [of _ "[]"]) (simp add: o_ok_def)
  qed
qed

end

definition buf_room :: "pb_ostream \<Rightarrow> nat" where
  "buf_room s = (case o_callback s of Buf_write \<Rightarrow> o_room s | _ \<Rightarrow> 0)"

definition buf_out :: "pb_ostream \<Rightarrow> u8 list" where
  "buf_out s = o_state s"

interpretation obuf: output_sink wr buf_room buf_out for wr
  by unfold_locales
    (auto simp: buf_room_def buf_out_def o_call_def buf_write_def split: ocallback.splits)

end
