(* ===== verification/Varint.thy ===== *)
theory Varint
  imports Pb_Decode_Prim Pb_OStream
begin

text \<open>
  Base-128 varints. \<open>varint_spec n\<close> is the representation the protobuf documentation gives:
  groups of seven bits, least significant first, all but the last with the top bit set. The
  writer \<open>pb_encode_varint\<close> produces it, the 64-bit reader inverts it, and the 32-bit reader
  accepts exactly the values \<open>accepts32\<close> describes. The reader lemmas are proved once for
  every source of bytes (locale \<open>input_source\<close>), the writer lemmas for every sink
  (locale \<open>output_sink\<close>).
\<close>

section \<open>The base-128 representation\<close>

fun varint_spec :: "nat \<Rightarrow> u8 list" where
  "varint_spec n =
     (if n < 128 then [of_nat n] else of_nat (n mod 128 + 128) # varint_spec (n div 128))"

declare varint_spec.simps [simp del]

lemma varint_small: "n < 128 \<Longrightarrow> varint_spec n = [of_nat n]"
  by (simp add: varint_spec.simps)

lemma varint_big: "128 \<le> n \<Longrightarrow> varint_spec n = of_nat (n mod 128 + 128) # varint_spec (n div 128)"
  by (subst varint_spec.simps) simp

lemma varint_spec_not_Nil [simp]: "varint_spec n \<noteq> []"
  by (subst varint_spec.simps) simp

lemma length_varint_spec: "n < 128 ^ k \<Longrightarrow> 0 < k \<Longrightarrow> length (varint_spec n) \<le> k"
proof (induction k arbitrary: n)
  case (Suc k)
  show ?case
  proof (cases "n < 128")
    case False
    then have "n div 128 < 128 ^ k" "0 < k"
      using Suc.prems by (auto simp: less_mult_imp_div_less mult.commute intro: Suc_lessI gr0I)
    with Suc.IH False show ?thesis by (simp add: varint_big)
  qed (simp add: varint_small)
qed simp

section \<open>Writing a varint\<close>

lemma unat_and_mask7: "unat (v AND 0x7F :: u64) = unat v mod 128"
proof -
  have "unat (v AND 0x7F) = unat v AND mask 7"
    by (simp add: unsigned_and_eq mask_eq_exp_minus_1)
  then show ?thesis by (simp add: take_bit_eq_mask [symmetric] take_bit_eq_mod)
qed

lemma unat_drop_bit_7: "unat (drop_bit 7 v :: u64) = unat v div 128"
  by (simp add: drop_bit_eq_div unat_div)

lemma chunk_low: "unat (ucast (v AND 0x7F :: u64) :: u8) = unat v mod 128"
  by (simp add: unsigned_ucast_eq unat_and_mask7 take_bit_nat_eq_self)

lemma chunk_byte: "ucast (v AND 0x7F :: u64) OR (0x80 :: u8) = of_nat (unat v mod 128 + 128)"
  by (rule word_unat_eq_iff [THEN iffD2])
    (simp add: or_80 chunk_low unat_of_nat_u8 del: of_nat_add)

lemma chunk_last: "(of_nat (n mod 128 + 128) :: u8) AND 0x7F = of_nat (n mod 128)"
  by (rule word_unat_eq_iff [THEN iffD2])
    (simp add: and_7F unat_of_nat_u8 del: of_nat_add)

lemma varint_chunks_spec:
  assumes "v \<noteq> 0"
  shows "varint_chunks v \<noteq> [] \<and>
    (varint_chunks v)[length (varint_chunks v) - 1 :=
       (varint_chunks v ! (length (varint_chunks v) - 1)) AND 0x7F] = varint_spec (unat v)"
  using assms
proof (induction v rule: varint_chunks.induct)
  case (1 v)
  have eq: "varint_chunks v = of_nat (unat v mod 128 + 128) # varint_chunks (drop_bit 7 v)"
    using 1(2) by (subst varint_chunks.simps) (simp add: chunk_byte)
  show ?case
  proof (cases "drop_bit 7 v = 0")
    case True
    then have "varint_chunks (drop_bit 7 v) = []" by (simp add: varint_chunks.simps)
    moreover have small: "unat v < 128"
      using True unat_drop_bit_7 [of v] by (simp add: div_eq_0_iff)
    ultimately show ?thesis
      using chunk_last [of "unat v"] by (simp add: eq varint_small del: of_nat_add)
  next
    case False
    then obtain c cs where c: "varint_chunks (drop_bit 7 v) = c # cs"
      using "1.IH" [OF 1(2)] by (cases "varint_chunks (drop_bit 7 v)") auto
    have "unat (drop_bit 7 v) \<noteq> 0" using False by (simp add: unat_eq_0)
    then have "128 \<le> unat v" by (simp add: unat_drop_bit_7 div_eq_0_iff)
    with "1.IH" [OF 1(2) False] show ?thesis
      by (simp add: eq c varint_big unat_drop_bit_7 del: of_nat_add)
  qed
qed

lemma length_varint_chunks: "v \<noteq> 0 \<Longrightarrow> length (varint_chunks v) = length (varint_spec (unat v))"
  using varint_chunks_spec [of v] by (metis length_list_update)

lemma length_varint_u64: "length (varint_spec (unat (v :: u64))) \<le> 10"
proof -
  have "unat v < 128 ^ 10"
    using unsigned_less [of v, where ?'a = nat] by simp
  then show ?thesis by (rule length_varint_spec) simp
qed

lemma pb_encode_varint_eq:
  "pb_encode_varint wr s v =
     pb_write wr s (Some (varint_spec (unat v))) (of_nat (length (varint_spec (unat v))))"
proof (cases "v \<le> 0x7F")
  case True
  then have "unat v < 128" by (simp add: word_le_nat_alt)
  then show ?thesis using True by (simp add: pb_encode_varint_def varint_small flip: unsigned_ucast_eq)
next
  case False
  then have "v \<noteq> 0" by auto
  then show ?thesis
    using False varint_chunks_spec [of v] length_varint_chunks [of v] length_varint_u64 [of v]
    by (simp add: pb_encode_varint_def Let_def)
qed

context output_sink
begin

lemma encodes_varint: "encodes room out (\<lambda>s. pb_encode_varint wr s v) (varint_spec (unat v))"
  unfolding pb_encode_varint_eq
  using length_varint_u64 [of v] by (intro encodes_write) simp

lemma encodes_string:
  assumes "length bs < 2 ^ 64"
  shows "encodes room out (\<lambda>s. pb_encode_string wr s (Some bs) (of_nat (length bs)))
           (varint_spec (length bs) @ bs)"
proof -
  have "unat (of_nat (length bs) :: u64) = length bs"
    using assms by (simp add: unat_of_nat take_bit_nat_eq_self)
  then show ?thesis
    unfolding pb_encode_string_def
    using encodes_seq [OF encodes_varint [of "of_nat (length bs)"] encodes_write [OF assms]] by simp
qed

end

section \<open>Reading a varint\<close>

text \<open>What the 32-bit reader demands of the groups of seven bits above bit 35: \<open>m\<close> groups
  that are all zeros or all ones, then a final 1 at bit 63.\<close>

primrec sign_groups :: "nat \<Rightarrow> nat \<Rightarrow> bool" where
  "sign_groups 0 n \<longleftrightarrow> n = 1"
| "sign_groups (Suc m) n \<longleftrightarrow> (n mod 128 = 0 \<or> n mod 128 = 127) \<and> sign_groups m (n div 128)"

definition accepts32 :: "nat \<Rightarrow> bool" where
  "accepts32 v \<longleftrightarrow>
     v < 2 ^ 32 \<or> (odd (v div 2 ^ 31) \<and> sign_groups 4 (v div 2 ^ 35))"

lemma sign_groups_0 [simp]: "\<not> sign_groups m 0"
  by (induction m) simp_all


lemma varint_byte_cases:
  assumes "n < 2 ^ 64"
  obtains (last) "n < 128" "varint_spec n = [of_nat n]" "unat (of_nat n :: u8) = n"
    | (more) "128 \<le> n" "varint_spec n = of_nat (n mod 128 + 128) # varint_spec (n div 128)"
        "unat (of_nat (n mod 128 + 128) :: u8) = n mod 128 + 128"
proof (cases "n < 128")
  case True
  then show thesis using last by (simp add: varint_small unat_of_nat_u8)
next
  case False
  then show thesis using more by (simp add: varint_big unat_of_nat_u8 del: of_nat_add)
qed

lemma and_7F_0: "b AND 0x7F = 0 \<longleftrightarrow> unat (b :: u8) mod 128 = 0"
  by (metis and_7F unat_0_iff)

lemma and_70:
  assumes "unat (b :: u8) < 128"
  shows "b AND 0x70 = 0 \<longleftrightarrow> unat b < 16"
proof -
  have "unat b AND push_bit 4 (mask 3) = push_bit 4 (take_bit 3 (drop_bit 4 (unat b)))"
    by (rule bit_eqI) (auto simp: bit_simps)
  moreover have "push_bit 4 (mask 3) = (0x70 :: nat)" by (simp add: mask_eq_exp_minus_1)
  ultimately have "unat b AND 0x70 = push_bit 4 (take_bit 3 (drop_bit 4 (unat b)))" by simp
  also have "\<dots> = 16 * (unat b div 16 mod 8)"
    by (simp add: push_bit_eq_mult take_bit_eq_mod drop_bit_eq_div)
  also have "unat b div 16 mod 8 = unat b div 16" using assms by simp
  finally have "unat (b AND 0x70) = 16 * (unat b div 16)" by (simp add: unsigned_and_eq)
  moreover have "b AND 0x70 = 0 \<longleftrightarrow> unat (b AND 0x70) = 0" by (simp add: unat_0_iff)
  ultimately show ?thesis by (simp add: div_eq_0_iff)
qed

lemma unat_of_nat_lt: "n < 2 ^ LENGTH('a) \<Longrightarrow> unat (of_nat n :: 'a::len word) = n"
  by (simp add: unat_of_nat take_bit_nat_eq_self)

lemma accepts32_short:
  assumes "V = q + n * 2 ^ (7 * k)" and "q < 2 ^ (7 * k)" and "n < 128" and "k \<le> 4"
  shows "accepts32 V \<longleftrightarrow> \<not> (k = 4 \<and> 16 \<le> n)"
proof (cases "k = 4")
  case True
  with assms(1,2) have V: "V = q + n * 268435456" "q < 268435456" by simp_all
  have "V < 4294967296 \<longleftrightarrow> n < 16"
  proof
    assume "V < 4294967296" with V show "n < 16" by linarith
  next
    assume "n < 16" with V show "V < 4294967296" by linarith
  qed
  moreover have "V < 34359738368" using V assms(3) by linarith
  ultimately show ?thesis using True by (auto simp: accepts32_def)
next
  case False
  have "V < 2 ^ (7 * k) + n * 2 ^ (7 * k)" using assms(1,2) by simp
  also have "\<dots> = Suc n * 2 ^ (7 * k)" by simp
  also have "\<dots> \<le> 2 ^ 7 * 2 ^ (7 * k)" using assms(3) by (intro mult_le_mono1) simp
  also have "\<dots> = 2 ^ (7 + 7 * k)" by (simp add: power_add)
  also have "\<dots> \<le> (2 :: nat) ^ 28" using assms(4) False by (intro power_increasing) simp_all
  finally show ?thesis using False by (simp add: accepts32_def)
qed

lemma odd_bit31: "drop_bit 31 (of_nat V :: u32) \<noteq> 0 \<longleftrightarrow> odd (V div 2 ^ 31)"
proof -
  have "unat (drop_bit 31 (of_nat V :: u32)) = V mod 2 ^ 32 div 2 ^ 31"
    by (simp add: drop_bit_eq_div unat_div unat_of_nat take_bit_eq_mod)
  also have "\<dots> = V div 2 ^ 31 mod 2"
    using mod_mult2_eq [of V "2 ^ 31" 2] by simp
  finally show ?thesis by (metis mod_2_eq_odd of_bool_eq_0_iff unat_0_iff)
qed

lemma u8_eq_FF: "b = 0xFF \<longleftrightarrow> unat (b :: u8) = 255"
  by (simp add: word_unat_eq_iff)

lemma u8_eq_1: "b = 1 \<longleftrightarrow> unat (b :: u8) = 1"
  by (simp add: word_unat_eq_iff)

lemma or_push_bit_add:
  fixes r x :: "'a::len word"
  assumes "unat r < 2 ^ m"
  shows "r OR push_bit m x = r + push_bit m x"
proof -
  have "r AND push_bit m x = 0"
  proof (rule bit_eqI)
    fix n
    show "bit (r AND push_bit m x) n \<longleftrightarrow> bit (0 :: 'a word) n"
      using bit_word_small [OF assms, of n] by (cases "m \<le> n") (auto simp: bit_simps)
  qed
  then show ?thesis by (simp add: disjunctive_add_eq_or)
qed

lemma push_bit_of_nat: "push_bit m x = (of_nat (unat x * 2 ^ m) :: 'a::len word)"
  by (simp add: push_bit_eq_mult)

lemma or_chunk:
  fixes r :: "'a::len word"
  assumes "unat r < 2 ^ m" and "unat b mod 128 = c" and "LENGTH('a) \<ge> 8"
  shows "r OR push_bit m (ucast (b AND 0x7F :: u8)) = r + of_nat (c * 2 ^ m)"
proof -
  have "unat (ucast (b AND 0x7F) :: 'a word) = unat (b AND 0x7F)"
  proof -
    have "unat (b AND 0x7F) < 2 ^ 7" by (simp add: and_7F)
    also have "(2 :: nat) ^ 7 \<le> 2 ^ LENGTH('a)" using assms(3) by (intro power_increasing) simp_all
    finally show ?thesis by (simp add: unsigned_ucast_eq take_bit_nat_eq_self)
  qed
  then show ?thesis
    using or_push_bit_add [OF assms(1), of "ucast (b AND 0x7F)"] assms(2)
    by (simp only: push_bit_of_nat and_7F)
qed

definition overflows :: "pb_istream \<Rightarrow> ('a option \<times> pb_istream) option \<Rightarrow> bool" where
  "overflows s m \<longleftrightarrow>
     (\<exists>s'. m = Some (None, s') \<and>
       i_errmsg s' = PB_SET_ERROR (i_errmsg s) E_varint_overflow)"

context input_source
begin

text \<open>Reading one byte when the next pending byte is known.\<close>

lemma readbyte_Cons:
  assumes "stream_ok pend s" and "pend s = b # rest" and "0 < unat (bytes_left s)"
  obtains s' where "pb_readbyte rd s = Some (Some b, s')" and "advances pend s 1 s'"
    and "pend s' = rest" and "stream_ok pend s'"
proof -
  have "bytes_left s \<noteq> 0" using assms(3) by (simp add: unat_gt_0)
  with assms(1) obtain s' where "pb_readbyte rd s = Some (Some (hd (pend s)), s')"
    and adv: "advances pend s 1 s'" by (rule readbyte_ok)
  moreover have "pend s' = rest" using adv assms(2) by (simp add: advances_def)
  ultimately show thesis
    using that advances_stream_ok [OF adv assms(1)] assms(2) by simp
qed

lemma varint_round_byte:
  assumes "pb_readbyte rd s = Some (Some b, s1)" and "\<not> 64 \<le> bp"
  shows "varint_round rd (bp, r, s) =
     Some (if b AND 0x80 \<noteq> 0
           then Inl (bp + 7, r OR push_bit (unat bp) (ucast (b AND 0x7F)), s1)
           else Inr (Some (r OR push_bit (unat bp) (ucast (b AND 0x7F))), s1))"
  using assms by (simp add: varint_round_def Let_def)

lemma varint_loop:
  assumes "stream_ok pend s" and "pend s = varint_spec n @ rest"
    and "length (varint_spec n) \<le> unat (bytes_left s)"
    and "k \<le> 9" and "n * 2 ^ (7 * k) < 2 ^ 64" and "unat r < 2 ^ (7 * k)"
  shows "\<exists>s'. c_loop (varint_round rd) (of_nat (7 * k), r, s) =
           Some (Some (r + of_nat (n * 2 ^ (7 * k))), s') \<and>
           advances pend s (length (varint_spec n)) s'"
  using assms
proof (induction n arbitrary: s k r rule: varint_spec.induct)
  case (1 n)
  let ?bp = "of_nat (7 * k) :: u8"
  have bp: "unat ?bp = 7 * k"
    using "1.prems"(4) by (intro unat_of_nat_u8) simp
  have lt64: "\<not> 64 \<le> ?bp"
    using bp "1.prems"(4) by (simp add: word_le_nat_alt del: of_nat_mult)
  have pos: "0 < unat (bytes_left s)"
    using "1.prems"(3) varint_spec_not_Nil [of n] by (cases "varint_spec n") auto
  show ?case
  proof (cases "n < 128")
    case True
    then have "pend s = of_nat n # rest" using "1.prems"(2) by (simp add: varint_small)
    with "1.prems"(1) obtain s1 where s1: "pb_readbyte rd s = Some (Some (of_nat n), s1)"
      "advances pend s 1 s1" using pos by (rule readbyte_Cons)
    have b: "unat (of_nat n :: u8) = n" using True by (intro unat_of_nat_u8) simp
    have "r OR push_bit (7 * k) (ucast (of_nat n AND 0x7F :: u8)) = r + of_nat (n * 2 ^ (7 * k))"
      using "1.prems"(5,6) True b by (intro or_chunk) simp_all
    then have "c_loop (varint_round rd) (?bp, r, s) = Some (Some (r + of_nat (n * 2 ^ (7 * k))), s1)"
      using varint_round_byte [OF s1(1) lt64, of r] True b bp
      by (intro c_loop_exit) (simp add: and_80 del: of_nat_mult)
    with s1(2) True show ?thesis by (auto simp: varint_small)
  next
    case False
    let ?b = "of_nat (n mod 128 + 128) :: u8"
    have "pend s = ?b # (varint_spec (n div 128) @ rest)"
      using "1.prems"(2) False by (simp add: varint_big)
    with "1.prems"(1) obtain s1 where s1: "pb_readbyte rd s = Some (Some ?b, s1)"
      "advances pend s 1 s1" "pend s1 = varint_spec (n div 128) @ rest" "stream_ok pend s1"
      using pos by (rule readbyte_Cons)
    have b: "unat ?b = n mod 128 + 128" by (intro unat_of_nat_u8) simp
    let ?m = "n mod 128 * 2 ^ (7 * k)"
    have p: "2 ^ (7 * Suc k) = 128 * (2 :: nat) ^ (7 * k)" by (simp add: power_add)
    have "n * 2 ^ (7 * k) = (n mod 128 + 128 * (n div 128)) * 2 ^ (7 * k)" by simp
    also have "\<dots> = ?m + n div 128 * 2 ^ (7 * Suc k)"
      unfolding p add_mult_distrib by (simp only: ac_simps)
    finally have n_split: "n * 2 ^ (7 * k) = ?m + n div 128 * 2 ^ (7 * Suc k)" .
    have m64: "?m < 2 ^ 64" and d64: "n div 128 * 2 ^ (7 * Suc k) < 2 ^ 64"
      using "1.prems"(5) n_split by linarith+
    have k8: "Suc k \<le> 9"
    proof (rule ccontr)
      assume "\<not> Suc k \<le> 9"
      with "1.prems"(4) have "k = 9" by simp
      with False have "128 * 2 ^ 63 \<le> n * 2 ^ (7 * k)" by simp
      with "1.prems"(5) show False by simp
    qed
    have r': "r OR push_bit (7 * k) (ucast (?b AND 0x7F)) = r + of_nat ?m"
      using "1.prems"(6) m64 b by (intro or_chunk) simp_all
    have small: "unat (r + of_nat ?m) < 2 ^ (7 * Suc k)"
    proof -
      have "n mod 128 \<le> 127" by simp
      then have "?m \<le> 127 * 2 ^ (7 * k)" by (rule mult_le_mono1)
      then have sum: "unat r + ?m < 2 ^ (7 * Suc k)" using "1.prems"(6) p by linarith
      also have "(2 :: nat) ^ (7 * Suc k) \<le> 2 ^ 63" using k8 by (intro power_increasing) simp_all
      finally have "unat (r + of_nat ?m) = unat r + ?m"
        using m64 by (simp add: unat_plus_if' unat_of_nat take_bit_nat_eq_self del: of_nat_mult)
      with sum show ?thesis by simp
    qed
    have next_round: "c_loop (varint_round rd) (?bp, r, s) =
        c_loop (varint_round rd) (of_nat (7 * Suc k), r + of_nat ?m, s1)"
      using varint_round_byte [OF s1(1) lt64, of r] b bp r'
      by (intro c_loop_next) (simp add: and_80 add.commute)
    have left: "length (varint_spec (n div 128)) \<le> unat (bytes_left s1)"
      using s1(2) "1.prems"(3) False by (simp add: advances_def varint_big)
    from "1.IH" [OF False s1(4,3) left k8 d64 small] obtain s' where
      "c_loop (varint_round rd) (of_nat (7 * Suc k), r + of_nat ?m, s1) =
         Some (Some (r + of_nat ?m + of_nat (n div 128 * 2 ^ (7 * Suc k))), s')"
      "advances pend s1 (length (varint_spec (n div 128))) s'" by blast
    moreover have "r + of_nat ?m + of_nat (n div 128 * 2 ^ (7 * Suc k)) = r + of_nat (n * 2 ^ (7 * k))"
      unfolding n_split of_nat_add by (simp add: add.assoc)
    ultimately show ?thesis
      using next_round advances_trans [OF s1(2)] False by (auto simp: varint_big)
  qed
qed

lemma decode_varint_spec:
  assumes "stream_ok pend s" and "pend s = varint_spec (unat v) @ rest"
    and "length (varint_spec (unat v)) \<le> unat (bytes_left s)"
  obtains s' where "pb_decode_varint rd s = Some (Some v, s')"
    and "advances pend s (length (varint_spec (unat v))) s'"
  using varint_loop [OF assms, of 0 0] unsigned_less [of v, where ?'a = nat] that
  by (auto simp: pb_decode_varint_def)

text \<open>The 32-bit reader, on the bytes of a canonical varint.\<close>

lemma varint32_round_byte:
  assumes "pb_readbyte rd s = Some (Some b, s1)"
  shows "varint32_round rd (bp, r, s) =
    (if bp \<ge> 32 \<and> b AND 0x7F \<noteq> 0 \<and>
        (drop_bit 31 r = 0 \<or> b \<noteq> (if bp < 63 then 0xFF else 0x01))
     then Some (Inr (None, i_error E_varint_overflow s1))
     else let r' = (if bp \<ge> 32 then r else r OR push_bit (unat bp) (ucast (b AND 0x7F)))
          in if b AND 0x80 \<noteq> 0 then Some (Inl (bp + 7, r', s1))
             else if bp + 7 = 35 \<and> b AND 0x70 \<noteq> 0
             then Some (Inr (None, i_error E_varint_overflow s1))
             else Some (Inr (Some r', s1)))"
  using assms by (simp add: varint32_round_def Let_def)

lemma loop_step_result:
  assumes "L = L1" and "advances pend s 1 s1"
    and "if A then \<exists>s'. L1 = Some (Some v, s') \<and> advances pend s1 m s' else overflows s1 L1"
  shows "if A then \<exists>s'. L = Some (Some v, s') \<and> advances pend s (1 + m) s' else overflows s L"
proof (cases A)
  case True
  with assms show ?thesis by (metis advances_trans)
next
  case False
  with assms show ?thesis by (auto simp: overflows_def advances_def)
qed

lemma varint32_tail:
  assumes "stream_ok pend s" and "pend s = varint_spec n @ rest"
    and "length (varint_spec n) \<le> unat (bytes_left s)"
    and "m \<le> 4" and "n * 2 ^ (7 * (9 - m)) < 2 ^ 64" and "0 < n"
  shows "if drop_bit 31 r \<noteq> 0 \<and> sign_groups m n
     then \<exists>s'. c_loop (varint32_round rd) (of_nat (7 * (9 - m)), r, s) = Some (Some r, s') \<and>
            advances pend s (length (varint_spec n)) s'
     else overflows s (c_loop (varint32_round rd) (of_nat (7 * (9 - m)), r, s))"
  using assms
proof (induction n arbitrary: s m rule: varint_spec.induct)
  case (1 n)
  let ?bp = "of_nat (7 * (9 - m)) :: u8"
  have bp: "unat ?bp = 7 * (9 - m)"
    using "1.prems"(4) by (intro unat_of_nat_u8) simp
  have ge32: "32 \<le> ?bp" 
    using bp "1.prems"(4) by (simp add: word_le_nat_alt del: of_nat_mult)
  have lt63: "?bp < 63 \<longleftrightarrow> 0 < m" 
    using bp "1.prems"(4) by (auto simp add: word_less_nat_alt simp del: of_nat_mult)
  have "?bp + 7 = of_nat (7 * (9 - m) + 7)" by simp
  also have "unat (of_nat (7 * (9 - m) + 7) :: u8) = 7 * (9 - m) + 7"
    using "1.prems"(4) by (intro unat_of_nat_u8) simp
  finally have ne35: "?bp + 7 \<noteq> 35"
    using "1.prems"(4) by auto
  have pos: "0 < unat (bytes_left s)"
    using "1.prems"(3) varint_spec_not_Nil [of n] by (cases "varint_spec n") auto
  show ?case
  proof (cases "n < 128")
    case True
    then have "pend s = of_nat n # rest" using "1.prems"(2) by (simp add: varint_small)
    with "1.prems"(1) obtain s1 where s1: "pb_readbyte rd s = Some (Some (of_nat n), s1)"
      "advances pend s 1 s1" using pos by (rule readbyte_Cons)
    have b: "unat (of_nat n :: u8) = n" using True by (intro unat_of_nat_u8) simp
    have round: "varint32_round rd (?bp, r, s) =
        (if drop_bit 31 r = 0 \<or> m \<noteq> 0 \<or> n \<noteq> 1
         then Some (Inr (None, i_error E_varint_overflow s1)) else Some (Inr (Some r, s1)))"
      using varint32_round_byte [OF s1(1), of ?bp r] b ge32 lt63 ne35 True "1.prems"(6)
      by (auto simp: and_80 and_7F_0 u8_eq_1 u8_eq_FF Let_def simp del: of_nat_mult)
    have sg: "sign_groups m n \<longleftrightarrow> m = 0 \<and> n = 1"
      using True by (cases m) auto
    show ?thesis
      using round s1(2) True unfolding sg
      by (auto simp: overflows_def c_loop_exit varint_small advances_def)
  next
    case False
    let ?b = "of_nat (n mod 128 + 128) :: u8"
    have "pend s = ?b # (varint_spec (n div 128) @ rest)"
      using "1.prems"(2) False by (simp add: varint_big)
    with "1.prems"(1) obtain s1 where s1: "pb_readbyte rd s = Some (Some ?b, s1)"
      "advances pend s 1 s1" "pend s1 = varint_spec (n div 128) @ rest" "stream_ok pend s1"
      using pos by (rule readbyte_Cons)
    have b: "unat ?b = n mod 128 + 128" by (intro unat_of_nat_u8) simp
    obtain m' where m: "m = Suc m'"
      using "1.prems"(5) False by (cases m) auto
    have k: "7 * (9 - m') = 7 * (9 - m) + 7" using m "1.prems"(4) by simp
    have d64: "n div 128 * 2 ^ (7 * (9 - m')) < 2 ^ 64"
    proof -
      have "n div 128 * 2 ^ (7 * (9 - m')) = 128 * (n div 128) * 2 ^ (7 * (9 - m))"
        unfolding k by (simp add: power_add)
      also have "\<dots> \<le> n * 2 ^ (7 * (9 - m))" by (rule mult_le_mono1) simp
      finally show ?thesis using "1.prems"(5) by simp
    qed
    have left: "length (varint_spec (n div 128)) \<le> unat (bytes_left s1)"
      using s1(2) "1.prems"(3) False by (simp add: advances_def varint_big)
    have "m' \<le> 4" "0 < n div 128" using m "1.prems"(4) False by (simp_all add: div_greater_zero_iff)
    note IH = "1.IH" [OF False s1(4,3) left this(1) d64 this(2)]
    have round: "varint32_round rd (?bp, r, s) =
        (if n mod 128 \<noteq> 0 \<and> (drop_bit 31 r = 0 \<or> n mod 128 \<noteq> 127)
         then Some (Inr (None, i_error E_varint_overflow s1))
         else Some (Inl (of_nat (7 * (9 - m')), r, s1)))"
      using varint32_round_byte [OF s1(1), of ?bp r] b ge32 lt63 m k
      by (auto simp: and_80 and_7F_0 u8_eq_1 u8_eq_FF Let_def simp del: of_nat_mult)
    have len: "length (varint_spec n) = 1 + length (varint_spec (n div 128))"
      using False by (simp add: varint_big)
    show ?thesis
    proof (cases "n mod 128 \<noteq> 0 \<and> (drop_bit 31 r = 0 \<or> n mod 128 \<noteq> 127)")
      case True
      then show ?thesis
        using round s1(2) m by (auto simp: overflows_def c_loop_exit advances_def)
    next
      case cont: False
      then have "c_loop (varint32_round rd) (?bp, r, s) =
          c_loop (varint32_round rd) (of_nat (7 * (9 - m')), r, s1)"
        using round by (intro c_loop_next) simp
      moreover have "sign_groups m n \<longleftrightarrow> sign_groups m' (n div 128)" if "drop_bit 31 r \<noteq> 0"
        using cont that m by simp
      ultimately show ?thesis
        unfolding len using IH by (intro loop_step_result [OF _ s1(2)]) (simp_all cong: conj_cong)
    qed
  qed
qed
lemma varint32_loop:
  assumes "stream_ok pend s" and "pend s = varint_spec n @ rest"
    and "length (varint_spec n) \<le> unat (bytes_left s)"
    and "1 \<le> k" and "k \<le> 4" and "unat r < 2 ^ (7 * k)" and "V = unat r + n * 2 ^ (7 * k)"
    and "V < 2 ^ 64"
  shows "if accepts32 V
     then \<exists>s'. c_loop (varint32_round rd) (of_nat (7 * k), r, s) = Some (Some (of_nat V), s') \<and>
            advances pend s (length (varint_spec n)) s'
     else overflows s (c_loop (varint32_round rd) (of_nat (7 * k), r, s))"
  using assms
proof (induction n arbitrary: s k r rule: varint_spec.induct)
  case (1 n)
  let ?bp = "of_nat (7 * k) :: u8"
  have bp: "unat ?bp = 7 * k"
    using "1.prems"(5) by (intro unat_of_nat_u8) simp
  have lt32: "\<not> 32 \<le> ?bp" 
    using bp "1.prems"(5) by (simp add: word_le_nat_alt del: of_nat_mult)
  have "?bp + 7 = of_nat (7 * k + 7)" by simp
  also have "unat (of_nat (7 * k + 7) :: u8) = 7 * k + 7"
    using "1.prems"(5) by (intro unat_of_nat_u8) simp
  finally have is35: "?bp + 7 = 35 \<longleftrightarrow> k = 4" 
    by (auto simp: word_unat_eq_iff)
  have pos: "0 < unat (bytes_left s)"
    using "1.prems"(3) varint_spec_not_Nil [of n] by (cases "varint_spec n") auto
  show ?case
  proof (cases "n < 128")
    case True
    then have "pend s = of_nat n # rest" using "1.prems"(2) by (simp add: varint_small)
    with "1.prems"(1) obtain s1 where s1: "pb_readbyte rd s = Some (Some (of_nat n), s1)"
      "advances pend s 1 s1" using pos by (rule readbyte_Cons)
    have b: "unat (of_nat n :: u8) = n" using True by (intro unat_of_nat_u8) simp
    have r': "r OR push_bit (7 * k) (ucast (of_nat n AND 0x7F :: u8)) = of_nat V"
      using or_chunk [OF "1.prems"(6), of "of_nat n" n] b True "1.prems"(7) by simp
    have round: "varint32_round rd (?bp, r, s) =
        (if k = 4 \<and> 16 \<le> n
         then Some (Inr (None, i_error E_varint_overflow s1)) else Some (Inr (Some (of_nat V), s1)))"
      using varint32_round_byte [OF s1(1), of ?bp r] b bp lt32 is35 True r'
      by (auto simp: and_80 and_70 Let_def simp del: of_nat_mult)
    have sg: "accepts32 V \<longleftrightarrow> \<not> (k = 4 \<and> 16 \<le> n)"
      by (rule accepts32_short [OF "1.prems"(7,6) True "1.prems"(5)])
    show ?thesis
      using round s1(2) True unfolding sg
      by (auto simp: overflows_def c_loop_exit varint_small advances_def)
  next
    case False
    let ?b = "of_nat (n mod 128 + 128) :: u8" and ?c = "n mod 128 * 2 ^ (7 * k)"
    have "pend s = ?b # (varint_spec (n div 128) @ rest)"
      using "1.prems"(2) False by (simp add: varint_big)
    with "1.prems"(1) obtain s1 where s1: "pb_readbyte rd s = Some (Some ?b, s1)"
      "advances pend s 1 s1" "pend s1 = varint_spec (n div 128) @ rest" "stream_ok pend s1"
      using pos by (rule readbyte_Cons)
    have b: "unat ?b = n mod 128 + 128" by (intro unat_of_nat_u8) simp
    have r': "r OR push_bit (7 * k) (ucast (?b AND 0x7F)) = of_nat (unat r + ?c)"
      using or_chunk [OF "1.prems"(6), of ?b "n mod 128"] b by simp
    have round: "c_loop (varint32_round rd) (?bp, r, s) =
        c_loop (varint32_round rd) (of_nat (7 * Suc k), of_nat (unat r + ?c), s1)"
      using varint32_round_byte [OF s1(1), of ?bp r] b bp lt32 r'
      by (intro c_loop_next) (simp add: and_80 Let_def add.commute)
    have left: "length (varint_spec (n div 128)) \<le> unat (bytes_left s1)"
      using s1(2) "1.prems"(3) False by (simp add: advances_def varint_big)
    have p: "2 ^ (7 * Suc k) = 128 * (2 :: nat) ^ (7 * k)" by (simp add: power_add)
    have "n * 2 ^ (7 * k) = (n mod 128 + 128 * (n div 128)) * 2 ^ (7 * k)" by simp
    also have "\<dots> = ?c + n div 128 * 2 ^ (7 * Suc k)"
      unfolding p add_mult_distrib by (simp only: ac_simps)
    finally have V: "V = unat r + ?c + n div 128 * 2 ^ (7 * Suc k)" using "1.prems"(7) by simp
    have "n mod 128 \<le> 127" by simp
    then have "?c \<le> 127 * 2 ^ (7 * k)" by (rule mult_le_mono1)
    then have small: "unat r + ?c < 2 ^ (7 * Suc k)" using "1.prems"(6) p by linarith
    have len: "length (varint_spec n) = 1 + length (varint_spec (n div 128))"
      using False by (simp add: varint_big)
    show ?thesis
    proof (cases "k = 4")
      case True
      have r4: "(of_nat (unat r + ?c) :: u32) = of_nat V"
      proof -
        have "(of_nat (n div 128 * 2 ^ 35) :: u32) = 0"
          by (rule word_of_nat_eq_0_iff [THEN iffD2]) (simp add: dvd_mult)
        then show ?thesis unfolding V using True by simp
      qed
      have hi: "V div 2 ^ 35 = n div 128"
        using V small True by simp
      then have "accepts32 V \<longleftrightarrow> drop_bit 31 (of_nat V :: u32) \<noteq> 0 \<and> sign_groups 4 (n div 128)"
        using False unfolding odd_bit31 accepts32_def by (auto simp: div_eq_0_iff)
      moreover have "n div 128 * 2 ^ (7 * (9 - 4)) < 2 ^ 64" "0 < n div 128"
        using V "1.prems"(8) True False by (simp_all add: div_greater_zero_iff)
      note varint32_tail [OF s1(4,3) left le_refl this, of "of_nat V"]
      moreover have "of_nat (7 * Suc k) = (of_nat (7 * (9 - 4)) :: u8)" using True by simp
      ultimately show ?thesis
        unfolding len using round r4 by (intro loop_step_result [OF _ s1(2)]) simp_all
    next
      case k: False
      then have k4: "1 \<le> Suc k" "Suc k \<le> 4" using "1.prems"(5) by simp_all
      have "(2 :: nat) ^ (7 * Suc k) \<le> 2 ^ 28" using k4 by (intro power_increasing) simp_all
      then have u: "unat (of_nat (unat r + ?c) :: u32) = unat r + ?c"
        using small by (intro unat_of_nat_lt) simp
      show ?thesis
        unfolding len
      proof (rule loop_step_result [OF round s1(2)])
        show "if accepts32 V
          then \<exists>s'. c_loop (varint32_round rd) (of_nat (7 * Suc k), of_nat (unat r + ?c), s1) =
                 Some (Some (of_nat V), s') \<and> advances pend s1 (length (varint_spec (n div 128))) s'
          else overflows s1 (c_loop (varint32_round rd) (of_nat (7 * Suc k), of_nat (unat r + ?c), s1))"
          by (rule "1.IH" [OF False s1(4,3) left k4 _ _ "1.prems"(8)]) (unfold u, fact small, fact V)
      qed
    qed
  qed
qed

lemma decode_varint32_spec:
  fixes v :: u64
  assumes ok: "stream_ok pend s" and pend: "pend s = varint_spec (unat v) @ rest"
    and left: "length (varint_spec (unat v)) \<le> unat (bytes_left s)"
  shows "if accepts32 (unat v)
     then \<exists>s'. pb_decode_varint32_eof rd s = Some (Some (ucast v), False, s') \<and>
            advances pend s (length (varint_spec (unat v))) s'
     else \<exists>s'. pb_decode_varint32_eof rd s = Some (None, False, s') \<and>
            i_errmsg s' = PB_SET_ERROR (i_errmsg s) E_varint_overflow"
proof (cases "unat v < 128")
  case True
  then have "pend s = of_nat (unat v) # rest" using pend by (simp only: varint_small append.simps)
  moreover have "0 < unat (bytes_left s)" using left True by (simp add: varint_small)
  ultimately obtain s1 where s1: "pb_readbyte rd s = Some (Some (of_nat (unat v)), s1)"
    "advances pend s 1 s1" using ok by (elim readbyte_Cons [rotated 1])
  have b: "unat (of_nat (unat v) :: u8) = unat v" using True by (intro unat_of_nat_u8) simp
  have "ucast (of_nat (unat v) :: u8) = (ucast v :: u32)"
    by (simp only: word_unat_eq_iff unat_ucast_u8_u32 b)
      (use True in \<open>simp add: unsigned_ucast_eq take_bit_nat_eq_self\<close>)
  then have "pb_decode_varint32_eof rd s = Some (Some (ucast v), False, s1)"
    using s1(1) b True by (simp add: pb_decode_varint32_eof_def and_80 del: of_nat_unat)
  moreover have "accepts32 (unat v)" using True by (simp add: accepts32_def)
  ultimately show ?thesis using s1(2) True by (auto simp: varint_small)
next
  case False
  let ?n = "unat v" let ?b = "of_nat (?n mod 128 + 128) :: u8"
  have "pend s = ?b # (varint_spec (?n div 128) @ rest)"
    using pend False by (simp add: varint_big)
  moreover have "0 < unat (bytes_left s)"
    using left varint_spec_not_Nil [of ?n] by (cases "varint_spec ?n") auto
  ultimately obtain s1 where s1: "pb_readbyte rd s = Some (Some ?b, s1)"
    "advances pend s 1 s1" "pend s1 = varint_spec (?n div 128) @ rest" "stream_ok pend s1"
    using ok by (elim readbyte_Cons [rotated 1])
  have b: "unat ?b = ?n mod 128 + 128" by (intro unat_of_nat_u8) simp
  let ?r = "ucast (?b AND 0x7F) :: u32"
  have r: "unat ?r = ?n mod 128" using b by (simp add: and_7F)
  have len: "length (varint_spec ?n) = 1 + length (varint_spec (?n div 128))"
    using False by (simp add: varint_big)
  have left1: "length (varint_spec (?n div 128)) \<le> unat (bytes_left s1)"
    using s1(2) left len by (simp add: advances_def)
  have V: "?n = unat ?r + ?n div 128 * 2 ^ (7 * 1)" using r by simp
  have "pb_decode_varint32_eof rd s =
      map_option (\<lambda>(x, s2). (x, False, s2)) (c_loop (varint32_round rd) (of_nat (7 * 1), ?r, s1))"
    using s1(1) b by (simp add: pb_decode_varint32_eof_def and_80 map_conv_bind_option
        split: bind_splits)
  moreover have "if accepts32 ?n
     then \<exists>s'. c_loop (varint32_round rd) (of_nat (7 * 1), ?r, s1) = Some (Some (of_nat ?n), s') \<and>
            advances pend s1 (length (varint_spec (?n div 128))) s'
     else overflows s1 (c_loop (varint32_round rd) (of_nat (7 * 1), ?r, s1))"
    using unsigned_less [of v, where ?'a = nat] r
    by (intro varint32_loop [OF s1(4,3) left1 _ _ _ V]) simp_all
  note loop_step_result [OF refl s1(2) this]
  ultimately show ?thesis
    unfolding len by (auto simp: overflows_def split: if_splits)
qed

end

section \<open>Zigzag\<close>

lemma word_sless_0_bit: "v <s 0 \<longleftrightarrow> bit (v :: u64) 63"
  using bit_last_iff [of v] by (simp add: word_sless_alt)

lemma and_1_bit_0: "z AND 1 \<noteq> 0 \<longleftrightarrow> bit (z :: u64) 0"
  by (simp add: bit_iff_and_push_bit_not_eq_0)

lemma zigzag_roundtrip:
  fixes v z :: u64
  assumes "z = (if v <s 0 then NOT (push_bit 1 v) else push_bit 1 v)"
  shows "(if z AND 1 \<noteq> 0 then NOT (drop_bit 1 z) else drop_bit 1 z) = v"
proof -
  have bits: "bit z n \<longleftrightarrow> bit v 63 \<noteq> (n \<noteq> 0 \<and> bit v (n - 1))" if "n < 64" for n
    unfolding assms word_sless_0_bit using that
    by (cases "bit v 63") (simp_all only: if_True if_False bit_not_iff bit_push_bit_iff, auto)
  have low: "z AND 1 \<noteq> 0 \<longleftrightarrow> bit v 63"
    using bits [of 0] by (simp add: and_1_bit_0)
  have high: "bit (drop_bit 1 z) n \<longleftrightarrow> n < 63 \<and> bit v 63 \<noteq> bit v n" if "n < 64" for n
  proof (cases "n < 63")
    case True
    then show ?thesis using bits [of "1 + n"] by (simp only: bit_drop_bit_eq o_def) simp
  next
    case False
    then have "\<not> bit z (1 + n)" using bit_imp_le_length [of z "1 + n"] that by auto
    with False show ?thesis by (simp only: bit_drop_bit_eq o_def) simp
  qed
  show ?thesis
  proof (rule bit_word_eqI)
    fix n assume "n < LENGTH(64)"
    then have n: "n < 64" by simp
    show "bit (if z AND 1 \<noteq> 0 then NOT (drop_bit 1 z) else drop_bit 1 z) n \<longleftrightarrow> bit v n"
    proof (cases "n < 63")
      case True
      then show ?thesis using high [OF n] n by (auto simp: low bit_not_iff)
    next
      case False
      then have "n = 63" using n by simp
      then show ?thesis using high [of 63] by (auto simp: low bit_not_iff)
    qed
  qed
qed

end
