(* ===== verification/Pb_Wire.thy ===== *)
theory Pb_Wire
  imports Varint
begin

text \<open>
  The other wire-format tokens: fixed-width scalars, tags, length-delimited values and the
  skipping of fields, with what the writer emits and the reader consumes for each.
\<close>

section \<open>Fixed-width little-endian scalars\<close>

lemma byte_of:
  assumes "LENGTH('a) \<ge> 8"
  shows "ucast (drop_bit k w AND 0xFF :: 'a::len word) = (of_nat (unat w div 2 ^ k) :: u8)"
proof -
  have "drop_bit k w AND 0xFF = take_bit 8 (drop_bit k w)"
    by (simp add: take_bit_eq_mask mask_eq_exp_minus_1)
  then have "unat (ucast (drop_bit k w AND 0xFF) :: u8) = unat w div 2 ^ k mod 256"
    using assms by (simp add: unsigned_ucast_eq unsigned_take_bit_eq unat_drop_bit_eq
        take_bit_eq_mod [of 8 "_ :: nat"] drop_bit_eq_div [of k "unat w"])
  then show ?thesis
    unfolding word_unat_eq_iff unat_of_nat take_bit_eq_mod by simp
qed

lemma or_byte:
  fixes r :: "'a::len word"
  assumes "unat r = R" and "R < 2 ^ m" and "unat b * 2 ^ m < 2 ^ LENGTH('a)" and "8 \<le> LENGTH('a)"
  shows "unat (r OR push_bit m (ucast (b :: u8))) = R + unat b * 2 ^ m"
proof -
  have "(2 :: nat) ^ 8 \<le> 2 ^ LENGTH('a)" using assms(4) by (intro power_increasing) simp_all
  then have "unat (ucast b :: 'a word) = unat b"
    using unat_u8_lt [of b] by (simp add: unsigned_ucast_eq take_bit_nat_eq_self)
  then show ?thesis using assms(1-3) by (simp add: unat_or_push_bit)
qed

lemma u32_of_bytes:
  "push_bit 0 (ucast b0) OR push_bit 8 (ucast b1) OR push_bit 16 (ucast b2) OR push_bit 24 (ucast b3) =
   (of_nat (le_val [b0, b1, b2, b3]) :: u32)"
proof -
  note lt = unat_u8_lt [of b0] unat_u8_lt [of b1] unat_u8_lt [of b2] unat_u8_lt [of b3]
  let ?w = "((push_bit 0 (ucast b0) OR push_bit 8 (ucast b1)) OR push_bit 16 (ucast b2)) OR push_bit 24 (ucast b3) :: u32"
  have 1: "unat (push_bit 0 (ucast b0) OR push_bit 8 (ucast b1) :: u32) = unat b0 + unat b1 * 2 ^ 8"
    using lt by (intro or_byte) simp_all
  have 2: "unat ((push_bit 0 (ucast b0) OR push_bit 8 (ucast b1)) OR push_bit 16 (ucast b2) :: u32) =
      unat b0 + unat b1 * 2 ^ 8 + unat b2 * 2 ^ 16"
    using lt by (intro or_byte [OF 1]) simp_all
  have "unat ?w = unat b0 + unat b1 * 2 ^ 8 + unat b2 * 2 ^ 16 + unat b3 * 2 ^ 24"
    using lt by (intro or_byte [OF 2]) simp_all
  also have "\<dots> = le_val [b0, b1, b2, b3]" by simp
  finally have "?w = of_nat (le_val [b0, b1, b2, b3])" by (metis of_nat_unat ucast_id)
  then show ?thesis by (simp only: or.assoc)
qed

lemma u64_of_bytes:
  "push_bit 0 (ucast b0) OR push_bit 8 (ucast b1) OR push_bit 16 (ucast b2) OR push_bit 24 (ucast b3) OR
   push_bit 32 (ucast b4) OR push_bit 40 (ucast b5) OR push_bit 48 (ucast b6) OR push_bit 56 (ucast b7) =
   (of_nat (le_val [b0, b1, b2, b3, b4, b5, b6, b7]) :: u64)"
proof -
  note lt = unat_u8_lt [of b0] unat_u8_lt [of b1] unat_u8_lt [of b2] unat_u8_lt [of b3]
    unat_u8_lt [of b4] unat_u8_lt [of b5] unat_u8_lt [of b6] unat_u8_lt [of b7]
  let ?w1 = "push_bit 0 (ucast b0) OR push_bit 8 (ucast b1) :: u64"
  let ?w2 = "?w1 OR push_bit 16 (ucast b2)" let ?w3 = "?w2 OR push_bit 24 (ucast b3)"
  let ?w4 = "?w3 OR push_bit 32 (ucast b4)" let ?w5 = "?w4 OR push_bit 40 (ucast b5)"
  let ?w6 = "?w5 OR push_bit 48 (ucast b6)" let ?w7 = "?w6 OR push_bit 56 (ucast b7)"
  have 1: "unat ?w1 = unat b0 + unat b1 * 2 ^ 8"
    using lt by (intro or_byte) simp_all
  have 2: "unat ?w2 = unat b0 + unat b1 * 2 ^ 8 + unat b2 * 2 ^ 16"
    using lt by (intro or_byte [OF 1]) simp_all
  have 3: "unat ?w3 = unat b0 + unat b1 * 2 ^ 8 + unat b2 * 2 ^ 16 + unat b3 * 2 ^ 24"
    using lt by (intro or_byte [OF 2]) simp_all
  have 4: "unat ?w4 = unat b0 + unat b1 * 2 ^ 8 + unat b2 * 2 ^ 16 + unat b3 * 2 ^ 24 + unat b4 * 2 ^ 32"
    using lt by (intro or_byte [OF 3]) simp_all
  have 5: "unat ?w5 = unat b0 + unat b1 * 2 ^ 8 + unat b2 * 2 ^ 16 + unat b3 * 2 ^ 24 + unat b4 * 2 ^ 32 +
      unat b5 * 2 ^ 40"
    using lt by (intro or_byte [OF 4]) simp_all
  have 6: "unat ?w6 = unat b0 + unat b1 * 2 ^ 8 + unat b2 * 2 ^ 16 + unat b3 * 2 ^ 24 + unat b4 * 2 ^ 32 +
      unat b5 * 2 ^ 40 + unat b6 * 2 ^ 48"
    using lt by (intro or_byte [OF 5]) simp_all
  have "unat ?w7 = unat b0 + unat b1 * 2 ^ 8 + unat b2 * 2 ^ 16 + unat b3 * 2 ^ 24 + unat b4 * 2 ^ 32 +
      unat b5 * 2 ^ 40 + unat b6 * 2 ^ 48 + unat b7 * 2 ^ 56"
    using lt by (intro or_byte [OF 6]) simp_all
  also have "\<dots> = le_val [b0, b1, b2, b3, b4, b5, b6, b7]" by simp
  finally have "?w7 = of_nat (le_val [b0, b1, b2, b3, b4, b5, b6, b7])" by (metis of_nat_unat ucast_id)
  then show ?thesis by (simp only: or.assoc)
qed

lemma pb_encode_fixed32_eq:
  "pb_encode_fixed32 wr s v =
     pb_write wr s (Some (le_bytes 4 (unat v))) (of_nat (length (le_bytes 4 (unat v))))"
  using byte_of [of 0 v] byte_of [of 8 v] byte_of [of 16 v] byte_of [of 24 v]
  by (simp add: pb_encode_fixed32_def le_bytes_4)

lemma pb_encode_fixed64_eq:
  "pb_encode_fixed64 wr s v =
     pb_write wr s (Some (le_bytes 8 (unat v))) (of_nat (length (le_bytes 8 (unat v))))"
  using byte_of [of 0 v] byte_of [of 8 v] byte_of [of 16 v] byte_of [of 24 v]
    byte_of [of 32 v] byte_of [of 40 v] byte_of [of 48 v] byte_of [of 56 v]
  by (simp add: pb_encode_fixed64_def le_bytes_8)

context output_sink
begin

lemma encodes_fixed32: "encodes room out (\<lambda>s. pb_encode_fixed32 wr s v) (le_bytes 4 (unat v))"
  unfolding pb_encode_fixed32_eq by (intro encodes_write) simp

lemma encodes_fixed64: "encodes room out (\<lambda>s. pb_encode_fixed64 wr s v) (le_bytes 8 (unat v))"
  unfolding pb_encode_fixed64_eq by (intro encodes_write) simp

end

context input_source
begin

lemma read_some_ok:
  assumes "stream_ok pend s" and "n \<le> bytes_left s"
  obtains s' where "pb_read_some rd s n = Some (True, take (unat n) (pend s), s')"
    and "advances pend s (unat n) s'"
proof (cases "n = 0")
  case True
  then show thesis using that by (simp add: pb_read_some_def)
next
  case False
  from read_direct_ok [OF assms(1) False assms(2), of True] show thesis
    using that False by (auto simp: pb_read_some_def)
qed

lemma pb_read_ok:
  assumes "stream_ok pend s" and "n \<le> bytes_left s"
  obtains s' where "pb_read rd s True n = Some (True, take (unat n) (pend s), s')"
    and "advances pend s (unat n) s'"
proof (cases "n = 0")
  case True
  then show thesis using that by (simp add: pb_read_def)
next
  case False
  from read_direct_ok [OF assms(1) False assms(2), of True] show thesis
    using that False by (auto simp: pb_read_def)
qed

lemma skip_bytes_ok:
  assumes "stream_ok pend s" and "n \<le> bytes_left s"
  shows "\<exists>s'. pb_skip_bytes rd s n = Some (True, [], s') \<and> advances pend s (unat n) s'"
  using assms
proof (induction "unat n" arbitrary: s n rule: less_induct)
  case less
  show ?case
  proof (cases "16 < n")
    case True
    with less.prems have "16 \<le> bytes_left s" by simp
    with less.prems(1) obtain s1 where s1: "pb_read_some rd s 16 = Some (True, take (unat (16 :: u64)) (pend s), s1)"
      "advances pend s (unat (16 :: u64)) s1" by (rule read_some_ok)
    have sub: "unat (n - 16) = unat n - 16"
      using unat_sub [OF less_imp_le [OF True]] by simp
    have lt: "16 < unat n"
      using True by (simp add: word_less_nat_alt)
    have "unat (n - 16) < unat n" "stream_ok pend s1" "n - 16 \<le> bytes_left s1"
      using sub lt s1(2) less.prems(2) advances_stream_ok [OF s1(2) less.prems(1)]
      by (simp_all add: advances_def word_le_nat_alt)
    from less.hyps [OF this] obtain s' where
      s': "pb_skip_bytes rd s1 (n - 16) = Some (True, [], s')" "advances pend s1 (unat (n - 16)) s'"
      by blast
    have "16 + unat (n - 16) = unat n" using sub lt by simp
    then have "advances pend s (unat n) s'"
      using advances_trans [OF s1(2) s'(2)] by simp
    with s'(1) s1(1) True show ?thesis by (simp add: pb_skip_bytes.simps [of rd s n])
  next
    case False
    from less.prems obtain s1 where "pb_read_some rd s n = Some (True, take (unat n) (pend s), s1)"
      "advances pend s (unat n) s1" by (rule read_some_ok)
    with False show ?thesis by (simp add: pb_skip_bytes.simps [of rd s n])
  qed
qed

lemma pb_read_skip:
  assumes "stream_ok pend s" and "n \<le> bytes_left s"
  obtains s' where "pb_read rd s False n = Some (True, [], s')" and "advances pend s (unat n) s'"
proof (cases "n = 0")
  case True
  then show thesis using that by (simp add: pb_read_def)
next
  case False
  show thesis
  proof (cases "i_callback s = Buf_read")
    case True
    from read_direct_ok [OF assms(1) False assms(2), of False] show thesis
      using that False True by (auto simp: pb_read_def)
  next
    case user: False
    from skip_bytes_ok [OF assms] show thesis
      using that False user by (auto simp: pb_read_def)
  qed
qed

lemma decode_fixed32_ok:
  assumes "stream_ok pend s" and "4 \<le> bytes_left s"
  obtains s' where "pb_decode_fixed32 rd s = Some (Some (of_nat (le_val (take 4 (pend s)))), s')"
    and "advances pend s 4 s'"
proof -
  from assms obtain s' where s': "pb_read rd s True 4 = Some (True, take (unat (4 :: u64)) (pend s), s')"
    "advances pend s (unat (4 :: u64)) s'" by (rule pb_read_ok)
  have "length (take 4 (pend s)) = 4"
    using assms by (simp add: stream_ok_def word_le_nat_alt)
  then obtain b0 b1 b2 b3 where "take 4 (pend s) = [b0, b1, b2, b3]"
    using list_of_4 by blast
  with s' show thesis
    using that u32_of_bytes [of b0 b1 b2 b3] by (simp add: pb_decode_fixed32_def)
qed

lemma decode_fixed64_ok:
  assumes "stream_ok pend s" and "8 \<le> bytes_left s"
  obtains s' where "pb_decode_fixed64 rd s = Some (Some (of_nat (le_val (take 8 (pend s)))), s')"
    and "advances pend s 8 s'"
proof -
  from assms obtain s' where s': "pb_read rd s True 8 = Some (True, take (unat (8 :: u64)) (pend s), s')"
    "advances pend s (unat (8 :: u64)) s'" by (rule pb_read_ok)
  have "length (take 8 (pend s)) = 8"
    using assms by (simp add: stream_ok_def word_le_nat_alt)
  then obtain b0 b1 b2 b3 b4 b5 b6 b7 where "take 8 (pend s) = [b0, b1, b2, b3, b4, b5, b6, b7]"
    using list_of_8 by blast
  with s' show thesis
    using that u64_of_bytes [of b0 b1 b2 b3 b4 b5 b6 b7] by (simp add: pb_decode_fixed64_def)
qed

end

end
