(* ===== verification/Pb_Tokens.thy ===== *)
theory Pb_Tokens
  imports Pb_Wire
begin

text \<open>
  Tags, skipping and substreams over any well-behaved source, and the safety of every token
  reader: on any bytes whatever it returns, stays within the declared bytes, and consumes them in
  order. Then the properties of the token layer of \<open>pb_decode.c\<close> and \<open>pb_encode.c\<close>.
\<close>

section \<open>Tags\<close>

lemma unat_tag:
  assumes "unat w < 8"
  shows "unat (push_bit 3 (ucast (fn :: u32) :: u64) OR ucast (w :: u32)) = unat fn * 8 + unat w"
proof -
  have "unat (ucast w OR push_bit 3 (ucast fn) :: u64) = unat w + unat fn * 2 ^ 3"
    using assms unsigned_less [of fn, where ?'a = nat] by (subst unat_or_push_bit) simp_all
  then show ?thesis by (simp only: or.commute) simp
qed

context output_sink
begin

lemma encodes_tag:
  assumes "unat w < 8"
  shows "encodes room out (\<lambda>s. pb_encode_tag wr s w fn) (varint_spec (unat fn * 8 + unat w))"
  using encodes_varint [of "push_bit 3 (ucast fn) OR ucast w"]
  unfolding pb_encode_tag_def Let_def unat_tag [OF assms] .

end

context input_source
begin

lemma decode_tag_spec:
  assumes "stream_ok pend s" and "pend s = varint_spec (unat fn * 8 + unat w) @ rest"
    and "length (varint_spec (unat fn * 8 + unat w)) \<le> unat (bytes_left s)"
    and "unat w < 8" and "unat fn < 2 ^ 29"
  obtains s' where
    "pb_decode_tag rd s =
       Some (if fn = 0 \<and> w = 0 then None else Some (w, fn), fn = 0 \<and> w = 0, s')"
    and "advances pend s (length (varint_spec (unat fn * 8 + unat w))) s'"
proof -
  let ?t = "unat fn * 8 + unat w"
  have lt: "?t < 2 ^ 32" using assms(4,5) by simp
  then have u: "unat (of_nat ?t :: u64) = ?t" by (intro unat_of_nat_lt) simp
  have "accepts32 ?t" using lt by (simp add: accepts32_def)
  then obtain s' where s': "pb_decode_varint32_eof rd s = Some (Some (ucast (of_nat ?t :: u64)), False, s')"
    "advances pend s (length (varint_spec ?t)) s'"
    using decode_varint32_spec [of s "of_nat ?t" rest] assms(1-3) unfolding u by auto
  let ?T = "ucast (of_nat ?t :: u64) :: u32"
  have T: "unat ?T = ?t" using u lt by (simp add: unsigned_ucast_eq take_bit_nat_eq_self del: of_nat_add)
  have "unat (?T AND 7) = unat w"
  proof -
    have "unat (?T AND 7) = ?t AND mask 3" unfolding unsigned_and_eq T by (simp add: mask_eq_exp_minus_1)
    then show ?thesis using assms(4) by (simp add: take_bit_eq_mask [symmetric] take_bit_eq_mod)
  qed
  then have w: "?T AND 7 = w" by (simp only: word_unat_eq_iff)
  have "unat (drop_bit 3 ?T) = unat fn"
    using assms(4) by (simp only: drop_bit_eq_div unat_div T) simp
  then have fn: "drop_bit 3 ?T = fn" by (simp only: word_unat_eq_iff)
  have z: "?T = 0 \<longleftrightarrow> fn = 0 \<and> w = 0"
    using T by (auto simp: unat_0_iff [symmetric] simp del: of_nat_add)
  show thesis
    using that [OF _ s'(2)] s'(1) w fn z by (auto simp: pb_decode_tag_def)
qed

end

section \<open>Where a reader may move the stream\<close>

text \<open>
  \<open>moves pend s s'\<close>: from \<open>s\<close> to \<open>s'\<close> some of the declared bytes were consumed, in
  order, and at most the error message changed. \<open>safely pend s m\<close>: the reader \<open>m\<close>, started
  at \<open>s\<close>, returns, stays inside the declared bytes, and moves the stream.
\<close>

definition moves :: "(pb_istream \<Rightarrow> u8 list) \<Rightarrow> pb_istream \<Rightarrow> pb_istream \<Rightarrow> bool" where
  "moves pend s s' \<longleftrightarrow>
     unat (bytes_left s') \<le> unat (bytes_left s) \<and>
     pend s' = drop (unat (bytes_left s) - unat (bytes_left s')) (pend s) \<and>
     i_callback s' = i_callback s"

definition safely ::
  "(pb_istream \<Rightarrow> u8 list) \<Rightarrow> pb_istream \<Rightarrow> ('a \<times> pb_istream) option \<Rightarrow> bool" where
  "safely pend s m \<longleftrightarrow> (\<exists>r s'. m = Some (r, s') \<and> moves pend s s')"

lemma moves_refl [simp]: "moves pend s s"
  by (simp add: moves_def)

lemma moves_trans: "moves pend s s1 \<Longrightarrow> moves pend s1 s2 \<Longrightarrow> moves pend s s2"
  by (auto simp: moves_def)

lemma moves_stream_ok: "moves pend s s' \<Longrightarrow> stream_ok pend s \<Longrightarrow> stream_ok pend s'"
  by (auto simp: moves_def stream_ok_def)

lemma advances_moves: "advances pend s n s' \<Longrightarrow> moves pend s s'"
  by (auto simp: moves_def advances_def)

lemma safelyI: "m = Some (r, s') \<Longrightarrow> moves pend s s' \<Longrightarrow> safely pend s m"
  by (auto simp: safely_def)

lemma safely_try:
  assumes "safely pend s m" and "\<And>a s1. m = Some (Some a, s1) \<Longrightarrow> moves pend s s1 \<Longrightarrow> safely pend s1 (f a s1)"
  shows "safely pend s (c_try m f)"
proof -
  from assms(1) obtain r s1 where m: "m = Some (r, s1)" "moves pend s s1" by (auto simp: safely_def)
  show ?thesis
  proof (cases r)
    case None
    with m show ?thesis by (auto simp: safely_def)
  next
    case (Some a)
    with assms(2) m have "safely pend s1 (f a s1)" by simp
    with m Some show ?thesis by (auto simp: safely_def intro: moves_trans)
  qed
qed


section \<open>Every token reader is safe\<close>

text \<open>\<open>reads pend s m\<close>: as \<open>safely\<close>, and a success has consumed at least a byte.\<close>

definition reads ::
  "(pb_istream \<Rightarrow> u8 list) \<Rightarrow> pb_istream \<Rightarrow> ('a option \<times> pb_istream) option \<Rightarrow> bool" where
  "reads pend s m \<longleftrightarrow>
     (\<exists>r s'. m = Some (r, s') \<and> moves pend s s' \<and>
        (r \<noteq> None \<longrightarrow> unat (bytes_left s') < unat (bytes_left s)))"

lemma reads_safely: "reads pend s m \<Longrightarrow> safely pend s m"
  by (auto simp: reads_def safely_def)

lemma reads_try:
  assumes "reads pend s m"
    and "\<And>a s1. m = Some (Some a, s1) \<Longrightarrow> moves pend s s1 \<Longrightarrow> safely pend s1 (f a s1)"
  shows "reads pend s (c_try m f)"
proof -
  from assms(1) obtain r s1 where m: "m = Some (r, s1)" "moves pend s s1"
    "r \<noteq> None \<longrightarrow> unat (bytes_left s1) < unat (bytes_left s)" by (auto simp: reads_def)
  show ?thesis
  proof (cases r)
    case None
    with m show ?thesis by (auto simp: reads_def)
  next
    case (Some a)
    with assms(2) m have "safely pend s1 (f a s1)" by simp
    then obtain q s2 where "f a s1 = Some (q, s2)" "moves pend s1 s2" by (auto simp: safely_def)
    with m Some show ?thesis
      by (auto simp: reads_def moves_def intro: moves_trans [unfolded moves_def])
  qed
qed

lemma stream_ok_moves: "stream_ok pend s \<Longrightarrow> moves pend s s' \<Longrightarrow> stream_ok pend s'"
  by (rule moves_stream_ok)

context input_source
begin

lemma moves_i_error [simp]: "moves pend s (i_error e s') \<longleftrightarrow> moves pend s s'"
  by (simp add: moves_def)

lemma readbyte_reads:
  assumes "stream_ok pend s"
  shows "reads pend s (pb_readbyte rd s)"
proof (cases "bytes_left s = 0")
  case True
  then show ?thesis by (simp add: readbyte_end reads_def)
next
  case False
  with assms obtain s' where s': "pb_readbyte rd s = Some (Some (hd (pend s)), s')"
    "advances pend s 1 s'" by (rule readbyte_ok)
  then have "unat (bytes_left s') < unat (bytes_left s)" by (auto simp: advances_def)
  with s' show ?thesis by (auto simp: reads_def intro: advances_moves)
qed

lemma read_safe:
  assumes ok: "stream_ok pend s"
  obtains r bs s' where "pb_read rd s want n = Some (r, bs, s')" and "moves pend s s'"
    and "r \<Longrightarrow> advances pend s (unat n) s'"
    and "r \<Longrightarrow> want \<Longrightarrow> bs = take (unat n) (pend s) \<and> length bs = unat n"
    and "\<not> (r \<and> want) \<Longrightarrow> bs = []"
proof (cases "n \<le> bytes_left s")
  case True
  then have "length (take (unat n) (pend s)) = unat n"
    using ok by (simp add: stream_ok_def word_le_nat_alt)
  then show thesis
    using pb_read_ok [OF ok True] pb_read_skip [OF ok True] that advances_moves
    by (cases want) metis+
next
  case False
  then have lt: "bytes_left s < n" and n0: "n \<noteq> 0" by auto
  show thesis
  proof (cases "\<not> want \<and> i_callback s \<noteq> Buf_read")
    case False
    then have "pb_read rd s want n = Some (False, [], i_error E_end_of_stream s)"
      using lt n0 by (auto simp: pb_read_def pb_read_direct_def)
    then show thesis using that [of False "[]"] by simp
  next
    case True
    have "\<exists>s'. pb_skip_bytes rd s n = Some (False, [], s') \<and> moves pend s s'"
      using ok lt
    proof (induction "unat n" arbitrary: s n rule: less_induct)
      case less
      show ?case
      proof (cases "16 < n \<and> 16 \<le> bytes_left s")
        case False
        have "\<exists>s'. (if 16 < n then pb_read_some rd s 16 else pb_read_some rd s n) =
            Some (False, [], s') \<and> moves pend s s'"
          using False less.prems(2) by (auto simp: pb_read_some_def read_direct_short not_le)
        then show ?thesis by (auto simp: pb_skip_bytes.simps [of rd s n] split: if_splits)
      next
        case big: True
        with less.prems(1) obtain s1 where
          s1: "pb_read_some rd s 16 = Some (True, take (unat (16 :: u64)) (pend s), s1)"
          "advances pend s (unat (16 :: u64)) s1" by (meson read_some_ok)
        have sub: "unat (n - 16) = unat n - 16" and gt: "16 < unat n"
          using unat_sub [OF less_imp_le, of 16 n] big by (simp_all add: word_less_nat_alt)
        have "unat (n - 16) < unat n" "stream_ok pend s1" "bytes_left s1 < n - 16"
          using sub gt s1(2) less.prems(2) big advances_stream_ok [OF s1(2) less.prems(1)]
          by (auto simp: advances_def word_less_nat_alt word_le_nat_alt)
        from less.hyps [OF this] s1 big show ?thesis
          by (auto simp: pb_skip_bytes.simps [of rd s n] intro: moves_trans advances_moves)
      qed
    qed
    then show thesis using that [of False "[]"] True n0 by (auto simp: pb_read_def)
  qed
qed

lemma read_ok_safely: "stream_ok pend s \<Longrightarrow> safely pend s (read_ok (pb_read rd s want n))"
  by (erule read_safe [of s want n]) (auto simp: safely_def read_ok_def)

lemma varint_reads:
  assumes "stream_ok pend s"
  shows "reads pend s (c_loop (varint_round rd) (0, 0, s))"
proof -
  let ?I = "\<lambda>(bp :: u8, r :: u64, s1). moves pend s s1"
  let ?Q = "\<lambda>(r, s1). moves pend s s1 \<and> (r \<noteq> None \<longrightarrow> unat (bytes_left s1) < unat (bytes_left s))"
  have "\<exists>x. c_loop (varint_round rd) (0, 0, s) = Some x \<and> ?Q x"
  proof (rule c_loop_total [where I = ?I and m = "\<lambda>(bp, r, s1). unat (bytes_left s1)"])
    fix t :: "u8 \<times> u64 \<times> pb_istream" assume "?I t"
    then obtain bp r s1 where t: "t = (bp, r, s1)" "moves pend s s1" by (cases t) auto
    have "reads pend s1 (pb_readbyte rd s1)"
      using moves_stream_ok [OF t(2) assms] by (rule readbyte_reads)
    then obtain x s2 where x: "pb_readbyte rd s1 = Some (x, s2)" "moves pend s1 s2"
      "x \<noteq> None \<longrightarrow> unat (bytes_left s2) < unat (bytes_left s1)" by (auto simp: reads_def)
    then have "moves pend s s2" using moves_trans [OF t(2)] by blast
    moreover have "unat (bytes_left s1) \<le> unat (bytes_left s)" using t(2) by (simp add: moves_def)
    ultimately show "(\<exists>s'. varint_round rd t = Some (Inl s') \<and> ?I s' \<and>
          (case s' of (bp, r, s1) \<Rightarrow> unat (bytes_left s1)) < (case t of (bp, r, s1) \<Rightarrow> unat (bytes_left s1))) \<or>
        (\<exists>r. varint_round rd t = Some (Inr r) \<and> ?Q r)"
      using x t by (cases x) (auto simp: varint_round_def Let_def)
  qed simp
  then show ?thesis by (auto simp: reads_def)
qed

lemma varint32_loop_safely:
  assumes "stream_ok pend s"
  shows "safely pend s (c_loop (varint32_round rd) (bp0, r0, s))"
proof -
  let ?I = "\<lambda>(bp :: u8, r :: u32, s1). moves pend s s1"
  let ?Q = "\<lambda>(r :: u32 option, s1). moves pend s s1"
  have "\<exists>x. c_loop (varint32_round rd) (bp0, r0, s) = Some x \<and> ?Q x"
  proof (rule c_loop_total [where I = ?I and m = "\<lambda>(bp, r, s1). unat (bytes_left s1)"])
    fix t :: "u8 \<times> u32 \<times> pb_istream" assume "?I t"
    then obtain bp r s1 where t: "t = (bp, r, s1)" "moves pend s s1" by (cases t) auto
    have "reads pend s1 (pb_readbyte rd s1)"
      using moves_stream_ok [OF t(2) assms] by (rule readbyte_reads)
    then obtain x s2 where x: "pb_readbyte rd s1 = Some (x, s2)" "moves pend s1 s2"
      "x \<noteq> None \<longrightarrow> unat (bytes_left s2) < unat (bytes_left s1)" by (auto simp: reads_def)
    then have "moves pend s s2" using moves_trans [OF t(2)] by blast
    then show "(\<exists>s'. varint32_round rd t = Some (Inl s') \<and> ?I s' \<and>
          (case s' of (bp, r, s1) \<Rightarrow> unat (bytes_left s1)) < (case t of (bp, r, s1) \<Rightarrow> unat (bytes_left s1))) \<or>
        (\<exists>r. varint32_round rd t = Some (Inr r) \<and> ?Q r)"
      using x t by (cases x) (auto simp: varint32_round_def Let_def)
  qed simp
  then show ?thesis by (auto simp: safely_def)
qed

lemma varint32_eof_reads:
  assumes "stream_ok pend s"
  obtains r eof s' where "pb_decode_varint32_eof rd s = Some (r, eof, s')" and "moves pend s s'"
    and "r \<noteq> None \<Longrightarrow> unat (bytes_left s') < unat (bytes_left s)"
    and "eof \<Longrightarrow> r = None \<and> bytes_left s' = 0"
proof -
  from readbyte_reads [OF assms] obtain x s1 where x: "pb_readbyte rd s = Some (x, s1)"
    "moves pend s s1" "x \<noteq> None \<longrightarrow> unat (bytes_left s1) < unat (bytes_left s)"
    by (auto simp: reads_def)
  show thesis
  proof (cases x)
    case None
    then show thesis using that x by (simp add: pb_decode_varint32_eof_def)
  next
    case (Some b)
    have "safely pend s1 (c_loop (varint32_round rd) (7, ucast (b AND 0x7F), s1))"
      using moves_stream_ok [OF x(2) assms] by (rule varint32_loop_safely)
    then obtain r s2 where "c_loop (varint32_round rd) (7, ucast (b AND 0x7F), s1) = Some (r, s2)"
      "moves pend s1 s2" by (auto simp: safely_def)
    moreover from this(2) have "unat (bytes_left s2) \<le> unat (bytes_left s1)" by (simp add: moves_def)
    ultimately show thesis
      using that x Some moves_trans [OF x(2)]
      by (cases "b AND 0x80 = 0") (auto simp: pb_decode_varint32_eof_def)
  qed
qed

lemma varint32_reads: "stream_ok pend s \<Longrightarrow> reads pend s (pb_decode_varint32 rd s)"
  by (erule varint32_eof_reads) (auto simp: reads_def pb_decode_varint32_def)

lemma decode_varint_reads: "stream_ok pend s \<Longrightarrow> reads pend s (pb_decode_varint rd s)"
  unfolding pb_decode_varint_def by (rule varint_reads)

lemma decode_svarint_reads: "stream_ok pend s \<Longrightarrow> reads pend s (pb_decode_svarint rd s)"
  unfolding pb_decode_svarint_def
  by (intro reads_try decode_varint_reads) (auto simp: safely_def)

lemma decode_bool_reads: "stream_ok pend s \<Longrightarrow> reads pend s (pb_decode_bool rd s)"
  unfolding pb_decode_bool_def by (intro reads_try varint32_reads) (auto simp: safely_def)

lemma decode_tag_reads:
  assumes "stream_ok pend s"
  obtains r eof s' where "pb_decode_tag rd s = Some (r, eof, s')" and "moves pend s s'"
    and "r \<noteq> None \<Longrightarrow> unat (bytes_left s') < unat (bytes_left s)"
proof -
  from assms obtain r eof s' where "pb_decode_varint32_eof rd s = Some (r, eof, s')" "moves pend s s'"
    "r \<noteq> None \<Longrightarrow> unat (bytes_left s') < unat (bytes_left s)" by (rule varint32_eof_reads) blast
  then show thesis
    using that [of None] that [of "Some (the r AND 7, drop_bit 3 (the r))"]
    by (cases r; cases "the r = 0") (simp_all add: pb_decode_tag_def)
qed

lemma decode_fixed32_reads:
  assumes "stream_ok pend s" shows "reads pend s (pb_decode_fixed32 rd s)"
proof -
  from assms obtain r bs s' where r: "pb_read rd s True 4 = Some (r, bs, s')" "moves pend s s'"
    "r \<Longrightarrow> advances pend s (unat (4 :: u64)) s'" "r \<Longrightarrow> length bs = unat (4 :: u64)"
    by (rule read_safe [where want = True and n = 4]) blast
  show ?thesis
  proof (cases r)
    case True
    then obtain b0 b1 b2 b3 where "bs = [b0, b1, b2, b3]"
      using r(4) list_of_4 [of bs] by auto
    with r True show ?thesis by (auto simp: pb_decode_fixed32_def reads_def advances_def)
  qed (use r in \<open>auto simp: pb_decode_fixed32_def reads_def\<close>)
qed

lemma decode_fixed64_reads:
  assumes "stream_ok pend s" shows "reads pend s (pb_decode_fixed64 rd s)"
proof -
  from assms obtain r bs s' where r: "pb_read rd s True 8 = Some (r, bs, s')" "moves pend s s'"
    "r \<Longrightarrow> advances pend s (unat (8 :: u64)) s'" "r \<Longrightarrow> length bs = unat (8 :: u64)"
    by (rule read_safe [where want = True and n = 8]) blast
  show ?thesis
  proof (cases r)
    case True
    then obtain b0 b1 b2 b3 b4 b5 b6 b7 where "bs = [b0, b1, b2, b3, b4, b5, b6, b7]"
      using r(4) list_of_8 [of bs] by auto
    with r True show ?thesis by (auto simp: pb_decode_fixed64_def reads_def advances_def)
  qed (use r in \<open>auto simp: pb_decode_fixed64_def reads_def\<close>)
qed

lemma skip_varint_reads:
  assumes "stream_ok pend s"
  shows "reads pend s (pb_skip_varint rd s)"
proof -
  let ?Q = "\<lambda>(r :: unit option, s1). moves pend s s1 \<and>
      (r \<noteq> None \<longrightarrow> unat (bytes_left s1) < unat (bytes_left s))"
  have "\<exists>x. c_loop (skip_varint_round rd) s = Some x \<and> ?Q x"
  proof (rule c_loop_total [where I = "moves pend s" and m = "\<lambda>s1. unat (bytes_left s1)"])
    fix s1 assume m: "moves pend s s1"
    obtain r bs s2 where r: "pb_read rd s1 True 1 = Some (r, bs, s2)" "moves pend s1 s2"
      "r \<Longrightarrow> advances pend s1 (unat (1 :: u64)) s2" "r \<Longrightarrow> length bs = unat (1 :: u64)"
      by (rule read_safe [OF moves_stream_ok [OF m assms], of True 1]) blast
    have "moves pend s s2" using moves_trans [OF m r(2)] .
    moreover have "unat (bytes_left s1) \<le> unat (bytes_left s)" using m by (simp add: moves_def)
    ultimately show "(\<exists>s'. skip_varint_round rd s1 = Some (Inl s') \<and> moves pend s s' \<and>
          unat (bytes_left s') < unat (bytes_left s1)) \<or>
        (\<exists>r. skip_varint_round rd s1 = Some (Inr r) \<and> ?Q r)"
      using r by (cases r; cases bs) (auto simp: skip_varint_round_def advances_def)
  qed simp
  then show ?thesis by (auto simp: pb_skip_varint_def reads_def)
qed

lemma skip_string_reads: "stream_ok pend s \<Longrightarrow> reads pend s (pb_skip_string rd s)"
  unfolding pb_skip_string_def
  by (intro reads_try varint32_reads read_ok_safely) (auto intro: moves_stream_ok)

lemma skip_field_safely:
  assumes "stream_ok pend s"
  shows "safely pend s (pb_skip_field rd s wt)"
  using reads_safely [OF skip_varint_reads [OF assms]] reads_safely [OF skip_string_reads [OF assms]]
    read_ok_safely [OF assms]
  by (auto simp: pb_skip_field_def safely_def)

lemma read_raw_value_safely:
  assumes "stream_ok pend s"
  shows "safely pend s (read_raw_value rd s wt msz)"
proof -
  let ?I = "\<lambda>(buf :: u8 list, s1). moves pend s s1"
  let ?Q = "\<lambda>(r :: u8 list option, s1). moves pend s s1"
  have "\<exists>x. c_loop (raw_varint_round rd msz) ([], s) = Some x \<and> ?Q x"
  proof (rule c_loop_total [where I = ?I and m = "\<lambda>(buf, s1). unat (bytes_left s1)"])
    fix t :: "u8 list \<times> pb_istream" assume "?I t"
    then obtain buf s1 where t: "t = (buf, s1)" and m: "moves pend s s1" by (cases t) auto
    obtain r bs s2 where r: "pb_read rd s1 True 1 = Some (r, bs, s2)" "moves pend s1 s2"
      "r \<Longrightarrow> advances pend s1 (unat (1 :: u64)) s2" "r \<Longrightarrow> length bs = unat (1 :: u64)"
      by (rule read_safe [OF moves_stream_ok [OF m assms], of True 1]) blast
    have "moves pend s s2" using moves_trans [OF m r(2)] .
    then show "(\<exists>s'. raw_varint_round rd msz t = Some (Inl s') \<and> ?I s' \<and>
          (case s' of (buf, s1) \<Rightarrow> unat (bytes_left s1)) < (case t of (buf, s1) \<Rightarrow> unat (bytes_left s1))) \<or>
        (\<exists>r. raw_varint_round rd msz t = Some (Inr r) \<and> ?Q r)"
      using r m t by (cases r; cases bs) (auto simp: raw_varint_round_def advances_def)
  qed simp
  moreover have "safely pend s (raw_bytes (pb_read rd s True n))" for n
    by (rule read_safe [OF assms, of True n]) (auto simp: safely_def raw_bytes_def)
  ultimately show ?thesis
    by (auto simp: read_raw_value_def safely_def)
qed

section \<open>Substreams\<close>

text \<open>Until the substream is closed, the parent's read position lags behind its
  \<open>bytes_left\<close>; it stays within the bytes it had.\<close>

lemma pend_cong:
  assumes "i_callback s = i_callback s'" and "i_state s = i_state s'"
  shows "pend s = pend s'"
proof -
  have "s = s'\<lparr>bytes_left := bytes_left s, i_errmsg := i_errmsg s\<rparr>"
    using assms by (intro pb_istream.equality) simp_all
  then show ?thesis by (metis pend_bytes_left pend_errmsg)
qed

lemma make_substream:
  assumes "stream_ok pend s"
  obtains (fail) s' where "pb_make_string_substream rd s = Some (None, s')" and "moves pend s s'"
  | (ok) s0 sub s1 where "pb_make_string_substream rd s = Some (Some sub, s1)"
    and "moves pend s s0" and "unat (bytes_left s0) < unat (bytes_left s)"
    and "sub = s0\<lparr>bytes_left := bytes_left sub\<rparr>"
    and "s1 = s0\<lparr>bytes_left := bytes_left s1\<rparr>"
    and "unat (bytes_left sub) + unat (bytes_left s1) = unat (bytes_left s0)"
    and "stream_ok pend sub"
proof -
  from varint32_reads [OF assms] obtain r s0 where r: "pb_decode_varint32 rd s = Some (r, s0)"
    "moves pend s s0" "r \<noteq> None \<longrightarrow> unat (bytes_left s0) < unat (bytes_left s)"
    by (auto simp: reads_def)
  show thesis
  proof (cases r)
    case None
    with r show thesis by (intro fail) (simp_all add: pb_make_string_substream_def)
  next
    case (Some n)
    show thesis
    proof (cases "bytes_left s0 < ucast n")
      case True
      with r Some show thesis
        by (intro fail [of "i_error E_parent_stream_too_short s0"])
          (simp_all add: pb_make_string_substream_def)
    next
      case False
      then have le: "unat (ucast n :: u64) \<le> unat (bytes_left s0)"
        by (simp add: word_less_nat_alt not_less)
      let ?sub = "s0\<lparr>bytes_left := ucast n\<rparr>"
      let ?s1 = "s0\<lparr>bytes_left := bytes_left s0 - ucast n\<rparr>"
      have "pb_make_string_substream rd s = Some (Some ?sub, ?s1)"
        using r Some False by (simp add: pb_make_string_substream_def)
      moreover have "unat (bytes_left ?sub) + unat (bytes_left ?s1) = unat (bytes_left s0)"
        using le False by (simp add: unat_sub not_less)
      moreover have "stream_ok pend ?sub"
        using le moves_stream_ok [OF r(2) assms] by (simp add: stream_ok_def pend_bytes_left)
      ultimately show thesis using ok [of ?sub ?s1 s0] r(2,3) Some by simp
    qed
  qed
qed

lemma close_substream:
  assumes ok: "stream_ok pend s0" and sub: "sub = s0\<lparr>bytes_left := bytes_left sub\<rparr>"
    and s1: "i_callback s1 = i_callback s0"
    and sum: "unat (bytes_left sub) + unat (bytes_left s1) = unat (bytes_left s0)"
    and m: "moves pend sub sub'"
  obtains s2 where "pb_close_string_substream rd s1 sub' = Some (Some (), s2)"
    and "moves pend s0 s2" and "bytes_left s2 = bytes_left s1"
proof -
  have psub: "pend sub = pend s0" by (subst sub) (simp add: pend_bytes_left)
  have "stream_ok pend sub" using ok sum psub by (simp add: stream_ok_def)
  then have ok': "stream_ok pend sub'" using m moves_stream_ok by blast
  let ?s2 = "\<lambda>t. s1\<lparr>i_state := i_state t, i_errmsg := i_errmsg t\<rparr>"
  have res: "moves pend s0 (?s2 t)" if "advances pend sub' (unat (bytes_left sub')) t" for t
  proof -
    have "i_callback t = i_callback s0"
      using that m by (subst (asm) sub) (simp add: advances_def moves_def)
    then have "pend (?s2 t) = pend t" using s1 by (intro pend_cong) simp_all
    moreover have "unat (bytes_left sub') \<le> unat (bytes_left sub)" using m by (simp add: moves_def)
    moreover have "unat (bytes_left s0) - unat (bytes_left s1) = unat (bytes_left sub)"
      using sum by simp
    ultimately show ?thesis
      using that m sum s1 psub by (auto simp: moves_def advances_def)
  qed
  show thesis
  proof (cases "bytes_left sub' = 0")
    case True
    then show thesis
      using that [of "?s2 sub'"] res [of sub'] by (simp add: pb_close_string_substream_def)
  next
    case False
    from pb_read_skip [OF ok' order_refl] obtain t where
      "pb_read rd sub' False (bytes_left sub') = Some (True, [], t)"
      "advances pend sub' (unat (bytes_left sub')) t" .
    then show thesis
      using that [of "?s2 t"] res [of t] False by (simp add: pb_close_string_substream_def)
  qed
qed

end

end
