(* ===== verification/Pb_Common.thy ===== *)
theory Pb_Common
  imports Pb_Types
begin

text \<open>
  The field iterator of \<open>nanopb/pb_common.c\<close>. A position in the descriptor array is an index;
  pointers into the message are addresses. \<open>pSize\<close> is an address too, except where
  \<open>pb_decode_noinit\<close> makes it point at its local variable \<open>fixed_count_size\<close>.
\<close>

section \<open>State and operations\<close>

datatype psize = SizeAt u64 | FixedCountSize

record pb_field_iter =
  it_start :: "pb_field list"
  it_pos :: nat
  required_field_index :: u32
  dest_struct :: u64
  pData :: u64
  pSize :: psize

abbreviation it_field :: "pb_field_iter \<Rightarrow> pb_field" where
  "it_field it \<equiv> field_at (it_start it) (it_pos it)"

definition pb_field_iter_begin :: "pb_field list \<Rightarrow> u64 \<Rightarrow> bool \<times> pb_field_iter" where
  "pb_field_iter_begin fs dest =
     (let f = field_at fs 0;
          pd = (if dest = 0 then 0 else dest + ucast (data_offset f));
          ps = (if dest = 0 then 0 else pd + scast (size_offset f))
      in (tag f \<noteq> 0,
          \<lparr>it_start = fs, it_pos = 0, required_field_index = 0, dest_struct = dest,
           pData = pd, pSize = SizeAt ps\<rparr>))"

definition prev_field_size :: "pb_field \<Rightarrow> u64" where
  "prev_field_size f =
     (if PB_ATYPE (ftype f) = PB_ATYPE_STATIC \<and> PB_HTYPE (ftype f) = PB_HTYPE_REPEATED
      then ucast (data_size f) * ucast (array_size f)
      else if PB_ATYPE (ftype f) = PB_ATYPE_POINTER then 8
      else ucast (data_size f))"

definition pb_field_iter_next :: "pb_field_iter \<Rightarrow> bool \<times> pb_field_iter" where
  "pb_field_iter_next it =
     (let prev_field = it_field it
      in if tag prev_field = 0 then (False, it)
         else let it1 = it\<lparr>it_pos := it_pos it + 1\<rparr>; cur = it_field it1
              in if tag cur = 0
                 then (False, snd (pb_field_iter_begin (it_start it1) (dest_struct it1)))
                 else if PB_HTYPE (ftype prev_field) = PB_HTYPE_ONEOF \<and>
                         PB_HTYPE (ftype cur) = PB_HTYPE_ONEOF \<and> data_offset cur = PB_SIZE_MAX
                 then (True, it1)
                 else let it2 = (if PB_HTYPE (ftype prev_field) = PB_HTYPE_REQUIRED
                                 then it1\<lparr>required_field_index := required_field_index it1 + 1\<rparr>
                                 else it1);
                          pd = pData it2 + prev_field_size prev_field + ucast (data_offset cur)
                      in (True, it2\<lparr>pData := pd, pSize := SizeAt (pd + scast (size_offset cur))\<rparr>))"

text \<open>\<open>pb_extension_type_t\<close>: two function pointers and the argument, which the default
  handlers take as a field descriptor. A \<open>pb_extension_t\<close> lies in memory, with its members
  \<open>type\<close>, \<open>dest\<close>, \<open>next\<close> and \<open>found\<close> at these offsets.\<close>

record pb_extension_type =
  xt_decode :: u64
  xt_encode :: u64
  xt_arg :: "pb_field list"

abbreviation (input) ext_dest :: "u64 \<Rightarrow> u64" where "ext_dest ext \<equiv> ext + 8"
abbreviation (input) ext_next :: "u64 \<Rightarrow> u64" where "ext_next ext \<equiv> ext + 16"
abbreviation (input) ext_found :: "u64 \<Rightarrow> u64" where "ext_found ext \<equiv> ext + 24"

text \<open>The \<open>do ... while\<close> loop that steps until a condition holds or the start is reached again,
  as \<open>pb_field_iter_find\<close> and \<open>find_extension_field\<close> have it.\<close>

definition iter_search_round ::
  "(pb_field \<Rightarrow> bool) \<Rightarrow> nat \<Rightarrow> pb_field_iter \<Rightarrow> (pb_field_iter + (bool \<times> pb_field_iter)) option" where
  "iter_search_round P start it =
     (if P (it_field it) then Some (Inr (True, it))
      else let it1 = snd (pb_field_iter_next it)
           in if it_pos it1 \<noteq> start then Some (Inl it1) else Some (Inr (False, it1)))"

definition pb_field_iter_find :: "pb_field_iter \<Rightarrow> u32 \<Rightarrow> (bool \<times> pb_field_iter) option" where
  "pb_field_iter_find it wanted =
     c_loop (iter_search_round
       (\<lambda>f. tag f = wanted \<and> PB_LTYPE (ftype f) \<noteq> PB_LTYPE_EXTENSION) (it_pos it)) it"

text \<open>From \<open>pb_decode.c\<close>.\<close>

definition find_extension_field :: "pb_field_iter \<Rightarrow> (bool \<times> pb_field_iter) option" where
  "find_extension_field it =
     c_loop (iter_search_round (\<lambda>f. PB_LTYPE (ftype f) = PB_LTYPE_EXTENSION) (it_pos it)) it"

text \<open>A \<open>do ... while (pb_field_iter_next(&iter))\<close> loop with a body that may fail.\<close>

definition iter_round ::
  "(pb_field_iter \<Rightarrow> 's \<Rightarrow> (unit option \<times> 's) option) \<Rightarrow> pb_field_iter \<times> 's \<Rightarrow>
   ((pb_field_iter \<times> 's) + (unit option \<times> 's)) option" where
  "iter_round body = (\<lambda>(it, s).
     (case body it s of
        None \<Rightarrow> None
      | Some (None, s1) \<Rightarrow> Some (Inr (None, s1))
      | Some (Some _, s1) \<Rightarrow>
          (case pb_field_iter_next it of
             (True, it1) \<Rightarrow> Some (Inl (it1, s1))
           | (False, it1) \<Rightarrow> Some (Inr (Some (), s1)))))"

definition for_each_field ::
  "(pb_field_iter \<Rightarrow> 's \<Rightarrow> (unit option \<times> 's) option) \<Rightarrow> pb_field list \<Rightarrow> u64 \<Rightarrow> 's \<Rightarrow>
   (unit option \<times> 's) option" where
  "for_each_field body fs dest s =
     (let (nonempty, it) = pb_field_iter_begin fs dest
      in if nonempty then c_loop (iter_round body) (it, s) else Some (Some (), s))"

section \<open>Where the iterator stands\<close>

text \<open>A descriptor array whose only zero tag is the terminator.\<close>

definition wf_fields :: "pb_field list \<Rightarrow> bool" where
  "wf_fields fs \<longleftrightarrow> (\<forall>f \<in> set fs. tag f \<noteq> 0)"

text \<open>\<open>iter_nth fs dest i\<close>: the iterator after \<open>i\<close> steps from the beginning.\<close>

primrec iter_nth :: "pb_field list \<Rightarrow> u64 \<Rightarrow> nat \<Rightarrow> pb_field_iter" where
  "iter_nth fs dest 0 = snd (pb_field_iter_begin fs dest)"
| "iter_nth fs dest (Suc i) = snd (pb_field_iter_next (iter_nth fs dest i))"

lemma field_at_tag:
  assumes "wf_fields fs"
  shows "tag (field_at fs i) = 0 \<longleftrightarrow> length fs \<le> i"
  using assms by (auto simp: wf_fields_def field_at_def PB_LAST_FIELD_def)

lemma iter_begin_fields:
  "pb_field_iter_begin fs dest = (tag (field_at fs 0) \<noteq> 0, iter_nth fs dest 0)"
  by (simp add: pb_field_iter_begin_def Let_def)

lemma iter_nth_fields:
  assumes "wf_fields fs" and "i < length fs"
  shows "it_start (iter_nth fs dest i) = fs \<and> it_pos (iter_nth fs dest i) = i \<and>
    dest_struct (iter_nth fs dest i) = dest"
  using assms(2)
proof (induction i)
  case 0
  then show ?case by (simp add: pb_field_iter_begin_def Let_def)
next
  case (Suc i)
  then show ?case
    using field_at_tag [OF assms(1), of i] field_at_tag [OF assms(1), of "Suc i"]
    by (simp add: pb_field_iter_next_def Let_def)
qed

lemma iter_next_nth:
  assumes "wf_fields fs" and "i < length fs"
  shows "pb_field_iter_next (iter_nth fs dest i) =
    (if Suc i < length fs then (True, iter_nth fs dest (Suc i))
     else (False, iter_nth fs dest 0))"
  using iter_nth_fields [OF assms, of dest] assms(2)
    field_at_tag [OF assms(1), of i] field_at_tag [OF assms(1), of "Suc i"]
  by (simp add: pb_field_iter_next_def Let_def)

declare iter_nth.simps [simp del]

section \<open>Searching\<close>

definition passed :: "nat \<Rightarrow> nat \<Rightarrow> nat \<Rightarrow> nat set" where
  "passed n i k = (if i \<le> k then {i..<k} else {i..<n} \<union> {0..<k})"

definition cyc_dist :: "nat \<Rightarrow> nat \<Rightarrow> nat \<Rightarrow> nat" where
  "cyc_dist n i k = (if i \<le> k then n - k + i else i - k)"

definition cyc_next :: "nat \<Rightarrow> nat \<Rightarrow> nat" where
  "cyc_next n k = (if Suc k < n then Suc k else 0)"

lemma cyc_next_lt: "k < n \<Longrightarrow> cyc_next n k < n"
  by (simp add: cyc_next_def)

lemma cyc_next_passed:
  assumes "i < n" and "k < n" and "cyc_next n k \<noteq> i"
  shows "passed n i (cyc_next n k) = insert k (passed n i k)"
    and "cyc_dist n i (cyc_next n k) < cyc_dist n i k"
proof -
  consider "Suc k < n" "i \<le> k" | "Suc k < n" "k < i" | "Suc k = n" "i \<le> k" | "Suc k = n" "k < i"
    using assms(2) by linarith
  note c = this
  from c show "passed n i (cyc_next n k) = insert k (passed n i k)"
    using assms by cases (auto simp: passed_def cyc_next_def)
  from c show "cyc_dist n i (cyc_next n k) < cyc_dist n i k"
  proof cases
    case 3
    then show ?thesis using assms by (auto simp: cyc_dist_def cyc_next_def)
  qed (use assms in \<open>auto simp: cyc_dist_def cyc_next_def\<close>)
qed

lemma cyc_all_passed:
  assumes "i < n" and "k < n" and "cyc_next n k = i"
  shows "insert k (passed n i k) = {..<n}"
  using assms by (cases "Suc k < n") (auto simp: passed_def cyc_next_def)

lemma iter_search_nth:
  assumes wf: "wf_fields fs" and i: "i < length fs"
  shows "\<exists>r. c_loop (iter_search_round P i) (iter_nth fs dest i) = Some r \<and>
     (if \<exists>f \<in> set fs. P f
      then \<exists>j < length fs. P (fs ! j) \<and> r = (True, iter_nth fs dest j)
      else r = (False, iter_nth fs dest i))"
proof -
  let ?n = "length fs"
  let ?I = "\<lambda>it. \<exists>k < ?n. it = iter_nth fs dest k \<and> (\<forall>j \<in> passed ?n i k. \<not> P (fs ! j))"
  let ?Q = "\<lambda>r. if \<exists>f \<in> set fs. P f then \<exists>j < ?n. P (fs ! j) \<and> r = (True, iter_nth fs dest j)
      else r = (False, iter_nth fs dest i)"
  have step: "(\<exists>s'. iter_search_round P i it = Some (Inl s') \<and> ?I s' \<and>
        cyc_dist ?n i (it_pos s') < cyc_dist ?n i (it_pos it)) \<or>
      (\<exists>r. iter_search_round P i it = Some (Inr r) \<and> ?Q r)" if "?I it" for it
  proof -
    from that obtain k where k: "k < ?n" "it = iter_nth fs dest k"
      and no: "\<forall>j \<in> passed ?n i k. \<not> P (fs ! j)" by blast
    let ?k = "cyc_next ?n k"
    have k': "?k < ?n" using k(1) by (rule cyc_next_lt)
    have pos: "it_pos it = k" "it_field it = fs ! k" "it_pos (iter_nth fs dest ?k) = ?k"
      using iter_nth_fields [OF wf k(1), of dest] iter_nth_fields [OF wf k', of dest] k
      by (simp_all add: field_at_in)
    have nxt: "snd (pb_field_iter_next it) = iter_nth fs dest ?k"
      using iter_next_nth [OF wf k(1), of dest] k(2) by (simp add: cyc_next_def)
    show ?thesis
    proof (cases "P (fs ! k)")
      case True
      then have "iter_search_round P i it = Some (Inr (True, iter_nth fs dest k))"
        using pos k(2) by (simp add: iter_search_round_def)
      moreover have ex: "\<exists>f \<in> set fs. P f" using True nth_mem [OF k(1)] by blast
      have "?Q (True, iter_nth fs dest k)"
        unfolding if_P [OF ex] using True k(1) by blast
      ultimately show ?thesis by blast
    next
      case False
      show ?thesis
      proof (cases "?k = i")
        case True
        then have none: "\<not> (\<exists>f \<in> set fs. P f)"
        proof -
          have "\<not> P (fs ! j)" if "j < ?n" for j
            using cyc_all_passed [OF i k(1) True] that no False by (metis insertE lessThan_iff)
          then show ?thesis by (metis in_set_conv_nth)
        qed
        have "iter_search_round P i it = Some (Inr (False, iter_nth fs dest i))"
          using False pos nxt True by (simp add: iter_search_round_def Let_def)
        moreover have "?Q (False, iter_nth fs dest i)" using none by simp
        ultimately show ?thesis by blast
      next
        case neq: False
        then have "?I (iter_nth fs dest ?k)"
          using cyc_next_passed(1) [OF i k(1) neq] no False k' by (intro exI [of _ ?k]) simp
        moreover have "iter_search_round P i it = Some (Inl (iter_nth fs dest ?k))"
          using False pos nxt neq by (simp add: iter_search_round_def Let_def)
        ultimately show ?thesis
          using cyc_next_passed(2) [OF i k(1) neq] pos(1,3)
          by (intro disjI1 exI [of _ "iter_nth fs dest ?k"]) simp
      qed
    qed
  qed
  have "?I (iter_nth fs dest i)" using i by (intro exI [of _ i]) (simp add: passed_def)
  then show ?thesis
    by (rule c_loop_total [where I = ?I and m = "\<lambda>it. cyc_dist ?n i (it_pos it)"]) (rule step)
qed

section \<open>Visiting all fields\<close>

primrec run_iters ::
  "(pb_field_iter \<Rightarrow> 's \<Rightarrow> (unit option \<times> 's) option) \<Rightarrow> pb_field_iter list \<Rightarrow> 's \<Rightarrow>
   (unit option \<times> 's) option" where
  "run_iters body [] s = Some (Some (), s)"
| "run_iters body (it # its) s = c_try (body it s) (\<lambda>_ s1. run_iters body its s1)"

definition iters_of :: "pb_field list \<Rightarrow> u64 \<Rightarrow> pb_field_iter list" where
  "iters_of fs dest = map (iter_nth fs dest) [0..<length fs]"

lemma iter_loop_run:
  assumes wf: "wf_fields fs" and "i < length fs"
  shows "c_loop (iter_round body) (iter_nth fs dest i, s) =
    run_iters body (map (iter_nth fs dest) [i..<length fs]) s"
  using assms(2)
proof (induction "length fs - i" arbitrary: i s)
  case (Suc n)
  have eq: "map (iter_nth fs dest) [i..<length fs] =
      iter_nth fs dest i # map (iter_nth fs dest) [Suc i..<length fs]"
    using Suc.prems by (simp add: upt_conv_Cons)
  note nxt = iter_next_nth [OF wf Suc.prems, of dest]
  show ?case
  proof (cases "body (iter_nth fs dest i) s")
    case None
    then have "iter_round body (iter_nth fs dest i, s) = None" by (simp add: iter_round_def)
    then show ?thesis by (simp add: eq None c_loop_stuck)
  next
    case (Some p)
    obtain r s1 where p: "p = (r, s1)" by (cases p)
    show ?thesis
    proof (cases r)
      case None
      with Some p have "iter_round body (iter_nth fs dest i, s) = Some (Inr (None, s1))"
        by (simp add: iter_round_def)
      then show ?thesis using Some p None by (simp add: eq c_loop_exit)
    next
      case r: (Some u)
      show ?thesis
      proof (cases "Suc i < length fs")
        case True
        then have "iter_round body (iter_nth fs dest i, s) = Some (Inl (iter_nth fs dest (Suc i), s1))"
          using Some p r nxt by (simp add: iter_round_def)
        then show ?thesis
          using Some p r True Suc.hyps(1) [of "Suc i" s1] Suc.hyps(2) by (simp add: eq c_loop_next)
      next
        case False
        then have "iter_round body (iter_nth fs dest i, s) = Some (Inr (Some (), s1))"
          using Some p r nxt by (simp add: iter_round_def)
        then show ?thesis using Some p r False by (simp add: eq c_loop_exit)
      qed
    qed
  qed
qed simp

lemma for_each_field_run:
  assumes "wf_fields fs"
  shows "for_each_field body fs dest s = run_iters body (iters_of fs dest) s"
  using iter_loop_run [OF assms, of 0 body dest s] field_at_tag [OF assms, of 0]
  by (cases fs) (simp_all add: for_each_field_def iter_begin_fields iters_of_def)

section \<open>Properties\<close>

lemma iter_nth_Suc:
  assumes "wf_fields fs" and "Suc i < length fs"
    and "\<not> (PB_HTYPE (ftype (fs ! i)) = PB_HTYPE_ONEOF \<and> PB_HTYPE (ftype (fs ! Suc i)) = PB_HTYPE_ONEOF)"
  shows "pData (iter_nth fs dest (Suc i)) =
      pData (iter_nth fs dest i) + prev_field_size (fs ! i) + ucast (data_offset (fs ! Suc i))"
    and "pSize (iter_nth fs dest (Suc i)) =
      SizeAt (pData (iter_nth fs dest (Suc i)) + scast (size_offset (fs ! Suc i)))"
  using iter_nth_fields [OF assms(1), of i dest] assms(2,3)
    field_at_tag [OF assms(1), of i] field_at_tag [OF assms(1), of "Suc i"]
  by (auto simp: iter_nth.simps pb_field_iter_next_def Let_def field_at_in)

lemma iter_nth_required:
  assumes "wf_fields fs" and "i < length fs"
  shows "required_field_index (iter_nth fs dest i) =
    of_nat (length (filter (\<lambda>f. PB_HTYPE (ftype f) = PB_HTYPE_REQUIRED) (take i fs)))"
  using assms(2)
proof (induction i)
  case 0
  then show ?case by (simp add: iter_nth.simps pb_field_iter_begin_def Let_def)
next
  case (Suc i)
  then show ?case
    using iter_nth_fields [OF assms(1), of i dest]
      field_at_tag [OF assms(1), of i] field_at_tag [OF assms(1), of "Suc i"]
    by (auto simp: iter_nth.simps pb_field_iter_next_def Let_def field_at_in take_Suc_conv_app_nth)
qed

lemma iter_data_position:
  assumes "wf_fields fs" and "i < length fs" and "dest \<noteq> 0"
    and "\<forall>f \<in> set fs. PB_HTYPE (ftype f) \<noteq> PB_HTYPE_ONEOF"
  shows "pData (iter_nth fs dest i) =
      dest + (\<Sum>f\<leftarrow>take i fs. prev_field_size f) + (\<Sum>f\<leftarrow>take (Suc i) fs. ucast (data_offset f))"
  using assms(2)
proof (induction i)
  case 0
  then show ?case
    using assms(3) by (cases fs) (simp_all add: iter_nth.simps pb_field_iter_begin_def Let_def field_at_in)
next
  case (Suc i)
  have "\<not> (PB_HTYPE (ftype (fs ! i)) = PB_HTYPE_ONEOF \<and> PB_HTYPE (ftype (fs ! Suc i)) = PB_HTYPE_ONEOF)"
    using assms(4) Suc.prems by simp
  then show ?case
    using Suc.IH iter_nth_Suc(1) [OF assms(1) Suc.prems] Suc.prems
    by (simp add: take_Suc_conv_app_nth [of i fs] take_Suc_conv_app_nth [of "Suc i" fs] algebra_simps)
qed

lemma iter_size_position:
  assumes "wf_fields fs" and "i < length fs" and "dest \<noteq> 0"
    and "\<forall>f \<in> set fs. PB_HTYPE (ftype f) \<noteq> PB_HTYPE_ONEOF"
  shows "pSize (iter_nth fs dest i) = SizeAt (pData (iter_nth fs dest i) + scast (size_offset (fs ! i)))"
proof (cases i)
  case 0
  then show ?thesis
    using assms(2,3) by (simp add: iter_nth.simps pb_field_iter_begin_def Let_def field_at_in)
next
  case (Suc j)
  then show ?thesis using iter_nth_Suc(2) [OF assms(1), of j] assms(2,4) by simp
qed

text \<open>In a message without unions, the iterator's running pointers are the closed form: a
  field lies behind all the fields before it, each taking its size in the structure, and all the
  paddings up to it; the size pointer is at its signed offset from there, and the index of required
  fields counts the required fields passed.\<close>

lemma iter_position:
  assumes "wf_fields fs" and "i < length fs" and "dest \<noteq> 0"
    and "\<forall>f \<in> set fs. PB_HTYPE (ftype f) \<noteq> PB_HTYPE_ONEOF"
  shows "pData (iter_nth fs dest i) =
      dest + (\<Sum>f\<leftarrow>take i fs. prev_field_size f) + (\<Sum>f\<leftarrow>take (Suc i) fs. ucast (data_offset f)) \<and>
    pSize (iter_nth fs dest i) = SizeAt (pData (iter_nth fs dest i) + scast (size_offset (fs ! i))) \<and>
    required_field_index (iter_nth fs dest i) =
      of_nat (length (filter (\<lambda>f. PB_HTYPE (ftype f) = PB_HTYPE_REQUIRED) (take i fs)))"
  using iter_data_position [OF assms] iter_size_position [OF assms] iter_nth_required [OF assms(1,2)]
  by blast

lemma iter_position_witness:
  "pData (iter_nth [PB_REQUIRED_STATIC 1 0 4 PB_LTYPE_UVARINT PtrNull,
      PB_OPTIONAL_STATIC 7 8 0xFFFFFFFC 8 PB_LTYPE_FIXED64 PtrNull] 0x100 1) = 0x10C"
proof -
  let ?fs = "[PB_REQUIRED_STATIC 1 0 4 PB_LTYPE_UVARINT PtrNull,
    PB_OPTIONAL_STATIC 7 8 0xFFFFFFFC 8 PB_LTYPE_FIXED64 PtrNull]"
  have "wf_fields ?fs" "1 < length ?fs" "(0x100 :: u64) \<noteq> 0"
    "\<forall>f \<in> set ?fs. PB_HTYPE (ftype f) \<noteq> PB_HTYPE_ONEOF"
    by (simp_all add: wf_fields_def pb_field_macros pb_type_defs)
  from iter_position [OF this] show ?thesis
    by (simp add: pb_field_macros pb_type_defs prev_field_size_def)
qed

text \<open>\<open>pb_field_iter_find\<close>, started anywhere, returns; it succeeds exactly if a field
  with that tag exists that is no extension placeholder, and then stands on such a field with the
  pointers it would have coming from the beginning; if it fails, the iterator is where it was.\<close>

lemma iter_find_correct:
  assumes "wf_fields fs" and "i < length fs"
  shows "\<exists>found it. pb_field_iter_find (iter_nth fs dest i) wanted = Some (found, it) \<and>
    found = (\<exists>f \<in> set fs. tag f = wanted \<and> PB_LTYPE (ftype f) \<noteq> PB_LTYPE_EXTENSION) \<and>
    (if found
     then \<exists>j < length fs. tag (fs ! j) = wanted \<and> PB_LTYPE (ftype (fs ! j)) \<noteq> PB_LTYPE_EXTENSION \<and>
            it = iter_nth fs dest j
     else it = iter_nth fs dest i)"
  using iter_search_nth [OF assms, of
      "\<lambda>f. tag f = wanted \<and> PB_LTYPE (ftype f) \<noteq> PB_LTYPE_EXTENSION" dest]
    iter_nth_fields [OF assms, of dest]
  by (auto simp: pb_field_iter_find_def split: if_splits)

lemma iter_find_correct_witness:
  "\<exists>found it. pb_field_iter_find
      (iter_nth [PB_REQUIRED_STATIC 1 0 4 PB_LTYPE_UVARINT PtrNull,
                 PB_REQUIRED_STATIC 7 4 8 PB_LTYPE_FIXED64 PtrNull] 0x100 1) 1 = Some (found, it) \<and>
    found"
proof -
  let ?fs = "[PB_REQUIRED_STATIC 1 0 4 PB_LTYPE_UVARINT PtrNull,
    PB_REQUIRED_STATIC 7 4 8 PB_LTYPE_FIXED64 PtrNull]"
  have "wf_fields ?fs" "1 < length ?fs" by (simp_all add: wf_fields_def pb_field_macros)
  then obtain found it where f: "pb_field_iter_find (iter_nth ?fs 0x100 1) 1 = Some (found, it)"
    "found = (\<exists>f \<in> set ?fs. tag f = 1 \<and> PB_LTYPE (ftype f) \<noteq> PB_LTYPE_EXTENSION)"
    using iter_find_correct [of ?fs 1 "0x100" 1] by blast
  have "found" unfolding f(2) by (simp add: pb_field_macros pb_type_defs)
  with f(1) show ?thesis by blast
qed

end
