(* ===== verification/Memory.thy ===== *)
theory Memory
  imports Prelude
begin

text \<open>
  The C program's memory: bytes at 64-bit addresses, of which only some belong to an object, and
  the blocks \<open>pb_realloc\<close> handed out. Reading or writing an address of no object, releasing
  what is no block or releasing it twice has no defined result and is \<open>None\<close>. Integers are
  stored least significant byte first, as on the targets; pointers are eight bytes. Which
  address an allocation gets (or that it gets none), and what a fresh block contains, is up to the
  allocator, a parameter.
\<close>

section \<open>Bytes\<close>

record memory =
  m_bytes :: "u64 \<Rightarrow> u8 option"
  m_heap :: "u64 \<Rightarrow> u64 option"

primrec load :: "memory \<Rightarrow> u64 \<Rightarrow> nat \<Rightarrow> u8 list option" where
  "load m a 0 = Some []"
| "load m a (Suc n) =
     (case m_bytes m a of
        None \<Rightarrow> None
      | Some b \<Rightarrow> map_option ((#) b) (load m (a + 1) n))"

fun store :: "memory \<Rightarrow> u64 \<Rightarrow> u8 list \<Rightarrow> memory option" where
  "store m a [] = Some m"
| "store m a (b # bs) =
     (case m_bytes m a of
        None \<Rightarrow> None
      | Some _ \<Rightarrow> store (m\<lparr>m_bytes := (m_bytes m)(a \<mapsto> b)\<rparr>) (a + 1) bs)"

definition load_u8 :: "memory \<Rightarrow> u64 \<Rightarrow> u8 option" where
  "load_u8 m a = m_bytes m a"

definition load_u16 :: "memory \<Rightarrow> u64 \<Rightarrow> u16 option" where
  "load_u16 m a = map_option (\<lambda>bs. of_nat (le_val bs)) (load m a 2)"

definition load_u32 :: "memory \<Rightarrow> u64 \<Rightarrow> u32 option" where
  "load_u32 m a = map_option (\<lambda>bs. of_nat (le_val bs)) (load m a 4)"

definition load_u64 :: "memory \<Rightarrow> u64 \<Rightarrow> u64 option" where
  "load_u64 m a = map_option (\<lambda>bs. of_nat (le_val bs)) (load m a 8)"

definition store_u8 :: "memory \<Rightarrow> u64 \<Rightarrow> u8 \<Rightarrow> memory option" where
  "store_u8 m a v = store m a [v]"

definition store_u16 :: "memory \<Rightarrow> u64 \<Rightarrow> u16 \<Rightarrow> memory option" where
  "store_u16 m a v = store m a (le_bytes 2 (unat v))"

definition store_u32 :: "memory \<Rightarrow> u64 \<Rightarrow> u32 \<Rightarrow> memory option" where
  "store_u32 m a v = store m a (le_bytes 4 (unat v))"

definition store_u64 :: "memory \<Rightarrow> u64 \<Rightarrow> u64 \<Rightarrow> memory option" where
  "store_u64 m a v = store m a (le_bytes 8 (unat v))"

section \<open>Spans and frames\<close>

definition span :: "u64 \<Rightarrow> nat \<Rightarrow> u64 set" where
  "span a n = (\<lambda>i. a + of_nat i) ` {..<n}"

definition mapped :: "memory \<Rightarrow> u64 \<Rightarrow> nat \<Rightarrow> bool" where
  "mapped m a n \<longleftrightarrow> span a n \<subseteq> dom (m_bytes m)"

lemma span_0 [simp]: "span a 0 = {}"
  by (simp add: span_def)

lemma span_Suc: "span a (Suc n) = insert a (span (a + 1) n)"
proof -
  have "span a (Suc n) = (\<lambda>i. a + of_nat i) ` insert 0 (Suc ` {..<n})"
    by (simp add: span_def lessThan_Suc_eq_insert_0)
  then show ?thesis by (simp add: span_def image_image add.assoc)
qed

lemma span_mono: "n \<le> k \<Longrightarrow> span a n \<subseteq> span a k"
  by (auto simp: span_def)

lemma mapped_mono: "mapped m a k \<Longrightarrow> n \<le> k \<Longrightarrow> mapped m a n"
  using span_mono [of n k a] by (auto simp: mapped_def)

lemma mapped_0 [simp]: "mapped m a 0"
  by (simp add: mapped_def)

lemma mapped_Suc: "mapped m a (Suc n) \<longleftrightarrow> a \<in> dom (m_bytes m) \<and> mapped m (a + 1) n"
  by (simp add: mapped_def span_Suc)

lemma span_fresh: "n < 2 ^ 64 \<Longrightarrow> a \<notin> span (a + 1) n"
proof
  assume n: "n < 2 ^ 64" and "a \<in> span (a + 1) n"
  then obtain i where "i < n" "a = a + 1 + of_nat i" by (auto simp: span_def)
  then have "(of_nat (Suc i) :: u64) = 0" by (simp add: add.assoc)
  moreover have "Suc i < 2 ^ LENGTH(64)" using \<open>i < n\<close> n by simp
  then have "unat (of_nat (Suc i) :: u64) = Suc i"
    unfolding unat_of_nat by (rule mod_less)
  ultimately show False by (simp del: of_nat_Suc)
qed

lemma load_length: "load m a n = Some bs \<Longrightarrow> length bs = n"
  by (induction n arbitrary: a bs) (auto split: option.splits)

lemma load_Some_iff: "(\<exists>bs. load m a n = Some bs) \<longleftrightarrow> mapped m a n"
  by (induction n arbitrary: a) (auto simp: mapped_Suc split: option.splits)

lemma load_mapped:
  assumes "mapped m a n"
  obtains bs where "load m a n = Some bs" and "length bs = n"
  using assms load_Some_iff load_length by blast

lemma store_dom: "store m a bs = Some m' \<Longrightarrow> dom (m_bytes m') = dom (m_bytes m)"
  by (induction m a bs rule: store.induct) (auto split: option.splits)

lemma store_mapped: "store m a bs = Some m' \<Longrightarrow> mapped m' b n = mapped m b n"
  by (simp add: mapped_def store_dom)

lemma store_heap: "store m a bs = Some m' \<Longrightarrow> m_heap m' = m_heap m"
  by (induction m a bs rule: store.induct) (auto split: option.splits)

lemma store_Some_iff: "(\<exists>m'. store m a bs = Some m') \<longleftrightarrow> mapped m a (length bs)"
proof (induction m a bs rule: store.induct)
  case (2 m a b bs)
  then show ?case
    by (cases "m_bytes m a") (simp_all add: mapped_def span_Suc domIff insert_absorb del: fun_upd_apply)
qed simp

lemma store_total:
  assumes "mapped m a (length bs)"
  obtains m' where "store m a bs = Some m'"
  using assms store_Some_iff by blast

lemma store_frame: "store m a bs = Some m' \<Longrightarrow> x \<notin> span a (length bs) \<Longrightarrow> m_bytes m' x = m_bytes m x"
  by (induction m a bs rule: store.induct) (auto simp: span_Suc split: option.splits)

lemma load_cong:
  "(\<And>x. x \<in> span a n \<Longrightarrow> m_bytes m' x = m_bytes m x) \<Longrightarrow> load m' a n = load m a n"
proof (induction n arbitrary: a)
  case (Suc n)
  have "load m' (a + 1) n = load m (a + 1) n" by (rule Suc.IH) (simp add: Suc.prems span_Suc)
  then show ?case using Suc.prems [of a] by (simp add: span_Suc split: option.splits)
qed simp

lemma load_store_other:
  "store m a bs = Some m' \<Longrightarrow> span a (length bs) \<inter> span b n = {} \<Longrightarrow> load m' b n = load m b n"
  by (rule load_cong) (auto intro: store_frame)

lemma load_store_same:
  "store m a bs = Some m' \<Longrightarrow> length bs \<le> 2 ^ 64 \<Longrightarrow> load m' a (length bs) = Some bs"
proof (induction m a bs rule: store.induct)
  case (2 m a b bs)
  then obtain c where c: "m_bytes m a = Some c" by (auto split: option.splits)
  let ?m = "m\<lparr>m_bytes := (m_bytes m)(a \<mapsto> b)\<rparr>"
  have st: "store ?m (a + 1) bs = Some m'" using 2 c by simp
  have "a \<notin> span (a + 1) (length bs)" using "2.prems"(2) by (intro span_fresh) simp
  then have "m_bytes m' a = Some b" using store_frame [OF st] by simp
  moreover have "load m' (a + 1) (length bs) = Some bs" using 2 c st by simp
  ultimately show ?case by simp
qed simp

subsection \<open>Typed accesses\<close>

lemma load_u32_store: "store_u32 m a v = Some m' \<Longrightarrow> load_u32 m' a = Some v"
  using load_store_same [of m a "le_bytes 4 (unat v)" m'] unsigned_less [of v, where ?'a = nat]
  by (simp add: load_u32_def store_u32_def le_val_le_bytes)

lemma load_u64_store: "store_u64 m a v = Some m' \<Longrightarrow> load_u64 m' a = Some v"
  using load_store_same [of m a "le_bytes 8 (unat v)" m'] unsigned_less [of v, where ?'a = nat]
  by (simp add: load_u64_def store_u64_def le_val_le_bytes)

lemma load_u8_store: "store_u8 m a v = Some m' \<Longrightarrow> load_u8 m' a = Some v"
  by (auto simp: load_u8_def store_u8_def split: option.splits)

section \<open>The heap\<close>

record allocator =
  a_pick :: "memory \<Rightarrow> u64 \<Rightarrow> u64 \<Rightarrow> u64"
  a_junk :: "u64 \<Rightarrow> u8"

text \<open>An address the allocator may return for \<open>n\<close> bytes in place of the block \<open>p\<close>: not
  null, nowhere in another object, and no block is there.\<close>

definition block_size :: "memory \<Rightarrow> u64 \<Rightarrow> u64" where
  "block_size m p = (if p = 0 then 0 else case m_heap m p of None \<Rightarrow> 0 | Some k \<Rightarrow> k)"

definition in_block :: "u64 \<Rightarrow> u64 \<Rightarrow> u64 \<Rightarrow> bool" where
  "in_block p k x \<longleftrightarrow> x - p < k"

primrec room_for :: "memory \<Rightarrow> u64 \<Rightarrow> u64 \<Rightarrow> u64 \<Rightarrow> nat \<Rightarrow> bool" where
  "room_for m p k x 0 = True"
| "room_for m p k x (Suc n) =
     (x \<noteq> 0 \<and> (m_bytes m x = None \<or> in_block p k x) \<and> room_for m p k (x + 1) n)"

definition room_at :: "memory \<Rightarrow> u64 \<Rightarrow> u64 \<Rightarrow> u64 \<Rightarrow> bool" where
  "room_at m p q n \<longleftrightarrow>
     q \<noteq> 0 \<and> (q = p \<or> m_heap m q = None) \<and> room_for m p (block_size m p) q (unat n)"

definition c_realloc :: "allocator \<Rightarrow> memory \<Rightarrow> u64 \<Rightarrow> u64 \<Rightarrow> (u64 \<times> memory) option" where
  "c_realloc al m p n =
     (if p \<noteq> 0 \<and> m_heap m p = None then None
      else let q = a_pick al m p n; k = block_size m p
           in if \<not> room_at m p q n then Some (0, m)
              else Some (q,
                m\<lparr>m_bytes := (\<lambda>x.
                     if in_block q n x
                     then (if in_block q k x then m_bytes m (p + (x - q)) else Some (a_junk al x))
                     else if in_block p k x then None
                     else m_bytes m x),
                  m_heap := (m_heap m)(p := None, q \<mapsto> n)\<rparr>))"

definition c_free :: "memory \<Rightarrow> u64 \<Rightarrow> memory option" where
  "c_free m p =
     (if p = 0 then Some m
      else case m_heap m p of
             None \<Rightarrow> None
           | Some k \<Rightarrow>
               Some (m\<lparr>m_bytes := (\<lambda>x. if in_block p k x then None else m_bytes m x),
                       m_heap := (m_heap m)(p := None)\<rparr>))"

text \<open>\<open>memset\<close> and \<open>memcpy\<close> from constant data.\<close>

definition c_memset :: "memory \<Rightarrow> u64 \<Rightarrow> u8 \<Rightarrow> nat \<Rightarrow> memory option" where
  "c_memset m a v n = store m a (replicate n v)"

lemma c_free_twice: "p \<noteq> 0 \<Longrightarrow> c_free m p = Some m' \<Longrightarrow> c_free m' p = None"
  by (auto simp: c_free_def split: option.splits)

end
