(* ===== verification/Pb_Release.thy ===== *)
theory Pb_Release
  imports Pb_Common Memory
begin

text \<open>
  The parts of \<open>nanopb/pb_decode.c\<close> that touch a message structure and not the stream:
  setting fields to their defaults and releasing what they own. The recursion into submessages and
  extensions carries a depth bound. The extension types (by address) are the parameter
  \<open>xts\<close>.
\<close>

type_synonym ext_types = "u64 \<Rightarrow> pb_extension_type option"

section \<open>Reaching into the structure\<close>

definition size_get :: "pb_field_iter \<Rightarrow> u32 \<Rightarrow> memory \<Rightarrow> u32 option" where
  "size_get it fc m =
     (case pSize it of SizeAt a \<Rightarrow> load_u32 m a | FixedCountSize \<Rightarrow> Some fc)"

definition size_set :: "pb_field_iter \<Rightarrow> u32 \<Rightarrow> u32 \<Rightarrow> memory \<Rightarrow> (u32 \<times> memory) option" where
  "size_set it v fc m =
     (case pSize it of
        SizeAt a \<Rightarrow> map_option (\<lambda>m'. (fc, m')) (store_u32 m a v)
      | FixedCountSize \<Rightarrow> Some (v, m))"

text \<open>\<open>(const pb_field_t*\<close>)\<open>field->ptr\<close>, dereferenced by whoever gets it.\<close>

definition sub_fields :: "pb_field \<Rightarrow> pb_field list option" where
  "sub_fields f = (case fptr f of PtrFields fs \<Rightarrow> Some fs | _ \<Rightarrow> None)"

definition iter_from_extension :: "ext_types \<Rightarrow> u64 \<Rightarrow> memory \<Rightarrow> pb_field_iter option" where
  "iter_from_extension xts ext m = do {
     ta \<leftarrow> load_u64 m ext;
     xt \<leftarrow> xts ta;
     dest \<leftarrow> load_u64 m (ext_dest ext);
     let it = snd (pb_field_iter_begin (xt_arg xt) dest)
     in Some (it\<lparr>pData := (if PB_ATYPE (ftype (field_at (xt_arg xt) 0)) = PB_ATYPE_POINTER
                            then ext_dest ext else dest),
                 pSize := SizeAt (ext_found ext)\<rparr>)
   }"

section \<open>Default values\<close>

text \<open>A loop over all fields whose body cannot fail.\<close>

definition each_field_mem ::
  "(pb_field_iter \<Rightarrow> memory \<Rightarrow> memory option) \<Rightarrow> pb_field list \<Rightarrow> u64 \<Rightarrow> memory \<Rightarrow> memory option" where
  "each_field_mem body fs dest m =
     map_option snd
       (for_each_field (\<lambda>it m. map_option (\<lambda>m'. (Some (), m')) (body it m)) fs dest m)"

definition default_extension_round ::
  "ext_types \<Rightarrow> (pb_field_iter \<Rightarrow> memory \<Rightarrow> memory option) \<Rightarrow> u64 \<times> memory \<Rightarrow>
   ((u64 \<times> memory) + memory) option" where
  "default_extension_round xts set_default = (\<lambda>(ext, m).
     if ext = 0 then Some (Inr m)
     else do {
       m1 \<leftarrow> store_u8 m (ext_found ext) 0;
       it \<leftarrow> iter_from_extension xts ext m1;
       m2 \<leftarrow> set_default it m1;
       nxt \<leftarrow> load_u64 m2 (ext_next ext);
       Some (Inl (nxt, m2))
     })"

text \<open>The initialisation of the data of a static field, and \<open>pb_field_set_to_default\<close> with the
  recursive calls as a parameter.\<close>

definition init_static_data ::
  "(pb_field_iter \<Rightarrow> memory \<Rightarrow> memory option) \<Rightarrow> pb_field_iter \<Rightarrow> memory \<Rightarrow> memory option" where
  "init_static_data set_default it m =
     (let f = it_field it in
      if PB_LTYPE (ftype f) = PB_LTYPE_SUBMESSAGE
      then do { fs \<leftarrow> sub_fields f; each_field_mem set_default fs (pData it) m }
      else (case fptr f of
              PtrData bs \<Rightarrow>
                if length bs < unat (data_size f) then None
                else store m (pData it) (take (unat (data_size f)) bs)
            | PtrNull \<Rightarrow> c_memset m (pData it) 0 (unat (data_size f))
            | PtrFields _ \<Rightarrow> None))"

definition field_default_step ::
  "ext_types \<Rightarrow> (pb_field_iter \<Rightarrow> memory \<Rightarrow> memory option) \<Rightarrow> pb_field_iter \<Rightarrow> memory \<Rightarrow> memory option" where
  "field_default_step xts set_default it m =
     (let ty = ftype (it_field it) in
      if PB_LTYPE ty = PB_LTYPE_EXTENSION
      then do {
        ext \<leftarrow> load_u64 m (pData it);
        c_loop (default_extension_round xts set_default) (ext, m)
      }
      else if PB_ATYPE ty = PB_ATYPE_STATIC
      then (if PB_HTYPE ty = PB_HTYPE_OPTIONAL \<and> pSize it \<noteq> SizeAt (pData it)
            then (case pSize it of
                    SizeAt a \<Rightarrow> do {
                      m1 \<leftarrow> store_u8 m a 0;
                      init_static_data set_default it m1
                    }
                  | FixedCountSize \<Rightarrow> None)
            else if PB_HTYPE ty = PB_HTYPE_REPEATED \<or> PB_HTYPE ty = PB_HTYPE_ONEOF
            then map_option snd (size_set it 0 0 m)
            else init_static_data set_default it m)
      else if PB_ATYPE ty = PB_ATYPE_POINTER
      then do {
        m1 \<leftarrow> store_u64 m (pData it) 0;
        if PB_HTYPE ty = PB_HTYPE_REPEATED \<or> PB_HTYPE ty = PB_HTYPE_ONEOF
        then map_option snd (size_set it 0 0 m1)
        else Some m1
      }
      else Some m)"

primrec pb_field_set_to_default :: "ext_types \<Rightarrow> nat \<Rightarrow> pb_field_iter \<Rightarrow> memory \<Rightarrow> memory option" where
  "pb_field_set_to_default xts 0 = (\<lambda>it m. None)"
| "pb_field_set_to_default xts (Suc d) = field_default_step xts (pb_field_set_to_default xts d)"

definition pb_message_set_to_defaults ::
  "ext_types \<Rightarrow> nat \<Rightarrow> pb_field list \<Rightarrow> u64 \<Rightarrow> memory \<Rightarrow> memory option" where
  "pb_message_set_to_defaults xts d = each_field_mem (pb_field_set_to_default xts d)"

section \<open>Releasing\<close>

definition release_extension_round ::
  "ext_types \<Rightarrow> (pb_field_iter \<Rightarrow> memory \<Rightarrow> memory option) \<Rightarrow> u64 \<times> memory \<Rightarrow>
   ((u64 \<times> memory) + memory) option" where
  "release_extension_round xts release = (\<lambda>(ext, m).
     if ext = 0 then Some (Inr m)
     else do {
       it \<leftarrow> iter_from_extension xts ext m;
       m1 \<leftarrow> release it m;
       nxt \<leftarrow> load_u64 m1 (ext_next ext);
       Some (Inl (nxt, m1))
     })"

text \<open>\<open>pb_release\<close>, given the release of a field.\<close>

definition release_message ::
  "(pb_field_iter \<Rightarrow> memory \<Rightarrow> memory option) \<Rightarrow> pb_field list \<Rightarrow> u64 \<Rightarrow> memory \<Rightarrow> memory option" where
  "release_message release fs dest m =
     (if dest = 0 then Some m else each_field_mem release fs dest m)"

primrec release_items ::
  "(pb_field_iter \<Rightarrow> memory \<Rightarrow> memory option) \<Rightarrow> pb_field \<Rightarrow> nat \<Rightarrow> u64 \<Rightarrow> memory \<Rightarrow> memory option" where
  "release_items release f 0 p m = Some m"
| "release_items release f (Suc n) p m = do {
     fs \<leftarrow> (case fptr f of PtrFields fs \<Rightarrow> Some fs | _ \<Rightarrow> None);
     m1 \<leftarrow> release_message release fs p m;
     release_items release f n (p + ucast (data_size f)) m1
   }"

text \<open>The entries of a repeated string or bytes field.\<close>

primrec release_strings :: "nat \<Rightarrow> u64 \<Rightarrow> memory \<Rightarrow> memory option" where
  "release_strings 0 p m = Some m"
| "release_strings (Suc n) p m = do {
     q \<leftarrow> load_u64 m p;
     m1 \<leftarrow> c_free m q;
     m2 \<leftarrow> store_u64 m1 p 0;
     release_strings n (p + 8) m2
   }"

definition release_submessages ::
  "(pb_field_iter \<Rightarrow> memory \<Rightarrow> memory option) \<Rightarrow> pb_field_iter \<Rightarrow> memory \<Rightarrow> memory option" where
  "release_submessages release it m =
     (let f = it_field it; ty = ftype f in do {
        pItem \<leftarrow> (if PB_ATYPE ty = PB_ATYPE_POINTER then load_u64 m (pData it) else Some (pData it));
        count \<leftarrow>
          (if PB_HTYPE ty = PB_HTYPE_REPEATED
           then do {
             count \<leftarrow> (if PB_ATYPE ty = PB_ATYPE_STATIC \<and> pSize it = SizeAt (pData it)
                       then Some (array_size f) else size_get it 0 m);
             Some (if PB_ATYPE ty = PB_ATYPE_STATIC \<and> count > array_size f then array_size f else count)
           }
           else Some 1);
        if pItem \<noteq> 0 then release_items release f (unat count) pItem m else Some m
      })"

definition release_pointer :: "pb_field_iter \<Rightarrow> memory \<Rightarrow> memory option" where
  "release_pointer it m =
     (let ty = ftype (it_field it) in do {
        m1 \<leftarrow>
          (if PB_HTYPE ty = PB_HTYPE_REPEATED \<and>
              (PB_LTYPE ty = PB_LTYPE_STRING \<or> PB_LTYPE ty = PB_LTYPE_BYTES)
           then do {
             p \<leftarrow> load_u64 m (pData it);
             count \<leftarrow> size_get it 0 m;
             release_strings (unat count) p m
           }
           else Some m);
        m2 \<leftarrow> (if PB_HTYPE ty = PB_HTYPE_REPEATED then map_option snd (size_set it 0 0 m1) else Some m1);
        p \<leftarrow> load_u64 m2 (pData it);
        m3 \<leftarrow> c_free m2 p;
        store_u64 m3 (pData it) 0
      })"

definition release_field_step ::
  "ext_types \<Rightarrow> (pb_field_iter \<Rightarrow> memory \<Rightarrow> memory option) \<Rightarrow> pb_field_iter \<Rightarrow> memory \<Rightarrow> memory option" where
  "release_field_step xts release it m =
     (let f = it_field it; ty = ftype f in do {
        current \<leftarrow> (if PB_HTYPE ty = PB_HTYPE_ONEOF
                    then map_option (\<lambda>which. which = tag f) (size_get it 0 m) else Some True);
        if \<not> current then Some m
        else do {
          m1 \<leftarrow>
            (if PB_LTYPE ty = PB_LTYPE_EXTENSION
             then do {
               ext \<leftarrow> load_u64 m (pData it);
               c_loop (release_extension_round xts release) (ext, m)
             }
             else if PB_LTYPE ty = PB_LTYPE_SUBMESSAGE \<and> PB_ATYPE ty \<noteq> PB_ATYPE_CALLBACK
             then release_submessages release it m
             else Some m);
          if PB_ATYPE ty = PB_ATYPE_POINTER then release_pointer it m1 else Some m1
        }
      })"

primrec pb_release_single_field :: "ext_types \<Rightarrow> nat \<Rightarrow> pb_field_iter \<Rightarrow> memory \<Rightarrow> memory option" where
  "pb_release_single_field xts 0 = (\<lambda>it m. None)"
| "pb_release_single_field xts (Suc d) = release_field_step xts (pb_release_single_field xts d)"

definition pb_release :: "ext_types \<Rightarrow> nat \<Rightarrow> pb_field list \<Rightarrow> u64 \<Rightarrow> memory \<Rightarrow> memory option" where
  "pb_release xts d = release_message (pb_release_single_field xts d)"

end
