(* ===== verification/Pb_Decode.thy ===== *)
theory Pb_Decode
  imports Pb_Tokens Pb_Release
begin

text \<open>
  The message decoder of \<open>nanopb/pb_decode.c\<close>, function by function, over the pair of the
  input stream and the memory the message structure lies in. The context holds what the user and
  the C library supply: the callback of a user's stream, the allocator, decode callbacks (by
  function address), extension types (by address) and their decoders. The recursion into submessages
  carries a depth bound: \<open>pb_decode_noinit 0\<close> is undefined.
\<close>

section \<open>Context and state\<close>

type_synonym dstate = "pb_istream \<times> memory"
type_synonym 'a dresult = "('a option \<times> dstate) option"

record dec_ctx =
  dc_read :: user_read
  dc_alloc :: allocator
  dc_callback :: "u64 \<Rightarrow> pb_field \<Rightarrow> u64 \<Rightarrow> dstate \<Rightarrow> unit dresult"
  dc_exttype :: ext_types
  dc_extdecode :: "u64 \<Rightarrow> u64 \<Rightarrow> u32 \<Rightarrow> pb_wire_type \<Rightarrow> dstate \<Rightarrow> unit dresult"

type_synonym msg_decoder = "pb_field list \<Rightarrow> u64 \<Rightarrow> dstate \<Rightarrow> unit dresult"
type_synonym field_decoder = "pb_field \<Rightarrow> u64 \<Rightarrow> dstate \<Rightarrow> unit dresult"

definition d_error :: "pb_errmsg \<Rightarrow> dstate \<Rightarrow> 'a dresult" where
  "d_error e st = Some (None, (i_error e (fst st), snd st))"

text \<open>Functions on the stream alone, and on the memory alone.\<close>

definition on_stream ::
  "(pb_istream \<Rightarrow> ('a option \<times> pb_istream) option) \<Rightarrow> dstate \<Rightarrow> 'a dresult" where
  "on_stream f st = map_option (\<lambda>(r, s). (r, (s, snd st))) (f (fst st))"

definition on_mem :: "(memory \<Rightarrow> memory option) \<Rightarrow> dstate \<Rightarrow> unit dresult" where
  "on_mem f st = map_option (\<lambda>m. (Some (), (fst st, m))) (f (snd st))"

text \<open>\<open>pb_read\<close> into memory.\<close>

definition read_into :: "dec_ctx \<Rightarrow> u64 \<Rightarrow> u64 \<Rightarrow> dstate \<Rightarrow> unit dresult" where
  "read_into dc dest n st = do {
     (ok, bs, s) \<leftarrow> pb_read (dc_read dc) (fst st) (dest \<noteq> 0) n;
     m \<leftarrow> store (snd st) dest bs;
     Some (if ok then Some () else None, (s, m))
   }"

text \<open>Delimit, decode, close whatever the outcome, then report it.\<close>

definition in_substream :: "dec_ctx \<Rightarrow> (dstate \<Rightarrow> unit dresult) \<Rightarrow> dstate \<Rightarrow> unit dresult" where
  "in_substream dc body st =
     c_try (on_stream (pb_make_string_substream (dc_read dc)) st)
       (\<lambda>sub st1. do {
          (status, (sub1, m)) \<leftarrow> body (sub, snd st1);
          c_try (on_stream (\<lambda>s. pb_close_string_substream (dc_read dc) s sub1) (fst st1, m))
            (\<lambda>_ st2. Some (status, st2))
        })"

section \<open>Allocation\<close>

definition allocate_field :: "dec_ctx \<Rightarrow> u64 \<Rightarrow> u64 \<Rightarrow> u64 \<Rightarrow> dstate \<Rightarrow> unit dresult" where
  "allocate_field dc pd data_sz array_sz st = do {
     ptr \<leftarrow> load_u64 (snd st) pd;
     if data_sz = 0 \<or> array_sz = 0 then d_error E_invalid_size st
     else if (data_sz \<ge> 2 ^ 32 \<or> array_sz \<ge> 2 ^ 32) \<and> - 1 div array_sz < data_sz
     then d_error E_size_too_large st
     else do {
       (p, m) \<leftarrow> c_realloc (dc_alloc dc) (snd st) ptr (array_sz * data_sz);
       if p = 0 then d_error E_realloc_failed (fst st, m)
       else on_mem (\<lambda>m. store_u64 m pd p) (fst st, m)
     }
   }"

definition initialize_pointer_field :: "ext_types \<Rightarrow> nat \<Rightarrow> pb_field \<Rightarrow> u64 \<Rightarrow> memory \<Rightarrow> memory option" where
  "initialize_pointer_field xts d field pItem m =
     (if PB_LTYPE (ftype field) = PB_LTYPE_STRING \<or> PB_LTYPE (ftype field) = PB_LTYPE_BYTES
      then store_u64 m pItem 0
      else if PB_LTYPE (ftype field) = PB_LTYPE_SUBMESSAGE
      then do {
        m1 \<leftarrow> c_memset m pItem 0 (unat (data_size field));
        fs \<leftarrow> sub_fields field;
        pb_message_set_to_defaults xts d fs pItem m1
      }
      else Some m)"

section \<open>Value decoders\<close>

definition pb_dec_bool :: "dec_ctx \<Rightarrow> field_decoder" where
  "pb_dec_bool dc field dest st =
     c_try (on_stream (pb_decode_varint32 (dc_read dc)) st)
       (\<lambda>v. on_mem (\<lambda>m. store_u8 m dest (if v \<noteq> 0 then 1 else 0)))"

definition check_clamped :: "u64 \<Rightarrow> u64 \<Rightarrow> dstate \<Rightarrow> unit dresult" where
  "check_clamped clamped v st =
     (if clamped \<noteq> v then d_error E_integer_too_large st else Some (Some (), st))"

text \<open>The stores of \<open>pb_dec_varint\<close> and \<open>pb_dec_svarint\<close>: the value is a 64-bit signed
  integer; \<open>clamped\<close> is what the destination holds, sign-extended.\<close>

definition store_signed :: "u32 \<Rightarrow> u64 \<Rightarrow> u64 \<Rightarrow> dstate \<Rightarrow> unit dresult" where
  "store_signed n dest v st =
     (if n = 8 then c_try (on_mem (\<lambda>m. store_u64 m dest v) st) (\<lambda>_. check_clamped v v)
      else if n = 4
      then c_try (on_mem (\<lambda>m. store_u32 m dest (ucast v)) st)
             (\<lambda>_. check_clamped (scast (ucast v :: u32)) v)
      else if n = 2
      then c_try (on_mem (\<lambda>m. store_u16 m dest (ucast v)) st)
             (\<lambda>_. check_clamped (scast (ucast v :: u16)) v)
      else if n = 1
      then c_try (on_mem (\<lambda>m. store_u8 m dest (ucast v)) st)
             (\<lambda>_. check_clamped (scast (ucast v :: u8)) v)
      else d_error E_invalid_data_size st)"

definition pb_dec_varint :: "dec_ctx \<Rightarrow> field_decoder" where
  "pb_dec_varint dc field dest st =
     c_try (on_stream (pb_decode_varint (dc_read dc)) st)
       (\<lambda>v. let svalue = (if data_size field = 8 then v else scast (ucast v :: u32))
            in store_signed (data_size field) dest svalue)"

definition pb_dec_uvarint :: "dec_ctx \<Rightarrow> field_decoder" where
  "pb_dec_uvarint dc field dest st =
     c_try (on_stream (pb_decode_varint (dc_read dc)) st)
       (\<lambda>v st1.
          if data_size field = 8
          then c_try (on_mem (\<lambda>m. store_u64 m dest v) st1) (\<lambda>_. check_clamped v v)
          else if data_size field = 4
          then c_try (on_mem (\<lambda>m. store_u32 m dest (ucast v)) st1)
                 (\<lambda>_. check_clamped (ucast (ucast v :: u32)) v)
          else if data_size field = 2
          then c_try (on_mem (\<lambda>m. store_u16 m dest (ucast v)) st1)
                 (\<lambda>_. check_clamped (ucast (ucast v :: u16)) v)
          else if data_size field = 1
          then c_try (on_mem (\<lambda>m. store_u8 m dest (ucast v)) st1)
                 (\<lambda>_. check_clamped (ucast (ucast v :: u8)) v)
          else d_error E_invalid_data_size st1)"

definition pb_dec_svarint :: "dec_ctx \<Rightarrow> field_decoder" where
  "pb_dec_svarint dc field dest st =
     c_try (on_stream (pb_decode_svarint (dc_read dc)) st)
       (\<lambda>v. store_signed (data_size field) dest v)"

definition pb_dec_fixed32 :: "dec_ctx \<Rightarrow> field_decoder" where
  "pb_dec_fixed32 dc field dest st =
     c_try (on_stream (pb_decode_fixed32 (dc_read dc)) st) (\<lambda>v. on_mem (\<lambda>m. store_u32 m dest v))"

definition pb_dec_fixed64 :: "dec_ctx \<Rightarrow> field_decoder" where
  "pb_dec_fixed64 dc field dest st =
     c_try (on_stream (pb_decode_fixed64 (dc_read dc)) st) (\<lambda>v. on_mem (\<lambda>m. store_u64 m dest v))"

definition store_bytes :: "dec_ctx \<Rightarrow> u64 \<Rightarrow> u32 \<Rightarrow> dstate \<Rightarrow> unit dresult" where
  "store_bytes dc bdest sz st =
     c_try (on_mem (\<lambda>m. store_u32 m bdest sz) st) (\<lambda>_. read_into dc (bdest + 4) (ucast sz))"

definition pb_dec_bytes :: "dec_ctx \<Rightarrow> field_decoder" where
  "pb_dec_bytes dc field dest st =
     c_try (on_stream (pb_decode_varint32 (dc_read dc)) st)
       (\<lambda>sz st1.
          let alloc_size = ucast sz + 4 :: u64 in
          if sz > PB_SIZE_MAX then d_error E_bytes_overflow st1
          else if ucast sz > alloc_size then d_error E_size_too_large st1
          else if PB_ATYPE (ftype field) = PB_ATYPE_POINTER
          then (if bytes_left (fst st1) < ucast sz then d_error E_end_of_stream st1
                else c_try (allocate_field dc dest alloc_size 1 st1)
                  (\<lambda>_ st2. do { bdest \<leftarrow> load_u64 (snd st2) dest; store_bytes dc bdest sz st2 }))
          else if alloc_size > ucast (data_size field) then d_error E_bytes_overflow st1
          else store_bytes dc dest sz st1)"

text \<open>The terminator is written whether or not the string could be read.\<close>

definition read_string :: "dec_ctx \<Rightarrow> u64 \<Rightarrow> u32 \<Rightarrow> dstate \<Rightarrow> unit dresult" where
  "read_string dc dest sz st = do {
     (status, st1) \<leftarrow> read_into dc dest (ucast sz) st;
     m \<leftarrow> store_u8 (snd st1) (dest + ucast sz) 0;
     Some (status, (fst st1, m))
   }"

definition pb_dec_string :: "dec_ctx \<Rightarrow> field_decoder" where
  "pb_dec_string dc field dest st =
     c_try (on_stream (pb_decode_varint32 (dc_read dc)) st)
       (\<lambda>sz st1.
          let alloc_size = ucast (sz + 1) :: u64 in
          if alloc_size < ucast sz then d_error E_size_too_large st1
          else if PB_ATYPE (ftype field) = PB_ATYPE_POINTER
          then (if bytes_left (fst st1) < ucast sz then d_error E_end_of_stream st1
                else c_try (allocate_field dc dest alloc_size 1 st1)
                  (\<lambda>_ st2. do { p \<leftarrow> load_u64 (snd st2) dest; read_string dc p sz st2 }))
          else if alloc_size > ucast (data_size field) then d_error E_string_overflow st1
          else read_string dc dest sz st1)"

definition pb_dec_fixed_length_bytes :: "dec_ctx \<Rightarrow> field_decoder" where
  "pb_dec_fixed_length_bytes dc field dest st =
     c_try (on_stream (pb_decode_varint32 (dc_read dc)) st)
       (\<lambda>sz st1.
          if sz > PB_SIZE_MAX then d_error E_bytes_overflow st1
          else if sz = 0 then on_mem (\<lambda>m. c_memset m dest 0 (unat (data_size field))) st1
          else if sz \<noteq> data_size field then d_error E_incorrect_fixed_length_bytes_size st1
          else read_into dc dest (ucast (data_size field)) st1)"

text \<open>\<open>pb_decode\<close>, given the decoder of the fields (\<open>pb_decode_noinit\<close>).\<close>

definition decode_with :: "dec_ctx \<Rightarrow> nat \<Rightarrow> msg_decoder \<Rightarrow> msg_decoder" where
  "decode_with dc d noinit fs dest st = do {
     m1 \<leftarrow> pb_message_set_to_defaults (dc_exttype dc) d fs dest (snd st);
     (status, st2) \<leftarrow> noinit fs dest (fst st, m1);
     (case status of
        Some _ \<Rightarrow> Some (Some (), st2)
      | None \<Rightarrow> do {
          m3 \<leftarrow> pb_release (dc_exttype dc) d fs dest (snd st2);
          Some (None, (fst st2, m3))
        })
   }"

text \<open>With a null descriptor the substream stays open.\<close>

definition pb_dec_submessage :: "dec_ctx \<Rightarrow> nat \<Rightarrow> msg_decoder \<Rightarrow> field_decoder" where
  "pb_dec_submessage dc d noinit field dest st =
     (case fptr field of
        PtrNull \<Rightarrow>
          c_try (on_stream (pb_make_string_substream (dc_read dc)) st)
            (\<lambda>_ st1. d_error E_invalid_field_descriptor st1)
      | PtrData _ \<Rightarrow> None
      | PtrFields fs \<Rightarrow>
          in_substream dc
            (if PB_HTYPE (ftype field) = PB_HTYPE_REPEATED then decode_with dc d noinit fs dest
             else noinit fs dest) st)"

definition PB_DECODERS :: "dec_ctx \<Rightarrow> nat \<Rightarrow> msg_decoder \<Rightarrow> u8 \<Rightarrow> field_decoder option" where
  "PB_DECODERS dc d noinit lt =
     (if lt = PB_LTYPE_BOOL then Some (pb_dec_bool dc)
      else if lt = PB_LTYPE_VARINT then Some (pb_dec_varint dc)
      else if lt = PB_LTYPE_UVARINT then Some (pb_dec_uvarint dc)
      else if lt = PB_LTYPE_SVARINT then Some (pb_dec_svarint dc)
      else if lt = PB_LTYPE_FIXED32 then Some (pb_dec_fixed32 dc)
      else if lt = PB_LTYPE_FIXED64 then Some (pb_dec_fixed64 dc)
      else if lt = PB_LTYPE_BYTES then Some (pb_dec_bytes dc)
      else if lt = PB_LTYPE_STRING then Some (pb_dec_string dc)
      else if lt = PB_LTYPE_SUBMESSAGE then Some (pb_dec_submessage dc d noinit)
      else if lt = PB_LTYPE_FIXED_LENGTH_BYTES then Some (pb_dec_fixed_length_bytes dc)
      else None)"

definition call_decoder :: "field_decoder option \<Rightarrow> field_decoder" where
  "call_decoder func field dest st = (case func of None \<Rightarrow> None | Some f \<Rightarrow> f field dest st)"

section \<open>Static fields\<close>

text \<open>The decoder functions of a field get the iterator and the caller's \<open>fixed_count_size\<close>, and
  return both. The address of entry \<open>i\<close>: \<open>data_size * i\<close> is computed in 32 bits.\<close>

type_synonym iter_decoder =
  "pb_wire_type \<Rightarrow> pb_field_iter \<Rightarrow> u32 \<Rightarrow> dstate \<Rightarrow> (pb_field_iter \<times> u32) dresult"

definition item_at :: "u64 \<Rightarrow> pb_field \<Rightarrow> u32 \<Rightarrow> u64" where
  "item_at base f i = base + ucast (data_size f * i)"

definition keep_iter :: "pb_field_iter \<Rightarrow> u32 \<Rightarrow> unit dresult \<Rightarrow> (pb_field_iter \<times> u32) dresult" where
  "keep_iter it fc res = map_option (\<lambda>(r, st). (map_option (\<lambda>_. (it, fc)) r, st)) res"

text \<open>One round of the packed-array loop of \<open>decode_static_field\<close>; the Boolean is
  \<open>status\<close>.\<close>

definition packed_static_round ::
  "field_decoder \<Rightarrow> pb_field_iter \<Rightarrow> u32 \<times> dstate \<Rightarrow> ((u32 \<times> dstate) + (bool \<times> u32 \<times> dstate)) option"
where
  "packed_static_round func it = (\<lambda>(fc, st).
     let f = it_field it in
     if bytes_left (fst st) = 0 then Some (Inr (True, fc, st))
     else do {
       n \<leftarrow> size_get it fc (snd st);
       if \<not> n < array_size f then Some (Inr (True, fc, st))
       else do {
         (r, st1) \<leftarrow> func f (item_at (pData it) f n) st;
         (case r of
            None \<Rightarrow> Some (Inr (False, fc, st1))
          | Some _ \<Rightarrow> do {
              n1 \<leftarrow> size_get it fc (snd st1);
              (fc2, m2) \<leftarrow> size_set it (n1 + 1) fc (snd st1);
              Some (Inl (fc2, (fst st1, m2)))
            })
       }
     })"

definition decode_packed_static ::
  "dec_ctx \<Rightarrow> field_decoder \<Rightarrow> pb_field_iter \<Rightarrow> u32 \<Rightarrow> dstate \<Rightarrow> (pb_field_iter \<times> u32) dresult" where
  "decode_packed_static dc func it fc st =
     c_try (on_stream (pb_make_string_substream (dc_read dc)) st)
       (\<lambda>sub st1. do {
          (status, fc2, (sub2, m2)) \<leftarrow> c_loop (packed_static_round func it) (fc, (sub, snd st1));
          if bytes_left sub2 \<noteq> 0 then d_error E_array_overflow (fst st1, m2)
          else c_try (on_stream (\<lambda>s. pb_close_string_substream (dc_read dc) s sub2) (fst st1, m2))
                 (\<lambda>_ st3. Some (if status then Some (it, fc2) else None, st3))
        })"

definition decode_static_field :: "dec_ctx \<Rightarrow> nat \<Rightarrow> msg_decoder \<Rightarrow> iter_decoder" where
  "decode_static_field dc d noinit wire_type it fc st =
     (let f = it_field it; ty = ftype f;
          func = call_decoder (PB_DECODERS dc d noinit (PB_LTYPE ty)) in
      if PB_HTYPE ty = PB_HTYPE_REQUIRED then keep_iter it fc (func f (pData it) st)
      else if PB_HTYPE ty = PB_HTYPE_OPTIONAL
      then do {
        m1 \<leftarrow> (if pSize it \<noteq> SizeAt (pData it)
               then (case pSize it of
                       SizeAt a \<Rightarrow> store_u8 (snd st) a 1
                     | FixedCountSize \<Rightarrow> None)
               else Some (snd st));
        keep_iter it fc (func f (pData it) (fst st, m1))
      }
      else if PB_HTYPE ty = PB_HTYPE_REPEATED
      then (if wire_type = PB_WT_STRING \<and> PB_LTYPE ty \<le> PB_LTYPE_LAST_PACKABLE
            then decode_packed_static dc func it fc st
            else do {
              n \<leftarrow> size_get it fc (snd st);
              (fc1, m1) \<leftarrow> size_set it (n + 1) fc (snd st);
              if n \<ge> array_size f then d_error E_array_overflow (fst st, m1)
              else keep_iter it fc1 (func f (item_at (pData it) f n) (fst st, m1))
            })
      else do {
        which \<leftarrow> size_get it fc (snd st);
        m1 \<leftarrow> (if PB_LTYPE ty = PB_LTYPE_SUBMESSAGE \<and> which \<noteq> tag f
               then do {
                 m \<leftarrow> c_memset (snd st) (pData it) 0 (unat (data_size f));
                 fs \<leftarrow> sub_fields f;
                 pb_message_set_to_defaults (dc_exttype dc) d fs (pData it) m
               }
               else Some (snd st));
        (fc2, m2) \<leftarrow> size_set it (tag f) fc m1;
        keep_iter it fc2 (func f (pData it) (fst st, m2))
      })"

section \<open>Pointer fields\<close>

text \<open>One round of the packed-array loop of \<open>decode_pointer_field\<close>: the state is
  \<open>allocated_size\<close>, the count, the caller's stream (whose message it sets) and the substream
  with the memory. \<open>Inr False\<close> leaves it with \<open>status\<close> false.\<close>

definition grown_size :: "u64 \<Rightarrow> u64 \<Rightarrow> u32 \<Rightarrow> u64" where
  "grown_size allocated left item_sz =
     (let remain = (left - 1) div ucast item_sz + 1
      in if remain < ucast PB_SIZE_MAX - allocated then allocated + remain else allocated + 1)"

definition packed_pointer_item ::
  "dec_ctx \<Rightarrow> nat \<Rightarrow> field_decoder \<Rightarrow> pb_field_iter \<Rightarrow> u32 \<Rightarrow> dstate \<Rightarrow> (bool \<times> u32 \<times> dstate) option" where
  "packed_pointer_item dc d func it fc st =
     (let f = it_field it in do {
        base \<leftarrow> load_u64 (snd st) (pData it);
        n \<leftarrow> size_get it fc (snd st);
        let pItem = item_at base f n
        in if pItem = 0 then Some (False, fc, st)
           else do {
             m1 \<leftarrow> initialize_pointer_field (dc_exttype dc) d f pItem (snd st);
             (r, st2) \<leftarrow> func f pItem (fst st, m1);
             (case r of
                None \<Rightarrow> Some (False, fc, st2)
              | Some _ \<Rightarrow> do {
                  n2 \<leftarrow> size_get it fc (snd st2);
                  (fc3, m3) \<leftarrow> size_set it (n2 + 1) fc (snd st2);
                  Some (True, fc3, (fst st2, m3))
                })
           }
      })"

definition packed_pointer_round ::
  "dec_ctx \<Rightarrow> nat \<Rightarrow> field_decoder \<Rightarrow> pb_field_iter \<Rightarrow> u64 \<times> u32 \<times> pb_istream \<times> dstate \<Rightarrow>
   ((u64 \<times> u32 \<times> pb_istream \<times> dstate) + (bool \<times> u32 \<times> pb_istream \<times> dstate)) option" where
  "packed_pointer_round dc d func it = (\<lambda>(allocated, fc, parent, st).
     let f = it_field it in
     if bytes_left (fst st) = 0 then Some (Inr (True, fc, parent, st))
     else do {
       n \<leftarrow> size_get it fc (snd st);
       if n = PB_SIZE_MAX
       then Some (Inr (False, fc, parent\<lparr>i_errmsg := Some E_too_many_array_entries\<rparr>, st))
       else do {
         (r, allocated1, st1) \<leftarrow>
           (if ucast n + 1 > allocated
            then if data_size f = 0 then None
                 else let a = grown_size allocated (bytes_left (fst st)) (data_size f)
                      in map_option (\<lambda>(r, st1). (r, a, st1))
                           (allocate_field dc (pData it) (ucast (data_size f)) a st)
            else Some (Some (), allocated, st));
         (case r of
            None \<Rightarrow> Some (Inr (False, fc, parent, st1))
          | Some _ \<Rightarrow> do {
              (ok, fc2, st2) \<leftarrow> packed_pointer_item dc d func it fc st1;
              if ok then Some (Inl (allocated1, fc2, parent, st2))
              else Some (Inr (False, fc2, parent, st2))
            })
       }
     })"

definition decode_packed_pointer ::
  "dec_ctx \<Rightarrow> nat \<Rightarrow> field_decoder \<Rightarrow> pb_field_iter \<Rightarrow> u32 \<Rightarrow> dstate \<Rightarrow> (pb_field_iter \<times> u32) dresult"
where
  "decode_packed_pointer dc d func it fc st = do {
     n0 \<leftarrow> size_get it fc (snd st);
     c_try (on_stream (pb_make_string_substream (dc_read dc)) st)
       (\<lambda>sub st1. do {
          (status, fc2, parent, (sub2, m2)) \<leftarrow>
            c_loop (packed_pointer_round dc d func it) (ucast n0, fc, fst st1, (sub, snd st1));
          c_try (on_stream (\<lambda>s. pb_close_string_substream (dc_read dc) s sub2) (parent, m2))
            (\<lambda>_ st3. Some (if status then Some (it, fc2) else None, st3))
        })
   }"

definition decode_single_pointer ::
  "dec_ctx \<Rightarrow> nat \<Rightarrow> field_decoder \<Rightarrow> pb_field_iter \<Rightarrow> u32 \<Rightarrow> dstate \<Rightarrow> (pb_field_iter \<times> u32) dresult"
where
  "decode_single_pointer dc d func it fc st =
     (let f = it_field it; ty = ftype f in do {
        m1 \<leftarrow> (if PB_LTYPE ty = PB_LTYPE_SUBMESSAGE
               then do {
                 p \<leftarrow> load_u64 (snd st) (pData it);
                 if p \<noteq> 0 then pb_release_single_field (dc_exttype dc) d it (snd st) else Some (snd st)
               }
               else Some (snd st));
        (fc2, m2) \<leftarrow> (if PB_HTYPE ty = PB_HTYPE_ONEOF then size_set it (tag f) fc m1 else Some (fc, m1));
        if PB_LTYPE ty = PB_LTYPE_STRING \<or> PB_LTYPE ty = PB_LTYPE_BYTES
        then keep_iter it fc2 (func f (pData it) (fst st, m2))
        else c_try (allocate_field dc (pData it) (ucast (data_size f)) 1 (fst st, m2))
          (\<lambda>_ st3. do {
             p \<leftarrow> load_u64 (snd st3) (pData it);
             m4 \<leftarrow> initialize_pointer_field (dc_exttype dc) d f p (snd st3);
             q \<leftarrow> load_u64 m4 (pData it);
             keep_iter it fc2 (func f q (fst st3, m4))
           })
      })"

definition decode_pointer_field :: "dec_ctx \<Rightarrow> nat \<Rightarrow> msg_decoder \<Rightarrow> iter_decoder" where
  "decode_pointer_field dc d noinit wire_type it fc st =
     (let f = it_field it; ty = ftype f;
          func = call_decoder (PB_DECODERS dc d noinit (PB_LTYPE ty)) in
      if PB_HTYPE ty \<noteq> PB_HTYPE_REPEATED then decode_single_pointer dc d func it fc st
      else if wire_type = PB_WT_STRING \<and> PB_LTYPE ty \<le> PB_LTYPE_LAST_PACKABLE
      then decode_packed_pointer dc d func it fc st
      else do {
        n \<leftarrow> size_get it fc (snd st);
        if n = PB_SIZE_MAX then d_error E_too_many_array_entries st
        else c_try (allocate_field dc (pData it) (ucast (data_size f)) (ucast (n + 1)) st)
          (\<lambda>_ st1. do {
             base \<leftarrow> load_u64 (snd st1) (pData it);
             n1 \<leftarrow> size_get it fc (snd st1);
             let pItem = item_at base f n1 in do {
               (fc2, m2) \<leftarrow> size_set it (n1 + 1) fc (snd st1);
               m3 \<leftarrow> initialize_pointer_field (dc_exttype dc) d f pItem m2;
               keep_iter it fc2 (func f pItem (fst st1, m3))
             }
           })
      })"

section \<open>Callback fields\<close>

text \<open>The \<open>do ... while (substream.bytes_left)\<close> loop: the function pointer is read each time. A
  failing callback leaves it with \<open>False\<close>.\<close>

definition callback_round ::
  "dec_ctx \<Rightarrow> pb_field \<Rightarrow> u64 \<Rightarrow> dstate \<Rightarrow> (dstate + (bool \<times> dstate)) option" where
  "callback_round dc f pd st = do {
     fn \<leftarrow> load_u64 (snd st) pd;
     if fn = 0 then None
     else do {
       (r, st1) \<leftarrow> dc_callback dc fn f (pd + 8) st;
       (case r of
          None \<Rightarrow> Some (Inr (False, st1))
        | Some _ \<Rightarrow>
            if bytes_left (fst st1) \<noteq> 0 then Some (Inl st1) else Some (Inr (True, st1)))
     }
   }"

definition decode_callback_field :: "dec_ctx \<Rightarrow> pb_wire_type \<Rightarrow> pb_field_iter \<Rightarrow> dstate \<Rightarrow> unit dresult" where
  "decode_callback_field dc wire_type it st =
     (let pd = pData it; f = it_field it in do {
        fn \<leftarrow> (if pd = 0 then Some 0 else load_u64 (snd st) pd);
        if fn = 0 then on_stream (\<lambda>s. pb_skip_field (dc_read dc) s wire_type) st
        else if wire_type = PB_WT_STRING
        then c_try (on_stream (pb_make_string_substream (dc_read dc)) st)
          (\<lambda>sub st1. do {
             (ok, (sub2, m2)) \<leftarrow> c_loop (callback_round dc f pd) (sub, snd st1);
             if \<not> ok then d_error E_callback_failed (fst st1, m2)
             else on_stream (\<lambda>s. pb_close_string_substream (dc_read dc) s sub2) (fst st1, m2)
           })
        else c_try (on_stream (\<lambda>s. read_raw_value (dc_read dc) s wire_type 10) st)
          (\<lambda>raw st1. do {
             fn1 \<leftarrow> load_u64 (snd st1) pd;
             if fn1 = 0 then None
             else do {
               (r, st2) \<leftarrow> dc_callback dc fn1 f (pd + 8)
                 (pb_istream_from_buffer raw (of_nat (length raw)), snd st1);
               Some (r, (fst st1, snd st2))
             }
           })
      })"

section \<open>Fields\<close>

definition pb_release_union_field :: "ext_types \<Rightarrow> nat \<Rightarrow> pb_field_iter \<Rightarrow> u32 \<Rightarrow> dstate \<Rightarrow> pb_field_iter dresult" where
  "pb_release_union_field xts d it fc st = do {
     old_tag \<leftarrow> size_get it fc (snd st);
     let new_tag = tag (it_field it)
     in if old_tag = 0 \<or> old_tag = new_tag then Some (Some it, st)
        else do {
          (found, it1) \<leftarrow> pb_field_iter_find it old_tag;
          if \<not> found then d_error E_invalid_union_tag st
          else do {
            m1 \<leftarrow> pb_release_single_field xts d it1 (snd st);
            (found2, it2) \<leftarrow> pb_field_iter_find it1 new_tag;
            if \<not> found2 then d_error E_iterator_error (fst st, m1)
            else if PB_ATYPE (ftype (it_field it2)) = PB_ATYPE_POINTER
            then c_try (on_mem (\<lambda>m. store_u64 m (pData it2) 0) (fst st, m1))
                   (\<lambda>_ st2. Some (Some it2, st2))
            else Some (Some it2, (fst st, m1))
          }
        }
   }"

definition decode_field :: "dec_ctx \<Rightarrow> nat \<Rightarrow> msg_decoder \<Rightarrow> iter_decoder" where
  "decode_field dc d noinit wire_type it fc st =
     c_try
       (if PB_HTYPE (ftype (it_field it)) = PB_HTYPE_ONEOF
        then pb_release_union_field (dc_exttype dc) d it fc st else Some (Some it, st))
       (\<lambda>it1 st1.
          let at = PB_ATYPE (ftype (it_field it1)) in
          if at = PB_ATYPE_STATIC then decode_static_field dc d noinit wire_type it1 fc st1
          else if at = PB_ATYPE_POINTER then decode_pointer_field dc d noinit wire_type it1 fc st1
          else if at = PB_ATYPE_CALLBACK
          then keep_iter it1 fc (decode_callback_field dc wire_type it1 st1)
          else d_error E_invalid_field_type st1)"

section \<open>Extensions\<close>

definition default_extension_decoder ::
  "dec_ctx \<Rightarrow> nat \<Rightarrow> msg_decoder \<Rightarrow> pb_extension_type \<Rightarrow> u64 \<Rightarrow> u32 \<Rightarrow> pb_wire_type \<Rightarrow> dstate \<Rightarrow> unit dresult"
where
  "default_extension_decoder dc d noinit xt ext wanted wire_type st =
     (if tag (field_at (xt_arg xt) 0) \<noteq> wanted then Some (Some (), st)
      else do {
        it \<leftarrow> iter_from_extension (dc_exttype dc) ext (snd st);
        m1 \<leftarrow> store_u8 (snd st) (ext_found ext) 1;
        (r, st2) \<leftarrow> decode_field dc d noinit wire_type it 0 (fst st, m1);
        Some (map_option (\<lambda>_. ()) r, st2)
      })"

definition decode_extension_round ::
  "dec_ctx \<Rightarrow> nat \<Rightarrow> msg_decoder \<Rightarrow> u32 \<Rightarrow> pb_wire_type \<Rightarrow> u64 \<Rightarrow> u64 \<times> dstate \<Rightarrow>
   ((u64 \<times> dstate) + (unit option \<times> dstate)) option" where
  "decode_extension_round dc d noinit wanted wire_type pos = (\<lambda>(ext, st).
     if ext = 0 \<or> pos \<noteq> bytes_left (fst st) then Some (Inr (Some (), st))
     else do {
       ta \<leftarrow> load_u64 (snd st) ext;
       xt \<leftarrow> dc_exttype dc ta;
       (status, st1) \<leftarrow>
         (if xt_decode xt \<noteq> 0 then dc_extdecode dc (xt_decode xt) ext wanted wire_type st
          else default_extension_decoder dc d noinit xt ext wanted wire_type st);
       (case status of
          None \<Rightarrow> Some (Inr (None, st1))
        | Some _ \<Rightarrow> do {
            nxt \<leftarrow> load_u64 (snd st1) (ext_next ext);
            Some (Inl (nxt, st1))
          })
     })"

definition decode_extension ::
  "dec_ctx \<Rightarrow> nat \<Rightarrow> msg_decoder \<Rightarrow> u32 \<Rightarrow> pb_wire_type \<Rightarrow> pb_field_iter \<Rightarrow> dstate \<Rightarrow> unit dresult" where
  "decode_extension dc d noinit wanted wire_type it st = do {
     ext \<leftarrow> load_u64 (snd st) (pData it);
     c_loop (decode_extension_round dc d noinit wanted wire_type (bytes_left (fst st))) (ext, st)
   }"

section \<open>Messages\<close>

text \<open>The local variables of \<open>pb_decode_noinit\<close>. \<open>n_fixed_field\<close> is the position of
  \<open>fixed_count_field\<close> in the descriptor array.\<close>

record noinit_state =
  n_iter :: pb_field_iter
  n_seen0 :: u32
  n_seen1 :: u32
  n_ext_start :: u32
  n_fixed_field :: "nat option"
  n_fixed_size :: u32

definition fixed_count_complete :: "noinit_state \<Rightarrow> bool" where
  "fixed_count_complete ns \<longleftrightarrow>
     (case n_fixed_field ns of
        None \<Rightarrow> True
      | Some p \<Rightarrow> n_fixed_size ns = array_size (field_at (it_start (n_iter ns)) p))"

text \<open>A fixed-count field: check the previous one and let \<open>pSize\<close> point at the local count.\<close>

definition enter_fixed_count :: "noinit_state \<Rightarrow> noinit_state option" where
  "enter_fixed_count ns =
     (let it = n_iter ns in
      if PB_HTYPE (ftype (it_field it)) = PB_HTYPE_REPEATED \<and> pSize it = SizeAt (pData it)
      then (if n_fixed_field ns \<noteq> Some (it_pos it)
            then (if \<not> fixed_count_complete ns then None
                  else Some (ns\<lparr>n_fixed_field := Some (it_pos it), n_fixed_size := 0,
                                n_iter := it\<lparr>pSize := FixedCountSize\<rparr>\<rparr>))
            else Some (ns\<lparr>n_iter := it\<lparr>pSize := FixedCountSize\<rparr>\<rparr>))
      else Some ns)"

definition mark_seen :: "noinit_state \<Rightarrow> noinit_state" where
  "mark_seen ns =
     (let it = n_iter ns; i = required_field_index it in
      if PB_HTYPE (ftype (it_field it)) = PB_HTYPE_REQUIRED \<and> i < PB_MAX_REQUIRED_FIELDS
      then let tmp = push_bit (unat (i AND 31)) 1
           in if drop_bit 5 i = 0 then ns\<lparr>n_seen0 := n_seen0 ns OR tmp\<rparr>
              else ns\<lparr>n_seen1 := n_seen1 ns OR tmp\<rparr>
      else ns)"

text \<open>The treatment of a tag no field has: offer it to the extensions, or skip the value.\<close>

definition decode_unknown ::
  "dec_ctx \<Rightarrow> nat \<Rightarrow> msg_decoder \<Rightarrow> u32 \<Rightarrow> pb_wire_type \<Rightarrow> noinit_state \<Rightarrow> dstate \<Rightarrow> noinit_state dresult" where
  "decode_unknown dc d noinit wanted wire_type ns st =
     (if wanted \<ge> n_ext_start ns
      then do {
        (found, it1) \<leftarrow> find_extension_field (n_iter ns);
        let ns1 = ns\<lparr>n_iter := it1, n_ext_start := (if found then tag (it_field it1) else - 1)\<rparr>
        in if wanted \<ge> n_ext_start ns1
           then c_try (decode_extension dc d noinit wanted wire_type it1 st)
             (\<lambda>_ st1.
                if bytes_left (fst st) \<noteq> bytes_left (fst st1) then Some (Some ns1, st1)
                else c_try (on_stream (\<lambda>s. pb_skip_field (dc_read dc) s wire_type) st1)
                       (\<lambda>_ st2. Some (Some ns1, st2)))
           else c_try (on_stream (\<lambda>s. pb_skip_field (dc_read dc) s wire_type) st)
                  (\<lambda>_ st2. Some (Some ns1, st2))
      }
      else c_try (on_stream (\<lambda>s. pb_skip_field (dc_read dc) s wire_type) st)
             (\<lambda>_ st2. Some (Some ns, st2)))"

definition decode_known ::
  "dec_ctx \<Rightarrow> nat \<Rightarrow> msg_decoder \<Rightarrow> pb_wire_type \<Rightarrow> noinit_state \<Rightarrow> dstate \<Rightarrow> noinit_state dresult" where
  "decode_known dc d noinit wire_type ns st =
     (case enter_fixed_count ns of
        None \<Rightarrow> d_error E_wrong_size_for_fixed_count_field st
      | Some ns1 \<Rightarrow>
          let ns2 = mark_seen ns1
          in c_try (decode_field dc d noinit wire_type (n_iter ns2) (n_fixed_size ns2) st)
               (\<lambda>(it, fc) st1. Some (Some (ns2\<lparr>n_iter := it, n_fixed_size := fc\<rparr>), st1)))"

text \<open>One round of the \<open>while (stream->bytes_left)\<close> loop. \<open>Inr\<close> with a state is the end of
  the message, \<open>Inr\<close> with \<open>None\<close> the return of false.\<close>

definition noinit_round ::
  "dec_ctx \<Rightarrow> nat \<Rightarrow> msg_decoder \<Rightarrow> noinit_state \<times> dstate \<Rightarrow>
   ((noinit_state \<times> dstate) + (noinit_state option \<times> dstate)) option" where
  "noinit_round dc d noinit = (\<lambda>(ns, st).
     if bytes_left (fst st) = 0 then Some (Inr (Some ns, st))
     else do {
       (r, eof, s1) \<leftarrow> pb_decode_tag (dc_read dc) (fst st);
       (case r of
          None \<Rightarrow> Some (Inr (if eof then Some ns else None, (s1, snd st)))
        | Some (wire_type, wanted) \<Rightarrow> do {
            (found, it1) \<leftarrow> pb_field_iter_find (n_iter ns) wanted;
            (res, st2) \<leftarrow>
              (if \<not> found
               then decode_unknown dc d noinit wanted wire_type (ns\<lparr>n_iter := it1\<rparr>) (s1, snd st)
               else decode_known dc d noinit wire_type (ns\<lparr>n_iter := it1\<rparr>) (s1, snd st));
            Some (case res of None \<Rightarrow> Inr (None, st2) | Some ns2 \<Rightarrow> Inl (ns2, st2))
          })
     })"

text \<open>Seeking to the end: the required fields counted before the last field, the type of the
  last field, and the iterator, wrapped back.\<close>

definition required_round ::
  "pb_field_iter \<Rightarrow> (pb_field_iter + (u32 \<times> u8 \<times> pb_field_iter)) option" where
  "required_round it =
     (case pb_field_iter_next it of
        (True, it1) \<Rightarrow> Some (Inl it1)
      | (False, it1) \<Rightarrow> Some (Inr (required_field_index it, ftype (it_field it), it1)))"

definition required_count :: "pb_field_iter \<Rightarrow> u32 option" where
  "required_count it = do {
     (n, last_type, it1) \<leftarrow> c_loop required_round it;
     let n1 = (if PB_HTYPE last_type = PB_HTYPE_REQUIRED \<and> tag (it_field it1) \<noteq> 0 then n + 1 else n)
     in Some (if n1 > PB_MAX_REQUIRED_FIELDS then PB_MAX_REQUIRED_FIELDS else n1)
   }"

definition all_seen :: "u32 \<Rightarrow> u32 \<Rightarrow> u32 \<Rightarrow> bool" where
  "all_seen n seen0 seen1 \<longleftrightarrow>
     (let word = (\<lambda>i. if i = 0 then seen0 else seen1) in
      (\<forall>i \<in> set (upt 0 (unat (drop_bit 5 n))). word i = - 1) \<and>
      (n AND 31 \<noteq> 0 \<longrightarrow>
         word (unat (drop_bit 5 n)) = drop_bit (unat (32 - (n AND 31))) (- 1)))"

definition noinit_finish :: "noinit_state \<Rightarrow> dstate \<Rightarrow> unit dresult" where
  "noinit_finish ns st =
     (if \<not> fixed_count_complete ns then d_error E_wrong_size_for_fixed_count_field st
      else do {
        n \<leftarrow> required_count (n_iter ns);
        if n > 0 \<and> \<not> all_seen n (n_seen0 ns) (n_seen1 ns)
        then d_error E_missing_required_field st
        else Some (Some (), st)
      })"

definition noinit_step :: "dec_ctx \<Rightarrow> nat \<Rightarrow> msg_decoder \<Rightarrow> msg_decoder" where
  "noinit_step dc d noinit fs dest st =
     c_try
       (c_loop (noinit_round dc d noinit)
          (\<lparr>n_iter = snd (pb_field_iter_begin fs dest), n_seen0 = 0, n_seen1 = 0, n_ext_start = 0,
            n_fixed_field = None, n_fixed_size = 0\<rparr>, st))
       noinit_finish"

primrec pb_decode_noinit :: "dec_ctx \<Rightarrow> nat \<Rightarrow> msg_decoder" where
  "pb_decode_noinit dc 0 = (\<lambda>fs dest st. None)"
| "pb_decode_noinit dc (Suc d) = noinit_step dc (Suc d) (pb_decode_noinit dc d)"

definition pb_decode :: "dec_ctx \<Rightarrow> nat \<Rightarrow> msg_decoder" where
  "pb_decode dc d = decode_with dc d (pb_decode_noinit dc d)"

definition pb_decode_delimited_noinit :: "dec_ctx \<Rightarrow> nat \<Rightarrow> msg_decoder" where
  "pb_decode_delimited_noinit dc d fs dest = in_substream dc (pb_decode_noinit dc d fs dest)"

definition pb_decode_delimited :: "dec_ctx \<Rightarrow> nat \<Rightarrow> msg_decoder" where
  "pb_decode_delimited dc d fs dest = in_substream dc (pb_decode dc d fs dest)"

definition pb_decode_nullterminated :: "dec_ctx \<Rightarrow> nat \<Rightarrow> msg_decoder" where
  "pb_decode_nullterminated dc d = pb_decode dc d"

end
