(* ===== verification/Pb_Dec_Safe.thy ===== *)
theory Pb_Dec_Safe
  imports Pb_Decode
begin

text \<open>
  Safety of the message decoder for messages with static fields: whatever bytes arrive, decoding
  returns, reads nothing outside the declared input and writes nothing outside the message
  structure.
\<close>

section \<open>What a step may do\<close>

text \<open>On failure a substream may have been left open, so the stream need not be in step with its
  byte count; it never gets more than it had.\<close>

definition within :: "(pb_istream \<Rightarrow> u8 list) \<Rightarrow> pb_istream \<Rightarrow> pb_istream \<Rightarrow> bool" where
  "within pend s s' \<longleftrightarrow>
     i_callback s' = i_callback s \<and>
     (\<exists>k. pend s' = drop k (pend s) \<and> k + unat (bytes_left s') \<le> unat (bytes_left s))"

definition keeps :: "u64 set \<Rightarrow> memory \<Rightarrow> memory \<Rightarrow> bool" where
  "keeps A m m' \<longleftrightarrow>
     m_heap m' = m_heap m \<and> dom (m_bytes m') = dom (m_bytes m) \<and>
     (\<forall>x. x \<notin> A \<longrightarrow> m_bytes m' x = m_bytes m x)"

definition st_ok :: "(pb_istream \<Rightarrow> u8 list) \<Rightarrow> u64 set \<Rightarrow> dstate \<Rightarrow> bool" where
  "st_ok pend A st \<longleftrightarrow> stream_ok pend (fst st) \<and> A \<subseteq> dom (m_bytes (snd st))"

definition runs :: "(pb_istream \<Rightarrow> u8 list) \<Rightarrow> u64 set \<Rightarrow> dstate \<Rightarrow> 'a dresult \<Rightarrow> bool" where
  "runs pend A st res \<longleftrightarrow>
     (\<exists>r st'. res = Some (r, st') \<and> within pend (fst st) (fst st') \<and>
        (r \<noteq> None \<longrightarrow> moves pend (fst st) (fst st')) \<and> keeps A (snd st) (snd st'))"

text \<open>A value decoder also consumes at least a byte when it succeeds.\<close>

definition eats :: "(pb_istream \<Rightarrow> u8 list) \<Rightarrow> u64 set \<Rightarrow> dstate \<Rightarrow> 'a dresult \<Rightarrow> bool" where
  "eats pend A st res \<longleftrightarrow> runs pend A st res \<and>
     (\<forall>u st'. res = Some (Some u, st') \<longrightarrow> unat (bytes_left (fst st')) < unat (bytes_left (fst st)))"

lemma within_refl [simp]: "within pend s s"
  by (auto simp: within_def intro: exI [of _ 0])

lemma within_trans: "within pend s s1 \<Longrightarrow> within pend s1 s2 \<Longrightarrow> within pend s s2"
  unfolding within_def
  by (elim conjE exE, intro conjI, simp, rename_tac j k, rule_tac x = "j + k" in exI)
    (simp add: add.commute)

lemma moves_within: "moves pend s s' \<Longrightarrow> within pend s s'"
  by (auto simp: moves_def within_def intro!: exI [of _ "unat (bytes_left s) - unat (bytes_left s')"])

lemma within_bytes_left: "within pend s s' \<Longrightarrow> unat (bytes_left s') \<le> unat (bytes_left s)"
  by (auto simp: within_def)

lemma within_stream_ok: "within pend s s' \<Longrightarrow> stream_ok pend s \<Longrightarrow> stream_ok pend s'"
  by (auto simp: within_def stream_ok_def)

lemma keeps_refl [simp]: "keeps A m m"
  by (simp add: keeps_def)

lemma keeps_trans: "keeps A m m1 \<Longrightarrow> keeps A m1 m2 \<Longrightarrow> keeps A m m2"
  by (simp add: keeps_def)

lemma keeps_dom: "keeps A m m' \<Longrightarrow> A \<subseteq> dom (m_bytes m) \<Longrightarrow> A \<subseteq> dom (m_bytes m')"
  by (simp add: keeps_def)

lemma st_ok_step:
  "st_ok pend A st \<Longrightarrow> within pend (fst st) (fst st') \<Longrightarrow> keeps A (snd st) (snd st') \<Longrightarrow> st_ok pend A st'"
  by (auto simp: st_ok_def within_stream_ok dest: keeps_dom)

lemma runs_ret: "within pend (fst st) (fst st) \<Longrightarrow> runs pend A st (Some (r, st))"
  by (simp add: runs_def)

lemma runs_try:
  assumes m: "runs pend A st m"
    and f: "\<And>a st1. m = Some (Some a, st1) \<Longrightarrow> moves pend (fst st) (fst st1) \<Longrightarrow>
        keeps A (snd st) (snd st1) \<Longrightarrow> runs pend A st1 (f a st1)"
  shows "runs pend A st (c_try m f)"
proof -
  from m obtain r st1 where st1: "m = Some (r, st1)" "within pend (fst st) (fst st1)"
    "r \<noteq> None \<longrightarrow> moves pend (fst st) (fst st1)" "keeps A (snd st) (snd st1)" by (auto simp: runs_def)
  show ?thesis
  proof (cases r)
    case None
    with st1 show ?thesis by (simp add: runs_def)
  next
    case (Some a)
    with f st1 have "runs pend A st1 (f a st1)" by simp
    then obtain q st2 where "f a st1 = Some (q, st2)" "within pend (fst st1) (fst st2)"
      "q \<noteq> None \<longrightarrow> moves pend (fst st1) (fst st2)" "keeps A (snd st1) (snd st2)" by (auto simp: runs_def)
    with st1 Some show ?thesis
      by (auto simp: runs_def intro: within_trans moves_trans keeps_trans)
  qed
qed

lemma runs_on_stream: "safely pend (fst st) (f (fst st)) \<Longrightarrow> runs pend A st (on_stream f st)"
  by (auto simp: runs_def safely_def on_stream_def intro: moves_within)

lemma runs_on_mem:
  "f (snd st) = Some m' \<Longrightarrow> keeps A (snd st) m' \<Longrightarrow> runs pend A st (on_mem f st)"
  by (auto simp: runs_def on_mem_def)

section \<open>Stores into the structure\<close>

lemma store_keeps:
  assumes "span a (length bs) \<subseteq> A" and "A \<subseteq> dom (m_bytes m)"
  shows "\<exists>m'. store m a bs = Some m' \<and> keeps A m m'"
proof -
  have "mapped m a (length bs)" using assms by (auto simp: mapped_def)
  then obtain m' where m': "store m a bs = Some m'" by (rule store_total)
  have "m_bytes m' x = m_bytes m x" if "x \<notin> A" for x
    using store_frame [OF m', of x] that assms(1) by blast
  then show ?thesis using m' store_heap [OF m'] store_dom [OF m'] by (simp add: keeps_def)
qed

lemma store_typed_keeps:
  assumes "A \<subseteq> dom (m_bytes m)"
  shows "span a 1 \<subseteq> A \<Longrightarrow> \<exists>m'. store_u8 m a v1 = Some m' \<and> keeps A m m'"
    and "span a 2 \<subseteq> A \<Longrightarrow> \<exists>m'. store_u16 m a v2 = Some m' \<and> keeps A m m'"
    and "span a 4 \<subseteq> A \<Longrightarrow> \<exists>m'. store_u32 m a v4 = Some m' \<and> keeps A m m'"
    and "span a 8 \<subseteq> A \<Longrightarrow> \<exists>m'. store_u64 m a v8 = Some m' \<and> keeps A m m'"
  unfolding store_u8_def store_u16_def store_u32_def store_u64_def
  using assms by (intro store_keeps; simp del: store.simps)+

lemma runs_mem: "\<exists>m'. f (snd st) = Some m' \<and> keeps A (snd st) m' \<Longrightarrow> runs pend A st (on_mem f st)"
  by (auto intro: runs_on_mem)

lemma st_ok_dom: "st_ok pend A st \<Longrightarrow> A \<subseteq> dom (m_bytes (snd st))"
  by (simp add: st_ok_def)

lemma runs_store:
  assumes "st_ok pend A st"
  shows "span a 1 \<subseteq> A \<Longrightarrow> runs pend A st (on_mem (\<lambda>m. store_u8 m a v1) st)"
    and "span a 2 \<subseteq> A \<Longrightarrow> runs pend A st (on_mem (\<lambda>m. store_u16 m a v2) st)"
    and "span a 4 \<subseteq> A \<Longrightarrow> runs pend A st (on_mem (\<lambda>m. store_u32 m a v4) st)"
    and "span a 8 \<subseteq> A \<Longrightarrow> runs pend A st (on_mem (\<lambda>m. store_u64 m a v8) st)"
  using st_ok_dom [OF assms] by (auto intro!: runs_mem store_typed_keeps)

lemma load_u32_total: "span a 4 \<subseteq> A \<Longrightarrow> A \<subseteq> dom (m_bytes m) \<Longrightarrow> \<exists>v. load_u32 m a = Some v"
  using load_Some_iff [of m a 4] by (auto simp: load_u32_def mapped_def)

lemma span_sub: "i + k \<le> n \<Longrightarrow> span (a + of_nat i) k \<subseteq> span a n"
proof
  fix x assume "i + k \<le> n" and "x \<in> span (a + of_nat i) k"
  then obtain j where "j < k" "x = a + of_nat (i + j)" by (auto simp: span_def add.assoc)
  with \<open>i + k \<le> n\<close> show "x \<in> span a n" unfolding span_def by (intro image_eqI [of _ _ "i + j"]) simp_all
qed

text \<open>Where the value of a static field that is no submessage lies, and what it needs.\<close>

definition scalar_fits :: "u64 set \<Rightarrow> pb_field \<Rightarrow> u64 \<Rightarrow> bool" where
  "scalar_fits A f a \<longleftrightarrow>
     PB_ATYPE (ftype f) = PB_ATYPE_STATIC \<and> PB_LTYPE (ftype f) \<in> {0, 1, 2, 3, 4, 5, 6, 7, 10} \<and>
     span a (unat (data_size f)) \<subseteq> A \<and> (PB_LTYPE (ftype f) = PB_LTYPE_BOOL \<longrightarrow> 1 \<le> unat (data_size f)) \<and>
     (PB_LTYPE (ftype f) = PB_LTYPE_FIXED32 \<longrightarrow> 4 \<le> unat (data_size f)) \<and>
     (PB_LTYPE (ftype f) = PB_LTYPE_FIXED64 \<longrightarrow> 8 \<le> unat (data_size f))"

lemma unat_word_small: "unat (8 :: u32) = 8" "unat (4 :: u32) = 4" "unat (2 :: u32) = 2" "unat (1 :: u32) = 1"
  by simp_all

text \<open>A message of static fields lies in \<open>A\<close>: every field's data, count and presence flag do, and
  every default value is long enough. Such a message has no unions, and its nesting is at most
  \<open>d\<close> deep.\<close>

definition item_fits ::
  "(pb_field list \<Rightarrow> u64 \<Rightarrow> bool) \<Rightarrow> u64 set \<Rightarrow> pb_field \<Rightarrow> u64 \<Rightarrow> bool" where
  "item_fits sub A f a \<longleftrightarrow>
     (if PB_LTYPE (ftype f) = PB_LTYPE_SUBMESSAGE
      then (case fptr f of PtrFields fs \<Rightarrow> sub fs a | _ \<Rightarrow> False)
      else scalar_fits A f a)"

definition default_fits :: "pb_field \<Rightarrow> bool" where
  "default_fits f \<longleftrightarrow>
     (PB_LTYPE (ftype f) = PB_LTYPE_SUBMESSAGE \<or>
      (case fptr f of PtrNull \<Rightarrow> True | PtrData bs \<Rightarrow> unat (data_size f) \<le> length bs | PtrFields _ \<Rightarrow> False))"

definition iter_fits ::
  "(pb_field list \<Rightarrow> u64 \<Rightarrow> bool) \<Rightarrow> u64 set \<Rightarrow> pb_field_iter \<Rightarrow> bool" where
  "iter_fits sub A it \<longleftrightarrow>
     (let f = it_field it; ht = PB_HTYPE (ftype f) in
      PB_ATYPE (ftype f) = PB_ATYPE_STATIC \<and> PB_LTYPE (ftype f) \<in> {0, 1, 2, 3, 4, 5, 6, 7, 8, 10} \<and>
      (case pSize it of
         FixedCountSize \<Rightarrow> False
       | SizeAt p \<Rightarrow>
           if ht = PB_HTYPE_REPEATED
           then span p 4 \<subseteq> A \<and> unat (data_size f) * unat (array_size f) < 2 ^ 32 \<and>
             (\<forall>n < array_size f. item_fits sub A f (item_at (pData it) f n))
           else item_fits sub A f (pData it) \<and> default_fits f \<and>
             (ht = PB_HTYPE_REQUIRED \<or> ht = PB_HTYPE_OPTIONAL \<and> (p = pData it \<or> span p 1 \<subseteq> A))))"

primrec msg_fits :: "nat \<Rightarrow> u64 set \<Rightarrow> pb_field list \<Rightarrow> u64 \<Rightarrow> bool" where
  "msg_fits 0 A fs dest \<longleftrightarrow> False"
| "msg_fits (Suc d) A fs dest \<longleftrightarrow>
     wf_fields fs \<and> fs \<noteq> [] \<and> (\<forall>it \<in> set (iters_of fs dest). iter_fits (msg_fits d A) A it)"

section \<open>Defaults and release stay in the structure\<close>

definition mem_safe :: "u64 set \<Rightarrow> (memory \<Rightarrow> memory option) \<Rightarrow> bool" where
  "mem_safe A f \<longleftrightarrow> (\<forall>m. A \<subseteq> dom (m_bytes m) \<longrightarrow> (\<exists>m'. f m = Some m' \<and> keeps A m m'))"

lemma mem_safeD: "mem_safe A f \<Longrightarrow> A \<subseteq> dom (m_bytes m) \<Longrightarrow> \<exists>m'. f m = Some m' \<and> keeps A m m'"
  by (simp add: mem_safe_def)

lemma mem_safe_Some [simp]: "mem_safe A Some"
  by (simp add: mem_safe_def)

lemma mem_safe_seq:
  assumes "mem_safe A f" and "mem_safe A g"
  shows "mem_safe A (\<lambda>m. Option.bind (f m) g)"
  unfolding mem_safe_def
proof (intro allI impI)
  fix m :: memory assume dom: "A \<subseteq> dom (m_bytes m)"
  from mem_safeD [OF assms(1) dom] obtain m1 where m1: "f m = Some m1" "keeps A m m1" by blast
  from mem_safeD [OF assms(2) keeps_dom [OF m1(2) dom]] obtain m2 where "g m1 = Some m2" "keeps A m1 m2" by blast
  with m1 show "\<exists>m'. Option.bind (f m) g = Some m' \<and> keeps A m m'" by (auto intro: keeps_trans)
qed

lemma mem_safe_store: "span a (length bs) \<subseteq> A \<Longrightarrow> mem_safe A (\<lambda>m. store m a bs)"
  unfolding mem_safe_def using store_keeps by blast

lemma mem_safe_typed:
  "span a 1 \<subseteq> A \<Longrightarrow> mem_safe A (\<lambda>m. store_u8 m a v1)"
  "span a 4 \<subseteq> A \<Longrightarrow> mem_safe A (\<lambda>m. store_u32 m a v4)"
  unfolding mem_safe_def using store_typed_keeps(1,3) by blast+

lemma mem_safe_run_iters:
  "\<forall>it \<in> set its. mem_safe A (body it) \<Longrightarrow> A \<subseteq> dom (m_bytes m) \<Longrightarrow>
   \<exists>m'. run_iters (\<lambda>it m. map_option (\<lambda>m'. (Some (), m')) (body it m)) its m = Some (Some (), m') \<and> keeps A m m'"
proof (induction its arbitrary: m)
  case (Cons it its)
  then obtain m1 where m1: "body it m = Some m1" "keeps A m m1" using mem_safeD [of A "body it" m] by auto
  from Cons.IH [of m1] Cons.prems keeps_dom [OF m1(2)] obtain m2 where
    "run_iters (\<lambda>it m. map_option (\<lambda>m'. (Some (), m')) (body it m)) its m1 = Some (Some (), m2)" "keeps A m1 m2"
    by auto
  with m1 show ?case by (auto intro: keeps_trans)
qed simp

lemma mem_safe_each_field:
  assumes "wf_fields fs" and "\<forall>it \<in> set (iters_of fs dest). mem_safe A (body it)"
  shows "mem_safe A (each_field_mem body fs dest)"
  unfolding mem_safe_def each_field_mem_def for_each_field_run [OF assms(1)]
  using mem_safe_run_iters [OF assms(2)] by fastforce

lemma defaults_safe:
  "msg_fits d A fs dest \<Longrightarrow> d \<le> d' \<Longrightarrow> mem_safe A (pb_message_set_to_defaults xts d' fs dest)"
proof (induction d arbitrary: d' fs dest)
  case (Suc d)
  then obtain e where d': "d' = Suc e" and e: "d \<le> e" by (cases d') auto
  have "mem_safe A (field_default_step xts (pb_field_set_to_default xts e) it)"
    if it: "iter_fits (msg_fits d A) A it" for it
  proof -
    let ?f = "it_field it" and ?sd = "pb_field_set_to_default xts e"
    from it obtain p where p: "pSize it = SizeAt p" by (auto simp: iter_fits_def Let_def split: psize.splits)
    have st: "PB_ATYPE (ftype ?f) = PB_ATYPE_STATIC" "PB_LTYPE (ftype ?f) \<noteq> PB_LTYPE_EXTENSION"
      using it by (auto simp: iter_fits_def Let_def)
    have data: "mem_safe A (init_static_data ?sd it)"
      if item: "item_fits (msg_fits d A) A ?f (pData it)" and default: "default_fits ?f"
    proof (cases "PB_LTYPE (ftype ?f) = PB_LTYPE_SUBMESSAGE")
      case True
      then obtain fs' where fs': "fptr ?f = PtrFields fs'" "msg_fits d A fs' (pData it)"
        using item by (auto simp: item_fits_def split: field_ptr.splits)
      from Suc.IH [OF fs'(2) e] True fs'(1) show ?thesis
        by (simp add: init_static_data_def [abs_def] sub_fields_def pb_message_set_to_defaults_def Let_def)
    next
      case False
      then have sp: "span (pData it) (unat (data_size ?f)) \<subseteq> A"
        using item by (simp add: item_fits_def scalar_fits_def)
      show ?thesis
      proof (cases "fptr ?f")
        case PtrNull
        then show ?thesis
          using False sp by (simp add: init_static_data_def [abs_def] Let_def c_memset_def mem_safe_store)
      next
        case (PtrFields x)
        then show ?thesis using default False by (simp add: default_fits_def)
      next
        case (PtrData bs)
        then have len: "unat (data_size ?f) \<le> length bs" using default False by (simp add: default_fits_def)
        then have "mem_safe A (\<lambda>m. store m (pData it) (take (unat (data_size ?f)) bs))"
          using sp by (intro mem_safe_store) (simp add: min_absorb2)
        then show ?thesis
          using False PtrData len by (simp add: init_static_data_def [abs_def] Let_def not_less [symmetric])
      qed
    qed
    consider "PB_HTYPE (ftype ?f) = PB_HTYPE_REPEATED" "span p 4 \<subseteq> A"
      | "PB_HTYPE (ftype ?f) = PB_HTYPE_REQUIRED" "item_fits (msg_fits d A) A ?f (pData it)" "default_fits ?f"
      | "PB_HTYPE (ftype ?f) = PB_HTYPE_OPTIONAL" "item_fits (msg_fits d A) A ?f (pData it)" "default_fits ?f"
          "p = pData it \<or> span p 1 \<subseteq> A"
      using it p by (auto simp: iter_fits_def Let_def split: if_splits)
    then show ?thesis
    proof cases
      case 1
      from mem_safe_typed(2) [OF 1(2), of 0] show ?thesis
        using 1(1) st p unfolding mem_safe_def by (auto simp: field_default_step_def size_set_def)
    next
      case 2
      from data [OF 2(2,3)] show ?thesis
        using 2(1) st p by (simp add: field_default_step_def [abs_def] Let_def)
    next
      case 3
      show ?thesis
      proof (cases "p = pData it")
        case True
        from data [OF 3(2,3)] show ?thesis
          using 3(1) st p True by (simp add: field_default_step_def [abs_def] Let_def)
      next
        case False
        with 3(4) have "span p 1 \<subseteq> A" by blast
        from mem_safe_seq [OF mem_safe_typed(1) [OF this, of 0] data [OF 3(2,3)]] show ?thesis
          using 3(1) st p False by (simp add: field_default_step_def [abs_def] Let_def)
      qed
    qed
  qed
  then show ?case
    using Suc.prems(1) unfolding d' pb_message_set_to_defaults_def
    by (intro mem_safe_each_field) simp_all
qed simp

lemma item_at_small:
  assumes "unat (data_size f) * unat (array_size f) < 2 ^ 32" and "k < unat (array_size f)"
  shows "item_at base f (of_nat k) = base + of_nat k * ucast (data_size f)"
proof -
  have k: "unat (of_nat k :: u32) = k"
    using assms(2) unsigned_less [of "array_size f", where ?'a = nat] by (intro unat_of_nat_lt) simp
  have "unat (data_size f) * k \<le> unat (data_size f) * unat (array_size f)" using assms(2) by simp
  then have small: "unat (data_size f) * k < 2 ^ 32" using assms(1) by linarith
  then have "unat (data_size f * of_nat k) = unat (data_size f) * k"
    unfolding unat_word_ariths k by simp
  then have "ucast (data_size f * of_nat k) = (of_nat (unat (data_size f) * k) :: u64)"
    by (metis of_nat_unat)
  also have "\<dots> = of_nat k * ucast (data_size f)" by (simp add: mult.commute of_nat_unat)
  finally show ?thesis by (simp add: item_at_def)
qed

lemma mem_safe_release_items:
  assumes "fptr f = PtrFields fs"
  shows "\<forall>k < n. mem_safe A (release_message rel fs (p + of_nat k * ucast (data_size f))) \<Longrightarrow>
    mem_safe A (release_items rel f n p)"
proof (induction n arbitrary: p)
  case (Suc n)
  have "mem_safe A (release_message rel fs p)" using Suc.prems by (auto dest: spec [of _ 0])
  moreover have "mem_safe A (release_items rel f n (p + ucast (data_size f)))"
  proof (intro Suc.IH allI impI)
    fix k assume "k < n"
    then have "mem_safe A (release_message rel fs (p + of_nat (Suc k) * ucast (data_size f)))"
      using Suc.prems by (metis Suc_mono)
    then show "mem_safe A (release_message rel fs (p + ucast (data_size f) + of_nat k * ucast (data_size f)))"
      by (simp add: algebra_simps)
  qed
  ultimately show ?case using mem_safe_seq by (simp add: assms)
qed (simp add: mem_safe_def)

lemma release_safe:
  "msg_fits d A fs dest \<Longrightarrow> d \<le> d' \<Longrightarrow> mem_safe A (pb_release xts d' fs dest)"
proof (induction d arbitrary: d' fs dest)
  case (Suc d)
  then obtain e where d': "d' = Suc e" and e: "d \<le> e" by (cases d') auto
  have field: "mem_safe A (release_field_step xts (pb_release_single_field xts e) it)"
    if it: "iter_fits (msg_fits d A) A it" for it
  proof -
    let ?f = "it_field it" and ?rel = "pb_release_single_field xts e"
    from it obtain p where p: "pSize it = SizeAt p" by (auto simp: iter_fits_def Let_def split: psize.splits)
    have st: "PB_ATYPE (ftype ?f) = PB_ATYPE_STATIC" "PB_LTYPE (ftype ?f) \<noteq> PB_LTYPE_EXTENSION"
      "PB_HTYPE (ftype ?f) \<noteq> PB_HTYPE_ONEOF"
      using it p by (auto simp: iter_fits_def Let_def split: if_splits)
    show ?thesis
    proof (cases "PB_LTYPE (ftype ?f) = PB_LTYPE_SUBMESSAGE")
      case False
      then show ?thesis using st by (simp add: release_field_step_def [abs_def] Let_def)
    next
      case sub: True
      have item: "mem_safe A (release_message ?rel fs' a)"
        if "item_fits (msg_fits d A) A ?f a" "fptr ?f = PtrFields fs'" for a fs'
        using that sub Suc.IH [of fs' a e] e by (simp add: item_fits_def pb_release_def)
      have "mem_safe A (release_submessages ?rel it)"
      proof (cases "PB_HTYPE (ftype ?f) = PB_HTYPE_REPEATED")
        case False
        then have fit: "item_fits (msg_fits d A) A ?f (pData it)"
          using it p by (auto simp: iter_fits_def Let_def split: if_splits)
        then obtain fs' where fs': "fptr ?f = PtrFields fs'"
          using sub by (auto simp: item_fits_def split: field_ptr.splits)
        have "mem_safe A (release_items ?rel ?f 1 (pData it))"
          using item [OF fit fs'] by (intro mem_safe_release_items [OF fs']) simp
        then show ?thesis
          using False st by (cases "pData it = 0") (simp_all add: release_submessages_def [abs_def] Let_def del: release_items.simps)
      next
        case True
        then have sp: "span p 4 \<subseteq> A" and small: "unat (data_size ?f) * unat (array_size ?f) < 2 ^ 32"
          and items: "\<forall>n < array_size ?f. item_fits (msg_fits d A) A ?f (item_at (pData it) ?f n)"
          using it p by (simp_all add: iter_fits_def Let_def)
        have rep: "mem_safe A (release_items ?rel ?f (unat n) (pData it))" if n: "n \<le> array_size ?f" for n
        proof (cases "n = 0")
          case True
          then show ?thesis by (simp add: mem_safe_def)
        next
          case False
          then have "0 < n" by (simp add: word_gt_0)
          then have "0 < array_size ?f" using n by (rule less_le_trans)
          then have "item_fits (msg_fits d A) A ?f (item_at (pData it) ?f 0)" using items by blast
          then obtain fs' where fs': "fptr ?f = PtrFields fs'"
            using sub by (auto simp: item_fits_def split: field_ptr.splits)
          show ?thesis
          proof (rule mem_safe_release_items [OF fs'], intro allI impI)
            fix k assume "k < unat n"
            then have k: "k < unat (array_size ?f)" using n by (simp add: word_le_nat_alt)
            then have "unat (of_nat k :: u32) = k"
              using unsigned_less [of "array_size ?f", where ?'a = nat] by (intro unat_of_nat_lt) simp
            then have "(of_nat k :: u32) < array_size ?f" using k by (simp add: word_less_nat_alt)
            with items have "item_fits (msg_fits d A) A ?f (item_at (pData it) ?f (of_nat k))" by blast
            from item [OF this fs'] show
              "mem_safe A (release_message ?rel fs' (pData it + of_nat k * ucast (data_size ?f)))"
              unfolding item_at_small [OF small k] .
          qed
        qed
        show ?thesis
          unfolding mem_safe_def
        proof (intro allI impI)
          fix m :: memory assume dom: "A \<subseteq> dom (m_bytes m)"
          obtain v where v: "load_u32 m p = Some v" using load_u32_total [OF sp dom] by blast
          let ?c = "if p = pData it then array_size ?f else if v > array_size ?f then array_size ?f else v"
          have c: "?c \<le> array_size ?f" by auto
          have "release_submessages ?rel it m =
              (if pData it \<noteq> 0 then release_items ?rel ?f (unat ?c) (pData it) m else Some m)"
            using True st p v by (auto simp: release_submessages_def Let_def size_get_def)
          then show "\<exists>m'. release_submessages ?rel it m = Some m' \<and> keeps A m m'"
            using mem_safeD [OF rep [OF c] dom] by auto
        qed
      qed
      then show ?thesis using sub st by (simp add: release_field_step_def [abs_def] Let_def)
    qed
  qed
  have wf: "wf_fields fs" and fits: "\<forall>it \<in> set (iters_of fs dest). iter_fits (msg_fits d A) A it"
    using Suc.prems(1) by simp_all
  have "mem_safe A (each_field_mem (release_field_step xts (pb_release_single_field xts e)) fs dest)"
    using fits field by (intro mem_safe_each_field [OF wf]) blast
  then show ?case unfolding d' pb_release_def mem_safe_def by (auto simp: release_message_def)
qed simp

context input_source
begin

lemma within_i_error [simp]: "within pend s (i_error e s') \<longleftrightarrow> within pend s s'"
  by (simp add: within_def)

lemma runs_error: "runs pend A st (d_error e st)"
  by (simp add: runs_def d_error_def)

lemma runs_read_into:
  assumes ok: "st_ok pend A st" and rd: "dc_read dc = rd" and sp: "span dest (unat n) \<subseteq> A"
  shows "runs pend A st (read_into dc dest n st)"
proof -
  have sok: "stream_ok pend (fst st)" and dom: "A \<subseteq> dom (m_bytes (snd st))" using ok by (auto simp: st_ok_def)
  obtain r bs s' where r: "pb_read rd (fst st) (dest \<noteq> 0) n = Some (r, bs, s')" "moves pend (fst st) s'"
    "\<not> (r \<and> dest \<noteq> 0) \<Longrightarrow> bs = []" "r \<Longrightarrow> dest \<noteq> 0 \<Longrightarrow> length bs = unat n"
    by (rule read_safe [OF sok, of "dest \<noteq> 0" n]) blast
  have "span dest (length bs) \<subseteq> A"
    using r(3,4) sp by (cases "r \<and> dest \<noteq> 0") auto
  with dom obtain m' where "store (snd st) dest bs = Some m'" "keeps A (snd st) m'" using store_keeps by blast
  with r show ?thesis by (simp add: read_into_def runs_def rd moves_within)
qed

lemma runs_check_clamped: "runs pend A st (check_clamped c v st)"
  by (simp add: check_clamped_def runs_error runs_ret)

lemma runs_store_then:
  assumes "st_ok pend A st" and "\<And>m. A \<subseteq> dom (m_bytes m) \<Longrightarrow> \<exists>m'. f m = Some m' \<and> keeps A m m'"
  shows "runs pend A st (c_try (on_mem f st) (\<lambda>_. check_clamped c v))"
  using assms st_ok_dom by (intro runs_try runs_mem runs_check_clamped) blast

lemma runs_store_signed:
  assumes "st_ok pend A st" and "span dest (unat n) \<subseteq> A"
  shows "runs pend A st (store_signed n dest v st)"
  unfolding store_signed_def using assms
  by (auto intro!: runs_store_then runs_error store_typed_keeps)

lemma moves_st_ok:
  "st_ok pend A st \<Longrightarrow> moves pend (fst st) (fst st1) \<Longrightarrow> keeps A (snd st) (snd st1) \<Longrightarrow> st_ok pend A st1"
  by (erule st_ok_step) (simp_all add: moves_within)

lemma runs_token:
  assumes ok: "st_ok pend A st" and "\<And>s. stream_ok pend s \<Longrightarrow> safely pend s (f s)"
    and "\<And>v st1. st_ok pend A st1 \<Longrightarrow> runs pend A st1 (g v st1)"
  shows "runs pend A st (c_try (on_stream f st) g)"
  using ok by (intro runs_try runs_on_stream assms(2)) (auto simp: st_ok_def intro!: assms(3) moves_st_ok [OF ok])

lemma eats_token:
  assumes ok: "st_ok pend A st" and reads: "\<And>s. stream_ok pend s \<Longrightarrow> reads pend s (f s)"
    and g: "\<And>v st1. st_ok pend A st1 \<Longrightarrow> runs pend A st1 (g v st1)"
  shows "eats pend A st (c_try (on_stream f st) g)"
proof -
  have "unat (bytes_left (fst st2)) < unat (bytes_left (fst st))"
    if "c_try (on_stream f st) g = Some (Some u, st2)" for u st2
  proof -
    have "stream_ok pend (fst st)" using ok by (simp add: st_ok_def)
    from reads [OF this] obtain r s1 where s1: "f (fst st) = Some (r, s1)" "moves pend (fst st) s1"
      "r \<noteq> None \<longrightarrow> unat (bytes_left s1) < unat (bytes_left (fst st))" by (auto simp: reads_def)
    with that obtain v where v: "r = Some v" "g v (s1, snd st) = Some (Some u, st2)"
      by (cases r) (auto simp: on_stream_def)
    have "st_ok pend A (s1, snd st)" using moves_st_ok [OF ok, of "(s1, snd st)"] s1(2) by simp
    from g [OF this, of v] v(2) have "within pend s1 (fst st2)" by (auto simp: runs_def)
    from within_bytes_left [OF this] s1(3) v(1) show ?thesis by simp
  qed
  then show ?thesis using runs_token [OF ok reads_safely [OF reads] g] by (simp add: eats_def)
qed

lemma runs_store_bytes:
  assumes ok: "st_ok pend A st" and rd: "dc_read dc = rd" and sp: "span dest (unat sz + 4) \<subseteq> A"
  shows "runs pend A st (store_bytes dc dest sz st)"
  unfolding store_bytes_def
proof (rule runs_try)
  have "span dest 4 \<subseteq> A" using sp span_mono [of 4 "unat sz + 4" dest] by auto
  then show "runs pend A st (on_mem (\<lambda>m. store_u32 m dest sz) st)" by (rule runs_store(3) [OF ok])
next
  fix st1 assume "moves pend (fst st) (fst st1)" "keeps A (snd st) (snd st1)"
  then have "st_ok pend A st1" by (rule moves_st_ok [OF ok])
  moreover have "span (dest + 4) (unat (ucast sz :: u64)) \<subseteq> A"
    using sp span_sub [of 4 "unat sz" "unat sz + 4" dest] by auto
  ultimately show "runs pend A st1 (read_into dc (dest + 4) (ucast sz) st1)" using rd by (intro runs_read_into)
qed

lemma runs_read_string:
  assumes ok: "st_ok pend A st" and rd: "dc_read dc = rd" and sp: "span dest (unat sz + 1) \<subseteq> A"
  shows "runs pend A st (read_string dc dest sz st)"
proof -
  have "span dest (unat (ucast sz :: u64)) \<subseteq> A" using sp span_mono [of "unat sz" "unat sz + 1" dest] by auto
  from runs_read_into [OF ok rd this] obtain r st1 where st1: "read_into dc dest (ucast sz) st = Some (r, st1)"
    "within pend (fst st) (fst st1)" "r \<noteq> None \<longrightarrow> moves pend (fst st) (fst st1)" "keeps A (snd st) (snd st1)"
    by (auto simp: runs_def)
  have "A \<subseteq> dom (m_bytes (snd st1))" using keeps_dom [OF st1(4) st_ok_dom [OF ok]] .
  moreover have "span (dest + ucast sz) 1 \<subseteq> A"
    using sp span_sub [of "unat sz" 1 "unat sz + 1" dest, unfolded of_nat_unat, OF order_refl] by simp
  ultimately obtain m' where "store_u8 (snd st1) (dest + ucast sz) 0 = Some m'" "keeps A (snd st1) m'"
    using store_typed_keeps(1) by blast
  with st1 show ?thesis by (auto simp: read_string_def runs_def intro: keeps_trans)
qed

lemma eats_decoder:
  assumes fits: "scalar_fits A f a" and rd: "dc_read dc = rd" and ok: "st_ok pend A st"
  shows "eats pend A st (call_decoder (PB_DECODERS dc d noinit (PB_LTYPE (ftype f))) f a st)"
proof -
  have st: "PB_ATYPE (ftype f) = PB_ATYPE_STATIC" and sp: "span a (unat (data_size f)) \<subseteq> A"
    using fits by (simp_all add: scalar_fits_def)
  have part: "span a k \<subseteq> A" if "k \<le> unat (data_size f)" for k using that sp span_mono [of k _ a] by blast
  have "PB_LTYPE (ftype f) \<in> {0, 1, 2, 3, 4, 5, 6, 7, 10}" using fits by (simp add: scalar_fits_def)
  then consider "PB_LTYPE (ftype f) = 0" | "PB_LTYPE (ftype f) = 1" | "PB_LTYPE (ftype f) = 2"
    | "PB_LTYPE (ftype f) = 3" | "PB_LTYPE (ftype f) = 4" | "PB_LTYPE (ftype f) = 5"
    | "PB_LTYPE (ftype f) = 6" | "PB_LTYPE (ftype f) = 7" | "PB_LTYPE (ftype f) = 10" by blast
  then show ?thesis
  proof cases
    case 1
    then have "span a 1 \<subseteq> A" using fits part by (simp add: scalar_fits_def)
    then have "eats pend A st (pb_dec_bool dc f a st)"
      unfolding pb_dec_bool_def rd
      by (intro eats_token [OF ok] varint32_reads runs_store(1))
    with 1 show ?thesis by (simp add: call_decoder_def PB_DECODERS_def)
  next
    case 2
    have "eats pend A st (pb_dec_varint dc f a st)"
      unfolding pb_dec_varint_def rd Let_def
      by (intro eats_token [OF ok] decode_varint_reads runs_store_signed sp)
    with 2 show ?thesis by (simp add: call_decoder_def PB_DECODERS_def)
  next
    case 3
    have "eats pend A st (pb_dec_uvarint dc f a st)"
      unfolding pb_dec_uvarint_def rd
      using sp by (intro eats_token [OF ok] decode_varint_reads)
        (auto intro!: runs_store_then runs_error store_typed_keeps)
    with 3 show ?thesis by (simp add: call_decoder_def PB_DECODERS_def)
  next
    case 4
    have "eats pend A st (pb_dec_svarint dc f a st)"
      unfolding pb_dec_svarint_def rd
      by (intro eats_token [OF ok] decode_svarint_reads runs_store_signed sp)
    with 4 show ?thesis by (simp add: call_decoder_def PB_DECODERS_def)
  next
    case 5
    then have "span a 4 \<subseteq> A" using fits part by (simp add: scalar_fits_def)
    then have "eats pend A st (pb_dec_fixed32 dc f a st)"
      unfolding pb_dec_fixed32_def rd
      by (intro eats_token [OF ok] decode_fixed32_reads runs_store(3))
    with 5 show ?thesis by (simp add: call_decoder_def PB_DECODERS_def)
  next
    case 6
    then have "span a 8 \<subseteq> A" using fits part by (simp add: scalar_fits_def)
    then have "eats pend A st (pb_dec_fixed64 dc f a st)"
      unfolding pb_dec_fixed64_def rd
      by (intro eats_token [OF ok] decode_fixed64_reads runs_store(4))
    with 6 show ?thesis by (simp add: call_decoder_def PB_DECODERS_def)
  next
    case 7
    have "runs pend A st1 (store_bytes dc a sz st1)"
      if "st_ok pend A st1" "\<not> ucast sz + 4 > (ucast (data_size f) :: u64)" for sz st1
    proof -
      have "unat (ucast sz + 4 :: u64) = unat sz + 4"
        using unsigned_less [of sz, where ?'a = nat] by (simp add: unat_plus_if')
      then have "unat sz + 4 \<le> unat (data_size f)" using that(2) by (simp add: word_less_nat_alt not_less)
      then show ?thesis by (intro runs_store_bytes that(1) rd part)
    qed
    then have "eats pend A st (pb_dec_bytes dc f a st)"
      unfolding pb_dec_bytes_def rd Let_def
      using st by (intro eats_token [OF ok] varint32_reads) (auto intro!: runs_error)
    with 7 show ?thesis by (simp add: call_decoder_def PB_DECODERS_def)
  next
    case 8
    have "runs pend A st1 (read_string dc a sz st1)"
      if "st_ok pend A st1" "\<not> ucast (sz + 1) < (ucast sz :: u64)" "\<not> ucast (sz + 1) > (ucast (data_size f) :: u64)"
      for sz st1
    proof -
      have "unat (sz + 1) = unat sz + 1"
        using that(2) by (auto simp: word_less_nat_alt unat_plus_if' split: if_splits)
      then have "unat sz + 1 \<le> unat (data_size f)" using that(3) by (simp add: word_less_nat_alt not_less)
      then show ?thesis by (intro runs_read_string that(1) rd part)
    qed
    then have "eats pend A st (pb_dec_string dc f a st)"
      unfolding pb_dec_string_def rd Let_def
      using st by (intro eats_token [OF ok] varint32_reads) (auto intro!: runs_error)
    with 8 show ?thesis by (simp add: call_decoder_def PB_DECODERS_def)
  next
    case 9
    have "\<exists>m'. c_memset m a 0 (unat (data_size f)) = Some m' \<and> keeps A m m'" if "A \<subseteq> dom (m_bytes m)" for m
      unfolding c_memset_def using sp that by (intro store_keeps) simp_all
    moreover have "runs pend A st1 (read_into dc a (ucast (data_size f)) st1)" if "st_ok pend A st1" for st1
      using sp by (intro runs_read_into that rd) simp
    ultimately have "eats pend A st (pb_dec_fixed_length_bytes dc f a st)"
      unfolding pb_dec_fixed_length_bytes_def rd
      by (intro eats_token [OF ok] varint32_reads)
        (auto intro!: runs_error runs_mem dest: st_ok_dom)
    with 9 show ?thesis by (simp add: call_decoder_def PB_DECODERS_def)
  qed
qed

lemma runs_decoder:
  assumes "scalar_fits A f a" and "dc_read dc = rd" and "st_ok pend A st"
  shows "runs pend A st (call_decoder (PB_DECODERS dc d noinit (PB_LTYPE (ftype f))) f a st)"
  using eats_decoder [OF assms] by (simp add: eats_def)

end

end
