(* ===== verification/Pb_Dec_Msg.thy ===== *)
theory Pb_Dec_Msg
  imports Pb_Dec_Safe
begin

text \<open>
  Safety of the message decoder, continued: substreams, static fields, the loop over the fields
  of a message, and nested messages by induction on the nesting.
\<close>

section \<open>Substreams\<close>

context input_source
begin

lemma close_within:
  assumes ok: "stream_ok pend s0" and sub: "sub = s0\<lparr>bytes_left := bytes_left sub\<rparr>"
    and s1: "i_callback s1 = i_callback s0"
    and sum: "unat (bytes_left sub) + unat (bytes_left s1) = unat (bytes_left s0)"
    and w: "within pend sub sub'"
  obtains s2 where "pb_close_string_substream rd s1 sub' = Some (Some (), s2)"
    and "within pend s0 s2"
proof -
  have psub: "pend sub = pend s0" by (subst sub) (simp add: pend_bytes_left)
  have "stream_ok pend sub" using ok sum psub by (simp add: stream_ok_def)
  then have ok': "stream_ok pend sub'" using w within_stream_ok by blast
  let ?s2 = "\<lambda>t. s1\<lparr>i_state := i_state t, i_errmsg := i_errmsg t\<rparr>"
  have res: "within pend s0 (?s2 t)" if t: "advances pend sub' (unat (bytes_left sub')) t" for t
  proof -
    from w obtain k where k: "pend sub' = drop k (pend sub)"
      "k + unat (bytes_left sub') \<le> unat (bytes_left sub)" by (auto simp: within_def)
    have "i_callback t = i_callback s0"
      using t w by (subst (asm) sub) (simp add: advances_def within_def)
    then have "pend (?s2 t) = pend t" using s1 by (intro pend_cong) simp_all
    also have "\<dots> = drop (k + unat (bytes_left sub')) (pend s0)"
      using t k(1) psub by (simp add: advances_def add.commute)
    finally show ?thesis using k(2) sum s1
      by (auto simp: within_def intro!: exI [of _ "k + unat (bytes_left sub')"])
  qed
  show thesis
  proof (cases "bytes_left sub' = 0")
    case True
    then show thesis
      using that [of "?s2 sub'"] res [of sub'] by (simp add: pb_close_string_substream_def)
  next
    case False
    from pb_read_skip [OF ok' order_refl] obtain t where
      "pb_read rd sub' False (bytes_left sub') = Some (True, [], t)"
      "advances pend sub' (unat (bytes_left sub')) t" .
    then show thesis
      using that [of "?s2 t"] res [of t] False by (simp add: pb_close_string_substream_def)
  qed
qed

text \<open>Work on a delimited part of the stream: open, run something that stays within the
  substream, close. A successful run leaves the parent in step.\<close>

lemma runs_delimited:
  assumes ok: "st_ok pend A st" and rd: "dc_read dc = rd"
    and body: "\<And>sub st1. st_ok pend A (sub, snd st1) \<Longrightarrow> snd st1 = snd st \<Longrightarrow>
      i_callback (fst st1) = i_callback sub \<Longrightarrow>
      \<exists>c q sub2 m2. g sub st1 = Some (c, q, (sub2, m2)) \<and> within pend sub sub2 \<and>
        (q \<noteq> None \<longrightarrow> moves pend sub sub2) \<and> keeps A (snd st) m2"
    and cont: "\<And>sub st1. f sub st1 = Option.bind (g sub st1) (\<lambda>(c, q, sub2, m2).
        if c then c_try (on_stream (\<lambda>s. pb_close_string_substream rd s sub2) (fst st1, m2)) (\<lambda>_ st3. Some (q, st3))
        else d_error e (fst st1, m2))"
  shows "runs pend A st (c_try (on_stream (pb_make_string_substream (dc_read dc)) st) f)"
proof -
  obtain s m where st: "st = (s, m)" by (cases st)
  have sok: "stream_ok pend s" and dom: "A \<subseteq> dom (m_bytes m)" using ok st by (auto simp: st_ok_def)
  show ?thesis
  proof (cases rule: make_substream [OF sok, case_names fail ok])
    case (fail s')
    then show ?thesis using st rd by (simp add: on_stream_def runs_def moves_within)
  next
    case (ok s0 sub s1)
    have s0: "stream_ok pend s0" using ok(2) sok by (rule moves_stream_ok)
    have cb: "i_callback s1 = i_callback s0" by (subst ok(5)) simp
    have cbs: "i_callback sub = i_callback s0" by (subst ok(4)) simp
    have "st_ok pend A (sub, snd (s1, m))" using ok(7) dom by (simp add: st_ok_def)
    from body [OF this] st cb cbs obtain c q sub2 m2 where
      g: "g sub (s1, m) = Some (c, q, (sub2, m2))" "within pend sub sub2"
        "q \<noteq> None \<Longrightarrow> moves pend sub sub2" "keeps A m m2" by auto
    obtain s2 where s2: "pb_close_string_substream rd s1 sub2 = Some (Some (), s2)" "within pend s0 s2"
      by (rule close_within [OF s0 ok(4) cb ok(6) g(2)])
    have mv: "moves pend s0 s2" if q: "q \<noteq> None"
    proof -
      obtain s2' where "pb_close_string_substream rd s1 sub2 = Some (Some (), s2')" "moves pend s0 s2'"
        by (rule close_substream [OF s0 ok(4) cb ok(6) g(3) [OF q]])
      with s2(1) show ?thesis by simp
    qed
    have early: "within pend s0 s1" unfolding within_def
      using cb ok(6) by (subst (2) ok(5)) (auto simp: pend_bytes_left intro!: exI [of _ 0])
    have "c_try (on_stream (pb_make_string_substream (dc_read dc)) st) f =
        (if c then Some (q, (s2, m2)) else d_error e (s1, m2))"
      using st rd ok(1) g(1) s2(1) by (simp add: on_stream_def cont)
    then show ?thesis
      using st g(4) s2(2) mv early moves_within [OF ok(2)] ok(2)
      by (cases c) (auto simp: runs_def d_error_def intro: within_trans moves_trans)
  qed
qed

lemma runs_in_substream:
  assumes ok: "st_ok pend A st" and rd: "dc_read dc = rd"
    and body: "\<And>st1. st_ok pend A st1 \<Longrightarrow> runs pend A st1 (body st1)"
  shows "runs pend A st (in_substream dc body st)"
  unfolding in_substream_def
proof (rule runs_delimited [OF ok rd,
      where g = "\<lambda>sub st1. map_option (\<lambda>x. (True, x)) (body (sub, snd st1))" and e = E_io_error])
  fix sub :: pb_istream and st1 :: dstate
  assume "st_ok pend A (sub, snd st1)" "snd st1 = snd st"
  with body [of "(sub, snd st1)"] show "\<exists>c q sub2 m2. map_option (\<lambda>x. (True, x)) (body (sub, snd st1)) = Some (c, q, (sub2, m2)) \<and>
      within pend sub sub2 \<and> (q \<noteq> None \<longrightarrow> moves pend sub sub2) \<and> keeps A (snd st) m2"
    by (auto simp: runs_def)
qed (simp add: rd split_def bind_map_option comp_def)

section \<open>Values\<close>

lemma runs_decode_with:
  assumes fits: "msg_fits d0 A fs dest" and d: "d0 \<le> d"
    and noinit: "\<And>st1. st_ok pend A st1 \<Longrightarrow> runs pend A st1 (noinit fs dest st1)"
    and ok: "st_ok pend A st"
  shows "runs pend A st (decode_with dc d noinit fs dest st)"
proof -
  from mem_safeD [OF defaults_safe [OF fits d] st_ok_dom [OF ok]] obtain m1 where
    m1: "pb_message_set_to_defaults (dc_exttype dc) d fs dest (snd st) = Some m1" "keeps A (snd st) m1" by blast
  have ok1: "st_ok pend A (fst st, m1)" using st_ok_step [OF ok, of "(fst st, m1)"] m1(2) by simp
  from noinit [OF this] obtain r st2 where st2: "noinit fs dest (fst st, m1) = Some (r, st2)"
    "within pend (fst st) (fst st2)" "r \<noteq> None \<longrightarrow> moves pend (fst st) (fst st2)" "keeps A m1 (snd st2)"
    by (auto simp: runs_def)
  have "A \<subseteq> dom (m_bytes (snd st2))" using keeps_dom [OF st2(4)] st_ok_dom [OF ok1] by simp
  from mem_safeD [OF release_safe [OF fits d] this] obtain m3 where
    "pb_release (dc_exttype dc) d fs dest (snd st2) = Some m3" "keeps A (snd st2) m3" by blast
  with m1 st2 show ?thesis
    by (cases r) (auto simp: decode_with_def runs_def intro: keeps_trans)
qed

lemma runs_item:
  assumes item: "item_fits (msg_fits d0 A) A f a" and d: "d0 \<le> d" and rd: "dc_read dc = rd"
    and noinit: "\<And>fs a st1. msg_fits d0 A fs a \<Longrightarrow> st_ok pend A st1 \<Longrightarrow> runs pend A st1 (noinit fs a st1)"
    and ok: "st_ok pend A st"
  shows "runs pend A st (call_decoder (PB_DECODERS dc d noinit (PB_LTYPE (ftype f))) f a st)"
proof (cases "PB_LTYPE (ftype f) = PB_LTYPE_SUBMESSAGE")
  case False
  then show ?thesis using item runs_decoder [OF _ rd ok] by (simp add: item_fits_def)
next
  case True
  then obtain fs where fs: "fptr f = PtrFields fs" "msg_fits d0 A fs a"
    using item by (auto simp: item_fits_def split: field_ptr.splits)
  have "runs pend A st (pb_dec_submessage dc d noinit f a st)"
    unfolding pb_dec_submessage_def fs(1) field_ptr.case
    by (rule runs_in_substream [OF ok rd]) (auto intro: runs_decode_with [OF fs(2) d] noinit fs(2))
  with True show ?thesis by (simp add: call_decoder_def PB_DECODERS_def)
qed

end

section \<open>Static fields\<close>

text \<open>Where the iterator of the message loop may stand: as in \<open>iter_fits\<close>, or at a repeated
  field with the size pointer redirected to the local count.\<close>

definition cursor_fits ::
  "(pb_field list \<Rightarrow> u64 \<Rightarrow> bool) \<Rightarrow> u64 set \<Rightarrow> pb_field_iter \<Rightarrow> bool" where
  "cursor_fits sub A it \<longleftrightarrow>
     iter_fits sub A it \<or>
     PB_HTYPE (ftype (it_field it)) = PB_HTYPE_REPEATED \<and> pSize it = FixedCountSize \<and>
       (\<exists>p. iter_fits sub A (it\<lparr>pSize := SizeAt p\<rparr>))"

lemma cursor_static:
  assumes "cursor_fits sub A it"
  shows "PB_ATYPE (ftype (it_field it)) = PB_ATYPE_STATIC"
    and "PB_LTYPE (ftype (it_field it)) \<noteq> PB_LTYPE_EXTENSION"
    and "PB_HTYPE (ftype (it_field it)) \<noteq> PB_HTYPE_ONEOF"
  using assms by (auto simp: cursor_fits_def iter_fits_def Let_def split: psize.splits if_splits)

lemma cursor_single:
  assumes "cursor_fits sub A it" and "PB_HTYPE (ftype (it_field it)) \<noteq> PB_HTYPE_REPEATED"
  obtains p where "pSize it = SizeAt p" and "item_fits sub A (it_field it) (pData it)"
    and "PB_HTYPE (ftype (it_field it)) = PB_HTYPE_REQUIRED \<or>
      PB_HTYPE (ftype (it_field it)) = PB_HTYPE_OPTIONAL \<and> (p = pData it \<or> span p 1 \<subseteq> A)"
  using assms by (auto simp: cursor_fits_def iter_fits_def Let_def split: psize.splits if_splits)

lemma cursor_repeated:
  assumes "cursor_fits sub A it" and "PB_HTYPE (ftype (it_field it)) = PB_HTYPE_REPEATED"
  shows "n < array_size (it_field it) \<Longrightarrow> item_fits sub A (it_field it) (item_at (pData it) (it_field it) n)"
    and "A \<subseteq> dom (m_bytes m) \<Longrightarrow> \<exists>v. size_get it fc m = Some v"
    and "A \<subseteq> dom (m_bytes m) \<Longrightarrow> \<exists>fc' m'. size_set it v fc m = Some (fc', m') \<and> keeps A m m'"
proof -
  from assms obtain p where p: "pSize it = FixedCountSize \<or> pSize it = SizeAt p" "span p 4 \<subseteq> A"
    "\<forall>n < array_size (it_field it). item_fits sub A (it_field it) (item_at (pData it) (it_field it) n)"
    by (auto simp: cursor_fits_def iter_fits_def Let_def split: psize.splits)
  show "item_fits sub A (it_field it) (item_at (pData it) (it_field it) n)" if "n < array_size (it_field it)"
    using p(3) that by blast
  show "\<exists>v. size_get it fc m = Some v" if "A \<subseteq> dom (m_bytes m)"
    using p(1) load_u32_total [OF p(2) that] by (auto simp: size_get_def)
  show "\<exists>fc' m'. size_set it v fc m = Some (fc', m') \<and> keeps A m m'" if "A \<subseteq> dom (m_bytes m)"
    using p(1) store_typed_keeps(3) [OF that p(2), of v] by (auto simp: size_set_def)
qed

lemma runs_keep_iter:
  "runs pend A st res \<Longrightarrow> runs pend A st (keep_iter it fc res)"
  by (auto simp: runs_def keep_iter_def)

lemma keep_iter_same: "keep_iter it fc res = Some (Some (it', fc'), st') \<Longrightarrow> it' = it"
  by (auto simp: keep_iter_def)

lemma runs_after_mem:
  assumes "runs pend A (fst st, m1) res" and "keeps A (snd st) m1"
  shows "runs pend A st res"
  using assms by (auto simp: runs_def intro: keeps_trans)

context input_source
begin

text \<open>The packed loop ends: every entry consumes at least a byte.\<close>

lemma packed_static_runs:
  assumes cur: "cursor_fits sub A it" and ht: "PB_HTYPE (ftype (it_field it)) = PB_HTYPE_REPEATED"
    and func: "\<And>a st. item_fits sub A (it_field it) a \<Longrightarrow> st_ok pend A st \<Longrightarrow>
      eats pend A st (func (it_field it) a st)"
    and ok: "st_ok pend A st"
  shows "\<exists>x. c_loop (packed_static_round func it) (fc, st) = Some x \<and>
    (case x of (status, fc2, st2) \<Rightarrow> within pend (fst st) (fst st2) \<and>
       (status \<longrightarrow> moves pend (fst st) (fst st2)) \<and> keeps A (snd st) (snd st2))"
    (is "\<exists>x. _ \<and> ?Q x")
proof (rule c_loop_total [where m = "\<lambda>(fc, st1). unat (bytes_left (fst st1))" and
      I = "\<lambda>(fc, st1). moves pend (fst st) (fst st1) \<and> keeps A (snd st) (snd st1)"])
  fix x :: "u32 \<times> dstate"
  assume "case x of (fc, st1) \<Rightarrow> moves pend (fst st) (fst st1) \<and> keeps A (snd st) (snd st1)"
  then obtain fc1 st1 where x: "x = (fc1, st1)" and mv: "moves pend (fst st) (fst st1)"
    and kp: "keeps A (snd st) (snd st1)" by (cases x) auto
  have ok1: "st_ok pend A st1" by (rule moves_st_ok [OF ok mv kp])
  from cursor_repeated(2) [OF cur ht st_ok_dom [OF ok1]] obtain n where n: "size_get it fc1 (snd st1) = Some n" by blast
  show "(\<exists>s'. packed_static_round func it x = Some (Inl s') \<and>
        (case s' of (fc, st1) \<Rightarrow> moves pend (fst st) (fst st1) \<and> keeps A (snd st) (snd st1)) \<and>
        (case s' of (fc, st1) \<Rightarrow> unat (bytes_left (fst st1))) <
        (case x of (fc, st1) \<Rightarrow> unat (bytes_left (fst st1)))) \<or>
      (\<exists>r. packed_static_round func it x = Some (Inr r) \<and> ?Q r)"
  proof (cases "bytes_left (fst st1) = 0 \<or> \<not> n < array_size (it_field it)")
    case True
    then have "packed_static_round func it x = Some (Inr (True, fc1, st1))"
      using n x by (auto simp: packed_static_round_def Let_def)
    then show ?thesis using mv kp moves_within by auto
  next
    case False
    let ?a = "item_at (pData it) (it_field it) n"
    have "eats pend A st1 (func (it_field it) ?a st1)"
      using False cursor_repeated(1) [OF cur ht] by (intro func ok1) simp
    then obtain r st2 where st2: "func (it_field it) ?a st1 = Some (r, st2)" "within pend (fst st1) (fst st2)"
      "r \<noteq> None \<longrightarrow> moves pend (fst st1) (fst st2)" "keeps A (snd st1) (snd st2)"
      "r \<noteq> None \<longrightarrow> unat (bytes_left (fst st2)) < unat (bytes_left (fst st1))"
      by (auto simp: eats_def runs_def)
    have kp2: "keeps A (snd st) (snd st2)" using kp st2(4) by (rule keeps_trans)
    show ?thesis
    proof (cases r)
      case None
      then have "packed_static_round func it x = Some (Inr (False, fc1, st2))"
        using n x False st2(1) by (simp add: packed_static_round_def Let_def)
      then show ?thesis using st2(2) kp2 mv moves_within by (auto intro: within_trans)
    next
      case (Some u)
      have ok2: "st_ok pend A st2" using st_ok_step [OF ok1 st2(2,4)] .
      from cursor_repeated(2) [OF cur ht st_ok_dom [OF ok2]] obtain n1 where
        n1: "size_get it fc1 (snd st2) = Some n1" by blast
      from cursor_repeated(3) [OF cur ht st_ok_dom [OF ok2]] obtain fc2 m2 where
        m2: "size_set it (n1 + 1) fc1 (snd st2) = Some (fc2, m2)" "keeps A (snd st2) m2" by blast
      have "packed_static_round func it x = Some (Inl (fc2, (fst st2, m2)))"
        using n x False st2(1) Some n1 m2(1) by (simp add: packed_static_round_def Let_def)
      then show ?thesis
        using Some st2(3,5) mv keeps_trans [OF kp2 m2(2)] x by (auto intro: moves_trans)
    qed
  qed
qed simp

lemma runs_packed_static:
  assumes cur: "cursor_fits sub A it" and ht: "PB_HTYPE (ftype (it_field it)) = PB_HTYPE_REPEATED"
    and func: "\<And>a st. item_fits sub A (it_field it) a \<Longrightarrow> st_ok pend A st \<Longrightarrow>
      eats pend A st (func (it_field it) a st)"
    and ok: "st_ok pend A st" and rd: "dc_read dc = rd"
  shows "runs pend A st (decode_packed_static dc func it fc st)"
  unfolding decode_packed_static_def
proof (rule runs_delimited [OF ok rd, where e = E_array_overflow and
      g = "\<lambda>sub st1. map_option (\<lambda>(status, fc2, sub2, m2).
        (bytes_left sub2 = 0, if status then Some (it, fc2) else None, sub2, m2))
        (c_loop (packed_static_round func it) (fc, (sub, snd st1)))"])
  fix sb :: pb_istream and st1 :: dstate
  assume "st_ok pend A (sb, snd st1)" "snd st1 = snd st"
  with packed_static_runs [where func = func and st = "(sb, snd st1)" and fc = fc, OF cur ht func] show
    "\<exists>c q sub2 m2. map_option (\<lambda>(status, fc2, sub2, m2).
        (bytes_left sub2 = 0, if status then Some (it, fc2) else None, sub2, m2))
        (c_loop (packed_static_round func it) (fc, (sb, snd st1))) = Some (c, q, (sub2, m2)) \<and>
      within pend sb sub2 \<and> (q \<noteq> None \<longrightarrow> moves pend sb sub2) \<and> keeps A (snd st) m2"
    by fastforce
qed (simp add: rd split_def bind_map_option comp_def, auto simp: rd intro!: bind_option_cong)

lemma runs_static_field:
  assumes cur: "cursor_fits (msg_fits d0 A) A it" and d: "d0 \<le> d" and rd: "dc_read dc = rd"
    and noinit: "\<And>fs a st1. msg_fits d0 A fs a \<Longrightarrow> st_ok pend A st1 \<Longrightarrow> runs pend A st1 (noinit fs a st1)"
    and ok: "st_ok pend A st"
  shows "runs pend A st (decode_static_field dc d noinit wt it fc st)"
proof -
  let ?f = "it_field it"
  let ?func = "call_decoder (PB_DECODERS dc d noinit (PB_LTYPE (ftype ?f)))"
  have item: "runs pend A st1 (?func ?f a st1)" if "item_fits (msg_fits d0 A) A ?f a" "st_ok pend A st1" for a st1
    using that by (intro runs_item [OF _ d rd noinit])
  show ?thesis
  proof (cases "PB_HTYPE (ftype ?f) = PB_HTYPE_REPEATED")
    case False
    from cursor_single [OF cur this] obtain p where p: "pSize it = SizeAt p"
      "item_fits (msg_fits d0 A) A ?f (pData it)"
      "PB_HTYPE (ftype ?f) = PB_HTYPE_REQUIRED \<or>
       PB_HTYPE (ftype ?f) = PB_HTYPE_OPTIONAL \<and> (p = pData it \<or> span p 1 \<subseteq> A)" .
    from p(3) show ?thesis
    proof (elim disjE conjE)
      assume "PB_HTYPE (ftype ?f) = PB_HTYPE_REQUIRED"
      then show ?thesis using item [OF p(2) ok] by (simp add: decode_static_field_def Let_def runs_keep_iter)
    next
      assume "PB_HTYPE (ftype ?f) = PB_HTYPE_OPTIONAL" "p = pData it"
      then show ?thesis using item [OF p(2) ok] p(1) by (simp add: decode_static_field_def Let_def runs_keep_iter)
    next
      assume opt: "PB_HTYPE (ftype ?f) = PB_HTYPE_OPTIONAL" "span p 1 \<subseteq> A"
      from store_typed_keeps(1) [OF st_ok_dom [OF ok] opt(2), of 1] obtain m1 where
        m1: "store_u8 (snd st) p 1 = Some m1" "keeps A (snd st) m1" by blast
      have "st_ok pend A (fst st, m1)" using st_ok_step [OF ok, of "(fst st, m1)"] m1(2) by simp
      from runs_after_mem [OF item [OF p(2) this] m1(2)] item [OF p(2) ok] show ?thesis
        using opt(1) p(1) m1(1) by (simp add: decode_static_field_def Let_def runs_keep_iter)
    qed
  next
    case ht: True
    show ?thesis
    proof (cases "wt = PB_WT_STRING \<and> PB_LTYPE (ftype ?f) \<le> PB_LTYPE_LAST_PACKABLE")
      case True
      have "eats pend A st1 (?func ?f a st1)"
        if a: "item_fits (msg_fits d0 A) A ?f a" "st_ok pend A st1" for a st1
      proof (rule eats_decoder [OF _ rd a(2)])
        have "PB_LTYPE (ftype ?f) \<noteq> PB_LTYPE_SUBMESSAGE" using True by auto
        then show "scalar_fits A ?f a" using a(1) by (simp add: item_fits_def)
      qed
      from runs_packed_static [where func = ?func, OF cur ht this ok rd] True ht show ?thesis
        by (simp add: decode_static_field_def Let_def)
    next
      case False
      from cursor_repeated(2) [OF cur ht st_ok_dom [OF ok]] obtain n where
        n: "size_get it fc (snd st) = Some n" by blast
      from cursor_repeated(3) [OF cur ht st_ok_dom [OF ok]] obtain fc1 m1 where
        m1: "size_set it (n + 1) fc (snd st) = Some (fc1, m1)" "keeps A (snd st) m1" by blast
      have "st_ok pend A (fst st, m1)" using st_ok_step [OF ok, of "(fst st, m1)"] m1(2) by simp
      then have "runs pend A (fst st, m1)
          (if n \<ge> array_size ?f then d_error E_array_overflow (fst st, m1)
           else keep_iter it fc1 (?func ?f (item_at (pData it) ?f n) (fst st, m1)))"
        using item cursor_repeated(1) [OF cur ht, of n] by (auto simp: runs_error not_le intro: runs_keep_iter)
      from runs_after_mem [OF this m1(2)] show ?thesis
        using False ht n m1(1) by (auto simp: decode_static_field_def Let_def)
    qed
  qed
qed

lemma packed_same:
  "decode_packed_static dc func it fc st = Some (Some (it', fc'), st') \<Longrightarrow> it' = it"
  by (auto simp: decode_packed_static_def c_try_eq_Some_Some d_error_def Option.bind_eq_Some_conv
      split: if_splits)

lemma static_same:
  assumes "cursor_fits sub A it"
    and "decode_static_field dc d noinit wt it fc st = Some (Some (it', fc'), st')"
  shows "it' = it"
proof -
  have "PB_HTYPE (ftype (it_field it)) = PB_HTYPE_REPEATED \<or> PB_HTYPE (ftype (it_field it)) = PB_HTYPE_REQUIRED \<or>
      PB_HTYPE (ftype (it_field it)) = PB_HTYPE_OPTIONAL"
    using cursor_single [OF assms(1)] by blast
  with assms(2) show ?thesis
    by (auto simp: decode_static_field_def Let_def d_error_def Option.bind_eq_Some_conv
        split: if_splits psize.splits dest: packed_same keep_iter_same)
qed

end

section \<open>The cursor of the message loop\<close>

text \<open>At the \<open>i\<close>-th field, possibly with the size pointer at the local count.\<close>

definition at_field :: "pb_field list \<Rightarrow> u64 \<Rightarrow> nat \<Rightarrow> pb_field_iter \<Rightarrow> bool" where
  "at_field fs dest i it \<longleftrightarrow> i < length fs \<and>
     (it = iter_nth fs dest i \<or>
      PB_HTYPE (ftype (fs ! i)) = PB_HTYPE_REPEATED \<and> it = (iter_nth fs dest i)\<lparr>pSize := FixedCountSize\<rparr>)"

lemma iter_next_pSize:
  assumes "tag (it_field it) \<noteq> 0" and "PB_HTYPE (ftype (it_field it)) \<noteq> PB_HTYPE_ONEOF"
  shows "pb_field_iter_next (it\<lparr>pSize := p\<rparr>) = pb_field_iter_next it"
  using assms by (simp add: pb_field_iter_next_def Let_def)

lemma at_field_pos:
  assumes "wf_fields fs" and "at_field fs dest i it"
  shows "i < length fs" and "it_start it = fs" and "it_pos it = i" and "it_field it = fs ! i"
    and "required_field_index it = required_field_index (iter_nth fs dest i)"
    and "pb_field_iter_next it = pb_field_iter_next (iter_nth fs dest i)"
proof -
  show i: "i < length fs" using assms(2) by (simp add: at_field_def)
  note pos = iter_nth_fields [OF assms(1) i, of dest]
  show "it_start it = fs" "it_pos it = i" "it_field it = fs ! i"
    "required_field_index it = required_field_index (iter_nth fs dest i)"
    using assms(2) pos by (auto simp: at_field_def field_at_in)
  show "pb_field_iter_next it = pb_field_iter_next (iter_nth fs dest i)"
    using assms(2) pos field_at_tag [OF assms(1), of i] i
    by (auto simp: at_field_def field_at_in intro!: iter_next_pSize)
qed

lemma at_field_search:
  assumes wf: "wf_fields fs" and at: "at_field fs dest i it"
  shows "\<exists>found it1. c_loop (iter_search_round P (it_pos it)) it = Some (found, it1) \<and>
    (\<exists>j. at_field fs dest j it1 \<and> (found \<longrightarrow> P (fs ! j))) \<and> (found \<longleftrightarrow> (\<exists>f \<in> set fs. P f))"
proof -
  note at' = at_field_pos [OF wf at]
  note pos = iter_nth_fields [OF wf at'(1), of dest]
  from iter_search_nth [OF wf at'(1), of P dest] obtain r where
    r: "c_loop (iter_search_round P i) (iter_nth fs dest i) = Some r"
      "if \<exists>f \<in> set fs. P f then \<exists>j < length fs. P (fs ! j) \<and> r = (True, iter_nth fs dest j)
       else r = (False, iter_nth fs dest i)" by blast
  show ?thesis
  proof (cases "P (fs ! i)")
    case True
    then have "c_loop (iter_search_round P (it_pos it)) it = Some (True, it)"
      using at'(3,4) by (intro c_loop_exit) (simp add: iter_search_round_def)
    then show ?thesis using at True nth_mem [OF at'(1)] by blast
  next
    case False
    have eq: "iter_search_round P i it = iter_search_round P i (iter_nth fs dest i)"
      using False at' pos by (simp add: iter_search_round_def field_at_in Let_def)
    have "c_loop (iter_search_round P i) it = c_loop (iter_search_round P i) (iter_nth fs dest i)"
      by (subst (1 2) c_loop.simps) (simp add: eq)
    then have loop: "c_loop (iter_search_round P (it_pos it)) it = Some r" using r(1) at'(3) by simp
    show ?thesis
    proof (cases "\<exists>f \<in> set fs. P f")
      case True
      with r(2) obtain j where j: "j < length fs" "P (fs ! j)" "r = (True, iter_nth fs dest j)" by auto
      then have "at_field fs dest j (iter_nth fs dest j)" by (simp add: at_field_def)
      with loop j True show ?thesis by blast
    next
      case none: False
      then have "r = (False, iter_nth fs dest i)" using r(2) by simp
      moreover have "at_field fs dest i (iter_nth fs dest i)" using at'(1) by (simp add: at_field_def)
      ultimately show ?thesis using loop none by blast
    qed
  qed
qed

lemma at_field_required_count:
  assumes wf: "wf_fields fs" and at: "at_field fs dest i it"
  shows "\<exists>n. required_count it = Some n"
proof -
  have "\<exists>r. c_loop required_round it = Some r \<and> True"
  proof (rule c_loop_total [where I = "\<lambda>it. \<exists>i. at_field fs dest i it" and m = "\<lambda>it. length fs - it_pos it"])
    show "\<exists>i. at_field fs dest i it" using at by blast
  next
    fix it1 assume "\<exists>i. at_field fs dest i it1"
    then obtain k where k: "at_field fs dest k it1" by blast
    note k' = at_field_pos [OF wf k]
    show "(\<exists>s'. required_round it1 = Some (Inl s') \<and> (\<exists>i. at_field fs dest i s') \<and>
        length fs - it_pos s' < length fs - it_pos it1) \<or> (\<exists>r. required_round it1 = Some (Inr r) \<and> True)"
    proof (cases "Suc k < length fs")
      case True
      then have "required_round it1 = Some (Inl (iter_nth fs dest (Suc k)))"
        using iter_next_nth [OF wf k'(1), of dest] k'(6) by (simp add: required_round_def)
      moreover have "at_field fs dest (Suc k) (iter_nth fs dest (Suc k))" using True by (simp add: at_field_def)
      moreover have "it_pos (iter_nth fs dest (Suc k)) = Suc k" using iter_nth_fields [OF wf True] by simp
      ultimately show ?thesis using k'(1,3) by (auto intro!: disjI1 exI)
    next
      case False
      then show ?thesis
        using iter_next_nth [OF wf k'(1), of dest] k'(6) by (simp add: required_round_def)
    qed
  qed
  then show ?thesis by (auto simp: required_count_def Let_def)
qed

lemma at_field_cursor:
  assumes fits: "msg_fits (Suc d) A fs dest" and at: "at_field fs dest i it"
  shows "cursor_fits (msg_fits d A) A it"
proof -
  have wf: "wf_fields fs" using fits by simp
  have i: "i < length fs" using at by (simp add: at_field_def)
  have fit: "iter_fits (msg_fits d A) A (iter_nth fs dest i)"
    using fits i by (simp add: iters_of_def)
  obtain p where p: "pSize (iter_nth fs dest i) = SizeAt p"
    using fit by (auto simp: iter_fits_def Let_def split: psize.splits)
  have "(iter_nth fs dest i)\<lparr>pSize := SizeAt p\<rparr> = iter_nth fs dest i"
    using p by (intro pb_field_iter.equality) simp_all
  then show ?thesis
    using at fit iter_nth_fields [OF wf i, of dest]
    by (auto simp: at_field_def cursor_fits_def field_at_in i intro!: exI [of _ p])
qed

lemma enter_fixed_count_at:
  assumes wf: "wf_fields fs" and at: "at_field fs dest i (n_iter ns)" and "enter_fixed_count ns = Some ns1"
  shows "at_field fs dest i (n_iter (mark_seen ns1))"
proof -
  have "n_iter ns1 = n_iter ns \<or> PB_HTYPE (ftype (it_field (n_iter ns))) = PB_HTYPE_REPEATED \<and>
      n_iter ns1 = (n_iter ns)\<lparr>pSize := FixedCountSize\<rparr>"
    using assms(3) by (auto simp: enter_fixed_count_def Let_def split: if_splits)
  moreover have "n_iter (mark_seen ns1) = n_iter ns1" by (simp add: mark_seen_def Let_def)
  ultimately show ?thesis
    using at at_field_pos(4) [OF wf at] by (auto simp: at_field_def)
qed

section \<open>The message loop\<close>

lemma decode_tag_small:
  assumes "pb_decode_tag rd s = Some (Some (wt, fn), eof, s')"
  shows "fn < 0x20000000"
proof -
  from assms obtain t where "fn = drop_bit 3 (t :: u32)"
    by (auto simp: pb_decode_tag_def Option.bind_eq_Some_conv split: option.splits if_splits)
  then have "unat fn = unat t div 8" by (simp add: drop_bit_eq_div unat_div)
  moreover have "unat t < 2 ^ 32" using unsigned_less [of t, where ?'a = nat] by simp
  ultimately show ?thesis by (simp add: word_less_nat_alt)
qed

context input_source
begin

text \<open>What a round of the loop gives from a state whose cursor is at a field.\<close>

definition goes :: "pb_field list \<Rightarrow> u64 \<Rightarrow> u64 set \<Rightarrow> dstate \<Rightarrow> noinit_state dresult \<Rightarrow> bool" where
  "goes fs dest A st res \<longleftrightarrow> runs pend A st res \<and>
     (\<forall>ns st'. res = Some (Some ns, st') \<longrightarrow> (\<exists>i. at_field fs dest i (n_iter ns)))"

lemma unknown_goes:
  assumes fits: "msg_fits (Suc d0) A fs dest" and rd: "dc_read dc = rd"
    and at: "at_field fs dest i (n_iter ns)" and ok: "st_ok pend A st" and small: "wanted < 0x20000000"
  shows "goes fs dest A st (decode_unknown dc d noinit wanted wt ns st)"
proof -
  have wf: "wf_fields fs" using fits by simp
  have "PB_LTYPE (ftype (fs ! j)) \<noteq> PB_LTYPE_EXTENSION" if "j < length fs" for j
  proof -
    have "at_field fs dest j (iter_nth fs dest j)" using that by (simp add: at_field_def)
    from cursor_static(2) [OF at_field_cursor [OF fits this]] at_field_pos(4) [OF wf this]
    show ?thesis by simp
  qed
  then have noext: "\<not> (\<exists>f \<in> set fs. PB_LTYPE (ftype f) = PB_LTYPE_EXTENSION)" by (metis in_set_conv_nth)
  from at_field_search [OF wf at, of "\<lambda>f. PB_LTYPE (ftype f) = PB_LTYPE_EXTENSION"] noext
  obtain it1 j where it1: "find_extension_field (n_iter ns) = Some (False, it1)" "at_field fs dest j it1"
    unfolding find_extension_field_def by auto
  have skip: "runs pend A st (on_stream (\<lambda>s. pb_skip_field (dc_read dc) s wt) st)"
    using ok unfolding rd by (intro runs_on_stream skip_field_safely) (simp add: st_ok_def)
  have "(0x20000000 :: u32) < - 1" by simp
  then have "wanted < - 1"
    using small by (rule less_trans [rotated])
  then have not: "\<not> - 1 \<le> wanted" by (simp add: not_le)
  have fin: "goes fs dest A st (c_try (on_stream (\<lambda>s. pb_skip_field (dc_read dc) s wt) st)
      (\<lambda>_ st2. Some (Some ns1, st2)))" if "at_field fs dest k (n_iter ns1)" for k ns1
    using that runs_try [OF skip, of "\<lambda>_ st2. Some (Some ns1, st2)"] runs_ret [OF within_refl]
    by (simp add: goes_def c_try_eq_Some_Some) blast
  show ?thesis
    using it1 fin [OF at] fin [of j "ns\<lparr>n_iter := it1, n_ext_start := - 1\<rparr>"] not
    by (auto simp: decode_unknown_def Let_def)
qed

lemma known_goes:
  assumes fits: "msg_fits (Suc d0) A fs dest" and d: "d0 \<le> d" and rd: "dc_read dc = rd"
    and noinit: "\<And>fs a st1. msg_fits d0 A fs a \<Longrightarrow> st_ok pend A st1 \<Longrightarrow> runs pend A st1 (noinit fs a st1)"
    and at: "at_field fs dest i (n_iter ns)" and ok: "st_ok pend A st"
  shows "goes fs dest A st (decode_known dc d noinit wt ns st)"
proof (cases "enter_fixed_count ns")
  case None
  then show ?thesis using runs_error by (simp add: decode_known_def goes_def d_error_def)
next
  case (Some ns1)
  have wf: "wf_fields fs" using fits by simp
  let ?ns = "mark_seen ns1"
  have at1: "at_field fs dest i (n_iter ?ns)" by (rule enter_fixed_count_at [OF wf at Some])
  note cur = at_field_cursor [OF fits at1]
  let ?res = "decode_field dc d noinit wt (n_iter ?ns) (n_fixed_size ?ns) st"
  have eq: "?res = decode_static_field dc d noinit wt (n_iter ?ns) (n_fixed_size ?ns) st"
    using cursor_static [OF cur] by (simp add: decode_field_def)
  have runs: "runs pend A st ?res"
    unfolding eq by (rule runs_static_field [OF cur d rd noinit ok])
  have same: "it = n_iter ?ns" if "?res = Some (Some (it, fc), st1)" for it fc st1
    using static_same [OF cur] that unfolding eq by blast
  have "runs pend A st (c_try ?res (\<lambda>(it, fc) st1. Some (Some (?ns\<lparr>n_iter := it, n_fixed_size := fc\<rparr>), st1)))"
    by (rule runs_try [OF runs]) (auto intro: runs_ret)
  moreover have "at_field fs dest i (n_iter ns2)"
    if "c_try ?res (\<lambda>(it, fc) st1. Some (Some (?ns\<lparr>n_iter := it, n_fixed_size := fc\<rparr>), st1)) = Some (Some ns2, st')"
    for ns2 st'
    using that same at1 by (auto simp: c_try_eq_Some_Some)
  ultimately show ?thesis
    using Some by (auto simp: decode_known_def goes_def Let_def)
qed

definition round_ok ::
  "pb_field list \<Rightarrow> u64 \<Rightarrow> u64 set \<Rightarrow> dstate \<Rightarrow>
   ((noinit_state \<times> dstate) + (noinit_state option \<times> dstate)) option \<Rightarrow> bool" where
  "round_ok fs dest A st res \<longleftrightarrow>
     (\<exists>ns' st'. res = Some (Inl (ns', st')) \<and>
       (\<exists>i. at_field fs dest i (n_iter ns')) \<and> moves pend (fst st) (fst st') \<and> keeps A (snd st) (snd st') \<and>
       unat (bytes_left (fst st')) < unat (bytes_left (fst st))) \<or>
     (\<exists>r st'. res = Some (Inr (r, st')) \<and> within pend (fst st) (fst st') \<and>
       (r \<noteq> None \<longrightarrow> moves pend (fst st) (fst st') \<and> (\<exists>i. at_field fs dest i (n_iter (the r)))) \<and>
       keeps A (snd st) (snd st'))"

lemma round_runs:
  assumes fits: "msg_fits (Suc d0) A fs dest" and d: "d0 \<le> d" and rd: "dc_read dc = rd"
    and noinit: "\<And>fs a st1. msg_fits d0 A fs a \<Longrightarrow> st_ok pend A st1 \<Longrightarrow> runs pend A st1 (noinit fs a st1)"
    and at: "at_field fs dest i (n_iter ns)" and ok: "st_ok pend A st"
  shows "round_ok fs dest A st (noinit_round dc d noinit (ns, st))"
proof (cases "bytes_left (fst st) = 0")
  case True
  then show ?thesis using at by (auto simp: round_ok_def noinit_round_def)
next
  case False
  have wf: "wf_fields fs" using fits by simp
  have sok: "stream_ok pend (fst st)" using ok by (simp add: st_ok_def)
  obtain r eof s1 where tag: "pb_decode_tag rd (fst st) = Some (r, eof, s1)" "moves pend (fst st) s1"
    "r \<noteq> None \<Longrightarrow> unat (bytes_left s1) < unat (bytes_left (fst st))" by (rule decode_tag_reads [OF sok]) blast
  show ?thesis
  proof (cases r)
    case None
    then show ?thesis
      using tag(1,2) at rd False
      by (auto simp: round_ok_def noinit_round_def intro: moves_within)
  next
    case (Some wf_tag)
    obtain wt wanted where wt: "wf_tag = (wt, wanted)" by (cases wf_tag)
    let ?P = "\<lambda>f. tag f = wanted \<and> PB_LTYPE (ftype f) \<noteq> PB_LTYPE_EXTENSION"
    from at_field_search [OF wf at, of ?P] obtain found it1 j where
      find: "pb_field_iter_find (n_iter ns) wanted = Some (found, it1)" "at_field fs dest j it1"
      unfolding pb_field_iter_find_def by blast
    have ok1: "st_ok pend A (s1, snd st)" using moves_st_ok [OF ok, of "(s1, snd st)"] tag(2) by simp
    let ?res = "if \<not> found then decode_unknown dc d noinit wanted wt (ns\<lparr>n_iter := it1\<rparr>) (s1, snd st)
      else decode_known dc d noinit wt (ns\<lparr>n_iter := it1\<rparr>) (s1, snd st)"
    have "wanted < 0x20000000" using decode_tag_small tag(1) Some wt by blast
    then have "goes fs dest A (s1, snd st) ?res"
      using unknown_goes [OF fits rd _ ok1, where i = j and ns = "ns\<lparr>n_iter := it1\<rparr>"]
        known_goes [OF fits d rd noinit _ ok1, where i = j and ns = "ns\<lparr>n_iter := it1\<rparr>"] find(2) by simp
    then obtain q st2 where st2: "?res = Some (q, st2)" "within pend s1 (fst st2)"
      "q \<noteq> None \<longrightarrow> moves pend s1 (fst st2)" "keeps A (snd st) (snd st2)"
      "q \<noteq> None \<longrightarrow> (\<exists>i. at_field fs dest i (n_iter (the q)))"
      by (auto simp: goes_def runs_def)
    have round: "noinit_round dc d noinit (ns, st) =
        Some (case q of None \<Rightarrow> Inr (None, st2) | Some ns2 \<Rightarrow> Inl (ns2, st2))"
      using False rd tag(1) Some wt find(1) st2(1) by (simp add: noinit_round_def)
    show ?thesis
    proof (cases q)
      case None
      with round st2 tag(2) show ?thesis by (auto simp: round_ok_def intro: within_trans moves_within)
    next
      case (Some ns2)
      have "unat (bytes_left (fst st2)) < unat (bytes_left (fst st))"
        using tag(3) \<open>r = Some wf_tag\<close> within_bytes_left [OF st2(2)] by simp
      with round st2 tag(2) Some show ?thesis by (auto simp: round_ok_def intro: moves_trans)
    qed
  qed
qed

lemma noinit_runs:
  "msg_fits d0 A fs dest \<Longrightarrow> d0 \<le> d \<Longrightarrow> dc_read dc = rd \<Longrightarrow> st_ok pend A st \<Longrightarrow>
   runs pend A st (pb_decode_noinit dc d fs dest st)"
proof (induction d0 arbitrary: d fs dest st)
  case (Suc d0)
  note fits = Suc.prems(1) and rd = Suc.prems(3) and ok = Suc.prems(4)
  obtain e where e: "d = Suc e" "d0 \<le> e" using Suc.prems(2) by (cases d) auto
  have wf: "wf_fields fs" and ne: "fs \<noteq> []" using fits by simp_all
  let ?noinit = "pb_decode_noinit dc e"
  have IH: "runs pend A st1 (?noinit fs a st1)" if "msg_fits d0 A fs a" "st_ok pend A st1" for fs a st1
    using Suc.IH [OF that(1) e(2) rd that(2)] .
  let ?start = "\<lparr>n_iter = snd (pb_field_iter_begin fs dest), n_seen0 = 0, n_seen1 = 0, n_ext_start = 0,
    n_fixed_field = None, n_fixed_size = 0\<rparr>"
  let ?I = "\<lambda>(ns :: noinit_state, st1). (\<exists>i. at_field fs dest i (n_iter ns)) \<and> moves pend (fst st) (fst st1) \<and>
    keeps A (snd st) (snd st1)"
  let ?Q = "\<lambda>(r :: noinit_state option, st1). within pend (fst st) (fst st1) \<and>
    (r \<noteq> None \<longrightarrow> moves pend (fst st) (fst st1) \<and> (\<exists>i. at_field fs dest i (n_iter (the r)))) \<and>
    keeps A (snd st) (snd st1)"
  have d0d: "d0 \<le> d" using e by simp
  have "\<exists>x. c_loop (noinit_round dc d ?noinit) (?start, st) = Some x \<and> ?Q x"
  proof (rule c_loop_total [where I = ?I and m = "\<lambda>(ns, st1). unat (bytes_left (fst st1))"])
    have "at_field fs dest 0 (iter_nth fs dest 0)" using ne by (simp add: at_field_def)
    then show "?I (?start, st)" by (auto simp: iter_nth.simps)
  next
    fix x assume "?I x"
    then obtain ns st1 i where x: "x = (ns, st1)" "at_field fs dest i (n_iter ns)"
      "moves pend (fst st) (fst st1)" "keeps A (snd st) (snd st1)" by (cases x) auto
    have ok1: "st_ok pend A st1" by (rule moves_st_ok [OF ok x(3,4)])
    have "round_ok fs dest A st1 (noinit_round dc d ?noinit (ns, st1))"
      by (rule round_runs [OF fits d0d rd _ x(2) ok1]) (rule IH)
    then show
      "(\<exists>s'. noinit_round dc d ?noinit x = Some (Inl s') \<and> ?I s' \<and>
          (case s' of (ns, st1) \<Rightarrow> unat (bytes_left (fst st1))) < (case x of (ns, st1) \<Rightarrow> unat (bytes_left (fst st1)))) \<or>
       (\<exists>r. noinit_round dc d ?noinit x = Some (Inr r) \<and> ?Q r)"
      unfolding x(1) using x(3,4) moves_within [OF x(3)]
      unfolding round_ok_def by (elim disjE) (auto intro: moves_trans within_trans keeps_trans)
  qed
  then obtain x where x: "c_loop (noinit_round dc d ?noinit) (?start, st) = Some x" "?Q x" by blast
  obtain r st1 where [simp]: "x = (r, st1)" by (cases x)
  from x have loop: "c_loop (noinit_round dc d ?noinit) (?start, st) = Some (r, st1)"
    "within pend (fst st) (fst st1)" "r \<noteq> None \<longrightarrow> moves pend (fst st) (fst st1)"
    "r \<noteq> None \<longrightarrow> (\<exists>i. at_field fs dest i (n_iter (the r)))"
    "keeps A (snd st) (snd st1)" by simp_all
  have "runs pend A st (c_try (c_loop (noinit_round dc d ?noinit) (?start, st)) noinit_finish)"
  proof (rule runs_try)
    show "runs pend A st (c_loop (noinit_round dc d ?noinit) (?start, st))" using loop by (simp add: runs_def)
  next
    fix ns st2 assume "c_loop (noinit_round dc d ?noinit) (?start, st) = Some (Some ns, st2)"
    then obtain i where "at_field fs dest i (n_iter ns)" using loop by auto
    from at_field_required_count [OF wf this] obtain n where "required_count (n_iter ns) = Some n" by blast
    then show "runs pend A st2 (noinit_finish ns st2)"
      by (auto simp: noinit_finish_def runs_error intro: runs_ret)
  qed
  then show ?case unfolding e(1) by (simp add: noinit_step_def)
qed simp

text \<open>The safety of \<open>pb_decode\<close>.\<close>

lemma decode_runs:
  assumes "msg_fits d A fs dest" and "dc_read dc = rd" and "st_ok pend A st"
  shows "runs pend A st (pb_decode dc d fs dest st)"
  unfolding pb_decode_def
  by (rule runs_decode_with [OF assms(1) order_refl _ assms(3)]) (rule noinit_runs [OF assms(1) order_refl assms(2)])

end

end
