(* ===== verification/Pb_Encode.thy ===== *)
theory Pb_Encode
  imports Pb_Tokens Pb_Common Memory
begin

text \<open>
  The message encoder of \<open>nanopb/pb_encode.c\<close>, function by function. It reads the message
  structure from memory and does not change it. The context holds that memory and what the
  library's user supplies: the callback of a user's stream, the encode callbacks (by function
  address), the extension types (by address) and their encoders. The recursion into submessages
  carries a depth bound: \<open>pb_encode 0\<close> is undefined.
\<close>

section \<open>Context\<close>

record enc_ctx =
  ec_write :: user_write
  ec_mem :: memory
  ec_callback :: "u64 \<Rightarrow> pb_field \<Rightarrow> u64 \<Rightarrow> pb_ostream \<Rightarrow> oresult"
  ec_exttype :: "u64 \<Rightarrow> pb_extension_type option"
  ec_extencode :: "u64 \<Rightarrow> u64 \<Rightarrow> pb_ostream \<Rightarrow> oresult"

type_synonym msg_encoder = "pb_field list \<Rightarrow> u64 \<Rightarrow> pb_ostream \<Rightarrow> oresult"
type_synonym field_encoder = "pb_field \<Rightarrow> u64 \<Rightarrow> pb_ostream \<Rightarrow> oresult"

section \<open>Reading the message\<close>

definition safe_read_bool :: "memory \<Rightarrow> u64 \<Rightarrow> bool option" where
  "safe_read_bool m a = map_option (\<lambda>b. b \<noteq> 0) (load_u8 m a)"

text \<open>The byte-per-byte comparison with zero.\<close>

primrec bytes_zero :: "memory \<Rightarrow> u64 \<Rightarrow> nat \<Rightarrow> bool option" where
  "bytes_zero m p 0 = Some True"
| "bytes_zero m p (Suc n) =
     (case load_u8 m p of
        None \<Rightarrow> None
      | Some b \<Rightarrow> if b \<noteq> 0 then Some False else bytes_zero m (p + 1) n)"

text \<open>The loop over the fields of a submessage: true if no field is set.\<close>

definition proto3_fields_round ::
  "(pb_field \<Rightarrow> u64 \<Rightarrow> bool option) \<Rightarrow> pb_field_iter \<Rightarrow> (pb_field_iter + bool) option" where
  "proto3_fields_round check it =
     (case check (it_field it) (pData it) of
        None \<Rightarrow> None
      | Some b \<Rightarrow>
          if \<not> b then Some (Inr False)
          else (case pb_field_iter_next it of
                  (True, it1) \<Rightarrow> Some (Inl it1)
                | (False, it1) \<Rightarrow> Some (Inr True)))"

definition proto3_singular_default ::
  "(pb_field \<Rightarrow> u64 \<Rightarrow> bool option) \<Rightarrow> memory \<Rightarrow> pb_field \<Rightarrow> u64 \<Rightarrow> bool option" where
  "proto3_singular_default check m field pd =
     (let ty = ftype field in
      if PB_ATYPE ty = PB_ATYPE_STATIC \<and> PB_LTYPE ty = PB_LTYPE_BYTES
      then map_option (\<lambda>n. n = 0) (load_u32 m pd)
      else if PB_ATYPE ty = PB_ATYPE_STATIC \<and> PB_LTYPE ty = PB_LTYPE_STRING
      then map_option (\<lambda>b. b = 0) (load_u8 m pd)
      else if PB_ATYPE ty = PB_ATYPE_STATIC \<and> PB_LTYPE ty = PB_LTYPE_FIXED_LENGTH_BYTES
      then Some (data_size field = 0)
      else if PB_ATYPE ty = PB_ATYPE_STATIC \<and> PB_LTYPE ty = PB_LTYPE_SUBMESSAGE
      then (case fptr field of
              PtrFields fs \<Rightarrow>
                (let (nonempty, it) = pb_field_iter_begin fs pd
                 in if nonempty then c_loop (proto3_fields_round check) it else Some True)
            | _ \<Rightarrow> None)
      else if PB_ATYPE ty = PB_ATYPE_POINTER \<and> PB_LTYPE ty > PB_LTYPE_LAST_PACKABLE
      then map_option (\<lambda>p. p = 0) (load_u64 m pd)
      else bytes_zero m pd (unat (data_size field)))"

definition proto3_default_step ::
  "(pb_field \<Rightarrow> u64 \<Rightarrow> bool option) \<Rightarrow> memory \<Rightarrow> pb_field \<Rightarrow> u64 \<Rightarrow> bool option" where
  "proto3_default_step check m field pd =
     (let ty = ftype field; ps = pd + scast (size_offset field) in
      if PB_HTYPE ty = PB_HTYPE_REQUIRED then Some False
      else if PB_HTYPE ty = PB_HTYPE_REPEATED \<and> size_offset field \<noteq> 0
      then map_option (\<lambda>n. n = 0) (load_u32 m ps)
      else if PB_HTYPE ty = PB_HTYPE_REPEATED \<and> PB_ATYPE ty = PB_ATYPE_STATIC then Some False
      else if PB_HTYPE ty = PB_HTYPE_ONEOF
      then map_option (\<lambda>n. n = 0) (load_u32 m ps)
      else if PB_HTYPE ty = PB_HTYPE_OPTIONAL \<and> size_offset field \<noteq> 0
      then map_option Not (safe_read_bool m ps)
      else proto3_singular_default check m field pd)"

primrec pb_check_proto3_default_value :: "nat \<Rightarrow> memory \<Rightarrow> pb_field \<Rightarrow> u64 \<Rightarrow> bool option" where
  "pb_check_proto3_default_value 0 m = (\<lambda>field pd. None)"
| "pb_check_proto3_default_value (Suc d) m =
     proto3_default_step (pb_check_proto3_default_value d m) m"

section \<open>Field encoders\<close>

definition pb_enc_bool :: "enc_ctx \<Rightarrow> field_encoder" where
  "pb_enc_bool ec field src s = do {
     b \<leftarrow> safe_read_bool (ec_mem ec) src;
     pb_encode_varint (ec_write ec) s (if b then 1 else 0)
   }"

definition pb_enc_varint :: "enc_ctx \<Rightarrow> field_encoder" where
  "pb_enc_varint ec field src s =
     (if data_size field = 1
      then do { v \<leftarrow> load_u8 (ec_mem ec) src; pb_encode_varint (ec_write ec) s (scast v) }
      else if data_size field = 2
      then do { v \<leftarrow> load_u16 (ec_mem ec) src; pb_encode_varint (ec_write ec) s (scast v) }
      else if data_size field = 4
      then do { v \<leftarrow> load_u32 (ec_mem ec) src; pb_encode_varint (ec_write ec) s (scast v) }
      else if data_size field = 8
      then do { v \<leftarrow> load_u64 (ec_mem ec) src; pb_encode_varint (ec_write ec) s v }
      else Some (None, o_error E_invalid_data_size s))"

definition pb_enc_uvarint :: "enc_ctx \<Rightarrow> field_encoder" where
  "pb_enc_uvarint ec field src s =
     (if data_size field = 1
      then do { v \<leftarrow> load_u8 (ec_mem ec) src; pb_encode_varint (ec_write ec) s (ucast v) }
      else if data_size field = 2
      then do { v \<leftarrow> load_u16 (ec_mem ec) src; pb_encode_varint (ec_write ec) s (ucast v) }
      else if data_size field = 4
      then do { v \<leftarrow> load_u32 (ec_mem ec) src; pb_encode_varint (ec_write ec) s (ucast v) }
      else if data_size field = 8
      then do { v \<leftarrow> load_u64 (ec_mem ec) src; pb_encode_varint (ec_write ec) s v }
      else Some (None, o_error E_invalid_data_size s))"

definition pb_enc_svarint :: "enc_ctx \<Rightarrow> field_encoder" where
  "pb_enc_svarint ec field src s =
     (if data_size field = 1
      then do { v \<leftarrow> load_u8 (ec_mem ec) src; pb_encode_svarint (ec_write ec) s (scast v) }
      else if data_size field = 2
      then do { v \<leftarrow> load_u16 (ec_mem ec) src; pb_encode_svarint (ec_write ec) s (scast v) }
      else if data_size field = 4
      then do { v \<leftarrow> load_u32 (ec_mem ec) src; pb_encode_svarint (ec_write ec) s (scast v) }
      else if data_size field = 8
      then do { v \<leftarrow> load_u64 (ec_mem ec) src; pb_encode_svarint (ec_write ec) s v }
      else Some (None, o_error E_invalid_data_size s))"

definition pb_enc_fixed64 :: "enc_ctx \<Rightarrow> field_encoder" where
  "pb_enc_fixed64 ec field src s = do {
     v \<leftarrow> load_u64 (ec_mem ec) src;
     pb_encode_fixed64 (ec_write ec) s v
   }"

definition pb_enc_fixed32 :: "enc_ctx \<Rightarrow> field_encoder" where
  "pb_enc_fixed32 ec field src s = do {
     v \<leftarrow> load_u32 (ec_mem ec) src;
     pb_encode_fixed32 (ec_write ec) s v
   }"

text \<open>The bytes behind a pointer are only read when they are written out.\<close>

definition pb_enc_bytes :: "enc_ctx \<Rightarrow> field_encoder" where
  "pb_enc_bytes ec field src s =
     (if src = 0 then pb_encode_string (ec_write ec) s None 0
      else do {
        sz \<leftarrow> load_u32 (ec_mem ec) src;
        if PB_ATYPE (ftype field) = PB_ATYPE_STATIC \<and> ucast sz > (ucast (data_size field) - 4 :: u64)
        then Some (None, o_error E_bytes_size_exceeded s)
        else pb_encode_string (ec_write ec) s (load (ec_mem ec) (src + 4) (unat sz)) (ucast sz)
      })"

definition strnlen_round :: "memory \<Rightarrow> u64 \<Rightarrow> u64 \<times> u64 \<Rightarrow> ((u64 \<times> u64) + u64) option" where
  "strnlen_round m max_sz = (\<lambda>(sz, p).
     if sz < max_sz
     then do {
       b \<leftarrow> load_u8 m p;
       if b \<noteq> 0 then Some (Inl (sz + 1, p + 1)) else Some (Inr sz)
     }
     else Some (Inr sz))"

definition pb_enc_string :: "enc_ctx \<Rightarrow> field_encoder" where
  "pb_enc_string ec field src s =
     (let max_sz = (if PB_ATYPE (ftype field) = PB_ATYPE_POINTER then - 1
                    else ucast (data_size field))
      in if src = 0 then pb_encode_string (ec_write ec) s None 0
         else do {
           sz \<leftarrow> c_loop (strnlen_round (ec_mem ec) max_sz) (0, src);
           pb_encode_string (ec_write ec) s (load (ec_mem ec) src (unat sz)) sz
         })"

definition pb_enc_fixed_length_bytes :: "enc_ctx \<Rightarrow> field_encoder" where
  "pb_enc_fixed_length_bytes ec field src s =
     pb_encode_string (ec_write ec) s (load (ec_mem ec) src (unat (data_size field)))
       (ucast (data_size field))"

section \<open>Submessages\<close>

definition pb_encode_submessage :: "enc_ctx \<Rightarrow> msg_encoder \<Rightarrow> msg_encoder" where
  "pb_encode_submessage ec enc fs src s = do {
     (r, sub) \<leftarrow> enc fs src PB_OSTREAM_SIZING;
     (case r of
        None \<Rightarrow> Some (None, s\<lparr>o_errmsg := o_errmsg sub\<rparr>)
      | Some _ \<Rightarrow>
          let sz = bytes_written sub
          in c_try (pb_encode_varint (ec_write ec) s sz)
               (\<lambda>_ s1.
                  if o_callback s1 = O_null then pb_write (ec_write ec) s1 None sz
                  else if bytes_written s1 + sz > max_size s1
                  then Some (None, o_error E_stream_full s1)
                  else do {
                    (status, sub2) \<leftarrow> enc fs src
                      \<lparr>o_callback = o_callback s1, o_state = o_state s1, o_room = o_room s1,
                       max_size = sz, bytes_written = 0, o_errmsg = None\<rparr>;
                    let s2 = s1\<lparr>bytes_written := bytes_written s1 + bytes_written sub2,
                                o_state := o_state sub2, o_room := o_room sub2,
                                o_errmsg := o_errmsg sub2\<rparr>
                    in if bytes_written sub2 \<noteq> sz
                       then Some (None, o_error E_submsg_size_changed s2)
                       else Some (status, s2)
                  }))
   }"

definition pb_enc_submessage :: "enc_ctx \<Rightarrow> msg_encoder \<Rightarrow> field_encoder" where
  "pb_enc_submessage ec enc field src s =
     (case fptr field of
        PtrNull \<Rightarrow> Some (None, o_error E_invalid_field_descriptor s)
      | PtrFields fs \<Rightarrow> pb_encode_submessage ec enc fs src s
      | PtrData _ \<Rightarrow> None)"

text \<open>\<open>PB_ENCODERS\<close>: null for extensions; an index past the end of the table is undefined.\<close>

definition PB_ENCODERS :: "enc_ctx \<Rightarrow> msg_encoder \<Rightarrow> u8 \<Rightarrow> field_encoder option" where
  "PB_ENCODERS ec enc lt =
     (if lt = PB_LTYPE_BOOL then Some (pb_enc_bool ec)
      else if lt = PB_LTYPE_VARINT then Some (pb_enc_varint ec)
      else if lt = PB_LTYPE_UVARINT then Some (pb_enc_uvarint ec)
      else if lt = PB_LTYPE_SVARINT then Some (pb_enc_svarint ec)
      else if lt = PB_LTYPE_FIXED32 then Some (pb_enc_fixed32 ec)
      else if lt = PB_LTYPE_FIXED64 then Some (pb_enc_fixed64 ec)
      else if lt = PB_LTYPE_BYTES then Some (pb_enc_bytes ec)
      else if lt = PB_LTYPE_STRING then Some (pb_enc_string ec)
      else if lt = PB_LTYPE_SUBMESSAGE then Some (pb_enc_submessage ec enc)
      else if lt = PB_LTYPE_FIXED_LENGTH_BYTES then Some (pb_enc_fixed_length_bytes ec)
      else None)"

definition call_encoder :: "field_encoder option \<Rightarrow> field_encoder" where
  "call_encoder func field src s =
     (case func of None \<Rightarrow> None | Some f \<Rightarrow> f field src s)"

section \<open>Fields\<close>

text \<open>The two loops over the entries of an array.\<close>

primrec enc_items :: "(u64 \<Rightarrow> pb_ostream \<Rightarrow> oresult) \<Rightarrow> u64 \<Rightarrow> nat \<Rightarrow> u64 \<Rightarrow> pb_ostream \<Rightarrow> oresult" where
  "enc_items item sz 0 p s = Some (Some (), s)"
| "enc_items item sz (Suc n) p s = c_try (item p s) (\<lambda>_ s1. enc_items item sz n (p + sz) s1)"

definition enc_unpacked_item :: "enc_ctx \<Rightarrow> pb_field \<Rightarrow> field_encoder \<Rightarrow> u64 \<Rightarrow> pb_ostream \<Rightarrow> oresult" where
  "enc_unpacked_item ec field func p s =
     c_try (pb_encode_tag_for_field (ec_write ec) s field)
       (\<lambda>_ s1.
          if PB_ATYPE (ftype field) = PB_ATYPE_POINTER \<and>
             (PB_LTYPE (ftype field) = PB_LTYPE_STRING \<or> PB_LTYPE (ftype field) = PB_LTYPE_BYTES)
          then do { q \<leftarrow> load_u64 (ec_mem ec) p; func field q s1 }
          else func field p s1)"

text \<open>The size of a packed array; a failing \<open>func\<close> fails the function with nothing recorded
  in the caller's stream.\<close>

definition packed_size :: "enc_ctx \<Rightarrow> pb_field \<Rightarrow> field_encoder \<Rightarrow> u64 \<Rightarrow> nat \<Rightarrow> u64 option option" where
  "packed_size ec field func pd count =
     (if PB_LTYPE (ftype field) = PB_LTYPE_FIXED32 then Some (Some (4 * of_nat count))
      else if PB_LTYPE (ftype field) = PB_LTYPE_FIXED64 then Some (Some (8 * of_nat count))
      else do {
        (r, sizestream) \<leftarrow>
          enc_items (func field) (ucast (data_size field)) count pd PB_OSTREAM_SIZING;
        Some (map_option (\<lambda>_. bytes_written sizestream) r)
      })"

definition encode_array ::
  "enc_ctx \<Rightarrow> pb_field \<Rightarrow> u64 \<Rightarrow> u32 \<Rightarrow> field_encoder \<Rightarrow> pb_ostream \<Rightarrow> oresult" where
  "encode_array ec field pd count func s =
     (if count = 0 then Some (Some (), s)
      else if PB_ATYPE (ftype field) \<noteq> PB_ATYPE_POINTER \<and> count > array_size field
      then Some (None, o_error E_array_max_size_exceeded s)
      else if PB_LTYPE (ftype field) \<le> PB_LTYPE_LAST_PACKABLE
      then c_try (pb_encode_tag (ec_write ec) s PB_WT_STRING (tag field))
        (\<lambda>_ s1. do {
           r \<leftarrow> packed_size ec field func pd (unat count);
           (case r of
              None \<Rightarrow> Some (None, s1)
            | Some sz \<Rightarrow>
                c_try (pb_encode_varint (ec_write ec) s1 sz)
                  (\<lambda>_ s2.
                     if o_callback s2 = O_null then pb_write (ec_write ec) s2 None sz
                     else enc_items (func field) (ucast (data_size field)) (unat count) pd s2))
         })
      else enc_items (enc_unpacked_item ec field func) (ucast (data_size field)) (unat count) pd s)"

text \<open>\<open>pSize\<close> of \<open>encode_basic_field\<close> points into the structure or at the local
  \<open>implicit_has\<close>, one byte.\<close>

definition read_has :: "memory \<Rightarrow> pb_field \<Rightarrow> u64 \<Rightarrow> bool \<Rightarrow> bool option" where
  "read_has m field pd implicit_has =
     (if size_offset field \<noteq> 0 then safe_read_bool m (pd + scast (size_offset field))
      else Some implicit_has)"

definition read_size :: "memory \<Rightarrow> pb_field \<Rightarrow> u64 \<Rightarrow> u32 option" where
  "read_size m field pd =
     (if size_offset field \<noteq> 0 then load_u32 m (pd + scast (size_offset field)) else None)"

definition encode_tag_and_value ::
  "enc_ctx \<Rightarrow> field_encoder \<Rightarrow> field_encoder" where
  "encode_tag_and_value ec func field pd s =
     c_try (pb_encode_tag_for_field (ec_write ec) s field) (\<lambda>_ s1. func field pd s1)"

definition implicit_presence :: "nat \<Rightarrow> memory \<Rightarrow> pb_field \<Rightarrow> u64 \<Rightarrow> bool option" where
  "implicit_presence d m field pd =
     (if size_offset field \<noteq> 0 then Some False
      else if PB_HTYPE (ftype field) = PB_HTYPE_OPTIONAL
      then map_option Not (pb_check_proto3_default_value d m field pd)
      else Some True)"

definition encode_basic_field :: "enc_ctx \<Rightarrow> nat \<Rightarrow> msg_encoder \<Rightarrow> field_encoder" where
  "encode_basic_field ec d enc field pd s =
     (let ty = ftype field; m = ec_mem ec;
          func = call_encoder (PB_ENCODERS ec enc (PB_LTYPE ty))
      in do {
        has0 \<leftarrow> implicit_presence d m field pd;
        pd1 \<leftarrow> (if PB_ATYPE ty = PB_ATYPE_POINTER then load_u64 m pd else Some pd);
        let has1 = (if PB_ATYPE ty = PB_ATYPE_POINTER then pd1 \<noteq> 0 else has0)
        in if PB_HTYPE ty = PB_HTYPE_REQUIRED
           then if pd1 = 0 then Some (None, o_error E_missing_required_field s)
                else encode_tag_and_value ec func field pd1 s
           else if PB_HTYPE ty = PB_HTYPE_OPTIONAL
           then do {
             has \<leftarrow> read_has m field pd has1;
             if has then encode_tag_and_value ec func field pd1 s else Some (Some (), s)
           }
           else if PB_HTYPE ty = PB_HTYPE_REPEATED
           then do {
             count \<leftarrow> (if size_offset field \<noteq> 0 then read_size m field pd
                       else Some (array_size field));
             encode_array ec field pd1 count func s
           }
           else do {
             which \<leftarrow> read_size m field pd;
             if which = tag field then encode_tag_and_value ec func field pd1 s
             else Some (Some (), s)
           }
      })"

definition encode_callback_field :: "enc_ctx \<Rightarrow> field_encoder" where
  "encode_callback_field ec field pd s = do {
     fn \<leftarrow> load_u64 (ec_mem ec) pd;
     if fn \<noteq> 0
     then do {
       (r, s1) \<leftarrow> ec_callback ec fn field (pd + 8) s;
       (case r of None \<Rightarrow> Some (None, o_error E_callback_error s1) | Some _ \<Rightarrow> Some (Some (), s1))
     }
     else Some (Some (), s)
   }"

definition encode_field :: "enc_ctx \<Rightarrow> nat \<Rightarrow> msg_encoder \<Rightarrow> field_encoder" where
  "encode_field ec d enc field pd s =
     (if PB_ATYPE (ftype field) = PB_ATYPE_STATIC \<or> PB_ATYPE (ftype field) = PB_ATYPE_POINTER
      then encode_basic_field ec d enc field pd s
      else if PB_ATYPE (ftype field) = PB_ATYPE_CALLBACK then encode_callback_field ec field pd s
      else Some (None, o_error E_invalid_field_type s))"

section \<open>Extensions\<close>

definition default_extension_encoder ::
  "enc_ctx \<Rightarrow> nat \<Rightarrow> msg_encoder \<Rightarrow> pb_extension_type \<Rightarrow> u64 \<Rightarrow> pb_ostream \<Rightarrow> oresult" where
  "default_extension_encoder ec d enc xt ext s =
     (let field = field_at (xt_arg xt) 0
      in if PB_ATYPE (ftype field) = PB_ATYPE_POINTER
         then encode_field ec d enc field (ext_dest ext) s
         else do {
           dest \<leftarrow> load_u64 (ec_mem ec) (ext_dest ext);
           encode_field ec d enc field dest s
         })"

definition encode_extension_round ::
  "enc_ctx \<Rightarrow> nat \<Rightarrow> msg_encoder \<Rightarrow> u64 \<times> pb_ostream \<Rightarrow>
   ((u64 \<times> pb_ostream) + (unit option \<times> pb_ostream)) option" where
  "encode_extension_round ec d enc = (\<lambda>(ext, s).
     if ext = 0 then Some (Inr (Some (), s))
     else do {
       ta \<leftarrow> load_u64 (ec_mem ec) ext;
       xt \<leftarrow> ec_exttype ec ta;
       (status, s1) \<leftarrow>
         (if xt_encode xt \<noteq> 0 then ec_extencode ec (xt_encode xt) ext s
          else default_extension_encoder ec d enc xt ext s);
       (case status of
          None \<Rightarrow> Some (Inr (None, s1))
        | Some _ \<Rightarrow> do {
            nxt \<leftarrow> load_u64 (ec_mem ec) (ext_next ext);
            Some (Inl (nxt, s1))
          })
     })"

definition encode_extension_field :: "enc_ctx \<Rightarrow> nat \<Rightarrow> msg_encoder \<Rightarrow> field_encoder" where
  "encode_extension_field ec d enc field pd s = do {
     ext \<leftarrow> load_u64 (ec_mem ec) pd;
     c_loop (encode_extension_round ec d enc) (ext, s)
   }"

section \<open>Messages\<close>

definition encode_message_field ::
  "enc_ctx \<Rightarrow> nat \<Rightarrow> msg_encoder \<Rightarrow> pb_field_iter \<Rightarrow> pb_ostream \<Rightarrow> oresult" where
  "encode_message_field ec d enc it s =
     (if PB_LTYPE (ftype (it_field it)) = PB_LTYPE_EXTENSION
      then encode_extension_field ec d enc (it_field it) (pData it) s
      else encode_field ec d enc (it_field it) (pData it) s)"

primrec pb_encode :: "enc_ctx \<Rightarrow> nat \<Rightarrow> msg_encoder" where
  "pb_encode ec 0 = (\<lambda>fs src s. None)"
| "pb_encode ec (Suc d) =
     (\<lambda>fs src s. for_each_field (encode_message_field ec (Suc d) (pb_encode ec d)) fs src s)"

definition pb_encode_delimited :: "enc_ctx \<Rightarrow> nat \<Rightarrow> msg_encoder" where
  "pb_encode_delimited ec d fs src s = pb_encode_submessage ec (pb_encode ec d) fs src s"

definition pb_encode_nullterminated :: "enc_ctx \<Rightarrow> nat \<Rightarrow> msg_encoder" where
  "pb_encode_nullterminated ec d fs src s =
     c_try (pb_encode ec d fs src s) (\<lambda>_ s1. pb_write (ec_write ec) s1 (Some [0]) 1)"

definition pb_get_encoded_size :: "enc_ctx \<Rightarrow> nat \<Rightarrow> pb_field list \<Rightarrow> u64 \<Rightarrow> u64 option option" where
  "pb_get_encoded_size ec d fs src = do {
     (r, s) \<leftarrow> pb_encode ec d fs src PB_OSTREAM_SIZING;
     Some (map_option (\<lambda>_. bytes_written s) r)
   }"

end
