(* ===== verification/Pb_Enc_Spec.thy ===== *)
theory Pb_Enc_Spec
  imports Pb_Encode
begin

text \<open>
  The wire form of a message, as a function of the memory it lies in: no streams, no size
  calculation in a first pass, no buffers. The encoder is then shown to refine it: on a sizing
  stream it counts exactly these bytes, on a stream with room it writes exactly them, and on a
  stream that is too small it writes a prefix of them and reports "stream full".
\<close>

section \<open>The bytes of values\<close>

record enc_spec =
  es_ctx :: enc_ctx
  es_callback :: "u64 \<Rightarrow> pb_field \<Rightarrow> u64 \<Rightarrow> u8 list option"
  es_extencode :: "u64 \<Rightarrow> u64 \<Rightarrow> u8 list option"
  es_chain :: nat

abbreviation es_mem :: "enc_spec \<Rightarrow> memory" where
  "es_mem sp \<equiv> ec_mem (es_ctx sp)"

type_synonym msg_spec = "pb_field list \<Rightarrow> u64 \<Rightarrow> u8 list option"

definition tag_bytes :: "pb_wire_type \<Rightarrow> u32 \<Rightarrow> u8 list" where
  "tag_bytes w fn = varint_spec (unat fn * 8 + unat w)"

definition delimited :: "u8 list \<Rightarrow> u8 list" where
  "delimited bs = varint_spec (length bs) @ bs"

definition scalar_at :: "bool \<Rightarrow> memory \<Rightarrow> u32 \<Rightarrow> u64 \<Rightarrow> u64 option" where
  "scalar_at sg m n a =
     (if n = 1 then map_option (\<lambda>v. if sg then scast v else ucast v) (load_u8 m a)
      else if n = 2 then map_option (\<lambda>v. if sg then scast v else ucast v) (load_u16 m a)
      else if n = 4 then map_option (\<lambda>v. if sg then scast v else ucast v) (load_u32 m a)
      else if n = 8 then load_u64 m a else None)"

definition zigzag :: "u64 \<Rightarrow> u64" where
  "zigzag v = (if v <s 0 then NOT (push_bit 1 v) else push_bit 1 v)"

definition bytes_at :: "memory \<Rightarrow> pb_field \<Rightarrow> u64 \<Rightarrow> u8 list option" where
  "bytes_at m f a =
     (if a = 0 then Some []
      else do {
        n \<leftarrow> load_u32 m a;
        if PB_ATYPE (ftype f) = PB_ATYPE_STATIC \<and> ucast n > (ucast (data_size f) - 4 :: u64) then None
        else load m (a + 4) (unat n)
      })"

definition string_at :: "memory \<Rightarrow> pb_field \<Rightarrow> u64 \<Rightarrow> u8 list option" where
  "string_at m f a =
     (if a = 0 then Some []
      else do {
        n \<leftarrow> c_loop (strnlen_round m
                (if PB_ATYPE (ftype f) = PB_ATYPE_POINTER then - 1 else ucast (data_size f))) (0, a);
        load m a (unat n)
      })"

definition value_bytes :: "memory \<Rightarrow> msg_spec \<Rightarrow> pb_field \<Rightarrow> u64 \<Rightarrow> u8 list option" where
  "value_bytes m msg f a =
     (let lt = PB_LTYPE (ftype f) in
      if lt = PB_LTYPE_BOOL then map_option (\<lambda>b. varint_spec (if b then 1 else 0)) (safe_read_bool m a)
      else if lt = PB_LTYPE_VARINT
      then map_option (\<lambda>v. varint_spec (unat v)) (scalar_at True m (data_size f) a)
      else if lt = PB_LTYPE_UVARINT
      then map_option (\<lambda>v. varint_spec (unat v)) (scalar_at False m (data_size f) a)
      else if lt = PB_LTYPE_SVARINT
      then map_option (\<lambda>v. varint_spec (unat (zigzag v))) (scalar_at True m (data_size f) a)
      else if lt = PB_LTYPE_FIXED32 then load m a 4
      else if lt = PB_LTYPE_FIXED64 then load m a 8
      else if lt = PB_LTYPE_BYTES then map_option delimited (bytes_at m f a)
      else if lt = PB_LTYPE_STRING then map_option delimited (string_at m f a)
      else if lt = PB_LTYPE_SUBMESSAGE
      then (case fptr f of PtrFields fs \<Rightarrow> map_option delimited (msg fs a) | _ \<Rightarrow> None)
      else if lt = PB_LTYPE_FIXED_LENGTH_BYTES
      then map_option delimited (load m a (unat (data_size f)))
      else None)"

section \<open>The bytes of fields and messages\<close>

definition keyed_bytes :: "memory \<Rightarrow> msg_spec \<Rightarrow> pb_field \<Rightarrow> u64 \<Rightarrow> u8 list option" where
  "keyed_bytes m msg f a = do {
     w \<leftarrow> wire_type_of_ltype (PB_LTYPE (ftype f));
     v \<leftarrow> value_bytes m msg f a;
     Some (tag_bytes w (tag f) @ v)
   }"

primrec items_bytes :: "(u64 \<Rightarrow> u8 list option) \<Rightarrow> u64 \<Rightarrow> nat \<Rightarrow> u64 \<Rightarrow> u8 list option" where
  "items_bytes item sz 0 p = Some []"
| "items_bytes item sz (Suc n) p = do {
     x \<leftarrow> item p;
     xs \<leftarrow> items_bytes item sz n (p + sz);
     Some (x @ xs)
   }"

definition item_address :: "memory \<Rightarrow> pb_field \<Rightarrow> u64 \<Rightarrow> u64 option" where
  "item_address m f p =
     (if PB_ATYPE (ftype f) = PB_ATYPE_POINTER \<and>
         (PB_LTYPE (ftype f) = PB_LTYPE_STRING \<or> PB_LTYPE (ftype f) = PB_LTYPE_BYTES)
      then load_u64 m p else Some p)"

definition array_bytes :: "memory \<Rightarrow> msg_spec \<Rightarrow> pb_field \<Rightarrow> u64 \<Rightarrow> u32 \<Rightarrow> u8 list option" where
  "array_bytes m msg f a count =
     (if count = 0 then Some []
      else if PB_ATYPE (ftype f) \<noteq> PB_ATYPE_POINTER \<and> count > array_size f then None
      else if PB_LTYPE (ftype f) \<le> PB_LTYPE_LAST_PACKABLE
      then map_option (\<lambda>bs. tag_bytes PB_WT_STRING (tag f) @ delimited bs)
        (items_bytes (value_bytes m msg f) (ucast (data_size f)) (unat count) a)
      else items_bytes (\<lambda>p. do { q \<leftarrow> item_address m f p; keyed_bytes m msg f q })
        (ucast (data_size f)) (unat count) a)"

definition basic_bytes :: "nat \<Rightarrow> memory \<Rightarrow> msg_spec \<Rightarrow> pb_field \<Rightarrow> u64 \<Rightarrow> u8 list option" where
  "basic_bytes d m msg f a =
     (let ht = PB_HTYPE (ftype f); ptr = PB_ATYPE (ftype f) = PB_ATYPE_POINTER in do {
        has0 \<leftarrow> implicit_presence d m f a;
        a1 \<leftarrow> (if ptr then load_u64 m a else Some a);
        present \<leftarrow>
          (if ht = PB_HTYPE_REQUIRED then (if a1 = 0 then None else Some True)
           else if ht = PB_HTYPE_OPTIONAL then read_has m f a (if ptr then a1 \<noteq> 0 else has0)
           else if ht = PB_HTYPE_REPEATED then Some True
           else map_option (\<lambda>which. which = tag f) (read_size m f a));
        if \<not> present then Some []
        else if ht = PB_HTYPE_REPEATED
        then do {
          count \<leftarrow> (if size_offset f \<noteq> 0 then read_size m f a else Some (array_size f));
          array_bytes m msg f a1 count
        }
        else keyed_bytes m msg f a1
      })"

definition field_bytes :: "enc_spec \<Rightarrow> nat \<Rightarrow> msg_spec \<Rightarrow> pb_field \<Rightarrow> u64 \<Rightarrow> u8 list option" where
  "field_bytes sp d msg f a =
     (if PB_ATYPE (ftype f) = PB_ATYPE_STATIC \<or> PB_ATYPE (ftype f) = PB_ATYPE_POINTER
      then basic_bytes d (es_mem sp) msg f a
      else if PB_ATYPE (ftype f) = PB_ATYPE_CALLBACK
      then do {
        fn \<leftarrow> load_u64 (es_mem sp) a;
        if fn = 0 then Some [] else es_callback sp fn f (a + 8)
      }
      else None)"

text \<open>The extensions of a list of at most \<open>n\<close> entries.\<close>

primrec chain_bytes :: "enc_spec \<Rightarrow> nat \<Rightarrow> msg_spec \<Rightarrow> nat \<Rightarrow> u64 \<Rightarrow> u8 list option" where
  "chain_bytes sp d msg 0 ext = (if ext = 0 then Some [] else None)"
| "chain_bytes sp d msg (Suc n) ext =
     (if ext = 0 then Some []
      else do {
        ta \<leftarrow> load_u64 (es_mem sp) ext;
        xt \<leftarrow> ec_exttype (es_ctx sp) ta;
        bs \<leftarrow>
          (if xt_encode xt \<noteq> 0 then es_extencode sp (xt_encode xt) ext
           else let f = field_at (xt_arg xt) 0
                in if PB_ATYPE (ftype f) = PB_ATYPE_POINTER then field_bytes sp d msg f (ext_dest ext)
                   else do {
                     dest \<leftarrow> load_u64 (es_mem sp) (ext_dest ext);
                     field_bytes sp d msg f dest
                   });
        nxt \<leftarrow> load_u64 (es_mem sp) (ext_next ext);
        cs \<leftarrow> chain_bytes sp d msg n nxt;
        Some (bs @ cs)
      })"

definition message_field_bytes :: "enc_spec \<Rightarrow> nat \<Rightarrow> msg_spec \<Rightarrow> pb_field_iter \<Rightarrow> u8 list option" where
  "message_field_bytes sp d msg it =
     (if PB_LTYPE (ftype (it_field it)) = PB_LTYPE_EXTENSION
      then do {
        ext \<leftarrow> load_u64 (es_mem sp) (pData it);
        chain_bytes sp d msg (es_chain sp) ext
      }
      else field_bytes sp d msg (it_field it) (pData it))"

primrec concat_bytes :: "('a \<Rightarrow> u8 list option) \<Rightarrow> 'a list \<Rightarrow> u8 list option" where
  "concat_bytes f [] = Some []"
| "concat_bytes f (x # xs) = do { b \<leftarrow> f x; bs \<leftarrow> concat_bytes f xs; Some (b @ bs) }"

primrec msg_bytes :: "enc_spec \<Rightarrow> nat \<Rightarrow> msg_spec" where
  "msg_bytes sp 0 = (\<lambda>fs a. None)"
| "msg_bytes sp (Suc d) =
     (\<lambda>fs a. if wf_fields fs
             then concat_bytes (message_field_bytes sp (Suc d) (msg_bytes sp d)) (iters_of fs a)
             else None)"

end
