(* ===== verification/Pb_Enc_Refine.thy ===== *)
theory Pb_Enc_Refine
  imports Pb_Enc_Spec
begin

text \<open>
  The refinement: every function of the message encoder \<open>encodes\<close> the bytes its specification
  gives, from single values up to messages, over any sink of bytes.
\<close>

section \<open>Words read from memory\<close>

lemma load_u32_unat: "load_u32 m a = Some v \<longleftrightarrow> (\<exists>bs. load m a 4 = Some bs \<and> v = of_nat (le_val bs))"
  by (auto simp: load_u32_def)

lemma load_u32_bytes:
  assumes "load m a 4 = Some bs"
  shows "load_u32 m a = Some (of_nat (le_val bs))" and "le_bytes 4 (unat (of_nat (le_val bs) :: u32)) = bs"
proof -
  show "load_u32 m a = Some (of_nat (le_val bs))" using assms by (simp add: load_u32_def)
  have len: "length bs = 4" using assms by (rule load_length)
  then have "le_val bs < 2 ^ LENGTH(32)" using le_val_lt [of bs] by simp
  then have "unat (of_nat (le_val bs) :: u32) = le_val bs" by (rule unat_of_nat_lt)
  then show "le_bytes 4 (unat (of_nat (le_val bs) :: u32)) = bs" using le_bytes_le_val [of bs] len by simp
qed

lemma load_u64_bytes:
  assumes "load m a 8 = Some bs"
  shows "load_u64 m a = Some (of_nat (le_val bs))" and "le_bytes 8 (unat (of_nat (le_val bs) :: u64)) = bs"
proof -
  show "load_u64 m a = Some (of_nat (le_val bs))" using assms by (simp add: load_u64_def)
  have len: "length bs = 8" using assms by (rule load_length)
  then have "le_val bs < 2 ^ LENGTH(64)" using le_val_lt [of bs] by simp
  then have "unat (of_nat (le_val bs) :: u64) = le_val bs" by (rule unat_of_nat_lt)
  then show "le_bytes 8 (unat (of_nat (le_val bs) :: u64)) = bs" using le_bytes_le_val [of bs] len by simp
qed

lemma unat_ucast_u32: "unat (ucast (n :: u32) :: u64) = unat n"
  by (rule unat_ucast_u32_u64)

lemma of_nat_unat_u32: "(of_nat (unat (n :: u32)) :: u64) = ucast n"
  by (simp add: word_unat_eq_iff unsigned_of_nat take_bit_nat_eq_self)

section \<open>Single values\<close>

definition msg_ok ::
  "(pb_ostream \<Rightarrow> nat) \<Rightarrow> (pb_ostream \<Rightarrow> u8 list) \<Rightarrow> msg_encoder \<Rightarrow> msg_spec \<Rightarrow> bool" where
  "msg_ok room out enc msg \<longleftrightarrow>
     (\<forall>fs a bs. msg fs a = Some bs \<longrightarrow> length bs < 2 ^ 64 \<longrightarrow> encodes room out (enc fs a) bs)"

text \<open>What the user's encode callbacks stand for.\<close>

definition user_ok :: "(pb_ostream \<Rightarrow> nat) \<Rightarrow> (pb_ostream \<Rightarrow> u8 list) \<Rightarrow> enc_spec \<Rightarrow> bool" where
  "user_ok room out sp \<longleftrightarrow>
     (\<forall>fn f a bs. es_callback sp fn f a = Some bs \<longrightarrow> encodes room out (ec_callback (es_ctx sp) fn f a) bs) \<and>
     (\<forall>fn ext bs. es_extencode sp fn ext = Some bs \<longrightarrow> encodes room out (ec_extencode (es_ctx sp) fn ext) bs)"

lemma wire_type_lt_8: "wire_type_of_ltype lt = Some w \<Longrightarrow> unat w < 8"
  by (auto simp: wire_type_of_ltype_def split: if_splits)

lemma pb_write_0: "pb_write wr s b 0 = Some (Some (), s)"
  by (simp add: pb_write_def)

context output_sink
begin

lemma out_cong:
  assumes "o_callback s = o_callback t" and "o_state s = o_state t" and "o_room s = o_room t"
  shows "out s = out t" and "room s = room t"
proof -
  have "s = t\<lparr>bytes_written := bytes_written s, max_size := max_size s, o_errmsg := o_errmsg s\<rparr>"
    using assms by (intro pb_ostream.equality) simp_all
  then show "out s = out t" "room s = room t" by (metis sink_frame)+
qed

lemma encodes_tag_for_field:
  assumes "wire_type_of_ltype (PB_LTYPE (ftype f)) = Some w"
  shows "encodes room out (\<lambda>s. pb_encode_tag_for_field wr s f) (tag_bytes w (tag f))"
  using encodes_tag [OF wire_type_lt_8 [OF assms], of "tag f"] assms
  by (simp add: pb_encode_tag_for_field_def tag_bytes_def)

lemma encodes_svarint: "encodes room out (\<lambda>s. pb_encode_svarint wr s v) (varint_spec (unat (zigzag v)))"
  using encodes_varint [of "zigzag v"] unfolding pb_encode_svarint_def zigzag_def Let_def .

lemma encodes_delimited:
  assumes "length bs < 2 ^ 64" and "n = of_nat (length bs)"
  shows "encodes room out (\<lambda>s. pb_encode_string wr s (Some bs) n) (delimited bs)"
  using encodes_string [OF assms(1)] unfolding assms(2) delimited_def .

lemma encodes_delimited_null: "encodes room out (\<lambda>s. pb_encode_string wr s None 0) (delimited [])"
  using encodes_delimited [of "[]" 0] by (simp add: pb_encode_string_def pb_write_0)

lemma encodes_submessage:
  assumes enc: "encodes room out (enc fs a) bs" and len: "length bs < 2 ^ 64"
    and wr: "ec_write ec = wr"
  shows "encodes room out (\<lambda>s. pb_encode_submessage ec enc fs a s) (delimited bs)"
proof -
  let ?sz = "of_nat (length bs) :: u64"
  have sz: "unat ?sz = length bs" using len by (intro unat_of_nat_lt) simp
  note vi = encodes_varint [of ?sz, unfolded sz]
  have first: "enc fs a PB_OSTREAM_SIZING = Some (Some (), PB_OSTREAM_SIZING\<lparr>bytes_written := ?sz\<rparr>)"
    using encodes_sizing [OF enc, of PB_OSTREAM_SIZING] by (simp add: PB_OSTREAM_SIZING_def)
  let ?sub = "\<lambda>s1 :: pb_ostream. \<lparr>o_callback = o_callback s1, o_state = o_state s1, o_room = o_room s1,
      max_size = ?sz, bytes_written = 0, o_errmsg = None\<rparr>"
  let ?rest = "\<lambda>s1. if o_callback s1 = O_null then pb_write wr s1 None ?sz
      else if bytes_written s1 + ?sz > max_size s1 then Some (None, o_error E_stream_full s1)
      else do {
        (status, sub2) \<leftarrow> enc fs a (?sub s1);
        let s2 = s1\<lparr>bytes_written := bytes_written s1 + bytes_written sub2, o_state := o_state sub2,
                    o_room := o_room sub2, o_errmsg := o_errmsg sub2\<rparr>
        in if bytes_written sub2 \<noteq> ?sz then Some (None, o_error E_submsg_size_changed s2)
           else Some (status, s2)
      }"
  have eq: "pb_encode_submessage ec enc fs a s = c_try (pb_encode_varint wr s ?sz) (\<lambda>_ s1. ?rest s1)" for s
    by (simp add: pb_encode_submessage_def first wr Let_def cong: if_cong)
  have rest: "encodes room out ?rest bs"
  proof (rule encodesI)
    fix s :: pb_ostream assume "o_callback s = O_null"
    then show "?rest s = Some (Some (), s\<lparr>bytes_written := bytes_written s + of_nat (length bs)\<rparr>)"
      by (simp add: pb_write_def)
  next
    fix s :: pb_ostream assume s: "o_ok room s" and fits: "o_fits s (length bs)"
    have cb: "o_callback s \<noteq> O_null" using s by (simp add: o_ok_def)
    have sum: "unat (bytes_written s + ?sz) = unat (bytes_written s) + length bs"
      using fits sz unsigned_less [of "max_size s", where ?'a = nat]
      by (simp add: o_fits_def unat_plus_if')
    then have nf: "\<not> bytes_written s + ?sz > max_size s"
      using fits by (simp add: word_less_nat_alt o_fits_def)
    have room: "room (?sub s) = room s" "out (?sub s) = out s" by (rule out_cong; simp)+
    have "o_ok room (?sub s)" "o_fits (?sub s) (length bs)"
      using s fits room sz by (auto simp: o_ok_def o_fits_def word_le_nat_alt)
    with enc obtain sub2 where sub2: "enc fs a (?sub s) = Some (Some (), sub2)"
      "emitted room out (?sub s) bs sub2" by (rule encodes_fits)
    then have "unat (bytes_written sub2) = length bs" by (simp add: emitted_def)
    then have bw: "bytes_written sub2 = ?sz" using sz by (simp add: word_unat_eq_iff)
    let ?s2 = "s\<lparr>bytes_written := bytes_written s + ?sz, o_state := o_state sub2,
        o_room := o_room sub2, o_errmsg := o_errmsg sub2\<rparr>"
    have r: "?rest s = Some (Some (), ?s2)" using cb nf sub2(1) bw by simp
    have "out ?s2 = out sub2" "room ?s2 = room sub2"
      using sub2(2) by (intro out_cong; simp add: emitted_def)+
    then have "emitted room out s bs ?s2"
      using sub2(2) room sum s by (simp add: emitted_def o_ok_def)
    with r show "\<exists>s'. ?rest s = Some (Some (), s') \<and> emitted room out s bs s'" by blast
  next
    fix s :: pb_ostream assume s: "o_ok room s" and full: "\<not> o_fits s (length bs)"
      and small: "unat (bytes_written s) + length bs < 2 ^ 64"
    have cb: "o_callback s \<noteq> O_null" using s by (simp add: o_ok_def)
    have "unat (bytes_written s + ?sz) = unat (bytes_written s) + length bs"
      using small sz by (simp add: unat_plus_if')
    then have "bytes_written s + ?sz > max_size s"
      using full by (simp add: word_less_nat_alt o_fits_def)
    then have "?rest s = Some (None, o_error E_stream_full s)" using cb by simp
    moreover have "out (o_error E_stream_full s) = out s" by (simp add: o_error_def sink_frame)
    ultimately show "\<exists>s' cs. ?rest s = Some (None, s') \<and> prefix cs bs \<and> out s' = out s @ cs \<and>
        o_errmsg s' = Some E_stream_full"
      using s by (intro exI [of _ "o_error E_stream_full s"] exI [of _ "[]"]) (simp add: o_ok_def)
  qed
  show ?thesis
    unfolding eq delimited_def using encodes_seq [OF vi rest] .
qed

lemma encodes_scalar:
  assumes "scalar_at sg m n a = Some v"
    and "\<And>x :: u8. g1 x = f (if sg then scast x else ucast x)"
    and "\<And>x :: u16. g2 x = f (if sg then scast x else ucast x)"
    and "\<And>x :: u32. g4 x = f (if sg then scast x else ucast x)"
    and "encodes room out (f v) bs"
  shows "encodes room out
    (\<lambda>s. if n = 1 then do { x \<leftarrow> load_u8 m a; g1 x s }
         else if n = 2 then do { x \<leftarrow> load_u16 m a; g2 x s }
         else if n = 4 then do { x \<leftarrow> load_u32 m a; g4 x s }
         else if n = 8 then do { x \<leftarrow> load_u64 m a; f x s }
         else e s) bs"
proof -
  consider x where "n = 1" "load_u8 m a = Some x" "v = (if sg then scast x else ucast x)"
    | x where "n = 2" "load_u16 m a = Some x" "v = (if sg then scast x else ucast x)"
    | x where "n = 4" "load_u32 m a = Some x" "v = (if sg then scast x else ucast x)"
    | "n = 8" "load_u64 m a = Some v"
    using assms(1) by (auto simp: scalar_at_def split: if_splits)
  then show ?thesis using assms(2-5) by cases simp_all
qed

lemma encodes_enc_bytes:
  assumes wr: "ec_write ec = wr" and b: "bytes_at (ec_mem ec) f a = Some bs" and len: "length bs < 2 ^ 64"
  shows "encodes room out (pb_enc_bytes ec f a) (delimited bs)"
proof (cases "a = 0")
  case True
  then show ?thesis using b encodes_delimited_null by (simp add: pb_enc_bytes_def [abs_def] bytes_at_def wr)
next
  case False
  with b obtain n where n: "load_u32 (ec_mem ec) a = Some n"
    "\<not> (PB_ATYPE (ftype f) = PB_ATYPE_STATIC \<and> ucast n > (ucast (data_size f) - 4 :: u64))"
    "load (ec_mem ec) (a + 4) (unat n) = Some bs"
    by (auto simp: bytes_at_def Option.bind_eq_Some_conv split: if_splits)
  have "pb_enc_bytes ec f a = (\<lambda>s. pb_encode_string wr s (Some bs) (ucast n))"
    using False n by (intro ext) (auto simp: pb_enc_bytes_def wr)
  moreover have "ucast n = (of_nat (length bs) :: u64)"
    using load_length [OF n(3)] by (simp add: of_nat_unat_u32)
  ultimately show ?thesis using encodes_delimited [OF len] by simp
qed

lemma encodes_enc_string:
  assumes wr: "ec_write ec = wr" and b: "string_at (ec_mem ec) f a = Some bs" and len: "length bs < 2 ^ 64"
  shows "encodes room out (pb_enc_string ec f a) (delimited bs)"
proof (cases "a = 0")
  case True
  then show ?thesis using b encodes_delimited_null by (simp add: pb_enc_string_def [abs_def] string_at_def wr Let_def)
next
  case False
  with b obtain n where n: "c_loop (strnlen_round (ec_mem ec)
      (if PB_ATYPE (ftype f) = PB_ATYPE_POINTER then - 1 else ucast (data_size f))) (0, a) = Some n"
    "load (ec_mem ec) a (unat n) = Some bs"
    by (auto simp: string_at_def Option.bind_eq_Some_conv)
  have "pb_enc_string ec f a = (\<lambda>s. pb_encode_string wr s (Some bs) n)"
    using False n by (intro ext) (simp add: pb_enc_string_def wr Let_def)
  moreover have "n = (of_nat (length bs) :: u64)"
    using load_length [OF n(2)] by simp
  ultimately show ?thesis using encodes_delimited [OF len] by simp
qed

lemma length_delimited: "length bs \<le> length (delimited bs)"
  by (simp add: delimited_def)

lemma encodes_value:
  assumes wr: "ec_write ec = wr" and msg: "msg_ok room out enc msg"
    and v: "value_bytes (ec_mem ec) msg f a = Some bs" and len: "length bs < 2 ^ 64"
  obtains func where "PB_ENCODERS ec enc (PB_LTYPE (ftype f)) = Some func"
    and "encodes room out (func f a) bs"
proof -
  let ?lt = "PB_LTYPE (ftype f)" and ?m = "ec_mem ec"
  note val = v [unfolded value_bytes_def Let_def]
  have small: "length xs < 2 ^ 64" if "bs = delimited xs" for xs
    using that len length_delimited [of xs] by simp
  consider (bool) "?lt = PB_LTYPE_BOOL" | (varint) "?lt = PB_LTYPE_VARINT" | (uvarint) "?lt = PB_LTYPE_UVARINT"
    | (svarint) "?lt = PB_LTYPE_SVARINT" | (f32) "?lt = PB_LTYPE_FIXED32" | (f64) "?lt = PB_LTYPE_FIXED64"
    | (bytes) "?lt = PB_LTYPE_BYTES" | (str) "?lt = PB_LTYPE_STRING" | (sub) "?lt = PB_LTYPE_SUBMESSAGE"
    | (flb) "?lt = PB_LTYPE_FIXED_LENGTH_BYTES"
    using val by (auto split: if_splits)
  then show thesis
  proof cases
    case bool
    then obtain b where "safe_read_bool ?m a = Some b" "bs = varint_spec (if b then 1 else 0)"
      using val by auto
    then show thesis
      using that [of "pb_enc_bool ec"] bool encodes_varint [of "if b then 1 else 0"]
      by (simp add: PB_ENCODERS_def pb_enc_bool_def [abs_def] wr split: if_splits)
  next
    case varint
    then obtain x where "scalar_at True ?m (data_size f) a = Some x" "bs = varint_spec (unat x)"
      using val by auto
    then have "encodes room out (pb_enc_varint ec f a) bs"
      unfolding pb_enc_varint_def wr
      by (intro encodes_scalar [where sg = True and f = "\<lambda>v s. pb_encode_varint wr s v"])
        (simp_all, rule encodes_varint)
    then show thesis using that [of "pb_enc_varint ec"] varint by (simp add: PB_ENCODERS_def)
  next
    case uvarint
    then obtain x where "scalar_at False ?m (data_size f) a = Some x" "bs = varint_spec (unat x)"
      using val by auto
    then have "encodes room out (pb_enc_uvarint ec f a) bs"
      unfolding pb_enc_uvarint_def wr
      by (intro encodes_scalar [where sg = False and f = "\<lambda>v s. pb_encode_varint wr s v"])
        (simp_all, rule encodes_varint)
    then show thesis using that [of "pb_enc_uvarint ec"] uvarint by (simp add: PB_ENCODERS_def)
  next
    case svarint
    then obtain x where "scalar_at True ?m (data_size f) a = Some x" "bs = varint_spec (unat (zigzag x))"
      using val by auto
    then have "encodes room out (pb_enc_svarint ec f a) bs"
      unfolding pb_enc_svarint_def wr
      by (intro encodes_scalar [where sg = True and f = "\<lambda>v s. pb_encode_svarint wr s v"])
        (simp_all, rule encodes_svarint)
    then show thesis using that [of "pb_enc_svarint ec"] svarint by (simp add: PB_ENCODERS_def)
  next
    case f32
    then have "load ?m a 4 = Some bs" using val by simp
    note b = load_u32_bytes [OF this]
    have "encodes room out (pb_enc_fixed32 ec f a) bs"
      using encodes_fixed32 [of "of_nat (le_val bs)"] unfolding b(2)
      by (simp add: pb_enc_fixed32_def [abs_def] b(1) wr)
    then show thesis using that [of "pb_enc_fixed32 ec"] f32 by (simp add: PB_ENCODERS_def)
  next
    case f64
    then have "load ?m a 8 = Some bs" using val by simp
    note b = load_u64_bytes [OF this]
    have "encodes room out (pb_enc_fixed64 ec f a) bs"
      using encodes_fixed64 [of "of_nat (le_val bs)"] unfolding b(2)
      by (simp add: pb_enc_fixed64_def [abs_def] b(1) wr)
    then show thesis using that [of "pb_enc_fixed64 ec"] f64 by (simp add: PB_ENCODERS_def)
  next
    case bytes
    then obtain xs where "bytes_at ?m f a = Some xs" "bs = delimited xs" using val by auto
    then show thesis
      using that [of "pb_enc_bytes ec"] bytes encodes_enc_bytes [OF wr] small by (simp add: PB_ENCODERS_def)
  next
    case str
    then obtain xs where "string_at ?m f a = Some xs" "bs = delimited xs" using val by auto
    then show thesis
      using that [of "pb_enc_string ec"] str encodes_enc_string [OF wr] small by (simp add: PB_ENCODERS_def)
  next
    case sub
    then obtain fs xs where p: "fptr f = PtrFields fs" "msg fs a = Some xs" "bs = delimited xs"
      using val by (auto split: field_ptr.splits)
    then have "encodes room out (enc fs a) xs" using msg small by (simp add: msg_ok_def)
    from encodes_submessage [of enc fs a xs ec, OF this _ wr] have
      "encodes room out (pb_enc_submessage ec enc f a) bs"
      using p small by (simp add: pb_enc_submessage_def [abs_def])
    then show thesis using that [of "pb_enc_submessage ec enc"] sub by (simp add: PB_ENCODERS_def)
  next
    case flb
    then obtain xs where p: "load ?m a (unat (data_size f)) = Some xs" "bs = delimited xs" using val by auto
    have "ucast (data_size f) = (of_nat (length xs) :: u64)"
      using load_length [OF p(1)] by (simp add: of_nat_unat_u32)
    from encodes_delimited [OF small [OF p(2)] this] have
      "encodes room out (pb_enc_fixed_length_bytes ec f a) bs"
      using p by (simp add: pb_enc_fixed_length_bytes_def [abs_def] wr)
    then show thesis
      using that [of "pb_enc_fixed_length_bytes ec"] flb by (simp add: PB_ENCODERS_def)
  qed
qed

lemma encodes_keyed:
  assumes wr: "ec_write ec = wr" and msg: "msg_ok room out enc msg"
    and k: "keyed_bytes (ec_mem ec) msg f a = Some bs" and len: "length bs < 2 ^ 64"
  shows "encodes room out
    (encode_tag_and_value ec (call_encoder (PB_ENCODERS ec enc (PB_LTYPE (ftype f)))) f a) bs"
proof -
  from k obtain w v where w: "wire_type_of_ltype (PB_LTYPE (ftype f)) = Some w"
    and v: "value_bytes (ec_mem ec) msg f a = Some v" and bs: "bs = tag_bytes w (tag f) @ v"
    by (auto simp: keyed_bytes_def Option.bind_eq_Some_conv)
  have "length v < 2 ^ 64" using len bs by simp
  then obtain func where func: "PB_ENCODERS ec enc (PB_LTYPE (ftype f)) = Some func"
    "encodes room out (func f a) v" using encodes_value [OF wr msg v] by blast
  show ?thesis
    using encodes_seq [OF encodes_tag_for_field [OF w] func(2)]
    by (simp add: encode_tag_and_value_def [abs_def] call_encoder_def [abs_def] func(1) wr bs)
qed

lemma encodes_items:
  assumes "\<And>p xs. item p = Some xs \<Longrightarrow> length xs < 2 ^ 64 \<Longrightarrow> encodes room out (enc p) xs"
    and "items_bytes item sz n p = Some bs" and "length bs < 2 ^ 64"
  shows "encodes room out (enc_items enc sz n p) bs"
  using assms(2,3)
proof (induction n arbitrary: p bs)
  case 0
  then show ?case using encodes_Nil by simp
next
  case (Suc n)
  from Suc.prems(1) obtain x xs where x: "item p = Some x" "items_bytes item sz n (p + sz) = Some xs"
    "bs = x @ xs" by (auto simp: Option.bind_eq_Some_conv)
  have "encodes room out (enc p) x" "encodes room out (enc_items enc sz n (p + sz)) xs"
    using x Suc.prems(2) by (intro assms(1) Suc.IH; simp)+
  then show ?case using x(3) by (simp add: encodes_seq)
qed

lemma items_bytes_fixed:
  "(\<And>p xs. item p = Some xs \<Longrightarrow> length xs = k) \<Longrightarrow> items_bytes item sz n p = Some bs \<Longrightarrow>
   length bs = k * n"
  by (induction n arbitrary: p bs) (auto simp: Option.bind_eq_Some_conv)

lemma encodes_null_write:
  assumes "encodes room out F bs"
  shows "encodes room out (\<lambda>s. if o_callback s = O_null then pb_write wr s None (of_nat (length bs)) else F s) bs"
proof (rule encodesI)
  fix s :: pb_ostream assume "o_callback s = O_null"
  then show "(if o_callback s = O_null then pb_write wr s None (of_nat (length bs)) else F s) =
      Some (Some (), s\<lparr>bytes_written := bytes_written s + of_nat (length bs)\<rparr>)"
    by (simp add: pb_write_def)
next
  fix s :: pb_ostream assume s: "o_ok room s" "o_fits s (length bs)"
  then have "o_callback s \<noteq> O_null" by (simp add: o_ok_def)
  with s show "\<exists>s'. (if o_callback s = O_null then pb_write wr s None (of_nat (length bs)) else F s) =
      Some (Some (), s') \<and> emitted room out s bs s'"
    using encodes_fits [OF assms] by metis
next
  fix s :: pb_ostream assume s: "o_ok room s" "\<not> o_fits s (length bs)"
    "unat (bytes_written s) + length bs < 2 ^ 64"
  then have "o_callback s \<noteq> O_null" by (simp add: o_ok_def)
  with s show "\<exists>s' cs. (if o_callback s = O_null then pb_write wr s None (of_nat (length bs)) else F s) =
      Some (None, s') \<and> prefix cs bs \<and> out s' = out s @ cs \<and> o_errmsg s' = Some E_stream_full"
    using encodes_full [OF assms] by metis
qed

lemma encodes_array:
  assumes wr: "ec_write ec = wr" and msg: "msg_ok room out enc msg"
    and ar: "array_bytes (ec_mem ec) msg f a count = Some bs" and len: "length bs < 2 ^ 64"
  shows "encodes room out
    (encode_array ec f a count (call_encoder (PB_ENCODERS ec enc (PB_LTYPE (ftype f))))) bs"
proof -
  let ?func = "call_encoder (PB_ENCODERS ec enc (PB_LTYPE (ftype f)))"
  let ?sz = "ucast (data_size f) :: u64" and ?m = "ec_mem ec"
  have item: "encodes room out (?func f p) xs" if "value_bytes ?m msg f p = Some xs" "length xs < 2 ^ 64" for p xs
    
  proof -
    from that obtain func where "PB_ENCODERS ec enc (PB_LTYPE (ftype f)) = Some func"
      "encodes room out (func f p) xs" using encodes_value [OF wr msg] by blast
    then show ?thesis by (simp add: call_encoder_def [abs_def])
  qed
  consider (none) "count = 0" "bs = []"
    | (packed) xs where "count \<noteq> 0" "PB_LTYPE (ftype f) \<le> PB_LTYPE_LAST_PACKABLE"
        "items_bytes (value_bytes ?m msg f) ?sz (unat count) a = Some xs"
        "bs = tag_bytes PB_WT_STRING (tag f) @ delimited xs"
        "\<not> (PB_ATYPE (ftype f) \<noteq> PB_ATYPE_POINTER \<and> count > array_size f)"
    | (plain) "count \<noteq> 0" "\<not> PB_LTYPE (ftype f) \<le> PB_LTYPE_LAST_PACKABLE"
        "items_bytes (\<lambda>p. do { q \<leftarrow> item_address ?m f p; keyed_bytes ?m msg f q }) ?sz (unat count) a = Some bs"
        "\<not> (PB_ATYPE (ftype f) \<noteq> PB_ATYPE_POINTER \<and> count > array_size f)"
  proof (cases "count = 0")
    case True
    with ar none show ?thesis by (simp add: array_bytes_def)
  next
    case c: False
    note ar1 = ar [unfolded array_bytes_def if_not_P [OF c]]
    have nb: "\<not> (PB_ATYPE (ftype f) \<noteq> PB_ATYPE_POINTER \<and> count > array_size f)"
    proof
      assume bad: "PB_ATYPE (ftype f) \<noteq> PB_ATYPE_POINTER \<and> count > array_size f"
      show False using ar1 unfolding if_P [OF bad] by simp
    qed
    note ar2 = ar1 [unfolded if_not_P [OF nb]]
    show ?thesis
    proof (cases "PB_LTYPE (ftype f) \<le> PB_LTYPE_LAST_PACKABLE")
      case True
      from ar2 obtain xs where "items_bytes (value_bytes ?m msg f) ?sz (unat count) a = Some xs"
        "bs = tag_bytes PB_WT_STRING (tag f) @ delimited xs"
        unfolding if_P [OF True] by (elim map_option_eq_Some [THEN iffD1, elim_format] exE conjE) simp
      then show ?thesis using packed [OF c True _ _ nb] by blast
    next
      case False
      show ?thesis using plain [OF c False _ nb] ar2 unfolding if_not_P [OF False] by blast
    qed
  qed
  then show ?thesis
  proof cases
    case none
    then show ?thesis using encodes_Nil by (simp add: encode_array_def [abs_def])
  next
    case packed
    have lenx: "length xs < 2 ^ 64" using packed(4) len by (simp add: delimited_def)
    have items: "encodes room out (enc_items (?func f) ?sz (unat count) a) xs"
      using item packed(3) lenx by (rule encodes_items)
    have fixed: "length xs = 4 * unat count" if "PB_LTYPE (ftype f) = PB_LTYPE_FIXED32"
      using that packed(3) by (intro items_bytes_fixed) (auto simp: value_bytes_def dest: load_length)
    have fixed8: "length xs = 8 * unat count" if "PB_LTYPE (ftype f) = PB_LTYPE_FIXED64"
      using that packed(3) by (intro items_bytes_fixed) (auto simp: value_bytes_def dest: load_length)
    have size: "packed_size ec f ?func a (unat count) = Some (Some (of_nat (length xs)))"
      using fixed fixed8 encodes_sizing [OF items, of PB_OSTREAM_SIZING]
      by (simp add: packed_size_def PB_OSTREAM_SIZING_def)
    have eq: "encode_array ec f a count ?func =
        (\<lambda>s. c_try (pb_encode_tag wr s PB_WT_STRING (tag f))
          (\<lambda>_ s1. c_try (pb_encode_varint wr s1 (of_nat (length xs)))
            (\<lambda>_ s2. if o_callback s2 = O_null then pb_write wr s2 None (of_nat (length xs))
                     else enc_items (?func f) ?sz (unat count) a s2)))"
      using packed(1,2,5) by (intro ext) (auto simp: encode_array_def size wr cong: if_cong)
    have u: "unat (of_nat (length xs) :: u64) = length xs" using lenx by (intro unat_of_nat_lt) simp
    have tagw: "unat (PB_WT_STRING) < 8" by simp
    show ?thesis
      unfolding eq packed(4) delimited_def tag_bytes_def
      using encodes_seq [OF encodes_tag [OF tagw, of "tag f"]
          encodes_seq [OF encodes_varint [of "of_nat (length xs)", unfolded u] encodes_null_write [OF items]]] .
  next
    case plain
    have unp: "encodes room out (enc_unpacked_item ec f ?func p) xs"
      if i: "do { q \<leftarrow> item_address ?m f p; keyed_bytes ?m msg f q } = Some xs" and "length xs < 2 ^ 64" for p xs
    proof -
      obtain q where q: "item_address ?m f p = Some q" "keyed_bytes ?m msg f q = Some xs"
        using i by (auto simp: Option.bind_eq_Some_conv)
      have "enc_unpacked_item ec f ?func p = encode_tag_and_value ec ?func f q"
        using q(1)
        by (intro ext) (auto simp: enc_unpacked_item_def encode_tag_and_value_def item_address_def
            split: if_splits)
      then show ?thesis using encodes_keyed [OF wr msg q(2) that(2)] by simp
    qed
    have "encodes room out (enc_items (enc_unpacked_item ec f ?func) ?sz (unat count) a) bs"
      by (rule encodes_items [OF unp plain(3) len])
    moreover have "encode_array ec f a count ?func = enc_items (enc_unpacked_item ec f ?func) ?sz (unat count) a"
      using plain(1,2,4) by (intro ext) (auto simp: encode_array_def)
    ultimately show ?thesis by simp
  qed
qed

section \<open>Fields and messages\<close>

lemma encodes_basic:
  assumes wr: "ec_write ec = wr" and msg: "msg_ok room out enc msg"
    and b: "basic_bytes d (ec_mem ec) msg f a = Some bs" and len: "length bs < 2 ^ 64"
  shows "encodes room out (encode_basic_field ec d enc f a) bs"
proof -
  let ?m = "ec_mem ec" and ?ht = "PB_HTYPE (ftype f)" and ?ptr = "PB_ATYPE (ftype f) = PB_ATYPE_POINTER"
  let ?func = "call_encoder (PB_ENCODERS ec enc (PB_LTYPE (ftype f)))"
  from b obtain has0 a1 where h: "implicit_presence d ?m f a = Some has0"
    and a1: "(if ?ptr then load_u64 ?m a else Some a) = Some a1"
    by (auto simp: basic_bytes_def Let_def Option.bind_eq_Some_conv)
  let ?has1 = "if ?ptr then a1 \<noteq> 0 else has0"
  note b1 = b [unfolded basic_bytes_def Let_def h a1 Option.bind.simps]
  note enc_def = encode_basic_field_def [abs_def, unfolded Let_def]
  have keyed: "encodes room out (encode_tag_and_value ec ?func f a1) bs"
    if "keyed_bytes ?m msg f a1 = Some bs" using encodes_keyed [OF wr msg that len] .
  consider (req) "?ht = PB_HTYPE_REQUIRED" | (opt) "?ht = PB_HTYPE_OPTIONAL"
    | (rep) "?ht = PB_HTYPE_REPEATED"
    | (oneof) "?ht \<noteq> PB_HTYPE_REQUIRED" "?ht \<noteq> PB_HTYPE_OPTIONAL" "?ht \<noteq> PB_HTYPE_REPEATED" by blast
  then show ?thesis
  proof cases
    case req
    have "a1 \<noteq> 0 \<and> keyed_bytes ?m msg f a1 = Some bs" using b1 req by (cases "a1 = 0") simp_all
    then show ?thesis using keyed req h a1 by (simp add: enc_def)
  next
    case opt
    then obtain has where has: "read_has ?m f a ?has1 = Some has"
      "if has then keyed_bytes ?m msg f a1 = Some bs else bs = []"
      using b1 by (auto simp: Option.bind_eq_Some_conv split: if_splits)
    then show ?thesis using keyed opt h a1 encodes_Nil by (cases has) (simp_all add: enc_def)
  next
    case rep
    then obtain count where c: "(if size_offset f \<noteq> 0 then read_size ?m f a else Some (array_size f)) = Some count"
      "array_bytes ?m msg f a1 count = Some bs"
      using b1 by (auto simp: Option.bind_eq_Some_conv)
    show ?thesis using encodes_array [OF wr msg c(2) len] c(1) rep h a1 by (simp add: enc_def)
  next
    case oneof
    then obtain which where w: "read_size ?m f a = Some which"
      "if which = tag f then keyed_bytes ?m msg f a1 = Some bs else bs = []"
      using b1 by (auto simp: Option.bind_eq_Some_conv split: if_splits)
    then show ?thesis using keyed oneof h a1 encodes_Nil by (cases "which = tag f") (simp_all add: enc_def)
  qed
qed

lemma encodes_callback_wrap:
  assumes F: "encodes room out F bs"
  shows "encodes room out (\<lambda>s. do {
      (r, s1) \<leftarrow> F s;
      (case r of None \<Rightarrow> Some (None, o_error e s1) | Some _ \<Rightarrow> Some (Some (), s1))
    }) bs" (is "encodes room out ?G bs")
proof (rule encodesI)
  fix s :: pb_ostream assume "o_callback s = O_null"
  then show "?G s = Some (Some (), s\<lparr>bytes_written := bytes_written s + of_nat (length bs)\<rparr>)"
    by (simp add: encodes_sizing [OF F])
next
  fix s :: pb_ostream assume "o_ok room s" "o_fits s (length bs)"
  with F obtain s' where "F s = Some (Some (), s')" "emitted room out s bs s'" by (rule encodes_fits)
  then show "\<exists>s'. ?G s = Some (Some (), s') \<and> emitted room out s bs s'" by simp
next
  fix s :: pb_ostream assume "o_ok room s" "\<not> o_fits s (length bs)" "unat (bytes_written s) + length bs < 2 ^ 64"
  with F obtain s' cs where s': "F s = Some (None, s')" "prefix cs bs" "out s' = out s @ cs"
    "o_errmsg s' = Some E_stream_full" by (rule encodes_full)
  moreover have "out (o_error e s') = out s'" by (simp add: o_error_def sink_frame)
  ultimately show "\<exists>s' cs. ?G s = Some (None, s') \<and> prefix cs bs \<and> out s' = out s @ cs \<and>
      o_errmsg s' = Some E_stream_full"
    by (intro exI [of _ "o_error e s'"] exI [of _ cs]) simp
qed

lemma encodes_field:
  assumes wr: "ec_write (es_ctx sp) = wr" and user: "user_ok room out sp"
    and msg: "msg_ok room out enc msg"
    and b: "field_bytes sp d msg f a = Some bs" and len: "length bs < 2 ^ 64"
  shows "encodes room out (encode_field (es_ctx sp) d enc f a) bs"
proof (cases "PB_ATYPE (ftype f) = PB_ATYPE_STATIC \<or> PB_ATYPE (ftype f) = PB_ATYPE_POINTER")
  case True
  then have "basic_bytes d (es_mem sp) msg f a = Some bs" using b by (simp add: field_bytes_def)
  from encodes_basic [OF wr msg this len] True show ?thesis by (simp add: encode_field_def [abs_def])
next
  case False
  then have cb: "PB_ATYPE (ftype f) = PB_ATYPE_CALLBACK"
    using b by (simp add: field_bytes_def split: if_splits)
  with False b obtain fn where fn: "load_u64 (es_mem sp) a = Some fn"
    "if fn = 0 then bs = [] else es_callback sp fn f (a + 8) = Some bs"
    by (auto simp: field_bytes_def Option.bind_eq_Some_conv split: if_splits)
  have "encodes room out (encode_callback_field (es_ctx sp) f a) bs"
  proof (cases "fn = 0")
    case True
    then show ?thesis using fn encodes_Nil by (simp add: encode_callback_field_def [abs_def])
  next
    case False
    then have "encodes room out (ec_callback (es_ctx sp) fn f (a + 8)) bs"
      using fn user by (simp add: user_ok_def)
    from encodes_callback_wrap [OF this] False fn show ?thesis
      by (simp add: encode_callback_field_def [abs_def])
  qed
  then show ?thesis using cb by (simp add: encode_field_def [abs_def])
qed

lemma encodes_chain:
  assumes wr: "ec_write (es_ctx sp) = wr" and user: "user_ok room out sp" and msg: "msg_ok room out enc msg"
    and "chain_bytes sp d msg n ext = Some bs" and "length bs < 2 ^ 64"
  shows "encodes room out (\<lambda>s. c_loop (encode_extension_round (es_ctx sp) d enc) (ext, s)) bs"
  using assms(4,5)
proof (induction n arbitrary: ext bs)
  case 0
  then have "ext = 0" "bs = []" by (simp_all split: if_splits)
  then have "c_loop (encode_extension_round (es_ctx sp) d enc) (ext, s) = Some (Some (), s)" for s
    by (intro c_loop_exit) (simp add: encode_extension_round_def)
  then show ?case using \<open>bs = []\<close> encodes_Nil by simp
next
  case (Suc n)
  show ?case
  proof (cases "ext = 0")
    case True
    then have "c_loop (encode_extension_round (es_ctx sp) d enc) (ext, s) = Some (Some (), s)" for s
      by (intro c_loop_exit) (simp add: encode_extension_round_def)
    then show ?thesis using True Suc.prems(1) encodes_Nil by simp
  next
    case False
    let ?one = "\<lambda>xt. if xt_encode xt \<noteq> 0 then es_extencode sp (xt_encode xt) ext
        else let f = field_at (xt_arg xt) 0
             in if PB_ATYPE (ftype f) = PB_ATYPE_POINTER then field_bytes sp d msg f (ext_dest ext)
                else do { dest \<leftarrow> load_u64 (es_mem sp) (ext_dest ext); field_bytes sp d msg f dest }"
    from Suc.prems(1) False obtain ta xt xs nxt cs where p: "load_u64 (es_mem sp) ext = Some ta"
      "ec_exttype (es_ctx sp) ta = Some xt" "?one xt = Some xs"
      "load_u64 (es_mem sp) (ext_next ext) = Some nxt" "chain_bytes sp d msg n nxt = Some cs" "bs = xs @ cs"
      by (auto simp: Option.bind_eq_Some_conv)
    let ?enc = "\<lambda>s. if xt_encode xt \<noteq> 0 then ec_extencode (es_ctx sp) (xt_encode xt) ext s
        else default_extension_encoder (es_ctx sp) d enc xt ext s"
    have lens: "length xs < 2 ^ 64" "length cs < 2 ^ 64" using Suc.prems(2) p(6) by simp_all
    have one: "encodes room out ?enc xs"
    proof (cases "xt_encode xt \<noteq> 0")
      case True
      then show ?thesis using p(3) user by (simp add: user_ok_def)
    next
      case no: False
      let ?f = "field_at (xt_arg xt) 0"
      show ?thesis
      proof (cases "PB_ATYPE (ftype ?f) = PB_ATYPE_POINTER")
        case True
        with p(3) no have "field_bytes sp d msg ?f (ext_dest ext) = Some xs" by (simp add: Let_def)
        from encodes_field [OF wr user msg this lens(1)] show ?thesis
          using no True by (simp add: default_extension_encoder_def [abs_def] Let_def)
      next
        case False
        with p(3) no obtain dest where dest: "load_u64 (es_mem sp) (ext_dest ext) = Some dest"
          "field_bytes sp d msg ?f dest = Some xs" by (auto simp: Let_def Option.bind_eq_Some_conv)
        from encodes_field [OF wr user msg dest(2) lens(1)] show ?thesis
          using no False dest(1) by (simp add: default_extension_encoder_def [abs_def] Let_def)
      qed
    qed
    have eq: "c_loop (encode_extension_round (es_ctx sp) d enc) (ext, s) =
        c_try (?enc s) (\<lambda>_ s1. c_loop (encode_extension_round (es_ctx sp) d enc) (nxt, s1))" for s
    proof (cases "?enc s")
      case None
      then have "encode_extension_round (es_ctx sp) d enc (ext, s) = None"
        using False p(1,2) by (simp add: encode_extension_round_def)
      then show ?thesis using None by (simp add: c_loop_stuck)
    next
      case (Some r)
      then show ?thesis
      proof (cases r)
        case (Pair st s1)
        then have "encode_extension_round (es_ctx sp) d enc (ext, s) =
            Some (case st of None \<Rightarrow> Inr (None, s1) | Some _ \<Rightarrow> Inl (nxt, s1))"
          using Some False p(1,2,4) by (simp add: encode_extension_round_def split: option.split)
        then show ?thesis using Some Pair by (cases st) (simp_all add: c_loop_exit c_loop_next)
      qed
    qed
    show ?thesis unfolding eq p(6) by (rule encodes_seq [OF one Suc.IH [OF p(5) lens(2)]])
  qed
qed

lemma encodes_message_field:
  assumes wr: "ec_write (es_ctx sp) = wr" and user: "user_ok room out sp" and msg: "msg_ok room out enc msg"
    and b: "message_field_bytes sp d msg it = Some bs" and len: "length bs < 2 ^ 64"
  shows "encodes room out (encode_message_field (es_ctx sp) d enc it) bs"
proof (cases "PB_LTYPE (ftype (it_field it)) = PB_LTYPE_EXTENSION")
  case True
  with b obtain ext where "load_u64 (es_mem sp) (pData it) = Some ext"
    "chain_bytes sp d msg (es_chain sp) ext = Some bs"
    by (auto simp: message_field_bytes_def Option.bind_eq_Some_conv)
  then show ?thesis
    using True encodes_chain [OF wr user msg _ len]
    by (simp add: encode_message_field_def [abs_def] encode_extension_field_def [abs_def])
next
  case False
  then show ?thesis
    using b encodes_field [OF wr user msg _ len]
    by (simp add: encode_message_field_def [abs_def] message_field_bytes_def)
qed

lemma encodes_run_iters:
  assumes "\<And>it xs. spec it = Some xs \<Longrightarrow> length xs < 2 ^ 64 \<Longrightarrow> encodes room out (body it) xs"
    and "concat_bytes spec its = Some bs" and "length bs < 2 ^ 64"
  shows "encodes room out (run_iters body its) bs"
  using assms(2,3)
proof (induction its arbitrary: bs)
  case Nil
  then show ?case using encodes_Nil by simp
next
  case (Cons it its)
  from Cons.prems(1) obtain x xs where x: "spec it = Some x" "concat_bytes spec its = Some xs" "bs = x @ xs"
    by (auto simp: Option.bind_eq_Some_conv)
  have "encodes room out (body it) x" "encodes room out (run_iters body its) xs"
    using x Cons.prems(2) by (intro assms(1) Cons.IH; simp)+
  then show ?case using x(3) by (simp add: encodes_seq)
qed

lemma encodes_message:
  assumes wr: "ec_write (es_ctx sp) = wr" and user: "user_ok room out sp"
    and "msg_bytes sp d fs a = Some bs" and "length bs < 2 ^ 64"
  shows "encodes room out (pb_encode (es_ctx sp) d fs a) bs"
  using assms(3,4)
proof (induction d arbitrary: fs a bs)
  case (Suc d)
  then have msg: "msg_ok room out (pb_encode (es_ctx sp) d) (msg_bytes sp d)" by (simp add: msg_ok_def)
  have wf: "wf_fields fs" and c: "concat_bytes (message_field_bytes sp (Suc d) (msg_bytes sp d)) (iters_of fs a) = Some bs"
    using Suc.prems(1) by (simp_all split: if_splits)
  have "encodes room out
      (run_iters (encode_message_field (es_ctx sp) (Suc d) (pb_encode (es_ctx sp) d)) (iters_of fs a)) bs"
    by (rule encodes_run_iters [OF encodes_message_field [OF wr user msg] c Suc.prems(2)])
  then show ?case by (simp add: for_each_field_run [OF wf])
qed simp

end

end
