(* ===== verification/Pb_Wire_Props.thy ===== *)
theory Pb_Wire_Props
  imports Pb_Tokens
begin

text \<open>
  The properties of the token layer of \<open>pb_encode.c\<close> and \<open>pb_decode.c\<close>, over memory
  buffers: what one side writes the other reads back, a reader that skips a value skips exactly
  it, no reader leaves its buffer, and where the 32-bit varint reader draws the line.
\<close>

section \<open>Buffers\<close>

lemma obuf_writes:
  assumes "encodes buf_room buf_out F bs" and "length bs \<le> unat n" and "unat n \<le> room"
  obtains s' where "F (pb_ostream_from_buffer room n) = Some (Some (), s')"
    and "o_state s' = bs" and "unat (bytes_written s') = length bs"
proof -
  let ?s = "pb_ostream_from_buffer room n"
  have "o_ok buf_room ?s" "o_fits ?s (length bs)"
    using assms(2,3) by (simp_all add: pb_ostream_from_buffer_def o_ok_def o_fits_def buf_room_def)
  with assms(1) obtain s' where "F ?s = Some (Some (), s')" "emitted buf_room buf_out ?s bs s'"
    by (rule encodes_fits)
  then show thesis
    using that by (simp add: emitted_def buf_out_def pb_ostream_from_buffer_def)
qed

lemma ibuf_simps [simp]:
  "i_callback (pb_istream_from_buffer bs n) = Buf_read"
  "i_state (pb_istream_from_buffer bs n) = bs"
  "bytes_left (pb_istream_from_buffer bs n) = n"
  "i_errmsg (pb_istream_from_buffer bs n) = None"
  "buf_pending (pb_istream_from_buffer bs n) = bs"
  by (simp_all add: pb_istream_from_buffer_def)

lemma ibuf_ok [simp]: "stream_ok buf_pending (pb_istream_from_buffer bs n) \<longleftrightarrow> unat n \<le> length bs"
  by (simp add: stream_ok_def)

lemma buf_advances:
  assumes "advances buf_pending (pb_istream_from_buffer (bs @ rest) n) (length bs) s'"
    and "unat n = length bs"
  shows "i_state s' = rest" and "bytes_left s' = 0"
proof -
  have "i_callback s' = Buf_read" using assms(1) by (simp add: advances_def)
  then show "i_state s' = rest" using assms(1) by (simp add: advances_def)
  have "unat (bytes_left s') = 0" using assms by (simp add: advances_def)
  then show "bytes_left s' = 0" by (simp add: unat_0_iff)
qed

section \<open>Round trips\<close>

text \<open>A 64-bit varint written by \<open>pb_encode_varint\<close> needs at most ten bytes, and
  \<open>pb_decode_varint\<close> reads it back from exactly those bytes, whatever follows them.\<close>

lemma varint_roundtrip:
  "\<exists>out inp. pb_encode_varint wr (pb_ostream_from_buffer 10 10) v = Some (Some (), out) \<and>
     pb_decode_varint rd (pb_istream_from_buffer (o_state out @ rest) (bytes_written out)) =
       Some (Some v, inp) \<and>
     i_state inp = rest \<and> bytes_left inp = 0"
proof -
  obtain out where out: "pb_encode_varint wr (pb_ostream_from_buffer 10 10) v = Some (Some (), out)"
    "o_state out = varint_spec (unat v)" "unat (bytes_written out) = length (varint_spec (unat v))"
    using obuf_writes [OF obuf.encodes_varint [of wr v], of 10 10] length_varint_u64 [of v] by auto
  let ?s = "pb_istream_from_buffer (varint_spec (unat v) @ rest) (bytes_written out)"
  obtain inp where "pb_decode_varint rd ?s = Some (Some v, inp)"
    "advances buf_pending ?s (length (varint_spec (unat v))) inp"
    using buffer.decode_varint_spec [of ?s v rest rd] out(3) by auto
  with out buf_advances [OF this(2)] show ?thesis by auto
qed

text \<open>Zigzag varints (\<open>sint32\<close>, \<open>sint64\<close>): \<open>pb_decode_svarint\<close> reads back
  the signed value \<open>pb_encode_svarint\<close> wrote, for all 64-bit values including the minimum.\<close>

lemma svarint_roundtrip:
  "\<exists>out inp. pb_encode_svarint wr (pb_ostream_from_buffer 10 10) v = Some (Some (), out) \<and>
     pb_decode_svarint rd (pb_istream_from_buffer (o_state out @ rest) (bytes_written out)) =
       Some (Some v, inp) \<and>
     i_state inp = rest \<and> bytes_left inp = 0"
proof -
  define z where "z = (if v <s 0 then NOT (push_bit 1 v) else push_bit 1 v)"
  have enc: "pb_encode_svarint wr s v = pb_encode_varint wr s z" for s
    by (simp only: pb_encode_svarint_def Let_def z_def)
  have dec: "pb_decode_svarint rd s = Some (Some v, s')"
    if "pb_decode_varint rd s = Some (Some z, s')" for s s'
    using that zigzag_roundtrip [OF z_def] by (auto simp: pb_decode_svarint_def split: if_splits)
  show ?thesis
    using varint_roundtrip [of wr z rd rest] unfolding enc by (auto intro: dec)
qed

text \<open>\<open>fixed32\<close>/\<open>float\<close> values survive \<open>pb_encode_fixed32\<close> and
  \<open>pb_decode_fixed32\<close>, in four bytes, least significant first.\<close>

lemma fixed32_roundtrip:
  "\<exists>out inp. pb_encode_fixed32 wr (pb_ostream_from_buffer 4 4) v = Some (Some (), out) \<and>
     o_state out = le_bytes 4 (unat v) \<and>
     pb_decode_fixed32 rd (pb_istream_from_buffer (o_state out @ rest) (bytes_written out)) =
       Some (Some v, inp) \<and>
     i_state inp = rest \<and> bytes_left inp = 0"
proof -
  obtain out where out: "pb_encode_fixed32 wr (pb_ostream_from_buffer 4 4) v = Some (Some (), out)"
    "o_state out = le_bytes 4 (unat v)" "unat (bytes_written out) = 4"
    using obuf_writes [OF obuf.encodes_fixed32 [of wr v], of 4 4] by auto
  let ?s = "pb_istream_from_buffer (le_bytes 4 (unat v) @ rest) (bytes_written out)"
  have "4 \<le> bytes_left ?s" using out(3) by (simp add: word_le_nat_alt)
  then obtain inp where "pb_decode_fixed32 rd ?s = Some (Some (of_nat (le_val (le_bytes 4 (unat v)))), inp)"
    "advances buf_pending ?s (length (le_bytes 4 (unat v))) inp"
    using buffer.decode_fixed32_ok [of ?s rd] out(3) by auto
  moreover have "of_nat (le_val (le_bytes 4 (unat v))) = v"
    using unsigned_less [of v, where ?'a = nat] by (simp add: le_val_le_bytes)
  ultimately show ?thesis using out buf_advances [of "le_bytes 4 (unat v)"] by auto
qed

text \<open>\<open>fixed64\<close>/\<open>double\<close> values likewise, in eight bytes.\<close>

lemma fixed64_roundtrip:
  "\<exists>out inp. pb_encode_fixed64 wr (pb_ostream_from_buffer 8 8) v = Some (Some (), out) \<and>
     o_state out = le_bytes 8 (unat v) \<and>
     pb_decode_fixed64 rd (pb_istream_from_buffer (o_state out @ rest) (bytes_written out)) =
       Some (Some v, inp) \<and>
     i_state inp = rest \<and> bytes_left inp = 0"
proof -
  obtain out where out: "pb_encode_fixed64 wr (pb_ostream_from_buffer 8 8) v = Some (Some (), out)"
    "o_state out = le_bytes 8 (unat v)" "unat (bytes_written out) = 8"
    using obuf_writes [OF obuf.encodes_fixed64 [of wr v], of 8 8] by auto
  let ?s = "pb_istream_from_buffer (le_bytes 8 (unat v) @ rest) (bytes_written out)"
  have "8 \<le> bytes_left ?s" using out(3) by (simp add: word_le_nat_alt)
  then obtain inp where "pb_decode_fixed64 rd ?s = Some (Some (of_nat (le_val (le_bytes 8 (unat v)))), inp)"
    "advances buf_pending ?s (length (le_bytes 8 (unat v))) inp"
    using buffer.decode_fixed64_ok [of ?s rd] out(3) by auto
  moreover have "of_nat (le_val (le_bytes 8 (unat v))) = v"
    using unsigned_less [of v, where ?'a = nat] by (simp add: le_val_le_bytes)
  ultimately show ?thesis using out buf_advances [of "le_bytes 8 (unat v)"] by auto
qed

text \<open>A field's tag and wire type survive \<open>pb_encode_tag\<close> and \<open>pb_decode_tag\<close>
  for every wire type below eight and every field number the protocol allows.\<close>

lemma tag_roundtrip:
  assumes "unat w < 8" and "fn \<noteq> 0" and "unat fn < 2 ^ 29"
  shows "\<exists>out inp. pb_encode_tag wr (pb_ostream_from_buffer 5 5) w fn = Some (Some (), out) \<and>
     pb_decode_tag rd (pb_istream_from_buffer (o_state out @ rest) (bytes_written out)) =
       Some (Some (w, fn), False, inp) \<and>
     i_state inp = rest \<and> bytes_left inp = 0"
proof -
  let ?t = "varint_spec (unat fn * 8 + unat w)"
  have "unat fn * 8 + unat w < 128 ^ 5" using assms by simp
  then have "length ?t \<le> 5" by (rule length_varint_spec) simp
  then obtain out where out: "pb_encode_tag wr (pb_ostream_from_buffer 5 5) w fn = Some (Some (), out)"
    "o_state out = ?t" "unat (bytes_written out) = length ?t"
    using obuf_writes [OF obuf.encodes_tag [OF assms(1), of wr fn], of 5 5] by auto
  let ?s = "pb_istream_from_buffer (?t @ rest) (bytes_written out)"
  obtain inp where "pb_decode_tag rd ?s = Some (Some (w, fn), False, inp)"
    "advances buf_pending ?s (length ?t) inp"
    using buffer.decode_tag_spec [of ?s fn w rest rd] assms out(3) by auto
  with out buf_advances [OF this(2)] show ?thesis by auto
qed

lemma tag_roundtrip_witness:
  "\<exists>out inp. pb_encode_tag (\<lambda>_ _ _. None) (pb_ostream_from_buffer 5 5) PB_WT_STRING 1000 = Some (Some (), out) \<and>
     pb_decode_tag (\<lambda>_ _ _ _. None) (pb_istream_from_buffer (o_state out @ [1]) (bytes_written out)) =
       Some (Some (PB_WT_STRING, 1000), False, inp) \<and>
     i_state inp = [1] \<and> bytes_left inp = 0"
  by (rule tag_roundtrip) simp_all

section \<open>The 32-bit varint reader\<close>

text \<open>\<open>pb_decode_varint32\<close> on the varint of a 64-bit value: it returns the low half for
  exactly the values \<open>accepts32\<close> describes (below \<open>2 ^ 32\<close>, or bit 31 set and every
  group of seven bits from bit 35 up all zeros or all ones, the last being bit 63), and reports a
  varint overflow for every other.\<close>

lemma varint32_acceptance:
  "\<exists>out r inp. pb_encode_varint wr (pb_ostream_from_buffer 10 10) v = Some (Some (), out) \<and>
     pb_decode_varint32 rd (pb_istream_from_buffer (o_state out @ rest) (bytes_written out)) =
       Some (r, inp) \<and>
     r = (if accepts32 (unat v) then Some (ucast v) else None) \<and>
     (r = None \<longleftrightarrow> i_errmsg inp = Some E_varint_overflow)"
proof -
  obtain out where out: "pb_encode_varint wr (pb_ostream_from_buffer 10 10) v = Some (Some (), out)"
    "o_state out = varint_spec (unat v)" "unat (bytes_written out) = length (varint_spec (unat v))"
    using obuf_writes [OF obuf.encodes_varint [of wr v], of 10 10] length_varint_u64 [of v] by auto
  let ?s = "pb_istream_from_buffer (varint_spec (unat v) @ rest) (bytes_written out)"
  show ?thesis
    using buffer.decode_varint32_spec [of ?s v rest rd] out
    by (auto simp: pb_decode_varint32_def advances_def split: if_splits)
qed

text \<open>Every 32-bit signed integer, sign-extended to 64 bits as \<open>pb_enc_varint\<close> writes
  it, is accepted by \<open>pb_decode_varint32\<close>; so is the plain unsigned form.\<close>

lemma varint32_int32_accepted:
  "accepts32 (unat (scast (x :: u32) :: u64)) \<and> accepts32 (unat (ucast x :: u64)) \<and>
   (ucast (scast x :: u64) :: u32) = x"
proof (intro conjI)
  show "accepts32 (unat (ucast x :: u64))"
    using unsigned_less [of x, where ?'a = nat] by (simp add: accepts32_def)
  show "(ucast (scast x :: u64) :: u32) = x"
    by (rule bit_word_eqI) (simp add: bit_simps)
  show "accepts32 (unat (scast x :: u64))"
  proof (cases "bit x 31")
    case False
    have "\<not> bit x n" if "31 \<le> n" for n
      using False that bit_imp_le_length [of x n] by (cases "n = 31") auto
    then have "scast x = (ucast x :: u64)"
      by (intro bit_word_eqI) (auto simp: bit_simps min_def)
    then show ?thesis using unsigned_less [of x, where ?'a = nat] by (simp add: accepts32_def)
  next
    case True
    have "drop_bit 31 (scast x :: u64) = mask 33"
      by (rule bit_word_eqI) (use True in \<open>auto simp: bit_simps min_def\<close>)
    then have "unat (scast x :: u64) div 2 ^ 31 = unat (mask 33 :: u64)"
      by (metis drop_bit_eq_div unat_drop_bit_eq)
    then have d: "unat (scast x :: u64) div 2 ^ 31 = 2 ^ 33 - 1"
      by (simp add: mask_eq_exp_minus_1)
    have "unat (scast x :: u64) div 2 ^ 35 = unat (scast x :: u64) div 2 ^ 31 div 2 ^ 4"
      by (simp add: div_mult2_eq [symmetric])
    then have "unat (scast x :: u64) div 2 ^ 35 = 2 ^ 29 - 1" unfolding d by simp
    moreover have "sign_groups (Suc (Suc (Suc (Suc 0)))) (2 ^ 29 - 1)" by simp
    moreover have "odd (2 ^ 33 - 1 :: nat)" by simp
    moreover have "(4 :: nat) = Suc (Suc (Suc (Suc 0)))" by simp
    ultimately show ?thesis unfolding accepts32_def d by (simp only: simp_thms)
  qed
qed

section \<open>Length-delimited values\<close>

text \<open>A string written by \<open>pb_encode_string\<close> is what
  \<open>pb_make_string_substream\<close> delimits: the substream holds exactly its bytes, and closing it,
  read or not, leaves the parent right behind them.\<close>

lemma string_substream:
  assumes "length bs < 2 ^ 32" and "unat n = length (varint_spec (length bs)) + length bs"
  shows "\<exists>out sub par par'.
     pb_encode_string wr (pb_ostream_from_buffer (unat n) n) (Some bs) (of_nat (length bs)) =
       Some (Some (), out) \<and>
     pb_make_string_substream rd (pb_istream_from_buffer (o_state out @ rest) (bytes_written out)) =
       Some (Some sub, par) \<and>
     take (unat (bytes_left sub)) (i_state sub) = bs \<and>
     pb_close_string_substream rd par sub = Some (Some (), par') \<and>
     i_state par' = rest \<and> bytes_left par' = 0"
proof -
  have lt: "length bs < 2 ^ 64" using assms(1) by simp
  obtain out where out: "pb_encode_string wr (pb_ostream_from_buffer (unat n) n) (Some bs) (of_nat (length bs)) =
       Some (Some (), out)"
    "o_state out = varint_spec (length bs) @ bs" "unat (bytes_written out) = unat n"
    using obuf_writes [OF obuf.encodes_string [OF lt, of wr], of n "unat n"] assms(2) by auto
  let ?v = "of_nat (length bs) :: u64"
  have v: "unat ?v = length bs" using lt by (intro unat_of_nat_lt) simp
  let ?s = "pb_istream_from_buffer (varint_spec (length bs) @ bs @ rest) (bytes_written out)"
  have "accepts32 (unat ?v)" using assms(1) v by (simp add: accepts32_def)
  then obtain s1 where s1: "pb_decode_varint32_eof rd ?s = Some (Some (ucast ?v), False, s1)"
    "advances buf_pending ?s (length (varint_spec (length bs))) s1"
    using buffer.decode_varint32_spec [of ?s ?v "bs @ rest" rd] v out(3) assms(2) by auto
  have cb: "i_callback s1 = Buf_read" and st: "i_state s1 = bs @ rest"
    and left: "unat (bytes_left s1) = length bs"
    using s1(2) assms(2) out(3) by (auto simp: advances_def)
  have n64: "unat (ucast (ucast ?v :: u32) :: u64) = length bs"
    using assms(1) v by (simp add: unsigned_ucast_eq unsigned_take_bit_eq take_bit_nat_eq_self)
  then have eq: "ucast (ucast ?v :: u32) = bytes_left s1"
    using left by (simp add: word_unat_eq_iff)
  let ?sub = "s1\<lparr>bytes_left := bytes_left s1\<rparr>"
  let ?par = "s1\<lparr>bytes_left := 0\<rparr>"
  have mk: "pb_make_string_substream rd ?s = Some (Some ?sub, ?par)"
    using s1(1) eq by (simp add: pb_make_string_substream_def pb_decode_varint32_def)
  have ok: "stream_ok buf_pending s1" using cb st left by (simp add: stream_ok_def)
  have "\<exists>p. pb_close_string_substream rd ?par ?sub = Some (Some (), p) \<and> i_state p = rest \<and> bytes_left p = 0"
  proof (cases "bytes_left s1 = 0")
    case True
    then show ?thesis using st left by (simp add: pb_close_string_substream_def)
  next
    case False
    from buffer.pb_read_skip [OF ok order_refl] obtain t where
      t: "pb_read rd s1 False (bytes_left s1) = Some (True, [], t)"
      "advances buf_pending s1 (unat (bytes_left s1)) t" .
    have "i_state t = rest" using t(2) cb st left by (auto simp: advances_def)
    with t(1) False show ?thesis by (simp add: pb_close_string_substream_def)
  qed
  with mk out st left show ?thesis by (auto simp del: append_assoc simp: append_assoc)
qed

lemma string_substream_witness:
  "\<exists>out sub par par'.
     pb_encode_string (\<lambda>_ _ _. None) (pb_ostream_from_buffer 4 4) (Some [1, 2, 3]) 3 = Some (Some (), out) \<and>
     pb_make_string_substream (\<lambda>_ _ _ _. None)
        (pb_istream_from_buffer (o_state out @ [9]) (bytes_written out)) = Some (Some sub, par) \<and>
     take (unat (bytes_left sub)) (i_state sub) = [1, 2, 3] \<and>
     pb_close_string_substream (\<lambda>_ _ _ _. None) par sub = Some (Some (), par') \<and>
     i_state par' = [9] \<and> bytes_left par' = 0"
  using string_substream [of "[1, 2, 3]" 4 "\<lambda>_ _ _. None" "\<lambda>_ _ _ _. None" "[9]"]
  by (simp add: varint_small)

section \<open>Skipping\<close>

text \<open>What a field's value looks like on the wire, by wire type. A varint may have any length:
  the skipper does not bound it.\<close>

definition payload :: "pb_wire_type \<Rightarrow> u8 list \<Rightarrow> bool" where
  "payload wt bs \<longleftrightarrow>
     (if wt = PB_WT_VARINT
      then bs \<noteq> [] \<and> (\<forall>b \<in> set (butlast bs). 128 \<le> unat b) \<and> unat (last bs) < 128
      else if wt = PB_WT_64BIT then length bs = 8
      else if wt = PB_WT_STRING
      then \<exists>k \<le> length bs. length bs - k < 2 ^ 32 \<and> take k bs = varint_spec (length bs - k)
      else wt = PB_WT_32BIT \<and> length bs = 4)"

context input_source
begin

lemma skip_varint_bytes:
  assumes "stream_ok pend s" and "pend s = xs @ b # rest" and "length xs < unat (bytes_left s)"
    and "\<forall>x \<in> set xs. 128 \<le> unat x" and "unat b < 128"
  shows "\<exists>s'. pb_skip_varint rd s = Some (Some (), s') \<and> advances pend s (length xs + 1) s'"
  using assms(1-4) unfolding pb_skip_varint_def
proof (induction xs arbitrary: s)
  case Nil
  have "1 \<le> bytes_left s" using Nil.prems(3) by (simp add: word_le_nat_alt)
  with Nil.prems(1) obtain s' where "pb_read rd s True 1 = Some (True, take (unat (1 :: u64)) (pend s), s')"
    "advances pend s (unat (1 :: u64)) s'" by (rule pb_read_ok)
  then show ?case
    using Nil.prems(2) assms(5)
    by (subst c_loop_exit [where r = "(Some (), s')"]) (auto simp: skip_varint_round_def and_80)
next
  case (Cons x xs)
  have "1 \<le> bytes_left s" using Cons.prems(3) by (simp add: word_le_nat_alt)
  with Cons.prems(1) obtain s1 where s1: "pb_read rd s True 1 = Some (True, take (unat (1 :: u64)) (pend s), s1)"
    "advances pend s (unat (1 :: u64)) s1" by (rule pb_read_ok)
  have "skip_varint_round rd s = Some (Inl s1)"
    using s1(1) Cons.prems(2,4) by (simp add: skip_varint_round_def and_80)
  then have "c_loop (skip_varint_round rd) s = c_loop (skip_varint_round rd) s1" by (rule c_loop_next)
  moreover have "\<exists>s'. c_loop (skip_varint_round rd) s1 = Some (Some (), s') \<and> advances pend s1 (length xs + 1) s'"
    using Cons.prems s1(2) by (intro Cons.IH advances_stream_ok [OF s1(2)]) (auto simp: advances_def)
  ultimately show ?case using advances_trans [OF s1(2)] by auto
qed

lemma skip_string_bytes:
  assumes "stream_ok pend s" and "pend s = varint_spec n @ bs @ rest" and "length bs = n" and "n < 2 ^ 32"
    and "length (varint_spec n) + n \<le> unat (bytes_left s)"
  shows "\<exists>s'. pb_skip_string rd s = Some (Some (), s') \<and> advances pend s (length (varint_spec n) + n) s'"
proof -
  have u: "unat (of_nat n :: u64) = n" using assms(4) by (intro unat_of_nat_lt) simp
  then have "accepts32 (unat (of_nat n :: u64))" using assms(4) by (simp add: accepts32_def)
  then obtain s1 where s1: "pb_decode_varint32_eof rd s = Some (Some (ucast (of_nat n :: u64)), False, s1)"
    "advances pend s (length (varint_spec n)) s1"
    using decode_varint32_spec [of s "of_nat n" "bs @ rest"] assms u by auto
  let ?c = "ucast (ucast (of_nat n :: u64) :: u32) :: u64"
  have c: "unat ?c = n"
    using assms(4) u by (simp add: unsigned_ucast_eq unsigned_take_bit_eq take_bit_nat_eq_self)
  have "?c \<le> bytes_left s1"
    unfolding word_le_nat_alt c using s1(2) assms(5) by (auto simp: advances_def)
  with advances_stream_ok [OF s1(2) assms(1)] obtain s2 where
    s2: "pb_read rd s1 False ?c = Some (True, [], s2)" "advances pend s1 (unat ?c) s2"
    by (rule pb_read_skip)
  show ?thesis
    using s1(1) s2(1) advances_trans [OF s1(2) s2(2) [unfolded c]]
    by (simp add: pb_skip_string_def pb_decode_varint32_def)
qed

lemma skip_field_payload:
  assumes "payload wt bs" and "stream_ok pend s" and "pend s = bs @ rest"
    and "length bs \<le> unat (bytes_left s)"
  shows "\<exists>s'. pb_skip_field rd s wt = Some (Some (), s') \<and> advances pend s (length bs) s'"
proof -
  have fixed: "\<exists>s'. read_ok (pb_read rd s False m) = Some (Some (), s') \<and> advances pend s (length bs) s'"
    if "length bs = unat m" for m
  proof -
    have "m \<le> bytes_left s" using that assms(4) by (simp add: word_le_nat_alt)
    with assms(2) show ?thesis using that by (elim pb_read_skip [of s m]) auto
  qed
  show ?thesis
  proof (cases "wt = PB_WT_VARINT")
    case True
    then have ne: "bs \<noteq> []" and more: "\<forall>b \<in> set (butlast bs). 128 \<le> unat b" and last: "unat (last bs) < 128"
      using assms(1) by (simp_all add: payload_def)
    have "pend s = butlast bs @ last bs # rest" using ne assms(3) by simp
    moreover have "length (butlast bs) + 1 = length bs" using ne by simp
    ultimately show ?thesis
      using skip_varint_bytes [OF assms(2) _ _ more last, of rest] assms(4) True
      by (auto simp: pb_skip_field_def)
  next
    case nv: False
    show ?thesis
    proof (cases "wt = PB_WT_STRING")
      case True
      then obtain k where k: "k \<le> length bs" "length bs - k < 2 ^ 32"
        "take k bs = varint_spec (length bs - k)"
        using assms(1) by (auto simp: payload_def)
      have "length (varint_spec (length bs - k)) = k" using k(1,3) by (metis length_take min.absorb2)
      moreover have "pend s = varint_spec (length bs - k) @ drop k bs @ rest"
        using assms(3) k(3) by (metis append.assoc append_take_drop_id)
      ultimately show ?thesis
        using skip_string_bytes [OF assms(2), of "length bs - k" "drop k bs" rest] assms(4) k(1,2) True
        by (simp add: pb_skip_field_def)
    next
      case False
      with nv assms(1) have "wt = PB_WT_64BIT \<and> length bs = 8 \<or> wt = PB_WT_32BIT \<and> length bs = 4"
        by (auto simp: payload_def split: if_splits)
      then show ?thesis using fixed [of 8] fixed [of 4] by (auto simp: pb_skip_field_def)
    qed
  qed
qed

end

text \<open>\<open>pb_skip_field\<close> steps over exactly the value of the field, for each of the four
  wire types, and over nothing behind it.\<close>

lemma skip_field_exact:
  assumes "payload wt bs" and "unat n = length bs"
  shows "\<exists>inp. pb_skip_field rd (pb_istream_from_buffer (bs @ rest) n) wt = Some (Some (), inp) \<and>
     i_state inp = rest \<and> bytes_left inp = 0"
  using buffer.skip_field_payload [OF assms(1), of "pb_istream_from_buffer (bs @ rest) n" rest rd]
    buf_advances [of bs rest n] assms(2)
  by auto

lemma skip_field_exact_witness:
  "\<exists>inp. pb_skip_field (\<lambda>_ _ _ _. None) (pb_istream_from_buffer ([2, 65, 66] @ [7]) 3) PB_WT_STRING =
       Some (Some (), inp) \<and> i_state inp = [7] \<and> bytes_left inp = 0"
proof (rule skip_field_exact)
  have "take 1 [2, 65, 66] = varint_spec (length [2, 65, 66 :: u8] - 1)" by (simp add: varint_small)
  then show "payload PB_WT_STRING [2, 65, 66]"
    unfolding payload_def by (auto intro!: exI [of _ 1])
qed simp

text \<open>C40: on any bytes and with any wire type, tag reading and skipping return, and leave the
  stream inside its buffer: what is left is a suffix of the input that still holds the declared
  \<open>bytes_left\<close>. (\<open>None\<close> would be a read outside the buffer, or a loop without end.)\<close>

lemma token_readers_in_bounds:
  assumes "unat n \<le> length bs"
  shows "\<exists>r1 eof s1 r2 s2 r3 s3.
     pb_decode_tag rd (pb_istream_from_buffer bs n) = Some (r1, eof, s1) \<and>
     pb_skip_field rd s1 wt = Some (r2, s2) \<and>
     read_raw_value rd s2 wt sz = Some (r3, s3) \<and>
     unat (bytes_left s3) \<le> unat n \<and> i_state s3 = drop (unat n - unat (bytes_left s3)) bs"
proof -
  let ?s = "pb_istream_from_buffer bs n"
  have ok: "stream_ok buf_pending ?s" using assms by simp
  obtain r1 eof s1 where 1: "pb_decode_tag rd ?s = Some (r1, eof, s1)" "moves buf_pending ?s s1"
    using buffer.decode_tag_reads [OF ok, of rd] by metis
  have ok1: "stream_ok buf_pending s1" using 1(2) ok by (rule moves_stream_ok)
  obtain r2 s2 where 2: "pb_skip_field rd s1 wt = Some (r2, s2)" "moves buf_pending s1 s2"
    using buffer.skip_field_safely [OF ok1, of rd wt] by (auto simp: safely_def)
  have ok2: "stream_ok buf_pending s2" using 2(2) ok1 by (rule moves_stream_ok)
  obtain r3 s3 where 3: "read_raw_value rd s2 wt sz = Some (r3, s3)" "moves buf_pending s2 s3"
    using buffer.read_raw_value_safely [OF ok2, of rd wt sz] by (auto simp: safely_def)
  have "moves buf_pending ?s s3" using 1(2) 2(2) 3(2) by (blast intro: moves_trans)
  with 1 2 3 show ?thesis by (auto simp: moves_def)
qed

lemma token_readers_in_bounds_witness:
  "\<exists>r1 eof s1 r2 s2 r3 s3.
     pb_decode_tag (\<lambda>_ _ _ _. None) (pb_istream_from_buffer [0x80, 0x80] 2) = Some (r1, eof, s1) \<and>
     pb_skip_field (\<lambda>_ _ _ _. None) s1 3 = Some (r2, s2) \<and>
     read_raw_value (\<lambda>_ _ _ _. None) s2 3 10 = Some (r3, s3) \<and>
     unat (bytes_left s3) \<le> unat (2 :: u64) \<and>
     i_state s3 = drop (unat (2 :: u64) - unat (bytes_left s3)) [0x80, 0x80]"
  by (rule token_readers_in_bounds) simp

text \<open>The bit position of the 32-bit reader is an eight-bit counter: after 37
  continuation bytes it has wrapped round to 3, so an overlong varint of 38 bytes, which is no
  32-bit number, is read as the value 8 instead of being reported as an overflow.\<close>

lemma varint32_bitpos_wraps:
  "\<exists>inp. pb_decode_varint32 rd (pb_istream_from_buffer (replicate 37 0x80 @ [1]) 38) = Some (Some 8, inp) \<and>
     bytes_left inp = 0 \<and> i_errmsg inp = None"
proof -
  have "map_option (\<lambda>(r, s). (r, bytes_left s, i_errmsg s))
      (pb_decode_varint32 rd (pb_istream_from_buffer (replicate 37 0x80 @ [1]) 38)) =
    Some (Some 8, 0, None)"
    by code_simp
  then show ?thesis by auto
qed

end
