(* ===== verification/Pb_Messages.thy ===== *)
theory Pb_Messages
  imports Pb_Enc_Refine Pb_Wire_Props
begin

text \<open>
  Message types the pods really send: the descriptor arrays of
  \<open>client_metrics.nanopb.c\<close> (the metrics GoogleDataTransport uploads about itself), with the
  offsets and sizes the compiler gives their structures on a 64-bit target. Then the properties of
  the message encoder, with such a message as their instance.
\<close>

section \<open>client\_metrics.nanopb.c\<close>

definition gdt_client_metrics_TimeWindow_fields :: "pb_field list" where
  "gdt_client_metrics_TimeWindow_fields =
     [PB_SINGULAR_STATIC 1 0 8 PB_LTYPE_VARINT PtrNull,
      PB_SINGULAR_STATIC 2 0 8 PB_LTYPE_VARINT PtrNull]"

definition gdt_client_metrics_StorageMetrics_fields :: "pb_field list" where
  "gdt_client_metrics_StorageMetrics_fields =
     [PB_SINGULAR_STATIC 1 0 8 PB_LTYPE_VARINT PtrNull,
      PB_SINGULAR_STATIC 2 0 8 PB_LTYPE_VARINT PtrNull]"

definition gdt_client_metrics_GlobalMetrics_fields :: "pb_field list" where
  "gdt_client_metrics_GlobalMetrics_fields =
     [PB_SINGULAR_STATIC 1 0 16 PB_LTYPE_SUBMESSAGE
        (PtrFields gdt_client_metrics_StorageMetrics_fields)]"

definition gdt_client_metrics_LogEventDropped_fields :: "pb_field list" where
  "gdt_client_metrics_LogEventDropped_fields =
     [PB_SINGULAR_STATIC 1 0 8 PB_LTYPE_VARINT PtrNull,
      PB_SINGULAR_STATIC 3 0 4 PB_LTYPE_UVARINT PtrNull]"

definition gdt_client_metrics_LogSourceMetrics_fields :: "pb_field list" where
  "gdt_client_metrics_LogSourceMetrics_fields =
     [PB_SINGULAR_POINTER 1 0 8 PB_LTYPE_BYTES PtrNull,
      PB_REPEATED_POINTER 2 8 (- 8) 16 PB_LTYPE_SUBMESSAGE
        (PtrFields gdt_client_metrics_LogEventDropped_fields)]"

definition gdt_client_metrics_ClientMetrics_fields :: "pb_field list" where
  "gdt_client_metrics_ClientMetrics_fields =
     [PB_SINGULAR_STATIC 1 0 16 PB_LTYPE_SUBMESSAGE
        (PtrFields gdt_client_metrics_TimeWindow_fields),
      PB_REPEATED_POINTER 2 8 (- 8) 24 PB_LTYPE_SUBMESSAGE
        (PtrFields gdt_client_metrics_LogSourceMetrics_fields),
      PB_SINGULAR_STATIC 3 0 16 PB_LTYPE_SUBMESSAGE
        (PtrFields gdt_client_metrics_GlobalMetrics_fields),
      PB_SINGULAR_POINTER 4 0 8 PB_LTYPE_BYTES PtrNull]"

section \<open>A message in memory\<close>

definition bytes_map :: "(u64 \<times> u8 list) list \<Rightarrow> u64 \<Rightarrow> u8 option" where
  "bytes_map segs x =
     (case filter (\<lambda>(a, bs). x - a < of_nat (length bs)) segs of
        [] \<Rightarrow> None
      | (a, bs) # _ \<Rightarrow> Some (bs ! unat (x - a)))"

text \<open>A \<open>ClientMetrics\<close> at \<open>64\<close>: a window starting at 150, one log source \<open>AB\<close> with
  one entry of five events dropped for reason 2, and nothing else.\<close>

definition demo_memory :: memory where
  "demo_memory =
     \<lparr>m_bytes = bytes_map
        [(64, [150, 0, 0, 0, 0, 0, 0, 0, 0, 0, 0, 0, 0, 0, 0, 0, 1, 0, 0, 0, 0, 0, 0, 0, 128, 0, 0, 0, 0, 0, 0, 0, 0, 0, 0, 0, 0, 0, 0, 0, 0, 0, 0, 0, 0, 0, 0, 0, 0, 0, 0, 0, 0, 0, 0, 0]),
         (128, [160, 0, 0, 0, 0, 0, 0, 0, 1, 0, 0, 0, 0, 0, 0, 0, 176, 0, 0, 0, 0, 0, 0, 0]),
         (160, [2, 0, 0, 0, 65, 66]),
         (176, [5, 0, 0, 0, 0, 0, 0, 0, 2, 0, 0, 0, 0, 0, 0, 0])],
      m_heap = (\<lambda>_. None)\<rparr>"

definition demo_ctx :: enc_ctx where
  "demo_ctx =
     \<lparr>ec_write = (\<lambda>_ _ _. None), ec_mem = demo_memory, ec_callback = (\<lambda>_ _ _ _. None),
      ec_exttype = (\<lambda>_. None), ec_extencode = (\<lambda>_ _ _. None)\<rparr>"

definition demo_spec :: enc_spec where
  "demo_spec =
     \<lparr>es_ctx = demo_ctx, es_callback = (\<lambda>_ _ _. None), es_extencode = (\<lambda>_ _. None), es_chain = 0\<rparr>"

lemma demo_bytes:
  "msg_bytes demo_spec 4 gdt_client_metrics_ClientMetrics_fields 64 =
     Some [0x0A, 3, 0x08, 0x96, 0x01,
           0x12, 10, 0x0A, 2, 65, 66, 0x12, 4, 0x08, 5, 0x18, 2]"
  by code_simp

section \<open>Properties of the message encoder\<close>

lemma fresh_buffer_ok:
  "o_ok buf_room (pb_ostream_from_buffer (unat n) n)"
  "o_fits (pb_ostream_from_buffer (unat n) n) k \<longleftrightarrow> k \<le> unat n"
  by (simp_all add: pb_ostream_from_buffer_def o_ok_def o_fits_def buf_room_def)

lemma encodes_to_buffer:
  assumes "encodes buf_room buf_out F bs" and "length bs < 2 ^ 64"
  shows "\<exists>r s'. F (pb_ostream_from_buffer (unat n) n) = Some (r, s') \<and> prefix (o_state s') bs \<and>
    (if length bs \<le> unat n
     then r = Some () \<and> o_state s' = bs \<and> unat (bytes_written s') = length bs
     else r = None \<and> o_errmsg s' = Some E_stream_full)"
proof (cases "length bs \<le> unat n")
  case True
  from obuf_writes [OF assms(1) True order_refl] obtain s' where
    "F (pb_ostream_from_buffer (unat n) n) = Some (Some (), s')" "o_state s' = bs"
    "unat (bytes_written s') = length bs" .
  with True show ?thesis by simp
next
  case False
  have "unat (bytes_written (pb_ostream_from_buffer (unat n) n)) + length bs < 2 ^ 64"
    using assms(2) by (simp add: pb_ostream_from_buffer_def)
  with assms(1) fresh_buffer_ok False obtain s' cs where
    "F (pb_ostream_from_buffer (unat n) n) = Some (None, s')" "prefix cs bs"
    "buf_out s' = buf_out (pb_ostream_from_buffer (unat n) n) @ cs" "o_errmsg s' = Some E_stream_full"
    by (metis encodes_full)
  with False show ?thesis by (simp add: buf_out_def pb_ostream_from_buffer_def)
qed

lemma demo_user_ok: "user_ok room out demo_spec"
  by (simp add: user_ok_def demo_spec_def)



text \<open>\<open>pb_get_encoded_size\<close> returns the number of bytes the message takes.\<close>

lemma encoded_size_correct:
  assumes "user_ok buf_room buf_out sp" and "msg_bytes sp d fs a = Some bs" and "length bs < 2 ^ 64"
  shows "pb_get_encoded_size (es_ctx sp) d fs a = Some (Some (of_nat (length bs)))"
  using encodes_sizing [OF obuf.encodes_message [OF refl assms], of PB_OSTREAM_SIZING]
  by (simp add: pb_get_encoded_size_def PB_OSTREAM_SIZING_def)

lemma encoded_size_correct_witness:
  "pb_get_encoded_size demo_ctx 4 gdt_client_metrics_ClientMetrics_fields 64 = Some (Some 17)"
  using encoded_size_correct [OF demo_user_ok demo_bytes] by (simp add: demo_spec_def)

text \<open>\<open>pb_encode_delimited\<close>, which encodes the message twice, puts the length of the
  message in front of it as a varint.\<close>

lemma encode_delimited_correct:
  assumes "user_ok buf_room buf_out sp" and "msg_bytes sp d fs a = Some bs"
    and "length (delimited bs) < 2 ^ 64"
  shows "\<exists>r s'. pb_encode_delimited (es_ctx sp) d fs a (pb_ostream_from_buffer (unat n) n) = Some (r, s') \<and>
    prefix (o_state s') (varint_spec (length bs) @ bs) \<and>
    (if length (varint_spec (length bs) @ bs) \<le> unat n
     then r = Some () \<and> o_state s' = varint_spec (length bs) @ bs \<and>
       unat (bytes_written s') = length (varint_spec (length bs) @ bs)
     else r = None \<and> o_errmsg s' = Some E_stream_full)"
proof -
  have len: "length bs < 2 ^ 64" using assms(3) by (simp add: delimited_def)
  from obuf.encodes_submessage
    [where enc = "pb_encode (es_ctx sp) d" and fs = fs and a = a and ec = "es_ctx sp", OF obuf.encodes_message [OF refl assms(1,2) len] len refl]
  have "encodes buf_room buf_out (pb_encode_delimited (es_ctx sp) d fs a) (delimited bs)"
    by (simp add: pb_encode_delimited_def [abs_def])
  from encodes_to_buffer [OF this assms(3), of n] show ?thesis unfolding delimited_def .
qed

lemma encode_delimited_correct_witness:
  "\<exists>s'. pb_encode_delimited demo_ctx 4 gdt_client_metrics_ClientMetrics_fields 64
      (pb_ostream_from_buffer (unat (20 :: u64)) 20) = Some (Some (), s') \<and>
    take 3 (o_state s') = [17, 0x0A, 3]"
  using encode_delimited_correct [OF demo_user_ok demo_bytes, of 20]
  by (auto simp: demo_spec_def delimited_def varint_small)

text \<open>\<open>pb_encode_nullterminated\<close> puts a zero byte behind the message.\<close>

lemma encode_nullterminated_correct:
  assumes "user_ok buf_room buf_out sp" and "msg_bytes sp d fs a = Some bs" and "length bs + 1 < 2 ^ 64"
  shows "\<exists>r s'. pb_encode_nullterminated (es_ctx sp) d fs a (pb_ostream_from_buffer (unat n) n) = Some (r, s') \<and>
    prefix (o_state s') (bs @ [0]) \<and>
    (if length (bs @ [0]) \<le> unat n
     then r = Some () \<and> o_state s' = bs @ [0] \<and> unat (bytes_written s') = length (bs @ [0])
     else r = None \<and> o_errmsg s' = Some E_stream_full)"
proof -
  have len: "length bs < 2 ^ 64" using assms(3) by simp
  from encodes_seq [OF obuf.encodes_message [OF refl assms(1,2) len] obuf.encodes_write [of "[0]"]]
  have "encodes buf_room buf_out (pb_encode_nullterminated (es_ctx sp) d fs a) (bs @ [0])"
    by (simp add: pb_encode_nullterminated_def [abs_def])
  then show ?thesis using assms(3) by (intro encodes_to_buffer) simp_all
qed

lemma encode_nullterminated_correct_witness:
  "\<exists>s'. pb_encode_nullterminated demo_ctx 4 gdt_client_metrics_ClientMetrics_fields 64
      (pb_ostream_from_buffer (unat (18 :: u64)) 18) = Some (Some (), s') \<and> last (o_state s') = 0"
  using encode_nullterminated_correct [OF demo_user_ok demo_bytes, of 18] by (auto simp: demo_spec_def)

section \<open>Maximum sizes\<close>

lemma bytes_zero_total: "mapped m a n \<Longrightarrow> \<exists>b. bytes_zero m a n = Some b"
  by (induction n arbitrary: a) (auto simp: mapped_Suc load_u8_def split: option.splits)

lemma load_u64_total: "mapped m a 8 \<Longrightarrow> \<exists>v. load_u64 m a = Some v"
  by (erule load_mapped) (simp add: load_u64_def)

lemma mapped_add: "mapped m a (n + k) \<Longrightarrow> mapped m (a + of_nat n) k"
proof -
  assume m: "mapped m a (n + k)"
  have "span (a + of_nat n) k \<subseteq> span a (n + k)"
  proof
    fix x assume "x \<in> span (a + of_nat n) k"
    then obtain i where "i < k" "x = a + of_nat (n + i)" by (auto simp: span_def add.assoc)
    then show "x \<in> span a (n + k)" unfolding span_def by (intro image_eqI [of _ _ "n + i"]) simp_all
  qed
  with m show ?thesis by (auto simp: mapped_def)
qed

text \<open>A proto3 \<open>int64\<close> field with a tag below 16 takes at most eleven bytes.\<close>

lemma int64_field_bytes:
  assumes "mapped m a 8" and "0 < d" and "unat t < 16"
  shows "\<exists>bs. basic_bytes d m msg (PB_SINGULAR_STATIC t fd 8 PB_LTYPE_VARINT PtrNull) a = Some bs \<and>
    length bs \<le> 11"
proof -
  from assms(2) obtain e where d: "d = Suc e" by (cases d) simp_all
  from bytes_zero_total [OF assms(1)] obtain z where z: "bytes_zero m a 8 = Some z" by blast
  from load_u64_total [OF assms(1)] obtain v where v: "load_u64 m a = Some v" by blast
  have "length (tag_bytes 0 t) \<le> 1"
    unfolding tag_bytes_def by (rule length_varint_spec) (use assms(3) in simp_all)
  moreover have "length (varint_spec (unat v)) \<le> 10" by (rule length_varint_u64)
  ultimately show ?thesis
    using z v
    by (cases z) (simp_all add: d basic_bytes_def Let_def pb_field_macros pb_type_defs implicit_presence_def
        proto3_default_step_def proto3_singular_default_def read_has_def keyed_bytes_def
        wire_type_of_ltype_def value_bytes_def scalar_at_def)
qed

text \<open>The maximum size the generated header states for a \<open>TimeWindow\<close> is right: whatever the
  structure holds, a buffer of \<open>gdt_client_metrics_TimeWindow_size\<close> bytes, 22, is enough.\<close>

lemma timewindow_size_enough:
  assumes "mapped (ec_mem ec) a 16" and "a \<noteq> 0"
  shows "\<exists>s'. pb_encode ec (Suc d) gdt_client_metrics_TimeWindow_fields a
      (pb_ostream_from_buffer 22 22) = Some (Some (), s')"
proof -
  let ?fs = gdt_client_metrics_TimeWindow_fields and ?m = "ec_mem ec"
  let ?sp = "\<lparr>es_ctx = ec, es_callback = (\<lambda>_ _ _. None), es_extencode = (\<lambda>_ _. None), es_chain = 0\<rparr>"
  have user: "user_ok buf_room buf_out ?sp" by (simp add: user_ok_def)
  have m8: "mapped ?m a 8" "mapped ?m (a + 8) 8"
    using mapped_mono [OF assms(1), of 8] mapped_add [of ?m a 8 8] assms(1) by simp_all
  have wf: "wf_fields ?fs"
    by (simp add: wf_fields_def gdt_client_metrics_TimeWindow_fields_def pb_field_macros)
  have its: "iters_of ?fs a = [iter_nth ?fs a 0, iter_nth ?fs a 1]"
    by (simp add: iters_of_def gdt_client_metrics_TimeWindow_fields_def)
  have pd: "pData (iter_nth ?fs a 0) = a" "pData (iter_nth ?fs a 1) = a + 8"
    using iter_data_position [OF wf _ assms(2), of 0] iter_data_position [OF wf _ assms(2), of 1]
    by (simp_all add: gdt_client_metrics_TimeWindow_fields_def pb_field_macros pb_type_defs prev_field_size_def)
  have fld: "it_field (iter_nth ?fs a 0) = PB_SINGULAR_STATIC 1 0 8 PB_LTYPE_VARINT PtrNull"
    "it_field (iter_nth ?fs a 1) = PB_SINGULAR_STATIC 2 0 8 PB_LTYPE_VARINT PtrNull"
    using iter_nth_fields [OF wf, of 0 a] iter_nth_fields [OF wf, of 1 a]
    by (simp_all add: gdt_client_metrics_TimeWindow_fields_def field_at_def)
  obtain xs ys where "basic_bytes (Suc d) ?m (msg_bytes ?sp d) (it_field (iter_nth ?fs a 0)) a = Some xs"
    "length xs \<le> 11" "basic_bytes (Suc d) ?m (msg_bytes ?sp d) (it_field (iter_nth ?fs a 1)) (a + 8) = Some ys"
    "length ys \<le> 11"
    using int64_field_bytes [OF m8(1), of "Suc d" 1 "msg_bytes ?sp d" 0]
      int64_field_bytes [OF m8(2), of "Suc d" 2 "msg_bytes ?sp d" 0] unfolding fld by auto
  then have "msg_bytes ?sp (Suc d) ?fs a = Some (xs @ ys)" and len: "length (xs @ ys) \<le> 22"
    using wf pd fld
    by (simp_all add: its message_field_bytes_def field_bytes_def pb_field_macros pb_type_defs)
  then have "encodes buf_room buf_out (pb_encode ec (Suc d) ?fs a) (xs @ ys)"
    using obuf.encodes_message [of ?sp "ec_write ec" "Suc d" ?fs a "xs @ ys"] user by simp
  from encodes_to_buffer [OF this, of 22] len show ?thesis by auto
qed

lemma timewindow_size_enough_witness:
  "\<exists>s'. pb_encode demo_ctx (Suc 0) gdt_client_metrics_TimeWindow_fields 64
      (pb_ostream_from_buffer 22 22) = Some (Some (), s')"
proof (rule timewindow_size_enough)
  have "load (ec_mem demo_ctx) 64 16 = Some [150, 0, 0, 0, 0, 0, 0, 0, 0, 0, 0, 0, 0, 0, 0, 0]"
    by code_simp
  then show "mapped (ec_mem demo_ctx) 64 16" using load_Some_iff by blast
qed simp

end
