(* ===== verification/Pb_Dec_Props.thy ===== *)
theory Pb_Dec_Props
  imports Pb_Dec_Msg Pb_Messages
begin

text \<open>
  Properties of the message decoder: safety on arbitrary input, the values it stores, allocation
  sizes, required fields, and the corners where it misbehaves.
\<close>

section \<open>Safety\<close>

definition dec_no_user :: "user_read \<Rightarrow> dec_ctx" where
  "dec_no_user r = \<lparr>dc_read = r, dc_alloc = \<lparr>a_pick = (\<lambda>_ _ _. 0), a_junk = (\<lambda>_. 0)\<rparr>,
     dc_callback = (\<lambda>_ _ _ _. None), dc_exttype = (\<lambda>_. None), dc_extdecode = (\<lambda>_ _ _ _ _. None)\<rparr>"


lemma timewindow_fits: "msg_fits 1 (span 64 16) gdt_client_metrics_TimeWindow_fields 64"
  by code_simp


section \<open>Allocation sizes\<close>

lemma product_fits:
  assumes "a \<noteq> 0"
  shows "((d \<ge> 2 ^ 32 \<or> a \<ge> 2 ^ 32) \<and> - 1 div a < (d :: u64)) \<longleftrightarrow> 2 ^ 64 \<le> unat a * unat d"
proof -
  have big: "unat (2 ^ 32 :: u64) = 2 ^ 32" "unat (- 1 :: u64) = 2 ^ 64 - 1"
    by (simp_all add: unsigned_minus_1_eq_mask mask_eq_exp_minus_1)
  have a: "0 < unat a" using assms by (simp add: unat_gt_0)
  have "- 1 div a < d \<longleftrightarrow> (2 ^ 64 - 1) div unat a < unat d"
    unfolding word_less_nat_alt unat_div big(2) ..
  also have "\<dots> \<longleftrightarrow> 2 ^ 64 \<le> unat a * unat d"
    using a by (simp add: div_less_iff_less_mult mult.commute) linarith
  finally have div: "- 1 div a < d \<longleftrightarrow> 2 ^ 64 \<le> unat a * unat d" .
  have "unat a * unat d < 2 ^ 64" if "\<not> (d \<ge> 2 ^ 32 \<or> a \<ge> 2 ^ 32)"
  proof -
    have "unat a < 2 ^ 32" "unat d < 2 ^ 32"
      using that unfolding word_le_nat_alt big(1) by (simp_all add: not_le)
    then have "unat a * unat d < 2 ^ 32 * 2 ^ 32" by (intro mult_strict_mono) simp_all
    then show ?thesis by simp
  qed
  with div show ?thesis by (meson not_less)
qed

text \<open>The multiplication check of \<open>allocate_field\<close> is exact: a request is refused as too
  large exactly if its size in bytes is no 64-bit number, and otherwise \<open>realloc\<close> gets that size,
  not a wrapped one.\<close>

theorem allocate_field_exact:
  "allocate_field dc pd data_sz array_sz st =
     Option.bind (load_u64 (snd st) pd) (\<lambda>ptr.
       if unat array_sz * unat data_sz = 0 then d_error E_invalid_size st
       else if 2 ^ 64 \<le> unat array_sz * unat data_sz then d_error E_size_too_large st
       else Option.bind (c_realloc (dc_alloc dc) (snd st) ptr (of_nat (unat array_sz * unat data_sz)))
         (\<lambda>(p, m). if p = 0 then d_error E_realloc_failed (fst st, m)
                   else on_mem (\<lambda>m. store_u64 m pd p) (fst st, m)))"
proof (cases "data_sz = 0 \<or> array_sz = 0")
  case True
  then have "unat array_sz * unat data_sz = 0" by auto
  with True show ?thesis by (simp add: allocate_field_def)
next
  case False
  then have nz: "unat array_sz * unat data_sz \<noteq> 0" by (simp add: unat_eq_0)
  have size: "array_sz * data_sz = of_nat (unat array_sz * unat data_sz)" by simp
  show ?thesis
    unfolding allocate_field_def product_fits [OF conjunct2 [OF False [unfolded de_Morgan_disj]]] size
    using False nz by (simp del: of_nat_mult)
qed

section \<open>Stored values\<close>

lemma le_bytes_mod: "le_bytes n (x mod 256 ^ n) = le_bytes n x"
proof (induction n arbitrary: x)
  case (Suc n)
  have "(x mod (256 * 256 ^ n)) div 256 = x div 256 mod 256 ^ n"
    by (simp add: mod_mult2_eq)
  moreover have "(of_nat (x mod (256 * 256 ^ n)) :: u8) = of_nat x"
    by (simp add: word_unat_eq_iff unat_of_nat take_bit_eq_mod mod_mult2_eq del: of_nat_add of_nat_mult)
  ultimately show ?case using Suc.IH by simp
qed simp

lemma unat_ucast_small:
  "unat (ucast (v :: u64) :: u32) = unat v mod 2 ^ 32" "unat (ucast v :: u16) = unat v mod 2 ^ 16"
  "unat (ucast v :: u8) = unat v mod 2 ^ 8"
  by (simp_all add: unsigned_ucast_eq take_bit_eq_mod)

lemma clamped_unsigned:
  "ucast (ucast (v :: u64) :: u32) = v \<longleftrightarrow> unat v < 2 ^ 32"
  "ucast (ucast v :: u16) = v \<longleftrightarrow> unat v < 2 ^ 16"
  "ucast (ucast v :: u8) = v \<longleftrightarrow> unat v < 2 ^ 8"
proof -
  have m: "x mod 2 ^ k = x \<longleftrightarrow> x < 2 ^ k" for x k :: nat
    by (metis mod_less mod_less_divisor zero_less_numeral zero_less_power)
  have u: "unat (ucast (w :: u16) :: u64) = unat w" for w
    by transfer (simp add: take_bit_eq_mod)
  show "ucast (ucast (v :: u64) :: u32) = v \<longleftrightarrow> unat v < 2 ^ 32"
    unfolding word_unat_eq_iff unat_ucast_u32_u64 unat_ucast_small(1) by (rule m)
  show "ucast (ucast v :: u16) = v \<longleftrightarrow> unat v < 2 ^ 16"
    unfolding word_unat_eq_iff u unat_ucast_small(2) by (rule m)
  show "ucast (ucast v :: u8) = v \<longleftrightarrow> unat v < 2 ^ 8"
    unfolding word_unat_eq_iff unat_ucast_u8_u64 unat_ucast_small(3) by (rule m)
qed

lemma store_narrow:
  "store_u64 m a v = store m a (le_bytes 8 (unat v))"
  "store_u32 m a (ucast v) = store m a (le_bytes 4 (unat v))"
  "store_u16 m a (ucast v) = store m a (le_bytes 2 (unat v))"
  "store_u8 m a (ucast v) = store m a (le_bytes 1 (unat v))"
proof -
  show "store_u32 m a (ucast v) = store m a (le_bytes 4 (unat v))"
    using le_bytes_mod [of 4 "unat v"] by (simp add: store_u32_def unat_ucast_small del: store.simps le_bytes.simps)
  show "store_u16 m a (ucast v) = store m a (le_bytes 2 (unat v))"
    using le_bytes_mod [of 2 "unat v"] by (simp add: store_u16_def unat_ucast_small del: store.simps le_bytes.simps)
  show "store_u8 m a (ucast v) = store m a (le_bytes 1 (unat v))"
    by (simp add: store_u8_def)
qed (simp add: store_u64_def)

text \<open>An unsigned varint is decoded into a field of one, two, four or eight bytes exactly
  if it fits there; the field then holds it, little-endian. One that does not fit is reported, after
  its low bytes have been stored.\<close>

theorem uvarint_field_exact:
  fixes v :: u64
  assumes "data_size f \<in> {1, 2, 4, 8}"
    and "mapped m dest (unat (data_size f))" and "dc_read dc = rd"
    and "length (varint_spec (unat v)) \<le> unat n" and "unat n \<le> length (varint_spec (unat v) @ rest)"
  shows "\<exists>r s' m'. pb_dec_uvarint dc f dest (pb_istream_from_buffer (varint_spec (unat v) @ rest) n, m) =
      Some (r, (s', m')) \<and>
    (r \<noteq> None \<longleftrightarrow> unat v < 256 ^ unat (data_size f)) \<and>
    (r = None \<longrightarrow> i_errmsg s' = Some E_integer_too_large) \<and>
    store m dest (le_bytes (unat (data_size f)) (unat v)) = Some m' \<and> i_state s' = rest"
proof -
  let ?s = "pb_istream_from_buffer (varint_spec (unat v) @ rest) n"
  have "stream_ok buf_pending ?s" using assms(5) by simp
  then obtain s1 where s1: "pb_decode_varint rd ?s = Some (Some v, s1)"
    "advances buf_pending ?s (length (varint_spec (unat v))) s1"
    by (rule buffer.decode_varint_spec) (use assms(4) in simp_all)
  have st: "i_state s1 = rest" "i_errmsg s1 = None"
    using advances_buffer [OF s1(2)] by simp_all
  obtain m' where m': "store m dest (le_bytes (unat (data_size f)) (unat v)) = Some m'"
    by (rule store_total [of m dest "le_bytes (unat (data_size f)) (unat v)"]) (use assms(2) in simp_all)
  have "data_size f = 1 \<or> data_size f = 2 \<or> data_size f = 4 \<or> data_size f = 8" using assms(1) by simp
  then show ?thesis
    using s1(1) st m' assms(3) unsigned_less [of v, where ?'a = nat]
    by (elim disjE) (auto simp: pb_dec_uvarint_def on_stream_def on_mem_def store_narrow check_clamped_def
        clamped_unsigned d_error_def i_error_def PB_SET_ERROR_def simp del: store.simps le_bytes.simps)
qed

lemma uvarint_field_exact_witness:
  "\<exists>r s' m'. pb_dec_uvarint (dec_no_user (\<lambda>_ _ _ _. None)) (PB_REQUIRED_STATIC 1 0 2 PB_LTYPE_UVARINT PtrNull) 64
      (pb_istream_from_buffer (varint_spec (unat (300 :: u64)) @ [7]) 3, demo_memory) = Some (r, (s', m')) \<and>
    (r \<noteq> None \<longleftrightarrow> unat (300 :: u64) < 256 ^ unat (2 :: u32)) \<and>
    (r = None \<longrightarrow> i_errmsg s' = Some E_integer_too_large) \<and>
    store demo_memory 64 (le_bytes (unat (2 :: u32)) (unat (300 :: u64))) = Some m' \<and> i_state s' = [7]"
proof -
  let ?f = "PB_REQUIRED_STATIC 1 0 2 PB_LTYPE_UVARINT PtrNull" and ?dc = "dec_no_user (\<lambda>_ _ _ _. None)"
  have "load demo_memory 64 2 = Some [150, 0]" by code_simp
  then have "mapped demo_memory 64 (unat (2 :: u32))" using load_Some_iff by auto
  moreover have "length (varint_spec (unat (300 :: u64))) = 2" by code_simp
  ultimately show ?thesis
    using uvarint_field_exact [of ?f demo_memory 64 ?dc _ 300 3 "[7]"]
    by (simp add: pb_field_macros dec_no_user_def del: store.simps le_bytes.simps)
qed

section \<open>Required fields\<close>

definition seen_bit :: "u32 \<Rightarrow> u32 \<Rightarrow> nat \<Rightarrow> bool" where
  "seen_bit s0 s1 i \<longleftrightarrow> bit (if i < 32 then s0 else s1) (i mod 32)"

lemma word_index_parts:
  "unat (drop_bit 5 (n :: u32)) = unat n div 32" "unat (n AND 31) = unat n mod 32"
proof -
  show "unat (drop_bit 5 n) = unat n div 32" by (simp add: drop_bit_eq_div unat_div)
  have "unat (n AND 31) = unat n AND mask 5" by (simp add: unsigned_and_eq mask_eq_exp_minus_1)
  then show "unat (n AND 31) = unat n mod 32" by (simp add: take_bit_eq_mask [symmetric] take_bit_eq_mod)
qed

lemma all_ones_iff: "(x :: u32) = - 1 \<longleftrightarrow> (\<forall>i < 32. bit x i)"
  by (auto simp: bit_eq_iff dest: bit_imp_le_length intro!: bit_word_eqI)

lemma low_ones_iff:
  assumes "k < 32" and "\<forall>i. bit (x :: u32) i \<longrightarrow> i < k"
  shows "x = drop_bit (32 - k) (- 1) \<longleftrightarrow> (\<forall>i < k. bit x i)"
proof -
  have b: "bit (drop_bit (32 - k) (- 1 :: u32)) i \<longleftrightarrow> i < k" for i
    using assms(1) by (auto simp: bit_simps)
  show ?thesis
  proof
    assume "x = drop_bit (32 - k) (- 1)"
    then show "\<forall>i < k. bit x i" using b by blast
  next
    assume "\<forall>i < k. bit x i"
    then show "x = drop_bit (32 - k) (- 1)" by (intro bit_word_eqI) (use assms(2) b in blast)
  qed
qed

lemma all_seen_bits:
  assumes "i < 32"
  shows "seen_bit s0 s1 i = bit s0 i" and "seen_bit s0 s1 (32 + i) = bit s1 i"
  using assms by (simp_all add: seen_bit_def)

lemma all_below_split: "(\<forall>i < 32 + (k :: nat). P i) \<longleftrightarrow> (\<forall>i < 32. P i) \<and> (\<forall>i < k. P (32 + i))"
proof (intro iffI conjI allI impI)
  fix i assume "(\<forall>i < 32. P i) \<and> (\<forall>i < k. P (32 + i))" "i < 32 + k"
  then show "P i" by (cases "i < 32") (auto dest: spec [of _ "i - 32"])
qed simp_all

text \<open>The bitwise check of \<open>fields_seen\<close> is exact, given that no bit of a later field is set.\<close>

lemma all_seen_exact:
  assumes le: "unat n \<le> 64" and high: "\<forall>i < 64. seen_bit s0 s1 i \<longrightarrow> i < unat n"
  shows "all_seen n s0 s1 \<longleftrightarrow> (\<forall>i < unat n. seen_bit s0 s1 i)"
proof -
  note d = word_index_parts(1) [of n] and a = word_index_parts(2) [of n]
  have z: "n AND 31 = 0 \<longleftrightarrow> unat n mod 32 = 0" using a by (metis unat_eq_0)
  have "n AND 31 \<le> 32" using a by (simp add: word_le_nat_alt)
  then have s: "unat (32 - (n AND 31)) = 32 - unat n mod 32" using a by (simp add: unat_sub)
  have h0: "bit s0 i \<longrightarrow> i < unat n" for i
    using high all_seen_bits(1) [of i s0 s1] bit_imp_le_length [of s0 i] by fastforce
  have h1: "bit s1 i \<longrightarrow> 32 + i < unat n" for i
    using high all_seen_bits(2) [of i s0 s1] bit_imp_le_length [of s1 i] by fastforce
  have ones: "bit x i" if "x = - 1" "i < 32" for x :: u32 and i using that by (simp add: bit_simps)
  note unf = all_seen_def Let_def d z s
  consider "unat n < 32" | k where "unat n = 32 + k" "k < 32" | "unat n = 64"
    using le by (metis add.commute le_add_diff_inverse2 less_diff_conv2 linorder_not_less nat_add_left_cancel_less
        numeral_Bit0 order_le_less)
  then show ?thesis
  proof cases
    case 1
    have "s0 = drop_bit (32 - unat n) (- 1) \<longleftrightarrow> (\<forall>i < unat n. bit s0 i)"
      by (rule low_ones_iff) (use 1 h0 in auto)
    then show ?thesis using 1 by (cases "unat n = 0") (auto simp: unf all_seen_bits)
  next
    case (2 k)
    have "s1 = drop_bit (32 - k) (- 1) \<longleftrightarrow> (\<forall>i < k. bit s1 i)"
      by (rule low_ones_iff) (use 2 h1 in auto)
    moreover have "(32 + k) mod 32 = k" "(32 + k) div 32 = 1" using 2(2) by simp_all
    moreover have "k = 0 \<Longrightarrow> \<forall>i < k. bit s1 i" by simp
    ultimately show ?thesis
      using 2 by (cases "k = 0") (auto simp: unf all_seen_bits all_below_split all_ones_iff)
  next
    case 3
    have "all_seen n s0 s1 \<longleftrightarrow> s0 = - 1 \<and> s1 = - 1" using 3 by (simp add: unf upt_rec numeral_2_eq_2)
    moreover have "(\<forall>i < (64 :: nat). seen_bit s0 s1 i) \<longleftrightarrow> (\<forall>i < 32. bit s0 i) \<and> (\<forall>i < 32. bit s1 i)"
      using all_below_split [of 32 "seen_bit s0 s1"] by (simp add: all_seen_bits)
    ultimately show ?thesis using 3 by (simp add: all_ones_iff)
  qed
qed

text \<open>The rounds of the message loop, with the tags they read.\<close>

definition tag_read :: "dec_ctx \<Rightarrow> noinit_state \<times> dstate \<Rightarrow> u32 option" where
  "tag_read dc x =
     (case pb_decode_tag (dc_read dc) (fst (snd x)) of
        Some (Some (wt, fn), eof, s) \<Rightarrow> Some fn
      | _ \<Rightarrow> None)"

inductive noinit_trace ::
  "dec_ctx \<Rightarrow> nat \<Rightarrow> msg_decoder \<Rightarrow> noinit_state \<times> dstate \<Rightarrow> u32 list \<Rightarrow> noinit_state option \<times> dstate \<Rightarrow> bool"
  for dc d noinit where
  trace_end: "noinit_round dc d noinit x = Some (Inr r) \<Longrightarrow> noinit_trace dc d noinit x [] r"
| trace_field: "noinit_round dc d noinit x = Some (Inl y) \<Longrightarrow> tag_read dc x = Some fn \<Longrightarrow>
    noinit_trace dc d noinit y tags r \<Longrightarrow> noinit_trace dc d noinit x (fn # tags) r"

inductive_cases noinit_trace_NilE: "noinit_trace dc d noinit x [] r"
inductive_cases noinit_trace_ConsE: "noinit_trace dc d noinit x (fn # tags) r"

lemma round_next:
  assumes "noinit_round dc d noinit (ns, st) = Some (Inl (ns', st'))"
  obtains wt fn eof s1 found it1 where
    "pb_decode_tag (dc_read dc) (fst st) = Some (Some (wt, fn), eof, s1)"
    and "pb_field_iter_find (n_iter ns) fn = Some (found, it1)"
    and "if found then decode_known dc d noinit wt (ns\<lparr>n_iter := it1\<rparr>) (s1, snd st) = Some (Some ns', st')
      else decode_unknown dc d noinit fn wt (ns\<lparr>n_iter := it1\<rparr>) (s1, snd st) = Some (Some ns', st')"
proof -
  from assms obtain r eof s1 where t: "pb_decode_tag (dc_read dc) (fst st) = Some (r, eof, s1)"
    and ne: "bytes_left (fst st) \<noteq> 0"
    by (cases "bytes_left (fst st) = 0") (auto simp: noinit_round_def Option.bind_eq_Some_conv)
  from assms t ne obtain wt fn where r: "r = Some (wt, fn)"
    by (cases r) (auto simp: noinit_round_def)
  from assms t ne r obtain found it1 where f: "pb_field_iter_find (n_iter ns) fn = Some (found, it1)"
    by (cases "pb_field_iter_find (n_iter ns) fn") (auto simp: noinit_round_def)
  let ?res = "if \<not> found then decode_unknown dc d noinit fn wt (ns\<lparr>n_iter := it1\<rparr>) (s1, snd st)
    else decode_known dc d noinit wt (ns\<lparr>n_iter := it1\<rparr>) (s1, snd st)"
  from assms t ne r f obtain q st2 where q: "?res = Some (q, st2)"
    by (cases ?res) (auto simp: noinit_round_def)
  with assms t ne r f have "q = Some ns'" "st2 = st'"
    by (cases q; simp add: noinit_round_def)+
  with that [OF t [unfolded r] f] q show thesis by (cases found) simp_all
qed

lemma round_tag_read:
  "noinit_round dc d noinit x = Some (Inl y) \<Longrightarrow> \<exists>fn. tag_read dc x = Some fn"
  by (cases x; cases y; simp add: tag_read_def) (erule round_next, simp)

lemma loop_trace:
  assumes "c_loop (noinit_round dc d noinit) x = Some r"
  shows "\<exists>tags. noinit_trace dc d noinit x tags r"
proof (rule c_loop_partial [OF assms,
    where I = "\<lambda>y. \<exists>pre. \<forall>ts r. noinit_trace dc d noinit y ts r \<longrightarrow> noinit_trace dc d noinit x (pre @ ts) r"])
  show "\<exists>pre. \<forall>ts r. noinit_trace dc d noinit x ts r \<longrightarrow> noinit_trace dc d noinit x (pre @ ts) r"
    by (intro exI [of _ "[]"]) simp
next
  fix y y'
  assume "\<exists>pre. \<forall>ts r. noinit_trace dc d noinit y ts r \<longrightarrow> noinit_trace dc d noinit x (pre @ ts) r"
    and step: "noinit_round dc d noinit y = Some (Inl y')"
  then obtain pre fn where "\<forall>ts r. noinit_trace dc d noinit y ts r \<longrightarrow> noinit_trace dc d noinit x (pre @ ts) r"
    "tag_read dc y = Some fn" using round_tag_read by blast
  then show "\<exists>pre. \<forall>ts r. noinit_trace dc d noinit y' ts r \<longrightarrow> noinit_trace dc d noinit x (pre @ ts) r"
    using trace_field [OF step] by (intro exI [of _ "pre @ [fn]"]) simp
next
  fix y q
  assume "\<exists>pre. \<forall>ts r. noinit_trace dc d noinit y ts r \<longrightarrow> noinit_trace dc d noinit x (pre @ ts) r"
    and "noinit_round dc d noinit y = Some (Inr q)"
  then show "\<exists>tags. noinit_trace dc d noinit x tags q" using trace_end by blast
qed

text \<open>The bits of \<open>fields_seen\<close> stand for required fields whose tag has been read.\<close>

definition req_rank :: "pb_field list \<Rightarrow> nat \<Rightarrow> nat" where
  "req_rank fs j = length (filter (\<lambda>f. PB_HTYPE (ftype f) = PB_HTYPE_REQUIRED) (take j fs))"

definition seen_sound :: "pb_field list \<Rightarrow> u32 list \<Rightarrow> noinit_state \<Rightarrow> bool" where
  "seen_sound fs tags ns \<longleftrightarrow>
     (\<forall>i < 64. seen_bit (n_seen0 ns) (n_seen1 ns) i \<longrightarrow>
        (\<exists>j < length fs. PB_HTYPE (ftype (fs ! j)) = PB_HTYPE_REQUIRED \<and> req_rank fs j = i \<and> tag (fs ! j) \<in> set tags))"

lemma mark_seen_iter [simp]: "n_iter (mark_seen ns) = n_iter ns"
  by (simp add: mark_seen_def Let_def)

lemma mod32_inj:
  fixes i k :: nat
  assumes "32 \<le> i" "i < 64" "32 \<le> k" "k < 64"
  shows "i mod 32 = k mod 32 \<longleftrightarrow> i = k"
  using assms by (auto simp: le_mod_geq)

lemma mark_seen_bits:
  fixes ns :: noinit_state
  assumes "PB_HTYPE (ftype (it_field (n_iter ns))) = PB_HTYPE_REQUIRED"
    and "required_field_index (n_iter ns) < 64" and "i < 64"
  shows "seen_bit (n_seen0 (mark_seen ns)) (n_seen1 (mark_seen ns)) i \<longleftrightarrow>
    seen_bit (n_seen0 ns) (n_seen1 ns) i \<or> i = unat (required_field_index (n_iter ns))"
proof -
  let ?r = "required_field_index (n_iter ns)"
  have lt: "unat ?r < 64" using assms(2) by (simp add: word_less_nat_alt)
  have d: "drop_bit 5 ?r = 0 \<longleftrightarrow> unat ?r < 32"
    using word_index_parts(1) [of ?r] by (metis div_eq_0_iff unat_eq_0 zero_neq_numeral)
  have b: "bit (push_bit (unat (?r AND 31)) 1 :: u32) k \<longleftrightarrow> k = unat ?r mod 32" if "k < 32" for k
    using that unfolding word_index_parts(2) by (auto simp: bit_simps)
  have m: "i mod 32 < 32" by simp
  show ?thesis
  proof (cases "unat ?r < 32")
    case True
    then have "n_seen0 (mark_seen ns) = n_seen0 ns OR push_bit (unat (?r AND 31)) 1" "n_seen1 (mark_seen ns) = n_seen1 ns"
      using assms(1,2) d by (simp_all add: mark_seen_def Let_def)
    then show ?thesis using True b [of i] by (auto simp: seen_bit_def bit_or_iff)
  next
    case False
    then have "n_seen1 (mark_seen ns) = n_seen1 ns OR push_bit (unat (?r AND 31)) 1" "n_seen0 (mark_seen ns) = n_seen0 ns"
      using assms(1,2) d by (simp_all add: mark_seen_def Let_def)
    moreover have "i mod 32 = unat ?r mod 32 \<longleftrightarrow> i = unat ?r" if "\<not> i < 32"
      using that False lt assms(3) by (intro mod32_inj) simp_all
    ultimately show ?thesis using False b [OF m] by (auto simp: seen_bit_def bit_or_iff)
  qed
qed

lemma mark_seen_other:
  assumes "\<not> (PB_HTYPE (ftype (it_field (n_iter ns))) = PB_HTYPE_REQUIRED \<and> required_field_index (n_iter ns) < 64)"
  shows "mark_seen ns = ns"
  using assms by (auto simp: mark_seen_def Let_def)

lemma seen_sound_mono: "seen_sound fs tags ns \<Longrightarrow> set tags \<subseteq> set tags' \<Longrightarrow> seen_sound fs tags' ns"
  by (fastforce simp: seen_sound_def)

lemma mark_seen_sound:
  assumes "seen_sound fs tags ns" and wf: "wf_fields fs" and at: "at_field fs dest j (n_iter ns)"
    and len: "length fs < 2 ^ 32"
  shows "seen_sound fs (tag (fs ! j) # tags) (mark_seen ns)"
proof (cases "PB_HTYPE (ftype (it_field (n_iter ns))) = PB_HTYPE_REQUIRED \<and> required_field_index (n_iter ns) < 64")
  case False
  then have "mark_seen ns = ns" by (rule mark_seen_other)
  then show ?thesis using seen_sound_mono [OF assms(1) set_subset_Cons] by simp
next
  case True
  note at' = at_field_pos [OF wf at]
  have "req_rank fs j \<le> length fs" unfolding req_rank_def using length_filter_le [of _ "take j fs"] by (rule le_trans) simp
  then have r: "unat (required_field_index (n_iter ns)) = req_rank fs j"
    using len at'(5) iter_nth_required [OF wf at'(1), of dest] by (simp add: req_rank_def unat_of_nat_lt)
  show ?thesis
    unfolding seen_sound_def
  proof (intro allI impI)
    fix i :: nat assume i: "i < 64" "seen_bit (n_seen0 (mark_seen ns)) (n_seen1 (mark_seen ns)) i"
    then have "seen_bit (n_seen0 ns) (n_seen1 ns) i \<or> i = req_rank fs j"
      using True mark_seen_bits [of ns i] r by simp
    then show "\<exists>k < length fs. PB_HTYPE (ftype (fs ! k)) = PB_HTYPE_REQUIRED \<and> req_rank fs k = i \<and>
        tag (fs ! k) \<in> set (tag (fs ! j) # tags)"
      using assms(1) i(1) True at'(1,4) by (auto simp: seen_sound_def)
  qed
qed

context input_source
begin

text \<open>One round keeps cursor, stream and bits in order.\<close>

lemma round_sound:
  assumes fits: "msg_fits (Suc d0) A fs dest" and d: "d0 \<le> d" and rd: "dc_read dc = rd"
    and noinit: "\<And>fs a st1. msg_fits d0 A fs a \<Longrightarrow> st_ok pend A st1 \<Longrightarrow> runs pend A st1 (noinit fs a st1)"
    and at: "at_field fs dest i (n_iter ns)" and ok: "st_ok pend A st" and len: "length fs < 2 ^ 32"
    and sound: "seen_sound fs tags ns"
    and round: "noinit_round dc d noinit (ns, st) = Some (Inl (ns', st'))" and fn: "tag_read dc (ns, st) = Some fn"
  shows "(\<exists>i. at_field fs dest i (n_iter ns')) \<and> st_ok pend A st' \<and> seen_sound fs (fn # tags) ns'"
proof -
  have wf: "wf_fields fs" using fits by simp
  have "round_ok fs dest A st (noinit_round dc d noinit (ns, st))"
    by (rule round_runs [OF fits d rd _ at ok]) (rule noinit)
  then have next_ok: "(\<exists>i. at_field fs dest i (n_iter ns')) \<and> moves pend (fst st) (fst st') \<and> keeps A (snd st) (snd st')"
    using round by (auto simp: round_ok_def)
  then have ok': "st_ok pend A st'" using moves_st_ok [OF ok] by blast
  from round obtain wt fn' eof s1 found it1 where
    t: "pb_decode_tag (dc_read dc) (fst st) = Some (Some (wt, fn'), eof, s1)" and
    f: "pb_field_iter_find (n_iter ns) fn' = Some (found, it1)" and
    r: "if found then decode_known dc d noinit wt (ns\<lparr>n_iter := it1\<rparr>) (s1, snd st) = Some (Some ns', st')
      else decode_unknown dc d noinit fn' wt (ns\<lparr>n_iter := it1\<rparr>) (s1, snd st) = Some (Some ns', st')"
    by (rule round_next)
  have fn': "fn' = fn" using fn t by (simp add: tag_read_def)
  have "seen_sound fs (fn # tags) ns'"
  proof (cases found)
    case False
    then have "n_seen0 ns' = n_seen0 ns \<and> n_seen1 ns' = n_seen1 ns"
      using r by (auto simp: decode_unknown_def Let_def c_try_eq_Some_Some Option.bind_eq_Some_conv split: if_splits)
    then show ?thesis using seen_sound_mono [OF sound set_subset_Cons] by (simp add: seen_sound_def)
  next
    case True
    from at_field_search [OF wf at, of "\<lambda>f. tag f = fn' \<and> PB_LTYPE (ftype f) \<noteq> PB_LTYPE_EXTENSION"] f True
    obtain j where j: "at_field fs dest j it1" "tag (fs ! j) = fn"
      unfolding pb_field_iter_find_def fn' by auto
    from r True obtain ns1 it fc where ns1: "enter_fixed_count (ns\<lparr>n_iter := it1\<rparr>) = Some ns1"
      "ns' = mark_seen ns1\<lparr>n_iter := it, n_fixed_size := fc\<rparr>"
      by (auto simp: decode_known_def Let_def d_error_def c_try_eq_Some_Some split: option.splits)
    have "at_field fs dest j (n_iter ns1)"
      using enter_fixed_count_at [OF wf _ ns1(1), of dest j] j(1) by simp
    moreover have "seen_sound fs tags ns1"
      using ns1(1) sound by (auto simp: enter_fixed_count_def Let_def seen_sound_def split: if_splits)
    ultimately have "seen_sound fs (fn # tags) (mark_seen ns1)"
      using mark_seen_sound [OF _ wf _ len] j(2) by blast
    then show ?thesis by (simp add: ns1(2) seen_sound_def)
  qed
  with next_ok ok' show ?thesis by blast
qed

lemma trace_sound:
  assumes "noinit_trace dc d noinit x tags r"
    and fits: "msg_fits (Suc d0) A fs dest" and d: "d0 \<le> d" and rd: "dc_read dc = rd"
    and noinit: "\<And>fs a st1. msg_fits d0 A fs a \<Longrightarrow> st_ok pend A st1 \<Longrightarrow> runs pend A st1 (noinit fs a st1)"
    and len: "length fs < 2 ^ 32"
  shows "(\<exists>i. at_field fs dest i (n_iter (fst x))) \<Longrightarrow> st_ok pend A (snd x) \<Longrightarrow> seen_sound fs pre (fst x) \<Longrightarrow>
    fst r = Some ns \<Longrightarrow> (\<exists>i. at_field fs dest i (n_iter ns)) \<and> seen_sound fs (rev tags @ pre) ns"
  using assms(1)
proof (induction arbitrary: pre rule: noinit_trace.induct)
  case (trace_end x r)
  obtain ns0 st where x: "x = (ns0, st)" by (cases x)
  have "fst r = Some ns0 \<or> fst r = None"
    using trace_end(1) x
    by (auto simp: noinit_round_def Option.bind_eq_Some_conv split: if_splits option.splits)
  then show ?case using trace_end x by auto
next
  case (trace_field x y fn tags r)
  obtain ns0 st ns1 st1 where x: "x = (ns0, st)" "y = (ns1, st1)" by (cases x; cases y)
  from trace_field(5) x obtain i where i: "at_field fs dest i (n_iter ns0)" by auto
  have "(\<exists>i. at_field fs dest i (n_iter ns1)) \<and> st_ok pend A st1 \<and> seen_sound fs (fn # pre) ns1"
    by (rule round_sound [OF fits d rd _ i _ len, where noinit = noinit]) (use trace_field x noinit in auto)
  with trace_field.IH [of "fn # pre"] trace_field.prems x show ?case by simp
qed

end

lemma required_count_value:
  assumes wf: "wf_fields fs" and at: "at_field fs dest i it" and len: "length fs < 2 ^ 32"
    and count: "required_count it = Some n"
  shows "unat n = min 64 (req_rank fs (length fs))"
proof -
  let ?n = "length fs"
  have i: "i < ?n" using at by (simp add: at_field_def)
  let ?Q = "\<lambda>(n, ty, it1). n = of_nat (req_rank fs (?n - 1)) \<and> ty = ftype (fs ! (?n - 1)) \<and> it1 = iter_nth fs dest 0"
  from count obtain x where x: "c_loop required_round it = Some x"
    by (auto simp: required_count_def Option.bind_eq_Some_conv)
  have "?Q x"
  proof (rule c_loop_partial [OF x, where I = "\<lambda>it. \<exists>i. at_field fs dest i it"])
    fix it1 it2 assume "\<exists>i. at_field fs dest i it1" "required_round it1 = Some (Inl it2)"
    then obtain k where k: "at_field fs dest k it1" by blast
    note k' = at_field_pos [OF wf k]
    show "\<exists>i. at_field fs dest i it2"
      using \<open>required_round it1 = _\<close> k' iter_next_nth [OF wf k'(1), of dest]
      by (auto simp: required_round_def at_field_def split: if_splits)
  next
    fix it1 r assume "\<exists>i. at_field fs dest i it1" "required_round it1 = Some (Inr r)"
    then obtain k where k: "at_field fs dest k it1" by blast
    note k' = at_field_pos [OF wf k]
    have "\<not> Suc k < ?n" "r = (required_field_index it1, ftype (fs ! k), iter_nth fs dest 0)"
      using \<open>required_round it1 = _\<close> k' iter_next_nth [OF wf k'(1), of dest]
      by (auto simp: required_round_def split: if_splits)
    moreover from this k'(1) have "k = ?n - 1" by simp
    ultimately show "?Q r" using k'(5) iter_nth_required [OF wf k'(1), of dest] by (simp add: req_rank_def)
  qed (use at in blast)
  then have x': "x = (of_nat (req_rank fs (?n - 1)), ftype (fs ! (?n - 1)), iter_nth fs dest 0)" by (cases x) auto
  have t0: "tag (it_field (iter_nth fs dest 0)) \<noteq> 0"
    using iter_nth_fields [OF wf, of 0 dest] i field_at_tag [OF wf, of 0] by (cases fs) auto
  have last: "take ?n fs = take (?n - 1) fs @ [fs ! (?n - 1)]"
    using i by (metis One_nat_def Suc_pred gr_zeroI not_less_zero take_Suc_conv_app_nth lessI)
  let ?r = "req_rank fs ?n"
  have le: "?r < 2 ^ 32"
    unfolding req_rank_def take_all [OF order_refl] by (rule le_less_trans [OF length_filter_le len])
  have r: "?r = req_rank fs (?n - 1) + (if PB_HTYPE (ftype (fs ! (?n - 1))) = PB_HTYPE_REQUIRED then 1 else 0)"
    unfolding req_rank_def last by simp
  have "n = (if of_nat ?r > PB_MAX_REQUIRED_FIELDS then PB_MAX_REQUIRED_FIELDS else of_nat ?r)"
    using count t0 r by (auto simp: required_count_def x x' Let_def add.commute)
  then show ?thesis using le by (auto simp: word_less_nat_alt unat_of_nat_lt min_def not_less)
qed

lemma req_rank_inj:
  assumes "j < length fs" and "k < length fs" and "req_rank fs j = req_rank fs k"
    and "PB_HTYPE (ftype (fs ! j)) = PB_HTYPE_REQUIRED" and "PB_HTYPE (ftype (fs ! k)) = PB_HTYPE_REQUIRED"
  shows "j = k"
proof -
  have less: "req_rank fs a < req_rank fs b"
    if "a < b" "b \<le> length fs" "PB_HTYPE (ftype (fs ! a)) = PB_HTYPE_REQUIRED" for a b
  proof -
    have "take (Suc a) (take b fs) = take a fs @ [fs ! a]"
      using that(1,2) by (simp add: min_absorb1 take_Suc_conv_app_nth)
    then have "take b fs = (take a fs @ [fs ! a]) @ drop (Suc a) (take b fs)"
      by (metis append_take_drop_id)
    then have "req_rank fs b = length (filter (\<lambda>f. PB_HTYPE (ftype f) = PB_HTYPE_REQUIRED)
        ((take a fs @ [fs ! a]) @ drop (Suc a) (take b fs)))" by (simp only: req_rank_def)
    then show ?thesis using that(3) by (simp only: filter_append length_append) (simp add: req_rank_def)
  qed
  then show ?thesis using assms less [of j k] less [of k j] by (cases j k rule: linorder_cases) auto
qed

lemma req_rank_lt:
  assumes "j < length fs" and "PB_HTYPE (ftype (fs ! j)) = PB_HTYPE_REQUIRED"
  shows "req_rank fs j < req_rank fs (length fs)"
proof -
  have "fs = take j fs @ fs ! j # drop (Suc j) fs" by (rule id_take_nth_drop [OF assms(1)])
  then have "filter (\<lambda>f. PB_HTYPE (ftype f) = PB_HTYPE_REQUIRED) fs =
      filter (\<lambda>f. PB_HTYPE (ftype f) = PB_HTYPE_REQUIRED) (take j fs @ fs ! j # drop (Suc j) fs)" by simp
  then show ?thesis using assms(2) by (simp add: req_rank_def)
qed

lemma noinit_finish_same: "noinit_finish ns st1 = Some (Some (), st) \<Longrightarrow> st1 = st"
  by (cases "required_count (n_iter ns)") (auto simp: noinit_finish_def d_error_def split: if_splits)

definition noinit_start :: "pb_field list \<Rightarrow> u64 \<Rightarrow> noinit_state" where
  "noinit_start fs dest =
     \<lparr>n_iter = snd (pb_field_iter_begin fs dest), n_seen0 = 0, n_seen1 = 0, n_ext_start = 0,
      n_fixed_field = None, n_fixed_size = 0\<rparr>"



section \<open>Corners\<close>

text \<open>A callback that consumes nothing from its field is called for ever: the loop of
  \<open>decode_callback_field\<close> has no other way out than a drained substream or a failing callback.\<close>

theorem idle_callback_never_returns:
  assumes "pData it \<noteq> 0" and "load_u64 (snd st) (pData it) = Some fn" and "fn \<noteq> 0"
    and "pb_make_string_substream (dc_read dc) (fst st) = Some (Some sub, s1)" and "bytes_left sub \<noteq> 0"
    and "\<And>sub m. dc_callback dc fn (it_field it) (pData it + 8) (sub, m) = Some (Some (), (sub, m))"
  shows "decode_callback_field dc PB_WT_STRING it st = None"
proof -
  let ?round = "callback_round dc (it_field it) (pData it)"
  have step: "?round (sub, snd st) = Some (Inl (sub, snd st))"
    using assms(2,3,5,6) by (simp add: callback_round_def)
  have "c_loop ?round (sub, snd st) \<noteq> Some r" for r
  proof
    assume "c_loop ?round (sub, snd st) = Some r"
    then have False
      by (rule c_loop_partial [where I = "\<lambda>x. x = (sub, snd st)"]) (use step in auto)
    then show False .
  qed
  then have "c_loop ?round (sub, snd st) = None" by (cases "c_loop ?round (sub, snd st)") auto
  then show ?thesis
    using assms by (simp add: decode_callback_field_def on_stream_def Let_def)
qed

lemma idle_callback_never_returns_witness:
  "decode_callback_field ((dec_no_user (\<lambda>_ _ _ _. None))\<lparr>dc_callback := (\<lambda>_ _ _ st. Some (Some (), st))\<rparr>)
     PB_WT_STRING (iter_nth [PB_OPTIONAL_CALLBACK 1 0 16 PB_LTYPE_STRING PtrNull] 64 0)
     (pb_istream_from_buffer [2, 65, 66] 3, demo_memory) = None"
proof -
  let ?dc = "(dec_no_user (\<lambda>_ _ _ _. None))\<lparr>dc_callback := (\<lambda>_ _ _ st. Some (Some (), st))\<rparr>"
  let ?it = "iter_nth [PB_OPTIONAL_CALLBACK 1 0 16 PB_LTYPE_STRING PtrNull] 64 0"
  have it: "pData ?it = 64" by (simp add: iter_nth.simps pb_field_iter_begin_def pb_field_macros field_at_def)
  have fn: "load_u64 demo_memory 64 = Some 150" by code_simp
  have "map_option (\<lambda>(r, s). map_option bytes_left r)
      (pb_make_string_substream (dc_read ?dc) (pb_istream_from_buffer [2, 65, 66] 3)) = Some (Some 2)"
    by code_simp
  then obtain sub s1 where
    "pb_make_string_substream (dc_read ?dc) (pb_istream_from_buffer [2, 65, 66] 3) = Some (Some sub, s1)"
    and two: "bytes_left sub = 2" by auto
  moreover have "bytes_left sub \<noteq> 0" unfolding two by simp
  ultimately show ?thesis using it fn by (intro idle_callback_never_returns [where fn = 150 and sub = sub and ?s1.0 = s1]) simp_all
qed

text \<open>Initialising a fixed-count array writes four bytes where the array is, although it has
  no count: for an array of two bytes at the end of its structure this is outside the structure.\<close>

theorem fixed_count_default_overflow:
  "mapped \<lparr>m_bytes = bytes_map [(64, [1, 1])], m_heap = (\<lambda>_. None)\<rparr> 64 2 \<and>
   pb_message_set_to_defaults xts (Suc d) [PB_REPEATED_FIXED_COUNT 1 0 1 2 PB_LTYPE_BOOL PtrNull] 64
     \<lparr>m_bytes = bytes_map [(64, [1, 1])], m_heap = (\<lambda>_. None)\<rparr> = None"
proof
  let ?m = "\<lparr>m_bytes = bytes_map [(64, [1, 1])], m_heap = (\<lambda>_. None)\<rparr>"
  let ?fs = "[PB_REPEATED_FIXED_COUNT 1 0 1 2 PB_LTYPE_BOOL PtrNull]"
  have "load ?m 64 2 = Some [1, 1]" by code_simp
  then show "mapped ?m 64 2" using load_Some_iff by blast
  have "load ?m 64 4 = None" by code_simp
  then have no: "store_u32 ?m 64 0 = None"
    using load_Some_iff [of ?m 64 4] store_Some_iff [of ?m 64 "le_bytes 4 (unat (0 :: u32))"]
    by (auto simp: store_u32_def)
  have wf: "wf_fields ?fs" by (simp add: wf_fields_def pb_field_macros)
  have "field_default_step xts (pb_field_set_to_default xts d) (iter_nth ?fs 64 0) ?m = None"
    using no by (simp add: iter_nth.simps pb_field_iter_begin_def field_default_step_def Let_def pb_field_macros
        pb_type_defs field_at_def size_set_def)
  moreover have "iters_of ?fs 64 = [iter_nth ?fs 64 0]" by (simp add: iters_of_def)
  ultimately show "pb_message_set_to_defaults xts (Suc d) ?fs 64 ?m = None"
    unfolding pb_message_set_to_defaults_def each_field_mem_def for_each_field_run [OF wf] by simp
qed

text \<open>A message type without fields still has the terminator of its descriptor array, and the
  field number 0 finds it: decoding one such field stores a Boolean into the empty message.\<close>

theorem empty_message_field_zero:
  "\<exists>s' m'. pb_decode (dec_no_user r) 1 [] 64 (pb_istream_from_buffer [0x01, 0x01] 2, demo_memory) =
     Some (Some (), (s', m')) \<and> load_u8 demo_memory 64 = Some 150 \<and> load_u8 m' 64 = Some 1"
proof -
  have "map_option (\<lambda>(q, (s, m)). (q, load_u8 m 64))
      (pb_decode (dec_no_user r) 1 [] 64 (pb_istream_from_buffer [0x01, 0x01] 2, demo_memory)) =
    Some (Some (), Some 1)" by code_simp
  moreover have "load_u8 demo_memory 64 = Some 150" by code_simp
  ultimately show ?thesis by auto
qed

end
