(* ===== verification/Pb_Roundtrip.thy ===== *)
theory Pb_Roundtrip
  imports Pb_Dec_Props
begin

text \<open>
  Encoder and decoder together: a \<open>TimeWindow\<close> message survives being encoded and decoded,
  whatever its two 64-bit fields hold, the zero ones being left out on the wire.
\<close>

section \<open>What the encoder writes\<close>

lemma bytes_zero_load:
  "load m a n = Some bs \<Longrightarrow> bytes_zero m a n = Some (\<forall>b \<in> set bs. b = 0)"
  by (induction n arbitrary: a bs) (auto simp: load_u8_def split: option.splits)

lemma le_val_zero: "le_val bs = 0 \<longleftrightarrow> (\<forall>b \<in> set bs. b = 0)"
  by (induction bs) (auto simp: unat_eq_0)

lemma int64_bytes_exact:
  assumes "load_u64 m a = Some v" and "0 < d"
  shows "basic_bytes d m msg (PB_SINGULAR_STATIC t fd 8 PB_LTYPE_VARINT PtrNull) a =
    Some (if v = 0 then [] else tag_bytes 0 t @ varint_spec (unat v))"
proof -
  from assms(2) obtain e where d: "d = Suc e" by (cases d) simp_all
  from assms(1) obtain bs where bs: "load m a 8 = Some bs" "v = of_nat (le_val bs)"
    by (auto simp: load_u64_def)
  have lt: "le_val bs < 2 ^ 64" using le_val_lt [of bs] load_length [OF bs(1)] by simp
  then have "unat v = le_val bs" unfolding bs(2) by (intro unat_of_nat_lt) simp
  then have "v = 0 \<longleftrightarrow> le_val bs = 0" by (metis unat_eq_0)
  then have z: "bytes_zero m a 8 = Some (v = 0)" using bytes_zero_load [OF bs(1)] le_val_zero by simp
  show ?thesis
    using z assms(1)
    by (cases "v = 0") (simp_all add: d basic_bytes_def Let_def pb_field_macros pb_type_defs implicit_presence_def
        proto3_default_step_def proto3_singular_default_def read_has_def keyed_bytes_def
        wire_type_of_ltype_def value_bytes_def scalar_at_def)
qed

section \<open>The fields of a TimeWindow\<close>

abbreviation (input) TW :: "pb_field list" where "TW \<equiv> gdt_client_metrics_TimeWindow_fields"

lemma tw_wf: "wf_fields TW" and tw_length: "length TW = 2"
  by (simp_all add: wf_fields_def gdt_client_metrics_TimeWindow_fields_def pb_field_macros)

lemma tw_nth: "i < 2 \<Longrightarrow> TW ! i = PB_SINGULAR_STATIC (of_nat i + 1) 0 8 PB_LTYPE_VARINT PtrNull"
  by (auto simp: gdt_client_metrics_TimeWindow_fields_def less_2_cases_iff)

lemma tw_iter:
  assumes "i < 2" and "dest \<noteq> 0"
  shows "it_field (iter_nth TW dest i) = PB_SINGULAR_STATIC (of_nat i + 1) 0 8 PB_LTYPE_VARINT PtrNull"
    and "pData (iter_nth TW dest i) = dest + 8 * of_nat i"
    and "pSize (iter_nth TW dest i) = SizeAt (dest + 8 * of_nat i)"
proof -
  have i: "i < length TW" using assms(1) tw_length by simp
  show "it_field (iter_nth TW dest i) = PB_SINGULAR_STATIC (of_nat i + 1) 0 8 PB_LTYPE_VARINT PtrNull"
    using iter_nth_fields [OF tw_wf i, of dest] i tw_nth [OF assms(1)] by (simp add: field_at_in)
  have ht: "\<forall>f \<in> set TW. PB_HTYPE (ftype f) \<noteq> PB_HTYPE_ONEOF"
    by (simp add: gdt_client_metrics_TimeWindow_fields_def pb_field_macros pb_type_defs)
  show d: "pData (iter_nth TW dest i) = dest + 8 * of_nat i"
    using iter_data_position [OF tw_wf i assms(2) ht] assms(1)
    by (auto simp: less_2_cases_iff gdt_client_metrics_TimeWindow_fields_def pb_field_macros pb_type_defs prev_field_size_def)
  show "pSize (iter_nth TW dest i) = SizeAt (dest + 8 * of_nat i)"
    using iter_size_position [OF tw_wf i assms(2) ht] d tw_nth [OF assms(1)] by (simp add: pb_field_macros)
qed

lemma tw_iters: "iters_of TW dest = [iter_nth TW dest 0, iter_nth TW dest 1]"
  by (simp add: iters_of_def tw_length numeral_2_eq_2)

section \<open>A round of the decoder\<close>

lemma tw_round:
  assumes ns: "n_iter ns = iter_nth TW dest i" and i: "i < 2" and k: "k < 2" and dest: "dest \<noteq> 0"
    and ok: "stream_ok buf_pending s"
    and pend: "buf_pending s = tag_bytes 0 (of_nat k + 1) @ varint_spec (unat (v :: u64)) @ rest"
    and len: "length (tag_bytes 0 (of_nat k + 1) @ varint_spec (unat v)) \<le> unat (bytes_left s)"
    and map: "mapped m (dest + 8 * of_nat k) 8"
  obtains s' m' where "noinit_round dc d noinit (ns, (s, m)) =
      Some (Inl (ns\<lparr>n_iter := iter_nth TW dest k\<rparr>, (s', m')))"
    and "store_u64 m (dest + 8 * of_nat k) v = Some m'"
    and "advances buf_pending s (length (tag_bytes 0 (of_nat k + 1) @ varint_spec (unat v))) s'"
proof -
  let ?t = "of_nat k + 1 :: u32" and ?f = "PB_SINGULAR_STATIC (of_nat k + 1) 0 8 PB_LTYPE_VARINT PtrNull"
  have t: "unat ?t = k + 1" "?t \<noteq> 0" using k by (auto simp: less_2_cases_iff)
  obtain s1 where s1: "pb_decode_tag (dc_read dc) s = Some (Some (0, ?t), False, s1)"
    "advances buf_pending s (length (tag_bytes 0 ?t)) s1"
    using buffer.decode_tag_spec [OF ok, of ?t 0 "varint_spec (unat v) @ rest" "dc_read dc"] pend len t k
    by (auto simp: tag_bytes_def)
  have ok1: "stream_ok buf_pending s1" using advances_stream_ok [OF s1(2) ok] .
  have pend1: "buf_pending s1 = varint_spec (unat v) @ rest" using s1(2) pend by (simp add: advances_def)
  have left1: "unat (bytes_left s1) = unat (bytes_left s) - length (tag_bytes 0 ?t)"
    using s1(2) by (simp add: advances_def)
  have "length (varint_spec (unat v)) \<le> unat (bytes_left s1)" using len left1 by simp
  with ok1 pend1 obtain s2 where s2: "pb_decode_varint (dc_read dc) s1 = Some (Some v, s2)"
    "advances buf_pending s1 (length (varint_spec (unat v))) s2"
    by (rule buffer.decode_varint_spec)
  have ne: "bytes_left s \<noteq> 0"
  proof
    assume "bytes_left s = 0"
    then have "tag_bytes 0 ?t = []" using len by simp
    then show False using s1(1) \<open>bytes_left s = 0\<close>
      by (simp add: pb_decode_tag_def pb_decode_varint32_eof_def pb_readbyte_def)
  qed
  from map obtain m' where m': "store_u64 m (dest + 8 * of_nat k) v = Some m'"
    using store_Some_iff [of m "dest + 8 * of_nat k" "le_bytes 8 (unat v)"] by (auto simp: store_u64_def)
  have find: "pb_field_iter_find (iter_nth TW dest i) ?t = Some (True, iter_nth TW dest k)"
  proof -
    obtain found it where f: "pb_field_iter_find (iter_nth TW dest i) ?t = Some (found, it)"
      "found = (\<exists>f \<in> set TW. tag f = ?t \<and> PB_LTYPE (ftype f) \<noteq> PB_LTYPE_EXTENSION)"
      "if found then \<exists>j < length TW. tag (TW ! j) = ?t \<and> PB_LTYPE (ftype (TW ! j)) \<noteq> PB_LTYPE_EXTENSION \<and>
            it = iter_nth TW dest j else it = iter_nth TW dest i"
      using iter_find_correct [OF tw_wf, of i dest ?t] i tw_length by auto
    have "found" unfolding f(2)
    proof (rule bexI [of _ "TW ! k"])
      show "TW ! k \<in> set TW" using k tw_length by (intro nth_mem) simp
    qed (use tw_nth [OF k] in \<open>simp add: pb_field_macros pb_type_defs\<close>)
    with f(3) obtain j where j: "j < 2" "tag (TW ! j) = ?t" "it = iter_nth TW dest j" by (auto simp: tw_length)
    have "j = k" using j(1,2) k by (auto simp: tw_nth pb_field_macros less_2_cases_iff)
    with f(1) j(3) \<open>found\<close> show ?thesis by simp
  qed
  have known: "decode_known dc d noinit 0 (ns\<lparr>n_iter := iter_nth TW dest k\<rparr>) (s1, m) =
      Some (Some (ns\<lparr>n_iter := iter_nth TW dest k\<rparr>), (s2, m'))"
    using tw_iter [OF k dest] s2(1) m'
    by (simp add: decode_known_def enter_fixed_count_def mark_seen_def Let_def pb_field_macros pb_type_defs decode_field_def
        decode_static_field_def keep_iter_def call_decoder_def PB_DECODERS_def pb_dec_varint_def on_stream_def
        store_signed_def on_mem_def check_clamped_def)
  have "noinit_round dc d noinit (ns, (s, m)) = Some (Inl (ns\<lparr>n_iter := iter_nth TW dest k\<rparr>, (s2, m')))"
    using ne s1(1) ns find known by (simp add: noinit_round_def)
  with m' show thesis
    using that advances_trans [OF s1(2) s2(2)] by simp
qed

section \<open>The message loop\<close>

text \<open>Values for the two fields, in wire order, and what they leave in memory.\<close>

primrec tw_stores :: "u64 \<Rightarrow> (nat \<times> u64) list \<Rightarrow> memory \<Rightarrow> memory option" where
  "tw_stores dest [] m = Some m"
| "tw_stores dest (kv # kvs) m = Option.bind (store_u64 m (dest + 8 * of_nat (fst kv)) (snd kv)) (tw_stores dest kvs)"

definition tw_wire :: "nat \<times> u64 \<Rightarrow> u8 list" where
  "tw_wire kv = tag_bytes 0 (of_nat (fst kv) + 1) @ varint_spec (unat (snd kv))"

lemma tw_stores_append: "tw_stores dest (xs @ ys) m = Option.bind (tw_stores dest xs m) (tw_stores dest ys)"
proof (induction xs arbitrary: m)
  case (Cons kv xs)
  then show ?case by (cases "store_u64 m (dest + 8 * of_nat (fst kv)) (snd kv)") simp_all
qed simp

lemma tw_wire_pair: "tw_wire (k, v) = tag_bytes 0 (of_nat k + 1) @ varint_spec (unat v)"
  by (simp add: tw_wire_def)

lemma store_u64_mapped: "store_u64 m a v = Some m' \<Longrightarrow> mapped m' b n = mapped m b n"
  unfolding store_u64_def by (rule store_mapped)

lemma tw_mapped: "mapped m dest 16 \<Longrightarrow> k < 2 \<Longrightarrow> mapped m (dest + 8 * of_nat k) 8"
  using mapped_mono [of m dest 16 8] mapped_add [of m dest 8 8] by (auto simp: less_2_cases_iff)

lemma tw_stores_total:
  "\<forall>kv \<in> set kvs. fst kv < 2 \<Longrightarrow> mapped m dest 16 \<Longrightarrow> \<exists>m'. tw_stores dest kvs m = Some m' \<and> mapped m' dest 16"
proof (induction kvs arbitrary: m)
  case (Cons kv kvs)
  then have "mapped m (dest + 8 * of_nat (fst kv)) 8" by (intro tw_mapped) simp_all
  then obtain m1 where m1: "store_u64 m (dest + 8 * of_nat (fst kv)) (snd kv) = Some m1"
    using store_Some_iff [of m "dest + 8 * of_nat (fst kv)" "le_bytes 8 (unat (snd kv))"] by (auto simp: store_u64_def)
  then show ?case using Cons.IH [of m1] Cons.prems store_u64_mapped [OF m1] by simp
qed simp

lemma tw_finish:
  assumes "n_iter ns = iter_nth TW dest j" and "j < 2" and "n_fixed_field ns = None"
  shows "noinit_finish ns st = Some (Some (), st)"
proof -
  have at: "at_field TW dest j (n_iter ns)" using assms(1,2) by (simp add: at_field_def tw_length)
  from at_field_required_count [OF tw_wf at] obtain c where c: "required_count (n_iter ns) = Some c" by blast
  have "req_rank TW (length TW) = 0"
    by (simp add: req_rank_def gdt_client_metrics_TimeWindow_fields_def pb_field_macros pb_type_defs)
  then have "c = 0" using required_count_value [OF tw_wf at _ c] by (simp add: tw_length unat_eq_0)
  then show ?thesis using c assms(3) by (simp add: noinit_finish_def fixed_count_complete_def)
qed

lemma tw_loop:
  assumes "\<forall>kv \<in> set kvs. fst kv < 2" and "mapped m dest 16" and "dest \<noteq> 0"
    and "stream_ok buf_pending s" and "buf_pending s = concat (map tw_wire kvs)"
    and "unat (bytes_left s) = length (concat (map tw_wire kvs))"
    and "n_iter ns = iter_nth TW dest i" and "i < 2"
  shows "\<exists>j < 2. \<exists>s' m'. c_loop (noinit_round dc d noinit) (ns, (s, m)) =
      Some (Some (ns\<lparr>n_iter := iter_nth TW dest j\<rparr>), (s', m')) \<and> tw_stores dest kvs m = Some m'"
  using assms
proof (induction kvs arbitrary: m s ns i)
  case Nil
  then have "noinit_round dc d noinit (ns, (s, m)) = Some (Inr (Some ns, (s, m)))"
    by (simp add: noinit_round_def unat_eq_0)
  moreover have "ns\<lparr>n_iter := iter_nth TW dest i\<rparr> = ns" using Nil by (intro noinit_state.equality) simp_all
  ultimately show ?case using Nil by (intro exI [of _ i]) (simp add: c_loop_exit)
next
  case (Cons kv kvs)
  obtain k v where kv: "kv = (k, v)" by (cases kv)
  have k: "k < 2" using Cons.prems(1) kv by simp
  have pend: "buf_pending s = tag_bytes 0 (of_nat k + 1) @ varint_spec (unat v) @ concat (map tw_wire kvs)"
    using Cons.prems(5) by (simp add: kv tw_wire_pair)
  have len: "length (tag_bytes 0 (of_nat k + 1) @ varint_spec (unat v)) \<le> unat (bytes_left s)"
    using Cons.prems(6) by (simp add: kv tw_wire_pair)
  obtain s' m' where round: "noinit_round dc d noinit (ns, (s, m)) =
      Some (Inl (ns\<lparr>n_iter := iter_nth TW dest k\<rparr>, (s', m')))"
    and m': "store_u64 m (dest + 8 * of_nat k) v = Some m'"
    and s': "advances buf_pending s (length (tag_bytes 0 (of_nat k + 1) @ varint_spec (unat v))) s'"
    by (rule tw_round [OF Cons.prems(7,8) k Cons.prems(3,4) pend len tw_mapped [OF Cons.prems(2) k]])
  have "\<exists>j < 2. \<exists>s2 m2. c_loop (noinit_round dc d noinit) (ns\<lparr>n_iter := iter_nth TW dest k\<rparr>, (s', m')) =
      Some (Some (ns\<lparr>n_iter := iter_nth TW dest k\<rparr>\<lparr>n_iter := iter_nth TW dest j\<rparr>), (s2, m2)) \<and>
      tw_stores dest kvs m' = Some m2"
  proof (rule Cons.IH)
    show "buf_pending s' = concat (map tw_wire kvs)" using s' pend by (simp add: advances_def)
    show "unat (bytes_left s') = length (concat (map tw_wire kvs))"
      using s' Cons.prems(6) by (simp add: advances_def kv tw_wire_pair)
    show "stream_ok buf_pending s'" using s' Cons.prems(4) by (rule advances_stream_ok)
  qed (use Cons.prems(1-3) k store_u64_mapped [OF m'] in simp_all)
  then show ?case using m' kv by (simp add: c_loop_next [where body = "noinit_round dc d noinit" and s = "(ns, (s, m))", OF round])
qed

lemma tw_spans: "span (dest :: u64) 8 \<inter> span (dest + 8) 8 = {}"
proof -
  have "False" if "i < 8" "j < 8" "dest + of_nat i = dest + 8 + of_nat j" for i j :: nat
  proof -
    have "(of_nat i :: u64) = of_nat (8 + j)" using that(3) by (simp add: add.assoc)
    then have "unat (of_nat i :: u64) = unat (of_nat (8 + j) :: u64)" by simp
    then show False using that(1,2) by (simp add: unat_of_nat_lt del: of_nat_add)
  qed
  then show ?thesis by (fastforce simp: span_def)
qed

lemma tw_load_stores:
  assumes "\<forall>kv \<in> set kvs. fst kv < 2" and "tw_stores dest kvs m = Some m'" and "k < 2"
  shows "load_u64 m' (dest + 8 * of_nat k) =
    (case map_of (rev kvs) k of None \<Rightarrow> load_u64 m (dest + 8 * of_nat k) | Some v \<Rightarrow> Some v)"
  using assms
proof (induction kvs arbitrary: m)
  case (Cons kv kvs)
  obtain k1 v where kv: "kv = (k1, v)" by (cases kv)
  then obtain m1 where m1: "store_u64 m (dest + 8 * of_nat k1) v = Some m1" "tw_stores dest kvs m1 = Some m'"
    using Cons.prems(2) by (auto simp: Option.bind_eq_Some_conv)
  have IH: "load_u64 m' (dest + 8 * of_nat k) =
    (case map_of (rev kvs) k of None \<Rightarrow> load_u64 m1 (dest + 8 * of_nat k) | Some v \<Rightarrow> Some v)"
    using Cons.IH [OF _ m1(2)] Cons.prems by simp
  have one: "load_u64 m1 (dest + 8 * of_nat k) = (if k = k1 then Some v else load_u64 m (dest + 8 * of_nat k))"
  proof (cases "k = k1")
    case True
    then show ?thesis using load_u64_store [OF m1(1)] by simp
  next
    case False
    then have "span (dest + 8 * of_nat k1) 8 \<inter> span (dest + 8 * of_nat k) 8 = {}"
      using Cons.prems(1,3) kv tw_spans [of dest] by (auto simp: less_2_cases_iff)
    then have "load m1 (dest + 8 * of_nat k) 8 = load m (dest + 8 * of_nat k) 8"
      using load_store_other [of m _ "le_bytes 8 (unat v)", OF m1(1) [unfolded store_u64_def]]
      unfolding length_le_bytes by blast
    then show ?thesis using False by (simp add: load_u64_def)
  qed
  show ?case using IH one by (auto simp: kv map_add_def split: option.splits)
qed simp

lemma tw_defaults:
  assumes "dest \<noteq> 0"
  shows "pb_message_set_to_defaults xts (Suc d) TW dest m = tw_stores dest [(0, 0), (1, 0)] m"
proof -
  have "le_bytes n 0 = replicate n 0" for n by (induction n) simp_all
  then have zero: "c_memset m a 0 8 = store_u64 m a 0" for m a
    by (simp add: c_memset_def store_u64_def del: store.simps)
  note its = tw_iters [of dest]
  have step: "field_default_step xts sd (iter_nth TW dest i) m = store_u64 m (dest + 8 * of_nat i) 0" if "i < 2" for i sd m
    using tw_iter [OF that assms] zero
    by (simp add: field_default_step_def init_static_data_def Let_def pb_field_macros pb_type_defs)
  let ?body = "\<lambda>it m. map_option (\<lambda>m'. (Some (), m')) (field_default_step xts (pb_field_set_to_default xts d) it m)"
  have "map_option snd (run_iters ?body [iter_nth TW dest 0, iter_nth TW dest 1] m) = tw_stores dest [(0, 0), (1, 0)] m"
  proof (cases "store_u64 m dest 0")
    case None
    then show ?thesis using step [of 0] by simp
  next
    case (Some m1)
    then show ?thesis using step [of 0] step [of 1] by (cases "store_u64 m1 (dest + 8) 0") simp_all
  qed
  then show ?thesis
    unfolding pb_message_set_to_defaults_def each_field_mem_def for_each_field_run [OF tw_wf] its
    by (simp only: pb_field_set_to_default.simps)
qed

text \<open>C11: a \<open>TimeWindow\<close> message in memory, encoded into a buffer and decoded into another
  structure, gives the same two values there, for all values of the fields, whatever was there.\<close>

theorem timewindow_roundtrip:
  assumes "load_u64 (ec_mem ec) src = Some v" and "load_u64 (ec_mem ec) (src + 8) = Some w"
    and "mapped (ec_mem ec) dest 16" and "src \<noteq> 0" and "dest \<noteq> 0"
  shows "\<exists>out s' m'. pb_encode ec (Suc d) TW src (pb_ostream_from_buffer 22 22) = Some (Some (), out) \<and>
    pb_decode dc (Suc e) TW dest (pb_istream_from_buffer (o_state out) (bytes_written out), ec_mem ec) =
      Some (Some (), (s', m')) \<and>
    load_u64 m' dest = Some v \<and> load_u64 m' (dest + 8) = Some w"
proof -
  let ?sp = "\<lparr>es_ctx = ec, es_callback = (\<lambda>_ _ _. None), es_extencode = (\<lambda>_ _. None), es_chain = 0\<rparr>"
  let ?kvs = "(if v = 0 then [] else [(0 :: nat, v)]) @ (if w = 0 then [] else [(1, w)])"
  let ?bs = "concat (map tw_wire ?kvs)"
  note its = tw_iters [of src]
  have fld: "field_bytes ?sp (Suc d) (msg_bytes ?sp d) (it_field (iter_nth TW src i)) (pData (iter_nth TW src i)) =
      Some (if u = 0 then [] else tw_wire (i, u))" if "i < 2" "load_u64 (ec_mem ec) (src + 8 * of_nat i) = Some u" for i u
    using tw_iter [OF that(1) assms(4)] int64_bytes_exact [OF that(2), of "Suc d" "msg_bytes ?sp d" "of_nat i + 1" 0]
    by (simp add: field_bytes_def pb_field_macros pb_type_defs tw_wire_pair)
  have wire: "length (tw_wire (i, u)) \<le> 11" if "i < 2" for i u
  proof -
    have "length (tag_bytes 0 (of_nat i + 1)) \<le> 1"
      unfolding tag_bytes_def by (rule length_varint_spec) (use that in \<open>auto simp: less_2_cases_iff\<close>)
    then show ?thesis using length_varint_u64 [of u] by (simp add: tw_wire_pair)
  qed
  from this [of 0 v] this [of 1 w] have len: "length ?bs \<le> 22" by (cases "v = 0"; cases "w = 0") simp_all
  have "msg_bytes ?sp (Suc d) TW src = Some ?bs"
    using fld [of 0 v] fld [of 1 w] assms(1,2) tw_iter(1) [OF _ assms(4)] tw_wf
    by (simp add: its message_field_bytes_def pb_field_macros pb_type_defs)
  moreover have "user_ok buf_room buf_out ?sp" by (simp add: user_ok_def)
  ultimately have enc: "encodes buf_room buf_out (pb_encode ec (Suc d) TW src) ?bs"
    using obuf.encodes_message [of ?sp "ec_write ec" "Suc d" TW src ?bs] len
    by (simp del: msg_bytes.simps pb_encode.simps concat_append map_append)
  from len obtain out where out: "pb_encode ec (Suc d) TW src (pb_ostream_from_buffer 22 22) = Some (Some (), out)"
    "o_state out = ?bs" "unat (bytes_written out) = length ?bs"
    using encodes_to_buffer [OF enc, of 22] by auto
  let ?s = "pb_istream_from_buffer (o_state out) (bytes_written out)"
  have ks: "\<forall>kv \<in> set ?kvs. fst kv < 2" "\<forall>kv \<in> set [(0 :: nat, 0 :: u64), (1, 0)]. fst kv < 2" by auto
  from tw_stores_total [OF ks(2) assms(3)] obtain m1 where
    m1: "tw_stores dest [(0, 0), (1, 0)] (ec_mem ec) = Some m1" "mapped m1 dest 16" by blast
  have s: "stream_ok buf_pending ?s" "buf_pending ?s = ?bs" "unat (bytes_left ?s) = length ?bs"
    using out(2,3) by simp_all
  have "n_iter (noinit_start TW dest) = iter_nth TW dest 0" by (simp add: noinit_start_def iter_nth.simps)
  from tw_loop [OF ks(1) m1(2) assms(5) s this, of dc "Suc e" "pb_decode_noinit dc e"] obtain j s' m' where
    j: "j < 2" and loop: "c_loop (noinit_round dc (Suc e) (pb_decode_noinit dc e)) (noinit_start TW dest, (?s, m1)) =
      Some (Some ((noinit_start TW dest)\<lparr>n_iter := iter_nth TW dest j\<rparr>), (s', m'))"
    and m': "tw_stores dest ?kvs m1 = Some m'" by auto
  let ?ns = "(noinit_start TW dest)\<lparr>n_iter := iter_nth TW dest j\<rparr>"
  have "noinit_finish ?ns (s', m') = Some (Some (), (s', m'))"
    by (rule tw_finish [OF _ j]) (simp_all add: noinit_start_def)
  then have "noinit_step dc (Suc e) (pb_decode_noinit dc e) TW dest (?s, m1) = Some (Some (), (s', m'))"
    unfolding noinit_step_def noinit_start_def [symmetric] loop by simp
  then have dec: "pb_decode dc (Suc e) TW dest (?s, ec_mem ec) = Some (Some (), (s', m'))"
    using tw_defaults [OF assms(5)] m1(1) by (simp add: pb_decode_def decode_with_def del: tw_stores.simps)
  have "tw_stores dest ([(0, 0), (1, 0)] @ ?kvs) (ec_mem ec) = Some m'"
    unfolding tw_stores_append [of dest "[(0, 0), (1, 0)]"] m1(1) using m' by (simp only: Option.bind.bind_lunit)
  from tw_load_stores [OF _ this, of 0] tw_load_stores [OF _ this, of 1]
  have "load_u64 m' dest = Some v" "load_u64 m' (dest + 8) = Some w" by auto
  with out(1) dec show ?thesis by blast
qed

lemma timewindow_roundtrip_witness:
  "\<exists>out s' m'. pb_encode demo_ctx (Suc 0) TW 64 (pb_ostream_from_buffer 22 22) = Some (Some (), out) \<and>
    pb_decode (dec_no_user (\<lambda>_ _ _ _. None)) (Suc 0) TW 96
      (pb_istream_from_buffer (o_state out) (bytes_written out), ec_mem demo_ctx) = Some (Some (), (s', m')) \<and>
    load_u64 m' 96 = Some 150 \<and> load_u64 m' (96 + 8) = Some 0"
proof (rule timewindow_roundtrip)
  show "load_u64 (ec_mem demo_ctx) 64 = Some 150" "load_u64 (ec_mem demo_ctx) (64 + 8) = Some 0" by code_simp+
  have "map_option length (load (ec_mem demo_ctx) 96 16) = Some 16" by code_simp
  then show "mapped (ec_mem demo_ctx) 96 16" using load_Some_iff by blast
qed simp_all

end
