(* ===== verification/Unw_Data.thy ===== *)
theory Unw_Data
  imports Memory Varint
begin

text \<open>
  \<open>Unwind/Dwarf/FIRCLSDataParsing.c\<close> of the Crashlytics pod on a 64-bit target: the readers of
  the DWARF tables in the program's memory. A reader takes the address the cursor holds and gives
  the value with the advanced cursor. It is \<open>None\<close> where C defines no result: the read of an
  address that is not mapped, and a shift of an \<open>int\<close> by its width or more or one whose result
  does not fit the \<open>int\<close>, which is what \<open>((0x7F & byte) << shift)\<close> is for the fifth byte
  on. Addresses are flat 64-bit numbers; advancing a cursor wraps as it does on the target.

  The second half states what the two LEB128 readers do on every well-formed encoding.
\<close>

section \<open>C integer arithmetic\<close>

text \<open>\<open>v << s\<close> on \<open>int\<close> operands, and signed 64-bit sum and product (C11 6.5.7, 6.5).\<close>

definition c_shl_int :: "int \<Rightarrow> nat \<Rightarrow> int option" where
  "c_shl_int v s = (if 0 \<le> v \<and> s < 32 \<and> v * 2 ^ s < 2 ^ 31 then Some (v * 2 ^ s) else None)"

definition c_int64 :: "int \<Rightarrow> u64 option" where
  "c_int64 v = (if - (2 ^ 63) \<le> v \<and> v < 2 ^ 63 then Some (of_int v) else None)"

definition c_add_s64 :: "u64 \<Rightarrow> u64 \<Rightarrow> u64 option" where
  "c_add_s64 a b = c_int64 (sint a + sint b)"

definition c_mul_s64 :: "u64 \<Rightarrow> u64 \<Rightarrow> u64 option" where
  "c_mul_s64 a b = c_int64 (sint a * sint b)"

section \<open>Pointers and safe reads\<close>

definition FIRCLSIsValidPointer :: "u64 \<Rightarrow> bool" where
  "FIRCLSIsValidPointer x \<longleftrightarrow> 4096 \<le> x"

text \<open>\<open>vm_read_overwrite\<close> fails where a byte of the range is not mapped.\<close>

definition FIRCLSReadMemory :: "memory \<Rightarrow> u64 \<Rightarrow> nat \<Rightarrow> u8 list option" where
  "FIRCLSReadMemory m src len = (if \<not> FIRCLSIsValidPointer src then None else load m src len)"

definition read_pointer :: "memory \<Rightarrow> u64 \<Rightarrow> u64 option" where
  "read_pointer m src = map_option (\<lambda>bs. of_nat (le_val bs)) (FIRCLSReadMemory m src 8)"

section \<open>Fixed-width values\<close>

definition FIRCLSParseUint8AndAdvance :: "memory \<Rightarrow> u64 \<Rightarrow> (u8 \<times> u64) option" where
  "FIRCLSParseUint8AndAdvance m c = do { v \<leftarrow> load_u8 m c; Some (v, c + 1) }"

definition FIRCLSParseUint16AndAdvance :: "memory \<Rightarrow> u64 \<Rightarrow> (u16 \<times> u64) option" where
  "FIRCLSParseUint16AndAdvance m c = do { v \<leftarrow> load_u16 m c; Some (v, c + 2) }"

text \<open>The signed readers give the bit pattern; it is sign-extended where it is used.\<close>

definition FIRCLSParseInt16AndAdvance :: "memory \<Rightarrow> u64 \<Rightarrow> (u16 \<times> u64) option" where
  "FIRCLSParseInt16AndAdvance m c = do { v \<leftarrow> load_u16 m c; Some (v, c + 2) }"

definition FIRCLSParseUint32AndAdvance :: "memory \<Rightarrow> u64 \<Rightarrow> (u32 \<times> u64) option" where
  "FIRCLSParseUint32AndAdvance m c = do { v \<leftarrow> load_u32 m c; Some (v, c + 4) }"

definition FIRCLSParseInt32AndAdvance :: "memory \<Rightarrow> u64 \<Rightarrow> (u32 \<times> u64) option" where
  "FIRCLSParseInt32AndAdvance m c = do { v \<leftarrow> load_u32 m c; Some (v, c + 4) }"

definition FIRCLSParseUint64AndAdvance :: "memory \<Rightarrow> u64 \<Rightarrow> (u64 \<times> u64) option" where
  "FIRCLSParseUint64AndAdvance m c = do { v \<leftarrow> load_u64 m c; Some (v, c + 8) }"

definition FIRCLSParseInt64AndAdvance :: "memory \<Rightarrow> u64 \<Rightarrow> (u64 \<times> u64) option" where
  "FIRCLSParseInt64AndAdvance m c = do { v \<leftarrow> load_u64 m c; Some (v, c + 8) }"

definition FIRCLSParsePointerAndAdvance :: "memory \<Rightarrow> u64 \<Rightarrow> (u64 \<times> u64) option" where
  "FIRCLSParsePointerAndAdvance m c = do { v \<leftarrow> load_u64 m c; Some (v, c + 8) }"

section \<open>LEB128 numbers\<close>

text \<open>The loop of the unsigned reader with \<open>n\<close> iterations to go. \<open>0x7F & byte\<close> is an
  \<open>int\<close>, whatever the signedness of \<open>char\<close>; the sum into \<open>result\<close> converts it.\<close>

primrec uleb_loop :: "nat \<Rightarrow> memory \<Rightarrow> u64 \<Rightarrow> nat \<Rightarrow> u64 \<Rightarrow> (u64 \<times> u64) option" where
  "uleb_loop 0 m result shift c = Some (result, c)"
| "uleb_loop (Suc n) m result shift c =
     do { byte \<leftarrow> load_u8 m c;
          v \<leftarrow> c_shl_int (uint (0x7F AND byte)) shift;
          let result = result OR of_int v;
          if 0x80 AND byte = 0 then Some (result, c + 1)
          else uleb_loop n m result (shift + 7) (c + 1) }"

definition FIRCLSParseULEB128AndAdvance :: "memory \<Rightarrow> u64 \<Rightarrow> (u64 \<times> u64) option" where
  "FIRCLSParseULEB128AndAdvance m c = uleb_loop 8 m 0 0 c"

primrec leb_loop ::
  "nat \<Rightarrow> memory \<Rightarrow> u64 \<Rightarrow> nat \<Rightarrow> u8 \<Rightarrow> u64 \<Rightarrow> (u64 \<times> nat \<times> u8 \<times> u64) option"
where
  "leb_loop 0 m result shift byte c = Some (result, shift, byte, c)"
| "leb_loop (Suc n) m result shift byte c =
     do { byte \<leftarrow> load_u8 m c;
          v \<leftarrow> c_shl_int (uint (0x7F AND byte)) shift;
          let result = result OR of_int v;
          if 0x80 AND byte = 0 then Some (result, shift + 7, byte, c + 1)
          else leb_loop n m result (shift + 7) byte (c + 1) }"

text \<open>What follows the loop of the signed reader: the sign extension.\<close>

definition leb_finish :: "u64 \<times> nat \<times> u8 \<times> u64 \<Rightarrow> (u64 \<times> u64) option" where
  "leb_finish x = (case x of (result, shift, byte, c) \<Rightarrow>
     if shift < 64 \<and> 0x40 AND byte \<noteq> 0
     then do { s \<leftarrow> c_shl_int 1 shift; Some (result OR of_int (- s), c) }
     else Some (result, c))"

definition FIRCLSParseLEB128AndAdvance :: "memory \<Rightarrow> u64 \<Rightarrow> (u64 \<times> u64) option" where
  "FIRCLSParseLEB128AndAdvance m c = leb_loop 8 m 0 0 0 c \<bind> leb_finish"

section \<open>Strings and record lengths\<close>

text \<open>\<open>strlen\<close> walks to the first zero byte.\<close>

definition c_strlen :: "memory \<Rightarrow> u64 \<Rightarrow> u64 option" where
  "c_strlen m a =
     c_loop (\<lambda>p. map_option (\<lambda>b. if b = 0 then Inr (p - a) else Inl (p + 1)) (load_u8 m p)) a"

definition FIRCLSParseStringAndAdvance :: "memory \<Rightarrow> u64 \<Rightarrow> (u64 \<times> u64) option" where
  "FIRCLSParseStringAndAdvance m c = do { n \<leftarrow> c_strlen m c; Some (c, c + n + 1) }"

definition DWARF_EXTENDED_LENGTH_FLAG :: u64 where
  "DWARF_EXTENDED_LENGTH_FLAG = 0xffffffff"

definition FIRCLSParseRecordLengthAndAdvance :: "memory \<Rightarrow> u64 \<Rightarrow> (u64 \<times> u64) option" where
  "FIRCLSParseRecordLengthAndAdvance m c =
     do { (v, c) \<leftarrow> FIRCLSParseUint32AndAdvance m c;
          let length = ucast v;
          if length = DWARF_EXTENDED_LENGTH_FLAG then FIRCLSParseUint64AndAdvance m c
          else Some (length, c) }"

section \<open>Encoded addresses\<close>

definition CLS_INVALID_ADDRESS :: u64 where
  "CLS_INVALID_ADDRESS = 0xffffffffffffffff"

text \<open>The value part of the encoding, \<open>DW_EH_PE_VALUE_MASK\<close>: \<open>Inl ()\<close> is the unhandled
  encoding, for which nothing is read.\<close>

definition parse_encoded_value :: "memory \<Rightarrow> u64 \<Rightarrow> u8 \<Rightarrow> (unit + u64 \<times> u64) option" where
  "parse_encoded_value m c encoding =
     (let k = encoding AND 0x0F
      in if k = 0x00 then map_option Inr (FIRCLSParsePointerAndAdvance m c)
         else if k = 0x01 then map_option Inr (FIRCLSParseULEB128AndAdvance m c)
         else if k = 0x02 then map_option (\<lambda>(v, c). Inr (ucast v, c)) (FIRCLSParseUint16AndAdvance m c)
         else if k = 0x03 then map_option (\<lambda>(v, c). Inr (ucast v, c)) (FIRCLSParseUint32AndAdvance m c)
         else if k = 0x04 then map_option Inr (FIRCLSParseUint64AndAdvance m c)
         else if k = 0x09 then map_option Inr (FIRCLSParseLEB128AndAdvance m c)
         else if k = 0x0A then map_option (\<lambda>(v, c). Inr (scast v, c)) (FIRCLSParseInt16AndAdvance m c)
         else if k = 0x0B then map_option (\<lambda>(v, c). Inr (scast v, c)) (FIRCLSParseInt32AndAdvance m c)
         else if k = 0x0C then map_option Inr (FIRCLSParseInt64AndAdvance m c)
         else Some (Inl ()))"

definition FIRCLSParseAddressWithEncodingAndAdvance ::
  "memory \<Rightarrow> u64 \<Rightarrow> u8 \<Rightarrow> (u64 \<times> u64) option"
where
  "FIRCLSParseAddressWithEncodingAndAdvance m cursor encoding =
     (if encoding = 0xFF then Some (0, cursor)
      else if cursor = 0 then Some (CLS_INVALID_ADDRESS, cursor)
      else case parse_encoded_value m cursor encoding of
             None \<Rightarrow> None
           | Some (Inl _) \<Rightarrow> Some (CLS_INVALID_ADDRESS, cursor)
           | Some (Inr (addr, c)) \<Rightarrow>
               let rel = encoding AND 0x70
               in if rel \<noteq> 0x00 \<and> rel \<noteq> 0x10 then Some (CLS_INVALID_ADDRESS, c)
                  else do { addr \<leftarrow> (if rel = 0x10 then c_add_s64 addr cursor else Some addr);
                            if encoding AND 0x80 = 0 then Some (addr, c)
                            else if addr = 0 then Some (CLS_INVALID_ADDRESS, c)
                            else do { addr \<leftarrow> load_u64 m addr; Some (addr, c) } })"

section \<open>What the LEB128 readers read\<close>

lemma c_shl_int_chunk:
  "c_shl_int (int k) s = (if s < 32 \<and> k * 2 ^ s < 2 ^ 31 then Some (int (k * 2 ^ s)) else None)"
proof -
  have eq: "int k * 2 ^ s = int (k * 2 ^ s)" by simp
  have "int (k * 2 ^ s) < 2 ^ 31 \<longleftrightarrow> k * 2 ^ s < 2 ^ 31"
    using of_nat_less_iff [of "k * 2 ^ s" "2 ^ 31", where ?'a = int] by (simp del: of_nat_mult of_nat_power)
  then show ?thesis unfolding c_shl_int_def eq by simp
qed

lemma uint_chunk: "uint (0x7F AND b :: u8) = int (unat b mod 128)"
  using and_7F [of b] by (simp add: uint_nat and.commute)

text \<open>The bytes at an address, as the encodings have them.\<close>

definition bytes_at :: "memory \<Rightarrow> u64 \<Rightarrow> u8 list \<Rightarrow> bool" where
  "bytes_at m a bs \<longleftrightarrow> load m a (length bs) = Some bs"

text \<open>A memory of one object with the given bytes, for examples.\<close>

definition mem_at :: "u64 \<Rightarrow> u8 list \<Rightarrow> memory" where
  "mem_at a bs = \<lparr>m_bytes = (\<lambda>x. if unat (x - a) < length bs then Some (bs ! unat (x - a)) else None),
     m_heap = Map.empty\<rparr>"

lemma bytes_at_Nil [simp]: "bytes_at m a []"
  by (simp add: bytes_at_def)

lemma bytes_at_Cons [simp]: "bytes_at m a (b # bs) \<longleftrightarrow> m_bytes m a = Some b \<and> bytes_at m (a + 1) bs"
  by (auto simp: bytes_at_def split: option.splits)

lemma bytes_at_nth:
  "bytes_at m a bs \<longleftrightarrow> (\<forall>i < length bs. m_bytes m (a + of_nat i) = Some (bs ! i))"
proof (induction bs arbitrary: a)
  case (Cons b bs)
  show ?case unfolding bytes_at_Cons Cons.IH by (auto simp: less_Suc_eq_0_disj add.assoc)
qed simp

lemma bytes_at_mem_at: "length bs < 2 ^ 64 \<Longrightarrow> bytes_at (mem_at a bs) a bs"
  by (auto simp: bytes_at_nth mem_at_def unat_of_nat_lt)

text \<open>One round of either loop at shift \<open>7 * j\<close>: the group of seven bits is taken as long as
  it stays below bit 31.\<close>

lemma leb_group:
  fixes r :: u64
  assumes "unat r < 2 ^ s" and "k < 128" and "s + 7 \<le> 64"
  shows "r OR of_int (int (k * 2 ^ s)) = r + of_nat (k * 2 ^ s)"
    and "unat (r + of_nat (k * 2 ^ s)) = unat r + k * 2 ^ s"
    and "unat r + k * 2 ^ s < 2 ^ (s + 7)"
proof -
  have k: "k * 2 ^ s \<le> 127 * 2 ^ s" using assms(2) by simp
  show le: "unat r + k * 2 ^ s < 2 ^ (s + 7)"
    using add_less_le_mono [OF assms(1) k] by (simp add: power_add)
  have le64: "unat r + k * 2 ^ s < 2 ^ 64"
    using le power_increasing [OF assms(3), of "2::nat"] by simp
  have p: "(of_nat (k * 2 ^ s) :: u64) = push_bit s (of_nat k)"
    by (simp add: push_bit_eq_mult)
  show "r OR of_int (int (k * 2 ^ s)) = r + of_nat (k * 2 ^ s)"
    using or_push_bit_add [OF assms(1), of "of_nat k"] by (simp only: p of_int_of_nat_eq)
  have "unat (of_nat (k * 2 ^ s) :: u64) = k * 2 ^ s"
    by (rule unat_of_nat_lt) (use le64 in simp)
  then show "unat (r + of_nat (k * 2 ^ s)) = unat r + k * 2 ^ s"
    using le64 unat_add_lem [of r "of_nat (k * 2 ^ s)"] by simp
qed

lemma group_bound:
  assumes "128 \<le> n"
  shows "n div 128 * 2 ^ (s + 7) < 2 ^ 31 \<longleftrightarrow> n * 2 ^ s < (2 :: nat) ^ 31"
proof
  assume less: "n div 128 * 2 ^ (s + 7) < 2 ^ 31"
  have "1 \<le> n div 128" using assms by (simp add: div_greater_zero_iff Suc_leI)
  then have "(2 :: nat) ^ (s + 7) \<le> n div 128 * 2 ^ (s + 7)" by (metis mult.left_neutral mult_le_mono1)
  with less have "(2 :: nat) ^ (s + 7) < 2 ^ 31" by (rule le_less_trans [rotated])
  then have "s + 7 < 31" by (rule power_less_imp_less_exp [rotated]) simp
  then have s: "s \<le> 23" by simp
  then have e: "(2 :: nat) ^ 31 = 2 ^ (24 - s) * 2 ^ (s + 7)" by (simp flip: power_add)
  have "n div 128 < 2 ^ (24 - s)" using less unfolding e by simp
  then have "n < 2 ^ (24 - s) * 128" by (simp add: div_less_iff_less_mult)
  then have "n * 2 ^ s < 2 ^ (24 - s) * 128 * 2 ^ s" by simp
  also have "\<dots> = 2 ^ 31" unfolding e by (simp add: power_add)
  finally show "n * 2 ^ s < 2 ^ 31" .
next
  assume "n * 2 ^ s < 2 ^ 31"
  moreover have "n div 128 * 2 ^ (s + 7) = n div 128 * 128 * 2 ^ s" by (simp add: power_add)
  moreover have "n div 128 * 128 * 2 ^ s \<le> n * 2 ^ s" by (intro mult_le_mono1) simp
  ultimately show "n div 128 * 2 ^ (s + 7) < 2 ^ 31" by linarith
qed

lemma group_value: "n mod 128 * 2 ^ s + n div 128 * 2 ^ (s + 7) = n * (2 :: nat) ^ s"
proof -
  have "n mod 128 * 2 ^ s + n div 128 * 2 ^ (s + 7) = (n mod 128 + n div 128 * 128) * 2 ^ s"
    by (simp only: add_mult_distrib power_add) simp
  then show ?thesis by (simp only: mod_div_mult_eq)
qed

text \<open>The test of one group, and where it leaves the whole number.\<close>

lemma group_taken: "n * 2 ^ s < (2 :: nat) ^ 31 \<Longrightarrow> 0 < n \<or> s = 0 \<Longrightarrow> s < 32"
proof (rule ccontr)
  assume a: "n * 2 ^ s < (2 :: nat) ^ 31" "0 < n \<or> s = 0" "\<not> s < 32"
  then have "(2 :: nat) ^ 32 \<le> 2 ^ s" by (intro power_increasing) simp_all
  also have "\<dots> \<le> n * 2 ^ s" using a by simp
  finally show False using a by simp
qed

lemma group_part: "n * 2 ^ s < (2 :: nat) ^ 31 \<Longrightarrow> n mod 128 * 2 ^ s < 2 ^ 31"
  by (rule le_less_trans [rotated]) (auto intro: mult_le_mono1)

lemma uleb_loop_spec:
  assumes "bytes_at m c (varint_spec n)" and "unat r < 2 ^ s" and "s + 7 * k \<le> 64" and "n < 128 ^ k"
    and "0 < n \<or> s = 0" and "0 < k"
  shows "uleb_loop k m r s c =
    (if n * 2 ^ s < 2 ^ 31 then Some (r + of_nat (n * 2 ^ s), c + of_nat (length (varint_spec n)))
     else None)"
  using assms
proof (induction k arbitrary: r s c n)
  case (Suc k)
  have n64: "n < 2 ^ 64"
  proof -
    have "n < 2 ^ (7 * Suc k)" using Suc.prems(4) unfolding power_mult by simp
    also have "\<dots> \<le> 2 ^ 64" using Suc.prems(3) by (intro power_increasing) simp_all
    finally show ?thesis .
  qed
  then show ?case
  proof (cases rule: varint_byte_cases)
    case last
    have "uleb_loop (Suc k) m r s c =
        (if s < 32 \<and> n * 2 ^ s < 2 ^ 31 then Some (r + of_nat (n * 2 ^ s), c + 1) else None)"
      using Suc.prems last leb_group(1) [OF Suc.prems(2) last(1)]
      by (simp add: load_u8_def uint_chunk c_shl_int_chunk and_80 and.commute [of "0x80"] Let_def)
    then show ?thesis using group_taken [OF _ Suc.prems(5)] last by auto
  next
    case more
    let ?b = "of_nat (n mod 128 + 128) :: u8" and ?g = "n mod 128 * 2 ^ s"
    note group = leb_group [OF Suc.prems(2), of "n mod 128"]
    have b: "unat ?b mod 128 = n mod 128" "\<not> unat ?b < 128" using more(3) by simp_all
    have at: "m_bytes m c = Some ?b" "bytes_at m (c + 1) (varint_spec (n div 128))"
      using Suc.prems(1) more(2) by simp_all
    have step: "uleb_loop (Suc k) m r s c =
        (if s < 32 \<and> ?g < 2 ^ 31 then uleb_loop k m (r + of_nat ?g) (s + 7) (c + 1) else None)"
      using at(1) b group(1) Suc.prems(3)
      by (simp add: load_u8_def uint_chunk c_shl_int_chunk and_80 and.commute [of "0x80"] Let_def
          del: of_nat_add of_nat_mult of_nat_power)
    have k: "0 < k" using Suc.prems(4) more(1) by (cases k) simp_all
    have rest: "uleb_loop k m (r + of_nat ?g) (s + 7) (c + 1) =
        (if n * 2 ^ s < 2 ^ 31
         then Some (r + of_nat ?g + of_nat (n div 128 * 2 ^ (s + 7)),
           c + 1 + of_nat (length (varint_spec (n div 128)))) else None)"
      unfolding group_bound [OF more(1), symmetric]
    proof (rule Suc.IH [OF at(2)])
      show "unat (r + of_nat ?g) < 2 ^ (s + 7)" using group Suc.prems(3) by simp
      show "n div 128 < 128 ^ k" using Suc.prems(4) by (simp add: div_less_iff_less_mult mult.commute)
      show "0 < n div 128 \<or> s + 7 = 0" using more(1) by (simp add: div_greater_zero_iff)
    qed (use Suc.prems(3) k in simp_all)
    have sum: "?g + n div 128 * 2 ^ (s + 7) = n * 2 ^ s"
      by (simp only: group_value)
    show ?thesis
    proof (cases "n * 2 ^ s < 2 ^ 31")
      case True
      then have "s < 32" "?g < 2 ^ 31" using group_taken group_part Suc.prems(5) by blast+
      moreover have "(of_nat ?g :: u64) + of_nat (n div 128 * 2 ^ (s + 7)) = of_nat (n * 2 ^ s)"
        unfolding sum [symmetric] by (simp only: of_nat_add)
      ultimately show ?thesis
        unfolding step rest using True more(2) by (simp add: add.assoc del: uleb_loop.simps of_nat_mult)
    next
      case False
      with step rest show ?thesis by simp
    qed
  qed
qed simp

text \<open>Reading the unsigned LEB128 form of a number, \<open>FIRCLSParseULEB128AndAdvance\<close> gives
  the number and steps past its last byte when the number is below 2^31; from 2^31 on the shift
  of an \<open>int\<close> has no defined result, so there is none, whatever the 64-bit result type.\<close>

theorem parse_uleb128_exact:
  assumes "bytes_at m c (varint_spec n)" and "n < 2 ^ 56"
  shows "FIRCLSParseULEB128AndAdvance m c =
    (if n < 2 ^ 31 then Some (of_nat n, c + of_nat (length (varint_spec n))) else None)"
  unfolding FIRCLSParseULEB128AndAdvance_def
  using uleb_loop_spec [of m c n 0 0 8] assms by simp

lemma parse_uleb128_witness:
  "FIRCLSParseULEB128AndAdvance (mem_at 16 [0xE5, 0x8E, 0x26]) 16 = Some (624485, 19)"
proof -
  have "bytes_at (mem_at 16 [0xE5, 0x8E, 0x26]) 16 (varint_spec 624485)"
    by (simp add: mem_at_def varint_spec.simps)
  from parse_uleb128_exact [OF this] show ?thesis
    by (simp add: varint_spec.simps)
qed

section \<open>Signed numbers\<close>

text \<open>The signed LEB128 form: seven bits a byte, bit 6 of the last byte is the sign.\<close>

function sleb_spec :: "int \<Rightarrow> u8 list" where
  "sleb_spec z =
     (if - 64 \<le> z \<and> z < 64 then [of_int (z mod 128)]
      else of_int (z mod 128 + 128) # sleb_spec (z div 128))"
  by auto
termination by (relation "measure (\<lambda>z. nat \<bar>z\<bar>)") auto

declare sleb_spec.simps [simp del]

text \<open>A group of a signed number, and the sign extension after the last.\<close>

lemma sleb_group: "nat (z mod 128) < 128" "int (nat (z mod 128)) = z mod 128"
  by (simp_all add: nat_less_iff)

lemma or_sign_extension:
  fixes r :: u64
  assumes "unat r < 2 ^ s"
  shows "r OR of_int (- (2 ^ s)) = r + of_int (- (2 ^ s))"
proof -
  have "of_int (- (2 ^ s)) = (push_bit s (- 1) :: u64)"
    by (simp add: push_bit_eq_mult)
  then show ?thesis using or_push_bit_add [OF assms, of "- 1"] by simp
qed

lemma and_40: "unat b < 128 \<Longrightarrow> (0x40 :: u8) AND b \<noteq> 0 \<longleftrightarrow> 64 \<le> unat b"
proof -
  assume b: "unat b < 128"
  have "0x40 AND b \<noteq> 0 \<longleftrightarrow> bit b 6"
    by (simp add: bit_iff_and_push_bit_not_eq_0 and.commute)
  also have "\<dots> \<longleftrightarrow> bit (unat b) 6" by (simp add: bit_unsigned_iff)
  also have "\<dots> \<longleftrightarrow> odd (unat b div 64)" by (simp add: bit_iff_odd)
  also have "\<dots> \<longleftrightarrow> 64 \<le> unat b"
  proof -
    have "unat b div 64 < 2" using b by (simp add: div_less_iff_less_mult)
    then have "unat b div 64 = 0 \<or> unat b div 64 = 1" by linarith
    moreover have "unat b div 64 = 0 \<longleftrightarrow> unat b < 64" by (simp add: div_eq_0_iff)
    ultimately show ?thesis by auto
  qed
  finally show ?thesis .
qed

text \<open>The signed values at shift \<open>s\<close> the reader has a result for.\<close>

definition leb_fits :: "int \<Rightarrow> nat \<Rightarrow> bool" where
  "leb_fits z s \<longleftrightarrow> (if z < 0 then - (2 ^ 27) \<le> z * 2 ^ s else z * 2 ^ s < 2 ^ 31)"

lemma leb_fits_div:
  assumes "s \<le> 21" and "z < - 64 \<or> 64 \<le> z"
  shows "leb_fits (z div 128) (s + 7) \<longleftrightarrow> leb_fits z s"
proof -
  have le: "z div 128 * 2 ^ (s + 7) \<le> z * 2 ^ s"
  proof -
    have "z div 128 * 2 ^ (s + 7) = z div 128 * 128 * 2 ^ s" by (simp add: power_add)
    also have "\<dots> \<le> z * 2 ^ s" by (intro mult_right_mono) simp_all
    finally show ?thesis .
  qed
  show ?thesis
  proof (cases "z < 0")
    case True
    then have neg: "z div 128 < 0" by simp
    have "- (2 ^ 27) \<le> z div 128 * 2 ^ (s + 7)" if less: "- (2 ^ 27) \<le> z * 2 ^ s"
    proof -
      have "z * 2 ^ s \<le> - 65 * 2 ^ s" using True assms(2) by (intro mult_right_mono) simp_all
      with less have "(65 :: int) * 2 ^ s \<le> 2 ^ 27" by linarith
      then have "(2 :: int) ^ s < 2 ^ 21" by simp
      then have "s < 21" by (rule power_less_imp_less_exp [rotated]) simp
      then have e: "(2 :: int) ^ 27 = 2 ^ (20 - s) * 128 * 2 ^ s"
        and e': "(2 :: int) ^ 27 = 2 ^ (20 - s) * 2 ^ (s + 7)" by (simp_all flip: power_add)
      have "- (2 ^ (20 - s) * 128) * 2 ^ s \<le> z * 2 ^ s" using less unfolding e by simp
      then have "- (2 ^ (20 - s) * 128) \<le> z" by (simp only: mult_le_cancel_right) simp
      then have "- (2 ^ (20 - s)) \<le> z div 128" by linarith
      then have "- (2 ^ (20 - s)) * 2 ^ (s + 7) \<le> z div 128 * 2 ^ (s + 7)" by (intro mult_right_mono) simp_all
      then show ?thesis unfolding e' by simp
    qed
    with le neg True show ?thesis by (auto simp: leb_fits_def)
  next
    case False
    then have pos: "\<not> z div 128 < 0" by simp
    have "z * 2 ^ s < 2 ^ 31" if less: "z div 128 * 2 ^ (s + 7) < 2 ^ 31"
    proof -
      have e: "(2 :: int) ^ 31 = 2 ^ (24 - s) * 2 ^ (s + 7)" using assms(1) by (simp flip: power_add)
      have e': "(2 :: int) ^ 31 = 2 ^ (24 - s) * 128 * 2 ^ s" unfolding e by (simp add: power_add)
      have "z div 128 < 2 ^ (24 - s)" using less unfolding e by simp
      then have "z < 2 ^ (24 - s) * 128" by linarith
      then show ?thesis unfolding e' by (simp only: mult_less_cancel_right) simp
    qed
    with le pos False show ?thesis by (auto simp: leb_fits_def)
  qed
qed

lemma sleb_small: "- 64 \<le> z \<Longrightarrow> z < 64 \<Longrightarrow> sleb_spec z = [of_int (z mod 128)]"
  by (simp add: sleb_spec.simps)

lemma sleb_big:
  "z < - 64 \<or> 64 \<le> z \<Longrightarrow> sleb_spec z = of_int (z mod 128 + 128) # sleb_spec (z div 128)"
  by (subst sleb_spec.simps) auto

text \<open>One round: a group of seven bits, with or without the bit for more.\<close>

lemma leb_loop_round:
  assumes at: "m_bytes m c = Some b" and g: "unat b mod 128 = g" and "unat r < 2 ^ s" and "s + 7 \<le> 64"
  shows "leb_loop (Suc k) m r s b0 c =
    (if s < 32 \<and> g * 2 ^ s < 2 ^ 31
     then if unat b < 128 then Some (r + of_nat (g * 2 ^ s), s + 7, b, c + 1)
          else leb_loop k m (r + of_nat (g * 2 ^ s)) (s + 7) b (c + 1)
     else None)"
proof -
  have "g < 128" using g by auto
  with leb_group(1) [OF assms(3) this assms(4)] at g show ?thesis
    by (simp add: load_u8_def uint_chunk c_shl_int_chunk and_80 and.commute [of "0x80"] Let_def
        del: of_nat_mult of_nat_power)
qed

lemma leb_last_pos:
  assumes z: "k < 64" and r: "unat r < 2 ^ s" and s: "s \<le> 28" and at: "m_bytes m c = Some (of_nat k)"
  shows "leb_loop (Suc n) m r s b0 c \<bind> leb_finish =
    (if leb_fits (int k) s then Some (r + of_int (int k * 2 ^ s), c + 1) else None)"
proof -
  have b: "unat (of_nat k :: u8) = k" using z by (intro unat_of_nat_u8) simp
  have sign: "\<not> ((0x40 :: u8) AND of_nat k \<noteq> 0)" using and_40 [of "of_nat k"] b z by simp
  have "int k * 2 ^ s < 2 ^ 31 \<longleftrightarrow> k * 2 ^ s < 2 ^ 31"
    using of_nat_less_iff [of "k * 2 ^ s" "2 ^ 31", where ?'a = int] by simp
  with leb_loop_round [OF at _ r, of k n b0] b z s sign show ?thesis
    by (simp add: leb_fits_def leb_finish_def del: leb_loop.simps)
qed

lemma leb_last_neg:
  assumes k: "64 \<le> k" "k < 128" and r: "unat r < 2 ^ s" and s: "s \<le> 21 \<or> s = 28"
    and at: "m_bytes m c = Some (of_nat k)"
  shows "leb_loop (Suc n) m r s b0 c \<bind> leb_finish =
    (if leb_fits (int k - 128) s then Some (r + of_int ((int k - 128) * 2 ^ s), c + 1) else None)"
proof -
  have b: "unat (of_nat k :: u8) = k" using k by (intro unat_of_nat_u8) simp
  have sign: "(0x40 :: u8) AND of_nat k \<noteq> 0" using and_40 [of "of_nat k"] b k by simp
  note round = leb_loop_round [OF at _ r, of k n b0]
  show ?thesis
  proof (cases "s = 28")
    case True
    then have "\<not> leb_fits (int k - 128) s" using k by (simp add: leb_fits_def)
    with round b k True show ?thesis by (simp del: leb_loop.simps)
  next
    case False
    with s have s: "s \<le> 21" by simp
    let ?r = "r + of_nat (k * 2 ^ s) :: u64"
    note group = leb_group [OF r k(2)]
    have "k * 2 ^ s \<le> 127 * 2 ^ 21" using k s by (intro mult_le_mono power_increasing) simp_all
    then have fit: "k * 2 ^ s < 2 ^ 31" by simp
    have ext: "c_shl_int 1 (s + 7) = Some (2 ^ (s + 7))"
    proof -
      have "(2 :: int) ^ (s + 7) \<le> 2 ^ 28" using s by (intro power_increasing) simp_all
      then show ?thesis using s by (simp add: c_shl_int_def)
    qed
    have "unat ?r < 2 ^ (s + 7)" using group(2,3) s by simp
    then have "?r OR of_int (- (2 ^ (s + 7))) = ?r + of_int (- (2 ^ (s + 7)))"
      by (rule or_sign_extension)
    also have "\<dots> = r + of_int ((int k - 128) * 2 ^ s)"
      by (simp add: power_add algebra_simps)
    finally have val: "?r OR of_int (- (2 ^ (s + 7))) = r + of_int ((int k - 128) * 2 ^ s)" .
    have "- (2 ^ 27) \<le> (int k - 128) * 2 ^ s"
    proof -
      have "(128 - int k) * 2 ^ s \<le> 64 * 2 ^ 21" using k s by (intro mult_mono power_increasing) simp_all
      then show ?thesis by (simp add: algebra_simps)
    qed
    then have "leb_fits (int k - 128) s" using k by (simp add: leb_fits_def)
    moreover have "leb_loop (Suc n) m r s b0 c = Some (?r, s + 7, of_nat k, c + 1)"
      using round b k fit s by (simp del: leb_loop.simps)
    ultimately show ?thesis using sign ext val s
      by (simp add: leb_finish_def del: leb_loop.simps of_int_mult of_int_minus of_nat_mult of_int_power)
  qed
qed

lemma of_int_of_nat_u8: "0 \<le> z \<Longrightarrow> (of_int z :: u8) = of_nat (nat z)"
  by simp

lemma sleb_last:
  assumes "- 64 \<le> z" "z < 64" and "unat r < 2 ^ s" and "s \<le> 21 \<or> s = 28"
    and "m_bytes m c = Some (of_int (z mod 128))"
  shows "leb_loop (Suc n) m r s b0 c \<bind> leb_finish =
    (if leb_fits z s then Some (r + of_int (z * 2 ^ s), c + 1) else None)"
proof (cases "0 \<le> z")
  case True
  then obtain k where k: "z = int k" by (rule nonneg_int_cases)
  have "m_bytes m c = Some (of_nat k)" using assms(2,5) unfolding k by simp
  with leb_last_pos [OF _ assms(3), of k m c n b0] assms(2,4) show ?thesis
    unfolding k by (auto simp del: leb_loop.simps)
next
  case False
  then have "0 \<le> z + 128" using assms(1) by simp
  then obtain k where k: "z + 128 = int k" by (rule nonneg_int_cases)
  then have z: "z = int k - 128" by simp
  have "z mod 128 = (z + 128) mod 128" by simp
  also have "\<dots> = int k" unfolding k using False assms(1) k by (intro mod_pos_pos_trivial) simp_all
  finally have "z mod 128 = int k" .
  then have "m_bytes m c = Some (of_nat k)" using assms(5) by simp
  moreover have "64 \<le> k" "k < 128" using assms(1) False z by simp_all
  ultimately show ?thesis using leb_last_neg [OF _ _ assms(3,4)] unfolding z by blast
qed

lemma leb_loop_late: "32 \<le> s \<Longrightarrow> leb_loop (Suc n) m r s b0 c = None"
  by (cases "load_u8 m c") (simp_all add: c_shl_int_def)

lemma leb_loop_spec:
  assumes "bytes_at m c (sleb_spec z)" and "unat r < 2 ^ (7 * j)" and "j \<le> 4" and "j + k = 8"
    and "length (sleb_spec z) \<le> k"
  shows "leb_loop k m r (7 * j) b0 c \<bind> leb_finish =
    (if leb_fits z (7 * j) then Some (r + of_int (z * 2 ^ (7 * j)), c + of_nat (length (sleb_spec z)))
     else None)"
  using assms
proof (induction k arbitrary: r j c z b0)
  case (Suc k)
  have seven: "7 * j \<le> 21 \<or> 7 * j = 28" using Suc.prems(3) by presburger
  show ?case
  proof (cases "- 64 \<le> z \<and> z < 64")
    case True
    then have "m_bytes m c = Some (of_int (z mod 128))" and l: "length (sleb_spec z) = 1"
      using Suc.prems(1) by (simp_all add: sleb_small)
    with sleb_last [OF _ _ Suc.prems(2) seven] True show ?thesis
      by (simp only: l of_nat_1)
  next
    case False
    then have big: "z < - 64 \<or> 64 \<le> z" by linarith
    let ?g = "nat (z mod 128)" and ?z = "z div 128"
    have g: "?g < 128" by (simp add: nat_less_iff)
    have "z mod 128 + 128 = int (?g + 128)" by simp
    then have of: "(of_int (z mod 128 + 128) :: u8) = of_nat (?g + 128)" by (metis of_int_of_nat_eq)
    then have bytes: "sleb_spec z = of_nat (?g + 128) # sleb_spec ?z"
      using sleb_big [OF big] by simp
    have b: "unat (of_nat (?g + 128) :: u8) = ?g + 128" using g by (intro unat_of_nat_u8) simp
    have at: "m_bytes m c = Some (of_nat (?g + 128))" and at': "bytes_at m (c + 1) (sleb_spec ?z)"
      using Suc.prems(1) unfolding bytes by simp_all
    have s64: "7 * j + 7 \<le> 64" using Suc.prems(3) by simp
    note group = leb_group [OF Suc.prems(2) g s64]
    have round: "leb_loop (Suc k) m r (7 * j) b0 c =
        (if ?g * 2 ^ (7 * j) < 2 ^ 31
         then leb_loop k m (r + of_nat (?g * 2 ^ (7 * j))) (7 * Suc j) (of_nat (?g + 128)) (c + 1)
         else None)"
      using leb_loop_round [OF at _ Suc.prems(2) s64, of ?g k b0] b g Suc.prems(3)
      by (simp add: add.commute [of 7] del: leb_loop.simps of_nat_add of_nat_mult)
    show ?thesis
    proof (cases "j = 4")
      case True
      then have "\<not> leb_fits z (7 * j)" using big by (auto simp: leb_fits_def)
      moreover from True Suc.prems(4) have k: "k = Suc 2" by simp
      then have "leb_loop k m r' (7 * Suc j) b' c' = None" for r' b' c'
        unfolding k using True by (intro leb_loop_late) simp
      ultimately show ?thesis unfolding round by simp
    next
      case False
      have j: "j \<le> 3" using Suc.prems(3) False by simp
      have "?g * 2 ^ (7 * j) \<le> 127 * 2 ^ 21"
        using g j by (intro mult_le_mono power_increasing) simp_all
      then have fit: "?g * 2 ^ (7 * j) < 2 ^ 31" by simp
      have "unat (r + of_nat (?g * 2 ^ (7 * j))) < 2 ^ (7 * Suc j)"
        using group(2,3) by (simp only: mult_Suc_right add.commute [of 7])
      then have IH: "leb_loop k m (r + of_nat (?g * 2 ^ (7 * j))) (7 * Suc j) (of_nat (?g + 128)) (c + 1)
            \<bind> leb_finish =
          (if leb_fits ?z (7 * Suc j)
           then Some (r + of_nat (?g * 2 ^ (7 * j)) + of_int (?z * 2 ^ (7 * Suc j)),
             c + 1 + of_nat (length (sleb_spec ?z))) else None)"
        using Suc.prems(4,5) j bytes by (intro Suc.IH [OF at']) simp_all
      have fits: "leb_fits ?z (7 * Suc j) \<longleftrightarrow> leb_fits z (7 * j)"
        using leb_fits_div [OF _ big, of "7 * j"] j by (simp add: add.commute)
      have "int (?g * 2 ^ (7 * j)) + ?z * 2 ^ (7 * Suc j) = z * 2 ^ (7 * j)"
      proof -
        have "int (?g * 2 ^ (7 * j)) + ?z * 2 ^ (7 * Suc j) = (z mod 128 + ?z * 128) * 2 ^ (7 * j)"
          by (simp only: distrib_right of_nat_mult of_nat_power) (simp add: power_add)
        then show ?thesis by (simp only: mod_div_mult_eq)
      qed
      then have sum: "(of_nat (?g * 2 ^ (7 * j)) :: u64) + of_int (?z * 2 ^ (7 * Suc j)) = of_int (z * 2 ^ (7 * j))"
        by (metis of_int_add of_int_of_nat_eq)
      have "leb_loop (Suc k) m r (7 * j) b0 c \<bind> leb_finish =
          (if leb_fits z (7 * j)
           then Some (r + (of_nat (?g * 2 ^ (7 * j)) + of_int (?z * 2 ^ (7 * Suc j))),
             c + of_nat (Suc (length (sleb_spec ?z)))) else None)"
        using IH fit fits unfolding round by (simp add: add.assoc del: of_nat_mult of_int_mult)
      then show ?thesis unfolding sum bytes by (simp only: list.size add_0_right add_Suc_right)
    qed
  qed
qed simp

text \<open>Reading the signed LEB128 form (of at most eight bytes) of a number,
  \<open>FIRCLSParseLEB128AndAdvance\<close> gives the number, sign-extended, and steps past its last byte
  when the number is from -2^27 to 2^31 - 1; for every other number the shifts of an \<open>int\<close> have
  no defined result.\<close>

theorem parse_leb128_exact:
  assumes "bytes_at m c (sleb_spec z)" and "length (sleb_spec z) \<le> 8"
  shows "FIRCLSParseLEB128AndAdvance m c =
    (if - (2 ^ 27) \<le> z \<and> z < 2 ^ 31 then Some (of_int z, c + of_nat (length (sleb_spec z))) else None)"
proof -
  have "leb_fits z 0 \<longleftrightarrow> - (2 ^ 27) \<le> z \<and> z < 2 ^ 31" by (auto simp: leb_fits_def)
  then show ?thesis
    using leb_loop_spec [of m c z 0 0 8 0] assms
    by (simp add: FIRCLSParseLEB128AndAdvance_def del: leb_loop.simps)
qed

lemma parse_leb128_witness:
  "FIRCLSParseLEB128AndAdvance (mem_at 16 [0x80, 0x7F]) 16 = Some (of_int (- 128), 18)"
proof -
  have "bytes_at (mem_at 16 [0x80, 0x7F]) 16 (sleb_spec (- 128))"
    by (simp add: mem_at_def sleb_spec.simps)
  from parse_leb128_exact [OF this] show ?thesis
    by (simp add: sleb_spec.simps)
qed

section \<open>How far the readers go\<close>

lemma uleb_loop_cursor:
  "uleb_loop n m r s c = Some (v, c') \<Longrightarrow> \<exists>k \<le> n. c' = c + of_nat k \<and> (0 < n \<longrightarrow> 0 < k)"
proof (induction n arbitrary: r s c)
  case (Suc n)
  then obtain r' where "c' = c + 1 \<or> uleb_loop n m r' (s + 7) (c + 1) = Some (v, c')"
    by (auto simp: bind_eq_Some_conv Let_def split: if_splits)
  then show ?case
  proof
    assume "c' = c + 1"
    then show ?thesis by (intro exI [of _ 1]) simp
  next
    assume "uleb_loop n m r' (s + 7) (c + 1) = Some (v, c')"
    from Suc.IH [OF this] obtain k where "k \<le> n" "c' = c + 1 + of_nat k" by blast
    then show ?thesis by (intro exI [of _ "Suc k"]) (simp add: add.assoc)
  qed
qed simp

lemma parse_uleb_cursor:
  "FIRCLSParseULEB128AndAdvance m c = Some (v, c') \<Longrightarrow> \<exists>k. 0 < k \<and> k \<le> 8 \<and> c' = c + of_nat k"
  using uleb_loop_cursor [of 8 m 0 0 c v c'] by (auto simp: FIRCLSParseULEB128AndAdvance_def)

lemma leb_loop_cursor:
  "leb_loop n m r s b c = Some (v, s', b', c') \<Longrightarrow> \<exists>k \<le> n. c' = c + of_nat k \<and> (0 < n \<longrightarrow> 0 < k)"
proof (induction n arbitrary: r s b c)
  case (Suc n)
  then obtain r' b1 where "c' = c + 1 \<or> leb_loop n m r' (s + 7) b1 (c + 1) = Some (v, s', b', c')"
    by (auto simp: bind_eq_Some_conv Let_def split: if_splits)
  then show ?case
  proof
    assume "c' = c + 1"
    then show ?thesis by (intro exI [of _ 1]) simp
  next
    assume "leb_loop n m r' (s + 7) b1 (c + 1) = Some (v, s', b', c')"
    from Suc.IH [OF this] obtain k where "k \<le> n" "c' = c + 1 + of_nat k" by blast
    then show ?thesis by (intro exI [of _ "Suc k"]) (simp add: add.assoc)
  qed
qed simp

lemma parse_leb_cursor:
  assumes "FIRCLSParseLEB128AndAdvance m c = Some (v, c')"
  shows "\<exists>k. 0 < k \<and> k \<le> 8 \<and> c' = c + of_nat k"
proof -
  from assms obtain r s b where "leb_loop 8 m 0 0 0 c = Some (r, s, b, c')"
    by (auto simp: FIRCLSParseLEB128AndAdvance_def leb_finish_def bind_eq_Some_conv
        simp del: leb_loop.simps split: if_splits)
  from leb_loop_cursor [OF this] show ?thesis by auto
qed

end
