(* ===== verification/Unw_Regs.thy ===== *)
theory Unw_Regs
  imports Unw_Data
begin

text \<open>
  The thread context of a 64-bit ARM device: \<open>Helpers/FIRCLSThreadState.c\<close> (without pointer
  authentication, where the system's accessors read and write the field), the register file
  DWARF numbers in \<open>Unwind/FIRCLSUnwind_arm.c\<close> and that file's two ways to leave a frame. The
  context is a value here, so the null checks of its address hold. The general registers are a
  list; the code indexes it with 0 to 28 only.

  Locale \<open>register_file\<close> is what the DWARF unwinder relies on when it fills a copy of the
  context register by register.
\<close>

section \<open>The thread context\<close>

record FIRCLSThreadContext =
  ss_x :: "u64 list"
  ss_fp :: u64
  ss_lr :: u64
  ss_sp :: u64
  ss_pc :: u64

definition context_wf :: "FIRCLSThreadContext \<Rightarrow> bool" where
  "context_wf r \<longleftrightarrow> length (ss_x r) = 29"

definition CLS_PTRAUTH_STRIP :: "u64 \<Rightarrow> u64" where
  "CLS_PTRAUTH_STRIP pointer = pointer AND 0x0000000FFFFFFFFF"

definition FIRCLSThreadContextGetPC :: "FIRCLSThreadContext \<Rightarrow> u64" where
  "FIRCLSThreadContextGetPC r = CLS_PTRAUTH_STRIP (ss_pc r)"

definition FIRCLSThreadContextGetStackPointer :: "FIRCLSThreadContext \<Rightarrow> u64" where
  "FIRCLSThreadContextGetStackPointer r = CLS_PTRAUTH_STRIP (ss_sp r)"

definition FIRCLSThreadContextSetStackPointer :: "FIRCLSThreadContext \<Rightarrow> u64 \<Rightarrow> FIRCLSThreadContext" where
  "FIRCLSThreadContextSetStackPointer r v = r\<lparr>ss_sp := v\<rparr>"

definition FIRCLSThreadContextGetLinkRegister :: "FIRCLSThreadContext \<Rightarrow> u64" where
  "FIRCLSThreadContextGetLinkRegister r = CLS_PTRAUTH_STRIP (ss_lr r)"

definition FIRCLSThreadContextSetLinkRegister :: "FIRCLSThreadContext \<Rightarrow> u64 \<Rightarrow> FIRCLSThreadContext" where
  "FIRCLSThreadContextSetLinkRegister r v = r\<lparr>ss_lr := v\<rparr>"

definition FIRCLSThreadContextSetPC :: "FIRCLSThreadContext \<Rightarrow> u64 \<Rightarrow> FIRCLSThreadContext" where
  "FIRCLSThreadContextSetPC r v = r\<lparr>ss_pc := v\<rparr>"

definition FIRCLSThreadContextGetFramePointer :: "FIRCLSThreadContext \<Rightarrow> u64" where
  "FIRCLSThreadContextGetFramePointer r = CLS_PTRAUTH_STRIP (ss_fp r)"

definition FIRCLSThreadContextSetFramePointer :: "FIRCLSThreadContext \<Rightarrow> u64 \<Rightarrow> FIRCLSThreadContext" where
  "FIRCLSThreadContextSetFramePointer r v = r\<lparr>ss_fp := v\<rparr>"

lemmas context_defs =
  FIRCLSThreadContextGetPC_def FIRCLSThreadContextGetStackPointer_def
  FIRCLSThreadContextSetStackPointer_def FIRCLSThreadContextGetLinkRegister_def
  FIRCLSThreadContextSetLinkRegister_def FIRCLSThreadContextSetPC_def
  FIRCLSThreadContextGetFramePointer_def FIRCLSThreadContextSetFramePointer_def

section \<open>DWARF register numbers\<close>

definition CLS_DWARF_ARM64_FP :: u64 where "CLS_DWARF_ARM64_FP = 29"
definition CLS_DWARF_ARM64_LR :: u64 where "CLS_DWARF_ARM64_LR = 30"
definition CLS_DWARF_ARM64_SP :: u64 where "CLS_DWARF_ARM64_SP = 31"

definition CLS_DWARF_MAX_REGISTER_NUM :: u64 where
  "CLS_DWARF_MAX_REGISTER_NUM = CLS_DWARF_ARM64_SP"

definition CLS_DWARF_INVALID_REGISTER_NUM :: u64 where
  "CLS_DWARF_INVALID_REGISTER_NUM = CLS_DWARF_MAX_REGISTER_NUM + 1"

lemmas dwarf_numbers =
  CLS_DWARF_ARM64_FP_def CLS_DWARF_ARM64_LR_def CLS_DWARF_ARM64_SP_def
  CLS_DWARF_MAX_REGISTER_NUM_def CLS_DWARF_INVALID_REGISTER_NUM_def

definition FIRCLSDwarfUnwindGetRegisterValue :: "FIRCLSThreadContext \<Rightarrow> u64 \<Rightarrow> u64" where
  "FIRCLSDwarfUnwindGetRegisterValue r num =
     (if num \<le> 28 then ss_x r ! unat num
      else if num = CLS_DWARF_ARM64_FP then FIRCLSThreadContextGetFramePointer r
      else if num = CLS_DWARF_ARM64_LR then FIRCLSThreadContextGetLinkRegister r
      else if num = CLS_DWARF_ARM64_SP then FIRCLSThreadContextGetStackPointer r
      else 0)"

definition FIRCLSDwarfUnwindSetRegisterValue ::
  "FIRCLSThreadContext \<Rightarrow> u64 \<Rightarrow> u64 \<Rightarrow> FIRCLSThreadContext option"
where
  "FIRCLSDwarfUnwindSetRegisterValue r num v =
     (if num \<le> 28 then Some (r\<lparr>ss_x := (ss_x r)[unat num := v]\<rparr>)
      else if num = CLS_DWARF_ARM64_FP then Some (FIRCLSThreadContextSetFramePointer r v)
      else if num = CLS_DWARF_ARM64_SP then Some (FIRCLSThreadContextSetStackPointer r v)
      else if num = CLS_DWARF_ARM64_LR
      then Some (FIRCLSThreadContextSetPC (FIRCLSThreadContextSetLinkRegister r v) v)
      else None)"

section \<open>Frames without DWARF\<close>

definition FIRCLSUnwindWithLRRegister :: "FIRCLSThreadContext \<Rightarrow> FIRCLSThreadContext option" where
  "FIRCLSUnwindWithLRRegister r =
     (let value = FIRCLSThreadContextGetLinkRegister r
      in if \<not> FIRCLSIsValidPointer value then None
         else Some (FIRCLSThreadContextSetPC r value))"

definition FIRCLSUnwindStackPointerFromFramePointer :: "u64 \<Rightarrow> u64" where
  "FIRCLSUnwindStackPointerFromFramePointer framePtr = framePtr + 2 * 8"

text \<open>\<open>stack[0]\<close> and \<open>stack[1]\<close> are read at once.\<close>

definition read_stack2 :: "memory \<Rightarrow> u64 \<Rightarrow> (u64 \<times> u64) option" where
  "read_stack2 m fp =
     map_option (\<lambda>bs. (of_nat (le_val (take 8 bs)), of_nat (le_val (drop 8 bs))))
       (FIRCLSReadMemory m fp 16)"

definition FIRCLSUnwindWithFramePointer ::
  "memory \<Rightarrow> FIRCLSThreadContext \<Rightarrow> bool \<Rightarrow> FIRCLSThreadContext option"
where
  "FIRCLSUnwindWithFramePointer m r allowScanning =
     (let lr = (if allowScanning then FIRCLSUnwindWithLRRegister r else None)
      in if lr \<noteq> None then lr
         else let framePointer = FIRCLSThreadContextGetFramePointer r
              in case read_stack2 m framePointer of
                   None \<Rightarrow> None
                 | Some (s0, s1) \<Rightarrow>
                     Some (FIRCLSThreadContextSetStackPointer
                       (FIRCLSThreadContextSetFramePointer (FIRCLSThreadContextSetPC r s1) s0)
                       (FIRCLSUnwindStackPointerFromFramePointer framePointer)))"

section \<open>The register file as an interface\<close>

text \<open>A bank of registers with partial writes: a write succeeds exactly on the numbers of the
  bank, is read back (up to what the register can hold) and leaves the others alone.\<close>

locale register_file =
  fixes get :: "'r \<Rightarrow> u64 \<Rightarrow> u64" and set_reg :: "'r \<Rightarrow> u64 \<Rightarrow> u64 \<Rightarrow> 'r option"
    and num_ok :: "u64 \<Rightarrow> bool" and hold :: "u64 \<Rightarrow> u64 \<Rightarrow> u64" and wf :: "'r \<Rightarrow> bool"
  assumes set_ok: "wf r \<Longrightarrow> num_ok n \<Longrightarrow> \<exists>r'. set_reg r n v = Some r' \<and> wf r'"
    and set_bad: "\<not> num_ok n \<Longrightarrow> set_reg r n v = None"
    and get_same: "wf r \<Longrightarrow> set_reg r n v = Some r' \<Longrightarrow> get r' n = hold n v"
    and get_other: "wf r \<Longrightarrow> set_reg r n v = Some r' \<Longrightarrow> k \<noteq> n \<Longrightarrow> get r' k = get r k"
begin

text \<open>Writing a list of numbered values, as the unwinder fills the new context.\<close>

primrec set_all :: "'r \<Rightarrow> (u64 \<times> u64) list \<Rightarrow> 'r option" where
  "set_all r [] = Some r"
| "set_all r (w # ws) = (case set_reg r (fst w) (snd w) of None \<Rightarrow> None | Some r' \<Rightarrow> set_all r' ws)"

lemma set_reg_wf: "set_reg r n v = Some r' \<Longrightarrow> wf r \<Longrightarrow> wf r'"
  using set_ok [of r n v] set_bad [of n r v] by (cases "num_ok n") auto

lemma set_all_wf: "set_all r ws = Some r' \<Longrightarrow> wf r \<Longrightarrow> wf r'"
  by (induction ws arbitrary: r) (auto split: option.splits dest: set_reg_wf)

lemma set_all_total:
  "wf r \<Longrightarrow> \<forall>w \<in> set ws. num_ok (fst w) \<Longrightarrow> \<exists>r'. set_all r ws = Some r'"
proof (induction ws arbitrary: r)
  case (Cons w ws)
  obtain r1 where "set_reg r (fst w) (snd w) = Some r1" "wf r1"
    using set_ok [OF Cons.prems(1), of "fst w" "snd w"] Cons.prems(2) by auto
  with Cons.IH [of r1] Cons.prems(2) show ?case by simp
qed simp

lemma get_set_all:
  assumes "set_all r ws = Some r'" and "wf r" and "distinct (map fst ws)"
  shows "get r' k = (case map_of ws k of None \<Rightarrow> get r k | Some v \<Rightarrow> hold k v)"
  using assms
proof (induction ws arbitrary: r)
  case (Cons w ws)
  from Cons.prems(1) obtain r1 where r1: "set_reg r (fst w) (snd w) = Some r1" "set_all r1 ws = Some r'"
    by (auto split: option.splits)
  from Cons.IH [OF r1(2) set_reg_wf [OF r1(1) Cons.prems(2)]] Cons.prems(3)
  have IH: "get r' k = (case map_of ws k of None \<Rightarrow> get r1 k | Some v \<Rightarrow> hold k v)" by simp
  show ?case
  proof (cases "k = fst w")
    case True
    with Cons.prems(3) have "map_of ws k = None" by (auto simp: map_of_eq_None_iff)
    then show ?thesis using IH True get_same [OF Cons.prems(2) r1(1)] by (cases w) simp
  next
    case False
    then show ?thesis using IH get_other [OF Cons.prems(2) r1(1)] by (cases w) (simp split: option.splits)
  qed
qed simp

end

text \<open>What a register of the context gives back of a value written to it.\<close>

definition reg_hold :: "u64 \<Rightarrow> u64 \<Rightarrow> u64" where
  "reg_hold n v = (if n \<le> 28 then v else CLS_PTRAUTH_STRIP v)"

lemma reg_num_cases:
  assumes "n \<le> 31"
  shows "n \<le> 28 \<or> n = 29 \<or> n = 30 \<or> n = (31 :: u64)"
proof -
  have "unat n \<le> 31" using assms by (simp add: word_le_nat_alt)
  then have "unat n \<le> 28 \<or> unat n = 29 \<or> unat n = 30 \<or> unat n = 31" by linarith
  then show ?thesis by (auto simp: word_le_nat_alt word_unat_eq_iff)
qed

lemma reg_upd_other: "k \<noteq> n \<Longrightarrow> xs[unat n := v] ! unat k = xs ! unat (k :: u64)"
  by (rule nth_list_update_neq) (simp add: word_unat_eq_iff [symmetric])

interpretation arm64: register_file FIRCLSDwarfUnwindGetRegisterValue FIRCLSDwarfUnwindSetRegisterValue
  "\<lambda>n. n \<le> CLS_DWARF_MAX_REGISTER_NUM" reg_hold context_wf
proof
  fix r :: FIRCLSThreadContext and n v k :: u64 and r'
  show "\<exists>r'. FIRCLSDwarfUnwindSetRegisterValue r n v = Some r' \<and> context_wf r'"
    if "context_wf r" "n \<le> CLS_DWARF_MAX_REGISTER_NUM"
    using that reg_num_cases [of n]
    by (auto simp: FIRCLSDwarfUnwindSetRegisterValue_def dwarf_numbers context_defs context_wf_def)
  show "FIRCLSDwarfUnwindSetRegisterValue r n v = None" if "\<not> n \<le> CLS_DWARF_MAX_REGISTER_NUM"
    using that order_trans [of n 28 31] by (auto simp: FIRCLSDwarfUnwindSetRegisterValue_def dwarf_numbers)
  show "FIRCLSDwarfUnwindGetRegisterValue r' n = reg_hold n v"
    if "context_wf r" "FIRCLSDwarfUnwindSetRegisterValue r n v = Some r'"
    using that
    by (auto simp: FIRCLSDwarfUnwindSetRegisterValue_def FIRCLSDwarfUnwindGetRegisterValue_def
        reg_hold_def dwarf_numbers context_defs context_wf_def word_le_nat_alt split: if_splits)
  show "FIRCLSDwarfUnwindGetRegisterValue r' k = FIRCLSDwarfUnwindGetRegisterValue r k"
    if "context_wf r" "FIRCLSDwarfUnwindSetRegisterValue r n v = Some r'" "k \<noteq> n"
    using that
    by (auto simp: FIRCLSDwarfUnwindSetRegisterValue_def FIRCLSDwarfUnwindGetRegisterValue_def
        dwarf_numbers context_defs reg_upd_other split: if_splits)
qed

end
