(* ===== verification/Unw_Expr.thy ===== *)
theory Unw_Expr
  imports Unw_Regs
begin

text \<open>
  The DWARF expression machine: \<open>Unwind/Dwarf/FIRCLSDwarfExpressionMachine.c\<close> and
  \<open>FIRCLSDwarfEvalulateExpression\<close> of \<open>FIRCLSDwarfUnwind.c\<close>. The machine is a value, so the
  null checks of its address hold; the stack's \<open>pointer\<close> is an index into its buffer, or
  \<open>None\<close> for the null pointer an overflow or underflow leaves. An opcode gives the Boolean
  result with the machine it leaves, \<open>None\<close> where C defines no result.
\<close>

section \<open>The stack\<close>

definition CLS_DWARF_EXPRESSION_STACK_SIZE :: nat where
  "CLS_DWARF_EXPRESSION_STACK_SIZE = 100"

record FIRCLSDwarfExpressionStack =
  es_buffer :: "u64 list"
  es_pointer :: "nat option"

definition FIRCLSDwarfExpressionStackInit :: FIRCLSDwarfExpressionStack where
  "FIRCLSDwarfExpressionStackInit =
     \<lparr>es_buffer = replicate CLS_DWARF_EXPRESSION_STACK_SIZE 0, es_pointer = Some 0\<rparr>"

definition FIRCLSDwarfExpressionStackIsValid :: "FIRCLSDwarfExpressionStack \<Rightarrow> bool" where
  "FIRCLSDwarfExpressionStackIsValid s =
     (case es_pointer s of None \<Rightarrow> False | Some p \<Rightarrow> p \<le> CLS_DWARF_EXPRESSION_STACK_SIZE)"

definition FIRCLSDwarfExpressionStackPush ::
  "FIRCLSDwarfExpressionStack \<Rightarrow> u64 \<Rightarrow> bool \<times> FIRCLSDwarfExpressionStack"
where
  "FIRCLSDwarfExpressionStackPush s value =
     (if \<not> FIRCLSDwarfExpressionStackIsValid s then (False, s)
      else if es_pointer s = Some CLS_DWARF_EXPRESSION_STACK_SIZE
      then (False, s\<lparr>es_pointer := None\<rparr>)
      else let p = the (es_pointer s)
           in (True, s\<lparr>es_buffer := (es_buffer s)[p := value], es_pointer := Some (p + 1)\<rparr>))"

definition FIRCLSDwarfExpressionStackPeek ::
  "FIRCLSDwarfExpressionStack \<Rightarrow> u64 \<times> FIRCLSDwarfExpressionStack"
where
  "FIRCLSDwarfExpressionStackPeek s =
     (if \<not> FIRCLSDwarfExpressionStackIsValid s then (0, s)
      else if es_pointer s = Some 0 then (0, s\<lparr>es_pointer := None\<rparr>)
      else (es_buffer s ! (the (es_pointer s) - 1), s))"

definition FIRCLSDwarfExpressionStackPop ::
  "FIRCLSDwarfExpressionStack \<Rightarrow> u64 \<times> FIRCLSDwarfExpressionStack"
where
  "FIRCLSDwarfExpressionStackPop s =
     (if \<not> FIRCLSDwarfExpressionStackIsValid s then (0, s)
      else if es_pointer s = Some 0 then (0, s\<lparr>es_pointer := None\<rparr>)
      else let p = the (es_pointer s) - 1 in (es_buffer s ! p, s\<lparr>es_pointer := Some p\<rparr>))"

section \<open>The machine\<close>

record FIRCLSDwarfExpressionMachine =
  em_stack :: FIRCLSDwarfExpressionStack
  em_dataCursor :: u64
  em_endAddress :: u64
  em_registers :: FIRCLSThreadContext

definition FIRCLSDwarfExpressionMachineInit ::
  "u64 \<Rightarrow> FIRCLSThreadContext \<Rightarrow> u64 \<Rightarrow> FIRCLSDwarfExpressionMachine option"
where
  "FIRCLSDwarfExpressionMachineInit cursor registers stackValue =
     (if \<not> FIRCLSIsValidPointer cursor then None
      else let (ok, st) = FIRCLSDwarfExpressionStackPush FIRCLSDwarfExpressionStackInit stackValue
           in if ok then Some \<lparr>em_stack = st, em_dataCursor = cursor, em_endAddress = 0,
                               em_registers = registers\<rparr>
              else None)"

definition FIRCLSDwarfExpressionMachinePrepareForExecution ::
  "memory \<Rightarrow> FIRCLSDwarfExpressionMachine \<Rightarrow> FIRCLSDwarfExpressionMachine option option"
where
  "FIRCLSDwarfExpressionMachinePrepareForExecution m M =
     do { (len, c) \<leftarrow> FIRCLSParseULEB128AndAdvance m (em_dataCursor M);
          if len = 0 then Some None
          else Some (Some (M\<lparr>em_dataCursor := c, em_endAddress := c + len\<rparr>)) }"

definition FIRCLSDwarfExpressionMachineIsFinished :: "FIRCLSDwarfExpressionMachine \<Rightarrow> bool" where
  "FIRCLSDwarfExpressionMachineIsFinished M =
     (if \<not> FIRCLSIsValidPointer (em_endAddress M) \<or> \<not> FIRCLSIsValidPointer (em_dataCursor M) then True
      else if \<not> FIRCLSDwarfExpressionStackIsValid (em_stack M) then True
      else em_endAddress M \<le> em_dataCursor M)"

definition FIRCLSDwarfExpressionMachineGetResult :: "FIRCLSDwarfExpressionMachine \<Rightarrow> u64 option" where
  "FIRCLSDwarfExpressionMachineGetResult M =
     (if em_dataCursor M \<noteq> em_endAddress M then None
      else let (v, st) = FIRCLSDwarfExpressionStackPeek (em_stack M)
           in if FIRCLSDwarfExpressionStackIsValid st then Some v else None)"

text \<open>The two helpers on the machine's own stack.\<close>

definition FIRCLSDwarfExpressionMachineStackPop ::
  "FIRCLSDwarfExpressionMachine \<Rightarrow> u64 \<times> FIRCLSDwarfExpressionMachine"
where
  "FIRCLSDwarfExpressionMachineStackPop M =
     (let (v, st) = FIRCLSDwarfExpressionStackPop (em_stack M) in (v, M\<lparr>em_stack := st\<rparr>))"

definition FIRCLSDwarfExpressionMachineStackPush ::
  "FIRCLSDwarfExpressionMachine \<Rightarrow> u64 \<Rightarrow> bool \<times> FIRCLSDwarfExpressionMachine"
where
  "FIRCLSDwarfExpressionMachineStackPush M value =
     (let (ok, st) = FIRCLSDwarfExpressionStackPush (em_stack M) value in (ok, M\<lparr>em_stack := st\<rparr>))"

section \<open>The opcodes\<close>

type_synonym machine_result = "(bool \<times> FIRCLSDwarfExpressionMachine) option"

definition FIRCLSDwarfExpressionMachineExecute_bregN ::
  "memory \<Rightarrow> FIRCLSDwarfExpressionMachine \<Rightarrow> u8 \<Rightarrow> machine_result"
where
  "FIRCLSDwarfExpressionMachineExecute_bregN m M opcode =
     (let regNum = opcode - 0x70
      in if ucast regNum > CLS_DWARF_MAX_REGISTER_NUM then Some (False, M)
         else do { (offset, c) \<leftarrow> FIRCLSParseLEB128AndAdvance m (em_dataCursor M);
                   let value = FIRCLSDwarfUnwindGetRegisterValue (em_registers M) (ucast regNum) + offset;
                   Some (FIRCLSDwarfExpressionMachineStackPush (M\<lparr>em_dataCursor := c\<rparr>) value) })"

definition FIRCLSDwarfExpressionMachineExecute_deref ::
  "memory \<Rightarrow> FIRCLSDwarfExpressionMachine \<Rightarrow> machine_result"
where
  "FIRCLSDwarfExpressionMachineExecute_deref m M =
     (let (value, M) = FIRCLSDwarfExpressionMachineStackPop M
      in case read_pointer m value of
           None \<Rightarrow> Some (False, M)
         | Some value \<Rightarrow> Some (FIRCLSDwarfExpressionMachineStackPush M value))"

text \<open>The sum of the \<open>intptr_t\<close> value and the \<open>uint64_t\<close> constant is unsigned.\<close>

definition FIRCLSDwarfExpressionMachineExecute_plus_uconst ::
  "memory \<Rightarrow> FIRCLSDwarfExpressionMachine \<Rightarrow> machine_result"
where
  "FIRCLSDwarfExpressionMachineExecute_plus_uconst m M =
     (let (value, M) = FIRCLSDwarfExpressionMachineStackPop M
      in do { (k, c) \<leftarrow> FIRCLSParseULEB128AndAdvance m (em_dataCursor M);
              Some (FIRCLSDwarfExpressionMachineStackPush (M\<lparr>em_dataCursor := c\<rparr>) (value + k)) })"

definition FIRCLSDwarfExpressionMachineExecute_and ::
  "FIRCLSDwarfExpressionMachine \<Rightarrow> machine_result"
where
  "FIRCLSDwarfExpressionMachineExecute_and M =
     (let (value, M) = FIRCLSDwarfExpressionMachineStackPop M;
          (other, M) = FIRCLSDwarfExpressionMachineStackPop M
      in Some (FIRCLSDwarfExpressionMachineStackPush M (value AND other)))"

definition FIRCLSDwarfExpressionMachineExecute_plus ::
  "FIRCLSDwarfExpressionMachine \<Rightarrow> machine_result"
where
  "FIRCLSDwarfExpressionMachineExecute_plus M =
     (let (value, M) = FIRCLSDwarfExpressionMachineStackPop M;
          (other, M) = FIRCLSDwarfExpressionMachineStackPop M
      in do { sum \<leftarrow> c_add_s64 value other; Some (FIRCLSDwarfExpressionMachineStackPush M sum) })"

definition FIRCLSDwarfExpressionMachineExecute_dup ::
  "FIRCLSDwarfExpressionMachine \<Rightarrow> machine_result"
where
  "FIRCLSDwarfExpressionMachineExecute_dup M =
     (let (value, st) = FIRCLSDwarfExpressionStackPeek (em_stack M)
      in Some (FIRCLSDwarfExpressionMachineStackPush (M\<lparr>em_stack := st\<rparr>) value))"

definition FIRCLSDwarfExpressionMachineExecute_swap ::
  "FIRCLSDwarfExpressionMachine \<Rightarrow> machine_result"
where
  "FIRCLSDwarfExpressionMachineExecute_swap M =
     (let (valueA, M) = FIRCLSDwarfExpressionMachineStackPop M;
          (valueB, M) = FIRCLSDwarfExpressionMachineStackPop M;
          (ok, M) = FIRCLSDwarfExpressionMachineStackPush M valueA
      in if \<not> ok then Some (False, M)
         else Some (FIRCLSDwarfExpressionMachineStackPush M valueB))"

text \<open>The value of the size the operand names, read at the popped address as it is.\<close>

definition deref_sized :: "memory \<Rightarrow> u64 \<Rightarrow> u8 \<Rightarrow> u64 option option" where
  "deref_sized m address readSize =
     (if readSize = 1 then map_option (\<lambda>(v, _). Some (ucast v)) (FIRCLSParseUint8AndAdvance m address)
      else if readSize = 2 then map_option (\<lambda>(v, _). Some (ucast v)) (FIRCLSParseUint16AndAdvance m address)
      else if readSize = 4 then map_option (\<lambda>(v, _). Some (ucast v)) (FIRCLSParseUint32AndAdvance m address)
      else if readSize = 8 then map_option (\<lambda>(v, _). Some v) (FIRCLSParseUint64AndAdvance m address)
      else Some None)"

definition FIRCLSDwarfExpressionMachineExecute_deref_size ::
  "memory \<Rightarrow> FIRCLSDwarfExpressionMachine \<Rightarrow> machine_result"
where
  "FIRCLSDwarfExpressionMachineExecute_deref_size m M =
     (let (address, M) = FIRCLSDwarfExpressionMachineStackPop M
      in do { (readSize, c) \<leftarrow> FIRCLSParseUint8AndAdvance m (em_dataCursor M);
              let M = M\<lparr>em_dataCursor := c\<rparr>;
              v \<leftarrow> deref_sized m address readSize;
              case v of
                None \<Rightarrow> Some (False, M)
              | Some value \<Rightarrow> Some (FIRCLSDwarfExpressionMachineStackPush M value) })"

definition FIRCLSDwarfExpressionMachineExecute_ne ::
  "FIRCLSDwarfExpressionMachine \<Rightarrow> machine_result"
where
  "FIRCLSDwarfExpressionMachineExecute_ne M =
     (let (value, M) = FIRCLSDwarfExpressionMachineStackPop M;
          (other, M) = FIRCLSDwarfExpressionMachineStackPop M
      in Some (FIRCLSDwarfExpressionMachineStackPush M (if value \<noteq> other then 1 else 0)))"

definition FIRCLSDwarfExpressionMachineExecute_litN ::
  "FIRCLSDwarfExpressionMachine \<Rightarrow> u8 \<Rightarrow> machine_result"
where
  "FIRCLSDwarfExpressionMachineExecute_litN M opcode =
     Some (FIRCLSDwarfExpressionMachineStackPush M (ucast (opcode - 0x30)))"

definition FIRCLSDwarfExpressionMachineExecuteNextOpcode ::
  "memory \<Rightarrow> FIRCLSDwarfExpressionMachine \<Rightarrow> machine_result"
where
  "FIRCLSDwarfExpressionMachineExecuteNextOpcode m M =
     do { (opcode, c) \<leftarrow> FIRCLSParseUint8AndAdvance m (em_dataCursor M);
          let M = M\<lparr>em_dataCursor := c\<rparr>;
          if opcode = 0x06 then FIRCLSDwarfExpressionMachineExecute_deref m M
          else if opcode = 0x12 then FIRCLSDwarfExpressionMachineExecute_dup M
          else if opcode = 0x1A then FIRCLSDwarfExpressionMachineExecute_and M
          else if opcode = 0x22 then FIRCLSDwarfExpressionMachineExecute_plus M
          else if opcode = 0x16 then FIRCLSDwarfExpressionMachineExecute_swap M
          else if opcode = 0x23 then FIRCLSDwarfExpressionMachineExecute_plus_uconst m M
          else if opcode = 0x2E then FIRCLSDwarfExpressionMachineExecute_ne M
          else if 0x30 \<le> opcode \<and> opcode \<le> 0x4F then FIRCLSDwarfExpressionMachineExecute_litN M opcode
          else if 0x70 \<le> opcode \<and> opcode \<le> 0x8F then FIRCLSDwarfExpressionMachineExecute_bregN m M opcode
          else if opcode = 0x94 then FIRCLSDwarfExpressionMachineExecute_deref_size m M
          else Some (False, M) }"

section \<open>Evaluation\<close>

text \<open>One round of the loop; it is left with the machine or, where an opcode fails, without.\<close>

definition expression_round ::
  "memory \<Rightarrow> FIRCLSDwarfExpressionMachine \<Rightarrow>
     (FIRCLSDwarfExpressionMachine + FIRCLSDwarfExpressionMachine option) option"
where
  "expression_round m M =
     (if FIRCLSDwarfExpressionMachineIsFinished M then Some (Inr (Some M))
      else do { (ok, M) \<leftarrow> FIRCLSDwarfExpressionMachineExecuteNextOpcode m M;
                Some (if ok then Inl M else Inr None) })"

definition FIRCLSDwarfEvalulateExpression ::
  "memory \<Rightarrow> u64 \<Rightarrow> FIRCLSThreadContext \<Rightarrow> u64 \<Rightarrow> u64 option option"
where
  "FIRCLSDwarfEvalulateExpression m cursor registers stackValue =
     (if \<not> FIRCLSIsValidPointer cursor then Some None
      else case FIRCLSDwarfExpressionMachineInit cursor registers stackValue of
             None \<Rightarrow> Some None
           | Some M \<Rightarrow>
               do { P \<leftarrow> FIRCLSDwarfExpressionMachinePrepareForExecution m M;
                    case P of
                      None \<Rightarrow> Some None
                    | Some M \<Rightarrow>
                        do { E \<leftarrow> c_loop (expression_round m) M;
                             case E of
                               None \<Rightarrow> Some None
                             | Some M \<Rightarrow> Some (FIRCLSDwarfExpressionMachineGetResult M) } })"

end
