(* ===== verification/Unw_Dwarf.thy ===== *)
theory Unw_Dwarf
  imports Unw_Expr
begin

text \<open>
  \<open>Unwind/Dwarf/FIRCLSDwarfUnwind.c\<close>: reading the CIE and FDE records of an \<open>.eh_frame\<close>
  section, running their call frame instructions up to a code offset, and computing the caller's
  registers from the rules they leave. The records and the state are values, so the null checks of
  their addresses hold; a function that returns \<open>false\<close> gives \<open>Some None\<close>, and what it has put
  into its result by then is dropped, as all callers do. \<open>None\<close> is what C does not define.
\<close>

section \<open>Records\<close>

record DWARFInstructions =
  di_length :: u32
  di_data :: u64

record DWARFCIERecord =
  cie_length :: u64
  cie_version :: u8
  cie_ehData :: u64
  cie_augmentation :: u64
  cie_pointerEncoding :: u8
  cie_lsdaEncoding :: u8
  cie_personalityEncoding :: u8
  cie_personalityFunction :: u64
  cie_codeAlignFactor :: u64
  cie_dataAlignFactor :: u64
  cie_returnAddressRegister :: u64
  cie_signalFrame :: bool
  cie_instructions :: DWARFInstructions

record DWARFFDERecord =
  fde_length :: u64
  fde_cieOffset :: u64
  fde_startAddress :: u64
  fde_rangeSize :: u64
  fde_instructions :: DWARFInstructions

record FIRCLSDwarfCFIRecord =
  cfi_cie :: DWARFCIERecord
  cfi_fde :: DWARFFDERecord

datatype FIRCLSDwarfRegisterLocation =
    FIRCLSDwarfRegisterUnused | FIRCLSDwarfRegisterInCFA | FIRCLSDwarfRegisterOffsetFromCFA
  | FIRCLSDwarfRegisterInRegister | FIRCLSDwarfRegisterAtExpression | FIRCLSDwarfRegisterIsExpression

record FIRCLSDwarfRegister =
  dr_location :: FIRCLSDwarfRegisterLocation
  dr_value :: u64

record FIRCLSDwarfState =
  ds_cfaRegister :: u64
  ds_cfaRegisterOffset :: u64
  ds_cfaExpression :: u64
  ds_spArgSize :: u32
  ds_registers :: "FIRCLSDwarfRegister list"

text \<open>The state after \<open>memset\<close>.\<close>

definition dwarf_state_zero :: FIRCLSDwarfState where
  "dwarf_state_zero =
     \<lparr>ds_cfaRegister = 0, ds_cfaRegisterOffset = 0, ds_cfaExpression = 0, ds_spArgSize = 0,
      ds_registers = replicate 32 \<lparr>dr_location = FIRCLSDwarfRegisterUnused, dr_value = 0\<rparr>\<rparr>"

section \<open>Record parsing\<close>

text \<open>The augmentation characters with \<open>n\<close> to go, the next one at \<open>a\<close>.\<close>

primrec augmentation_loop ::
  "nat \<Rightarrow> memory \<Rightarrow> u64 \<Rightarrow> u64 \<Rightarrow> DWARFCIERecord \<Rightarrow> u64 \<Rightarrow> (DWARFCIERecord \<times> u64) option option"
where
  "augmentation_loop 0 m ending a cie ptr = Some (Some (cie, ptr))"
| "augmentation_loop (Suc n) m ending a cie ptr =
     do { ch \<leftarrow> load_u8 m a;
          S \<leftarrow> (if ch = 0x4C then
                  map_option (\<lambda>(v, p). Some (cie\<lparr>cie_lsdaEncoding := v\<rparr>, p)) (FIRCLSParseUint8AndAdvance m ptr)
                else if ch = 0x52 then
                  map_option (\<lambda>(v, p). Some (cie\<lparr>cie_pointerEncoding := v\<rparr>, p)) (FIRCLSParseUint8AndAdvance m ptr)
                else if ch = 0x50 then
                  do { (v, p) \<leftarrow> FIRCLSParseUint8AndAdvance m ptr;
                       (f, p) \<leftarrow> FIRCLSParseAddressWithEncodingAndAdvance m p v;
                       if f = CLS_INVALID_ADDRESS then Some None
                       else Some (Some (cie\<lparr>cie_personalityEncoding := v, cie_personalityFunction := f\<rparr>, p)) }
                else if ch = 0x53 then Some (Some (cie\<lparr>cie_signalFrame := True\<rparr>, ptr))
                else Some None);
          case S of
            None \<Rightarrow> Some None
          | Some (cie, ptr) \<Rightarrow>
              if ptr > ending then Some None else augmentation_loop n m ending (a + 1) cie ptr }"

definition FIRCLSDwarfParseAndProcessAugmentation ::
  "memory \<Rightarrow> DWARFCIERecord \<Rightarrow> u64 \<Rightarrow> (DWARFCIERecord \<times> u64) option option"
where
  "FIRCLSDwarfParseAndProcessAugmentation m cie ptr =
     (if cie_augmentation cie = 0 then Some None
      else do { ch \<leftarrow> load_u8 m (cie_augmentation cie);
                if ch = 0 then Some (Some (cie, ptr))
                else if ch \<noteq> 0x7A then Some None
                else do { stringLength \<leftarrow> c_strlen m (cie_augmentation cie);
                          (dataLength, ptr) \<leftarrow> FIRCLSParseULEB128AndAdvance m ptr;
                          augmentation_loop (unat stringLength - 1) m (ptr + dataLength)
                            (cie_augmentation cie + 1) cie ptr } })"

text \<open>The return address register, by version; another version is refused after it was logged.\<close>

definition parse_return_register :: "memory \<Rightarrow> u8 \<Rightarrow> u64 \<Rightarrow> (u64 \<times> u64) option option" where
  "parse_return_register m version ptr =
     (if version = 1 then map_option (\<lambda>(v, p). Some (ucast v, p)) (FIRCLSParseUint8AndAdvance m ptr)
      else if version = 3 then map_option Some (FIRCLSParseULEB128AndAdvance m ptr)
      else Some None)"

definition FIRCLSDwarfParseCIERecord :: "memory \<Rightarrow> u64 \<Rightarrow> DWARFCIERecord option option" where
  "FIRCLSDwarfParseCIERecord m ptr =
     (if ptr = 0 then Some None
      else do { (len, ptr) \<leftarrow> FIRCLSParseRecordLengthAndAdvance m ptr;
           if len = 0 then Some None
           else do { let endAddress = ptr + len;
                (flag, ptr) \<leftarrow> FIRCLSParseUint32AndAdvance m ptr;
                (version, ptr) \<leftarrow> FIRCLSParseUint8AndAdvance m ptr;
                (augmentation, ptr) \<leftarrow> FIRCLSParseStringAndAdvance m ptr;
                (caf, ptr) \<leftarrow> FIRCLSParseULEB128AndAdvance m ptr;
                (daf, ptr) \<leftarrow> FIRCLSParseLEB128AndAdvance m ptr;
                R \<leftarrow> parse_return_register m version ptr;
                case R of
                  None \<Rightarrow> Some None
                | Some (ra, ptr) \<Rightarrow>
                    do { A \<leftarrow> FIRCLSDwarfParseAndProcessAugmentation m
                           \<lparr>cie_length = len, cie_version = version, cie_ehData = 0,
                            cie_augmentation = augmentation, cie_pointerEncoding = 0x00,
                            cie_lsdaEncoding = 0x00, cie_personalityEncoding = 0,
                            cie_personalityFunction = 0, cie_codeAlignFactor = caf,
                            cie_dataAlignFactor = daf, cie_returnAddressRegister = ra,
                            cie_signalFrame = False,
                            cie_instructions = \<lparr>di_length = 0, di_data = 0\<rparr>\<rparr> ptr;
                         case A of
                           None \<Rightarrow> Some None
                         | Some (cie, ptr) \<Rightarrow>
                             Some (Some (cie\<lparr>cie_instructions :=
                               \<lparr>di_length = ucast (endAddress - ptr), di_data = ptr\<rparr>\<rparr>)) } } })"

definition FIRCLSDwarfCIEIsValid :: "DWARFCIERecord \<Rightarrow> bool" where
  "FIRCLSDwarfCIEIsValid cie \<longleftrightarrow>
     \<not> cie_length cie = 0 \<and> \<not> (cie_version cie \<noteq> 1 \<and> cie_version cie \<noteq> 3)"

definition FIRCLSDwarfCIEHasAugmentationData :: "memory \<Rightarrow> DWARFCIERecord \<Rightarrow> bool option" where
  "FIRCLSDwarfCIEHasAugmentationData m cie =
     (if cie_augmentation cie = 0 then Some False
      else map_option (\<lambda>ch. ch = 0x7A) (load_u8 m (cie_augmentation cie)))"

text \<open>The part of an FDE after its CIE is known.\<close>

definition parse_fde_fields ::
  "memory \<Rightarrow> DWARFCIERecord \<Rightarrow> u64 \<Rightarrow> u64 \<Rightarrow> u64 \<Rightarrow> u64 \<Rightarrow> DWARFFDERecord option option"
where
  "parse_fde_fields m cie len cieOffset endAddress ptr =
     do { (start, ptr) \<leftarrow> FIRCLSParseAddressWithEncodingAndAdvance m ptr (cie_pointerEncoding cie);
          if start = CLS_INVALID_ADDRESS then Some None
          else do { (range, ptr) \<leftarrow>
                      FIRCLSParseAddressWithEncodingAndAdvance m ptr (cie_pointerEncoding cie AND 0x0F);
               if range = CLS_INVALID_ADDRESS then Some None
               else do { z \<leftarrow> FIRCLSDwarfCIEHasAugmentationData m cie;
                    ptr \<leftarrow> (if z then map_option (\<lambda>(n, p). p + n) (FIRCLSParseULEB128AndAdvance m ptr)
                            else Some ptr);
                    Some (Some \<lparr>fde_length = len, fde_cieOffset = cieOffset, fde_startAddress = start,
                      fde_rangeSize = range, fde_instructions =
                        \<lparr>di_length = ucast (endAddress - ptr), di_data = ptr\<rparr>\<rparr>) } } }"

definition FIRCLSDwarfParseFDERecord ::
  "memory \<Rightarrow> bool \<Rightarrow> DWARFCIERecord \<Rightarrow> u64 \<Rightarrow> FIRCLSDwarfCFIRecord option option"
where
  "FIRCLSDwarfParseFDERecord m parseCIE cieRecord ptr =
     (if ptr = 0 then Some None
      else do { (len, ptr) \<leftarrow> FIRCLSParseRecordLengthAndAdvance m ptr;
           if len = 0 then Some None
           else do { let endAddress = ptr + len;
                (off, ptr) \<leftarrow> FIRCLSParseUint32AndAdvance m ptr;
                let cieOffset = ucast off;
                if cieOffset = 0 then Some None
                else do { C \<leftarrow> (if parseCIE then FIRCLSDwarfParseCIERecord m (ptr - cieOffset - 4)
                                else Some (Some cieRecord));
                     case C of
                       None \<Rightarrow> Some None
                     | Some cie \<Rightarrow>
                         if \<not> FIRCLSDwarfCIEIsValid cie then Some None
                         else do { F \<leftarrow> parse_fde_fields m cie len cieOffset endAddress ptr;
                                   Some (map_option (\<lambda>fde. \<lparr>cfi_cie = cie, cfi_fde = fde\<rparr>) F) } } } })"

text \<open>A fresh CIE is passed where the record's own is parsed.\<close>

definition cie_unset :: DWARFCIERecord where
  "cie_unset =
     \<lparr>cie_length = 0, cie_version = 0, cie_ehData = 0, cie_augmentation = 0, cie_pointerEncoding = 0,
      cie_lsdaEncoding = 0, cie_personalityEncoding = 0, cie_personalityFunction = 0,
      cie_codeAlignFactor = 0, cie_dataAlignFactor = 0, cie_returnAddressRegister = 0,
      cie_signalFrame = False, cie_instructions = \<lparr>di_length = 0, di_data = 0\<rparr>\<rparr>"

definition FIRCLSDwarfParseCFIFromFDERecord :: "memory \<Rightarrow> u64 \<Rightarrow> FIRCLSDwarfCFIRecord option option" where
  "FIRCLSDwarfParseCFIFromFDERecord m ptr =
     (if ptr = 0 then Some None else FIRCLSDwarfParseFDERecord m True cie_unset ptr)"

definition FIRCLSDwarfParseCFIFromFDERecordOffset ::
  "memory \<Rightarrow> u64 \<Rightarrow> u64 \<Rightarrow> FIRCLSDwarfCFIRecord option option"
where
  "FIRCLSDwarfParseCFIFromFDERecordOffset m ehFrame fdeOffset =
     (if ehFrame = 0 \<or> fdeOffset = 0 then Some None
      else FIRCLSDwarfParseCFIFromFDERecord m (ehFrame + fdeOffset))"

section \<open>Instructions\<close>

text \<open>The instructions that move the code offset: the new offset with the cursor. The products
  of an unsigned operand with the 64-bit factor are unsigned; the sums are signed.\<close>

definition FIRCLSDwarfParseAndExecute_set_loc ::
  "memory \<Rightarrow> DWARFCIERecord \<Rightarrow> u64 \<Rightarrow> (u64 \<times> u64) option"
where
  "FIRCLSDwarfParseAndExecute_set_loc m cie cursor =
     FIRCLSParseAddressWithEncodingAndAdvance m cursor (cie_pointerEncoding cie)"

definition FIRCLSDwarfParseAndExecute_advance_loc1 ::
  "memory \<Rightarrow> DWARFCIERecord \<Rightarrow> u64 \<Rightarrow> u64 \<Rightarrow> (u64 \<times> u64) option"
where
  "FIRCLSDwarfParseAndExecute_advance_loc1 m cie codeOffset cursor =
     do { (v, c) \<leftarrow> FIRCLSParseUint8AndAdvance m cursor;
          codeOffset \<leftarrow> c_add_s64 codeOffset (ucast v * cie_codeAlignFactor cie);
          Some (codeOffset, c) }"

definition FIRCLSDwarfParseAndExecute_advance_loc2 ::
  "memory \<Rightarrow> DWARFCIERecord \<Rightarrow> u64 \<Rightarrow> u64 \<Rightarrow> (u64 \<times> u64) option"
where
  "FIRCLSDwarfParseAndExecute_advance_loc2 m cie codeOffset cursor =
     do { (v, c) \<leftarrow> FIRCLSParseUint16AndAdvance m cursor;
          codeOffset \<leftarrow> c_add_s64 codeOffset (ucast v * cie_codeAlignFactor cie);
          Some (codeOffset, c) }"

definition FIRCLSDwarfParseAndExecute_advance_loc4 ::
  "memory \<Rightarrow> DWARFCIERecord \<Rightarrow> u64 \<Rightarrow> u64 \<Rightarrow> (u64 \<times> u64) option"
where
  "FIRCLSDwarfParseAndExecute_advance_loc4 m cie codeOffset cursor =
     do { (v, c) \<leftarrow> FIRCLSParseUint32AndAdvance m cursor;
          codeOffset \<leftarrow> c_add_s64 codeOffset (ucast v * cie_codeAlignFactor cie);
          Some (codeOffset, c) }"

text \<open>The product of \<open>delta\<close> and the factor as \<open>intptr_t\<close> is signed; it replaces the offset.\<close>

definition FIRCLSDwarfParseAndExecute_advance_loc :: "DWARFCIERecord \<Rightarrow> u8 \<Rightarrow> u64 option" where
  "FIRCLSDwarfParseAndExecute_advance_loc cie delta = c_mul_s64 (ucast delta) (cie_codeAlignFactor cie)"

text \<open>The instructions that change the rules: the new state with the cursor.\<close>

type_synonym rule_result = "(FIRCLSDwarfState \<times> u64) option option"

definition set_rule :: "FIRCLSDwarfState \<Rightarrow> u64 \<Rightarrow> FIRCLSDwarfRegisterLocation \<Rightarrow> u64 \<Rightarrow> FIRCLSDwarfState" where
  "set_rule st n l v =
     st\<lparr>ds_registers := (ds_registers st)[unat n := \<lparr>dr_location = l, dr_value = v\<rparr>]\<rparr>"

definition FIRCLSDwarfParseAndExecute_def_cfa :: "memory \<Rightarrow> FIRCLSDwarfState \<Rightarrow> u64 \<Rightarrow> rule_result" where
  "FIRCLSDwarfParseAndExecute_def_cfa m st cursor =
     do { (regNum, c) \<leftarrow> FIRCLSParseULEB128AndAdvance m cursor;
          if regNum > CLS_DWARF_MAX_REGISTER_NUM then Some None
          else do { (offset, c) \<leftarrow> FIRCLSParseULEB128AndAdvance m c;
                    Some (Some (st\<lparr>ds_cfaRegister := regNum, ds_cfaRegisterOffset := offset\<rparr>, c)) } }"

definition FIRCLSDwarfParseAndExecute_def_cfa_register ::
  "memory \<Rightarrow> FIRCLSDwarfState \<Rightarrow> u64 \<Rightarrow> rule_result"
where
  "FIRCLSDwarfParseAndExecute_def_cfa_register m st cursor =
     do { (regNum, c) \<leftarrow> FIRCLSParseULEB128AndAdvance m cursor;
          if regNum > CLS_DWARF_MAX_REGISTER_NUM then Some None
          else Some (Some (st\<lparr>ds_cfaRegister := regNum\<rparr>, c)) }"

definition FIRCLSDwarfParseAndExecute_def_cfa_offset ::
  "memory \<Rightarrow> FIRCLSDwarfState \<Rightarrow> u64 \<Rightarrow> rule_result"
where
  "FIRCLSDwarfParseAndExecute_def_cfa_offset m st cursor =
     do { (offset, c) \<leftarrow> FIRCLSParseULEB128AndAdvance m cursor;
          Some (Some (st\<lparr>ds_cfaRegisterOffset := offset\<rparr>, c)) }"

definition FIRCLSDwarfParseAndExecute_same_value ::
  "memory \<Rightarrow> FIRCLSDwarfState \<Rightarrow> u64 \<Rightarrow> rule_result"
where
  "FIRCLSDwarfParseAndExecute_same_value m st cursor =
     do { (regNum, c) \<leftarrow> FIRCLSParseULEB128AndAdvance m cursor;
          if regNum > CLS_DWARF_MAX_REGISTER_NUM then Some None
          else Some (Some (set_rule st regNum FIRCLSDwarfRegisterUnused
                             (dr_value (ds_registers st ! unat regNum)), c)) }"

definition FIRCLSDwarfParseAndExecute_register ::
  "memory \<Rightarrow> FIRCLSDwarfState \<Rightarrow> u64 \<Rightarrow> rule_result"
where
  "FIRCLSDwarfParseAndExecute_register m st cursor =
     do { (regNum, c) \<leftarrow> FIRCLSParseULEB128AndAdvance m cursor;
          if regNum > CLS_DWARF_MAX_REGISTER_NUM then Some None
          else do { (regValue, c) \<leftarrow> FIRCLSParseULEB128AndAdvance m c;
                    if regValue > CLS_DWARF_MAX_REGISTER_NUM then Some None
                    else Some (Some (set_rule st regNum FIRCLSDwarfRegisterInRegister regValue, c)) } }"

definition FIRCLSDwarfParseAndExecute_expression ::
  "memory \<Rightarrow> FIRCLSDwarfState \<Rightarrow> u64 \<Rightarrow> rule_result"
where
  "FIRCLSDwarfParseAndExecute_expression m st cursor =
     do { (regNum, c) \<leftarrow> FIRCLSParseULEB128AndAdvance m cursor;
          if regNum > CLS_DWARF_MAX_REGISTER_NUM then Some None
          else do { (len, c') \<leftarrow> FIRCLSParseULEB128AndAdvance m c;
                    Some (Some (set_rule st regNum FIRCLSDwarfRegisterAtExpression c, c' + len)) } }"

definition FIRCLSDwarfParseAndExecute_val_expression ::
  "memory \<Rightarrow> FIRCLSDwarfState \<Rightarrow> u64 \<Rightarrow> rule_result"
where
  "FIRCLSDwarfParseAndExecute_val_expression m st cursor =
     do { (regNum, c) \<leftarrow> FIRCLSParseULEB128AndAdvance m cursor;
          if regNum > CLS_DWARF_MAX_REGISTER_NUM then Some None
          else do { (len, c') \<leftarrow> FIRCLSParseULEB128AndAdvance m c;
                    Some (Some (set_rule st regNum FIRCLSDwarfRegisterIsExpression c, c' + len)) } }"

definition FIRCLSDwarfParseAndExecute_def_cfa_expression ::
  "memory \<Rightarrow> FIRCLSDwarfState \<Rightarrow> u64 \<Rightarrow> rule_result"
where
  "FIRCLSDwarfParseAndExecute_def_cfa_expression m st cursor =
     do { (len, c) \<leftarrow> FIRCLSParseULEB128AndAdvance m cursor;
          Some (Some (st\<lparr>ds_cfaRegister := CLS_DWARF_INVALID_REGISTER_NUM,
                         ds_cfaExpression := cursor\<rparr>, c + len)) }"

definition FIRCLSDwarfParseAndExecute_offset ::
  "memory \<Rightarrow> DWARFCIERecord \<Rightarrow> FIRCLSDwarfState \<Rightarrow> u64 \<Rightarrow> u8 \<Rightarrow> rule_result"
where
  "FIRCLSDwarfParseAndExecute_offset m cie st cursor regNum =
     (if ucast regNum > CLS_DWARF_MAX_REGISTER_NUM then Some None
      else do { (v, c) \<leftarrow> FIRCLSParseULEB128AndAdvance m cursor;
                Some (Some (set_rule st (ucast regNum) FIRCLSDwarfRegisterInCFA
                              (v * cie_dataAlignFactor cie), c)) })"

text \<open>The state of the loop is the cursor, the code offset and the rules.\<close>

type_synonym cfa_state = "u64 \<times> u64 \<times> FIRCLSDwarfState"

definition FIRCLSDwarfParseAndExecuteInstructionWithOperand ::
  "memory \<Rightarrow> DWARFCIERecord \<Rightarrow> u8 \<Rightarrow> cfa_state \<Rightarrow> cfa_state option option"
where
  "FIRCLSDwarfParseAndExecuteInstructionWithOperand m cie instruction s =
     (case s of (cursor, codeOffset, st) \<Rightarrow>
        let operand = instruction AND 0x3F; opcode = instruction AND 0xC0
        in if opcode = 0x80 then
             map_option (map_option (\<lambda>(st, c). (c, codeOffset, st)))
               (FIRCLSDwarfParseAndExecute_offset m cie st cursor operand)
           else if opcode = 0x40 then
             map_option (\<lambda>off. Some (cursor, off, st)) (FIRCLSDwarfParseAndExecute_advance_loc cie operand)
           else Some None)"

text \<open>One instruction, its byte read already.\<close>

definition execute_instruction ::
  "memory \<Rightarrow> DWARFCIERecord \<Rightarrow> u8 \<Rightarrow> cfa_state \<Rightarrow> cfa_state option option"
where
  "execute_instruction m cie ins s =
     (case s of (cursor, codeOffset, st) \<Rightarrow>
        let moved = map_option (\<lambda>(off, c). Some (c, off, st));
            ruled = map_option (map_option (\<lambda>(st, c). (c, codeOffset, st)))
        in if ins = 0x00 then Some (Some s)
           else if ins = 0x01 then moved (FIRCLSDwarfParseAndExecute_set_loc m cie cursor)
           else if ins = 0x02 then moved (FIRCLSDwarfParseAndExecute_advance_loc1 m cie codeOffset cursor)
           else if ins = 0x03 then moved (FIRCLSDwarfParseAndExecute_advance_loc2 m cie codeOffset cursor)
           else if ins = 0x04 then moved (FIRCLSDwarfParseAndExecute_advance_loc4 m cie codeOffset cursor)
           else if ins = 0x0C then ruled (FIRCLSDwarfParseAndExecute_def_cfa m st cursor)
           else if ins = 0x0D then ruled (FIRCLSDwarfParseAndExecute_def_cfa_register m st cursor)
           else if ins = 0x0E then ruled (FIRCLSDwarfParseAndExecute_def_cfa_offset m st cursor)
           else if ins = 0x08 then ruled (FIRCLSDwarfParseAndExecute_same_value m st cursor)
           else if ins = 0x09 then ruled (FIRCLSDwarfParseAndExecute_register m st cursor)
           else if ins = 0x0F then ruled (FIRCLSDwarfParseAndExecute_def_cfa_expression m st cursor)
           else if ins = 0x10 then ruled (FIRCLSDwarfParseAndExecute_expression m st cursor)
           else if ins = 0x16 then ruled (FIRCLSDwarfParseAndExecute_val_expression m st cursor)
           else if ins \<in> {0x05, 0x06, 0x07, 0x0A, 0x0B, 0x11, 0x12, 0x13, 0x14, 0x15, 0x2D, 0x2E, 0x2F}
           then Some None
           else FIRCLSDwarfParseAndExecuteInstructionWithOperand m cie ins s)"

definition enumerate_round ::
  "memory \<Rightarrow> DWARFCIERecord \<Rightarrow> u64 \<Rightarrow> u64 \<Rightarrow> cfa_state \<Rightarrow>
     (cfa_state + FIRCLSDwarfState option) option"
where
  "enumerate_round m cie endAddress pcOffset s =
     (case s of (cursor, codeOffset, st) \<Rightarrow>
        if \<not> (cursor < endAddress \<and> codeOffset <s pcOffset) then Some (Inr (Some st))
        else do { (ins, c) \<leftarrow> FIRCLSParseUint8AndAdvance m cursor;
                  r \<leftarrow> execute_instruction m cie ins (c, codeOffset, st);
                  Some (case r of None \<Rightarrow> Inr None | Some s' \<Rightarrow> Inl s') })"

definition FIRCLSDwarfInstructionsEnumerate ::
  "memory \<Rightarrow> DWARFInstructions \<Rightarrow> DWARFCIERecord \<Rightarrow> FIRCLSDwarfState \<Rightarrow> u64 \<Rightarrow>
     FIRCLSDwarfState option option"
where
  "FIRCLSDwarfInstructionsEnumerate m instructions cie st pcOffset =
     c_loop (enumerate_round m cie (di_data instructions + ucast (di_length instructions)) pcOffset)
       (di_data instructions, 0, st)"

section \<open>Registers\<close>

definition FIRCLSDwarfCompareRegisters ::
  "FIRCLSThreadContext \<Rightarrow> FIRCLSThreadContext \<Rightarrow> u64 \<Rightarrow> bool"
where
  "FIRCLSDwarfCompareRegisters a b registerNum \<longleftrightarrow>
     FIRCLSDwarfUnwindGetRegisterValue a registerNum = FIRCLSDwarfUnwindGetRegisterValue b registerNum"

definition FIRCLSDwarfGetCFA ::
  "memory \<Rightarrow> FIRCLSDwarfState \<Rightarrow> FIRCLSThreadContext \<Rightarrow> u64 option option"
where
  "FIRCLSDwarfGetCFA m st registers =
     (if ds_cfaExpression st \<noteq> 0
      then FIRCLSDwarfEvalulateExpression m (ds_cfaExpression st) registers 0
      else Some (Some (FIRCLSDwarfUnwindGetRegisterValue registers (ds_cfaRegister st) +
                       ds_cfaRegisterOffset st)))"

definition FIRCLSDwarfGetSavedRegister ::
  "memory \<Rightarrow> FIRCLSThreadContext \<Rightarrow> u64 \<Rightarrow> FIRCLSDwarfRegister \<Rightarrow> u64 option"
where
  "FIRCLSDwarfGetSavedRegister m registers cfaRegister dRegister =
     (case dr_location dRegister of
        FIRCLSDwarfRegisterInCFA \<Rightarrow>
          Some (case read_pointer m (cfaRegister + dr_value dRegister) of None \<Rightarrow> 0 | Some v \<Rightarrow> v)
      | FIRCLSDwarfRegisterInRegister \<Rightarrow>
          Some (FIRCLSDwarfUnwindGetRegisterValue registers (dr_value dRegister))
      | FIRCLSDwarfRegisterOffsetFromCFA \<Rightarrow> Some 0
      | FIRCLSDwarfRegisterAtExpression \<Rightarrow>
          do { r \<leftarrow> FIRCLSDwarfEvalulateExpression m (dr_value dRegister) registers cfaRegister;
               Some (case r of
                       None \<Rightarrow> 0
                     | Some a \<Rightarrow> (case read_pointer m a of None \<Rightarrow> 0 | Some v \<Rightarrow> v)) }
      | FIRCLSDwarfRegisterIsExpression \<Rightarrow>
          do { r \<leftarrow> FIRCLSDwarfEvalulateExpression m (dr_value dRegister) registers cfaRegister;
               Some (case r of None \<Rightarrow> 0 | Some v \<Rightarrow> v) }
      | FIRCLSDwarfRegisterUnused \<Rightarrow> Some 0)"

text \<open>The loop over the registers \<open>i\<close> of a list, filling the new context.\<close>

primrec assign_loop ::
  "memory \<Rightarrow> FIRCLSDwarfState \<Rightarrow> FIRCLSThreadContext \<Rightarrow> u64 \<Rightarrow> nat list \<Rightarrow>
     FIRCLSThreadContext \<Rightarrow> FIRCLSThreadContext option option"
where
  "assign_loop m st registers cfa [] new = Some (Some new)"
| "assign_loop m st registers cfa (i # is) new =
     (if dr_location (ds_registers st ! i) = FIRCLSDwarfRegisterUnused
      then assign_loop m st registers cfa is new
      else do { value \<leftarrow> FIRCLSDwarfGetSavedRegister m registers cfa (ds_registers st ! i);
                case FIRCLSDwarfUnwindSetRegisterValue new (of_nat i) value of
                  None \<Rightarrow> Some None
                | Some new \<Rightarrow> assign_loop m st registers cfa is new })"

definition FIRCLSDwarfUnwindAssignRegisters ::
  "memory \<Rightarrow> FIRCLSDwarfState \<Rightarrow> FIRCLSThreadContext \<Rightarrow> u64 \<Rightarrow> FIRCLSThreadContext option option"
where
  "FIRCLSDwarfUnwindAssignRegisters m st registers cfa =
     do { A \<leftarrow> assign_loop m st registers cfa [0..<Suc (unat CLS_DWARF_MAX_REGISTER_NUM)] registers;
          case A of
            None \<Rightarrow> Some None
          | Some new \<Rightarrow>
              case FIRCLSDwarfUnwindSetRegisterValue new CLS_DWARF_ARM64_SP cfa of
                None \<Rightarrow> Some None
              | Some new \<Rightarrow>
                  if FIRCLSDwarfCompareRegisters registers new CLS_DWARF_ARM64_SP then Some None
                  else if FIRCLSDwarfCompareRegisters registers new CLS_DWARF_ARM64_LR then Some None
                  else Some (Some new) }"

definition INTPTR_MAX :: u64 where "INTPTR_MAX = 0x7FFFFFFFFFFFFFFF"

definition FIRCLSDwarfUnwindComputeRegisters ::
  "memory \<Rightarrow> FIRCLSDwarfCFIRecord \<Rightarrow> FIRCLSThreadContext \<Rightarrow> FIRCLSThreadContext option option"
where
  "FIRCLSDwarfUnwindComputeRegisters m rec registers =
     do { C \<leftarrow> FIRCLSDwarfInstructionsEnumerate m (cie_instructions (cfi_cie rec)) (cfi_cie rec)
                  dwarf_state_zero INTPTR_MAX;
          case C of
            None \<Rightarrow> Some None
          | Some st \<Rightarrow>
              let pcOffset = FIRCLSThreadContextGetPC registers - fde_startAddress (cfi_fde rec)
              in if pcOffset <s 0 then Some None
                 else do { F \<leftarrow> FIRCLSDwarfInstructionsEnumerate m (fde_instructions (cfi_fde rec))
                                  (cfi_cie rec) st pcOffset;
                      case F of
                        None \<Rightarrow> Some None
                      | Some st \<Rightarrow>
                          do { A \<leftarrow> FIRCLSDwarfGetCFA m st registers;
                               case A of
                                 None \<Rightarrow> Some None
                               | Some cfa \<Rightarrow> FIRCLSDwarfUnwindAssignRegisters m st registers cfa } } }"

end
