(* ===== verification/Unw_Expr_Spec.thy ===== *)
theory Unw_Expr_Spec
  imports Unw_Expr
begin

text \<open>
  What the expression machine computes. The buffer with its pointer implements a bounded stack
  that is lost on overflow or underflow (locale \<open>bounded_stack\<close>, interpreted on the functions of
  the code); the operations the code decodes have a meaning on lists, and evaluating the encoded
  operations is that meaning. The rounds of the loop come to an end on every input.
\<close>

section \<open>Bounded stacks\<close>

text \<open>The abstract stack: \<open>None\<close> once an operation went out of its bounds.\<close>

type_synonym astack = "u64 list option"

fun apush :: "nat \<Rightarrow> u64 \<Rightarrow> astack \<Rightarrow> astack" where
  "apush cap v (Some st) = (if length st < cap then Some (v # st) else None)"
| "apush cap v None = None"

fun atop :: "astack \<Rightarrow> u64" where
  "atop (Some (v # st)) = v"
| "atop _ = 0"

fun apop :: "astack \<Rightarrow> astack" where
  "apop (Some (v # st)) = Some st"
| "apop _ = None"

fun apeek :: "astack \<Rightarrow> astack" where
  "apeek (Some (v # st)) = Some (v # st)"
| "apeek _ = None"

locale bounded_stack =
  fixes push :: "'s \<Rightarrow> u64 \<Rightarrow> bool \<times> 's" and pop :: "'s \<Rightarrow> u64 \<times> 's" and peek :: "'s \<Rightarrow> u64 \<times> 's"
    and inv :: "'s \<Rightarrow> bool" and abs :: "'s \<Rightarrow> astack" and cap :: nat
  assumes push: "inv s \<Longrightarrow> abs (snd (push s v)) = apush cap v (abs s)"
    and push_ok: "inv s \<Longrightarrow> fst (push s v) \<longleftrightarrow> abs (snd (push s v)) \<noteq> None"
    and pop: "inv s \<Longrightarrow> abs (snd (pop s)) = apop (abs s)" and pop_val: "inv s \<Longrightarrow> fst (pop s) = atop (abs s)"
    and peek: "inv s \<Longrightarrow> abs (snd (peek s)) = apeek (abs s)" and peek_val: "inv s \<Longrightarrow> fst (peek s) = atop (abs s)"
    and inv_push: "inv s \<Longrightarrow> inv (snd (push s v))" and inv_pop: "inv s \<Longrightarrow> inv (snd (pop s))"
    and inv_peek: "inv s \<Longrightarrow> inv (snd (peek s))"
begin

text \<open>An operation of two operands, and the exchange of the two values on top.\<close>

definition binary :: "(u64 \<Rightarrow> u64 \<Rightarrow> u64) \<Rightarrow> 's \<Rightarrow> bool \<times> 's" where
  "binary f s = (let (a, s) = pop s; (b, s) = pop s in push s (f a b))"

definition exchange :: "'s \<Rightarrow> bool \<times> 's" where
  "exchange s = (let (a, s) = pop s; (b, s) = pop s; (ok, s) = push s a
     in if \<not> ok then (False, s) else push s b)"

lemma inv_ops [simp]: "inv s \<Longrightarrow> inv (snd (push s v))" "inv s \<Longrightarrow> inv (snd (pop s))" "inv s \<Longrightarrow> inv (snd (peek s))"
  by (simp_all add: inv_push inv_pop inv_peek)

lemma binary_ok:
  assumes "inv s"
  shows "inv (snd (binary f s))"
    and "abs (snd (binary f s)) = apush cap (f (atop (abs s)) (atop (apop (abs s)))) (apop (apop (abs s)))"
    and "fst (binary f s) \<longleftrightarrow> abs (snd (binary f s)) \<noteq> None"
  using assms by (simp_all add: binary_def split_def Let_def push pop push_ok pop_val)

lemma exchange_ok:
  assumes "inv s"
  shows "inv (snd (exchange s))"
    and "abs (snd (exchange s)) =
      apush cap (atop (apop (abs s))) (apush cap (atop (abs s)) (apop (apop (abs s))))"
    and "fst (exchange s) \<longleftrightarrow> abs (snd (exchange s)) \<noteq> None"
  using assms by (auto simp: exchange_def split_def Let_def push pop push_ok pop_val)

lemma dup_ok:
  assumes "inv s"
  shows "abs (snd (push (snd (peek s)) (fst (peek s)))) = apush cap (atop (abs s)) (apeek (abs s))"
  using assms by (simp add: push peek peek_val)

end

section \<open>The stack of the code\<close>

definition stack_inv :: "FIRCLSDwarfExpressionStack \<Rightarrow> bool" where
  "stack_inv s \<longleftrightarrow> length (es_buffer s) = CLS_DWARF_EXPRESSION_STACK_SIZE \<and>
     (case es_pointer s of None \<Rightarrow> True | Some p \<Rightarrow> p \<le> CLS_DWARF_EXPRESSION_STACK_SIZE)"

definition stack_abs :: "FIRCLSDwarfExpressionStack \<Rightarrow> astack" where
  "stack_abs s = map_option (\<lambda>p. rev (take p (es_buffer s))) (es_pointer s)"

lemma stack_valid: "stack_inv s \<Longrightarrow> FIRCLSDwarfExpressionStackIsValid s \<longleftrightarrow> stack_abs s \<noteq> None"
  by (auto simp: stack_inv_def FIRCLSDwarfExpressionStackIsValid_def stack_abs_def split: option.splits)

lemma stack_cases:
  assumes "stack_inv s"
  obtains (null) "es_pointer s = None" "stack_abs s = None" "\<not> FIRCLSDwarfExpressionStackIsValid s"
  | (empty) "es_pointer s = Some 0" "stack_abs s = Some []" "FIRCLSDwarfExpressionStackIsValid s"
  | (item) p where "es_pointer s = Some (Suc p)" "p < 100" "length (es_buffer s) = 100"
      "stack_abs s = Some (es_buffer s ! p # rev (take p (es_buffer s)))"
      "FIRCLSDwarfExpressionStackIsValid s"
proof (cases "es_pointer s")
  case None
  then show ?thesis using null by (simp add: stack_abs_def FIRCLSDwarfExpressionStackIsValid_def)
next
  case (Some p)
  note d = assms Some stack_inv_def stack_abs_def FIRCLSDwarfExpressionStackIsValid_def
    CLS_DWARF_EXPRESSION_STACK_SIZE_def
  show ?thesis
  proof (cases p)
    case 0
    with d show ?thesis using empty by simp
  next
    case (Suc q)
    with d show ?thesis using item [of q] by (simp add: take_Suc_conv_app_nth)
  qed
qed

interpretation expression_stack: bounded_stack FIRCLSDwarfExpressionStackPush
  FIRCLSDwarfExpressionStackPop FIRCLSDwarfExpressionStackPeek stack_inv stack_abs
  CLS_DWARF_EXPRESSION_STACK_SIZE
proof
  fix s v assume inv: "stack_inv s"
  note d = stack_inv_def stack_abs_def CLS_DWARF_EXPRESSION_STACK_SIZE_def Let_def
  show "stack_inv (snd (FIRCLSDwarfExpressionStackPush s v))"
    using inv by (auto simp: d FIRCLSDwarfExpressionStackPush_def FIRCLSDwarfExpressionStackIsValid_def
        split: option.splits)
  show push: "stack_abs (snd (FIRCLSDwarfExpressionStackPush s v)) =
      apush CLS_DWARF_EXPRESSION_STACK_SIZE v (stack_abs s)"
    using inv
    by (cases "es_pointer s")
      (auto simp: d FIRCLSDwarfExpressionStackPush_def FIRCLSDwarfExpressionStackIsValid_def
        take_Suc_conv_app_nth min_def)
  show "fst (FIRCLSDwarfExpressionStackPush s v) \<longleftrightarrow> stack_abs (snd (FIRCLSDwarfExpressionStackPush s v)) \<noteq> None"
    unfolding push using inv
    by (cases "es_pointer s")
      (auto simp: d FIRCLSDwarfExpressionStackPush_def FIRCLSDwarfExpressionStackIsValid_def min_def)
  show "stack_inv (snd (FIRCLSDwarfExpressionStackPop s))"
    and "stack_inv (snd (FIRCLSDwarfExpressionStackPeek s))"
    using inv by (auto simp: d FIRCLSDwarfExpressionStackPop_def FIRCLSDwarfExpressionStackPeek_def
        FIRCLSDwarfExpressionStackIsValid_def split: option.splits)
  show "stack_abs (snd (FIRCLSDwarfExpressionStackPop s)) = apop (stack_abs s)"
    and "fst (FIRCLSDwarfExpressionStackPop s) = atop (stack_abs s)"
    and "stack_abs (snd (FIRCLSDwarfExpressionStackPeek s)) = apeek (stack_abs s)"
    and "fst (FIRCLSDwarfExpressionStackPeek s) = atop (stack_abs s)"
    using inv
    by (cases rule: stack_cases;
        simp add: FIRCLSDwarfExpressionStackPop_def FIRCLSDwarfExpressionStackPeek_def stack_abs_def)+
qed

section \<open>The operations\<close>

datatype dw_op =
    DW_deref | DW_dup | DW_and | DW_plus | DW_swap | DW_ne
  | DW_plus_uconst nat | DW_lit nat | DW_breg nat int | DW_deref_size u8

text \<open>How DWARF writes them, and the operands the readers have a result for.\<close>

fun dw_bytes :: "dw_op \<Rightarrow> u8 list" where
  "dw_bytes DW_deref = [0x06]"
| "dw_bytes DW_dup = [0x12]"
| "dw_bytes DW_and = [0x1A]"
| "dw_bytes DW_plus = [0x22]"
| "dw_bytes DW_swap = [0x16]"
| "dw_bytes DW_ne = [0x2E]"
| "dw_bytes (DW_plus_uconst k) = 0x23 # varint_spec k"
| "dw_bytes (DW_lit k) = [0x30 + of_nat k]"
| "dw_bytes (DW_breg n z) = (0x70 + of_nat n) # sleb_spec z"
| "dw_bytes (DW_deref_size k) = [0x94, k]"

fun dw_ok :: "dw_op \<Rightarrow> bool" where
  "dw_ok (DW_plus_uconst k) \<longleftrightarrow> k < 2 ^ 31"
| "dw_ok (DW_lit k) \<longleftrightarrow> k < 32"
| "dw_ok (DW_breg n z) \<longleftrightarrow> n < 32 \<and> - (2 ^ 27) \<le> z \<and> z < 2 ^ 31"
| "dw_ok _ \<longleftrightarrow> True"

text \<open>The meaning on a list, top first: \<open>Some None\<close> is a refusal (a missing operand, no room,
  an address that cannot be read), \<open>None\<close> what C does not define.\<close>

definition room :: "u64 list \<Rightarrow> u64 list option" where
  "room st = (if length st \<le> CLS_DWARF_EXPRESSION_STACK_SIZE then Some st else None)"

fun dw_step :: "memory \<Rightarrow> FIRCLSThreadContext \<Rightarrow> dw_op \<Rightarrow> u64 list \<Rightarrow> u64 list option option" where
  "dw_step m r (DW_lit k) st = Some (room (of_nat k # st))"
| "dw_step m r (DW_breg n z) st =
     Some (room ((FIRCLSDwarfUnwindGetRegisterValue r (of_nat n) + of_int z) # st))"
| "dw_step m r DW_deref (v # st) = Some (map_option (\<lambda>w. w # st) (read_pointer m v))"
| "dw_step m r DW_dup (v # st) = Some (room (v # v # st))"
| "dw_step m r DW_and (a # b # st) = Some (Some ((a AND b) # st))"
| "dw_step m r DW_plus (a # b # st) = map_option (\<lambda>w. Some (w # st)) (c_add_s64 a b)"
| "dw_step m r DW_swap (a # b # st) = Some (Some (b # a # st))"
| "dw_step m r DW_ne (a # b # st) = Some (Some ((if a \<noteq> b then 1 else 0) # st))"
| "dw_step m r (DW_plus_uconst k) (v # st) = Some (Some ((v + of_nat k) # st))"
| "dw_step m r (DW_deref_size k) (v # st) = map_option (map_option (\<lambda>w. w # st)) (deref_sized m v k)"
| "dw_step m r (DW_deref_size k) [] = map_option (\<lambda>_. None) (deref_sized m 0 k)"
| "dw_step m r _ _ = Some None"

primrec dw_run ::
  "memory \<Rightarrow> FIRCLSThreadContext \<Rightarrow> dw_op list \<Rightarrow> u64 list \<Rightarrow> u64 list option option"
where
  "dw_run m r [] st = Some (Some st)"
| "dw_run m r (x # xs) st =
     (case dw_step m r x st of
        None \<Rightarrow> None
      | Some None \<Rightarrow> Some None
      | Some (Some st) \<Rightarrow> dw_run m r xs st)"

definition dw_eval ::
  "memory \<Rightarrow> FIRCLSThreadContext \<Rightarrow> dw_op list \<Rightarrow> u64 \<Rightarrow> u64 option option"
where
  "dw_eval m r xs v =
     map_option (\<lambda>x. case x of Some (w # st) \<Rightarrow> Some w | _ \<Rightarrow> None) (dw_run m r xs [v])"

section \<open>One opcode\<close>

definition machine_at ::
  "u64 \<Rightarrow> u64 \<Rightarrow> FIRCLSThreadContext \<Rightarrow> astack \<Rightarrow> FIRCLSDwarfExpressionMachine \<Rightarrow> bool"
where
  "machine_at c e r st M \<longleftrightarrow> stack_inv (em_stack M) \<and> stack_abs (em_stack M) = st \<and>
     em_dataCursor M = c \<and> em_endAddress M = e \<and> em_registers M = r"

lemma machine_at_cursor: "machine_at c e r st M \<Longrightarrow> machine_at c' e r st (M\<lparr>em_dataCursor := c'\<rparr>)"
  by (simp add: machine_at_def)

lemma machine_pop:
  "machine_at c e r st M \<Longrightarrow>
   \<exists>M'. FIRCLSDwarfExpressionMachineStackPop M = (atop st, M') \<and> machine_at c e r (apop st) M'"
  by (auto simp: machine_at_def FIRCLSDwarfExpressionMachineStackPop_def split_def Let_def
      expression_stack.pop expression_stack.pop_val)

lemma machine_push:
  "machine_at c e r st M \<Longrightarrow> st' = apush CLS_DWARF_EXPRESSION_STACK_SIZE v st \<Longrightarrow>
   \<exists>M'. FIRCLSDwarfExpressionMachineStackPush M v = (st' \<noteq> None, M') \<and> machine_at c e r st' M'"
  by (auto simp: machine_at_def FIRCLSDwarfExpressionMachineStackPush_def split_def Let_def
      expression_stack.push expression_stack.push_ok)

lemma machine_push_lost:
  "machine_at c e r None M \<Longrightarrow> \<exists>M'. FIRCLSDwarfExpressionMachineStackPush M v = (False, M')"
  using machine_push [of c e r None M None v] by auto

text \<open>The result of an opcode matches a step of the meaning.\<close>

definition opcode_matches ::
  "u64 \<Rightarrow> u64 \<Rightarrow> FIRCLSThreadContext \<Rightarrow> u64 list option option \<Rightarrow> machine_result \<Rightarrow> bool"
where
  "opcode_matches c e r s x \<longleftrightarrow>
     (case s of
        None \<Rightarrow> x = None
      | Some st \<Rightarrow> \<exists>M. x = Some (st \<noteq> None, M) \<and> (st \<noteq> None \<longrightarrow> machine_at c e r st M))"

lemma opcode_matches_push:
  assumes "machine_at c e r st M" and "st' = apush CLS_DWARF_EXPRESSION_STACK_SIZE v st"
  shows "opcode_matches c e r (Some st') (Some (FIRCLSDwarfExpressionMachineStackPush M v))"
  using machine_push [OF assms] by (auto simp: opcode_matches_def)

lemma apush_popped [simp]:
  "length (v # st) \<le> CLS_DWARF_EXPRESSION_STACK_SIZE \<Longrightarrow>
   apush CLS_DWARF_EXPRESSION_STACK_SIZE w (Some st) = Some (w # st)"
  by simp

lemma apush_room: "apush CLS_DWARF_EXPRESSION_STACK_SIZE w (Some st) = room (w # st)"
  by (auto simp: room_def)

text \<open>The opcodes on the stack alone, the cursor where the operands end.\<close>

lemma exec_deref:
  assumes "machine_at c e r (Some st) M" and "length st \<le> CLS_DWARF_EXPRESSION_STACK_SIZE"
  shows "opcode_matches c e r (dw_step m r DW_deref st) (FIRCLSDwarfExpressionMachineExecute_deref m M)"
proof -
  from machine_pop [OF assms(1)] obtain M' where M':
    "FIRCLSDwarfExpressionMachineStackPop M = (atop (Some st), M')" "machine_at c e r (apop (Some st)) M'"
    by blast
  show ?thesis
  proof (cases st)
    case Nil
    with M' show ?thesis
      by (simp add: FIRCLSDwarfExpressionMachineExecute_deref_def opcode_matches_def read_pointer_def
          FIRCLSReadMemory_def FIRCLSIsValidPointer_def)
  next
    case (Cons v xs)
    with M' assms(2) show ?thesis
      by (cases "read_pointer m v")
        (auto simp: FIRCLSDwarfExpressionMachineExecute_deref_def opcode_matches_def [of _ _ _ "Some None"]
          intro!: opcode_matches_push)
  qed
qed

lemma exec_dup:
  assumes "machine_at c e r (Some st) M"
  shows "opcode_matches c e r (dw_step m r DW_dup st) (FIRCLSDwarfExpressionMachineExecute_dup M)"
proof -
  let ?p = "FIRCLSDwarfExpressionStackPeek (em_stack M)"
  have "machine_at c e r (apeek (Some st)) (M\<lparr>em_stack := snd ?p\<rparr>)" and v: "fst ?p = atop (Some st)"
    using assms by (simp_all add: machine_at_def expression_stack.peek expression_stack.peek_val)
  from opcode_matches_push [OF this(1) refl, of "atop (Some st)"]
  have "opcode_matches c e r (Some (apush CLS_DWARF_EXPRESSION_STACK_SIZE (atop (Some st)) (apeek (Some st))))
      (FIRCLSDwarfExpressionMachineExecute_dup M)"
    by (simp add: FIRCLSDwarfExpressionMachineExecute_dup_def split_def v)
  moreover have "dw_step m r DW_dup st =
      Some (apush CLS_DWARF_EXPRESSION_STACK_SIZE (atop (Some st)) (apeek (Some st)))"
    by (cases st) (auto simp: room_def)
  ultimately show ?thesis by simp
qed

text \<open>The operations on two values pop them before they push.\<close>

lemma pop_two:
  assumes "machine_at c e r (Some st) M"
  obtains M1 M2 where "FIRCLSDwarfExpressionMachineStackPop M = (atop (Some st), M1)"
    and "FIRCLSDwarfExpressionMachineStackPop M1 = (atop (apop (Some st)), M2)"
    and "machine_at c e r (apop (apop (Some st))) M2"
  using machine_pop [OF assms] machine_pop by meson

lemma two_cases:
  obtains (less) "apop (apop (Some st)) = None" and "st = [] \<or> (\<exists>a. st = [a])"
  | (two) a b xs where "st = a # b # xs"
proof (cases st)
  case (Cons a t)
  with less two show thesis by (cases t) auto
qed (use less in auto)

lemma exec_and:
  assumes "machine_at c e r (Some st) M" and "length st \<le> CLS_DWARF_EXPRESSION_STACK_SIZE"
  shows "opcode_matches c e r (dw_step m r DW_and st) (FIRCLSDwarfExpressionMachineExecute_and M)"
proof -
  from pop_two [OF assms(1)] obtain M1 M2 where M:
    "FIRCLSDwarfExpressionMachineStackPop M = (atop (Some st), M1)"
    "FIRCLSDwarfExpressionMachineStackPop M1 = (atop (apop (Some st)), M2)"
    "machine_at c e r (apop (apop (Some st))) M2" .
  show ?thesis
    using M assms(2)
    by (cases st rule: two_cases)
      (auto simp: FIRCLSDwarfExpressionMachineExecute_and_def intro!: opcode_matches_push)
qed

lemma exec_ne:
  assumes "machine_at c e r (Some st) M" and "length st \<le> CLS_DWARF_EXPRESSION_STACK_SIZE"
  shows "opcode_matches c e r (dw_step m r DW_ne st) (FIRCLSDwarfExpressionMachineExecute_ne M)"
proof -
  from pop_two [OF assms(1)] obtain M1 M2 where M:
    "FIRCLSDwarfExpressionMachineStackPop M = (atop (Some st), M1)"
    "FIRCLSDwarfExpressionMachineStackPop M1 = (atop (apop (Some st)), M2)"
    "machine_at c e r (apop (apop (Some st))) M2" .
  show ?thesis
    using M assms(2)
    by (cases st rule: two_cases)
      (auto simp: FIRCLSDwarfExpressionMachineExecute_ne_def intro!: opcode_matches_push)
qed

lemma c_add_s64_0: "\<exists>w. c_add_s64 a 0 = Some w"
  using sint_ge [of a] sint_lt [of a] by (auto simp: c_add_s64_def c_int64_def)

lemma exec_plus:
  assumes "machine_at c e r (Some st) M" and "length st \<le> CLS_DWARF_EXPRESSION_STACK_SIZE"
  shows "opcode_matches c e r (dw_step m r DW_plus st) (FIRCLSDwarfExpressionMachineExecute_plus M)"
proof -
  from pop_two [OF assms(1)] obtain M1 M2 where M:
    "FIRCLSDwarfExpressionMachineStackPop M = (atop (Some st), M1)"
    "FIRCLSDwarfExpressionMachineStackPop M1 = (atop (apop (Some st)), M2)"
    "machine_at c e r (apop (apop (Some st))) M2" .
  show ?thesis
  proof (cases st rule: two_cases)
    case less
    then obtain w where "c_add_s64 (atop (Some st)) (atop (apop (Some st))) = Some w"
      using less(2) c_add_s64_0 [of "atop (Some st)"] by auto
    with M less show ?thesis
      by (auto simp: FIRCLSDwarfExpressionMachineExecute_plus_def intro!: opcode_matches_push)
  next
    case (two a b xs)
    with M assms(2) show ?thesis
      by (cases "c_add_s64 a b")
        (auto simp: FIRCLSDwarfExpressionMachineExecute_plus_def opcode_matches_def [of _ _ _ None]
          intro!: opcode_matches_push)
  qed
qed

lemma exec_swap:
  assumes "machine_at c e r (Some st) M" and "length st \<le> CLS_DWARF_EXPRESSION_STACK_SIZE"
  shows "opcode_matches c e r (dw_step m r DW_swap st) (FIRCLSDwarfExpressionMachineExecute_swap M)"
proof -
  from pop_two [OF assms(1)] obtain M1 M2 where M:
    "FIRCLSDwarfExpressionMachineStackPop M = (atop (Some st), M1)"
    "FIRCLSDwarfExpressionMachineStackPop M1 = (atop (apop (Some st)), M2)"
    "machine_at c e r (apop (apop (Some st))) M2" .
  let ?p = "apush CLS_DWARF_EXPRESSION_STACK_SIZE (atop (Some st)) (apop (apop (Some st)))"
  from machine_push [OF M(3), of ?p] obtain M3 where M3:
    "FIRCLSDwarfExpressionMachineStackPush M2 (atop (Some st)) = (?p \<noteq> None, M3)"
    "machine_at c e r ?p M3" by auto
  show ?thesis
    using M M3 assms(2)
    by (cases st rule: two_cases)
      (auto simp: FIRCLSDwarfExpressionMachineExecute_swap_def opcode_matches_def [of _ _ _ "Some None"]
        intro!: opcode_matches_push)
qed

text \<open>The opcodes that read operands: what the readers give for them.\<close>

lemma uleb_read:
  assumes "bytes_at m c (varint_spec k)" and "k < 2 ^ 31"
  shows "FIRCLSParseULEB128AndAdvance m c = Some (of_nat k, c + of_nat (length (varint_spec k)))"
  using uleb_loop_spec [of m c k 0 0 8] assms by (simp add: FIRCLSParseULEB128AndAdvance_def)

lemma length_sleb_spec:
  "- (64 * 128 ^ k) \<le> z \<Longrightarrow> z < 64 * 128 ^ k \<Longrightarrow> length (sleb_spec z) \<le> Suc k"
proof (induction k arbitrary: z)
  case (Suc k)
  show ?case
  proof (cases "- 64 \<le> z \<and> z < 64")
    case False
    have "- (64 * 128 ^ k) \<le> z div 128" and "z div 128 < 64 * 128 ^ k"
      using Suc.prems by simp_all
    with Suc.IH False show ?thesis by (subst sleb_spec.simps) auto
  qed (simp add: sleb_small)
qed (simp add: sleb_small)

lemma leb_read:
  assumes "bytes_at m c (sleb_spec z)" and "- (2 ^ 27) \<le> z" and "z < 2 ^ 31"
  shows "FIRCLSParseLEB128AndAdvance m c = Some (of_int z, c + of_nat (length (sleb_spec z)))"
proof -
  have "length (sleb_spec z) \<le> Suc 4" by (rule length_sleb_spec) (use assms in simp_all)
  moreover have "leb_fits z 0" using assms(2,3) by (auto simp: leb_fits_def)
  ultimately show ?thesis
    using leb_loop_spec [of m c z 0 0 8 0] assms(1)
    by (simp add: FIRCLSParseLEB128AndAdvance_def del: leb_loop.simps)
qed

lemma exec_plus_uconst:
  assumes "machine_at c e r (Some st) M" and "length st \<le> CLS_DWARF_EXPRESSION_STACK_SIZE"
    and "bytes_at m c (varint_spec k)" and "k < 2 ^ 31"
  shows "opcode_matches (c + of_nat (length (varint_spec k))) e r (dw_step m r (DW_plus_uconst k) st)
    (FIRCLSDwarfExpressionMachineExecute_plus_uconst m M)"
proof -
  let ?c = "c + of_nat (length (varint_spec k))"
  from machine_pop [OF assms(1)] obtain M' where M':
    "FIRCLSDwarfExpressionMachineStackPop M = (atop (Some st), M')" "machine_at c e r (apop (Some st)) M'"
    by blast
  have "FIRCLSDwarfExpressionMachineExecute_plus_uconst m M =
      Some (FIRCLSDwarfExpressionMachineStackPush (M'\<lparr>em_dataCursor := ?c\<rparr>) (atop (Some st) + of_nat k))"
    using M' uleb_read [OF assms(3,4)]
    by (simp add: FIRCLSDwarfExpressionMachineExecute_plus_uconst_def machine_at_def)
  then show ?thesis
    using machine_at_cursor [OF M'(2), of ?c] assms(2)
    by (cases st) (auto intro!: opcode_matches_push)
qed

lemma exec_deref_size:
  assumes "machine_at c e r (Some st) M" and "length st \<le> CLS_DWARF_EXPRESSION_STACK_SIZE"
    and "m_bytes m c = Some k"
  shows "opcode_matches (c + 1) e r (dw_step m r (DW_deref_size k) st)
    (FIRCLSDwarfExpressionMachineExecute_deref_size m M)"
proof -
  from machine_pop [OF assms(1)] obtain M' where M':
    "FIRCLSDwarfExpressionMachineStackPop M = (atop (Some st), M')" "machine_at c e r (apop (Some st)) M'"
    by blast
  have *: "FIRCLSDwarfExpressionMachineExecute_deref_size m M =
      do { v \<leftarrow> deref_sized m (atop (Some st)) k;
           case v of None \<Rightarrow> Some (False, M'\<lparr>em_dataCursor := c + 1\<rparr>)
           | Some w \<Rightarrow> Some (FIRCLSDwarfExpressionMachineStackPush (M'\<lparr>em_dataCursor := c + 1\<rparr>) w) }"
    using M' assms(3)
    by (simp add: FIRCLSDwarfExpressionMachineExecute_deref_size_def machine_at_def
        FIRCLSParseUint8AndAdvance_def load_u8_def Let_def cong: option.case_cong)
  show ?thesis
    unfolding * using machine_at_cursor [OF M'(2), of "c + 1"] assms(2)
    by (cases "deref_sized m (atop (Some st)) k"; cases st; cases "the (deref_sized m (atop (Some st)) k)")
      (auto simp: opcode_matches_def [of _ _ _ "Some None"] opcode_matches_def [of _ _ _ None]
        dest: machine_push_lost intro!: opcode_matches_push)
qed

lemma ucast_of_nat_u8: "k < 256 \<Longrightarrow> (ucast (of_nat k :: u8) :: u64) = of_nat k"
  by (simp add: word_unat_eq_iff unat_of_nat_u8 unat_of_nat_lt)

lemma exec_lit:
  assumes "machine_at c e r (Some st) M" and "k < 32"
  shows "opcode_matches c e r (dw_step m r (DW_lit k) st)
    (FIRCLSDwarfExpressionMachineExecute_litN M (0x30 + of_nat k))"
  using opcode_matches_push [OF assms(1) refl, of "of_nat k"] assms(2)
  by (simp add: FIRCLSDwarfExpressionMachineExecute_litN_def ucast_of_nat_u8 apush_room del: apush.simps)

lemma exec_breg:
  assumes "machine_at c e r (Some st) M" and "n < 32"
    and "bytes_at m c (sleb_spec z)" and "- (2 ^ 27) \<le> z" and "z < 2 ^ 31"
  shows "opcode_matches (c + of_nat (length (sleb_spec z))) e r (dw_step m r (DW_breg n z) st)
    (FIRCLSDwarfExpressionMachineExecute_bregN m M (0x70 + of_nat n))"
proof -
  let ?c = "c + of_nat (length (sleb_spec z))"
    and ?v = "FIRCLSDwarfUnwindGetRegisterValue r (of_nat n) + of_int z"
  have n: "(ucast (of_nat n :: u8) :: u64) = of_nat n" using assms(2) by (intro ucast_of_nat_u8) simp
  have "\<not> (of_nat n :: u64) > CLS_DWARF_MAX_REGISTER_NUM"
    using assms(2) by (simp add: dwarf_numbers word_le_nat_alt unat_of_nat_lt not_less)
  then have "FIRCLSDwarfExpressionMachineExecute_bregN m M (0x70 + of_nat n) =
      Some (FIRCLSDwarfExpressionMachineStackPush (M\<lparr>em_dataCursor := ?c\<rparr>) ?v)"
    using assms(1) leb_read [OF assms(3,4,5)]
    by (simp add: FIRCLSDwarfExpressionMachineExecute_bregN_def machine_at_def n Let_def)
  with opcode_matches_push [OF machine_at_cursor [OF assms(1), of ?c] refl, of ?v] show ?thesis
    by (simp only: dw_step.simps apush_room)
qed

text \<open>Decoding: the opcode byte selects the operation.\<close>

lemma u8_range:
  assumes "n < 32" and "unat (a :: u8) + 31 < 256"
  shows "a \<le> a + of_nat n" and "a + of_nat n \<le> a + 31"
proof -
  have "unat (of_nat n :: u8) = n" using assms(1) by (intro unat_of_nat_u8) simp
  moreover from this have "unat (a + of_nat n) = unat a + n"
    using assms unat_add_lem [of a "of_nat n"] by simp
  moreover have "unat (a + 31) = unat a + 31" using assms(2) unat_add_lem [of a 31] by simp
  ultimately show "a \<le> a + of_nat n" "a + of_nat n \<le> a + 31"
    using assms(1) by (simp_all add: word_le_nat_alt)
qed

lemma next_lit:
  assumes "m_bytes m (em_dataCursor M) = Some b" and "0x30 \<le> b" and "b \<le> 0x4F"
  shows "FIRCLSDwarfExpressionMachineExecuteNextOpcode m M =
    FIRCLSDwarfExpressionMachineExecute_litN (M\<lparr>em_dataCursor := em_dataCursor M + 1\<rparr>) b"
  using assms
  by (auto simp: FIRCLSDwarfExpressionMachineExecuteNextOpcode_def FIRCLSParseUint8AndAdvance_def
        load_u8_def Let_def)

lemma next_breg:
  assumes "m_bytes m (em_dataCursor M) = Some b" and "0x70 \<le> b" and "b \<le> 0x8F"
  shows "FIRCLSDwarfExpressionMachineExecuteNextOpcode m M =
    FIRCLSDwarfExpressionMachineExecute_bregN m (M\<lparr>em_dataCursor := em_dataCursor M + 1\<rparr>) b"
proof -
  have "\<not> b \<le> 0x4F" using less_le_trans [OF _ assms(2), of "0x4F"] by simp
  with assms show ?thesis
    by (auto simp: FIRCLSDwarfExpressionMachineExecuteNextOpcode_def FIRCLSParseUint8AndAdvance_def
        load_u8_def Let_def)
qed

lemma exec_op:
  assumes "machine_at c e r (Some st) M" and "length st \<le> CLS_DWARF_EXPRESSION_STACK_SIZE"
    and "bytes_at m c (dw_bytes x)" and "dw_ok x"
  shows "opcode_matches (c + of_nat (length (dw_bytes x))) e r (dw_step m r x st)
    (FIRCLSDwarfExpressionMachineExecuteNextOpcode m M)"
proof -
  define M1 where "M1 = M\<lparr>em_dataCursor := c + 1\<rparr>"
  have M1: "machine_at (c + 1) e r (Some st) M1"
    unfolding M1_def by (rule machine_at_cursor [OF assms(1)])
  have c: "em_dataCursor M = c" using assms(1) by (simp add: machine_at_def)
  note d = FIRCLSDwarfExpressionMachineExecuteNextOpcode_def FIRCLSParseUint8AndAdvance_def
    load_u8_def M1_def [symmetric] c
  show ?thesis
  proof (cases x)
    case (DW_lit k)
    let ?b = "0x30 + of_nat k :: u8"
    have "0x30 \<le> ?b" "?b \<le> 0x4F" using u8_range [of k "0x30"] DW_lit assms(4) by simp_all
    with DW_lit assms(3) c have "FIRCLSDwarfExpressionMachineExecuteNextOpcode m M =
        FIRCLSDwarfExpressionMachineExecute_litN M1 ?b"
      unfolding M1_def by (intro next_lit [of m M ?b, unfolded c]) simp_all
    with DW_lit assms(4) exec_lit [OF M1] show ?thesis by simp
  next
    case (DW_breg n z)
    let ?b = "0x70 + of_nat n :: u8"
    have b: "0x70 \<le> ?b" "?b \<le> 0x8F" using u8_range [of n "0x70"] DW_breg assms(4) by simp_all
    with DW_breg assms(3) c have "FIRCLSDwarfExpressionMachineExecuteNextOpcode m M =
        FIRCLSDwarfExpressionMachineExecute_bregN m M1 ?b"
      unfolding M1_def by (intro next_breg [of m M ?b, unfolded c]) simp_all
    with DW_breg assms(3,4) exec_breg [OF M1, of n m z] show ?thesis by (simp add: add.assoc)
  next
    case (DW_plus_uconst k)
    with assms exec_plus_uconst [OF M1 assms(2), of m k] show ?thesis
      by (simp add: d add.assoc del: dw_step.simps)
  next
    case (DW_deref_size k)
    with assms exec_deref_size [OF M1 assms(2), of m k] show ?thesis
      by (simp add: d add.assoc del: dw_step.simps)
  qed (use assms M1 in \<open>simp_all add: d exec_deref exec_dup exec_and exec_plus exec_swap exec_ne
      del: dw_step.simps\<close>)
qed

section \<open>A whole expression\<close>

definition dw_code :: "dw_op list \<Rightarrow> u8 list" where
  "dw_code xs = concat (map dw_bytes xs)"

lemma dw_code_simps [simp]: "dw_code [] = []" "dw_code (x # xs) = dw_bytes x @ dw_code xs"
  by (simp_all add: dw_code_def)

lemma dw_bytes_pos: "0 < length (dw_bytes x)"
  by (cases x) simp_all

lemma bytes_at_append:
  "bytes_at m a (xs @ ys) \<longleftrightarrow> bytes_at m a xs \<and> bytes_at m (a + of_nat (length xs)) ys"
  by (induction xs arbitrary: a) (auto simp: add.assoc)

lemma machine_at_length:
  assumes "machine_at c e r (Some st) M"
  shows "length st \<le> CLS_DWARF_EXPRESSION_STACK_SIZE"
  using assms
  by (auto simp: machine_at_def stack_inv_def stack_abs_def split: option.splits)

lemma address_less:
  fixes c :: u64
  assumes "unat c + n < 2 ^ 64" and "0 < n"
  shows "c < c + of_nat n" and "unat (c + of_nat n) = unat c + n"
proof -
  have "unat (of_nat n :: u64) = n" using assms(1) by (intro unat_of_nat_lt) simp
  then show "unat (c + of_nat n) = unat c + n" using assms(1) unat_add_lem [of c "of_nat n"] by simp
  with assms(2) show "c < c + of_nat n" by (simp add: word_less_nat_alt)
qed

lemma not_finished:
  assumes "machine_at c (c + of_nat n) r (Some st) M" and "unat c + n < 2 ^ 64" and "0 < n" and "4096 \<le> c"
  shows "\<not> FIRCLSDwarfExpressionMachineIsFinished M"
proof -
  have less: "c < c + of_nat n" using assms by (intro address_less)
  then have "4096 \<le> c + of_nat n" using assms(4) by simp
  moreover have "FIRCLSDwarfExpressionStackIsValid (em_stack M)"
    using assms(1) stack_valid by (auto simp: machine_at_def)
  ultimately show ?thesis
    using less assms(1,4)
    by (simp add: FIRCLSDwarfExpressionMachineIsFinished_def machine_at_def FIRCLSIsValidPointer_def not_le)
qed

lemma run_ops:
  assumes "machine_at c (c + of_nat (length (dw_code xs))) r (Some st) M" and "bytes_at m c (dw_code xs)"
    and "\<forall>x \<in> set xs. dw_ok x" and "unat c + length (dw_code xs) < 2 ^ 64" and "4096 \<le> c"
  shows "case dw_run m r xs st of
      None \<Rightarrow> c_loop (expression_round m) M = None
    | Some None \<Rightarrow> c_loop (expression_round m) M = Some None
    | Some (Some st') \<Rightarrow> \<exists>M'. c_loop (expression_round m) M = Some (Some M') \<and>
        machine_at (c + of_nat (length (dw_code xs))) (c + of_nat (length (dw_code xs))) r (Some st') M'"
  using assms
proof (induction xs arbitrary: c st M)
  case Nil
  then have "FIRCLSDwarfExpressionMachineIsFinished M"
    by (simp add: FIRCLSDwarfExpressionMachineIsFinished_def machine_at_def)
  then have "c_loop (expression_round m) M = Some (Some M)"
    by (intro c_loop_exit) (simp add: expression_round_def)
  with Nil show ?case by simp
next
  case (Cons x xs)
  let ?n = "length (dw_bytes x)" and ?k = "length (dw_code xs)"
  have bytes: "bytes_at m c (dw_bytes x)" "bytes_at m (c + of_nat ?n) (dw_code xs)"
    using Cons.prems(2) by (simp_all add: bytes_at_append)
  have go: "\<not> FIRCLSDwarfExpressionMachineIsFinished M"
    using Cons.prems(1,4,5) dw_bytes_pos [of x] by (intro not_finished) auto
  have op: "opcode_matches (c + of_nat ?n) (c + of_nat (?n + ?k)) r (dw_step m r x st)
      (FIRCLSDwarfExpressionMachineExecuteNextOpcode m M)"
    using Cons.prems(1,3) machine_at_length [OF Cons.prems(1)] bytes(1) by (intro exec_op) simp_all
  show ?case
  proof (cases "dw_step m r x st")
    case None
    with op go have "expression_round m M = None"
      by (simp add: opcode_matches_def expression_round_def)
    with None show ?thesis by (simp add: c_loop_stuck)
  next
    case (Some s)
    with op obtain M' where M': "FIRCLSDwarfExpressionMachineExecuteNextOpcode m M = Some (s \<noteq> None, M')"
      "s \<noteq> None \<longrightarrow> machine_at (c + of_nat ?n) (c + of_nat (?n + ?k)) r s M'"
      by (auto simp: opcode_matches_def)
    show ?thesis
    proof (cases s)
      case None
      with M' go have "expression_round m M = Some (Inr None)" by (simp add: expression_round_def)
      with None Some show ?thesis by (simp add: c_loop_exit)
    next
      case (Some st')
      with M' go have round: "expression_round m M = Some (Inl M')" by (simp add: expression_round_def)
      have c: "c < c + of_nat ?n" "unat (c + of_nat ?n) = unat c + ?n"
        using Cons.prems(4) dw_bytes_pos [of x] by (auto intro!: address_less)
      have at: "machine_at (c + of_nat ?n) (c + of_nat ?n + of_nat ?k) r (Some st') M'"
        using M'(2) Some by (simp add: add.assoc)
      have "4096 \<le> c + of_nat ?n" using Cons.prems(5) c(1) by simp
      note rest = Cons.IH [OF at bytes(2) _ _ this]
      have loop: "c_loop (expression_round m) M = c_loop (expression_round m) M'"
        using round by (rule c_loop_next)
      have len: "c + of_nat (length (dw_code (x # xs))) = c + of_nat ?n + of_nat ?k" by simp
      show ?thesis
        unfolding loop len using rest Cons.prems(3,4) c(2) Some \<open>dw_step m r x st = Some s\<close>
        by (simp split: option.splits)
    qed
  qed
qed

lemma machine_init:
  assumes "FIRCLSIsValidPointer c"
  obtains M where "FIRCLSDwarfExpressionMachineInit c r v = Some M" and "machine_at c 0 r (Some [v]) M"
proof -
  have inv: "stack_inv FIRCLSDwarfExpressionStackInit" "stack_abs FIRCLSDwarfExpressionStackInit = Some []"
    by (simp_all add: stack_inv_def stack_abs_def FIRCLSDwarfExpressionStackInit_def)
  note * = expression_stack.push [OF inv(1), of v] expression_stack.push_ok [OF inv(1), of v]
    expression_stack.inv_push [OF inv(1), of v]
  show thesis
    using that * assms inv(2)
    by (auto simp: FIRCLSDwarfExpressionMachineInit_def machine_at_def split_def Let_def
        CLS_DWARF_EXPRESSION_STACK_SIZE_def)
qed

lemma machine_result:
  assumes "machine_at e e r (Some st) M"
  shows "FIRCLSDwarfExpressionMachineGetResult M = (case st of [] \<Rightarrow> None | v # _ \<Rightarrow> Some v)"
proof -
  let ?p = "FIRCLSDwarfExpressionStackPeek (em_stack M)"
  have "stack_inv (snd ?p)" "stack_abs (snd ?p) = apeek (Some st)" "fst ?p = atop (Some st)"
    using assms by (simp_all add: machine_at_def expression_stack.peek expression_stack.peek_val)
  with assms show ?thesis
    by (cases st)
      (auto simp: FIRCLSDwarfExpressionMachineGetResult_def machine_at_def split_def Let_def stack_valid)
qed

text \<open>C23: evaluating an encoded DWARF expression (its length, then its operations) with
  \<open>FIRCLSDwarfEvalulateExpression\<close> is the meaning of the operations on a list that starts with
  the given value: the top of the list at the end, failure where an operation lacks an operand,
  finds no room in the 100 entries or cannot read, and no defined result where C has none.\<close>

theorem expression_evaluates:
  assumes "bytes_at m c (varint_spec (length (dw_code xs)) @ dw_code xs)" and "\<forall>x \<in> set xs. dw_ok x"
    and "xs \<noteq> []" and "length (dw_code xs) < 2 ^ 31" and "4096 \<le> c"
    and "unat c + length (varint_spec (length (dw_code xs))) + length (dw_code xs) < 2 ^ 64"
  shows "FIRCLSDwarfEvalulateExpression m c r v = dw_eval m r xs v"
proof -
  let ?n = "length (dw_code xs)"
  let ?c = "c + of_nat (length (varint_spec ?n))"
  have valid: "FIRCLSIsValidPointer c" using assms(5) by (simp add: FIRCLSIsValidPointer_def)
  from machine_init [OF valid] obtain M where M: "FIRCLSDwarfExpressionMachineInit c r v = Some M"
    "machine_at c 0 r (Some [v]) M" .
  have bytes: "bytes_at m c (varint_spec ?n)" "bytes_at m ?c (dw_code xs)"
    using assms(1) by (simp_all add: bytes_at_append)
  have pos: "0 < ?n" using assms(3) dw_bytes_pos by (cases xs) auto
  then have nz: "(of_nat ?n :: u64) \<noteq> 0" using assms(4) unat_of_nat_lt [of ?n, where ?'a = 64] by auto
  let ?M = "M\<lparr>em_dataCursor := ?c, em_endAddress := ?c + of_nat ?n\<rparr>"
  have prep: "FIRCLSDwarfExpressionMachinePrepareForExecution m M = Some (Some ?M)"
    using M(2) uleb_read [OF bytes(1) assms(4)] nz
    by (simp add: FIRCLSDwarfExpressionMachinePrepareForExecution_def machine_at_def)
  have at: "machine_at ?c (?c + of_nat ?n) r (Some [v]) ?M" using M(2) by (simp add: machine_at_def)
  have c: "c < ?c" "unat ?c = unat c + length (varint_spec ?n)"
    using assms(6) by (auto intro!: address_less)
  then have "4096 \<le> ?c" using assms(5) by simp
  from run_ops [OF at bytes(2) assms(2) _ this] c(2) assms(6)
  have run: "case dw_run m r xs [v] of
      None \<Rightarrow> c_loop (expression_round m) ?M = None
    | Some None \<Rightarrow> c_loop (expression_round m) ?M = Some None
    | Some (Some st') \<Rightarrow> \<exists>M'. c_loop (expression_round m) ?M = Some (Some M') \<and>
        machine_at (?c + of_nat ?n) (?c + of_nat ?n) r (Some st') M'" by simp
  have eval: "FIRCLSDwarfEvalulateExpression m c r v =
      do { E \<leftarrow> c_loop (expression_round m) ?M;
           case E of None \<Rightarrow> Some None | Some M \<Rightarrow> Some (FIRCLSDwarfExpressionMachineGetResult M) }"
    using valid M(1) prep by (simp add: FIRCLSDwarfEvalulateExpression_def)
  show ?thesis
    using run unfolding eval
    by (auto simp: dw_eval_def machine_result split: option.splits list.splits)
qed

lemma expression_evaluates_witness:
  "FIRCLSDwarfEvalulateExpression (mem_at 4096 [2, 0x35, 0x22]) 4096
     \<lparr>ss_x = replicate 29 0, ss_fp = 0, ss_lr = 0, ss_sp = 0, ss_pc = 0\<rparr> 7 = Some (Some 12)"
proof -
  let ?xs = "[DW_lit 5, DW_plus]"
  have "bytes_at (mem_at 4096 [2, 0x35, 0x22]) 4096 (varint_spec (length (dw_code ?xs)) @ dw_code ?xs)"
    using bytes_at_mem_at [of "[2, 0x35, 0x22]" 4096] by (simp add: varint_spec.simps)
  from expression_evaluates [OF this, of "\<lparr>ss_x = replicate 29 0, ss_fp = 0, ss_lr = 0, ss_sp = 0, ss_pc = 0\<rparr>" 7] show ?thesis
    by (simp add: varint_spec.simps dw_eval_def room_def CLS_DWARF_EXPRESSION_STACK_SIZE_def
        c_add_s64_def c_int64_def)
qed

section \<open>The loop ends\<close>

text \<open>Every opcode consumes its own byte and at most one operand.\<close>

definition consumes :: "FIRCLSDwarfExpressionMachine \<Rightarrow> FIRCLSDwarfExpressionMachine \<Rightarrow> nat \<Rightarrow> bool" where
  "consumes M M' n \<longleftrightarrow> em_endAddress M' = em_endAddress M \<and>
     (\<exists>k \<le> n. em_dataCursor M' = em_dataCursor M + of_nat k)"

lemma machine_stack_fields [simp]:
  "em_dataCursor (snd (FIRCLSDwarfExpressionMachineStackPush M v)) = em_dataCursor M"
  "em_endAddress (snd (FIRCLSDwarfExpressionMachineStackPush M v)) = em_endAddress M"
  "em_dataCursor (snd (FIRCLSDwarfExpressionMachineStackPop M)) = em_dataCursor M"
  "em_endAddress (snd (FIRCLSDwarfExpressionMachineStackPop M)) = em_endAddress M"
  by (simp_all add: FIRCLSDwarfExpressionMachineStackPush_def FIRCLSDwarfExpressionMachineStackPop_def
      split_def Let_def)

lemma consumes_0: "em_endAddress M' = em_endAddress M \<Longrightarrow> em_dataCursor M' = em_dataCursor M \<Longrightarrow> consumes M M' n"
  by (auto simp: consumes_def intro!: exI [of _ 0])

lemma push_result_fields:
  "FIRCLSDwarfExpressionMachineStackPush M v = (ok, M') \<Longrightarrow>
   em_dataCursor M' = em_dataCursor M \<and> em_endAddress M' = em_endAddress M"
  using machine_stack_fields(1,2) [of M v] by simp

lemmas opcode_defs =
  FIRCLSDwarfExpressionMachineExecute_bregN_def FIRCLSDwarfExpressionMachineExecute_deref_def
  FIRCLSDwarfExpressionMachineExecute_plus_uconst_def FIRCLSDwarfExpressionMachineExecute_and_def
  FIRCLSDwarfExpressionMachineExecute_plus_def FIRCLSDwarfExpressionMachineExecute_dup_def
  FIRCLSDwarfExpressionMachineExecute_swap_def FIRCLSDwarfExpressionMachineExecute_deref_size_def
  FIRCLSDwarfExpressionMachineExecute_ne_def FIRCLSDwarfExpressionMachineExecute_litN_def

lemma consumes_stack_ops:
  "FIRCLSDwarfExpressionMachineExecute_deref m M = Some (ok, M') \<Longrightarrow> consumes M M' n"
  "FIRCLSDwarfExpressionMachineExecute_dup M = Some (ok, M') \<Longrightarrow> consumes M M' n"
  "FIRCLSDwarfExpressionMachineExecute_and M = Some (ok, M') \<Longrightarrow> consumes M M' n"
  "FIRCLSDwarfExpressionMachineExecute_plus M = Some (ok, M') \<Longrightarrow> consumes M M' n"
  "FIRCLSDwarfExpressionMachineExecute_swap M = Some (ok, M') \<Longrightarrow> consumes M M' n"
  "FIRCLSDwarfExpressionMachineExecute_ne M = Some (ok, M') \<Longrightarrow> consumes M M' n"
  "FIRCLSDwarfExpressionMachineExecute_litN M b = Some (ok, M') \<Longrightarrow> consumes M M' n"
  by (auto simp: opcode_defs split_def Let_def bind_eq_Some_conv intro!: consumes_0
      dest!: push_result_fields split: option.splits if_splits)

lemma consumes_operands:
  "FIRCLSDwarfExpressionMachineExecute_bregN m M b = Some (ok, M') \<Longrightarrow> consumes M M' 8"
  "FIRCLSDwarfExpressionMachineExecute_plus_uconst m M = Some (ok, M') \<Longrightarrow> consumes M M' 8"
  "FIRCLSDwarfExpressionMachineExecute_deref_size m M = Some (ok, M') \<Longrightarrow> consumes M M' 8"
proof -
  have lift: "consumes M M' 8"
    if "em_endAddress M' = em_endAddress M" "em_dataCursor M' = c"
      "\<exists>k. 0 < k \<and> k \<le> 8 \<and> c = em_dataCursor M + of_nat k" for c
    using that by (auto simp: consumes_def)
  show "consumes M M' 8" if "FIRCLSDwarfExpressionMachineExecute_bregN m M b = Some (ok, M')"
    using that
    by (auto simp: FIRCLSDwarfExpressionMachineExecute_bregN_def Let_def bind_eq_Some_conv
        intro: consumes_0 lift dest!: push_result_fields dest: parse_leb_cursor split: if_splits)
  show "consumes M M' 8" if "FIRCLSDwarfExpressionMachineExecute_plus_uconst m M = Some (ok, M')"
  proof -
    let ?p = "FIRCLSDwarfExpressionMachineStackPop M"
    from that obtain k c where
      k: "FIRCLSParseULEB128AndAdvance m (em_dataCursor (snd ?p)) = Some (k, c)"
      and p: "FIRCLSDwarfExpressionMachineStackPush ((snd ?p)\<lparr>em_dataCursor := c\<rparr>) (fst ?p + k) = (ok, M')"
      by (auto simp: FIRCLSDwarfExpressionMachineExecute_plus_uconst_def split_def Let_def bind_eq_Some_conv)
    from parse_uleb_cursor [OF k] push_result_fields [OF p] show ?thesis
      by (auto intro: lift)
  qed
  show "consumes M M' 8" if "FIRCLSDwarfExpressionMachineExecute_deref_size m M = Some (ok, M')"
  proof -
    let ?M = "(snd (FIRCLSDwarfExpressionMachineStackPop M))\<lparr>em_dataCursor := em_dataCursor M + 1\<rparr>"
    from that obtain v where "(case v of None \<Rightarrow> Some (False, ?M)
        | Some w \<Rightarrow> Some (FIRCLSDwarfExpressionMachineStackPush ?M w)) = Some (ok, M')"
      by (auto simp: FIRCLSDwarfExpressionMachineExecute_deref_size_def split_def Let_def
          bind_eq_Some_conv FIRCLSParseUint8AndAdvance_def)
    then have "em_endAddress M' = em_endAddress M" "em_dataCursor M' = em_dataCursor M + 1"
      by (auto dest!: push_result_fields split: option.splits)
    then show ?thesis by (auto simp: consumes_def intro!: exI [of _ 1])
  qed
qed

lemma next_opcode_consumes:
  assumes "FIRCLSDwarfExpressionMachineExecuteNextOpcode m M = Some (ok, M')"
  shows "em_endAddress M' = em_endAddress M"
    and "\<exists>k. 0 < k \<and> k \<le> 9 \<and> em_dataCursor M' = em_dataCursor M + of_nat k"
proof -
  let ?M = "M\<lparr>em_dataCursor := em_dataCursor M + 1\<rparr>"
  have c: "consumes ?M M' 8"
    using assms consumes_stack_ops [where n = 8] consumes_operands consumes_0 [of ?M ?M 8]
    unfolding FIRCLSDwarfExpressionMachineExecuteNextOpcode_def
    by (auto simp: bind_eq_Some_conv FIRCLSParseUint8AndAdvance_def Let_def split: if_splits)
  then show "em_endAddress M' = em_endAddress M" by (simp add: consumes_def)
  from c obtain k where "k \<le> 8" "em_dataCursor M' = em_dataCursor M + of_nat (Suc k)"
    by (auto simp: consumes_def add.assoc)
  then show "\<exists>k. 0 < k \<and> k \<le> 9 \<and> em_dataCursor M' = em_dataCursor M + of_nat k"
    by (intro exI [of _ "Suc k"]) simp
qed

text \<open>What is left to read; nothing once the loop is due to end. A cursor that runs off the end
  of the address space lands below 4096, where the loop ends too.\<close>

definition expression_left :: "FIRCLSDwarfExpressionMachine \<Rightarrow> nat" where
  "expression_left M =
     (if FIRCLSDwarfExpressionMachineIsFinished M then 0
      else Suc (unat (em_endAddress M) - unat (em_dataCursor M)))"

lemma expression_round_less:
  assumes "expression_round m M = Some (Inl M')"
  shows "expression_left M' < expression_left M"
proof -
  from assms have go: "\<not> FIRCLSDwarfExpressionMachineIsFinished M"
    and "FIRCLSDwarfExpressionMachineExecuteNextOpcode m M = Some (True, M')"
    by (auto simp: expression_round_def bind_eq_Some_conv split: if_splits)
  from next_opcode_consumes [OF this(2)] obtain k where e: "em_endAddress M' = em_endAddress M"
    and k: "0 < k" "k \<le> 9" and c: "em_dataCursor M' = em_dataCursor M + of_nat k" by blast
  have less: "unat (em_dataCursor M) < unat (em_endAddress M)"
    using go by (auto simp: FIRCLSDwarfExpressionMachineIsFinished_def word_less_nat_alt not_le split: if_splits)
  show ?thesis
  proof (cases "FIRCLSDwarfExpressionMachineIsFinished M'")
    case True
    then show ?thesis using go by (simp add: expression_left_def)
  next
    case False
    have k': "unat (of_nat k :: u64) = k" using k by (intro unat_of_nat_lt) simp
    have "unat (em_dataCursor M') = unat (em_dataCursor M) + k"
    proof (cases "unat (em_dataCursor M) + k < 2 ^ 64")
      case True
      then show ?thesis using c k' unat_add_lem [of "em_dataCursor M" "of_nat k"] by simp
    next
      case wrap: False
      have "unat (em_dataCursor M') = (unat (em_dataCursor M) + k) mod 2 ^ 64"
        unfolding c by (simp add: unat_word_ariths k')
      also have "\<dots> = unat (em_dataCursor M) + k - 2 ^ 64"
        using wrap k unsigned_less [of "em_dataCursor M", where ?'a = nat]
        by (subst le_mod_geq) simp_all
      also have "\<dots> < 4096"
        using k wrap unsigned_less [of "em_dataCursor M", where ?'a = nat] by simp
      finally have "\<not> FIRCLSIsValidPointer (em_dataCursor M')"
        by (simp add: FIRCLSIsValidPointer_def word_le_nat_alt)
      with False show ?thesis by (simp add: FIRCLSDwarfExpressionMachineIsFinished_def)
    qed
    with False go less e k show ?thesis by (simp add: expression_left_def)
  qed
qed

text \<open>C30: the evaluation loop ends: whatever the bytes are, the rounds \<open>while (!IsFinished)
  ExecuteNextOpcode\<close> make of the machine are well-founded, so no expression keeps
  \<open>FIRCLSDwarfEvalulateExpression\<close> running.\<close>

theorem expression_terminates: "wf {(M', M). expression_round m M = Some (Inl M')}"
  by (rule wf_subset [OF wf_measure [of expression_left]]) (auto dest: expression_round_less)

end
