(* ===== verification/Unw_Dwarf_Safe.thy ===== *)
theory Unw_Dwarf_Safe
  imports Unw_Dwarf Unw_Expr_Spec
begin

text \<open>
  Call frame instructions on arbitrary bytes: the rules stay within the 32 registers of the state,
  every instruction moves the cursor forward by a bounded amount, and so the loop over them ends.
\<close>

section \<open>Well-formed rules\<close>

definition rule_wf :: "FIRCLSDwarfRegister \<Rightarrow> bool" where
  "rule_wf d \<longleftrightarrow> dr_location d \<noteq> FIRCLSDwarfRegisterOffsetFromCFA \<and>
     (dr_location d = FIRCLSDwarfRegisterInRegister \<longrightarrow> dr_value d \<le> CLS_DWARF_MAX_REGISTER_NUM)"

definition dwarf_state_wf :: "FIRCLSDwarfState \<Rightarrow> bool" where
  "dwarf_state_wf st \<longleftrightarrow> length (ds_registers st) = 32 \<and> (\<forall>d \<in> set (ds_registers st). rule_wf d) \<and>
     (ds_cfaRegister st \<le> CLS_DWARF_MAX_REGISTER_NUM \<or>
      ds_cfaRegister st = CLS_DWARF_INVALID_REGISTER_NUM)"

lemma dwarf_state_zero_wf: "dwarf_state_wf dwarf_state_zero"
  by (simp add: dwarf_state_wf_def dwarf_state_zero_def rule_wf_def)

lemma set_rule_wf:
  assumes "dwarf_state_wf st" and "rule_wf \<lparr>dr_location = l, dr_value = v\<rparr>"
  shows "dwarf_state_wf (set_rule st n l v)"
proof -
  have "set ((ds_registers st)[unat n := \<lparr>dr_location = l, dr_value = v\<rparr>])
      \<subseteq> insert \<lparr>dr_location = l, dr_value = v\<rparr> (set (ds_registers st))"
    by (rule set_update_subset_insert)
  with assms show ?thesis by (auto simp: dwarf_state_wf_def set_rule_def)
qed

lemmas rule_defs =
  FIRCLSDwarfParseAndExecute_def_cfa_def FIRCLSDwarfParseAndExecute_def_cfa_register_def
  FIRCLSDwarfParseAndExecute_def_cfa_offset_def FIRCLSDwarfParseAndExecute_same_value_def
  FIRCLSDwarfParseAndExecute_register_def FIRCLSDwarfParseAndExecute_expression_def
  FIRCLSDwarfParseAndExecute_val_expression_def FIRCLSDwarfParseAndExecute_def_cfa_expression_def
  FIRCLSDwarfParseAndExecute_offset_def

lemmas move_defs =
  FIRCLSDwarfParseAndExecute_set_loc_def FIRCLSDwarfParseAndExecute_advance_loc1_def
  FIRCLSDwarfParseAndExecute_advance_loc2_def FIRCLSDwarfParseAndExecute_advance_loc4_def
  FIRCLSDwarfParseAndExecute_advance_loc_def

text \<open>Each instruction keeps the rules well-formed.\<close>

lemma rules_wf:
  assumes "dwarf_state_wf st"
  shows "FIRCLSDwarfParseAndExecute_def_cfa m st c = Some (Some (st', c')) \<Longrightarrow> dwarf_state_wf st'"
    and "FIRCLSDwarfParseAndExecute_def_cfa_register m st c = Some (Some (st', c')) \<Longrightarrow> dwarf_state_wf st'"
    and "FIRCLSDwarfParseAndExecute_def_cfa_offset m st c = Some (Some (st', c')) \<Longrightarrow> dwarf_state_wf st'"
    and "FIRCLSDwarfParseAndExecute_same_value m st c = Some (Some (st', c')) \<Longrightarrow> dwarf_state_wf st'"
    and "FIRCLSDwarfParseAndExecute_register m st c = Some (Some (st', c')) \<Longrightarrow> dwarf_state_wf st'"
    and "FIRCLSDwarfParseAndExecute_expression m st c = Some (Some (st', c')) \<Longrightarrow> dwarf_state_wf st'"
    and "FIRCLSDwarfParseAndExecute_val_expression m st c = Some (Some (st', c')) \<Longrightarrow> dwarf_state_wf st'"
    and "FIRCLSDwarfParseAndExecute_def_cfa_expression m st c = Some (Some (st', c')) \<Longrightarrow> dwarf_state_wf st'"
    and "FIRCLSDwarfParseAndExecute_offset m cie st c n = Some (Some (st', c')) \<Longrightarrow> dwarf_state_wf st'"
  using assms set_rule_wf [OF assms]
  by (auto simp: rule_defs bind_eq_Some_conv rule_wf_def not_less dwarf_state_wf_def [of "ds_cfaRegister_update _ _"]
      dwarf_state_wf_def [of "ds_cfaRegisterOffset_update _ _"] dwarf_state_wf_def split: if_splits)

lemma execute_instruction_wf:
  assumes "execute_instruction m cie ins (c, off, st) = Some (Some (c', off', st'))" and "dwarf_state_wf st"
  shows "dwarf_state_wf st'"
  using assms rules_wf [OF assms(2)]
  unfolding execute_instruction_def
  by (auto simp: FIRCLSDwarfParseAndExecuteInstructionWithOperand_def Let_def split: if_splits)

lemma enumerate_round_next:
  assumes "enumerate_round m cie e pc (c, off, st) = Some (Inl s')"
  obtains ins c1 where "FIRCLSParseUint8AndAdvance m c = Some (ins, c1)" and "c < e"
    and "execute_instruction m cie ins (c1, off, st) = Some (Some s')"
  using assms by (auto simp: enumerate_round_def bind_eq_Some_conv split: if_splits option.splits)

lemma enumerate_round_wf:
  assumes "dwarf_state_wf (snd (snd s))" and "enumerate_round m cie e pc s = Some (Inl s')"
  shows "dwarf_state_wf (snd (snd s'))"
proof -
  obtain c off st c' off' st' where s: "s = (c, off, st)" "s' = (c', off', st')"
    by (metis prod.exhaust)
  from assms(2) obtain ins c1 where "execute_instruction m cie ins (c1, off, st) = Some (Some (c', off', st'))"
    unfolding s by (rule enumerate_round_next)
  from execute_instruction_wf [OF this] assms(1) show ?thesis by (simp add: s)
qed

lemma enumerate_round_leave:
  "enumerate_round m cie e pc s = Some (Inr r) \<Longrightarrow> r = None \<or> r = Some (snd (snd s))"
  by (auto simp: enumerate_round_def bind_eq_Some_conv split: prod.splits if_splits option.splits)


section \<open>Progress\<close>

lemma unat_or_less:
  fixes a b :: "'a::len word"
  assumes "unat a < 2 ^ n" and "unat b < 2 ^ n"
  shows "unat (a OR b) < 2 ^ n"
  using assms by (metis take_bit_nat_eq_self_iff take_bit_or unsigned_or_eq)

lemma c_shl_int_less:
  assumes "c_shl_int v s = Some w"
  shows "unat (of_int w :: u64) < 2 ^ 31"
proof -
  from assms have "0 \<le> w" "w < 2 ^ 31" by (auto simp: c_shl_int_def split: if_splits)
  then obtain k where "w = int k" "k < 2 ^ 31" by (metis nat_less_numeral_power_cancel_iff nonneg_int_cases nat_int)
  then show ?thesis by (simp add: unat_of_nat_lt)
qed

lemma uleb_loop_less:
  "uleb_loop n m r s c = Some (v, c') \<Longrightarrow> unat r < 2 ^ 31 \<Longrightarrow> unat v < 2 ^ 31"
proof (induction n arbitrary: r s c)
  case (Suc n)
  from Suc.prems(1) obtain b w where w: "c_shl_int (uint (0x7F AND b :: u8)) s = Some w"
    and rest: "(if 0x80 AND b = 0 then Some (r OR of_int w, c + 1)
      else uleb_loop n m (r OR of_int w) (s + 7) (c + 1)) = Some (v, c')"
    by (simp only: uleb_loop.simps bind_eq_Some_conv Let_def) blast
  from rest have v: "v = r OR of_int w \<or> uleb_loop n m (r OR of_int w) (s + 7) (c + 1) = Some (v, c')"
    by (auto split: if_splits)
  have "unat (r OR of_int w) < 2 ^ 31"
    using Suc.prems(2) c_shl_int_less [OF w] by (rule unat_or_less)
  with v Suc.IH show ?case by blast
qed simp

lemma parse_uleb_less: "FIRCLSParseULEB128AndAdvance m c = Some (v, c') \<Longrightarrow> unat v < 2 ^ 31"
  using uleb_loop_less by (simp add: FIRCLSParseULEB128AndAdvance_def del: uleb_loop.simps)

text \<open>\<open>ahead c n c'\<close>: the cursor has moved from \<open>c\<close> to \<open>c'\<close>, by at most \<open>n\<close>.\<close>

definition ahead :: "u64 \<Rightarrow> nat \<Rightarrow> u64 \<Rightarrow> bool" where
  "ahead c n c' \<longleftrightarrow> (\<exists>k \<le> n. c' = c + of_nat k)"

lemma ahead_0 [simp]: "ahead c n c"
  by (auto simp: ahead_def intro: exI [of _ 0])

lemma ahead_add: "k \<le> n \<Longrightarrow> ahead c n (c + of_nat k)"
  by (auto simp: ahead_def)

lemma ahead_trans: "ahead c a c' \<Longrightarrow> ahead c' b c'' \<Longrightarrow> ahead c (a + b) c''"
proof -
  assume "ahead c a c'" "ahead c' b c''"
  then obtain k l where "k \<le> a" "c' = c + of_nat k" "l \<le> b" "c'' = c' + of_nat l"
    by (auto simp: ahead_def)
  then show ?thesis by (auto simp: ahead_def add.assoc intro!: exI [of _ "k + l"])
qed

lemma ahead_mono: "ahead c a c' \<Longrightarrow> a \<le> b \<Longrightarrow> ahead c b c'"
proof -
  assume "ahead c a c'" "a \<le> b"
  then obtain k where "k \<le> a" "c' = c + of_nat k" by (auto simp: ahead_def)
  with \<open>a \<le> b\<close> show ?thesis by (simp add: ahead_add)
qed

lemma ahead_uleb: "FIRCLSParseULEB128AndAdvance m c = Some (v, c') \<Longrightarrow> ahead c 8 c'"
  unfolding ahead_def using parse_uleb_cursor by blast

lemma ahead_leb: "FIRCLSParseLEB128AndAdvance m c = Some (v, c') \<Longrightarrow> ahead c 8 c'"
  unfolding ahead_def using parse_leb_cursor by blast

lemma ahead_block: "FIRCLSParseULEB128AndAdvance m c = Some (v, c') \<Longrightarrow> ahead c (2 ^ 31 + 8) (c' + v)"
proof -
  assume v: "FIRCLSParseULEB128AndAdvance m c = Some (v, c')"
  have "ahead c' (2 ^ 31) (c' + of_nat (unat v))"
    using parse_uleb_less [OF v] by (intro ahead_add) simp
  from ahead_trans [OF ahead_uleb [OF v] this] show ?thesis by (simp add: add.commute)
qed

lemma ahead_fixed:
  "FIRCLSParseUint8AndAdvance m c = Some (v8, c') \<Longrightarrow> ahead c 8 c'"
  "FIRCLSParseUint16AndAdvance m c = Some (v16, c') \<Longrightarrow> ahead c 8 c'"
  "FIRCLSParseInt16AndAdvance m c = Some (v16, c') \<Longrightarrow> ahead c 8 c'"
  "FIRCLSParseUint32AndAdvance m c = Some (v32, c') \<Longrightarrow> ahead c 8 c'"
  "FIRCLSParseInt32AndAdvance m c = Some (v32, c') \<Longrightarrow> ahead c 8 c'"
  "FIRCLSParseUint64AndAdvance m c = Some (v64, c') \<Longrightarrow> ahead c 8 c'"
  "FIRCLSParseInt64AndAdvance m c = Some (v64, c') \<Longrightarrow> ahead c 8 c'"
  "FIRCLSParsePointerAndAdvance m c = Some (v64, c') \<Longrightarrow> ahead c 8 c'"
  using ahead_add [of 1 8 c] ahead_add [of 2 8 c] ahead_add [of 4 8 c] ahead_add [of 8 8 c]
  by (auto simp: FIRCLSParseUint8AndAdvance_def FIRCLSParseUint16AndAdvance_def
      FIRCLSParseInt16AndAdvance_def FIRCLSParseUint32AndAdvance_def FIRCLSParseInt32AndAdvance_def
      FIRCLSParseUint64AndAdvance_def FIRCLSParseInt64AndAdvance_def FIRCLSParsePointerAndAdvance_def
      bind_eq_Some_conv)

lemma ahead_address:
  assumes "FIRCLSParseAddressWithEncodingAndAdvance m c enc = Some (v, c')"
  shows "ahead c 8 c'"
proof -
  have enc: "parse_encoded_value m c enc = Some (Inr (a, c1)) \<Longrightarrow> ahead c 8 c1" for a c1
    by (auto simp: parse_encoded_value_def Let_def dest: ahead_fixed ahead_uleb ahead_leb split: if_splits)
  show ?thesis
    using assms
    by (auto simp: FIRCLSParseAddressWithEncodingAndAdvance_def Let_def bind_eq_Some_conv
        dest: enc split: if_splits option.splits sum.splits)
qed

text \<open>One or two numbers, the last of them the length of a block that is skipped.\<close>

lemma ahead_operands:
  assumes "FIRCLSParseULEB128AndAdvance m c = Some (v, c1)"
  shows "ahead c (2 ^ 31 + 16) c1" and "ahead c (2 ^ 31 + 16) (c1 + v)"
    and "FIRCLSParseULEB128AndAdvance m c1 = Some (w, c2) \<Longrightarrow> ahead c (2 ^ 31 + 16) c2"
    and "FIRCLSParseULEB128AndAdvance m c1 = Some (w, c2) \<Longrightarrow> ahead c (2 ^ 31 + 16) (c2 + w)"
  using ahead_mono [OF ahead_uleb [OF assms], of "2 ^ 31 + 16"]
    ahead_mono [OF ahead_block [OF assms], of "2 ^ 31 + 16"]
    ahead_mono [OF ahead_trans [OF ahead_uleb [OF assms] ahead_uleb], of m w c2 "2 ^ 31 + 16"]
    ahead_mono [OF ahead_trans [OF ahead_uleb [OF assms] ahead_block], of m w _ "2 ^ 31 + 16"]
  by simp_all

lemma ahead_rules:
  "FIRCLSDwarfParseAndExecute_def_cfa m st c = Some (Some (st', c')) \<Longrightarrow> ahead c (2 ^ 31 + 16) c'"
  "FIRCLSDwarfParseAndExecute_def_cfa_register m st c = Some (Some (st', c')) \<Longrightarrow> ahead c (2 ^ 31 + 16) c'"
  "FIRCLSDwarfParseAndExecute_def_cfa_offset m st c = Some (Some (st', c')) \<Longrightarrow> ahead c (2 ^ 31 + 16) c'"
  "FIRCLSDwarfParseAndExecute_same_value m st c = Some (Some (st', c')) \<Longrightarrow> ahead c (2 ^ 31 + 16) c'"
  "FIRCLSDwarfParseAndExecute_register m st c = Some (Some (st', c')) \<Longrightarrow> ahead c (2 ^ 31 + 16) c'"
  "FIRCLSDwarfParseAndExecute_expression m st c = Some (Some (st', c')) \<Longrightarrow> ahead c (2 ^ 31 + 16) c'"
  "FIRCLSDwarfParseAndExecute_val_expression m st c = Some (Some (st', c')) \<Longrightarrow> ahead c (2 ^ 31 + 16) c'"
  "FIRCLSDwarfParseAndExecute_def_cfa_expression m st c = Some (Some (st', c')) \<Longrightarrow> ahead c (2 ^ 31 + 16) c'"
  "FIRCLSDwarfParseAndExecute_offset m cie st c n = Some (Some (st', c')) \<Longrightarrow> ahead c (2 ^ 31 + 16) c'"
  by (auto simp: rule_defs bind_eq_Some_conv intro: ahead_operands [simplified] split: if_splits)

lemma ahead_moves:
  "FIRCLSDwarfParseAndExecute_set_loc m cie c = Some (off', c') \<Longrightarrow> ahead c (2 ^ 31 + 16) c'"
  "FIRCLSDwarfParseAndExecute_advance_loc1 m cie off c = Some (off', c') \<Longrightarrow> ahead c (2 ^ 31 + 16) c'"
  "FIRCLSDwarfParseAndExecute_advance_loc2 m cie off c = Some (off', c') \<Longrightarrow> ahead c (2 ^ 31 + 16) c'"
  "FIRCLSDwarfParseAndExecute_advance_loc4 m cie off c = Some (off', c') \<Longrightarrow> ahead c (2 ^ 31 + 16) c'"
  using ahead_mono [of c 8 c' "2 ^ 31 + 16"]
  by (auto simp: move_defs bind_eq_Some_conv dest!: ahead_fixed ahead_address)

lemma ahead_instruction:
  assumes "execute_instruction m cie ins (c, off, st) = Some (Some (c', off', st'))"
  shows "ahead c (2 ^ 31 + 16) c'"
  using assms
  unfolding execute_instruction_def FIRCLSDwarfParseAndExecuteInstructionWithOperand_def Let_def prod.case
  by (simp only: split: if_split_asm) (auto dest: ahead_rules ahead_moves simp del: power_numeral)




end
