(* ===== verification/Unw_Rows.thy ===== *)
theory Unw_Rows
  imports Unw_Dwarf_Safe
begin

text \<open>
  The rule table of a frame. Call frame instructions have a meaning on a location and a set of
  rules (an instruction either moves the location on or changes a rule); the rules for a code offset
  are those after the instructions up to the first location not below it. The interpreter of the
  code computes exactly them from the encoded instructions, as long as they do not use the short
  form \<open>DW_CFA_advance_loc\<close>, which replaces the location instead of adding to it.
\<close>

section \<open>Instructions and their meaning\<close>

datatype cfa_op =
    CFA_nop
  | CFA_advance_loc u8 | CFA_advance_loc1 u8 | CFA_advance_loc2 u16 | CFA_advance_loc4 u32
  | CFA_def_cfa nat nat | CFA_def_cfa_register nat | CFA_def_cfa_offset nat
  | CFA_same_value nat | CFA_register nat nat | CFA_offset nat nat

fun cfa_bytes :: "cfa_op \<Rightarrow> u8 list" where
  "cfa_bytes CFA_nop = [0x00]"
| "cfa_bytes (CFA_advance_loc d) = [0x40 OR d]"
| "cfa_bytes (CFA_advance_loc1 d) = [0x02, d]"
| "cfa_bytes (CFA_advance_loc2 d) = 0x03 # le_bytes 2 (unat d)"
| "cfa_bytes (CFA_advance_loc4 d) = 0x04 # le_bytes 4 (unat d)"
| "cfa_bytes (CFA_def_cfa n k) = 0x0C # varint_spec n @ varint_spec k"
| "cfa_bytes (CFA_def_cfa_register n) = 0x0D # varint_spec n"
| "cfa_bytes (CFA_def_cfa_offset k) = 0x0E # varint_spec k"
| "cfa_bytes (CFA_same_value n) = 0x08 # varint_spec n"
| "cfa_bytes (CFA_register n k) = 0x09 # varint_spec n @ varint_spec k"
| "cfa_bytes (CFA_offset n k) = (0x80 OR of_nat n) # varint_spec k"

fun cfa_ok :: "cfa_op \<Rightarrow> bool" where
  "cfa_ok (CFA_advance_loc d) \<longleftrightarrow> d < 0x40"
| "cfa_ok (CFA_def_cfa n k) \<longleftrightarrow> n < 32 \<and> k < 2 ^ 31"
| "cfa_ok (CFA_def_cfa_register n) \<longleftrightarrow> n < 32"
| "cfa_ok (CFA_def_cfa_offset k) \<longleftrightarrow> k < 2 ^ 31"
| "cfa_ok (CFA_same_value n) \<longleftrightarrow> n < 32"
| "cfa_ok (CFA_register n k) \<longleftrightarrow> n < 32 \<and> k < 32"
| "cfa_ok (CFA_offset n k) \<longleftrightarrow> n < 32 \<and> k < 2 ^ 31"
| "cfa_ok _ \<longleftrightarrow> True"

fun cfa_long :: "cfa_op \<Rightarrow> bool" where
  "cfa_long (CFA_advance_loc d) \<longleftrightarrow> False"
| "cfa_long _ \<longleftrightarrow> True"

text \<open>How far an instruction moves the location, and what it does to the rules.\<close>

fun cfa_delta :: "DWARFCIERecord \<Rightarrow> cfa_op \<Rightarrow> nat" where
  "cfa_delta cie (CFA_advance_loc d) = unat d * unat (cie_codeAlignFactor cie)"
| "cfa_delta cie (CFA_advance_loc1 d) = unat d * unat (cie_codeAlignFactor cie)"
| "cfa_delta cie (CFA_advance_loc2 d) = unat d * unat (cie_codeAlignFactor cie)"
| "cfa_delta cie (CFA_advance_loc4 d) = unat d * unat (cie_codeAlignFactor cie)"
| "cfa_delta cie _ = 0"

fun cfa_rule :: "DWARFCIERecord \<Rightarrow> cfa_op \<Rightarrow> FIRCLSDwarfState \<Rightarrow> FIRCLSDwarfState" where
  "cfa_rule cie (CFA_def_cfa n k) st = st\<lparr>ds_cfaRegister := of_nat n, ds_cfaRegisterOffset := of_nat k\<rparr>"
| "cfa_rule cie (CFA_def_cfa_register n) st = st\<lparr>ds_cfaRegister := of_nat n\<rparr>"
| "cfa_rule cie (CFA_def_cfa_offset k) st = st\<lparr>ds_cfaRegisterOffset := of_nat k\<rparr>"
| "cfa_rule cie (CFA_same_value n) st =
     set_rule st (of_nat n) FIRCLSDwarfRegisterUnused (dr_value (ds_registers st ! n))"
| "cfa_rule cie (CFA_register n k) st = set_rule st (of_nat n) FIRCLSDwarfRegisterInRegister (of_nat k)"
| "cfa_rule cie (CFA_offset n k) st =
     set_rule st (of_nat n) FIRCLSDwarfRegisterInCFA (of_nat k * cie_dataAlignFactor cie)"
| "cfa_rule cie _ st = st"

text \<open>The rules in force at an offset: the location starts at 0 and only moves on.\<close>

fun cfa_row :: "DWARFCIERecord \<Rightarrow> nat \<Rightarrow> cfa_op list \<Rightarrow> nat \<Rightarrow> FIRCLSDwarfState \<Rightarrow> FIRCLSDwarfState" where
  "cfa_row cie pc [] loc st = st"
| "cfa_row cie pc (x # xs) loc st =
     (if pc \<le> loc then st else cfa_row cie pc xs (loc + cfa_delta cie x) (cfa_rule cie x st))"

definition cfa_code :: "cfa_op list \<Rightarrow> u8 list" where
  "cfa_code xs = concat (map cfa_bytes xs)"

definition cfa_span :: "DWARFCIERecord \<Rightarrow> cfa_op list \<Rightarrow> nat" where
  "cfa_span cie xs = sum_list (map (cfa_delta cie) xs)"

lemma cfa_code_simps [simp]: "cfa_code [] = []" "cfa_code (x # xs) = cfa_bytes x @ cfa_code xs"
  by (simp_all add: cfa_code_def)

lemma cfa_bytes_pos: "0 < length (cfa_bytes x)"
  by (cases x) simp_all

section \<open>One instruction\<close>

lemma sint_of_nat: "n < 2 ^ 63 \<Longrightarrow> sint (of_nat n :: u64) = int n"
  by transfer (simp add: signed_take_bit_int_eq_self)

lemma move_long:
  assumes "loc + d * unat k < 2 ^ 63"
  shows "c_add_s64 (of_nat loc) (of_nat d * k) = Some (of_nat (loc + d * unat k))"
proof -
  have "(of_nat d * k :: u64) = of_nat (d * unat k)" by simp
  moreover have "d * unat k < 2 ^ 63" "loc < 2 ^ 63" using assms by simp_all
  ultimately show ?thesis
    using assms by (simp add: c_add_s64_def c_int64_def sint_of_nat del: of_nat_mult) 
qed

lemma le_load:
  assumes "bytes_at m c (le_bytes n x)"
  shows "load m c n = Some (le_bytes n x)"
  using assms by (simp add: bytes_at_def)

lemma read_u16: "bytes_at m c (le_bytes 2 (unat (d :: u16))) \<Longrightarrow> FIRCLSParseUint16AndAdvance m c = Some (d, c + 2)"
  using unsigned_less [of d, where ?'a = nat]
  by (simp add: FIRCLSParseUint16AndAdvance_def load_u16_def le_load le_val_le_bytes)

lemma read_u32: "bytes_at m c (le_bytes 4 (unat (d :: u32))) \<Longrightarrow> FIRCLSParseUint32AndAdvance m c = Some (d, c + 4)"
  using unsigned_less [of d, where ?'a = nat]
  by (simp add: FIRCLSParseUint32AndAdvance_def load_u32_def le_load le_val_le_bytes)

lemma small_reg:
  assumes "n < 32"
  shows "\<not> (of_nat n :: u64) > CLS_DWARF_MAX_REGISTER_NUM" and "n < 2 ^ 31" and "unat (of_nat n :: u64) = n"
  using assms by (simp_all add: dwarf_numbers word_le_nat_alt unat_of_nat_lt not_less)

lemma offset_byte:
  assumes "n < 32"
  shows "(0x80 OR of_nat n :: u8) AND 0x3F = of_nat n \<and> (0x80 OR of_nat n :: u8) AND 0xC0 = 0x80 \<and>
    0x80 \<le> (0x80 OR of_nat n :: u8)"
proof -
  have "\<forall>n \<in> set [0..<32]. (0x80 OR of_nat n :: u8) AND 0x3F = of_nat n \<and>
      (0x80 OR of_nat n :: u8) AND 0xC0 = 0x80 \<and> 0x80 \<le> (0x80 OR of_nat n :: u8)"
    by code_simp
  then show ?thesis using assms by simp
qed

text \<open>Instructions with their operand in the opcode byte are the remaining ones.\<close>

lemma execute_operand:
  assumes "0x30 \<le> ins"
  shows "execute_instruction m cie ins s = FIRCLSDwarfParseAndExecuteInstructionWithOperand m cie ins s"
proof -
  have "ins \<noteq> b" if "b < 0x30" for b using that assms by auto
  then show ?thesis by (cases s) (simp add: execute_instruction_def Let_def)
qed

lemma execute_op:
  assumes "bytes_at m c (cfa_bytes x)" and "cfa_ok x" and "cfa_long x" and "loc + cfa_delta cie x < 2 ^ 63"
  shows "\<exists>ins. FIRCLSParseUint8AndAdvance m c = Some (ins, c + 1) \<and>
    execute_instruction m cie ins (c + 1, of_nat loc, st) =
      Some (Some (c + of_nat (length (cfa_bytes x)), of_nat (loc + cfa_delta cie x), cfa_rule cie x st))"
proof (cases x)
  case (CFA_offset n k)
  let ?b = "0x80 OR of_nat n :: u8"
  have n: "n < 32" and k: "k < 2 ^ 31" using CFA_offset assms(2) by simp_all
  note b = offset_byte [OF n]
  have "(0x30 :: u8) \<le> 0x80" by simp
  then have "0x30 \<le> ?b" using b order_trans by blast
  note op = execute_operand [OF this]
  have "(ucast (of_nat n :: u8) :: u64) = of_nat n" using n by (intro ucast_of_nat_u8) simp
  moreover have "bytes_at m (c + 1) (varint_spec k)" using CFA_offset assms(1) by simp
  ultimately show ?thesis
    using CFA_offset assms(1) b small_reg [OF n] uleb_read [of m "c + 1" k] k
    by (simp add: FIRCLSParseUint8AndAdvance_def load_u8_def op
        FIRCLSDwarfParseAndExecuteInstructionWithOperand_def FIRCLSDwarfParseAndExecute_offset_def
        Let_def add.assoc)
next
  case (CFA_def_cfa n k)
  then show ?thesis
    using assms small_reg [of n] uleb_read [of m "c + 1" n] uleb_read [of m _ k]
    by (simp add: FIRCLSParseUint8AndAdvance_def load_u8_def execute_instruction_def bytes_at_append
        FIRCLSDwarfParseAndExecute_def_cfa_def add.assoc)
next
  case (CFA_register n k)
  then show ?thesis
    using assms small_reg [of n] small_reg [of k] uleb_read [of m "c + 1" n] uleb_read [of m _ k]
    by (simp add: FIRCLSParseUint8AndAdvance_def load_u8_def execute_instruction_def bytes_at_append
        FIRCLSDwarfParseAndExecute_register_def add.assoc)
next
  case (CFA_def_cfa_register n)
  then show ?thesis
    using assms small_reg [of n] uleb_read [of m "c + 1" n]
    by (simp add: FIRCLSParseUint8AndAdvance_def load_u8_def execute_instruction_def
        FIRCLSDwarfParseAndExecute_def_cfa_register_def add.assoc)
next
  case (CFA_def_cfa_offset k)
  then show ?thesis
    using assms uleb_read [of m "c + 1" k]
    by (simp add: FIRCLSParseUint8AndAdvance_def load_u8_def execute_instruction_def
        FIRCLSDwarfParseAndExecute_def_cfa_offset_def add.assoc)
next
  case (CFA_same_value n)
  then show ?thesis
    using assms small_reg [of n] uleb_read [of m "c + 1" n]
    by (simp add: FIRCLSParseUint8AndAdvance_def load_u8_def execute_instruction_def
        FIRCLSDwarfParseAndExecute_same_value_def add.assoc)
next
  case (CFA_advance_loc1 d)
  then show ?thesis
    using assms move_long [of loc "unat d" "cie_codeAlignFactor cie"]
    by (simp add: FIRCLSParseUint8AndAdvance_def load_u8_def execute_instruction_def
        FIRCLSDwarfParseAndExecute_advance_loc1_def add.assoc)
next
  case (CFA_advance_loc2 d)
  then show ?thesis
    using assms move_long [of loc "unat d" "cie_codeAlignFactor cie"] read_u16 [of m "c + 1" d]
    by (simp add: FIRCLSParseUint8AndAdvance_def load_u8_def execute_instruction_def
        FIRCLSDwarfParseAndExecute_advance_loc2_def add.assoc)
next
  case (CFA_advance_loc4 d)
  then show ?thesis
    using assms move_long [of loc "unat d" "cie_codeAlignFactor cie"] read_u32 [of m "c + 1" d]
    by (simp add: FIRCLSParseUint8AndAdvance_def load_u8_def execute_instruction_def
        FIRCLSDwarfParseAndExecute_advance_loc4_def add.assoc)
qed (use assms in \<open>simp_all add: FIRCLSParseUint8AndAdvance_def load_u8_def execute_instruction_def\<close>)

section \<open>A whole program\<close>

lemma slt_of_nat:
  "a < 2 ^ 63 \<Longrightarrow> b < 2 ^ 63 \<Longrightarrow> (of_nat a :: u64) <s of_nat b \<longleftrightarrow> a < b"
  by (simp add: word_sless_alt sint_of_nat)

lemma enumerate_ops:
  assumes "bytes_at m c (cfa_code xs)" and "\<forall>x \<in> set xs. cfa_ok x \<and> cfa_long x"
    and "unat c + length (cfa_code xs) < 2 ^ 64" and "e = c + of_nat (length (cfa_code xs))"
    and "loc + cfa_span cie xs < 2 ^ 63" and "pc < 2 ^ 63"
  shows "c_loop (enumerate_round m cie e (of_nat pc)) (c, of_nat loc, st) = Some (Some (cfa_row cie pc xs loc st))"
  using assms
proof (induction xs arbitrary: c loc st)
  case Nil
  then show ?case by (intro c_loop_exit) (simp add: enumerate_round_def)
next
  case (Cons x xs)
  have span: "loc + cfa_delta cie x + cfa_span cie xs < 2 ^ 63" "loc < 2 ^ 63"
    using Cons.prems(5) by (simp_all add: cfa_span_def)
  show ?case
  proof (cases "pc \<le> loc")
    case True
    then have "\<not> (of_nat loc :: u64) <s of_nat pc" using slt_of_nat span(2) Cons.prems(6) by simp
    then have "enumerate_round m cie e (of_nat pc) (c, of_nat loc, st) = Some (Inr (Some st))"
      by (simp add: enumerate_round_def)
    with True show ?thesis by (simp add: c_loop_exit)
  next
    case False
    let ?n = "length (cfa_bytes x)" and ?loc = "loc + cfa_delta cie x"
    have bytes: "bytes_at m c (cfa_bytes x)" "bytes_at m (c + of_nat ?n) (cfa_code xs)"
      using Cons.prems(1) by (simp_all add: bytes_at_append)
    from execute_op [OF bytes(1), of loc cie st] Cons.prems(2) span obtain ins where
      ins: "FIRCLSParseUint8AndAdvance m c = Some (ins, c + 1)"
      "execute_instruction m cie ins (c + 1, of_nat loc, st) =
         Some (Some (c + of_nat ?n, of_nat ?loc, cfa_rule cie x st))" by auto
    have c: "c < e"
      unfolding Cons.prems(4) using Cons.prems(3) cfa_bytes_pos [of x] by (intro address_less(1)) auto
    have loc: "(of_nat loc :: u64) <s of_nat pc" using slt_of_nat span(2) Cons.prems(6) False by simp
    have c': "unat (c + of_nat ?n) = unat c + ?n"
      using Cons.prems(3) cfa_bytes_pos [of x] by (intro address_less(2)) auto
    have "enumerate_round m cie e (of_nat pc) (c, of_nat loc, st) =
        Some (Inl (c + of_nat ?n, of_nat ?loc, cfa_rule cie x st))"
      using ins c loc by (simp add: enumerate_round_def)
    then have "c_loop (enumerate_round m cie e (of_nat pc)) (c, of_nat loc, st) =
        c_loop (enumerate_round m cie e (of_nat pc)) (c + of_nat ?n, of_nat ?loc, cfa_rule cie x st)"
      by (rule c_loop_next)
    also have "\<dots> = Some (Some (cfa_row cie pc xs ?loc (cfa_rule cie x st)))"
      using Cons.prems c' span(1) by (intro Cons.IH [OF bytes(2)]) (simp_all add: add.assoc)
    finally show ?thesis using False by simp
  qed
qed




end
