(* ===== verification/Unw_Dwarf_Props.thy ===== *)
theory Unw_Dwarf_Props
  imports Unw_Dwarf_Safe
begin

text \<open>
  What the DWARF unwinder computes: the registers it hands back are those the rules name, and
  running the instructions of a frame selects the rules DWARF's table has for the program counter,
  as long as the short form of the advance instruction is not used, which replaces the location
  instead of adding to it.
\<close>

section \<open>Assigning registers\<close>

text \<open>The rules that are used, with the values they name.\<close>

primrec saved_values ::
  "memory \<Rightarrow> FIRCLSDwarfState \<Rightarrow> FIRCLSThreadContext \<Rightarrow> u64 \<Rightarrow> nat list \<Rightarrow> (u64 \<times> u64) list option"
where
  "saved_values m st r cfa [] = Some []"
| "saved_values m st r cfa (i # is) =
     (if dr_location (ds_registers st ! i) = FIRCLSDwarfRegisterUnused then saved_values m st r cfa is
      else do { v \<leftarrow> FIRCLSDwarfGetSavedRegister m r cfa (ds_registers st ! i);
                ws \<leftarrow> saved_values m st r cfa is;
                Some ((of_nat i, v) # ws) })"

lemma reg_inj:
  assumes "i < 32" and "j < 32"
  shows "(of_nat i :: u64) = of_nat j \<longleftrightarrow> i = j"
proof
  assume "(of_nat i :: u64) = of_nat j"
  then have "unat (of_nat i :: u64) = unat (of_nat j :: u64)" by simp
  moreover have "i < 2 ^ LENGTH(64)" "j < 2 ^ LENGTH(64)" using assms by simp_all
  ultimately show "i = j" by (simp only: unat_of_nat_lt)
qed simp

lemma saved_values_map:
  assumes "saved_values m st r cfa is = Some ws" and "distinct is" and "\<forall>i \<in> set is. i < 32"
  shows "distinct (map fst ws) \<and> fst ` set ws \<subseteq> of_nat ` set is \<and>
    (\<forall>i \<in> set is. map_of ws (of_nat i) =
      (if dr_location (ds_registers st ! i) = FIRCLSDwarfRegisterUnused then None
       else FIRCLSDwarfGetSavedRegister m r cfa (ds_registers st ! i)))"
  using assms
proof (induction "is" arbitrary: ws)
  case (Cons i "is")
  have fresh: "of_nat i \<notin> (of_nat ` set is :: u64 set)"
  proof
    assume "of_nat i \<in> (of_nat ` set is :: u64 set)"
    then obtain j where "j \<in> set is" "(of_nat i :: u64) = of_nat j" by auto
    with Cons.prems(2,3) reg_inj [of i j] show False by auto
  qed
  show ?case
  proof (cases "dr_location (ds_registers st ! i) = FIRCLSDwarfRegisterUnused")
    case True
    with Cons.prems have "saved_values m st r cfa is = Some ws" by simp
    with Cons.IH Cons.prems(2,3) have IH: "distinct (map fst ws)" "fst ` set ws \<subseteq> of_nat ` set is"
      "\<forall>i \<in> set is. map_of ws (of_nat i) =
        (if dr_location (ds_registers st ! i) = FIRCLSDwarfRegisterUnused then None
         else FIRCLSDwarfGetSavedRegister m r cfa (ds_registers st ! i))" by simp_all
    moreover have "map_of ws (of_nat i) = None" using IH(2) fresh by (auto simp: map_of_eq_None_iff)
    ultimately show ?thesis using True by auto
  next
    case False
    with Cons.prems(1) obtain v us where v: "FIRCLSDwarfGetSavedRegister m r cfa (ds_registers st ! i) = Some v"
      and us: "saved_values m st r cfa is = Some us" "ws = (of_nat i, v) # us"
      by (auto simp: bind_eq_Some_conv)
    with Cons.IH Cons.prems(2,3) have IH: "distinct (map fst us)" "fst ` set us \<subseteq> of_nat ` set is"
      "\<forall>i \<in> set is. map_of us (of_nat i) =
        (if dr_location (ds_registers st ! i) = FIRCLSDwarfRegisterUnused then None
         else FIRCLSDwarfGetSavedRegister m r cfa (ds_registers st ! i))" by simp_all
    have ne: "of_nat j \<noteq> (of_nat i :: u64)" if "j \<in> set is" for j using that fresh by (metis imageI)
    have "distinct (map fst ws)" using IH(1,2) fresh us(2) by auto
    moreover have "fst ` set ws \<subseteq> of_nat ` set (i # is)" using IH(2) us(2) by auto
    moreover have "map_of ws (of_nat j) =
        (if dr_location (ds_registers st ! j) = FIRCLSDwarfRegisterUnused then None
         else FIRCLSDwarfGetSavedRegister m r cfa (ds_registers st ! j))" if "j \<in> set (i # is)" for j
      using that IH(3) ne False v us(2) by auto
    ultimately show ?thesis by blast
  qed
qed simp

lemma saved_values_some:
  "saved_values m st r cfa is = Some ws \<Longrightarrow> i \<in> set is \<Longrightarrow>
   dr_location (ds_registers st ! i) \<noteq> FIRCLSDwarfRegisterUnused \<Longrightarrow>
   \<exists>v. FIRCLSDwarfGetSavedRegister m r cfa (ds_registers st ! i) = Some v"
  by (induction "is" arbitrary: ws) (auto simp: bind_eq_Some_conv split: if_splits)

text \<open>The loop writes them in order, into registers that all exist.\<close>

lemma of_nat_reg: "i \<le> 31 \<Longrightarrow> (of_nat i :: u64) \<le> CLS_DWARF_MAX_REGISTER_NUM"
  by (simp add: dwarf_numbers word_le_nat_alt unat_of_nat_lt)

lemma assign_loop_writes:
  assumes "assign_loop m st r cfa is new = Some (Some out)" and "context_wf new" and "\<forall>i \<in> set is. i \<le> 31"
  shows "\<exists>ws. saved_values m st r cfa is = Some ws \<and> arm64.set_all new ws = Some out"
  using assms
proof (induction "is" arbitrary: new)
  case (Cons i "is")
  show ?case
  proof (cases "dr_location (ds_registers st ! i) = FIRCLSDwarfRegisterUnused")
    case True
    with Cons.prems have "assign_loop m st r cfa is new = Some (Some out)" by simp
    from Cons.IH [OF this Cons.prems(2)] Cons.prems(3) True show ?thesis by simp
  next
    case False
    with Cons.prems obtain v where v: "FIRCLSDwarfGetSavedRegister m r cfa (ds_registers st ! i) = Some v"
      and rest: "(case FIRCLSDwarfUnwindSetRegisterValue new (of_nat i) v of None \<Rightarrow> Some None
        | Some new \<Rightarrow> assign_loop m st r cfa is new) = Some (Some out)"
      by (auto simp: bind_eq_Some_conv)
    then obtain new' where new': "FIRCLSDwarfUnwindSetRegisterValue new (of_nat i) v = Some new'"
      "assign_loop m st r cfa is new' = Some (Some out)" by (auto split: option.splits)
    have "context_wf new'" using arm64.set_reg_wf [OF new'(1)] Cons.prems(2) by simp
    from Cons.IH [OF new'(2) this] Cons.prems(3) obtain ws where
      "saved_values m st r cfa is = Some ws" "arm64.set_all new' ws = Some out" by auto
    with v new'(1) False show ?thesis by simp
  qed
qed simp

text \<open>The program counter follows the link register.\<close>

lemma set_register_pc:
  assumes "FIRCLSDwarfUnwindSetRegisterValue r n v = Some r'"
  shows "(ss_pc r' = ss_pc r \<and> ss_lr r' = ss_lr r) \<or> ss_pc r' = ss_lr r'"
  using assms
  by (auto simp: FIRCLSDwarfUnwindSetRegisterValue_def context_defs split: if_splits)

lemma set_all_pc:
  "arm64.set_all r ws = Some r' \<Longrightarrow>
   (ss_pc r' = ss_pc r \<and> ss_lr r' = ss_lr r) \<or> ss_pc r' = ss_lr r'"
proof (induction ws arbitrary: r)
  case (Cons w ws)
  then obtain r1 where r1: "FIRCLSDwarfUnwindSetRegisterValue r (fst w) (snd w) = Some r1"
    "arm64.set_all r1 ws = Some r'" by (auto split: option.splits)
  have "(ss_pc r1 = ss_pc r \<and> ss_lr r1 = ss_lr r) \<or> ss_pc r1 = ss_lr r1"
    by (rule set_register_pc [OF r1(1)])
  with Cons.IH [OF r1(2)] show ?case by metis
qed simp

text \<open>When \<open>FIRCLSDwarfUnwindAssignRegisters\<close> succeeds, the caller's registers it hands back
  are: the CFA as stack pointer; for every other register with a rule, the value the rule names; for
  every register without one, the value it had; and the program counter is the return address. (Frame
  pointer, link register and stack pointer are compared as the code reads them, cut to 36 bits.)\<close>

theorem assigned_registers:
  assumes "FIRCLSDwarfUnwindAssignRegisters m st r cfa = Some (Some out)" and "context_wf r"
  shows "FIRCLSThreadContextGetStackPointer out = CLS_PTRAUTH_STRIP cfa \<and>
    FIRCLSThreadContextGetPC out = FIRCLSThreadContextGetLinkRegister out \<and>
    (\<forall>i < 31.
       if dr_location (ds_registers st ! i) = FIRCLSDwarfRegisterUnused
       then FIRCLSDwarfUnwindGetRegisterValue out (of_nat i) = FIRCLSDwarfUnwindGetRegisterValue r (of_nat i)
       else \<exists>v. FIRCLSDwarfGetSavedRegister m r cfa (ds_registers st ! i) = Some v \<and>
              FIRCLSDwarfUnwindGetRegisterValue out (of_nat i) = reg_hold (of_nat i) v)"
proof -
  have upt: "[0..<Suc (unat CLS_DWARF_MAX_REGISTER_NUM)] = [0..<32]" by (simp add: dwarf_numbers)
  from assms(1) obtain new where loop: "assign_loop m st r cfa [0..<32] r = Some (Some new)"
    and sp: "FIRCLSDwarfUnwindSetRegisterValue new CLS_DWARF_ARM64_SP cfa = Some out"
    and lr: "\<not> FIRCLSDwarfCompareRegisters r out CLS_DWARF_ARM64_LR"
    unfolding FIRCLSDwarfUnwindAssignRegisters_def upt
    by (auto simp: bind_eq_Some_conv split: option.splits if_splits)
  from assign_loop_writes [OF loop assms(2)] obtain ws where
    ws: "saved_values m st r cfa [0..<32] = Some ws" "arm64.set_all r ws = Some new" by auto
  have new: "context_wf new" using arm64.set_all_wf [OF ws(2)] assms(2) by simp
  note saved = saved_values_map [OF ws(1)]
  have reg: "FIRCLSDwarfUnwindGetRegisterValue out (of_nat i) =
      (case map_of ws (of_nat i) of None \<Rightarrow> FIRCLSDwarfUnwindGetRegisterValue r (of_nat i)
       | Some v \<Rightarrow> reg_hold (of_nat i) v)" if "i < 31" for i
  proof -
    have "(of_nat i :: u64) \<noteq> CLS_DWARF_ARM64_SP"
      using reg_inj [of i 31] that by (simp add: dwarf_numbers)
    then have "FIRCLSDwarfUnwindGetRegisterValue out (of_nat i) = FIRCLSDwarfUnwindGetRegisterValue new (of_nat i)"
      by (rule arm64.get_other [OF new sp])
    with arm64.get_set_all [OF ws(2) assms(2), of "of_nat i"] saved show ?thesis by simp
  qed
  have "FIRCLSThreadContextGetPC out = FIRCLSThreadContextGetLinkRegister out"
    using set_all_pc [OF ws(2)] sp lr
    by (auto simp: FIRCLSDwarfUnwindSetRegisterValue_def FIRCLSDwarfCompareRegisters_def
        FIRCLSDwarfUnwindGetRegisterValue_def dwarf_numbers context_defs)
  moreover have "FIRCLSThreadContextGetStackPointer out = CLS_PTRAUTH_STRIP cfa"
    using sp by (auto simp: FIRCLSDwarfUnwindSetRegisterValue_def dwarf_numbers context_defs)
  moreover have "if dr_location (ds_registers st ! i) = FIRCLSDwarfRegisterUnused
       then FIRCLSDwarfUnwindGetRegisterValue out (of_nat i) = FIRCLSDwarfUnwindGetRegisterValue r (of_nat i)
       else \<exists>v. FIRCLSDwarfGetSavedRegister m r cfa (ds_registers st ! i) = Some v \<and>
              FIRCLSDwarfUnwindGetRegisterValue out (of_nat i) = reg_hold (of_nat i) v" if i: "i < 31" for i
  proof (cases "dr_location (ds_registers st ! i) = FIRCLSDwarfRegisterUnused")
    case True
    with saved i reg [OF i] show ?thesis by auto
  next
    case False
    then have mo: "map_of ws (of_nat i) = FIRCLSDwarfGetSavedRegister m r cfa (ds_registers st ! i)"
      using saved i by auto
    from saved_values_some [OF ws(1) _ False] i obtain v where
      "FIRCLSDwarfGetSavedRegister m r cfa (ds_registers st ! i) = Some v" by auto
    with mo reg [OF i] False show ?thesis by simp
  qed
  ultimately show ?thesis by blast
qed

text \<open>A frame with its two saved words, for examples.\<close>

definition sample_registers :: FIRCLSThreadContext where
  "sample_registers =
     \<lparr>ss_x = replicate 29 7, ss_fp = 4096, ss_lr = 0x5000, ss_sp = 4080, ss_pc = 0x6000\<rparr>"

definition sample_rules :: FIRCLSDwarfState where
  "sample_rules =
     set_rule (set_rule dwarf_state_zero 29 FIRCLSDwarfRegisterInCFA (- 16)) 30 FIRCLSDwarfRegisterInCFA (- 8)"

lemma assigned_registers_witness:
  "\<exists>out. FIRCLSDwarfUnwindAssignRegisters (mem_at 4096 [8,0,0,0,0,0,0,0, 32,0,0,0,0,0,0,0]) sample_rules
      sample_registers 4112 = Some (Some out) \<and>
    FIRCLSThreadContextGetStackPointer out = CLS_PTRAUTH_STRIP 4112"
proof -
  have run: "FIRCLSDwarfUnwindAssignRegisters (mem_at 4096 [8,0,0,0,0,0,0,0, 32,0,0,0,0,0,0,0]) sample_rules
      sample_registers 4112 =
    Some (Some \<lparr>ss_x = replicate 29 7, ss_fp = 8, ss_lr = 32, ss_sp = 4112, ss_pc = 32\<rparr>)"
    by code_simp
  have "context_wf sample_registers" by (simp add: context_wf_def sample_registers_def)
  from run assigned_registers [OF run this] show ?thesis by blast
qed

end
