(* ===== verification/Unw_Compact.thy ===== *)
theory Unw_Compact
  imports Unw_Dwarf
begin

text \<open>
  \<open>Unwind/Compact/FIRCLSCompactUnwind.c\<close> and the ARM64 half of \<open>Unwind/FIRCLSUnwind_arm.c\<close>
  that runs what it finds: the two-level lookup of a program counter in an image's
  \<open>__unwind_info\<close> section and the frame step its encoding asks for.

  The layout of the section and the names of its constants are those of the system header
  \<open>mach-o/compact_unwind_encoding.h\<close>, which is not part of the sources: record
  \<open>compact_format\<close> is the parameter for it, with the field offsets, sizes and constants the code
  uses by name. \<open>Some None\<close> is a function's \<open>false\<close>; \<open>None\<close> is what C does not define, here
  the direct read of an address that is not mapped.
\<close>

section \<open>The format and the state\<close>

record compact_format =
  cf_header_size :: nat
  cf_version :: nat
  cf_commonEncodingsArraySectionOffset :: nat
  cf_commonEncodingsArrayCount :: nat
  cf_indexSectionOffset :: nat
  cf_indexCount :: nat
  cf_index_entry_size :: nat
  cf_functionOffset :: nat
  cf_secondLevelPagesSectionOffset :: nat
  cf_entryPageOffset :: nat
  cf_entryCount :: nat
  cf_encodingsPageOffset :: nat
  cf_SECTION_VERSION :: u32
  cf_SECOND_LEVEL_REGULAR :: u32
  cf_SECOND_LEVEL_COMPRESSED :: u32
  cf_ENTRY_FUNC_OFFSET :: "u32 \<Rightarrow> u32"
  cf_ENTRY_ENCODING_INDEX :: "u32 \<Rightarrow> u32"
  cf_ARM64_MODE_MASK :: u32
  cf_ARM64_MODE_FRAMELESS :: u32
  cf_ARM64_MODE_DWARF :: u32
  cf_ARM64_MODE_FRAME :: u32
  cf_ARM64_DWARF_SECTION_OFFSET :: u32

record unwind_info_section_header =
  uh_version :: u32
  uh_commonEncodingsArraySectionOffset :: u32
  uh_commonEncodingsArrayCount :: u32
  uh_indexSectionOffset :: u32
  uh_indexCount :: u32

record unwind_info_section_header_index_entry =
  ui_functionOffset :: u32
  ui_secondLevelPagesSectionOffset :: u32

record FIRCLSCompactUnwindContext =
  cu_unwindInfo :: u64
  cu_ehFrame :: u64
  cu_loadAddress :: u64
  cu_unwindHeader :: unwind_info_section_header
  cu_indexHeader :: unwind_info_section_header_index_entry
  cu_firstLevelNextFunctionOffset :: u32

record FIRCLSCompactUnwindResult =
  cr_encoding :: u32
  cr_functionStart :: u64
  cr_functionEnd :: u64

section \<open>Initialisation and addresses\<close>

text \<open>A 32-bit field of a copied structure.\<close>

definition field32 :: "u8 list \<Rightarrow> nat \<Rightarrow> u32" where
  "field32 bs off = of_nat (le_val (take 4 (drop off bs)))"

definition header_of :: "compact_format \<Rightarrow> u8 list \<Rightarrow> unwind_info_section_header" where
  "header_of cf bs =
     \<lparr>uh_version = field32 bs (cf_version cf),
      uh_commonEncodingsArraySectionOffset = field32 bs (cf_commonEncodingsArraySectionOffset cf),
      uh_commonEncodingsArrayCount = field32 bs (cf_commonEncodingsArrayCount cf),
      uh_indexSectionOffset = field32 bs (cf_indexSectionOffset cf),
      uh_indexCount = field32 bs (cf_indexCount cf)\<rparr>"

definition FIRCLSCompactUnwindInit ::
  "compact_format \<Rightarrow> memory \<Rightarrow> u64 \<Rightarrow> u64 \<Rightarrow> u64 \<Rightarrow> FIRCLSCompactUnwindContext option"
where
  "FIRCLSCompactUnwindInit cf m unwindInfo ehFrame loadAddress =
     (if \<not> FIRCLSIsValidPointer unwindInfo then None
      else if \<not> FIRCLSIsValidPointer loadAddress then None
      else case FIRCLSReadMemory m unwindInfo (cf_header_size cf) of
             None \<Rightarrow> None
           | Some bs \<Rightarrow>
               let header = header_of cf bs
               in if uh_version header \<noteq> cf_SECTION_VERSION cf then None
                  else Some \<lparr>cu_unwindInfo = unwindInfo, cu_ehFrame = ehFrame,
                    cu_loadAddress = loadAddress, cu_unwindHeader = header,
                    cu_indexHeader = \<lparr>ui_functionOffset = 0, ui_secondLevelPagesSectionOffset = 0\<rparr>,
                    cu_firstLevelNextFunctionOffset = 0\<rparr>)"

definition FIRCLSCompactUnwindGetIndexData :: "FIRCLSCompactUnwindContext \<Rightarrow> u64" where
  "FIRCLSCompactUnwindGetIndexData ctx =
     cu_unwindInfo ctx + ucast (uh_indexSectionOffset (cu_unwindHeader ctx))"

definition FIRCLSCompactUnwindGetCommonEncodings :: "FIRCLSCompactUnwindContext \<Rightarrow> u64" where
  "FIRCLSCompactUnwindGetCommonEncodings ctx =
     cu_unwindInfo ctx + ucast (uh_commonEncodingsArraySectionOffset (cu_unwindHeader ctx))"

definition FIRCLSCompactUnwindGetSecondLevelData :: "FIRCLSCompactUnwindContext \<Rightarrow> u64" where
  "FIRCLSCompactUnwindGetSecondLevelData ctx =
     cu_unwindInfo ctx + ucast (ui_secondLevelPagesSectionOffset (cu_indexHeader ctx))"

definition FIRCLSCompactUnwindGetIndexFunctionOffset :: "FIRCLSCompactUnwindContext \<Rightarrow> u64" where
  "FIRCLSCompactUnwindGetIndexFunctionOffset ctx =
     cu_loadAddress ctx + ucast (ui_functionOffset (cu_indexHeader ctx))"

definition FIRCLSCompactUnwindGetTargetAddress :: "FIRCLSCompactUnwindContext \<Rightarrow> u64 \<Rightarrow> u64" where
  "FIRCLSCompactUnwindGetTargetAddress ctx pc =
     (let offset = FIRCLSCompactUnwindGetIndexFunctionOffset ctx
      in if pc \<le> offset then 0 else pc - offset)"

section \<open>The first level\<close>

text \<open>Entry \<open>i\<close> of the index, and the loop over the entries with \<open>n\<close> to go. A hit copies the
  whole entry.\<close>

definition index_entry_at :: "compact_format \<Rightarrow> u64 \<Rightarrow> nat \<Rightarrow> u64" where
  "index_entry_at cf entries i = entries + of_nat (i * cf_index_entry_size cf)"

definition index_function :: "compact_format \<Rightarrow> memory \<Rightarrow> u64 \<Rightarrow> nat \<Rightarrow> u32 option" where
  "index_function cf m entries i =
     load_u32 m (index_entry_at cf entries i + of_nat (cf_functionOffset cf))"

primrec first_level_loop ::
  "nat \<Rightarrow> compact_format \<Rightarrow> memory \<Rightarrow> u64 \<Rightarrow> u64 \<Rightarrow> nat \<Rightarrow> FIRCLSCompactUnwindContext \<Rightarrow>
     FIRCLSCompactUnwindContext option option"
where
  "first_level_loop 0 cf m entries address i ctx = Some None"
| "first_level_loop (Suc n) cf m entries address i ctx =
     do { value \<leftarrow> index_function cf m entries i;
          nextValue \<leftarrow> index_function cf m entries (i + 1);
          if address \<ge> ucast value \<and> address < ucast nextValue
          then do { bs \<leftarrow> load m (index_entry_at cf entries i) (cf_index_entry_size cf);
                    Some (Some (ctx\<lparr>cu_firstLevelNextFunctionOffset := nextValue,
                      cu_indexHeader :=
                        \<lparr>ui_functionOffset = field32 bs (cf_functionOffset cf),
                         ui_secondLevelPagesSectionOffset =
                           field32 bs (cf_secondLevelPagesSectionOffset cf)\<rparr>\<rparr>)) }
          else first_level_loop n cf m entries address (i + 1) ctx }"

definition FIRCLSCompactUnwindLookupFirstLevel ::
  "compact_format \<Rightarrow> memory \<Rightarrow> FIRCLSCompactUnwindContext \<Rightarrow> u64 \<Rightarrow>
     FIRCLSCompactUnwindContext option option"
where
  "FIRCLSCompactUnwindLookupFirstLevel cf m ctx address =
     (let indexCount = uh_indexCount (cu_unwindHeader ctx)
      in if indexCount < 2 then Some None
         else if address < cu_loadAddress ctx then Some None
         else let entries = FIRCLSCompactUnwindGetIndexData ctx
              in if entries = 0 then Some None
                 else first_level_loop (unat (indexCount - 1)) cf m entries
                        (address - cu_loadAddress ctx) 0 ctx)"

section \<open>The second level\<close>

definition FIRCLSCompactUnwindGetSecondLevelPageKind ::
  "memory \<Rightarrow> FIRCLSCompactUnwindContext \<Rightarrow> u32 option"
where
  "FIRCLSCompactUnwindGetSecondLevelPageKind m ctx = load_u32 m (FIRCLSCompactUnwindGetSecondLevelData ctx)"

definition FIRCLSCompactUnwindLookupSecondLevelRegular ::
  "FIRCLSCompactUnwindContext \<Rightarrow> u64 \<Rightarrow> FIRCLSCompactUnwindResult option option"
where
  "FIRCLSCompactUnwindLookupSecondLevelRegular ctx pc = Some None"

text \<open>Element \<open>i\<close> of an array of 32-bit words, and the function offset of an entry. Indices are
  at most the 16-bit entry count, so their 32-bit arithmetic does not wrap.\<close>

definition word_at :: "memory \<Rightarrow> u64 \<Rightarrow> nat \<Rightarrow> u32 option" where
  "word_at m a i = load_u32 m (a + 4 * of_nat i)"

definition entry_offset :: "compact_format \<Rightarrow> memory \<Rightarrow> u64 \<Rightarrow> nat \<Rightarrow> u64 option" where
  "entry_offset cf m entryArray i = map_option (\<lambda>e. ucast (cf_ENTRY_FUNC_OFFSET cf e)) (word_at m entryArray i)"

definition binary_search_round ::
  "compact_format \<Rightarrow> memory \<Rightarrow> u64 \<Rightarrow> u64 \<Rightarrow> nat \<Rightarrow> nat \<times> nat \<Rightarrow> (nat \<times> nat + nat option) option"
where
  "binary_search_round cf m entryArray address entryCount s =
     (case s of (index, highIndex) \<Rightarrow>
        if \<not> index < highIndex then Some (Inr (if index < entryCount then Some index else None))
        else let midIndex = (index + highIndex) div 2
             in do { value \<leftarrow> entry_offset cf m entryArray midIndex;
                     if value > address
                     then if highIndex = midIndex then Some (Inr None) else Some (Inl (index, midIndex))
                     else if midIndex = entryCount - 1 then Some (Inr None)
                     else do { nextValue \<leftarrow> entry_offset cf m entryArray (midIndex + 1);
                               if nextValue > address
                               then Some (Inr (if midIndex < entryCount then Some midIndex else None))
                               else Some (Inl (midIndex + 1, highIndex)) } })"

definition FIRCLSCompactUnwindBinarySearchSecondLevel ::
  "compact_format \<Rightarrow> memory \<Rightarrow> u64 \<Rightarrow> u16 \<Rightarrow> u64 \<Rightarrow> nat option option"
where
  "FIRCLSCompactUnwindBinarySearchSecondLevel cf m address entryCount entryArray =
     (if entryArray = 0 then Some None
      else if entryCount = 0 then Some None
      else if address = 0 then Some None
      else c_loop (binary_search_round cf m entryArray address (unat entryCount)) (0, unat entryCount))"

text \<open>The encoding an entry names: in the common array, or in the page's own.\<close>

definition entry_encoding ::
  "compact_format \<Rightarrow> memory \<Rightarrow> FIRCLSCompactUnwindContext \<Rightarrow> u64 \<Rightarrow> u32 \<Rightarrow> u32 option"
where
  "entry_encoding cf m ctx ptr entry =
     (let encodingIndex = cf_ENTRY_ENCODING_INDEX cf entry;
          common = uh_commonEncodingsArrayCount (cu_unwindHeader ctx)
      in if encodingIndex < common
         then word_at m (FIRCLSCompactUnwindGetCommonEncodings ctx) (unat encodingIndex)
         else do { off \<leftarrow> load_u16 m (ptr + of_nat (cf_encodingsPageOffset cf));
                   word_at m (ptr + ucast off) (unat (encodingIndex - common)) })"

definition FIRCLSCompactUnwindLookupSecondLevelCompressed ::
  "compact_format \<Rightarrow> memory \<Rightarrow> FIRCLSCompactUnwindContext \<Rightarrow> u64 \<Rightarrow>
     FIRCLSCompactUnwindResult option option"
where
  "FIRCLSCompactUnwindLookupSecondLevelCompressed cf m ctx pc =
     (let ptr = FIRCLSCompactUnwindGetSecondLevelData ctx
      in if ptr = 0 then Some None
         else do { pageOffset \<leftarrow> load_u16 m (ptr + of_nat (cf_entryPageOffset cf));
              entryCount \<leftarrow> load_u16 m (ptr + of_nat (cf_entryCount cf));
              let entryArray = ptr + ucast pageOffset;
              S \<leftarrow> FIRCLSCompactUnwindBinarySearchSecondLevel cf m
                     (FIRCLSCompactUnwindGetTargetAddress ctx pc) entryCount entryArray;
              case S of
                None \<Rightarrow> Some None
              | Some index \<Rightarrow>
                  do { entry \<leftarrow> word_at m entryArray index;
                       let functionStart = ucast (cf_ENTRY_FUNC_OFFSET cf entry) +
                             FIRCLSCompactUnwindGetIndexFunctionOffset ctx;
                       functionEnd \<leftarrow> (if index < unat entryCount - 1
                         then map_option (\<lambda>e. cu_loadAddress ctx +
                                ucast (cf_ENTRY_FUNC_OFFSET cf e + ui_functionOffset (cu_indexHeader ctx)))
                                (word_at m entryArray (index + 1))
                         else Some (cu_loadAddress ctx + ucast (cu_firstLevelNextFunctionOffset ctx)));
                       if pc < functionStart \<or> pc \<ge> functionEnd then Some None
                       else do { encoding \<leftarrow> entry_encoding cf m ctx ptr entry;
                                 if encoding = 0 then Some None
                                 else Some (Some \<lparr>cr_encoding = encoding,
                                   cr_functionStart = functionStart, cr_functionEnd = functionEnd\<rparr>) } } })"

definition FIRCLSCompactUnwindLookupSecondLevel ::
  "compact_format \<Rightarrow> memory \<Rightarrow> FIRCLSCompactUnwindContext \<Rightarrow> u64 \<Rightarrow>
     FIRCLSCompactUnwindResult option option"
where
  "FIRCLSCompactUnwindLookupSecondLevel cf m ctx pc =
     do { kind \<leftarrow> FIRCLSCompactUnwindGetSecondLevelPageKind m ctx;
          if kind = cf_SECOND_LEVEL_REGULAR cf then FIRCLSCompactUnwindLookupSecondLevelRegular ctx pc
          else if kind = cf_SECOND_LEVEL_COMPRESSED cf
          then FIRCLSCompactUnwindLookupSecondLevelCompressed cf m ctx pc
          else Some None }"

text \<open>The lookup keeps the context the first level has filled in.\<close>

definition FIRCLSCompactUnwindLookup ::
  "compact_format \<Rightarrow> memory \<Rightarrow> FIRCLSCompactUnwindContext \<Rightarrow> u64 \<Rightarrow>
     (FIRCLSCompactUnwindContext \<times> FIRCLSCompactUnwindResult) option option"
where
  "FIRCLSCompactUnwindLookup cf m ctx pc =
     do { L \<leftarrow> FIRCLSCompactUnwindLookupFirstLevel cf m ctx pc;
          case L of
            None \<Rightarrow> Some None
          | Some ctx \<Rightarrow>
              do { R \<leftarrow> FIRCLSCompactUnwindLookupSecondLevel cf m ctx pc;
                   Some (map_option (\<lambda>r. (ctx, r)) R) } }"

section \<open>Unwinding\<close>

definition FIRCLSCompactUnwindDwarfFrame ::
  "memory \<Rightarrow> FIRCLSCompactUnwindContext \<Rightarrow> u64 \<Rightarrow> FIRCLSThreadContext \<Rightarrow>
     FIRCLSThreadContext option option"
where
  "FIRCLSCompactUnwindDwarfFrame m ctx dwarfOffset registers =
     do { R \<leftarrow> FIRCLSDwarfParseCFIFromFDERecordOffset m (cu_ehFrame ctx) dwarfOffset;
          case R of
            None \<Rightarrow> Some None
          | Some rec \<Rightarrow> FIRCLSDwarfUnwindComputeRegisters m rec registers }"

definition FIRCLSCompactUnwindComputeRegisters ::
  "compact_format \<Rightarrow> memory \<Rightarrow> FIRCLSCompactUnwindContext \<Rightarrow> FIRCLSCompactUnwindResult \<Rightarrow>
     FIRCLSThreadContext \<Rightarrow> FIRCLSThreadContext option option"
where
  "FIRCLSCompactUnwindComputeRegisters cf m ctx result registers =
     (let mode = cr_encoding result AND cf_ARM64_MODE_MASK cf
      in if mode = cf_ARM64_MODE_FRAMELESS cf then Some (FIRCLSUnwindWithLRRegister registers)
         else if mode = cf_ARM64_MODE_DWARF cf
         then FIRCLSCompactUnwindDwarfFrame m ctx
                (ucast (cr_encoding result AND cf_ARM64_DWARF_SECTION_OFFSET cf)) registers
         else if mode = cf_ARM64_MODE_FRAME cf
         then Some (FIRCLSUnwindWithFramePointer m registers False)
         else Some None)"

definition FIRCLSCompactUnwindLookupAndCompute ::
  "compact_format \<Rightarrow> memory \<Rightarrow> FIRCLSCompactUnwindContext \<Rightarrow> FIRCLSThreadContext \<Rightarrow>
     FIRCLSThreadContext option option"
where
  "FIRCLSCompactUnwindLookupAndCompute cf m ctx registers =
     (let pc = FIRCLSThreadContextGetPC registers
      in if pc < cu_loadAddress ctx then Some None
         else do { R \<leftarrow> FIRCLSCompactUnwindLookup cf m ctx pc;
                   case R of
                     None \<Rightarrow> Some None
                   | Some (ctx, result) \<Rightarrow>
                       FIRCLSCompactUnwindComputeRegisters cf m ctx result registers })"

end
