(* ===== verification/Unw_Compact_Props.thy ===== *)
theory Unw_Compact_Props
  imports Unw_Compact
begin

text \<open>
  The lookup of compact unwind encodings: the binary search of a second-level page agrees with a
  search from the front, a function that is found contains the program counter, and the last
  function of a page is never found.
\<close>

section \<open>The binary search\<close>

text \<open>The reference: the first entry whose offset is at most the address while the next one's is
  above it.\<close>

definition find_entry :: "(nat \<Rightarrow> u64) \<Rightarrow> nat \<Rightarrow> u64 \<Rightarrow> nat option" where
  "find_entry f n address = find (\<lambda>i. f i \<le> address \<and> address < f (i + 1)) [0..<n - 1]"

text \<open>A page's entries: readable, and ordered by their offsets.\<close>

definition page_entries :: "compact_format \<Rightarrow> memory \<Rightarrow> u64 \<Rightarrow> (nat \<Rightarrow> u64) \<Rightarrow> nat \<Rightarrow> bool" where
  "page_entries cf m arr f n \<longleftrightarrow>
     (\<forall>i < n. entry_offset cf m arr i = Some (f i)) \<and> (\<forall>i j. i \<le> j \<longrightarrow> j < n \<longrightarrow> f i \<le> f j)"

lemma page_entries_offset: "page_entries cf m arr f n \<Longrightarrow> i < n \<Longrightarrow> entry_offset cf m arr i = Some (f i)"
  by (simp add: page_entries_def)

lemma page_entries_mono: "page_entries cf m arr f n \<Longrightarrow> i \<le> j \<Longrightarrow> j < n \<Longrightarrow> f i \<le> f j"
  by (simp add: page_entries_def)

lemma find_entry_hit:
  assumes p: "page_entries cf m arr f n" and "i + 1 < n" and "f i \<le> address" and "address < f (i + 1)"
  shows "find_entry f n address = Some i"
proof -
  have "address \<ge> f (j + 1)" if "j < i" for j
    using page_entries_mono [OF p, of "j + 1" i] that assms(2,3) by simp
  then show ?thesis
    unfolding find_entry_def find_Some_iff using assms(2-) by (intro exI [of _ i]) (auto simp: not_less)
qed

lemma find_entry_beyond:
  assumes p: "page_entries cf m arr f n" and "0 < n" and "f (n - 1) \<le> address"
  shows "find_entry f n address = None"
proof -
  have "f (i + 1) \<le> address" if "i < n - 1" for i
    using page_entries_mono [OF p, of "i + 1" "n - 1"] that assms(2,3) by simp
  then show ?thesis by (fastforce simp: find_entry_def find_None_iff not_less)
qed

text \<open>What the rounds keep: the answer lies between the two indices.\<close>

definition search_inv :: "(nat \<Rightarrow> u64) \<Rightarrow> nat \<Rightarrow> u64 \<Rightarrow> nat \<times> nat \<Rightarrow> bool" where
  "search_inv f n address s \<longleftrightarrow>
     fst s \<le> snd s \<and> snd s \<le> n \<and> (0 < fst s \<longrightarrow> fst s < n \<and> f (fst s) \<le> address) \<and>
     (snd s < n \<longrightarrow> address < f (snd s))"

definition search_result :: "(nat \<Rightarrow> u64) \<Rightarrow> nat \<Rightarrow> u64 \<Rightarrow> nat option" where
  "search_result f n address = (if address < f 0 then Some 0 else find_entry f n address)"

lemma search_round:
  assumes p: "page_entries cf m arr f n" and n: "0 < n" and inv: "search_inv f n address (i, h)"
  shows "(\<exists>s'. binary_search_round cf m arr address n (i, h) = Some (Inl s') \<and> search_inv f n address s' \<and>
           snd s' - fst s' < h - i) \<or>
         (\<exists>r. binary_search_round cf m arr address n (i, h) = Some (Inr r) \<and> r = search_result f n address)"
proof (cases "i < h")
  case False
  with inv have "h = 0 \<and> i = 0" by (auto simp: search_inv_def)
  with inv n show ?thesis by (auto simp: binary_search_round_def search_inv_def search_result_def)
next
  case True
  let ?mid = "(i + h) div 2"
  have mid: "i \<le> ?mid" "?mid < h" "?mid < n" using True inv by (auto simp: search_inv_def)
  note entry = page_entries_offset [OF p mid(3)]
  show ?thesis
  proof (cases "f ?mid > address")
    case above: True
    have "binary_search_round cf m arr address n (i, h) = Some (Inl (i, ?mid))"
      using True entry above mid by (simp add: binary_search_round_def Let_def)
    moreover have "search_inv f n address (i, ?mid)" using inv above mid by (simp add: search_inv_def)
    ultimately show ?thesis using mid by auto
  next
    case below: False
    have nz: "\<not> address < f 0"
      using page_entries_mono [OF p, of 0 ?mid] mid(3) below by auto
    show ?thesis
    proof (cases "?mid = n - 1")
      case last: True
      have "binary_search_round cf m arr address n (i, h) = Some (Inr None)"
        using True entry below last by (simp add: binary_search_round_def Let_def)
      then show ?thesis
        using find_entry_beyond [OF p n] below last nz by (simp add: search_result_def not_less)
    next
      case False
      then have next': "?mid + 1 < n" using mid by simp
      note entry' = page_entries_offset [OF p next']
      show ?thesis
      proof (cases "f (?mid + 1) > address")
        case found: True
        have "binary_search_round cf m arr address n (i, h) = Some (Inr (Some ?mid))"
          using True entry entry' below found False mid by (simp add: binary_search_round_def Let_def)
        then show ?thesis
          using find_entry_hit [OF p next'] below found nz by (simp add: search_result_def not_less)
      next
        case further: False
        have "binary_search_round cf m arr address n (i, h) = Some (Inl (?mid + 1, h))"
          using True entry entry' below further False by (simp add: binary_search_round_def Let_def)
        moreover have "search_inv f n address (?mid + 1, h)"
          using inv further mid next' by (simp add: search_inv_def not_less)
        ultimately show ?thesis using mid by auto
      qed
    qed
  qed
qed

lemma binary_search_loop:
  assumes "page_entries cf m arr f n" and "0 < n"
  shows "c_loop (binary_search_round cf m arr address n) (0, n) = Some (search_result f n address)"
proof -
  have "\<exists>r. c_loop (binary_search_round cf m arr address n) (0, n) = Some r \<and> r = search_result f n address"
  proof (rule c_loop_total [where I = "search_inv f n address" and m = "\<lambda>s. snd s - fst s"])
    show "search_inv f n address (0, n)" by (simp add: search_inv_def)
  next
    fix s assume "search_inv f n address s"
    then show "(\<exists>s'. binary_search_round cf m arr address n s = Some (Inl s') \<and>
          search_inv f n address s' \<and> snd s' - fst s' < snd s - fst s) \<or>
        (\<exists>r. binary_search_round cf m arr address n s = Some (Inr r) \<and> r = search_result f n address)"
      using search_round [OF assms, of address "fst s" "snd s"] by (cases s) simp
  qed
  then show ?thesis by simp
qed

text \<open>C26: on a page whose entries can be read and are ordered, the binary search
  \<open>FIRCLSCompactUnwindBinarySearchSecondLevel\<close> ends and finds what a search from the front
  finds: the entry the address lies in, nothing from the last entry's offset on, and entry 0 (which
  the caller's range check then refuses) for an address before the first.\<close>

theorem binary_search_equivalent:
  assumes "page_entries cf m arr f (unat n)" and "n \<noteq> 0" and "address \<noteq> 0" and "arr \<noteq> 0"
  shows "FIRCLSCompactUnwindBinarySearchSecondLevel cf m address n arr =
    Some (if address < f 0 then Some 0 else find_entry f (unat n) address)"
proof -
  have "0 < unat n" using assms(2) by (simp add: unat_gt_0)
  from binary_search_loop [OF assms(1) this, of address] show ?thesis
    using assms(2-) by (simp add: FIRCLSCompactUnwindBinarySearchSecondLevel_def search_result_def)
qed

section \<open>What is found\<close>

lemma binary_search_index:
  assumes "FIRCLSCompactUnwindBinarySearchSecondLevel cf m address n arr = Some (Some i)"
  shows "i < unat n"
proof -
  from assms have loop:
    "c_loop (binary_search_round cf m arr address (unat n)) (0, unat n) = Some (Some i)"
    by (auto simp: FIRCLSCompactUnwindBinarySearchSecondLevel_def split: if_splits)
  have "(\<lambda>r. \<forall>i. r = Some i \<longrightarrow> i < unat n) (Some i)"
    by (rule c_loop_partial [OF loop, where I = "\<lambda>_. True"])
      (auto simp: binary_search_round_def bind_eq_Some_conv Let_def split: prod.splits if_splits)
  then show ?thesis by simp
qed

lemma compressed_sound:
  assumes "FIRCLSCompactUnwindLookupSecondLevelCompressed cf m ctx pc = Some (Some r)"
  shows "cr_functionStart r \<le> pc" and "pc < cr_functionEnd r" and "cr_encoding r \<noteq> 0"
  using assms
  by (auto simp: FIRCLSCompactUnwindLookupSecondLevelCompressed_def Let_def bind_eq_Some_conv
      not_less not_le split: if_splits option.splits)

lemma second_level_sound:
  assumes "FIRCLSCompactUnwindLookupSecondLevel cf m ctx pc = Some (Some r)"
  shows "FIRCLSCompactUnwindLookupSecondLevelCompressed cf m ctx pc = Some (Some r)"
  using assms
  by (auto simp: FIRCLSCompactUnwindLookupSecondLevel_def FIRCLSCompactUnwindLookupSecondLevelRegular_def
      bind_eq_Some_conv split: if_splits)

lemma first_level_sound:
  assumes "first_level_loop n cf m entries address i ctx = Some (Some ctx')"
  shows "\<exists>k v. i \<le> k \<and> k < i + n \<and> index_function cf m entries k = Some v \<and>
    index_function cf m entries (k + 1) = Some (cu_firstLevelNextFunctionOffset ctx') \<and>
    ucast v \<le> address \<and> address < ucast (cu_firstLevelNextFunctionOffset ctx') \<and>
    cu_loadAddress ctx' = cu_loadAddress ctx"
  using assms
proof (induction n arbitrary: i)
  case (Suc n)
  then obtain v nextValue where at: "index_function cf m entries i = Some v"
    "index_function cf m entries (i + 1) = Some nextValue"
    by (auto simp: bind_eq_Some_conv)
  show ?case
  proof (cases "address \<ge> ucast v \<and> address < ucast nextValue")
    case True
    with Suc.prems at have "cu_firstLevelNextFunctionOffset ctx' = nextValue"
      "cu_loadAddress ctx' = cu_loadAddress ctx"
      by (auto simp: bind_eq_Some_conv)
    with True at show ?thesis by (intro exI [of _ i] exI [of _ v]) simp
  next
    case False
    with Suc.prems at have "first_level_loop n cf m entries address (i + 1) ctx = Some (Some ctx')"
      by auto
    from Suc.IH [OF this] obtain k v where "i + 1 \<le> k" "k < i + 1 + n"
      "index_function cf m entries k = Some v"
      "index_function cf m entries (k + 1) = Some (cu_firstLevelNextFunctionOffset ctx')"
      "ucast v \<le> address" "address < ucast (cu_firstLevelNextFunctionOffset ctx')"
      "cu_loadAddress ctx' = cu_loadAddress ctx" by blast
    then show ?thesis by (intro exI [of _ k] exI [of _ v]) simp
  qed
qed simp

text \<open>The layout of the header on the current systems, for examples.\<close>

definition apple_format :: compact_format where
  "apple_format =
     \<lparr>cf_header_size = 28, cf_version = 0, cf_commonEncodingsArraySectionOffset = 4,
      cf_commonEncodingsArrayCount = 8, cf_indexSectionOffset = 20, cf_indexCount = 24,
      cf_index_entry_size = 12, cf_functionOffset = 0, cf_secondLevelPagesSectionOffset = 4,
      cf_entryPageOffset = 4, cf_entryCount = 6, cf_encodingsPageOffset = 8,
      cf_SECTION_VERSION = 1, cf_SECOND_LEVEL_REGULAR = 2, cf_SECOND_LEVEL_COMPRESSED = 3,
      cf_ENTRY_FUNC_OFFSET = (\<lambda>e. e AND 0x00FFFFFF),
      cf_ENTRY_ENCODING_INDEX = (\<lambda>e. drop_bit 24 e AND 0xFF),
      cf_ARM64_MODE_MASK = 0x0F000000, cf_ARM64_MODE_FRAMELESS = 0x02000000,
      cf_ARM64_MODE_DWARF = 0x03000000, cf_ARM64_MODE_FRAME = 0x04000000,
      cf_ARM64_DWARF_SECTION_OFFSET = 0x00FFFFFF\<rparr>"

text \<open>A section with one page of two functions, at offsets 16 and 64 of the image.\<close>

definition sample_section :: "u8 list" where
  "sample_section =
     [1,0,0,0, 28,0,0,0, 0,0,0,0, 0,0,0,0, 0,0,0,0, 28,0,0,0, 2,0,0,0,
      0,0,0,0, 52,0,0,0, 0,0,0,0, 0,1,0,0, 0,0,0,0, 0,0,0,0,
      3,0,0,0, 12,0, 2,0, 20,0, 1,0, 16,0,0,0, 64,0,0,0, 0,0,0,4]"

definition sample_context :: FIRCLSCompactUnwindContext where
  "sample_context =
     \<lparr>cu_unwindInfo = 4096, cu_ehFrame = 0, cu_loadAddress = 0x10000,
      cu_unwindHeader =
        \<lparr>uh_version = 1, uh_commonEncodingsArraySectionOffset = 28, uh_commonEncodingsArrayCount = 0,
         uh_indexSectionOffset = 28, uh_indexCount = 2\<rparr>,
      cu_indexHeader = \<lparr>ui_functionOffset = 0, ui_secondLevelPagesSectionOffset = 0\<rparr>,
      cu_firstLevelNextFunctionOffset = 0\<rparr>"

text \<open>Loads from the sample, as sublists.\<close>

lemma load_mem_at:
  assumes "k + n \<le> length bs" and "length bs < 2 ^ 64"
  shows "load (mem_at a bs) (a + of_nat k) n = Some (take n (drop k bs))"
  using assms(1)
proof (induction n arbitrary: k)
  case (Suc n)
  then have k: "k < length bs" by simp
  then have "m_bytes (mem_at a bs) (a + of_nat k) = Some (bs ! k)"
    using bytes_at_mem_at [OF assms(2), of a] by (simp add: bytes_at_nth)
  moreover have "load (mem_at a bs) (a + of_nat (Suc k)) n = Some (take n (drop (Suc k) bs))"
    using Suc.prems by (intro Suc.IH) simp
  ultimately show ?case using k by (simp add: Cons_nth_drop_Suc [symmetric] ac_simps)
qed simp

lemma sample_init:
  "FIRCLSCompactUnwindInit apple_format (mem_at 4096 sample_section) 4096 0 0x10000 = Some sample_context"
  using load_mem_at [of 0 28 sample_section 4096]
  by (simp add: FIRCLSCompactUnwindInit_def FIRCLSIsValidPointer_def FIRCLSReadMemory_def apple_format_def
      sample_section_def sample_context_def header_of_def field32_def Let_def)

lemma sample_u32:
  "k + 4 \<le> 76 \<Longrightarrow> load_u32 (mem_at 4096 sample_section) (4096 + of_nat k) =
     Some (of_nat (le_val (take 4 (drop k sample_section))))"
  using load_mem_at [of k 4 sample_section 4096]
  by (simp add: load_u32_def sample_section_def)

lemma sample_u16:
  "k + 2 \<le> 76 \<Longrightarrow> load_u16 (mem_at 4096 sample_section) (4096 + of_nat k) =
     Some (of_nat (le_val (take 2 (drop k sample_section))))"
  using load_mem_at [of k 2 sample_section 4096]
  by (simp add: load_u16_def sample_section_def)

lemma sample_words:
  "load_u32 (mem_at 4096 sample_section) 4124 = Some 0"
  "load_u32 (mem_at 4096 sample_section) 4128 = Some 52"
  "load_u32 (mem_at 4096 sample_section) 4136 = Some 256"
  "load_u32 (mem_at 4096 sample_section) 4148 = Some 3"
  "load_u16 (mem_at 4096 sample_section) 4152 = Some 12"
  "load_u16 (mem_at 4096 sample_section) 4154 = Some 2"
  "load_u16 (mem_at 4096 sample_section) 4156 = Some 20"
  "load_u32 (mem_at 4096 sample_section) 4160 = Some 16"
  "load_u32 (mem_at 4096 sample_section) 4164 = Some 64"
  "load_u32 (mem_at 4096 sample_section) 4168 = Some 0x04000000"
  using sample_u32 [of 28] sample_u32 [of 32] sample_u32 [of 40] sample_u32 [of 52] sample_u16 [of 56]
    sample_u16 [of 58] sample_u16 [of 60] sample_u32 [of 64] sample_u32 [of 68] sample_u32 [of 72]
  by (simp_all add: sample_section_def)

text \<open>The context after the first level, for every address below 256.\<close>

definition sample_found :: FIRCLSCompactUnwindContext where
  "sample_found = sample_context\<lparr>cu_firstLevelNextFunctionOffset := 256,
     cu_indexHeader := \<lparr>ui_functionOffset = 0, ui_secondLevelPagesSectionOffset = 52\<rparr>\<rparr>"

lemma sample_first_level:
  assumes "0x10000 \<le> pc" and "pc - 0x10000 < 256"
  shows "FIRCLSCompactUnwindLookupFirstLevel apple_format (mem_at 4096 sample_section) sample_context pc =
    Some (Some sample_found)"
proof -
  have "load (mem_at 4096 sample_section) 4124 12 = Some (take 12 (drop 28 sample_section))"
    using load_mem_at [of 28 12 sample_section 4096] by (simp add: sample_section_def)
  moreover have "unat (uh_indexCount (cu_unwindHeader sample_context) - 1) = Suc 0"
    by (simp add: sample_context_def)
  ultimately show ?thesis
    using assms sample_words(1-3)
    by (simp add: FIRCLSCompactUnwindLookupFirstLevel_def Let_def FIRCLSCompactUnwindGetIndexData_def
        index_function_def index_entry_at_def apple_format_def sample_context_def sample_found_def
        field32_def sample_section_def not_less)
qed

lemma sample_page: "page_entries apple_format (mem_at 4096 sample_section) 4160 (\<lambda>i. if i = 0 then 16 else 64) 2"
  using sample_words(8,9)
  by (auto simp: page_entries_def entry_offset_def word_at_def apple_format_def less_2_cases_iff)

text \<open>C25: what the two-level lookup \<open>FIRCLSCompactUnwindLookup\<close> finds contains the program
  counter: it lies between the function's start and end, in the range of the first-level entry that
  was taken, and the encoding is not the one for no unwind information.\<close>

theorem compact_lookup_sound:
  assumes "FIRCLSCompactUnwindLookup cf m ctx pc = Some (Some (ctx', r))"
  shows "cr_functionStart r \<le> pc \<and> pc < cr_functionEnd r \<and> cr_encoding r \<noteq> 0 \<and>
    (\<exists>k v. k + 1 < unat (uh_indexCount (cu_unwindHeader ctx)) \<and>
       index_function cf m (FIRCLSCompactUnwindGetIndexData ctx) k = Some v \<and>
       index_function cf m (FIRCLSCompactUnwindGetIndexData ctx) (k + 1) =
         Some (cu_firstLevelNextFunctionOffset ctx') \<and>
       ucast v \<le> pc - cu_loadAddress ctx \<and>
       pc - cu_loadAddress ctx < ucast (cu_firstLevelNextFunctionOffset ctx'))"
proof -
  from assms have first: "FIRCLSCompactUnwindLookupFirstLevel cf m ctx pc = Some (Some ctx')"
    and second: "FIRCLSCompactUnwindLookupSecondLevel cf m ctx' pc = Some (Some r)"
    by (auto simp: FIRCLSCompactUnwindLookup_def bind_eq_Some_conv split: option.splits)
  let ?n = "uh_indexCount (cu_unwindHeader ctx)"
  from first have n: "\<not> ?n < 2"
    and loop: "first_level_loop (unat (?n - 1)) cf m (FIRCLSCompactUnwindGetIndexData ctx)
      (pc - cu_loadAddress ctx) 0 ctx = Some (Some ctx')"
    by (auto simp: FIRCLSCompactUnwindLookupFirstLevel_def Let_def split: if_splits)
  have "unat (?n - 1) = unat ?n - 1" "2 \<le> unat ?n"
    using n by (simp_all add: unat_sub word_le_nat_alt not_less)
  moreover from first_level_sound [OF loop] obtain k v where "k < unat (?n - 1)"
    "index_function cf m (FIRCLSCompactUnwindGetIndexData ctx) k = Some v"
    "index_function cf m (FIRCLSCompactUnwindGetIndexData ctx) (k + 1) =
       Some (cu_firstLevelNextFunctionOffset ctx')"
    "ucast v \<le> pc - cu_loadAddress ctx"
    "pc - cu_loadAddress ctx < ucast (cu_firstLevelNextFunctionOffset ctx')" by auto
  ultimately have "\<exists>k v. k + 1 < unat ?n \<and>
       index_function cf m (FIRCLSCompactUnwindGetIndexData ctx) k = Some v \<and>
       index_function cf m (FIRCLSCompactUnwindGetIndexData ctx) (k + 1) =
         Some (cu_firstLevelNextFunctionOffset ctx') \<and>
       ucast v \<le> pc - cu_loadAddress ctx \<and>
       pc - cu_loadAddress ctx < ucast (cu_firstLevelNextFunctionOffset ctx')"
    by (intro exI [of _ k] exI [of _ v]) simp
  with compressed_sound [OF second_level_sound [OF second]] show ?thesis by blast
qed

text \<open>C37: the last function of a second-level page is never found: for an address from the last
  entry's offset on, the lookup in the compressed page fails, although the code after the search
  has a branch that takes the end of the last function from the first-level index.\<close>

theorem last_function_not_found:
  assumes "page_entries cf m arr f (unat n)" and "n \<noteq> 0"
    and "load_u16 m (ptr + of_nat (cf_entryPageOffset cf)) = Some off" and "arr = ptr + ucast off"
    and "load_u16 m (ptr + of_nat (cf_entryCount cf)) = Some n"
    and "ptr = FIRCLSCompactUnwindGetSecondLevelData ctx" and "ptr \<noteq> 0"
    and "f (unat n - 1) \<le> FIRCLSCompactUnwindGetTargetAddress ctx pc"
  shows "FIRCLSCompactUnwindLookupSecondLevelCompressed cf m ctx pc = Some None"
proof -
  let ?a = "FIRCLSCompactUnwindGetTargetAddress ctx pc"
  have n: "0 < unat n" using assms(2) by (simp add: unat_gt_0)
  have "f 0 \<le> f (unat n - 1)" using page_entries_mono [OF assms(1), of 0 "unat n - 1"] n by simp
  then have "search_result f (unat n) ?a = None"
    using find_entry_beyond [OF assms(1) n assms(8)] assms(8) by (simp add: search_result_def not_less)
  with binary_search_loop [OF assms(1) n, of ?a]
  have "FIRCLSCompactUnwindBinarySearchSecondLevel cf m ?a n arr = Some None"
    by (simp add: FIRCLSCompactUnwindBinarySearchSecondLevel_def)
  with assms(3-7) show ?thesis
    by (simp add: FIRCLSCompactUnwindLookupSecondLevelCompressed_def Let_def)
qed

section \<open>On the sample\<close>

lemma binary_search_equivalent_witness:
  "FIRCLSCompactUnwindBinarySearchSecondLevel apple_format (mem_at 4096 sample_section) 0x20 2 4160 =
     Some (Some 0)"
  using binary_search_equivalent [of apple_format "mem_at 4096 sample_section" 4160 _ 2 "0x20"] sample_page
  by (simp add: find_entry_def)

lemma sample_search:
  "a \<noteq> 0 \<Longrightarrow> FIRCLSCompactUnwindBinarySearchSecondLevel apple_format (mem_at 4096 sample_section) a 2 4160 =
     Some (search_result (\<lambda>i. if i = 0 then 16 else 64) 2 a)"
  using binary_search_loop [OF sample_page, of a]
  by (simp add: FIRCLSCompactUnwindBinarySearchSecondLevel_def)

lemma sample_lookup:
  "FIRCLSCompactUnwindLookup apple_format (mem_at 4096 sample_section) sample_context 0x10020 =
     Some (Some (sample_found, \<lparr>cr_encoding = 0x04000000, cr_functionStart = 0x10010, cr_functionEnd = 0x10040\<rparr>))"
proof -
  have "FIRCLSCompactUnwindLookupFirstLevel apple_format (mem_at 4096 sample_section) sample_context 0x10020 =
      Some (Some sample_found)" by (rule sample_first_level) simp_all
  moreover have "FIRCLSCompactUnwindGetSecondLevelData sample_found = 4148"
    by (simp add: FIRCLSCompactUnwindGetSecondLevelData_def sample_found_def sample_context_def)
  ultimately show ?thesis
    using sample_words sample_search [of "0x20"]
    by (simp add: FIRCLSCompactUnwindLookup_def FIRCLSCompactUnwindLookupSecondLevel_def
        FIRCLSCompactUnwindGetSecondLevelPageKind_def FIRCLSCompactUnwindLookupSecondLevelCompressed_def
        FIRCLSCompactUnwindGetTargetAddress_def FIRCLSCompactUnwindGetIndexFunctionOffset_def
        entry_encoding_def word_at_def search_result_def find_entry_def Let_def apple_format_def
        sample_found_def sample_context_def)
qed

lemma compact_lookup_sound_witness:
  "\<exists>r. FIRCLSCompactUnwindLookup apple_format (mem_at 4096 sample_section) sample_context 0x10020 =
       Some (Some (sample_found, r)) \<and> cr_functionStart r \<le> 0x10020 \<and> 0x10020 < cr_functionEnd r"
  using sample_lookup compact_lookup_sound [OF sample_lookup] by blast

lemma last_function_not_found_witness:
  "FIRCLSCompactUnwindLookupSecondLevelCompressed apple_format (mem_at 4096 sample_section) sample_found
     0x10050 = Some None"
proof (rule last_function_not_found)
  show "page_entries apple_format (mem_at 4096 sample_section) 4160 (\<lambda>i. if i = 0 then 16 else 64)
      (unat (2 :: u16))" using sample_page by simp
  show "load_u16 (mem_at 4096 sample_section) (4148 + of_nat (cf_entryPageOffset apple_format)) = Some 12"
    and "load_u16 (mem_at 4096 sample_section) (4148 + of_nat (cf_entryCount apple_format)) = Some 2"
    using sample_words by (simp_all add: apple_format_def)
qed (simp_all add: FIRCLSCompactUnwindGetSecondLevelData_def FIRCLSCompactUnwindGetTargetAddress_def
    FIRCLSCompactUnwindGetIndexFunctionOffset_def sample_found_def sample_context_def)

end
