(* ===== verification/Unw_Frames.thy ===== *)
theory Unw_Frames
  imports Unw_Compact
begin

text \<open>
  Walking a thread's stack: the table of loaded images of \<open>Components/FIRCLSBinaryImage.m\<close>, the
  frame step with its strategies of \<open>Unwind/FIRCLSUnwind.c\<close>, the scan for an executable
  address, and the loop of \<open>FIRCLSProcessRecordThread\<close> (\<open>Components/FIRCLSProcess.c\<close>) that
  writes a thread's stack trace with a run of one repeated program counter folded away.

  The image table is changed by one thread at a time (the image queue), so its compare-and-swap
  succeeds. A frame step gives the Boolean result with the context it leaves; \<open>None\<close> is what C
  does not define. The compact unwind state inside the context is set up anew by every step that
  uses it and read by nothing else, so it is not a part of the model's context.
\<close>

section \<open>The image table\<close>

record FIRCLSBinaryImageRuntimeNode =
  bi_baseAddress :: u64
  bi_size :: u64
  bi_ehFrame :: u64
  bi_unwindInfo :: u64
  bi_crashInfo :: u64

definition CLS_BINARY_IMAGE_RUNTIME_NODE_COUNT :: nat where
  "CLS_BINARY_IMAGE_RUNTIME_NODE_COUNT = 1024"

definition node_zero :: FIRCLSBinaryImageRuntimeNode where
  "node_zero = \<lparr>bi_baseAddress = 0, bi_size = 0, bi_ehFrame = 0, bi_unwindInfo = 0, bi_crashInfo = 0\<rparr>"

text \<open>The table \<open>FIRCLSBinaryImageInit\<close> starts from.\<close>

definition FIRCLSBinaryImageInit :: "FIRCLSBinaryImageRuntimeNode list" where
  "FIRCLSBinaryImageInit = replicate CLS_BINARY_IMAGE_RUNTIME_NODE_COUNT node_zero"

text \<open>The loop over the slots: the first one whose base address is the one searched for.\<close>

primrec store_node_loop ::
  "u64 \<Rightarrow> FIRCLSBinaryImageRuntimeNode \<Rightarrow> FIRCLSBinaryImageRuntimeNode list \<Rightarrow>
     FIRCLSBinaryImageRuntimeNode list"
where
  "store_node_loop searchAddress details [] = []"
| "store_node_loop searchAddress details (node # nodes) =
     (if bi_baseAddress node \<noteq> searchAddress then node # store_node_loop searchAddress details nodes
      else details # nodes)"

definition FIRCLSBinaryImageStoreNode ::
  "bool \<Rightarrow> FIRCLSBinaryImageRuntimeNode \<Rightarrow> FIRCLSBinaryImageRuntimeNode list \<Rightarrow>
     FIRCLSBinaryImageRuntimeNode list"
where
  "FIRCLSBinaryImageStoreNode added details nodes =
     (if added then store_node_loop 0 details nodes
      else let searchAddress = bi_baseAddress details;
               details = node_zero\<lparr>bi_baseAddress := searchAddress\<rparr>
           in store_node_loop searchAddress details nodes)"

record unwind_env =
  ue_memory :: memory
  ue_format :: compact_format
  ue_initialized :: bool
  ue_nodes :: "FIRCLSBinaryImageRuntimeNode list"

definition node_covers :: "FIRCLSBinaryImageRuntimeNode \<Rightarrow> u64 \<Rightarrow> bool" where
  "node_covers node address \<longleftrightarrow>
     address \<ge> bi_baseAddress node \<and> address < bi_baseAddress node + bi_size node"

definition FIRCLSBinaryImageSafeFindImageForAddress ::
  "unwind_env \<Rightarrow> u64 \<Rightarrow> FIRCLSBinaryImageRuntimeNode option"
where
  "FIRCLSBinaryImageSafeFindImageForAddress env address =
     (if \<not> ue_initialized env then None
      else if address = 0 then None
      else find (\<lambda>node. node_covers node address) (ue_nodes env))"

definition FIRCLSBinaryImageSafeHasUnwindInfo :: "FIRCLSBinaryImageRuntimeNode \<Rightarrow> bool" where
  "FIRCLSBinaryImageSafeHasUnwindInfo node = FIRCLSIsValidPointer (bi_unwindInfo node)"

section \<open>The unwind context\<close>

record FIRCLSUnwindContext =
  uc_registers :: FIRCLSThreadContext
  uc_frameCount :: u32
  uc_lastFramePC :: u64
  uc_repeatCount :: u32

definition FIRCLSUnwindMaxFrames :: u32 where
  "FIRCLSUnwindMaxFrames = 100000"

definition FIRCLSUnwindInfiniteRecursionCountThreshold :: u32 where
  "FIRCLSUnwindInfiniteRecursionCountThreshold = 10"

definition FIRCLSUnwindInit :: "FIRCLSThreadContext \<Rightarrow> FIRCLSUnwindContext" where
  "FIRCLSUnwindInit threadContext =
     \<lparr>uc_registers = threadContext, uc_frameCount = 0, uc_lastFramePC = 0, uc_repeatCount = 0\<rparr>"

definition FIRCLSUnwindGetPC :: "FIRCLSUnwindContext \<Rightarrow> u64" where
  "FIRCLSUnwindGetPC ctx = FIRCLSThreadContextGetPC (uc_registers ctx)"

definition FIRCLSUnwindGetStackPointer :: "FIRCLSUnwindContext \<Rightarrow> u64" where
  "FIRCLSUnwindGetStackPointer ctx = FIRCLSThreadContextGetStackPointer (uc_registers ctx)"

definition FIRCLSUnwindGetFramePointer :: "FIRCLSUnwindContext \<Rightarrow> u64" where
  "FIRCLSUnwindGetFramePointer ctx = FIRCLSThreadContextGetFramePointer (uc_registers ctx)"

definition FIRCLSUnwindGetFrameRepeatCount :: "FIRCLSUnwindContext \<Rightarrow> u32" where
  "FIRCLSUnwindGetFrameRepeatCount ctx = uc_repeatCount ctx"

definition FIRCLSUnwindContextHasValidPCAndSP :: "FIRCLSUnwindContext \<Rightarrow> bool" where
  "FIRCLSUnwindContextHasValidPCAndSP ctx \<longleftrightarrow>
     FIRCLSIsValidPointer (FIRCLSUnwindGetPC ctx) \<and> FIRCLSIsValidPointer (FIRCLSUnwindGetStackPointer ctx)"

section \<open>Strategies\<close>

text \<open>\<open>Some None\<close> leaves the registers alone.\<close>

definition FIRCLSUnwindWithCompactUnwindInfo ::
  "unwind_env \<Rightarrow> FIRCLSUnwindContext \<Rightarrow> FIRCLSThreadContext option option"
where
  "FIRCLSUnwindWithCompactUnwindInfo env ctx =
     (case FIRCLSBinaryImageSafeFindImageForAddress env (FIRCLSUnwindGetPC ctx) of
        None \<Rightarrow> Some None
      | Some node \<Rightarrow>
          if \<not> FIRCLSBinaryImageSafeHasUnwindInfo node then Some None
          else case FIRCLSCompactUnwindInit (ue_format env) (ue_memory env) (bi_unwindInfo node)
                      (bi_ehFrame node) (bi_baseAddress node) of
                 None \<Rightarrow> Some None
               | Some cu \<Rightarrow>
                   FIRCLSCompactUnwindLookupAndCompute (ue_format env) (ue_memory env) cu (uc_registers ctx))"

definition FIRCLSUnwindNextFrameUsingAllStrategies ::
  "unwind_env \<Rightarrow> FIRCLSUnwindContext \<Rightarrow> (bool \<times> FIRCLSUnwindContext) option"
where
  "FIRCLSUnwindNextFrameUsingAllStrategies env ctx =
     (if uc_frameCount ctx \<ge> FIRCLSUnwindMaxFrames then Some (False, ctx)
      else let pc = (if uc_frameCount ctx > 0 then FIRCLSUnwindGetPC ctx - 1 else FIRCLSUnwindGetPC ctx);
               ctx = (if uc_frameCount ctx > 0
                      then ctx\<lparr>uc_registers := FIRCLSThreadContextSetPC (uc_registers ctx) pc\<rparr> else ctx)
           in if \<not> FIRCLSIsValidPointer pc then Some (False, ctx)
              else if uc_frameCount ctx = 0 then Some (True, ctx)
              else do { C \<leftarrow> FIRCLSUnwindWithCompactUnwindInfo env ctx;
                   case C of
                     Some r \<Rightarrow> Some (True, ctx\<lparr>uc_registers := r\<rparr>)
                   | None \<Rightarrow>
                       if FIRCLSUnwindGetFramePointer ctx = 0
                       then Some (True, ctx\<lparr>uc_registers := FIRCLSThreadContextSetPC (uc_registers ctx) 0\<rparr>)
                       else case FIRCLSUnwindWithFramePointer (ue_memory env) (uc_registers ctx)
                                   (uc_frameCount ctx = 1) of
                              Some r \<Rightarrow> Some (True, ctx\<lparr>uc_registers := r\<rparr>)
                            | None \<Rightarrow> Some (False, ctx) })"

text \<open>The bookkeeping of a frame that was reached.\<close>

definition track_frame :: "FIRCLSUnwindContext \<Rightarrow> u64 \<Rightarrow> FIRCLSUnwindContext" where
  "track_frame ctx pc =
     ctx\<lparr>uc_repeatCount := (if uc_lastFramePC ctx = pc then uc_repeatCount ctx + 1 else 0),
         uc_frameCount := uc_frameCount ctx + 1, uc_lastFramePC := pc\<rparr>"

definition FIRCLSUnwindNextFrame ::
  "unwind_env \<Rightarrow> FIRCLSUnwindContext \<Rightarrow> (bool \<times> FIRCLSUnwindContext) option"
where
  "FIRCLSUnwindNextFrame env ctx =
     (if \<not> FIRCLSUnwindContextHasValidPCAndSP ctx then Some (False, ctx)
      else do { (ok, ctx) \<leftarrow> FIRCLSUnwindNextFrameUsingAllStrategies env ctx;
                let pc = FIRCLSUnwindGetPC ctx;
                let sp = FIRCLSUnwindGetStackPointer ctx;
                if \<not> ok then Some (False, ctx)
                else if \<not> FIRCLSIsValidPointer pc then Some (False, ctx)
                else if \<not> FIRCLSIsValidPointer sp then Some (False, ctx)
                else Some (True, track_frame ctx pc) })"

section \<open>Scanning for an executable address\<close>

definition FIRCLSUnwindIsAddressExecutable :: "unwind_env \<Rightarrow> u64 \<Rightarrow> bool" where
  "FIRCLSUnwindIsAddressExecutable env address \<longleftrightarrow>
     FIRCLSBinaryImageSafeFindImageForAddress env address \<noteq> None"

text \<open>One round. The debug message is an argument of a function, so \<open>*(uintptr_t*)start\<close> is read
  before any check of \<open>start\<close>.\<close>

definition executable_round :: "unwind_env \<Rightarrow> u64 \<Rightarrow> u64 \<Rightarrow> (u64 + u64 option) option" where
  "executable_round env stop start =
     do { logged \<leftarrow> load_u64 (ue_memory env) start;
          let next = start + 8;
          let continue = (if next < stop then Inl next else Inr None);
          if FIRCLSIsValidPointer start
          then case read_pointer (ue_memory env) start of
                 None \<Rightarrow> Some (Inr None)
               | Some address \<Rightarrow>
                   if FIRCLSUnwindIsAddressExecutable env address then Some (Inr (Some address))
                   else Some continue
          else Some continue }"

definition FIRCLSUnwindFirstExecutableAddress :: "unwind_env \<Rightarrow> u64 \<Rightarrow> u64 \<Rightarrow> u64 option option" where
  "FIRCLSUnwindFirstExecutableAddress env start stop = c_loop (executable_round env stop) start"

section \<open>The stack trace of a thread\<close>

record stacktrace =
  tr_entries :: "u64 list"
  tr_repeatedPC :: u64
  tr_repeatedPCCount :: u32

text \<open>What the loop body does with a frame that was reached.\<close>

definition record_frame :: "FIRCLSUnwindContext \<Rightarrow> stacktrace \<Rightarrow> stacktrace" where
  "record_frame ctx t =
     (let pc = FIRCLSUnwindGetPC ctx; frameCount = FIRCLSUnwindGetFrameRepeatCount ctx
      in if tr_repeatedPC t = pc \<and> tr_repeatedPC t \<noteq> 0 then t\<lparr>tr_repeatedPCCount := frameCount\<rparr>
         else if frameCount \<ge> FIRCLSUnwindInfiniteRecursionCountThreshold \<and> tr_repeatedPC t = 0
         then t\<lparr>tr_repeatedPC := pc\<rparr>
         else t\<lparr>tr_entries := tr_entries t @ [pc]\<rparr>)"

definition record_round ::
  "unwind_env \<Rightarrow> FIRCLSUnwindContext \<times> stacktrace \<Rightarrow>
     (FIRCLSUnwindContext \<times> stacktrace + stacktrace) option"
where
  "record_round env s =
     (case s of (ctx, t) \<Rightarrow>
        do { (ok, ctx) \<leftarrow> FIRCLSUnwindNextFrame env ctx;
             Some (if ok then Inl (ctx, record_frame ctx t) else Inr t) })"

definition record_stacktrace :: "unwind_env \<Rightarrow> FIRCLSThreadContext \<Rightarrow> stacktrace option" where
  "record_stacktrace env context =
     c_loop (record_round env)
       (FIRCLSUnwindInit context, \<lparr>tr_entries = [], tr_repeatedPC = 0, tr_repeatedPCCount = 0\<rparr>)"

end
