(* ===== verification/Unw_Images.thy ===== *)
theory Unw_Images
  imports Unw_Frames Unw_Compact_Props
begin

text \<open>
  The table of loaded images as the unwinder sees it. Locale \<open>image_store\<close> is the contract a table
  of images has towards lookups: after any history of loads and unloads, in which no address is
  loaded to twice, a lookup finds the image loaded at that address and not unloaded since. The
  functions of \<open>Components/FIRCLSBinaryImage.m\<close> satisfy it for up to 1024 loads; the second part
  shows what they do when an image comes back to the address it had.
\<close>

section \<open>Histories of loads and unloads\<close>

type_synonym image_event = "bool \<times> FIRCLSBinaryImageRuntimeNode"

text \<open>The images loaded so far, and those still loaded, in the order of loading.\<close>

definition loads :: "image_event list \<Rightarrow> FIRCLSBinaryImageRuntimeNode list" where
  "loads es = map snd (filter fst es)"

definition step_live :: "FIRCLSBinaryImageRuntimeNode list \<Rightarrow> image_event \<Rightarrow> FIRCLSBinaryImageRuntimeNode list" where
  "step_live live e =
     (if fst e then live @ [snd e] else filter (\<lambda>d. bi_baseAddress d \<noteq> bi_baseAddress (snd e)) live)"

definition live_images :: "image_event list \<Rightarrow> FIRCLSBinaryImageRuntimeNode list" where
  "live_images es = foldl step_live [] es"

definition loaded_once :: "nat \<Rightarrow> image_event list \<Rightarrow> bool" where
  "loaded_once cap es \<longleftrightarrow> length (loads es) \<le> cap \<and>
     distinct (0 # map bi_baseAddress (loads es))"

lemma loads_simps [simp]:
  "loads [] = []" "loads (es @ [(True, d)]) = loads es @ [d]" "loads (es @ [(False, d)]) = loads es"
  by (simp_all add: loads_def)

lemma live_simps [simp]:
  "live_images [] = []" "live_images (es @ [(True, d)]) = live_images es @ [d]"
  "live_images (es @ [(False, d)]) = filter (\<lambda>x. bi_baseAddress x \<noteq> bi_baseAddress d) (live_images es)"
  by (simp_all add: live_images_def step_live_def)

section \<open>The contract\<close>

locale image_store =
  fixes cap :: nat and empty_table :: 't
    and store_image :: "bool \<Rightarrow> FIRCLSBinaryImageRuntimeNode \<Rightarrow> 't \<Rightarrow> 't"
    and lookup_image :: "'t \<Rightarrow> u64 \<Rightarrow> FIRCLSBinaryImageRuntimeNode option"
    and holds :: "'t \<Rightarrow> FIRCLSBinaryImageRuntimeNode list \<Rightarrow> FIRCLSBinaryImageRuntimeNode list \<Rightarrow> bool"
  assumes holds_empty: "holds empty_table [] []"
    and holds_load: "holds t ds live \<Longrightarrow> length ds < cap \<Longrightarrow>
      distinct (0 # map bi_baseAddress (ds @ [d])) \<Longrightarrow> holds (store_image True d t) (ds @ [d]) (live @ [d])"
    and holds_unload: "holds t ds live \<Longrightarrow> distinct (0 # map bi_baseAddress ds) \<Longrightarrow> holds (store_image False d t) ds
      (filter (\<lambda>x. bi_baseAddress x \<noteq> bi_baseAddress d) live)"
    and holds_lookup: "holds t ds live \<Longrightarrow> a \<noteq> 0 \<Longrightarrow> lookup_image t a = find (\<lambda>d. node_covers d a) live"
begin

lemma holds_history:
  assumes "loaded_once cap es"
  shows "holds (foldl (\<lambda>t e. store_image (fst e) (snd e) t) empty_table es) (loads es) (live_images es)"
  using assms
proof (induction es rule: rev_induct)
  case (snoc e es)
  obtain added d where e: "e = (added, d)" by (cases e)
  have once: "loaded_once cap es"
    using snoc.prems e by (cases added) (auto simp: loaded_once_def)
  note IH = snoc.IH [OF once]
  show ?case
  proof (cases added)
    case True
    with snoc.prems e have "length (loads es) < cap" "distinct (0 # map bi_baseAddress (loads es @ [d]))"
      by (simp_all add: loaded_once_def)
    with holds_load [OF IH] True e show ?thesis by simp
  next
    case False
    with holds_unload [OF IH] once e show ?thesis by (simp add: loaded_once_def)
  qed
qed (simp add: holds_empty)

lemma lookup_history:
  "loaded_once cap es \<Longrightarrow> a \<noteq> 0 \<Longrightarrow>
     lookup_image (foldl (\<lambda>t e. store_image (fst e) (snd e) t) empty_table es) a =
       find (\<lambda>d. node_covers d a) (live_images es)"
  by (rule holds_lookup [OF holds_history])

end

section \<open>The code's table\<close>

text \<open>The slots in use come first; a slot in use holds its image or, once unloaded, nothing but
  its address.\<close>

definition image_slots ::
  "FIRCLSBinaryImageRuntimeNode list \<Rightarrow> FIRCLSBinaryImageRuntimeNode list \<Rightarrow> FIRCLSBinaryImageRuntimeNode list \<Rightarrow> bool"
where
  "image_slots nodes ds live \<longleftrightarrow>
     (\<exists>slots. nodes = slots @ replicate (CLS_BINARY_IMAGE_RUNTIME_NODE_COUNT - length ds) node_zero \<and>
        map bi_baseAddress slots = map bi_baseAddress ds \<and>
        (\<forall>a. filter (\<lambda>d. node_covers d a) slots = filter (\<lambda>d. node_covers d a) live))"

lemma empty_covers: "bi_size d = 0 \<Longrightarrow> \<not> node_covers d a"
  by (auto simp: node_covers_def)

lemma node_zero_simps [simp]: "bi_size node_zero = 0" "bi_baseAddress node_zero = 0"
  by (simp_all add: node_zero_def)

lemma store_node_skip:
  "\<forall>d \<in> set xs. bi_baseAddress d \<noteq> b \<Longrightarrow> store_node_loop b new (xs @ ys) = xs @ store_node_loop b new ys"
  by (induction xs) simp_all

lemma store_node_zeros:
  "store_node_loop b new (replicate n node_zero) = 
     (if b = 0 \<and> 0 < n then new # replicate (n - 1) node_zero else replicate n node_zero)"
  by (induction n) auto

lemma find_filter: "find P xs = (case filter P xs of [] \<Rightarrow> None | x # _ \<Rightarrow> Some x)"
  by (induction xs) simp_all

lemma filter_find_cong: "filter P xs = filter P ys \<Longrightarrow> find P xs = find P ys"
  by (simp add: find_filter)

lemma filter_swap: "filter P (filter Q xs) = filter Q (filter P xs)"
  by (induction xs) simp_all

lemma image_slots_load:
  assumes "image_slots nodes ds live" and "length ds < CLS_BINARY_IMAGE_RUNTIME_NODE_COUNT"
    and "distinct (0 # map bi_baseAddress (ds @ [d]))"
  shows "image_slots (FIRCLSBinaryImageStoreNode True d nodes) (ds @ [d]) (live @ [d])"
proof -
  from assms(1) obtain slots where
    nodes: "nodes = slots @ replicate (CLS_BINARY_IMAGE_RUNTIME_NODE_COUNT - length ds) node_zero"
    and base: "map bi_baseAddress slots = map bi_baseAddress ds"
    and covers: "\<forall>a. filter (\<lambda>d. node_covers d a) slots = filter (\<lambda>d. node_covers d a) live"
    by (auto simp: image_slots_def)
  have "0 \<notin> set (map bi_baseAddress slots)" using assms(3) by (simp add: base)
  then have "\<forall>x \<in> set slots. bi_baseAddress x \<noteq> 0" by force
  then have "FIRCLSBinaryImageStoreNode True d nodes =
      (slots @ [d]) @ replicate (CLS_BINARY_IMAGE_RUNTIME_NODE_COUNT - length (ds @ [d])) node_zero"
    using assms(2) by (simp add: nodes FIRCLSBinaryImageStoreNode_def store_node_skip store_node_zeros)
  with base covers show ?thesis by (auto simp: image_slots_def)
qed

lemma image_slots_unload:
  assumes "image_slots nodes ds live" and "distinct (0 # map bi_baseAddress ds)"
  shows "image_slots (FIRCLSBinaryImageStoreNode False d nodes) ds
    (filter (\<lambda>x. bi_baseAddress x \<noteq> bi_baseAddress d) live)"
proof -
  let ?b = "bi_baseAddress d" and ?n = "CLS_BINARY_IMAGE_RUNTIME_NODE_COUNT - length ds"
  let ?new = "node_zero\<lparr>bi_baseAddress := ?b\<rparr>"
  from assms(1) obtain slots where nodes: "nodes = slots @ replicate ?n node_zero"
    and base: "map bi_baseAddress slots = map bi_baseAddress ds"
    and covers: "\<forall>a. filter (\<lambda>d. node_covers d a) slots = filter (\<lambda>d. node_covers d a) live"
    by (auto simp: image_slots_def)
  have others: "filter (\<lambda>d. node_covers d a) (filter (\<lambda>x. bi_baseAddress x \<noteq> ?b) live) =
      filter (\<lambda>d. node_covers d a) (filter (\<lambda>x. bi_baseAddress x \<noteq> ?b) slots)" for a
    by (simp only: filter_swap [of "\<lambda>d. node_covers d a"] covers)
  show ?thesis
  proof (cases "?b \<in> set (map bi_baseAddress slots)")
    case False
    then have rest: "\<forall>x \<in> set slots. bi_baseAddress x \<noteq> ?b" by (simp add: image_iff) metis
    then have keep: "filter (\<lambda>x. bi_baseAddress x \<noteq> ?b) slots = slots" by simp
    have zero: "node_zero\<lparr>bi_baseAddress := 0\<rparr> = node_zero" by (simp add: node_zero_def)
    have "0 < ?n \<Longrightarrow> node_zero # replicate (?n - 1) node_zero = replicate ?n node_zero"
      by (cases ?n) simp_all
    then have "FIRCLSBinaryImageStoreNode False d nodes = nodes"
      using rest by (simp add: zero nodes FIRCLSBinaryImageStoreNode_def Let_def store_node_skip store_node_zeros)
    with nodes base others keep show ?thesis by (auto simp: image_slots_def)
  next
    case True
    then obtain xs n ys where slots: "slots = xs @ n # ys" and n: "bi_baseAddress n = ?b"
      by (auto dest: split_list)
    have "distinct (map bi_baseAddress slots)" using assms(2) by (simp add: base)
    then have rest: "\<forall>x \<in> set xs \<union> set ys. bi_baseAddress x \<noteq> ?b"
      using n by (fastforce simp: slots image_iff)
    then have "filter (\<lambda>x. bi_baseAddress x \<noteq> ?b) slots = xs @ ys" using n by (simp add: slots)
    moreover have "FIRCLSBinaryImageStoreNode False d nodes = (xs @ ?new # ys) @ replicate ?n node_zero"
      using rest n by (simp add: nodes slots FIRCLSBinaryImageStoreNode_def Let_def store_node_skip)
    moreover have "map bi_baseAddress (xs @ ?new # ys) = map bi_baseAddress ds"
      using n base by (simp add: slots)
    moreover have "filter (\<lambda>d. node_covers d a) (xs @ ?new # ys) = filter (\<lambda>d. node_covers d a) (xs @ ys)" for a
      by (simp add: empty_covers)
    ultimately show ?thesis using others unfolding image_slots_def by metis
  qed
qed

lemma image_slots_lookup:
  assumes "image_slots nodes ds live"
  shows "find (\<lambda>d. node_covers d a) nodes = find (\<lambda>d. node_covers d a) live"
  using assms by (intro filter_find_cong) (auto simp: image_slots_def empty_covers)

definition find_image :: "FIRCLSBinaryImageRuntimeNode list \<Rightarrow> u64 \<Rightarrow> FIRCLSBinaryImageRuntimeNode option" where
  "find_image nodes address = (if address = 0 then None else find (\<lambda>node. node_covers node address) nodes)"

lemma safe_find_image:
  "ue_initialized env \<Longrightarrow> FIRCLSBinaryImageSafeFindImageForAddress env a = find_image (ue_nodes env) a"
  by (simp add: FIRCLSBinaryImageSafeFindImageForAddress_def find_image_def)

interpretation image_table: image_store CLS_BINARY_IMAGE_RUNTIME_NODE_COUNT FIRCLSBinaryImageInit
    FIRCLSBinaryImageStoreNode find_image image_slots
proof unfold_locales
  show "image_slots FIRCLSBinaryImageInit [] []"
    by (simp add: image_slots_def FIRCLSBinaryImageInit_def)
qed (auto simp: find_image_def image_slots_lookup intro: image_slots_load image_slots_unload)

section \<open>Properties\<close>

text \<open>The table after a history.\<close>

definition image_history :: "image_event list \<Rightarrow> FIRCLSBinaryImageRuntimeNode list" where
  "image_history es = foldl (\<lambda>nodes e. FIRCLSBinaryImageStoreNode (fst e) (snd e) nodes) FIRCLSBinaryImageInit es"

text \<open>C27: after any history of image loads and unloads in which at most 1024 images are loaded and
  none to an address used before, \<open>FIRCLSBinaryImageSafeFindImageForAddress\<close> finds exactly the
  image loaded around the address and not unloaded since, with its unwind sections.\<close>

theorem image_table_correct:
  assumes "loaded_once 1024 es" and "ue_initialized env" and "ue_nodes env = image_history es" and "a \<noteq> 0"
  shows "FIRCLSBinaryImageSafeFindImageForAddress env a = find (\<lambda>d. node_covers d a) (live_images es)"
  using image_table.lookup_history [of es a] assms
  by (simp add: safe_find_image image_history_def CLS_BINARY_IMAGE_RUNTIME_NODE_COUNT_def)

text \<open>Two images loaded, the first one unloaded.\<close>

definition sample_image :: "u64 \<Rightarrow> FIRCLSBinaryImageRuntimeNode" where
  "sample_image b = \<lparr>bi_baseAddress = b, bi_size = 4096, bi_ehFrame = 0, bi_unwindInfo = b + 2048, bi_crashInfo = 0\<rparr>"

definition sample_images :: "image_event list \<Rightarrow> unwind_env" where
  "sample_images es =
     \<lparr>ue_memory = mem_at 0 [], ue_format = apple_format, ue_initialized = True, ue_nodes = image_history es\<rparr>"

lemma image_table_correct_witness:
  "FIRCLSBinaryImageSafeFindImageForAddress
     (sample_images [(True, sample_image 0x10000), (True, sample_image 0x20000), (False, sample_image 0x10000)])
     0x20010 = Some (sample_image 0x20000)"
  using image_table_correct [of "[(True, sample_image 0x10000), (True, sample_image 0x20000),
      (False, sample_image 0x10000)]" "sample_images [(True, sample_image 0x10000),
      (True, sample_image 0x20000), (False, sample_image 0x10000)]" "0x20010"]
  by (simp add: sample_images_def sample_image_def loaded_once_def loads_def live_images_def step_live_def
      node_covers_def)

text \<open>C39: an image that is unloaded and loaded again where it was stays in the table for good. Its
  first slot keeps the address after the unload, so the load takes a second slot, and the next
  unload clears the first one again: the address is still looked up in the image that is gone.\<close>

theorem reloaded_image_stays:
  assumes "bi_baseAddress d \<noteq> 0" and "a \<noteq> 0" and "node_covers d a" and "ue_initialized env"
    and "ue_nodes env = image_history [(True, d), (False, d), (True, d), (False, d)]"
  shows "FIRCLSBinaryImageSafeFindImageForAddress env a = Some d"
proof -
  let ?gone = "node_zero\<lparr>bi_baseAddress := bi_baseAddress d\<rparr>"
  have start: "FIRCLSBinaryImageInit = node_zero # node_zero # replicate 1022 node_zero"
    by (simp add: FIRCLSBinaryImageInit_def CLS_BINARY_IMAGE_RUNTIME_NODE_COUNT_def flip: replicate_Suc)
  then have "ue_nodes env = ?gone # d # replicate 1022 node_zero"
    using assms(1) unfolding assms(5) image_history_def start
    by (simp add: FIRCLSBinaryImageStoreNode_def)
  moreover have "\<not> node_covers ?gone a" by (simp add: empty_covers)
  ultimately show ?thesis using assms(2-4) by (simp add: safe_find_image find_image_def)
qed

lemma reloaded_image_stays_witness:
  "FIRCLSBinaryImageSafeFindImageForAddress
     (sample_images [(True, sample_image 0x10000), (False, sample_image 0x10000),
        (True, sample_image 0x10000), (False, sample_image 0x10000)]) 0x10010 = Some (sample_image 0x10000)"
  by (rule reloaded_image_stays) (simp_all add: sample_images_def sample_image_def node_covers_def)

end
