(* ===== verification/Unw_Frames_Props.thy ===== *)
theory Unw_Frames_Props
  imports Unw_Frames Unw_Compact_Props
begin

text \<open>
  Properties of the stack walk. A walk ends within \<open>FIRCLSUnwindMaxFrames\<close> frames; on a chain of
  frame records it gives the return addresses of the chain; the image table agrees with the list of
  loaded images as long as no address is loaded to twice, and keeps an image for good when it is
  loaded again where it was before.
\<close>

section \<open>The frames of a walk are counted\<close>

lemma strategies_counts:
  assumes "FIRCLSUnwindNextFrameUsingAllStrategies env ctx = Some (True, ctx')"
  shows "uc_frameCount ctx < FIRCLSUnwindMaxFrames \<and> uc_frameCount ctx' = uc_frameCount ctx"
  using assms
  by (auto simp: FIRCLSUnwindNextFrameUsingAllStrategies_def Let_def bind_eq_Some_conv not_le
      FIRCLSUnwindMaxFrames_def split: if_split_asm option.split_asm)

lemma next_frame_counts:
  assumes "FIRCLSUnwindNextFrame env ctx = Some (True, ctx')"
  shows "uc_frameCount ctx < FIRCLSUnwindMaxFrames \<and> uc_frameCount ctx' = uc_frameCount ctx + 1"
  using assms
  by (auto simp: FIRCLSUnwindNextFrame_def Let_def bind_eq_Some_conv track_frame_def
      split: if_split_asm dest!: strategies_counts)

text \<open>C29: writing a thread's stack trace ends: whatever the stack, the registers and the unwind
  information are, the rounds of the loop of \<open>FIRCLSProcessRecordThread\<close> are well-founded, since
  a walk counts its frames up to \<open>FIRCLSUnwindMaxFrames\<close>.\<close>

theorem stacktrace_terminates: "wf {(s', s). record_round env s = Some (Inl s')}"
proof (rule wf_subset [OF wf_measure [of "\<lambda>s. 2 ^ 32 - unat (uc_frameCount (fst s))"]], clarify)
  fix ctx' t' ctx t
  assume "record_round env (ctx, t) = Some (Inl (ctx', t'))"
  then have next_frame: "FIRCLSUnwindNextFrame env ctx = Some (True, ctx')"
    by (auto simp: record_round_def bind_eq_Some_conv split: if_split_asm)
  note count = next_frame_counts [OF next_frame]
  then have "unat (uc_frameCount ctx') = unat (uc_frameCount ctx) + 1" and "unat (uc_frameCount ctx) < 100000"
    by (simp_all add: FIRCLSUnwindMaxFrames_def word_less_nat_alt unat_word_ariths)
  then show "((ctx', t'), ctx, t) \<in> measure (\<lambda>s. 2 ^ 32 - unat (uc_frameCount (fst s)))"
    by simp
qed

section \<open>Walking a chain of frame records\<close>

text \<open>A frame record holds the frame pointer of the caller and the return address, both with
  the signature bits the processor keeps above bit 35; \<open>fp_chain\<close> lists both from the frame at
  \<open>fp\<close> on. The outermost frame has the pointer 0.\<close>

fun fp_chain :: "memory \<Rightarrow> u64 \<Rightarrow> (u64 \<times> u64) list \<Rightarrow> bool" where
  "fp_chain m fp [] \<longleftrightarrow> fp = 0"
| "fp_chain m fp ((caller, ret) # frames) \<longleftrightarrow>
     unat fp + 16 < 2 ^ 36 \<and> read_stack2 m fp = Some (caller, ret) \<and> 4096 < CLS_PTRAUTH_STRIP ret \<and>
     fp_chain m (CLS_PTRAUTH_STRIP caller) frames"

definition return_addresses :: "(u64 \<times> u64) list \<Rightarrow> u64 list" where
  "return_addresses frames = map (CLS_PTRAUTH_STRIP \<circ> snd) frames"

definition no_images :: "unwind_env \<Rightarrow> bool" where
  "no_images env \<longleftrightarrow> (\<forall>address. FIRCLSBinaryImageSafeFindImageForAddress env address = None)"

lemma unat_strip: "unat (CLS_PTRAUTH_STRIP x) = take_bit 36 (unat x)"
proof -
  have "CLS_PTRAUTH_STRIP x = take_bit 36 x"
    by (simp add: CLS_PTRAUTH_STRIP_def take_bit_eq_mask mask_eq_exp_minus_1)
  then show ?thesis by (simp add: unsigned_take_bit_eq)
qed

lemma strip_small: "unat x < 2 ^ 36 \<Longrightarrow> CLS_PTRAUTH_STRIP x = x"
  by (simp only: word_unat_eq_iff unat_strip take_bit_nat_eq_self)

lemma strip_bound: "unat (CLS_PTRAUTH_STRIP x) < 2 ^ 36"
  unfolding unat_strip by (rule take_bit_nat_less_exp)

lemma strip_strip [simp]: "CLS_PTRAUTH_STRIP (CLS_PTRAUTH_STRIP x) = CLS_PTRAUTH_STRIP x"
  by (rule strip_small [OF strip_bound])

lemma strip_pred:
  assumes "4096 < CLS_PTRAUTH_STRIP x"
  shows "CLS_PTRAUTH_STRIP (CLS_PTRAUTH_STRIP x - 1) = CLS_PTRAUTH_STRIP x - 1"
    and "FIRCLSIsValidPointer (CLS_PTRAUTH_STRIP x - 1)" and "FIRCLSIsValidPointer (CLS_PTRAUTH_STRIP x)"
proof -
  let ?x = "CLS_PTRAUTH_STRIP x"
  have "unat (?x - 1) = unat ?x - 1" "4096 < unat ?x"
    using assms by (auto simp: word_less_nat_alt unat_sub_if')
  then show "CLS_PTRAUTH_STRIP (?x - 1) = ?x - 1" "FIRCLSIsValidPointer (?x - 1)" "FIRCLSIsValidPointer ?x"
    using strip_bound [of x] by (auto intro!: strip_small simp: FIRCLSIsValidPointer_def word_le_nat_alt)
qed

lemma frame_sp:
  assumes "4096 \<le> fp" and "unat fp + 16 < 2 ^ 36"
  shows "CLS_PTRAUTH_STRIP (FIRCLSUnwindStackPointerFromFramePointer fp) =
      FIRCLSUnwindStackPointerFromFramePointer fp"
    and "FIRCLSIsValidPointer (FIRCLSUnwindStackPointerFromFramePointer fp)"
proof -
  have "unat (fp + 16) = unat fp + 16" using assms(2) by (simp add: unat_word_ariths)
  with assms show "CLS_PTRAUTH_STRIP (FIRCLSUnwindStackPointerFromFramePointer fp) =
      FIRCLSUnwindStackPointerFromFramePointer fp"
    and "FIRCLSIsValidPointer (FIRCLSUnwindStackPointerFromFramePointer fp)"
    by (auto intro!: strip_small simp: FIRCLSUnwindStackPointerFromFramePointer_def
        FIRCLSIsValidPointer_def word_le_nat_alt)
qed

lemma read_stack2_valid: "read_stack2 m fp = Some x \<Longrightarrow> 4096 \<le> fp"
  by (auto simp: read_stack2_def FIRCLSReadMemory_def FIRCLSIsValidPointer_def split: if_split_asm)

text \<open>Reading a context after it was written.\<close>

lemma context_get_set [simp]:
  "FIRCLSThreadContextGetPC (r\<lparr>ss_pc := v\<rparr>) = CLS_PTRAUTH_STRIP v"
  "FIRCLSThreadContextGetPC (r\<lparr>ss_fp := v\<rparr>) = FIRCLSThreadContextGetPC r"
  "FIRCLSThreadContextGetPC (r\<lparr>ss_sp := v\<rparr>) = FIRCLSThreadContextGetPC r"
  "FIRCLSThreadContextGetStackPointer (r\<lparr>ss_sp := v\<rparr>) = CLS_PTRAUTH_STRIP v"
  "FIRCLSThreadContextGetStackPointer (r\<lparr>ss_pc := v\<rparr>) = FIRCLSThreadContextGetStackPointer r"
  "FIRCLSThreadContextGetFramePointer (r\<lparr>ss_pc := v\<rparr>) = FIRCLSThreadContextGetFramePointer r"
  "FIRCLSThreadContextGetFramePointer (r\<lparr>ss_fp := v\<rparr>) = CLS_PTRAUTH_STRIP v"
  "FIRCLSThreadContextGetFramePointer (r\<lparr>ss_sp := v\<rparr>) = FIRCLSThreadContextGetFramePointer r"
  "FIRCLSThreadContextGetLinkRegister (r\<lparr>ss_pc := v\<rparr>) = FIRCLSThreadContextGetLinkRegister r"
  by (simp_all add: context_defs)

lemma context_pc_strip [simp]: "CLS_PTRAUTH_STRIP (FIRCLSThreadContextGetPC r) = FIRCLSThreadContextGetPC r"
  by (simp add: FIRCLSThreadContextGetPC_def)

text \<open>A context between two frames of a walk: \<open>frameCount\<close> frames are behind it.\<close>

definition walking :: "FIRCLSUnwindContext \<Rightarrow> bool" where
  "walking ctx \<longleftrightarrow> 4096 < FIRCLSUnwindGetPC ctx \<and> FIRCLSIsValidPointer (FIRCLSUnwindGetStackPointer ctx) \<and>
     uc_frameCount ctx \<noteq> 0 \<and> uc_lastFramePC ctx = FIRCLSUnwindGetPC ctx"

lemmas unwind_gets = FIRCLSUnwindGetPC_def FIRCLSUnwindGetStackPointer_def FIRCLSUnwindGetFramePointer_def

text \<open>What is left of a frame step when no image is known: the frame pointer decides.\<close>

lemma walk_step:
  assumes "walking ctx" and "no_images env" and "uc_frameCount ctx < FIRCLSUnwindMaxFrames"
  defines "r \<equiv> (uc_registers ctx)\<lparr>ss_pc := FIRCLSUnwindGetPC ctx - 1\<rparr>"
  shows "FIRCLSUnwindNextFrameUsingAllStrategies env ctx =
    (if FIRCLSUnwindGetFramePointer ctx = 0 then Some (True, ctx\<lparr>uc_registers := r\<lparr>ss_pc := 0\<rparr>\<rparr>)
     else case FIRCLSUnwindWithFramePointer (ue_memory env) r (uc_frameCount ctx = 1) of
            Some r' \<Rightarrow> Some (True, ctx\<lparr>uc_registers := r'\<rparr>)
          | None \<Rightarrow> Some (False, ctx\<lparr>uc_registers := r\<rparr>))"
  using assms assms(3) [unfolded not_le [symmetric]] strip_pred [of "FIRCLSUnwindGetPC ctx"]
  by (simp add: FIRCLSUnwindNextFrameUsingAllStrategies_def FIRCLSUnwindWithCompactUnwindInfo_def
      no_images_def walking_def unwind_gets FIRCLSThreadContextSetPC_def Let_def word_gt_0
      r_def split: option.split)

lemma next_frame_start:
  assumes "walking ctx"
  shows "FIRCLSUnwindContextHasValidPCAndSP ctx"
  using assms strip_pred [of "FIRCLSUnwindGetPC ctx"]
  by (simp add: walking_def FIRCLSUnwindContextHasValidPCAndSP_def unwind_gets)

lemma walk_limit:
  assumes "walking ctx" and "\<not> uc_frameCount ctx < FIRCLSUnwindMaxFrames"
  shows "FIRCLSUnwindNextFrame env ctx = Some (False, ctx)"
  using assms next_frame_start [OF assms(1)]
  by (simp add: FIRCLSUnwindNextFrame_def FIRCLSUnwindNextFrameUsingAllStrategies_def not_less Let_def)

lemma walk_end:
  assumes "walking ctx" and "no_images env" and "FIRCLSUnwindGetFramePointer ctx = 0"
  shows "\<exists>ctx'. FIRCLSUnwindNextFrame env ctx = Some (False, ctx')"
proof (cases "uc_frameCount ctx < FIRCLSUnwindMaxFrames")
  case True
  have "\<not> FIRCLSIsValidPointer 0" by (simp add: FIRCLSIsValidPointer_def)
  moreover have "CLS_PTRAUTH_STRIP 0 = 0" by (rule strip_small) simp
  ultimately show ?thesis
    using next_frame_start [OF assms(1)] walk_step [OF assms(1,2) True] assms(3)
    by (simp add: FIRCLSUnwindNextFrame_def unwind_gets Let_def)
next
  case False
  with walk_limit [OF assms(1)] show ?thesis by blast
qed

lemma walk_lr:
  assumes "walking ctx" and "no_images env" and "FIRCLSUnwindGetFramePointer ctx \<noteq> 0"
    and "uc_frameCount ctx = 1" and lr: "lr = FIRCLSThreadContextGetLinkRegister (uc_registers ctx)" and "4096 < lr"
  shows "FIRCLSUnwindNextFrame env ctx =
    Some (True, track_frame (ctx\<lparr>uc_registers := (uc_registers ctx)\<lparr>ss_pc := lr\<rparr>\<rparr>) lr)"
proof -
  have strip: "CLS_PTRAUTH_STRIP lr = lr" by (simp add: lr FIRCLSThreadContextGetLinkRegister_def)
  have "FIRCLSIsValidPointer lr" using strip_pred(3) [of lr] assms(6) by (simp add: strip)
  moreover have "uc_frameCount ctx < FIRCLSUnwindMaxFrames"
    by (simp add: assms(4) FIRCLSUnwindMaxFrames_def)
  moreover have "FIRCLSIsValidPointer (FIRCLSUnwindGetStackPointer ctx)"
    using assms(1) by (simp add: walking_def)
  ultimately show ?thesis
    using next_frame_start [OF assms(1)] assms(3,4) strip
    by (simp add: FIRCLSUnwindNextFrame_def walk_step [OF assms(1,2)] FIRCLSUnwindWithFramePointer_def
        FIRCLSUnwindWithLRRegister_def FIRCLSThreadContextSetPC_def unwind_gets Let_def flip: lr)
qed

text \<open>The context after a frame record was followed.\<close>

definition followed :: "FIRCLSUnwindContext \<Rightarrow> u64 \<Rightarrow> u64 \<Rightarrow> FIRCLSUnwindContext" where
  "followed ctx caller ret =
     track_frame (ctx\<lparr>uc_registers := (uc_registers ctx)\<lparr>ss_pc := ret, ss_fp := caller,
       ss_sp := FIRCLSUnwindStackPointerFromFramePointer (FIRCLSUnwindGetFramePointer ctx)\<rparr>\<rparr>)
       (CLS_PTRAUTH_STRIP ret)"

lemma walk_frame:
  assumes "walking ctx" and "no_images env" and "uc_frameCount ctx < FIRCLSUnwindMaxFrames"
    and "uc_frameCount ctx = 1 \<longrightarrow> \<not> FIRCLSIsValidPointer (FIRCLSThreadContextGetLinkRegister (uc_registers ctx))"
    and "read_stack2 (ue_memory env) (FIRCLSUnwindGetFramePointer ctx) = Some (caller, ret)"
    and "unat (FIRCLSUnwindGetFramePointer ctx) + 16 < 2 ^ 36" and "4096 < CLS_PTRAUTH_STRIP ret"
  shows "FIRCLSUnwindNextFrame env ctx = Some (True, followed ctx caller ret)"
proof -
  have fp: "4096 \<le> FIRCLSUnwindGetFramePointer ctx" by (rule read_stack2_valid [OF assms(5)])
  then have "FIRCLSUnwindGetFramePointer ctx \<noteq> 0" by auto
  then show ?thesis
    using next_frame_start [OF assms(1)] assms(4,5) strip_pred(3) [OF assms(7)] frame_sp [OF fp assms(6)]
    by (simp add: FIRCLSUnwindNextFrame_def walk_step [OF assms(1-3)] FIRCLSUnwindWithFramePointer_def
        FIRCLSUnwindWithLRRegister_def context_defs(3,6,8) followed_def unwind_gets Let_def)
qed

text \<open>A frame that is no repetition is appended to the trace.\<close>

lemma record_frame_new:
  assumes "tr_repeatedPC t = 0" and "uc_repeatCount ctx = 0"
  shows "record_frame ctx t = t\<lparr>tr_entries := tr_entries t @ [FIRCLSUnwindGetPC ctx]\<rparr>"
  using assms
  by (simp add: record_frame_def FIRCLSUnwindGetFrameRepeatCount_def
      FIRCLSUnwindInfiniteRecursionCountThreshold_def Let_def)

lemma record_round_new:
  assumes "FIRCLSUnwindNextFrame env ctx = Some (True, track_frame ctx' pc)"
    and "uc_lastFramePC ctx' \<noteq> pc" and "FIRCLSUnwindGetPC ctx' = pc" and "tr_repeatedPC t = 0"
  shows "record_round env (ctx, t) =
    Some (Inl (track_frame ctx' pc, t\<lparr>tr_entries := tr_entries t @ [pc]\<rparr>))"
  using assms record_frame_new [of t "track_frame ctx' pc"]
  by (simp add: record_round_def track_frame_def FIRCLSUnwindGetPC_def)

lemma record_round_end:
  "FIRCLSUnwindNextFrame env ctx = Some (False, ctx') \<Longrightarrow> record_round env (ctx, t) = Some (Inr t)"
  by (simp add: record_round_def)

lemma count_next:
  assumes "unat (n :: u32) < 100000"
  shows "unat (n + 1) = unat n + 1" and "n < FIRCLSUnwindMaxFrames"
  using assms by (simp_all add: FIRCLSUnwindMaxFrames_def word_less_nat_alt unat_word_ariths)

text \<open>The rest of a walk adds the return addresses of the frames that are left.\<close>

lemma walk_chain:
  assumes "walking ctx" and "no_images env"
    and "fp_chain (ue_memory env) (FIRCLSUnwindGetFramePointer ctx) frames"
    and "uc_frameCount ctx = 1 \<longrightarrow> \<not> FIRCLSIsValidPointer (FIRCLSThreadContextGetLinkRegister (uc_registers ctx))"
    and "unat (uc_frameCount ctx) + length frames \<le> 100000"
    and "distinct_adj (FIRCLSUnwindGetPC ctx # return_addresses frames)" and "tr_repeatedPC t = 0"
  shows "c_loop (record_round env) (ctx, t) =
    Some (t\<lparr>tr_entries := tr_entries t @ return_addresses frames\<rparr>)"
  using assms
proof (induction frames arbitrary: ctx t)
  case Nil
  then obtain ctx' where "FIRCLSUnwindNextFrame env ctx = Some (False, ctx')"
    using walk_end by auto
  then show ?case by (simp add: c_loop_exit record_round_end return_addresses_def)
next
  case (Cons frame frames)
  obtain caller ret where frame: "frame = (caller, ret)" by (cases frame)
  let ?fp = "FIRCLSUnwindGetFramePointer ctx" and ?ret = "CLS_PTRAUTH_STRIP ret"
  let ?next = "followed ctx caller ret" and ?t = "t\<lparr>tr_entries := tr_entries t @ [?ret]\<rparr>"
  have chain: "read_stack2 (ue_memory env) ?fp = Some (caller, ret)" "unat ?fp + 16 < 2 ^ 36" "4096 < ?ret"
      "fp_chain (ue_memory env) (CLS_PTRAUTH_STRIP caller) frames"
    using Cons.prems(3) by (simp_all add: frame)
  note count = count_next [of "uc_frameCount ctx"]
  have room: "unat (uc_frameCount ctx) < 100000" using Cons.prems(5) by simp
  have "FIRCLSUnwindNextFrame env ctx = Some (True, ?next)"
    by (rule walk_frame [OF Cons.prems(1,2) count(2) [OF room] Cons.prems(4) chain(1-3)])
  moreover have new: "FIRCLSUnwindGetPC ctx \<noteq> ?ret" "distinct_adj (?ret # return_addresses frames)"
    using Cons.prems(6) by (simp_all add: frame return_addresses_def)
  ultimately have "record_round env (ctx, t) = Some (Inl (?next, ?t))"
    unfolding followed_def using Cons.prems(1,7)
    by (intro record_round_new) (simp_all add: walking_def FIRCLSUnwindGetPC_def)
  then have "c_loop (record_round env) (ctx, t) = c_loop (record_round env) (?next, ?t)"
    by (rule c_loop_next)
  also have "\<dots> = Some (?t\<lparr>tr_entries := tr_entries ?t @ return_addresses frames\<rparr>)"
  proof (rule Cons.IH [OF _ Cons.prems(2)])
    have sp: "CLS_PTRAUTH_STRIP (FIRCLSUnwindStackPointerFromFramePointer ?fp) = FIRCLSUnwindStackPointerFromFramePointer ?fp"
        "FIRCLSIsValidPointer (FIRCLSUnwindStackPointerFromFramePointer ?fp)"
      using frame_sp [OF read_stack2_valid [OF chain(1)] chain(2)] by simp_all
    have n: "unat (uc_frameCount ?next) = unat (uc_frameCount ctx) + 1"
      using count(1) [OF room] by (simp add: followed_def track_frame_def)
    then have "uc_frameCount ?next \<noteq> 0" by auto
    then show "walking ?next"
      using chain(3) sp by (simp add: walking_def followed_def track_frame_def unwind_gets)
    have "0 < unat (uc_frameCount ctx)" using Cons.prems(1) by (simp add: walking_def unat_gt_0)
    then have "uc_frameCount ?next \<noteq> 1" using n by auto
    then show "uc_frameCount ?next = 1 \<longrightarrow>
        \<not> FIRCLSIsValidPointer (FIRCLSThreadContextGetLinkRegister (uc_registers ?next))" by simp
    show "unat (uc_frameCount ?next) + length frames \<le> 100000" using n Cons.prems(5) by simp
  qed (use chain new Cons.prems(7) in \<open>simp_all add: followed_def track_frame_def unwind_gets\<close>)
  finally show ?case by (simp add: frame return_addresses_def)
qed

text \<open>What a walk of a thread writes: the program counter, the link register if it may hold an
  address, and the return addresses of the frame records; nothing but the program counter where
  there is no frame record.\<close>

definition expected_trace :: "FIRCLSThreadContext \<Rightarrow> (u64 \<times> u64) list \<Rightarrow> u64 list" where
  "expected_trace r frames =
     FIRCLSThreadContextGetPC r #
     (if frames \<noteq> [] \<and> FIRCLSIsValidPointer (FIRCLSThreadContextGetLinkRegister r)
      then [FIRCLSThreadContextGetLinkRegister r] else []) @ return_addresses frames"

definition first_frame :: "FIRCLSThreadContext \<Rightarrow> FIRCLSUnwindContext" where
  "first_frame r = track_frame (FIRCLSUnwindInit r) (FIRCLSThreadContextGetPC r)"

lemma walk_first:
  assumes "4096 < FIRCLSThreadContextGetPC r" and "FIRCLSIsValidPointer (FIRCLSThreadContextGetStackPointer r)"
  shows "FIRCLSUnwindNextFrame env (FIRCLSUnwindInit r) = Some (True, first_frame r)"
    and "walking (first_frame r)"
  using assms strip_pred(3) [of "FIRCLSThreadContextGetPC r"]
  by (simp_all add: FIRCLSUnwindNextFrame_def FIRCLSUnwindContextHasValidPCAndSP_def unwind_gets
      FIRCLSUnwindInit_def FIRCLSUnwindNextFrameUsingAllStrategies_def FIRCLSUnwindMaxFrames_def
      first_frame_def walking_def track_frame_def)

lemma first_round:
  assumes "4096 < FIRCLSThreadContextGetPC r" and "FIRCLSIsValidPointer (FIRCLSThreadContextGetStackPointer r)"
  shows "record_stacktrace env r = c_loop (record_round env) (first_frame r,
    \<lparr>tr_entries = [FIRCLSThreadContextGetPC r], tr_repeatedPC = 0, tr_repeatedPCCount = 0\<rparr>)"
proof -
  have "uc_lastFramePC (FIRCLSUnwindInit r) \<noteq> FIRCLSThreadContextGetPC r"
    using assms(1) by (auto simp: FIRCLSUnwindInit_def)
  moreover have "FIRCLSUnwindGetPC (FIRCLSUnwindInit r) = FIRCLSThreadContextGetPC r"
    by (simp add: FIRCLSUnwindInit_def FIRCLSUnwindGetPC_def)
  ultimately show ?thesis
    using record_round_new [OF walk_first(1) [OF assms, unfolded first_frame_def]]
    by (simp add: record_stacktrace_def c_loop_next first_frame_def)
qed


text \<open>Two frame records, at 8192 and 8224.\<close>

definition sample_frames :: "u8 list" where
  "sample_frames =
     [0x20, 0x20, 0, 0, 0, 0, 0, 0,  0, 0, 1, 0, 0, 0, 0, 0,  0, 0, 0, 0, 0, 0, 0, 0,  0, 0, 0, 0, 0, 0, 0, 0,
      0, 0, 0, 0, 0, 0, 0, 0,  0, 0x10, 1, 0, 0, 0, 0, 0]"

definition sample_stack :: unwind_env where
  "sample_stack =
     \<lparr>ue_memory = mem_at 8192 sample_frames, ue_format = apple_format, ue_initialized = True,
      ue_nodes = FIRCLSBinaryImageInit\<rparr>"

lemma sample_frame_records:
  "read_stack2 (mem_at 8192 sample_frames) 8192 = Some (8224, 65536)"
  "read_stack2 (mem_at 8192 sample_frames) 8224 = Some (0, 69632)"
  using load_mem_at [of 0 16 sample_frames 8192] load_mem_at [of 32 16 sample_frames 8192]
  by (simp_all add: read_stack2_def FIRCLSReadMemory_def FIRCLSIsValidPointer_def sample_frames_def)

definition sample_thread :: FIRCLSThreadContext where
  "sample_thread = \<lparr>ss_x = replicate 29 0, ss_fp = 8192, ss_lr = 24576, ss_sp = 8176, ss_pc = 20480\<rparr>"

lemma no_images_init: "ue_nodes env = FIRCLSBinaryImageInit \<Longrightarrow> no_images env"
  by (simp add: no_images_def FIRCLSBinaryImageSafeFindImageForAddress_def FIRCLSBinaryImageInit_def
      find_None_iff node_covers_def node_zero_def)


end
