(* ===== verification/Ldb_Coding.thy ===== *)
theory Ldb_Coding
  imports Pb_Wire
begin

text \<open>
  \<open>leveldb-library/util/coding.cc\<close> and \<open>coding.h\<close>: fixed-width numbers, varints and
  length-prefixed strings. A \<open>Slice\<close> is the list of the bytes it refers to, and a \<open>std::string\<close>
  the list of its bytes; a pair \<open>(p, limit)\<close> of pointers is the list of the bytes between them.
  The writers \<open>Put...\<close> return the extended string. A reader of a \<open>Slice*\<close> returns its result
  with the slice it leaves, a reader of pointers returns the rest after the value; \<open>None\<close> is
  \<open>false\<close> or \<open>nullptr\<close>. \<open>DecodeFixed32\<close> and \<open>DecodeFixed64\<close> do not check bounds: \<open>None\<close> is
  a read past the end, which C++ leaves undefined.
\<close>

type_synonym slice = "u8 list"

section \<open>Definitions\<close>

definition EncodeFixed32 :: "u32 \<Rightarrow> slice" where
  "EncodeFixed32 v = [ucast v, ucast (drop_bit 8 v), ucast (drop_bit 16 v), ucast (drop_bit 24 v)]"

definition EncodeFixed64 :: "u64 \<Rightarrow> slice" where
  "EncodeFixed64 v =
     [ucast v, ucast (drop_bit 8 v), ucast (drop_bit 16 v), ucast (drop_bit 24 v),
      ucast (drop_bit 32 v), ucast (drop_bit 40 v), ucast (drop_bit 48 v), ucast (drop_bit 56 v)]"

definition DecodeFixed32 :: "slice \<Rightarrow> u32 option" where
  "DecodeFixed32 p =
     (if length p < 4 then None
      else Some (ucast (p ! 0) OR push_bit 8 (ucast (p ! 1)) OR push_bit 16 (ucast (p ! 2)) OR
                 push_bit 24 (ucast (p ! 3))))"

definition DecodeFixed64 :: "slice \<Rightarrow> u64 option" where
  "DecodeFixed64 p =
     (if length p < 8 then None
      else Some (ucast (p ! 0) OR push_bit 8 (ucast (p ! 1)) OR push_bit 16 (ucast (p ! 2)) OR
                 push_bit 24 (ucast (p ! 3)) OR push_bit 32 (ucast (p ! 4)) OR push_bit 40 (ucast (p ! 5)) OR
                 push_bit 48 (ucast (p ! 6)) OR push_bit 56 (ucast (p ! 7))))"

definition PutFixed32 :: "slice \<Rightarrow> u32 \<Rightarrow> slice" where
  "PutFixed32 dst v = dst @ EncodeFixed32 v"

definition PutFixed64 :: "slice \<Rightarrow> u64 \<Rightarrow> slice" where
  "PutFixed64 dst v = dst @ EncodeFixed64 v"

definition EncodeVarint32 :: "u32 \<Rightarrow> slice" where
  "EncodeVarint32 v =
     (let B = 128 in
      if v < push_bit 7 1 then [ucast v]
      else if v < push_bit 14 1 then [ucast (v OR B), ucast (drop_bit 7 v)]
      else if v < push_bit 21 1 then [ucast (v OR B), ucast (drop_bit 7 v OR B), ucast (drop_bit 14 v)]
      else if v < push_bit 28 1
      then [ucast (v OR B), ucast (drop_bit 7 v OR B), ucast (drop_bit 14 v OR B), ucast (drop_bit 21 v)]
      else [ucast (v OR B), ucast (drop_bit 7 v OR B), ucast (drop_bit 14 v OR B), ucast (drop_bit 21 v OR B),
            ucast (drop_bit 28 v)])"

function EncodeVarint64 :: "u64 \<Rightarrow> slice" where
  "EncodeVarint64 v =
     (let B = 128 in if v \<ge> B then ucast (v OR B) # EncodeVarint64 (drop_bit 7 v) else [ucast v])"
  by auto
termination
proof (relation "measure unat")
  fix v B :: u64
  assume "B = 128" and "B \<le> v"
  then have "128 \<le> unat v" by (simp add: word_le_nat_alt)
  then show "(drop_bit 7 v, v) \<in> measure unat" by (simp add: unat_drop_bit_7)
qed simp

definition PutVarint32 :: "slice \<Rightarrow> u32 \<Rightarrow> slice" where
  "PutVarint32 dst v = dst @ EncodeVarint32 v"

definition PutVarint64 :: "slice \<Rightarrow> u64 \<Rightarrow> slice" where
  "PutVarint64 dst v = dst @ EncodeVarint64 v"

text \<open>The size is converted to 32 bits.\<close>

definition PutLengthPrefixedSlice :: "slice \<Rightarrow> slice \<Rightarrow> slice" where
  "PutLengthPrefixedSlice dst val = PutVarint32 dst (of_nat (length val)) @ val"

function VarintLength_loop :: "u64 \<Rightarrow> nat \<Rightarrow> nat" where
  "VarintLength_loop v len = (if v \<ge> 128 then VarintLength_loop (drop_bit 7 v) (len + 1) else len)"
  by auto
termination
proof (relation "measure (unat \<circ> fst)")
  fix v :: u64 and len :: nat
  assume "128 \<le> v"
  then have "128 \<le> unat v" by (simp add: word_le_nat_alt)
  then show "((drop_bit 7 v, len + 1), v, len) \<in> measure (unat \<circ> fst)" by (simp add: unat_drop_bit_7)
qed simp

definition VarintLength :: "u64 \<Rightarrow> nat" where
  "VarintLength v = VarintLength_loop v 1"

primrec varint32_loop :: "slice \<Rightarrow> nat \<Rightarrow> u32 \<Rightarrow> (u32 \<times> slice) option" where
  "varint32_loop [] shift result = None"
| "varint32_loop (b # p) shift result =
     (if shift \<le> 28 then
        let byte = ucast b :: u32
        in if byte AND 128 \<noteq> 0 then varint32_loop p (shift + 7) (result OR push_bit shift (byte AND 127))
           else Some (result OR push_bit shift byte, p)
      else None)"

definition GetVarint32PtrFallback :: "slice \<Rightarrow> (u32 \<times> slice) option" where
  "GetVarint32PtrFallback p = varint32_loop p 0 0"

definition GetVarint32Ptr :: "slice \<Rightarrow> (u32 \<times> slice) option" where
  "GetVarint32Ptr p =
     (if p \<noteq> [] \<and> (ucast (hd p) :: u32) AND 128 = 0 then Some (ucast (hd p), tl p)
      else GetVarint32PtrFallback p)"

primrec varint64_loop :: "slice \<Rightarrow> nat \<Rightarrow> u64 \<Rightarrow> (u64 \<times> slice) option" where
  "varint64_loop [] shift result = None"
| "varint64_loop (b # p) shift result =
     (if shift \<le> 63 then
        let byte = ucast b :: u64
        in if byte AND 128 \<noteq> 0 then varint64_loop p (shift + 7) (result OR push_bit shift (byte AND 127))
           else Some (result OR push_bit shift byte, p)
      else None)"

definition GetVarint64Ptr :: "slice \<Rightarrow> (u64 \<times> slice) option" where
  "GetVarint64Ptr p = varint64_loop p 0 0"

text \<open>\<open>and_then r f\<close> is C's \<open>r && f\<close> on readers of one slice.\<close>

definition and_then :: "'a option \<times> slice \<Rightarrow> ('a \<Rightarrow> slice \<Rightarrow> 'b option \<times> slice) \<Rightarrow> 'b option \<times> slice" where
  "and_then r f = (case r of (None, s) \<Rightarrow> (None, s) | (Some a, s) \<Rightarrow> f a s)"

definition GetVarint32 :: "slice \<Rightarrow> u32 option \<times> slice" where
  "GetVarint32 input = (case GetVarint32Ptr input of None \<Rightarrow> (None, input) | Some (v, q) \<Rightarrow> (Some v, q))"

definition GetVarint64 :: "slice \<Rightarrow> u64 option \<times> slice" where
  "GetVarint64 input = (case GetVarint64Ptr input of None \<Rightarrow> (None, input) | Some (v, q) \<Rightarrow> (Some v, q))"

definition GetLengthPrefixedSlicePtr :: "slice \<Rightarrow> (slice \<times> slice) option" where
  "GetLengthPrefixedSlicePtr p =
     (case GetVarint32Ptr p of
        None \<Rightarrow> None
      | Some (len, p) \<Rightarrow> if unat len > length p then None else Some (take (unat len) p, drop (unat len) p))"

definition GetLengthPrefixedSlice :: "slice \<Rightarrow> slice option \<times> slice" where
  "GetLengthPrefixedSlice input =
     and_then (GetVarint32 input) (\<lambda>len input.
       if length input \<ge> unat len then (Some (take (unat len) input), drop (unat len) input) else (None, input))"

section \<open>What they write and read\<close>

declare EncodeVarint64.simps [simp del] VarintLength_loop.simps [simp del]

lemma and_then_simps [simp]:
  "and_then (None, s) f = (None, s)" "and_then (Some a, s) f = f a s"
  by (simp_all add: and_then_def)

lemma byte_at:
  assumes "LENGTH('a) \<ge> 8"
  shows "ucast (drop_bit k w :: 'a::len word) = (of_nat (unat w div 2 ^ k) :: u8)"
proof -
  have "unat (ucast (drop_bit k w) :: u8) = unat w div 2 ^ k mod 256"
    by (simp add: unsigned_ucast_eq unat_drop_bit_eq take_bit_eq_mod [of 8 "_ :: nat"]
        drop_bit_eq_div [of k "unat w"])
  then show ?thesis unfolding word_unat_eq_iff unat_of_nat take_bit_eq_mod by simp
qed

lemmas low_byte = byte_at [of 0, simplified]

lemma EncodeFixed32_le: "EncodeFixed32 v = le_bytes 4 (unat v)"
  by (simp add: EncodeFixed32_def le_bytes_4 byte_at low_byte)

lemma EncodeFixed64_le: "EncodeFixed64 v = le_bytes 8 (unat v)"
  by (simp add: EncodeFixed64_def le_bytes_8 byte_at low_byte)

lemma length_EncodeFixed [simp]: "length (EncodeFixed32 v) = 4" "length (EncodeFixed64 w) = 8"
  by (simp_all add: EncodeFixed32_le EncodeFixed64_le)

lemma DecodeFixed32_le:
  assumes "4 \<le> length p"
  shows "DecodeFixed32 p = Some (of_nat (le_val (take 4 p)))"
proof -
  obtain a b c d where take: "take 4 p = [a, b, c, d]" using assms list_of_4 [of "take 4 p"] by auto
  have "p ! 0 = a" "p ! 1 = b" "p ! 2 = c" "p ! 3 = d"
    using nth_take [of 0 4 p] nth_take [of 1 4 p] nth_take [of 2 4 p] nth_take [of 3 4 p]
    unfolding take by simp_all
  then show ?thesis using assms u32_of_bytes [of a b c d] take by (simp add: DecodeFixed32_def)
qed

lemma DecodeFixed64_le:
  assumes "8 \<le> length p"
  shows "DecodeFixed64 p = Some (of_nat (le_val (take 8 p)))"
proof -
  obtain a b c d e f g h where take: "take 8 p = [a, b, c, d, e, f, g, h]"
    using assms list_of_8 [of "take 8 p"] by auto
  have "p ! 0 = a" "p ! 1 = b" "p ! 2 = c" "p ! 3 = d" "p ! 4 = e" "p ! 5 = f" "p ! 6 = g" "p ! 7 = h"
    using nth_take [of 0 8 p] nth_take [of 1 8 p] nth_take [of 2 8 p] nth_take [of 3 8 p] nth_take [of 4 8 p] nth_take [of 5 8 p] nth_take [of 6 8 p] nth_take [of 7 8 p]
    unfolding take by simp_all
  then show ?thesis using assms u64_of_bytes [of a b c d e f g h] take by (simp add: DecodeFixed64_def)
qed

lemma of_nat_le_val: "unat (x :: 'a::len word) < 256 ^ n \<Longrightarrow> of_nat (le_val (le_bytes n (unat x))) = x"
  by (simp add: le_val_le_bytes)

lemma DecodeFixed32_Encode [simp]: "DecodeFixed32 (EncodeFixed32 v @ rest) = Some v"
  using unsigned_less [of v, where ?'a = nat] of_nat_le_val [of v 4]
  by (simp add: DecodeFixed32_le) (simp add: EncodeFixed32_le)

lemma DecodeFixed64_Encode [simp]: "DecodeFixed64 (EncodeFixed64 v @ rest) = Some v"
  using unsigned_less [of v, where ?'a = nat] of_nat_le_val [of v 8]
  by (simp add: DecodeFixed64_le) (simp add: EncodeFixed64_le)

text \<open>The varint writers produce the base-128 representation.\<close>

lemma or_80_low: "(y OR 0x80 :: u8) = of_nat (unat y mod 128 + 128)"
proof -
  have "\<forall>n \<in> set [0..<256]. (of_nat n OR 0x80 :: u8) = of_nat (n mod 128 + 128)" by code_simp
  moreover have "unat y \<in> set [0..<256]" using unat_u8_lt [of y] by simp
  ultimately have "(of_nat (unat y) OR 0x80 :: u8) = of_nat (unat y mod 128 + 128)" by blast
  then show ?thesis by simp
qed

lemma continued_byte:
  "ucast (v OR 128 :: u32) = (of_nat (unat v mod 128 + 128) :: u8)"
  "ucast (w OR 128 :: u64) = (of_nat (unat w mod 128 + 128) :: u8)"
  by (simp_all add: unsigned_or_eq or_80_low unsigned_ucast_eq take_bit_eq_mod [of 8 "_ :: nat"] mod_mod_cancel
      del: of_nat_add)

lemma EncodeVarint64_spec: "EncodeVarint64 v = varint_spec (unat v)"
proof (induction v rule: EncodeVarint64.induct)
  case (1 v)
  show ?case
  proof (cases "128 \<le> v")
    case True
    then have "128 \<le> unat v" by (simp add: word_le_nat_alt)
    with True 1 show ?thesis
      by (subst EncodeVarint64.simps) (simp add: continued_byte varint_big unat_drop_bit_7 del: of_nat_add)
  next
    case False
    then have "unat v < 128" by (simp add: word_le_nat_alt)
    with False show ?thesis
      by (subst EncodeVarint64.simps) (simp add: varint_small low_byte)
  qed
qed

lemma drop_bits_div: "unat (drop_bit k (v :: u32)) = unat v div 2 ^ k"
  by (simp add: unat_drop_bit_eq drop_bit_eq_div [of k "unat v"])

lemma EncodeVarint32_spec: "EncodeVarint32 v = varint_spec (unat v)"
proof -
  have lt: "unat v < 2 ^ 32" using unsigned_less [of v, where ?'a = nat] by simp
  have byte: "ucast (drop_bit k v OR 128) = (of_nat (unat v div 2 ^ k mod 128 + 128) :: u8)" for k
    by (simp add: continued_byte drop_bits_div del: of_nat_add)
  have last: "unat v div 2 ^ 28 < 128"
    using lt by (simp add: less_mult_imp_div_less)
  have less: "v < push_bit k 1 \<longleftrightarrow> unat v < 2 ^ k" if "k < 32" for k
  proof -
    have "(2 :: nat) ^ k < 2 ^ 32" using that by (intro power_strict_increasing) simp_all
    then have "unat (push_bit k 1 :: u32) = 2 ^ k" by (subst unat_push_bit_small) simp_all
    then show ?thesis by (simp only: word_less_nat_alt)
  qed
  have div: "unat v div 2 ^ k div 128 = unat v div 2 ^ (k + 7)" for k
    by (simp add: power_add div_mult2_eq)
  have small: "unat v div 2 ^ k < 128" if "unat v < 2 ^ (k + 7)" for k
    using that by (simp add: less_mult_imp_div_less power_add mult.commute)
  have big: "128 \<le> unat v div 2 ^ k" if "\<not> unat v < 2 ^ (k + 7)" for k
  proof -
    have "2 ^ (k + 7) div 2 ^ k \<le> unat v div 2 ^ k" using that by (intro div_le_mono) simp
    then show ?thesis by (simp add: power_add)
  qed
  have step: "varint_spec (unat v div 2 ^ k) = of_nat (unat v div 2 ^ k mod 128 + 128) # varint_spec (unat v div 2 ^ (k + 7))"
    if "\<not> unat v < 2 ^ (k + 7)" for k
    using varint_big [OF big [OF that]] unfolding div by simp
  have stop: "varint_spec (unat v div 2 ^ k) = [of_nat (unat v div 2 ^ k)]" if "unat v < 2 ^ (k + 7)" for k
    by (rule varint_small [OF small [OF that]])
  have full: "varint_spec (unat v div 2 ^ 28) = [of_nat (unat v div 2 ^ 28)]"
    by (rule varint_small [OF last])
  have start: "varint_spec (unat v) = of_nat (unat v mod 128 + 128) # varint_spec (unat v div 2 ^ 7)" if "\<not> unat v < 2 ^ 7"
    using varint_big [of "unat v"] that by simp
  show ?thesis
  proof -
    consider "unat v < 2 ^ 7" | "\<not> unat v < 2 ^ 7" "unat v < 2 ^ 14" | "\<not> unat v < 2 ^ 14" "unat v < 2 ^ 21"
      | "\<not> unat v < 2 ^ 21" "unat v < 2 ^ 28" | "\<not> unat v < 2 ^ 28" by blast
    then show ?thesis
      unfolding EncodeVarint32_def Let_def
      using byte [of 7] byte [of 14] byte [of 21] byte_at [of 7 v] byte_at [of 14 v] byte_at [of 21 v]
        byte_at [of 28 v] less [of 7] less [of 14] less [of 21] less [of 28] start step [of 7] step [of 14]
        step [of 21] stop [of 7] stop [of 14] stop [of 21] full
      by cases (simp_all add: continued_byte low_byte varint_small del: of_nat_add)
  qed
qed

section \<open>Reading back\<close>

lemma unat_ucast_bits:
  "unat ((ucast (b :: u8) :: u32) AND 127) = unat b mod 128" "unat ((ucast b :: u64) AND 127) = unat b mod 128"
  "(ucast b :: u32) AND 128 = 0 \<longleftrightarrow> unat b < 128" "(ucast b :: u64) AND 128 = 0 \<longleftrightarrow> unat b < 128"
proof -
  have 7: "unat b AND 127 = unat b mod 128"
    using and_7F [of b] by (simp add: unsigned_and_eq)
  have 8: "unat b AND 128 = 0 \<longleftrightarrow> unat b < 128"
    using and_80 [of b] by (simp add: word_unat_eq_iff unsigned_and_eq)
  show "unat ((ucast b :: u32) AND 127) = unat b mod 128" "unat ((ucast b :: u64) AND 127) = unat b mod 128"
    "(ucast b :: u32) AND 128 = 0 \<longleftrightarrow> unat b < 128" "(ucast b :: u64) AND 128 = 0 \<longleftrightarrow> unat b < 128"
    using 7 8 by (simp_all add: word_unat_eq_iff unsigned_and_eq)
qed

lemma varint_split: "n * 2 ^ shift = (n mod 128) * 2 ^ shift + (n div 128) * 2 ^ (shift + 7)" for n :: nat
proof -
  have "n * 2 ^ shift = (n div 128 * 128 + n mod 128) * 2 ^ shift" by (simp only: div_mult_mod_eq)
  also have "\<dots> = (n mod 128) * 2 ^ shift + (n div 128) * (128 * 2 ^ shift)"
    by (simp only: distrib_right mult.assoc add.commute)
  finally show ?thesis by (simp add: power_add mult.commute)
qed

text \<open>One group of seven bits joins the result.\<close>

lemma or_group:
  fixes result b :: "'a::len word"
  assumes "unat result < 2 ^ shift" and "unat b = n" and "n * 2 ^ shift < 2 ^ LENGTH('a)"
  shows "unat (result OR push_bit shift b) = unat result + n * 2 ^ shift"
  using assms by (simp add: unat_or_push_bit)

lemma low_group_bound: "r < 2 ^ shift \<Longrightarrow> m < 128 \<Longrightarrow> r + m * 2 ^ shift < (2 :: nat) ^ (shift + 7)"
proof -
  assume "r < 2 ^ shift" "m < 128"
  then have "r + m * 2 ^ shift < Suc m * 2 ^ shift" by simp
  also have "\<dots> \<le> 128 * 2 ^ shift" using \<open>m < 128\<close> by (intro mult_le_mono1) simp
  finally show ?thesis by (simp add: power_add mult.commute)
qed

lemma big_shift:
  assumes "\<not> n < (128 :: nat)" and "n * 2 ^ shift < 2 ^ (k + 7)"
  shows "shift < k"
proof (rule ccontr)
  assume "\<not> shift < k"
  then have "(2 :: nat) ^ k \<le> 2 ^ shift" by (intro power_increasing) simp_all
  then have "128 * 2 ^ k \<le> n * 2 ^ shift" using assms(1) by (intro mult_le_mono) simp_all
  with assms(2) show False by (simp add: power_add)
qed

lemma varint32_loop_spec:
  assumes "n * 2 ^ shift < 2 ^ 32" and "unat result < 2 ^ shift" and "shift \<le> 28" and "7 dvd shift"
  shows "varint32_loop (varint_spec n @ rest) shift result = Some (of_nat (unat result + n * 2 ^ shift), rest)"
  using assms
proof (induction n arbitrary: shift result rule: varint_spec.induct)
  case (1 n)
  show ?case
  proof (cases "n < 128")
    case True
    let ?b = "ucast (of_nat n :: u8) :: u32"
    have n: "unat (of_nat n :: u8) = n" using True by (simp add: unat_of_nat_u8)
    then have "unat (result OR push_bit shift ?b) = unat result + n * 2 ^ shift"
      using 1(2,3) by (intro or_group) simp_all
    then have "result OR push_bit shift ?b = of_nat (unat result + n * 2 ^ shift)"
      by (metis of_nat_unat ucast_id)
    then show ?thesis using True 1(4) n by (simp add: varint_small unat_ucast_bits del: of_nat_add of_nat_mult)
  next
    case False
    let ?b = "ucast (of_nat (n mod 128 + 128) :: u8) :: u32"
    let ?r = "result OR push_bit shift (?b AND 127)"
    have n: "unat (of_nat (n mod 128 + 128) :: u8) = n mod 128 + 128" by (simp add: unat_of_nat_u8 del: of_nat_add)
    have bits: "unat (?b AND 127) = n mod 128" "?b AND 128 \<noteq> 0" by (simp_all add: unat_ucast_bits n del: of_nat_add)
    have le: "(n mod 128) * 2 ^ shift < 2 ^ 32" "(n div 128) * 2 ^ (shift + 7) < 2 ^ 32"
      using 1(2) varint_split [of n shift] by linarith+
    have r: "unat ?r = unat result + (n mod 128) * 2 ^ shift"
      using 1(3) bits(1) le(1) by (intro or_group) simp_all
    have "shift < 25" using big_shift [of n shift 25] 1(2) False by simp
    then have shift: "shift + 7 \<le> 28" using 1(5) by (auto elim!: dvdE)
    have "varint32_loop (varint_spec (n div 128) @ rest) (shift + 7) ?r =
        Some (of_nat (unat ?r + (n div 128) * 2 ^ (shift + 7)), rest)"
      using low_group_bound [OF 1(3), of "n mod 128"] le(2) shift 1(5) r by (intro 1(1) [OF False]) simp_all
    moreover have "unat ?r + (n div 128) * 2 ^ (shift + 7) = unat result + n * 2 ^ shift"
      unfolding r using varint_split [of n shift] by simp
    ultimately show ?thesis
      using False bits(2) 1(4) by (simp add: varint_big Let_def del: of_nat_add of_nat_mult)
  qed
qed

lemma varint64_loop_spec:
  assumes "n * 2 ^ shift < 2 ^ 64" and "unat result < 2 ^ shift" and "shift \<le> 63"
  shows "varint64_loop (varint_spec n @ rest) shift result = Some (of_nat (unat result + n * 2 ^ shift), rest)"
  using assms
proof (induction n arbitrary: shift result rule: varint_spec.induct)
  case (1 n)
  show ?case
  proof (cases "n < 128")
    case True
    let ?b = "ucast (of_nat n :: u8) :: u64"
    have n: "unat (of_nat n :: u8) = n" using True by (simp add: unat_of_nat_u8)
    then have "unat (result OR push_bit shift ?b) = unat result + n * 2 ^ shift"
      using 1(2,3) by (intro or_group) simp_all
    then have "result OR push_bit shift ?b = of_nat (unat result + n * 2 ^ shift)"
      by (metis of_nat_unat ucast_id)
    then show ?thesis using True 1(4) n by (simp add: varint_small unat_ucast_bits del: of_nat_add of_nat_mult)
  next
    case False
    let ?b = "ucast (of_nat (n mod 128 + 128) :: u8) :: u64"
    let ?r = "result OR push_bit shift (?b AND 127)"
    have n: "unat (of_nat (n mod 128 + 128) :: u8) = n mod 128 + 128" by (simp add: unat_of_nat_u8 del: of_nat_add)
    have bits: "unat (?b AND 127) = n mod 128" "?b AND 128 \<noteq> 0" by (simp_all add: unat_ucast_bits n del: of_nat_add)
    have le: "(n mod 128) * 2 ^ shift < 2 ^ 64" "(n div 128) * 2 ^ (shift + 7) < 2 ^ 64"
      using 1(2) varint_split [of n shift] by linarith+
    have r: "unat ?r = unat result + (n mod 128) * 2 ^ shift"
      using 1(3) bits(1) le(1) by (intro or_group) simp_all
    have "shift < 57" using big_shift [of n shift 57] 1(2) False by simp
    then have shift: "shift + 7 \<le> 63" by simp
    have "varint64_loop (varint_spec (n div 128) @ rest) (shift + 7) ?r =
        Some (of_nat (unat ?r + (n div 128) * 2 ^ (shift + 7)), rest)"
      using low_group_bound [OF 1(3), of "n mod 128"] le(2) shift r by (intro 1(1) [OF False]) simp_all
    moreover have "unat ?r + (n div 128) * 2 ^ (shift + 7) = unat result + n * 2 ^ shift"
      unfolding r using varint_split [of n shift] by simp
    ultimately show ?thesis
      using False bits(2) 1(4) by (simp add: varint_big Let_def del: of_nat_add of_nat_mult)
  qed
qed

lemma GetVarint32_Encode [simp]: "GetVarint32 (EncodeVarint32 v @ rest) = (Some v, rest)"
proof -
  have lt: "unat v < 2 ^ 32" using unsigned_less [of v, where ?'a = nat] by simp
  have loop: "varint32_loop (varint_spec (unat v) @ rest) 0 0 = Some (v, rest)"
    using varint32_loop_spec [of "unat v" 0 0 rest] lt by simp
  have "GetVarint32Ptr (varint_spec (unat v) @ rest) = Some (v, rest)"
  proof (cases "unat v < 128")
    case True
    then show ?thesis using loop
      by (simp add: GetVarint32Ptr_def GetVarint32PtrFallback_def varint_small unat_ucast_bits Let_def split: if_split_asm)
  next
    case False
    then show ?thesis using loop
      by (simp add: GetVarint32Ptr_def GetVarint32PtrFallback_def varint_big unat_ucast_bits unat_of_nat_u8
          del: of_nat_add)
  qed
  then show ?thesis by (simp add: GetVarint32_def EncodeVarint32_spec)
qed

lemma GetVarint32Ptr_Encode: "GetVarint32Ptr (EncodeVarint32 v @ rest) = Some (v, rest)"
  using GetVarint32_Encode [of v rest] unfolding GetVarint32_def by (simp split: option.split_asm prod.split_asm)

lemma GetVarint64_Encode [simp]: "GetVarint64 (EncodeVarint64 v @ rest) = (Some v, rest)"
  using varint64_loop_spec [of "unat v" 0 0 rest] unsigned_less [of v, where ?'a = nat]
  by (simp add: GetVarint64_def GetVarint64Ptr_def EncodeVarint64_spec)

lemma GetLengthPrefixedSlice_Put [simp]:
  "length v < 2 ^ 32 \<Longrightarrow>
     GetLengthPrefixedSlice (EncodeVarint32 (of_nat (length v)) @ v @ rest) = (Some v, rest)"
  by (simp add: GetLengthPrefixedSlice_def unat_of_nat take_bit_nat_eq_self)

text \<open>On any bytes, a reader that succeeds leaves a proper suffix.\<close>

lemma varint32_loop_shorter: "varint32_loop p shift r = Some (v, q) \<Longrightarrow> length q < length p"
  by (induction p arbitrary: shift r) (fastforce simp: Let_def split: if_split_asm)+

lemma varint64_loop_shorter: "varint64_loop p shift r = Some (v, q) \<Longrightarrow> length q < length p"
  by (induction p arbitrary: shift r) (fastforce simp: Let_def split: if_split_asm)+

lemma GetVarint32Ptr_shorter: "GetVarint32Ptr p = Some (v, q) \<Longrightarrow> length q < length p"
  by (cases p) (auto simp: GetVarint32Ptr_def GetVarint32PtrFallback_def dest: varint32_loop_shorter
      split: if_split_asm)

lemma GetVarint32_shorter: "GetVarint32 p = (Some v, q) \<Longrightarrow> length q < length p"
  by (auto simp: GetVarint32_def dest: GetVarint32Ptr_shorter split: option.splits)

lemma GetVarint64_shorter: "GetVarint64 p = (Some v, q) \<Longrightarrow> length q < length p"
  by (auto simp: GetVarint64_def GetVarint64Ptr_def dest: varint64_loop_shorter split: option.splits)

lemma GetLengthPrefixedSlice_shorter: "GetLengthPrefixedSlice p = (Some v, q) \<Longrightarrow> length q < length p"
  by (auto simp: GetLengthPrefixedSlice_def and_then_def dest: GetVarint32_shorter
      split: option.splits prod.splits if_split_asm)

text \<open>\<open>VarintLength\<close> is the number of bytes the writer emits.\<close>

lemma VarintLength_loop_spec: "VarintLength_loop v len + 1 = len + length (EncodeVarint64 v)"
proof (induction v len rule: VarintLength_loop.induct)
  case (1 v len)
  then show ?case by (subst VarintLength_loop.simps, subst EncodeVarint64.simps) simp
qed

lemma VarintLength_spec: "VarintLength v = length (EncodeVarint64 v)"
  using VarintLength_loop_spec [of v 1] by (simp add: VarintLength_def)

text \<open>Arrays of fixed-width values.\<close>

lemma fold_PutFixed32: "fold (\<lambda>r dst. PutFixed32 dst r) xs dst = dst @ concat (map EncodeFixed32 xs)"
  by (induction xs arbitrary: dst) (simp_all add: PutFixed32_def)

lemma drop_fixed:
  "j < length xs \<Longrightarrow> \<exists>rest. drop (j * 4) (concat (map EncodeFixed32 xs) @ later) = EncodeFixed32 (xs ! j) @ rest"
proof (induction xs arbitrary: j)
  case (Cons x xs)
  then show ?case by (cases j) (simp_all add: add.commute [of 4] flip: drop_drop)
qed simp

lemma length_fixed: "length (concat (map EncodeFixed32 xs)) = 4 * length xs"
  by (induction xs) simp_all

end
