(* ===== verification/Ldb_File.thy ===== *)
theory Ldb_File
  imports Prelude
begin

text \<open>
  Files as leveldb uses them: \<open>Status\<close>, and the sequential reader and the buffered writer of
  \<open>leveldb-library/util/env_posix.cc\<close> over the system calls \<open>read\<close>, \<open>lseek\<close> and \<open>write\<close>, which
  are parameters. A call may be interrupted any number of times, so an operation that retries is a
  loop. Locales \<open>writable_file\<close> and \<open>sequential_file\<close> say what the log relies on; the classes
  implement them over a system that answers without errors.
\<close>

section \<open>Status\<close>

datatype Status =
  OK | NotFound string | Corruption string | NotSupported string | InvalidArgument string | IOError string

definition ok :: "Status \<Rightarrow> bool" where
  "ok s \<longleftrightarrow> s = OK"

lemma ok_simps [simp]: "ok OK" "\<not> ok (Corruption m)" "\<not> ok (NotFound m)" "\<not> ok (IOError m)" "\<not> ok (NotSupported m)"
  "\<not> ok (InvalidArgument m)"
  by (simp_all add: ok_def)

section \<open>System calls\<close>

datatype os_result = Done nat | Interrupted | Failed bool

text \<open>\<open>Failed True\<close> is the error \<open>ENOENT\<close>. The message of a status is its context: the name of
  the file, which is the same for all operations of an object, without the system's message.\<close>

definition PosixError :: "string \<Rightarrow> bool \<Rightarrow> Status" where
  "PosixError context enoent = (if enoent then NotFound context else IOError context)"

text \<open>\<open>write\<close> takes the bytes offered; \<open>read\<close> also gives the bytes it read.\<close>

type_synonym 'o os_write = "u8 list \<Rightarrow> 'o \<Rightarrow> os_result \<times> 'o"
type_synonym 'o os_read = "nat \<Rightarrow> 'o \<Rightarrow> os_result \<times> u8 list \<times> 'o"

section \<open>The buffered writer\<close>

definition kWritableFileBufferSize :: nat where
  "kWritableFileBufferSize = 65536"

text \<open>\<open>buf_[0 .. pos_)\<close> and the file behind the descriptor.\<close>

record 'o PosixWritableFile =
  pw_buf :: "u8 list"
  pw_os :: 'o

definition write_round :: "'o os_write \<Rightarrow> u8 list \<times> 'o \<Rightarrow> (u8 list \<times> 'o + Status \<times> 'o) option" where
  "write_round wr s =
     (case s of (data, os) \<Rightarrow>
        if data = [] then Some (Inr (OK, os))
        else case wr data os of
               (Done n, os) \<Rightarrow> Some (Inl (drop n data, os))
             | (Interrupted, os) \<Rightarrow> Some (Inl (data, os))
             | (Failed e, os) \<Rightarrow> Some (Inr (PosixError ''filename'' e, os)))"

definition WriteUnbuffered :: "'o os_write \<Rightarrow> u8 list \<Rightarrow> 'o \<Rightarrow> (Status \<times> 'o) option" where
  "WriteUnbuffered wr data os = c_loop (write_round wr) (data, os)"

definition FlushBuffer :: "'o os_write \<Rightarrow> 'o PosixWritableFile \<Rightarrow> (Status \<times> 'o PosixWritableFile) option" where
  "FlushBuffer wr f =
     do { (status, os) \<leftarrow> WriteUnbuffered wr (pw_buf f) (pw_os f);
          Some (status, \<lparr>pw_buf = [], pw_os = os\<rparr>) }"

definition PosixAppend ::
  "'o os_write \<Rightarrow> u8 list \<Rightarrow> 'o PosixWritableFile \<Rightarrow> (Status \<times> 'o PosixWritableFile) option"
where
  "PosixAppend wr data f =
     (let copy_size = min (length data) (kWritableFileBufferSize - length (pw_buf f));
          write_data = drop copy_size data;
          f = f\<lparr>pw_buf := pw_buf f @ take copy_size data\<rparr>
      in if write_data = [] then Some (OK, f)
         else do { (status, f) \<leftarrow> FlushBuffer wr f;
                   if \<not> ok status then Some (status, f)
                   else if length write_data < kWritableFileBufferSize
                   then Some (OK, f\<lparr>pw_buf := write_data\<rparr>)
                   else do { (status, os) \<leftarrow> WriteUnbuffered wr write_data (pw_os f);
                             Some (status, f\<lparr>pw_os := os\<rparr>) } })"

section \<open>The sequential reader\<close>

definition read_round :: "'o os_read \<Rightarrow> nat \<Rightarrow> 'o \<Rightarrow> ('o + Status \<times> u8 list \<times> 'o) option" where
  "read_round rd n os =
     (case rd n os of
        (Done k, bytes, os) \<Rightarrow> Some (Inr (OK, bytes, os))
      | (Interrupted, _, os) \<Rightarrow> Some (Inl os)
      | (Failed e, _, os) \<Rightarrow> Some (Inr (PosixError ''filename'' e, [], os)))"

definition PosixRead :: "'o os_read \<Rightarrow> nat \<Rightarrow> 'o \<Rightarrow> (Status \<times> u8 list \<times> 'o) option" where
  "PosixRead rd n os = c_loop (read_round rd n) os"

section \<open>What the log relies on\<close>

text \<open>In a state \<open>good\<close>, appending and flushing succeed, and the contents grow by what was
  appended; some of them may still be in a buffer, and a flush makes them all \<open>written\<close>.\<close>

locale writable_file =
  fixes append :: "u8 list \<Rightarrow> 'f \<Rightarrow> (Status \<times> 'f) option" and flush :: "'f \<Rightarrow> (Status \<times> 'f) option"
    and contents :: "'f \<Rightarrow> u8 list" and written :: "'f \<Rightarrow> u8 list" and good :: "'f \<Rightarrow> bool"
  assumes append_good: "good f \<Longrightarrow>
      \<exists>f'. append data f = Some (OK, f') \<and> good f' \<and> contents f' = contents f @ data"
    and flush_good: "good f \<Longrightarrow>
      \<exists>f'. flush f = Some (OK, f') \<and> good f' \<and> contents f' = contents f \<and> written f' = contents f"

text \<open>A read gives the next \<open>n\<close> bytes, or all there are if there are fewer.\<close>

locale sequential_file =
  fixes read_file :: "nat \<Rightarrow> 'f \<Rightarrow> (Status \<times> u8 list \<times> 'f) option"
    and pending :: "'f \<Rightarrow> u8 list" and good :: "'f \<Rightarrow> bool"
  assumes read_good: "good f \<Longrightarrow>
      \<exists>f'. read_file n f = Some (OK, take n (pending f), f') \<and> good f' \<and> pending f' = drop n (pending f)"

section \<open>A system without errors\<close>

text \<open>The contents of the file and how the next calls go: a script of interruptions (\<open>None\<close>) and
  of numbers of bytes that are taken at most; after the script calls take everything.\<close>

record scripted_os =
  so_bytes :: "u8 list"
  so_script :: "nat option list"

definition scripted_write :: "scripted_os os_write" where
  "scripted_write data os =
     (case so_script os of
        [] \<Rightarrow> (Done (length data), os\<lparr>so_bytes := so_bytes os @ data\<rparr>)
      | None # rest \<Rightarrow> (Interrupted, os\<lparr>so_script := rest\<rparr>)
      | Some n # rest \<Rightarrow>
          let k = min (Suc n) (length data)
          in (Done k, \<lparr>so_bytes = so_bytes os @ take k data, so_script = rest\<rparr>))"

definition scripted_read :: "scripted_os os_read" where
  "scripted_read n os =
     (case so_script os of
        None # rest \<Rightarrow> (Interrupted, [], os\<lparr>so_script := rest\<rparr>)
      | _ \<Rightarrow> (Done (min n (length (so_bytes os))), take n (so_bytes os),
              \<lparr>so_bytes = drop n (so_bytes os), so_script = tl (so_script os)\<rparr>))"

lemma write_scripted:
  "\<exists>os'. WriteUnbuffered scripted_write data os = Some (OK, os') \<and> so_bytes os' = so_bytes os @ data"
proof (induction "length (so_script os)" arbitrary: data os rule: less_induct)
  case less
  let ?round = "write_round scripted_write (data, os)"
  show ?case
  proof (cases "data = []")
    case True
    then show ?thesis by (simp add: WriteUnbuffered_def write_round_def c_loop_exit)
  next
    case False
    show ?thesis
    proof (cases "so_script os")
      case Nil
      let ?os = "os\<lparr>so_bytes := so_bytes os @ data\<rparr>"
      have "?round = Some (Inl ([], ?os))"
        using False Nil by (simp add: write_round_def scripted_write_def)
      moreover have "write_round scripted_write ([], ?os) = Some (Inr (OK, ?os))"
        by (simp add: write_round_def)
      ultimately show ?thesis by (simp add: WriteUnbuffered_def c_loop_next c_loop_exit)
    next
      case (Cons r rest)
      show ?thesis
      proof (cases r)
        case None
        have "?round = Some (Inl (data, os\<lparr>so_script := rest\<rparr>))"
          using False Cons None by (simp add: write_round_def scripted_write_def)
        with less [of "os\<lparr>so_script := rest\<rparr>" data] Cons show ?thesis
          by (simp add: WriteUnbuffered_def c_loop_next)
      next
        case (Some n)
        let ?k = "min (Suc n) (length data)"
        let ?os = "\<lparr>so_bytes = so_bytes os @ take ?k data, so_script = rest\<rparr>"
        have "?round = Some (Inl (drop ?k data, ?os))"
          using False Cons Some by (simp add: write_round_def scripted_write_def Let_def)
        with less [of ?os "drop ?k data"] Cons show ?thesis
          by (simp add: WriteUnbuffered_def c_loop_next)
      qed
    qed
  qed
qed

definition posix_contents :: "scripted_os PosixWritableFile \<Rightarrow> u8 list" where
  "posix_contents f = so_bytes (pw_os f) @ pw_buf f"

definition posix_written :: "scripted_os PosixWritableFile \<Rightarrow> u8 list" where
  "posix_written f = so_bytes (pw_os f)"

lemma flush_scripted:
  "\<exists>f'. FlushBuffer scripted_write f = Some (OK, f') \<and> pw_buf f' = [] \<and> so_bytes (pw_os f') = posix_contents f"
  using write_scripted [of "pw_buf f" "pw_os f"] by (auto simp: FlushBuffer_def posix_contents_def)

interpretation posix_writer: writable_file "PosixAppend scripted_write" "FlushBuffer scripted_write"
    posix_contents posix_written "\<lambda>_. True"
proof unfold_locales
  fix data :: "u8 list" and f :: "scripted_os PosixWritableFile"
  let ?n = "min (length data) (kWritableFileBufferSize - length (pw_buf f))"
  let ?f = "f\<lparr>pw_buf := pw_buf f @ take ?n data\<rparr>"
  obtain f1 where flush: "FlushBuffer scripted_write ?f = Some (OK, f1)" "pw_buf f1 = []"
      "so_bytes (pw_os f1) = posix_contents f @ take ?n data"
    using flush_scripted [of ?f] by (auto simp: posix_contents_def)
  obtain os where wrote: "WriteUnbuffered scripted_write (drop ?n data) (pw_os f1) = Some (OK, os)"
      "so_bytes os = so_bytes (pw_os f1) @ drop ?n data"
    using write_scripted by blast
  show "\<exists>f'. PosixAppend scripted_write data f = Some (OK, f') \<and> True \<and> posix_contents f' = posix_contents f @ data"
    using flush wrote
    by (auto simp: PosixAppend_def Let_def posix_contents_def append_take_drop_id
        simp del: min_less_iff_conj intro: exI)
next
  fix f :: "scripted_os PosixWritableFile"
  show "\<exists>f'. FlushBuffer scripted_write f = Some (OK, f') \<and> True \<and> posix_contents f' = posix_contents f \<and>
      posix_written f' = posix_contents f"
    using flush_scripted [of f] by (auto simp: posix_contents_def posix_written_def)
qed

interpretation posix_reader: sequential_file "PosixRead scripted_read" so_bytes "\<lambda>_. True"
proof unfold_locales
  fix n :: nat and os :: scripted_os
  show "\<exists>os'. PosixRead scripted_read n os = Some (OK, take n (so_bytes os), os') \<and> True \<and>
      so_bytes os' = drop n (so_bytes os)"
  proof (induction "length (so_script os)" arbitrary: os rule: less_induct)
    case less
    show ?case
    proof (cases "\<exists>rest. so_script os = None # rest")
      case True
      then obtain rest where rest: "so_script os = None # rest" by blast
      then have "read_round scripted_read n os = Some (Inl (os\<lparr>so_script := rest\<rparr>))"
        by (simp add: read_round_def scripted_read_def)
      with less [of "os\<lparr>so_script := rest\<rparr>"] rest show ?thesis by (simp add: PosixRead_def c_loop_next)
    next
      case False
      then have "read_round scripted_read n os = Some (Inr (OK, take n (so_bytes os),
          \<lparr>so_bytes = drop n (so_bytes os), so_script = tl (so_script os)\<rparr>))"
        by (auto simp: read_round_def scripted_read_def split: list.split option.split)
      then show ?thesis by (simp add: PosixRead_def c_loop_exit)
    qed
  qed
qed

end
