(* ===== verification/Ldb_Keys.thy ===== *)
theory Ldb_Keys
  imports Ldb_Coding Ldb_File
begin

text \<open>
  Keys and their order: \<open>Slice::compare\<close> (\<open>leveldb/slice.h\<close>), the bytewise comparator
  (\<open>util/comparator.cc\<close>), and internal keys with theirs (\<open>db/dbformat.h\<close>, \<open>db/dbformat.cc\<close>): a user
  key followed by eight bytes of sequence number and type. A \<open>Comparator\<close> object is a record of its
  functions. Locale \<open>key_order\<close> states what the rest of the engine relies on; the order of internal
  keys has its laws whenever the user's comparator has.
\<close>

section \<open>Comparators\<close>

record Comparator =
  cmp_Compare :: "slice \<Rightarrow> slice \<Rightarrow> int"
  cmp_FindShortestSeparator :: "slice \<Rightarrow> slice \<Rightarrow> slice"
  cmp_FindShortSuccessor :: "slice \<Rightarrow> slice"

text \<open>\<open>memcmp\<close> on two blocks of the same size, of which C fixes the sign.\<close>

fun c_memcmp :: "slice \<Rightarrow> slice \<Rightarrow> int" where
  "c_memcmp (x # xs) (y # ys) = (if x < y then - 1 else if y < x then 1 else c_memcmp xs ys)"
| "c_memcmp _ _ = 0"

definition Slice_compare :: "slice \<Rightarrow> slice \<Rightarrow> int" where
  "Slice_compare a b =
     (let min_len = (if length a < length b then length a else length b);
          r = c_memcmp (take min_len a) (take min_len b)
      in if r = 0 then if length a < length b then - 1 else if length a > length b then 1 else r else r)"

text \<open>The loop that counts equal bytes at the front.\<close>

fun common_prefix :: "slice \<Rightarrow> slice \<Rightarrow> nat" where
  "common_prefix (x # xs) (y # ys) = (if x = y then Suc (common_prefix xs ys) else 0)"
| "common_prefix _ _ = 0"

definition FindShortestSeparator :: "slice \<Rightarrow> slice \<Rightarrow> slice" where
  "FindShortestSeparator start limit =
     (let min_length = min (length start) (length limit);
          diff_index = common_prefix start limit
      in if diff_index \<ge> min_length then start
         else let diff_byte = start ! diff_index
              in if diff_byte < 0xff \<and> unat diff_byte + 1 < unat (limit ! diff_index)
                 then take (diff_index + 1) (start[diff_index := diff_byte + 1])
                 else start)"

fun FindShortSuccessor :: "slice \<Rightarrow> slice" where
  "FindShortSuccessor [] = []"
| "FindShortSuccessor (byte # key) = (if byte \<noteq> 0xff then [byte + 1] else byte # FindShortSuccessor key)"

definition BytewiseComparator :: Comparator where
  "BytewiseComparator =
     \<lparr>cmp_Compare = Slice_compare, cmp_FindShortestSeparator = FindShortestSeparator,
      cmp_FindShortSuccessor = FindShortSuccessor\<rparr>"

section \<open>Internal keys\<close>

datatype ValueType = kTypeDeletion | kTypeValue

primrec type_code :: "ValueType \<Rightarrow> u64" where
  "type_code kTypeDeletion = 0"
| "type_code kTypeValue = 1"

definition kValueTypeForSeek :: ValueType where "kValueTypeForSeek = kTypeValue"
definition kMaxSequenceNumber :: u64 where "kMaxSequenceNumber = push_bit 56 1 - 1"

record ParsedInternalKey =
  pk_user_key :: slice
  pk_sequence :: u64
  pk_type :: ValueType

definition PackSequenceAndType :: "u64 \<Rightarrow> ValueType \<Rightarrow> u64" where
  "PackSequenceAndType seq t = push_bit 8 seq OR type_code t"

definition InternalKeyEncodingLength :: "ParsedInternalKey \<Rightarrow> nat" where
  "InternalKeyEncodingLength key = length (pk_user_key key) + 8"

definition AppendInternalKey :: "slice \<Rightarrow> ParsedInternalKey \<Rightarrow> slice" where
  "AppendInternalKey result key =
     PutFixed64 (result @ pk_user_key key) (PackSequenceAndType (pk_sequence key) (pk_type key))"

definition InternalKey :: "slice \<Rightarrow> u64 \<Rightarrow> ValueType \<Rightarrow> slice" where
  "InternalKey user_key s t = AppendInternalKey [] \<lparr>pk_user_key = user_key, pk_sequence = s, pk_type = t\<rparr>"

text \<open>The last eight bytes; keys shorter than that are excluded by the code's asserts.\<close>

definition ExtractUserKey :: "slice \<Rightarrow> slice" where
  "ExtractUserKey internal_key = take (length internal_key - 8) internal_key"

definition key_number :: "slice \<Rightarrow> u64" where
  "key_number key = (case DecodeFixed64 (drop (length key - 8) key) of Some n \<Rightarrow> n | None \<Rightarrow> 0)"

definition ParseInternalKey :: "slice \<Rightarrow> ParsedInternalKey option" where
  "ParseInternalKey internal_key =
     (let n = length internal_key
      in if n < 8 then None
         else let num = key_number internal_key; c = num AND 0xff
              in if c \<le> 1
                 then Some \<lparr>pk_user_key = take (n - 8) internal_key, pk_sequence = drop_bit 8 num,
                            pk_type = (if c = 0 then kTypeDeletion else kTypeValue)\<rparr>
                 else None)"

definition InternalCompare :: "Comparator \<Rightarrow> slice \<Rightarrow> slice \<Rightarrow> int" where
  "InternalCompare user akey bkey =
     (let r = cmp_Compare user (ExtractUserKey akey) (ExtractUserKey bkey)
      in if r = 0
         then let anum = key_number akey; bnum = key_number bkey
              in if anum > bnum then - 1 else if anum < bnum then 1 else r
         else r)"

definition InternalSeparator :: "Comparator \<Rightarrow> slice \<Rightarrow> slice \<Rightarrow> slice" where
  "InternalSeparator user start limit =
     (let user_start = ExtractUserKey start; user_limit = ExtractUserKey limit;
          tmp = cmp_FindShortestSeparator user user_start user_limit
      in if length tmp < length user_start \<and> cmp_Compare user user_start tmp < 0
         then PutFixed64 tmp (PackSequenceAndType kMaxSequenceNumber kValueTypeForSeek)
         else start)"

definition InternalSuccessor :: "Comparator \<Rightarrow> slice \<Rightarrow> slice" where
  "InternalSuccessor user key =
     (let user_key = ExtractUserKey key; tmp = cmp_FindShortSuccessor user user_key
      in if length tmp < length user_key \<and> cmp_Compare user user_key tmp < 0
         then PutFixed64 tmp (PackSequenceAndType kMaxSequenceNumber kValueTypeForSeek)
         else key)"

definition InternalKeyComparator :: "Comparator \<Rightarrow> Comparator" where
  "InternalKeyComparator user =
     \<lparr>cmp_Compare = InternalCompare user, cmp_FindShortestSeparator = InternalSeparator user,
      cmp_FindShortSuccessor = InternalSuccessor user\<rparr>"

text \<open>\<open>LookupKey\<close>: the bytes from \<open>start_\<close> to \<open>end_\<close>, and its three views.\<close>

definition LookupKey :: "slice \<Rightarrow> u64 \<Rightarrow> slice" where
  "LookupKey user_key s =
     EncodeVarint32 (of_nat (length user_key) + 8) @ user_key @
     EncodeFixed64 (PackSequenceAndType s kValueTypeForSeek)"

definition lookup_kstart :: "slice \<Rightarrow> nat" where
  "lookup_kstart user_key = length (EncodeVarint32 (of_nat (length user_key) + 8))"

definition memtable_key :: "slice \<Rightarrow> u64 \<Rightarrow> slice" where
  "memtable_key user_key s = LookupKey user_key s"

definition lookup_internal_key :: "slice \<Rightarrow> u64 \<Rightarrow> slice" where
  "lookup_internal_key user_key s = drop (lookup_kstart user_key) (LookupKey user_key s)"

definition lookup_user_key :: "slice \<Rightarrow> u64 \<Rightarrow> slice" where
  "lookup_user_key user_key s = ExtractUserKey (lookup_internal_key user_key s)"

section \<open>What an order promises\<close>

locale key_order =
  fixes cmp :: Comparator and valid :: "slice \<Rightarrow> bool"
  assumes compare_eq: "valid a \<Longrightarrow> valid b \<Longrightarrow> cmp_Compare cmp a b = 0 \<longleftrightarrow> a = b"
    and compare_swap: "valid a \<Longrightarrow> valid b \<Longrightarrow> cmp_Compare cmp a b < 0 \<longleftrightarrow> 0 < cmp_Compare cmp b a"
    and compare_trans: "valid a \<Longrightarrow> valid b \<Longrightarrow> valid c \<Longrightarrow>
      cmp_Compare cmp a b < 0 \<Longrightarrow> cmp_Compare cmp b c < 0 \<Longrightarrow> cmp_Compare cmp a c < 0"
    and separator_between: "valid a \<Longrightarrow> valid b \<Longrightarrow> cmp_Compare cmp a b < 0 \<Longrightarrow>
      s = cmp_FindShortestSeparator cmp a b \<Longrightarrow> valid s \<and> cmp_Compare cmp a s \<le> 0 \<and> cmp_Compare cmp s b < 0"
    and separator_same: "valid a \<Longrightarrow> valid b \<Longrightarrow> 0 \<le> cmp_Compare cmp a b \<Longrightarrow> cmp_FindShortestSeparator cmp a b = a"
    and successor_after: "valid a \<Longrightarrow> s = cmp_FindShortSuccessor cmp a \<Longrightarrow> valid s \<and> cmp_Compare cmp a s \<le> 0"
begin

definition key_less :: "slice \<Rightarrow> slice \<Rightarrow> bool" where
  "key_less a b \<longleftrightarrow> cmp_Compare cmp a b < 0"

lemma key_less_irrefl [simp]: "valid a \<Longrightarrow> \<not> key_less a a"
  using compare_eq [of a a] by (simp add: key_less_def)

lemma key_less_linear: "valid a \<Longrightarrow> valid b \<Longrightarrow> key_less a b \<or> a = b \<or> key_less b a"
  using compare_eq [of a b] compare_swap [of b a] by (auto simp: key_less_def)

lemma key_less_asym: "valid a \<Longrightarrow> valid b \<Longrightarrow> key_less a b \<Longrightarrow> \<not> key_less b a"
  using compare_swap [of a b] by (simp add: key_less_def)

lemma key_less_trans: "valid a \<Longrightarrow> valid b \<Longrightarrow> valid c \<Longrightarrow> key_less a b \<Longrightarrow> key_less b c \<Longrightarrow> key_less a c"
  unfolding key_less_def by (rule compare_trans)

lemma compare_ge: "valid a \<Longrightarrow> valid b \<Longrightarrow> 0 \<le> cmp_Compare cmp a b \<longleftrightarrow> a = b \<or> key_less b a"
  unfolding key_less_def using compare_eq [of a b] compare_swap [of b a] by (metis le_less)

end

section \<open>The bytewise order\<close>

lemma Slice_compare_simps [simp]:
  "Slice_compare [] [] = 0" "Slice_compare [] (y # ys) = - 1" "Slice_compare (x # xs) [] = 1"
  "Slice_compare (x # xs) (y # ys) = (if x < y then - 1 else if y < x then 1 else Slice_compare xs ys)"
  by (simp_all add: Slice_compare_def Let_def)

lemma Slice_compare_eq [simp]: "Slice_compare a b = 0 \<longleftrightarrow> a = b"
  by (induction a b rule: list_induct2') (auto simp: not_less_iff_gr_or_eq)

lemma Slice_compare_swap: "Slice_compare b a = - Slice_compare a b"
  by (induction a b rule: list_induct2') auto

lemma Slice_compare_trans: "Slice_compare a b < 0 \<Longrightarrow> Slice_compare b c < 0 \<Longrightarrow> Slice_compare a c < 0"
proof (induction a arbitrary: b c)
  case Nil
  then show ?case by (cases b; cases c) auto
next
  case (Cons x a)
  then show ?case by (cases b; cases c) (auto split: if_splits)
qed

lemma separator_simps:
  "FindShortestSeparator [] b = []" "FindShortestSeparator a [] = a"
  "FindShortestSeparator (x # a) (x # b) = x # FindShortestSeparator a b"
  "x \<noteq> y \<Longrightarrow> FindShortestSeparator (x # a) (y # b) =
     (if x < 0xff \<and> unat x + 1 < unat y then [x + 1] else x # a)"
  by (simp_all add: FindShortestSeparator_def Let_def)

lemma FindShortestSeparator_same: "0 \<le> Slice_compare a b \<Longrightarrow> FindShortestSeparator a b = a"
proof (induction a b rule: list_induct2')
  case (4 x a y b)
  then show ?case
    by (cases "x = y") (auto simp: separator_simps word_less_nat_alt split: if_splits)
qed (simp_all add: separator_simps)

lemma below_FF: "x < 0xff \<longleftrightarrow> x \<noteq> 0xff" for x :: u8
  using unat_u8_lt [of x] by (simp add: word_less_nat_alt unat_eq_nat_uint [symmetric] word_unat_eq_iff) linarith

lemma next_byte:
  assumes "x < 0xff"
  shows "x < x + 1" and "unat (x + 1) = unat (x :: u8) + 1"
proof -
  have "unat x < 255" using assms by (simp add: word_less_nat_alt)
  then show u: "unat (x + 1) = unat x + 1" by (simp add: unat_word_ariths)
  then show "x < x + 1" by (simp add: word_less_nat_alt)
qed

lemma FindShortestSeparator_between:
  assumes "Slice_compare a b < 0"
  shows "Slice_compare a (FindShortestSeparator a b) \<le> 0 \<and> Slice_compare (FindShortestSeparator a b) b < 0"
  using assms
proof (induction a b rule: list_induct2')
  case (4 x a y b)
  show ?case
  proof (cases "x = y")
    case True
    then show ?thesis using 4 by (simp add: separator_simps)
  next
    case False
    then have "x < y" using "4.prems" by (auto split: if_splits)
    then show ?thesis
      using False next_byte [of x] by (auto simp: separator_simps word_less_nat_alt Slice_compare_eq [THEN iffD2])
  qed
qed (simp_all add: separator_simps)

lemma FindShortSuccessor_after: "Slice_compare a (FindShortSuccessor a) \<le> 0"
proof (induction a)
  case (Cons x a)
  with next_byte [of x] show ?case by (auto simp: below_FF)
qed simp

lemma Slice_compare_asym: "Slice_compare a b < 0 \<longleftrightarrow> 0 < Slice_compare b a"
  using Slice_compare_swap [of b a] by simp

interpretation bytewise: key_order BytewiseComparator "\<lambda>_. True"
proof
  fix a b c s :: slice
  show "cmp_Compare BytewiseComparator a b < 0 \<longleftrightarrow> 0 < cmp_Compare BytewiseComparator b a"
    unfolding BytewiseComparator_def by (simp, rule Slice_compare_asym)
  show "cmp_Compare BytewiseComparator a b < 0 \<Longrightarrow> cmp_Compare BytewiseComparator b c < 0 \<Longrightarrow>
      cmp_Compare BytewiseComparator a c < 0"
    unfolding BytewiseComparator_def by simp (rule Slice_compare_trans)
  show "cmp_Compare BytewiseComparator a b < 0 \<Longrightarrow> s = cmp_FindShortestSeparator BytewiseComparator a b \<Longrightarrow>
      True \<and> cmp_Compare BytewiseComparator a s \<le> 0 \<and> cmp_Compare BytewiseComparator s b < 0"
    using FindShortestSeparator_between [of a b] by (simp add: BytewiseComparator_def)
qed (simp_all add: BytewiseComparator_def FindShortestSeparator_same FindShortSuccessor_after)

section \<open>The order of internal keys\<close>

definition internal_key_ok :: "slice \<Rightarrow> bool" where
  "internal_key_ok k \<longleftrightarrow> 8 \<le> length k"

lemma split_internal:
  assumes "internal_key_ok k"
  shows "k = ExtractUserKey k @ EncodeFixed64 (key_number k)"
proof -
  let ?tail = "drop (length k - 8) k"
  have "length ?tail = 8" using assms by (simp add: internal_key_ok_def)
  then have "EncodeFixed64 (key_number k) = ?tail"
    using le_bytes_le_val [of ?tail] le_val_lt [of ?tail]
    by (simp add: key_number_def DecodeFixed64_le EncodeFixed64_le unat_of_nat take_bit_nat_eq_self)
  then show ?thesis by (simp add: ExtractUserKey_def)
qed

lemma internal_parts [simp]:
  "ExtractUserKey (u @ EncodeFixed64 n) = u" "key_number (u @ EncodeFixed64 n) = n" "internal_key_ok (u @ EncodeFixed64 n)"
  using DecodeFixed64_Encode [of n "[]"] by (simp_all add: ExtractUserKey_def key_number_def internal_key_ok_def)

context key_order
begin

lemma internal_less:
  "InternalCompare cmp a b < 0 \<longleftrightarrow> cmp_Compare cmp (ExtractUserKey a) (ExtractUserKey b) < 0 \<or>
    cmp_Compare cmp (ExtractUserKey a) (ExtractUserKey b) = 0 \<and> key_number b < key_number a"
  by (auto simp: InternalCompare_def Let_def)

lemma internal_order: "key_order (InternalKeyComparator cmp) (\<lambda>k. internal_key_ok k \<and> valid (ExtractUserKey k))"
proof
  fix a b
  assume a: "internal_key_ok a \<and> valid (ExtractUserKey a)" and b: "internal_key_ok b \<and> valid (ExtractUserKey b)"
  have eq: "cmp_Compare cmp (ExtractUserKey a) (ExtractUserKey b) = 0 \<longleftrightarrow> ExtractUserKey a = ExtractUserKey b"
    using a b compare_eq by blast
  have swap: "cmp_Compare cmp (ExtractUserKey a) (ExtractUserKey b) < 0 \<longleftrightarrow> 0 < cmp_Compare cmp (ExtractUserKey b) (ExtractUserKey a)"
    "cmp_Compare cmp (ExtractUserKey b) (ExtractUserKey a) = 0 \<longleftrightarrow> ExtractUserKey b = ExtractUserKey a"
    using a b compare_eq compare_swap by blast+
  have parts: "a = b \<longleftrightarrow> ExtractUserKey a = ExtractUserKey b \<and> key_number a = key_number b"
    using split_internal a b by metis
  show "cmp_Compare (InternalKeyComparator cmp) a b = 0 \<longleftrightarrow> a = b"
    using parts eq less_linear [of "key_number a" "key_number b"]
    by (simp add: InternalKeyComparator_def InternalCompare_def Let_def) fastforce
  show "cmp_Compare (InternalKeyComparator cmp) a b < 0 \<longleftrightarrow> 0 < cmp_Compare (InternalKeyComparator cmp) b a"
    using eq swap by (cases rule: linorder_cases [of "cmp_Compare cmp (ExtractUserKey a) (ExtractUserKey b)" 0])
      (simp_all add: InternalKeyComparator_def InternalCompare_def Let_def, auto)
  show "0 \<le> cmp_Compare (InternalKeyComparator cmp) a b \<Longrightarrow>
      cmp_FindShortestSeparator (InternalKeyComparator cmp) a b = a"
    using separator_same [of "ExtractUserKey a" "ExtractUserKey b"] a b internal_less [of a b]
    by (auto simp: InternalKeyComparator_def InternalSeparator_def Let_def not_less [symmetric])
  fix c assume c: "internal_key_ok c \<and> valid (ExtractUserKey c)"
  show "cmp_Compare (InternalKeyComparator cmp) a b < 0 \<Longrightarrow> cmp_Compare (InternalKeyComparator cmp) b c < 0 \<Longrightarrow>
      cmp_Compare (InternalKeyComparator cmp) a c < 0"
    using a b c compare_trans [of "ExtractUserKey a" "ExtractUserKey b" "ExtractUserKey c"]
      compare_eq [of "ExtractUserKey a" "ExtractUserKey b"] compare_eq [of "ExtractUserKey b" "ExtractUserKey c"]
    by (auto simp: InternalKeyComparator_def internal_less)
next
  fix a b s
  assume a: "internal_key_ok a \<and> valid (ExtractUserKey a)" and b: "internal_key_ok b \<and> valid (ExtractUserKey b)"
    and less: "cmp_Compare (InternalKeyComparator cmp) a b < 0"
    and s: "s = cmp_FindShortestSeparator (InternalKeyComparator cmp) a b"
  let ?t = "cmp_FindShortestSeparator cmp (ExtractUserKey a) (ExtractUserKey b)"
  show "(internal_key_ok s \<and> valid (ExtractUserKey s)) \<and> cmp_Compare (InternalKeyComparator cmp) a s \<le> 0 \<and>
      cmp_Compare (InternalKeyComparator cmp) s b < 0"
  proof (cases "length ?t < length (ExtractUserKey a) \<and> cmp_Compare cmp (ExtractUserKey a) ?t < 0")
    case True
    then have s': "s = ?t @ EncodeFixed64 (PackSequenceAndType kMaxSequenceNumber kValueTypeForSeek)"
      using s by (simp add: InternalKeyComparator_def InternalSeparator_def PutFixed64_def Let_def)
    have "cmp_Compare cmp (ExtractUserKey a) (ExtractUserKey b) < 0"
      using True separator_same [of "ExtractUserKey a" "ExtractUserKey b"] a b by (metis less_irrefl not_less)
    then have "valid ?t" "cmp_Compare cmp ?t (ExtractUserKey b) < 0" using separator_between a b by blast+
    then show ?thesis using True by (simp add: s' InternalKeyComparator_def internal_less order_less_imp_le)
  next
    case False
    then have "s = a" using s by (auto simp: InternalKeyComparator_def InternalSeparator_def Let_def)
    moreover have "cmp_Compare (InternalKeyComparator cmp) a a = 0"
      using a compare_eq by (simp add: InternalKeyComparator_def InternalCompare_def)
    ultimately show ?thesis using a less by simp
  qed
next
  fix a s
  assume a: "internal_key_ok a \<and> valid (ExtractUserKey a)" and s: "s = cmp_FindShortSuccessor (InternalKeyComparator cmp) a"
  let ?t = "cmp_FindShortSuccessor cmp (ExtractUserKey a)"
  have "valid ?t" using successor_after a by blast
  moreover have "InternalCompare cmp a a = 0" using a compare_eq by (simp add: InternalCompare_def)
  ultimately show "(internal_key_ok s \<and> valid (ExtractUserKey s)) \<and> cmp_Compare (InternalKeyComparator cmp) a s \<le> 0"
    using a s internal_less [of a s]
    by (auto simp: InternalKeyComparator_def InternalSuccessor_def PutFixed64_def Let_def intro: order_less_imp_le)
qed

end

interpretation internal: key_order "InternalKeyComparator BytewiseComparator" "\<lambda>k. internal_key_ok k \<and> True"
  by (rule bytewise.internal_order)

section \<open>What keys mean\<close>

lemma unat_low_byte: "unat (x AND 0xff) = unat x mod 256" for x :: u64
proof -
  have "(0xff :: u64) = mask 8" by (simp add: mask_eq_exp_minus_1)
  then have "x AND 0xff = take_bit 8 x" by (simp only: take_bit_eq_mask)
  then have "unat (x AND 0xff) = take_bit 8 (unat x)" by (simp add: unsigned_take_bit_eq)
  then show ?thesis by (simp add: take_bit_eq_mod)
qed

lemma unat_high_bytes: "unat (drop_bit 8 x) = unat x div 256" for x :: u64
  unfolding unat_drop_bit_eq by (simp add: drop_bit_eq_div)

lemma pack_bits: "push_bit 8 (drop_bit 8 num) OR (num AND 0xff) = num" for num :: u64
proof -
  have "unat ((num AND 0xff) OR push_bit 8 (drop_bit 8 num)) = unat num mod 256 + unat num div 256 * 2 ^ 8"
    using unat_or_push_bit [of "num AND 0xff" 8 "drop_bit 8 num"] unsigned_less [of num, where ?'a = nat]
    unfolding unat_low_byte unat_high_bytes by simp
  then show ?thesis by (simp add: word_unat_eq_iff or.commute)
qed

lemma unat_type_code: "unat (type_code t) < 256"
  by (cases t) simp_all

lemma unat_pack:
  assumes "seq \<le> kMaxSequenceNumber"
  shows "unat (PackSequenceAndType seq t) = unat (type_code t) + unat seq * 256"
proof -
  have "unat seq < 2 ^ 56" using assms by (simp add: kMaxSequenceNumber_def word_le_nat_alt)
  then show ?thesis
    using unat_or_push_bit [of "type_code t" 8 seq] unat_type_code [of t] by (simp add: PackSequenceAndType_def or.commute)
qed

lemma pack_fields:
  assumes "seq \<le> kMaxSequenceNumber"
  shows "drop_bit 8 (PackSequenceAndType seq t) = seq" and "PackSequenceAndType seq t AND 0xff = type_code t"
  using unat_type_code [of t]
  by (simp_all add: word_unat_eq_iff unat_low_byte unat_high_bytes unat_pack [OF assms] del: drop_bit_eq_div)

lemma pack_less:
  assumes "s \<le> kMaxSequenceNumber" and "s' \<le> kMaxSequenceNumber"
  shows "PackSequenceAndType s t < PackSequenceAndType s' t' \<longleftrightarrow> s < s' \<or> s = s' \<and> type_code t < type_code t'"
  using unat_type_code [of t] unat_type_code [of t']
  by (auto simp: word_less_nat_alt unat_pack [OF assms(1)] unat_pack [OF assms(2)] word_unat_eq_iff)

lemma below_2: "x \<le> 1 \<Longrightarrow> x = 0 \<or> x = 1" for x :: u64
  by (simp add: word_le_nat_alt word_unat_eq_iff) linarith

lemma AppendInternalKey_split:
  "AppendInternalKey [] k = pk_user_key k @ EncodeFixed64 (PackSequenceAndType (pk_sequence k) (pk_type k))"
  by (simp add: AppendInternalKey_def PutFixed64_def)

lemma parse_split:
  "ParseInternalKey (u @ EncodeFixed64 num) =
    (if num AND 0xff \<le> 1
     then Some \<lparr>pk_user_key = u, pk_sequence = drop_bit 8 num,
       pk_type = (if num AND 0xff = 0 then kTypeDeletion else kTypeValue)\<rparr>
     else None)"
  using internal_parts(1,2) [of u num] by (simp add: ParseInternalKey_def Let_def del: internal_parts)

text \<open>Internal keys survive: parsing an encoded key gives its user key, sequence number and type,
  and every key that parses is the encoding of what it parses to.\<close>

theorem internal_key_roundtrip:
  "(pk_sequence k \<le> kMaxSequenceNumber \<longrightarrow> ParseInternalKey (AppendInternalKey [] k) = Some k) \<and>
   (ParseInternalKey bytes = Some k \<longrightarrow> AppendInternalKey [] k = bytes)"
proof (intro conjI impI)
  assume "pk_sequence k \<le> kMaxSequenceNumber"
  then show "ParseInternalKey (AppendInternalKey [] k) = Some k"
    by (cases "pk_type k") (simp_all add: AppendInternalKey_split parse_split pack_fields)
next
  assume parsed: "ParseInternalKey bytes = Some k"
  then have "internal_key_ok bytes" by (simp add: ParseInternalKey_def internal_key_ok_def Let_def split: if_splits)
  then have split: "bytes = ExtractUserKey bytes @ EncodeFixed64 (key_number bytes)" by (rule split_internal)
  let ?n = "key_number bytes"
  have k: "?n AND 0xff \<le> 1" "k = \<lparr>pk_user_key = ExtractUserKey bytes, pk_sequence = drop_bit 8 ?n,
      pk_type = (if ?n AND 0xff = 0 then kTypeDeletion else kTypeValue)\<rparr>"
    using parsed parse_split [of "ExtractUserKey bytes" ?n] split by (auto split: if_splits)
  have "PackSequenceAndType (pk_sequence k) (pk_type k) = ?n"
    using k pack_bits [of ?n] below_2 [of "?n AND 0xff"]
    by (cases "?n AND 0xff = 0") (auto simp: PackSequenceAndType_def)
  with k(2) split show "AppendInternalKey [] k = bytes" by (simp add: AppendInternalKey_split)
qed

lemma internal_key_roundtrip_witness:
  "ParseInternalKey (AppendInternalKey [] \<lparr>pk_user_key = [1, 2], pk_sequence = 5, pk_type = kTypeValue\<rparr>) =
    Some \<lparr>pk_user_key = [1, 2], pk_sequence = 5, pk_type = kTypeValue\<rparr>"
  using internal_key_roundtrip [of "\<lparr>pk_user_key = [1, 2], pk_sequence = 5, pk_type = kTypeValue\<rparr>"]
  by (simp add: kMaxSequenceNumber_def)

text \<open>Entries are ordered by user key, and those of one user key by falling sequence number,
  then falling type, so that the newest entry comes first.\<close>

theorem internal_key_order:
  assumes "s \<le> kMaxSequenceNumber" and "s' \<le> kMaxSequenceNumber"
  shows "InternalCompare BytewiseComparator (InternalKey u s t) (InternalKey u' s' t') < 0 \<longleftrightarrow>
    Slice_compare u u' < 0 \<or> u = u' \<and> (s > s' \<or> s = s' \<and> t = kTypeValue \<and> t' = kTypeDeletion)"
proof -
  have "type_code t' < type_code t \<longleftrightarrow> t = kTypeValue \<and> t' = kTypeDeletion" by (cases t; cases t') simp_all
  then show ?thesis
    using pack_less [OF assms(2,1), of t' t] Slice_compare_eq [of u u']
    by (simp add: bytewise.internal_less InternalKey_def AppendInternalKey_split) (auto simp: BytewiseComparator_def)
qed

lemma internal_key_order_witness:
  "InternalCompare BytewiseComparator (InternalKey [1] 7 kTypeDeletion) (InternalKey [1] 5 kTypeValue) < 0 \<longleftrightarrow>
    Slice_compare [1] [1] < 0 \<or> [1 :: u8] = [1] \<and> ((7 :: u64) > 5 \<or> (7 :: u64) = 5 \<and> kTypeDeletion = kTypeValue \<and> kTypeValue = kTypeDeletion)"
  by (rule internal_key_order) (simp_all add: kMaxSequenceNumber_def)

lemma InternalKey_parts [simp]:
  "ExtractUserKey (InternalKey u s t) = u" "key_number (InternalKey u s t) = PackSequenceAndType s t"
  "internal_key_ok (InternalKey u s t)" "PutFixed64 u (PackSequenceAndType s t) = InternalKey u s t"
  by (simp_all add: InternalKey_def AppendInternalKey_split PutFixed64_def)

text \<open>C19: index keys separate. Between the last key of a block and the first of the next, the shortened
  key that the index gets is not below the one and below the other, in the order of internal keys,
  and is no longer than the key it replaces.\<close>

theorem index_separator_correct:
  assumes "internal_key_ok a" and "internal_key_ok b" and "InternalCompare BytewiseComparator a b < 0"
    and "s = InternalSeparator BytewiseComparator a b"
  shows "internal_key_ok s \<and> InternalCompare BytewiseComparator a s \<le> 0 \<and>
    InternalCompare BytewiseComparator s b < 0 \<and> length s \<le> length a"
proof -
  have "length s \<le> length a"
    using assms(1) by (auto simp: assms(4) InternalSeparator_def PutFixed64_def ExtractUserKey_def
        internal_key_ok_def Let_def)
  with internal.separator_between [of a b s] assms show ?thesis by (simp add: InternalKeyComparator_def)
qed

lemma index_separator_correct_witness:
  "internal_key_ok (InternalKey [98] kMaxSequenceNumber kTypeValue) \<and>
   InternalCompare BytewiseComparator (InternalKey [97, 1, 2] 5 kTypeValue) (InternalKey [98] kMaxSequenceNumber kTypeValue) \<le> 0 \<and>
   InternalCompare BytewiseComparator (InternalKey [98] kMaxSequenceNumber kTypeValue) (InternalKey [100] 9 kTypeValue) < 0 \<and>
   length (InternalKey [98] kMaxSequenceNumber kTypeValue) \<le> length (InternalKey [97, 1, 2] 5 kTypeValue)"
  by (rule index_separator_correct)
    (simp_all add: InternalCompare_def InternalSeparator_def BytewiseComparator_def separator_simps kValueTypeForSeek_def)

lemma LookupKey_views:
  "lookup_internal_key u s = InternalKey u s kTypeValue" "lookup_user_key u s = u"
  "memtable_key u s = EncodeVarint32 (of_nat (length u) + 8) @ InternalKey u s kTypeValue"
  by (simp_all add: lookup_internal_key_def lookup_user_key_def lookup_kstart_def memtable_key_def LookupKey_def
      InternalKey_def AppendInternalKey_split kValueTypeForSeek_def)

end
