(* ===== verification/Ldb_Edit.thy ===== *)
theory Ldb_Edit
  imports Ldb_Keys "HOL-Library.Product_Lexorder"
begin

text \<open>
  Version edits: \<open>leveldb-library/db/version_edit.h\<close>, \<open>version_edit.cc\<close>, the records of the manifest.
  Keys are the bytes of an \<open>InternalKey\<close>. The set of deleted files is iterated in its order, by level
  and number. A \<open>FileMetaData\<close> is what an edit stores of a file.
\<close>

section \<open>The class\<close>

definition kComparator :: u32 where "kComparator = 1"
definition kLogNumber :: u32 where "kLogNumber = 2"
definition kNextFileNumber :: u32 where "kNextFileNumber = 3"
definition kLastSequence :: u32 where "kLastSequence = 4"
definition kCompactPointer :: u32 where "kCompactPointer = 5"
definition kDeletedFile :: u32 where "kDeletedFile = 6"
definition kNewFile :: u32 where "kNewFile = 7"
definition kPrevLogNumber :: u32 where "kPrevLogNumber = 9"

lemmas edit_tags = kComparator_def kLogNumber_def kNextFileNumber_def kLastSequence_def kCompactPointer_def
  kDeletedFile_def kNewFile_def kPrevLogNumber_def

definition kNumLevels :: nat where "kNumLevels = 7"

record FileMetaData =
  fm_number :: u64
  fm_file_size :: u64
  fm_smallest :: slice
  fm_largest :: slice

record VersionEdit =
  ve_comparator :: slice
  ve_log_number :: u64
  ve_prev_log_number :: u64
  ve_next_file_number :: u64
  ve_last_sequence :: u64
  ve_has_comparator :: bool
  ve_has_log_number :: bool
  ve_has_prev_log_number :: bool
  ve_has_next_file_number :: bool
  ve_has_last_sequence :: bool
  ve_compact_pointers :: "(nat \<times> slice) list"
  ve_deleted_files :: "(nat \<times> u64) set"
  ve_new_files :: "(nat \<times> FileMetaData) list"

definition edit_Clear :: "VersionEdit \<Rightarrow> VersionEdit" where
  "edit_Clear e =
     e\<lparr>ve_comparator := [], ve_log_number := 0, ve_prev_log_number := 0, ve_last_sequence := 0,
       ve_next_file_number := 0, ve_has_comparator := False, ve_has_log_number := False,
       ve_has_prev_log_number := False, ve_has_next_file_number := False, ve_has_last_sequence := False,
       ve_deleted_files := {}, ve_new_files := []\<rparr>"

text \<open>The constructor calls \<open>Clear\<close>; a vector is empty at first.\<close>

definition new_edit :: VersionEdit where
  "new_edit = edit_Clear
     \<lparr>ve_comparator = [], ve_log_number = 0, ve_prev_log_number = 0, ve_next_file_number = 0,
      ve_last_sequence = 0, ve_has_comparator = False, ve_has_log_number = False,
      ve_has_prev_log_number = False, ve_has_next_file_number = False, ve_has_last_sequence = False,
      ve_compact_pointers = [], ve_deleted_files = {}, ve_new_files = []\<rparr>"

section \<open>Encoding\<close>

definition put_number :: "bool \<Rightarrow> u32 \<Rightarrow> u64 \<Rightarrow> slice \<Rightarrow> slice" where
  "put_number has t number dst = (if has then PutVarint64 (PutVarint32 dst t) number else dst)"

definition put_pointer :: "nat \<times> slice \<Rightarrow> slice \<Rightarrow> slice" where
  "put_pointer p dst =
     PutLengthPrefixedSlice (PutVarint32 (PutVarint32 dst kCompactPointer) (of_nat (fst p))) (snd p)"

definition put_deleted :: "nat \<times> u64 \<Rightarrow> slice \<Rightarrow> slice" where
  "put_deleted d dst = PutVarint64 (PutVarint32 (PutVarint32 dst kDeletedFile) (of_nat (fst d))) (snd d)"

definition put_new_file :: "nat \<times> FileMetaData \<Rightarrow> slice \<Rightarrow> slice" where
  "put_new_file n dst =
     (let f = snd n;
          dst = PutVarint32 dst kNewFile;
          dst = PutVarint32 dst (of_nat (fst n));
          dst = PutVarint64 dst (fm_number f);
          dst = PutVarint64 dst (fm_file_size f);
          dst = PutLengthPrefixedSlice dst (fm_smallest f)
      in PutLengthPrefixedSlice dst (fm_largest f))"

definition edit_EncodeTo :: "VersionEdit \<Rightarrow> slice \<Rightarrow> slice" where
  "edit_EncodeTo e dst =
     (let dst = (if ve_has_comparator e
                 then PutLengthPrefixedSlice (PutVarint32 dst kComparator) (ve_comparator e) else dst);
          dst = put_number (ve_has_log_number e) kLogNumber (ve_log_number e) dst;
          dst = put_number (ve_has_prev_log_number e) kPrevLogNumber (ve_prev_log_number e) dst;
          dst = put_number (ve_has_next_file_number e) kNextFileNumber (ve_next_file_number e) dst;
          dst = put_number (ve_has_last_sequence e) kLastSequence (ve_last_sequence e) dst;
          dst = fold put_pointer (ve_compact_pointers e) dst;
          dst = fold put_deleted (sorted_list_of_set (ve_deleted_files e)) dst
      in fold put_new_file (ve_new_files e) dst)"

section \<open>Decoding\<close>

definition GetInternalKey :: "slice \<Rightarrow> slice option \<times> slice" where
  "GetInternalKey input =
     and_then (GetLengthPrefixedSlice input) (\<lambda>str input. (if str \<noteq> [] then Some str else None, input))"

definition GetLevel :: "slice \<Rightarrow> nat option \<times> slice" where
  "GetLevel input =
     and_then (GetVarint32 input) (\<lambda>v input. (if unat v < kNumLevels then Some (unat v) else None, input))"

text \<open>One field: \<open>field\<close> stores what was read, or the loop has a message.\<close>

definition field :: "('a option \<times> slice) \<Rightarrow> string \<Rightarrow> ('a \<Rightarrow> VersionEdit \<Rightarrow> VersionEdit) \<Rightarrow> VersionEdit \<Rightarrow>
    (string + slice) \<times> VersionEdit" where
  "field r msg store e = (case r of (Some x, input) \<Rightarrow> (Inr input, store x e) | (None, _) \<Rightarrow> (Inl msg, e))"

definition decode_field :: "u32 \<Rightarrow> slice \<Rightarrow> VersionEdit \<Rightarrow> (string + slice) \<times> VersionEdit" where
  "decode_field t input =
     (if t = kComparator
      then field (GetLengthPrefixedSlice input) ''comparator name''
             (\<lambda>str e. e\<lparr>ve_comparator := str, ve_has_comparator := True\<rparr>)
      else if t = kLogNumber
      then field (GetVarint64 input) ''log number''
             (\<lambda>n e. e\<lparr>ve_log_number := n, ve_has_log_number := True\<rparr>)
      else if t = kPrevLogNumber
      then field (GetVarint64 input) ''previous log number''
             (\<lambda>n e. e\<lparr>ve_prev_log_number := n, ve_has_prev_log_number := True\<rparr>)
      else if t = kNextFileNumber
      then field (GetVarint64 input) ''next file number''
             (\<lambda>n e. e\<lparr>ve_next_file_number := n, ve_has_next_file_number := True\<rparr>)
      else if t = kLastSequence
      then field (GetVarint64 input) ''last sequence number''
             (\<lambda>n e. e\<lparr>ve_last_sequence := n, ve_has_last_sequence := True\<rparr>)
      else if t = kCompactPointer
      then field (and_then (GetLevel input) (\<lambda>level input.
                    and_then (GetInternalKey input) (\<lambda>key input. (Some (level, key), input))))
             ''compaction pointer''
             (\<lambda>p e. e\<lparr>ve_compact_pointers := ve_compact_pointers e @ [p]\<rparr>)
      else if t = kDeletedFile
      then field (and_then (GetLevel input) (\<lambda>level input.
                    and_then (GetVarint64 input) (\<lambda>number input. (Some (level, number), input))))
             ''deleted file''
             (\<lambda>d e. e\<lparr>ve_deleted_files := insert d (ve_deleted_files e)\<rparr>)
      else if t = kNewFile
      then field (and_then (GetLevel input) (\<lambda>level input.
                    and_then (GetVarint64 input) (\<lambda>number input.
                    and_then (GetVarint64 input) (\<lambda>file_size input.
                    and_then (GetInternalKey input) (\<lambda>smallest input.
                    and_then (GetInternalKey input) (\<lambda>largest input.
                      (Some (level, \<lparr>fm_number = number, fm_file_size = file_size,
                                     fm_smallest = smallest, fm_largest = largest\<rparr>), input)))))))
             ''new-file entry''
             (\<lambda>n e. e\<lparr>ve_new_files := ve_new_files e @ [n]\<rparr>)
      else (\<lambda>e. (Inl ''unknown tag'', e)))"

lemma GetLevel_shorter: "GetLevel p = (Some v, q) \<Longrightarrow> length q < length p"
  by (auto simp: GetLevel_def and_then_def dest: GetVarint32_shorter split: option.splits prod.splits if_split_asm)

lemma GetInternalKey_shorter: "GetInternalKey p = (Some v, q) \<Longrightarrow> length q < length p"
  by (auto simp: GetInternalKey_def and_then_def dest: GetLengthPrefixedSlice_shorter
      split: option.splits prod.splits if_split_asm)

lemma field_shorter:
  assumes "field r msg store e = (Inr q, e')" and "\<And>x p. r = (Some x, p) \<Longrightarrow> length p < n"
  shows "length q < n"
  using assms by (auto simp: field_def split: prod.splits option.splits)

lemmas readers_shorter = GetLevel_shorter GetInternalKey_shorter GetVarint64_shorter GetLengthPrefixedSlice_shorter

lemma decode_field_shorter: "decode_field t input e = (Inr q, e') \<Longrightarrow> length q < length input"
  unfolding decode_field_def
  by (auto split: if_split_asm elim!: field_shorter
      simp: and_then_def dest!: readers_shorter split: prod.split_asm option.split_asm)

function decode_loop :: "slice \<Rightarrow> VersionEdit \<Rightarrow> string option \<times> VersionEdit" where
  "decode_loop input e =
     (case GetVarint32 input of
        (None, input) \<Rightarrow> (if input \<noteq> [] then Some ''invalid tag'' else None, e)
      | (Some t, input) \<Rightarrow>
          (case decode_field t input e of
             (Inl msg, e) \<Rightarrow> (Some msg, e)
           | (Inr input, e) \<Rightarrow> decode_loop input e))"
  by auto
termination
  by (relation "measure (\<lambda>(input, e). length input)")
    (auto dest!: sym [of "(Some _, _)"] sym [of "(Inr _, _)"] GetVarint32_shorter decode_field_shorter)

declare decode_loop.simps [simp del]

definition edit_DecodeFrom :: "slice \<Rightarrow> VersionEdit \<Rightarrow> Status \<times> VersionEdit" where
  "edit_DecodeFrom src e =
     (case decode_loop src (edit_Clear e) of
        (None, e) \<Rightarrow> (OK, e)
      | (Some msg, e) \<Rightarrow> (Corruption (''VersionEdit: '' @ msg), e))"

section \<open>Making an edit\<close>

definition SetComparatorName :: "slice \<Rightarrow> VersionEdit \<Rightarrow> VersionEdit" where
  "SetComparatorName name e = e\<lparr>ve_has_comparator := True, ve_comparator := name\<rparr>"

definition SetLogNumber :: "u64 \<Rightarrow> VersionEdit \<Rightarrow> VersionEdit" where
  "SetLogNumber num e = e\<lparr>ve_has_log_number := True, ve_log_number := num\<rparr>"

definition SetPrevLogNumber :: "u64 \<Rightarrow> VersionEdit \<Rightarrow> VersionEdit" where
  "SetPrevLogNumber num e = e\<lparr>ve_has_prev_log_number := True, ve_prev_log_number := num\<rparr>"

definition SetNextFile :: "u64 \<Rightarrow> VersionEdit \<Rightarrow> VersionEdit" where
  "SetNextFile num e = e\<lparr>ve_has_next_file_number := True, ve_next_file_number := num\<rparr>"

definition SetLastSequence :: "u64 \<Rightarrow> VersionEdit \<Rightarrow> VersionEdit" where
  "SetLastSequence seq e = e\<lparr>ve_has_last_sequence := True, ve_last_sequence := seq\<rparr>"

definition SetCompactPointer :: "nat \<Rightarrow> slice \<Rightarrow> VersionEdit \<Rightarrow> VersionEdit" where
  "SetCompactPointer level key e = e\<lparr>ve_compact_pointers := ve_compact_pointers e @ [(level, key)]\<rparr>"

definition AddFile :: "nat \<Rightarrow> u64 \<Rightarrow> u64 \<Rightarrow> slice \<Rightarrow> slice \<Rightarrow> VersionEdit \<Rightarrow> VersionEdit" where
  "AddFile level file file_size smallest largest e =
     e\<lparr>ve_new_files := ve_new_files e @
         [(level, \<lparr>fm_number = file, fm_file_size = file_size, fm_smallest = smallest, fm_largest = largest\<rparr>)]\<rparr>"

definition RemoveFile :: "nat \<Rightarrow> u64 \<Rightarrow> VersionEdit \<Rightarrow> VersionEdit" where
  "RemoveFile level file e = e\<lparr>ve_deleted_files := insert (level, file) (ve_deleted_files e)\<rparr>"

text \<open>The edits that can be made by these: levels exist, keys are there and strings have 32-bit
  lengths, and a number is set only with its flag.\<close>

definition key_fits :: "slice \<Rightarrow> bool" where
  "key_fits k \<longleftrightarrow> k \<noteq> [] \<and> length k < 2 ^ 32"

definition edit_ok :: "VersionEdit \<Rightarrow> bool" where
  "edit_ok e \<longleftrightarrow>
     length (ve_comparator e) < 2 ^ 32 \<and>
     (\<not> ve_has_comparator e \<longrightarrow> ve_comparator e = []) \<and> (\<not> ve_has_log_number e \<longrightarrow> ve_log_number e = 0) \<and>
     (\<not> ve_has_prev_log_number e \<longrightarrow> ve_prev_log_number e = 0) \<and>
     (\<not> ve_has_next_file_number e \<longrightarrow> ve_next_file_number e = 0) \<and>
     (\<not> ve_has_last_sequence e \<longrightarrow> ve_last_sequence e = 0) \<and> finite (ve_deleted_files e) \<and>
     (\<forall>(level, key) \<in> set (ve_compact_pointers e). level < kNumLevels \<and> key_fits key) \<and>
     (\<forall>(level, number) \<in> ve_deleted_files e. level < kNumLevels) \<and>
     (\<forall>(level, f) \<in> set (ve_new_files e). level < kNumLevels \<and> key_fits (fm_smallest f) \<and> key_fits (fm_largest f))"

lemma new_edit_ok: "edit_ok new_edit"
  by (simp add: edit_ok_def new_edit_def edit_Clear_def)

lemma edits_ok:
  "edit_ok e \<Longrightarrow> edit_ok (SetLogNumber n e)" "edit_ok e \<Longrightarrow> edit_ok (SetPrevLogNumber n e)"
  "edit_ok e \<Longrightarrow> edit_ok (SetNextFile n e)" "edit_ok e \<Longrightarrow> edit_ok (SetLastSequence n e)"
  "edit_ok e \<Longrightarrow> length name < 2 ^ 32 \<Longrightarrow> edit_ok (SetComparatorName name e)"
  "edit_ok e \<Longrightarrow> level < kNumLevels \<Longrightarrow> edit_ok (RemoveFile level n e)"
  "edit_ok e \<Longrightarrow> level < kNumLevels \<Longrightarrow> key_fits k \<Longrightarrow> edit_ok (SetCompactPointer level k e)"
  "edit_ok e \<Longrightarrow> level < kNumLevels \<Longrightarrow> key_fits k \<Longrightarrow> key_fits k' \<Longrightarrow> edit_ok (AddFile level n m k k' e)"
  by (auto simp: edit_ok_def SetLogNumber_def SetPrevLogNumber_def SetNextFile_def SetLastSequence_def
      SetCompactPointer_def AddFile_def RemoveFile_def SetComparatorName_def)

section \<open>Round trip\<close>

lemma GetVarint_all [simp]: "GetVarint32 [] = (None, [])"
  by (simp add: GetVarint32_def GetVarint32Ptr_def GetVarint32PtrFallback_def)

lemma decode_loop_end: "decode_loop [] e = (None, e)"
  by (simp add: decode_loop.simps)

lemma decode_loop_tag:
  "decode_loop (EncodeVarint32 t @ rest) e =
    (case decode_field t rest e of (Inl msg, e) \<Rightarrow> (Some msg, e) | (Inr rest, e) \<Rightarrow> decode_loop rest e)"
  by (simp add: decode_loop.simps [of "EncodeVarint32 t @ rest"])

lemma GetLevel_Encode [simp]:
  "level < kNumLevels \<Longrightarrow> GetLevel (EncodeVarint32 (of_nat level) @ rest) = (Some level, rest)"
  by (simp add: GetLevel_def unat_of_nat take_bit_nat_eq_self kNumLevels_def)

lemma GetInternalKey_Put [simp]:
  "key_fits k \<Longrightarrow> GetInternalKey (EncodeVarint32 (of_nat (length k)) @ k @ rest) = (Some k, rest)"
  by (simp add: GetInternalKey_def key_fits_def)

lemma put_append:
  "put_number has t n dst = dst @ put_number has t n []" "put_pointer p dst = dst @ put_pointer p []"
  "put_deleted d dst = dst @ put_deleted d []" "put_new_file f dst = dst @ put_new_file f []"
  by (simp_all add: put_number_def put_pointer_def put_deleted_def put_new_file_def PutVarint32_def PutVarint64_def
      PutLengthPrefixedSlice_def Let_def)

lemma fold_put:
  assumes "\<And>x dst. put x dst = dst @ put x []"
  shows "fold put xs dst = dst @ concat (map (\<lambda>x. put x []) xs)"
proof (induction xs arbitrary: dst)
  case (Cons x xs)
  have "put x dst = dst @ put x []" by (rule assms)
  with Cons show ?case by simp
qed simp

text \<open>The encoding is a sequence of fields, each with its tag.\<close>

definition edit_fields :: "VersionEdit \<Rightarrow> slice" where
  "edit_fields e =
     (if ve_has_comparator e then PutLengthPrefixedSlice (PutVarint32 [] kComparator) (ve_comparator e) else []) @
     put_number (ve_has_log_number e) kLogNumber (ve_log_number e) [] @
     put_number (ve_has_prev_log_number e) kPrevLogNumber (ve_prev_log_number e) [] @
     put_number (ve_has_next_file_number e) kNextFileNumber (ve_next_file_number e) [] @
     put_number (ve_has_last_sequence e) kLastSequence (ve_last_sequence e) [] @
     concat (map (\<lambda>p. put_pointer p []) (ve_compact_pointers e)) @
     concat (map (\<lambda>d. put_deleted d []) (sorted_list_of_set (ve_deleted_files e))) @
     concat (map (\<lambda>f. put_new_file f []) (ve_new_files e))"

lemma edit_EncodeTo_fields: "edit_EncodeTo e dst = dst @ edit_fields e"
proof -
  have c: "PutLengthPrefixedSlice (PutVarint32 d t) s = d @ PutLengthPrefixedSlice (PutVarint32 [] t) s" for d t s
    by (simp add: PutLengthPrefixedSlice_def PutVarint32_def)
  show ?thesis
    unfolding edit_EncodeTo_def edit_fields_def Let_def fold_put [where put = put_pointer, OF put_append(2)]
      fold_put [where put = put_deleted, OF put_append(3)] fold_put [where put = put_new_file, OF put_append(4)]
    by (subst (1 2 3 4) put_append(1)) (subst c, simp)
qed

lemmas decode_one = decode_loop_tag decode_field_def field_def edit_tags PutLengthPrefixedSlice_def PutVarint32_def
  PutVarint64_def

lemma decode_comparator:
  "length s < 2 ^ 32 \<Longrightarrow>
   decode_loop ((if has then PutLengthPrefixedSlice (PutVarint32 [] kComparator) s else []) @ rest) e =
     decode_loop rest (if has then e\<lparr>ve_comparator := s, ve_has_comparator := True\<rparr> else e)"
  by (simp add: decode_one)

lemma decode_numbers:
  "decode_loop (put_number has kLogNumber n [] @ rest) e =
     decode_loop rest (if has then e\<lparr>ve_log_number := n, ve_has_log_number := True\<rparr> else e)"
  "decode_loop (put_number has kPrevLogNumber n [] @ rest) e =
     decode_loop rest (if has then e\<lparr>ve_prev_log_number := n, ve_has_prev_log_number := True\<rparr> else e)"
  "decode_loop (put_number has kNextFileNumber n [] @ rest) e =
     decode_loop rest (if has then e\<lparr>ve_next_file_number := n, ve_has_next_file_number := True\<rparr> else e)"
  "decode_loop (put_number has kLastSequence n [] @ rest) e =
     decode_loop rest (if has then e\<lparr>ve_last_sequence := n, ve_has_last_sequence := True\<rparr> else e)"
  by (simp_all add: decode_one put_number_def)

lemma decode_pointers:
  assumes "\<forall>(level, key) \<in> set ps. level < kNumLevels \<and> key_fits key"
  shows "decode_loop (concat (map (\<lambda>p. put_pointer p []) ps) @ rest) e =
    decode_loop rest (e\<lparr>ve_compact_pointers := ve_compact_pointers e @ ps\<rparr>)"
  using assms by (induction ps arbitrary: e) (auto simp: decode_one put_pointer_def)

lemma decode_deleted:
  assumes "\<forall>(level, number) \<in> set ds. level < kNumLevels"
  shows "decode_loop (concat (map (\<lambda>d. put_deleted d []) ds) @ rest) e =
    decode_loop rest (e\<lparr>ve_deleted_files := ve_deleted_files e \<union> set ds\<rparr>)"
  using assms by (induction ds arbitrary: e) (auto simp: decode_one put_deleted_def)

lemma FileMetaData_eta [simp]:
  "\<lparr>fm_number = fm_number f, fm_file_size = fm_file_size f, fm_smallest = fm_smallest f, fm_largest = fm_largest f\<rparr> = f"
  by simp

lemma decode_new_files:
  assumes "\<forall>(level, f) \<in> set fs. level < kNumLevels \<and> key_fits (fm_smallest f) \<and> key_fits (fm_largest f)"
  shows "decode_loop (concat (map (\<lambda>f. put_new_file f []) fs) @ rest) e =
    decode_loop rest (e\<lparr>ve_new_files := ve_new_files e @ fs\<rparr>)"
  using assms by (induction fs arbitrary: e) (auto simp: decode_one put_new_file_def Let_def)

lemma DecodeFrom_EncodeTo:
  assumes "edit_ok e"
  shows "edit_DecodeFrom (edit_EncodeTo e []) e0 =
    (OK, e\<lparr>ve_compact_pointers := ve_compact_pointers e0 @ ve_compact_pointers e\<rparr>)"
proof -
  have ok: "length (ve_comparator e) < 2 ^ 32" "finite (ve_deleted_files e)"
    "\<forall>(level, key) \<in> set (ve_compact_pointers e). level < kNumLevels \<and> key_fits key"
    "\<forall>(level, number) \<in> set (sorted_list_of_set (ve_deleted_files e)). level < kNumLevels"
    "\<forall>(level, f) \<in> set (ve_new_files e). level < kNumLevels \<and> key_fits (fm_smallest f) \<and> key_fits (fm_largest f)"
    using assms by (auto simp: edit_ok_def)
  have "decode_loop (edit_EncodeTo e []) (edit_Clear e0) =
      (None, e\<lparr>ve_compact_pointers := ve_compact_pointers e0 @ ve_compact_pointers e\<rparr>)"
    using assms ok(2) decode_new_files [OF ok(5), of "[]"]
    by (simp add: edit_EncodeTo_fields edit_fields_def decode_comparator [OF ok(1)] decode_numbers decode_pointers [OF ok(3)]
        decode_deleted [OF ok(4)] decode_loop_end) (auto simp: edit_ok_def edit_Clear_def)
  then show ?thesis by (simp add: edit_DecodeFrom_def)
qed

text \<open>C18: version edits survive: an edit made by the class's operations, encoded for the manifest and
  decoded into a new object, is the same edit, with every file, pointer, number and flag.\<close>

theorem version_edit_roundtrip:
  assumes "edit_ok e"
  shows "edit_DecodeFrom (edit_EncodeTo e []) new_edit = (OK, e)"
  using DecodeFrom_EncodeTo [OF assms, of new_edit] by (simp add: new_edit_def edit_Clear_def)

lemma version_edit_roundtrip_witness:
  "edit_DecodeFrom (edit_EncodeTo (RemoveFile 3 700 (AddFile 2 8 4096 [1] [9] (SetLogNumber 300 new_edit))) []) new_edit =
    (OK, RemoveFile 3 700 (AddFile 2 8 4096 [1] [9] (SetLogNumber 300 new_edit)))"
  by (rule version_edit_roundtrip) (simp add: edits_ok new_edit_ok kNumLevels_def key_fits_def)

text \<open>C33: decoding does not start afresh. \<open>Clear\<close> forgets all of an edit but its compaction pointers, so
  an object that is decoded into twice has the pointers of both edits.\<close>

theorem decode_keeps_pointers:
  assumes "edit_ok e" and "edit_ok e'"
  shows "edit_DecodeFrom (edit_EncodeTo e' []) (snd (edit_DecodeFrom (edit_EncodeTo e []) new_edit)) =
    (OK, e'\<lparr>ve_compact_pointers := ve_compact_pointers e @ ve_compact_pointers e'\<rparr>)"
  using DecodeFrom_EncodeTo [OF assms(1), of new_edit] DecodeFrom_EncodeTo [OF assms(2)]
  by (simp add: new_edit_def edit_Clear_def)

lemma decode_keeps_pointers_witness:
  "edit_DecodeFrom (edit_EncodeTo (SetLogNumber 7 new_edit) [])
     (snd (edit_DecodeFrom (edit_EncodeTo (SetCompactPointer 1 [5] new_edit) []) new_edit)) =
   (OK, (SetLogNumber 7 new_edit)\<lparr>ve_compact_pointers := [(1, [5])]\<rparr>)"
proof -
  have "edit_ok (SetCompactPointer 1 [5] new_edit)" "edit_ok (SetLogNumber 7 new_edit)"
    by (simp_all add: edits_ok new_edit_ok kNumLevels_def key_fits_def)
  from decode_keeps_pointers [OF this] show ?thesis
    by (simp add: SetCompactPointer_def SetLogNumber_def new_edit_def edit_Clear_def)
qed

end
