(* ===== verification/Ldb_Crc_Props.thy ===== *)
theory Ldb_Crc_Props
  imports Ldb_Crc
begin

text \<open>
  The portable checksum is CRC-32C, at any alignment of the data. A table is determined by its
  entries at the powers of two, since it is linear over exclusive or; so are a step of one byte and
  a step of a stride, and two linear functions agree once they agree on the 32 single bits.
\<close>

section \<open>Linear functions on words\<close>

definition xor_linear :: "(u32 \<Rightarrow> u32) \<Rightarrow> bool" where
  "xor_linear f \<longleftrightarrow> (\<forall>a b. f (a XOR b) = f a XOR f b)"

lemma xor_linearD: "xor_linear f \<Longrightarrow> f (a XOR b) = f a XOR f b"
  by (simp add: xor_linear_def)

lemma xor_linear_0: "xor_linear f \<Longrightarrow> f 0 = 0"
  using xor_linearD [of f 0 0] by simp

lemma xor_linear_funpow: "xor_linear f \<Longrightarrow> xor_linear (f ^^ n)"
  by (induction n) (simp_all add: xor_linear_def)

lemma take_bit_Suc_xor:
  "take_bit (Suc n) w = take_bit n w XOR (if bit w n then push_bit n 1 else 0)" for w :: u32
  by (intro bit_word_eqI) (auto simp: bit_xor_iff bit_take_bit_iff bit_exp_iff less_Suc_eq)

lemma xor_linear_eqI:
  assumes "xor_linear f" and "xor_linear g" and "\<forall>k < 32. f (push_bit k 1) = g (push_bit k 1)"
  shows "f w = g w"
proof -
  have "n \<le> 32 \<Longrightarrow> f (take_bit n w) = g (take_bit n w)" for n
  proof (induction n)
    case (Suc n)
    then show ?case
      using assms(3) by (simp only: take_bit_Suc_xor xor_linearD [OF assms(1)] xor_linearD [OF assms(2)])
        (simp add: xor_linear_0 [OF assms(1)] xor_linear_0 [OF assms(2)])
  qed (simp add: xor_linear_0 [OF assms(1)] xor_linear_0 [OF assms(2)])
  from this [of 32] show ?thesis by (simp add: take_bit_word_eq_self)
qed

text \<open>The 32 single bits.\<close>

definition bits32 :: "u32 list" where
  "bits32 = map (\<lambda>k. push_bit k 1) [0..<32]"

lemma bits32_eval: "bits32 = [0x1, 0x2, 0x4, 0x8, 0x10, 0x20, 0x40, 0x80, 0x100, 0x200, 0x400, 0x800, 0x1000, 0x2000, 0x4000, 0x8000, 0x10000, 0x20000, 0x40000, 0x80000, 0x100000, 0x200000, 0x400000, 0x800000, 0x1000000, 0x2000000, 0x4000000, 0x8000000, 0x10000000, 0x20000000, 0x40000000, 0x80000000]"
  by (simp add: bits32_def upt_rec)

lemma push_bit_bits32: "k < 32 \<Longrightarrow> push_bit k (1 :: u32) \<in> set bits32"
  by (simp add: bits32_def)

lemma xor_linear_bits32:
  assumes "xor_linear f" and "xor_linear g" and "list_all (\<lambda>w. f w = g w) bits32"
  shows "f w = g w"
  using assms push_bit_bits32 by (intro xor_linear_eqI) (auto simp: list_all_iff)

section \<open>Tables from eight entries\<close>

primrec xor_span :: "u32 list \<Rightarrow> u32 list" where
  "xor_span [] = [0]"
| "xor_span (e # es) = xor_span es @ map (\<lambda>x. e XOR x) (xor_span es)"

primrec xor_comb :: "u32 list \<Rightarrow> u32 \<Rightarrow> u32" where
  "xor_comb [] w = 0"
| "xor_comb (e # es) w = (if bit w (length es) then e else 0) XOR xor_comb es w"

lemma length_xor_span [simp]: "length (xor_span es) = 2 ^ length es"
  by (induction es) simp_all

lemma xor_comb_linear: "xor_linear (xor_comb es)"
  by (induction es) (auto simp: xor_linear_def bit_xor_iff xor.assoc xor.left_commute)

lemma xor_comb_cong: "\<forall>k < length es. bit v k = bit w k \<Longrightarrow> xor_comb es v = xor_comb es w"
  by (induction es) simp_all

lemma xor_span_nth:
  assumes "unat c < 2 ^ length es" and "length es \<le> 31"
  shows "xor_span es ! unat c = xor_comb es c"
  using assms
proof (induction es arbitrary: c)
  case (Cons e es)
  let ?n = "length es"
  show ?case
  proof (cases "unat c < 2 ^ ?n")
    case True
    then have "\<not> bit c ?n" by (rule bit_word_small) simp
    with True Cons show ?thesis by (simp add: nth_append)
  next
    case False
    have lt: "unat c < 2 * 2 ^ ?n" using Cons.prems(1) by simp
    have t: "unat (take_bit ?n c) = unat c - 2 ^ ?n"
    proof -
      have "unat c = (unat c - 2 ^ ?n) + 2 ^ ?n" using False by simp
      then have "unat c mod 2 ^ ?n = (unat c - 2 ^ ?n) mod 2 ^ ?n" by (metis mod_add_self2)
      then show ?thesis using lt by (simp add: unsigned_take_bit_eq take_bit_eq_mod [of _ "unat c"])
    qed
    have "unat c div 2 ^ ?n = 1"
      using False lt by (intro div_nat_eqI) simp_all
    then have "bit (unat c) ?n" by (simp add: bit_iff_odd)
    then have bit: "bit c ?n" by (simp add: bit_unsigned_iff)
    have "xor_span es ! (unat c - 2 ^ ?n) = xor_comb es (take_bit ?n c)"
      unfolding t [symmetric] using Cons.prems(2) lt False t by (intro Cons.IH) simp_all
    also have "\<dots> = xor_comb es c" by (intro xor_comb_cong) (simp add: bit_take_bit_iff)
    finally show ?thesis using False lt bit by (simp add: nth_append)
  qed
qed simp

definition byte_basis :: "u32 list" where
  "byte_basis = [0x82f63b78, 0x417b1dbc, 0x20bd8ede, 0x105ec76f, 0x8ad958cf, 0xc79a971f, 0xe13b70f7, 0xf26b8303]"

definition stride0_basis :: "u32 list" where
  "stride0_basis = [0x18b8ea18, 0x0c5c750c, 0x062e3a86, 0x03171d43, 0x837db5d9, 0xc348e194, 0x61a470ca, 0x30d23865]"

definition stride1_basis :: "u32 list" where
  "stride1_basis = [0x9a9f274a, 0x4d4f93a5, 0xa451f2aa, 0x5228f955, 0xabe247d2, 0x55f123e9, 0xa80eaa8c, 0x54075546]"

definition stride2_basis :: "u32 list" where
  "stride2_basis = [0x2a03aaa3, 0x97f7ee29, 0xc90dcc6c, 0x6486e636, 0x3243731b, 0x9bd782f5, 0xcf1dfa02, 0x678efd01]"

definition stride3_basis :: "u32 list" where
  "stride3_basis = [0xb13145f8, 0x5898a2fc, 0x2c4c517e, 0x162628bf, 0x89e52f27, 0xc604aceb, 0xe1f46d0d, 0xf20c0dfe]"

lemma byte_span: "kByteExtensionTable = xor_span byte_basis"
  by (simp add: kByteExtensionTable_def byte_basis_def)

lemma stride0_span: "kStrideExtensionTable0 = xor_span stride0_basis"
  by (simp add: kStrideExtensionTable0_def stride0_basis_def)

lemma stride1_span: "kStrideExtensionTable1 = xor_span stride1_basis"
  by (simp add: kStrideExtensionTable1_def stride1_basis_def)

lemma stride2_span: "kStrideExtensionTable2 = xor_span stride2_basis"
  by (simp add: kStrideExtensionTable2_def stride2_basis_def)

lemma stride3_span: "kStrideExtensionTable3 = xor_span stride3_basis"
  by (simp add: kStrideExtensionTable3_def stride3_basis_def)

lemma length_bases [simp]:
  "length byte_basis = 8" "length stride0_basis = 8" "length stride1_basis = 8" "length stride2_basis = 8"
  "length stride3_basis = 8"
  by (simp_all add: byte_basis_def stride0_basis_def stride1_basis_def stride2_basis_def stride3_basis_def)

lemma span_low_byte:
  assumes "length es = 8"
  shows "xor_span es ! unat (w AND 0xFF) = xor_comb es w"
proof -
  have low: "w AND 0xFF = take_bit 8 w" by (simp add: take_bit_eq_mask mask_eq_exp_minus_1)
  have "unat (take_bit 8 w) < 2 ^ 8"
    by (simp add: unsigned_take_bit_eq take_bit_nat_less_exp [of 8 "unat w", simplified])
  then have "xor_span es ! unat (take_bit 8 w) = xor_comb es (take_bit 8 w)"
    using assms by (intro xor_span_nth) simp_all
  also have "\<dots> = xor_comb es w" using assms by (intro xor_comb_cong) (simp add: bit_take_bit_iff)
  finally show ?thesis by (simp only: low)
qed

lemma span_high_byte:
  assumes "length es = 8"
  shows "xor_span es ! unat (drop_bit 24 w) = xor_comb es (drop_bit 24 w)"
proof -
  have "unat w < 2 ^ 32" using unsigned_less [of w, where ?'a = nat] by simp
  then have "unat (drop_bit 24 w) < 2 ^ 8" by (simp add: drop_bits_div less_mult_imp_div_less)
  then show ?thesis using assms by (intro xor_span_nth) simp_all
qed

section \<open>A step is linear\<close>

lemma word_step_basis: "word_step w = drop_bit 8 w XOR xor_comb byte_basis w"
  by (simp add: word_step_def byte_span span_low_byte)

text \<open>Steps written out, for evaluation on single bits.\<close>

lemma xor_comb_8:
  "xor_comb [a, b, c, d, e, f, g, h] w =
     (if bit w 7 then a else 0) XOR (if bit w 6 then b else 0) XOR (if bit w 5 then c else 0) XOR
     (if bit w 4 then d else 0) XOR (if bit w 3 then e else 0) XOR (if bit w 2 then f else 0) XOR
     (if bit w 1 then g else 0) XOR (if bit w 0 then h else 0)"
  by (simp add: eval_nat_numeral split del: if_split)

lemma word_step_eval:
  "word_step w = drop_bit 8 w XOR
     (if bit w 7 then 0x82f63b78 else 0) XOR
     (if bit w 6 then 0x417b1dbc else 0) XOR
     (if bit w 5 then 0x20bd8ede else 0) XOR
     (if bit w 4 then 0x105ec76f else 0) XOR
     (if bit w 3 then 0x8ad958cf else 0) XOR
     (if bit w 2 then 0xc79a971f else 0) XOR
     (if bit w 1 then 0xe13b70f7 else 0) XOR
     (if bit w 0 then 0xf26b8303 else 0)"
  by (simp only: word_step_basis byte_basis_def xor_comb_8)

lemma drop_bit_linear: "xor_linear (drop_bit k)"
  by (simp add: xor_linear_def drop_bit_xor)

lemma xor_linear_xor: "xor_linear f \<Longrightarrow> xor_linear g \<Longrightarrow> xor_linear (\<lambda>w. f w XOR g w)"
  by (simp add: xor_linear_def xor.assoc xor.left_commute)

lemma xor_linear_comp: "xor_linear f \<Longrightarrow> xor_linear g \<Longrightarrow> xor_linear (\<lambda>w. f (g w))"
  by (simp add: xor_linear_def)

lemma word_step_linear: "xor_linear word_step"
  unfolding word_step_basis [abs_def]
  by (intro xor_linear_xor drop_bit_linear xor_comb_linear)

lemma STEP1_word_step: "STEP1 l b = word_step (l XOR ucast b)"
proof -
  have mask: "w AND 0xFF = take_bit 8 w" for w :: u32 by (simp add: take_bit_eq_mask mask_eq_exp_minus_1)
  have "take_bit 8 (ucast b :: u32) = ucast b" "drop_bit 8 (ucast b :: u32) = 0"
    using unat_u8_lt [of b]
    by (simp_all add: word_unat_eq_iff unsigned_take_bit_eq take_bit_nat_eq_self drop_bits_div)
  then show ?thesis
    by (simp add: STEP1_def word_step_def Let_def mask take_bit_xor drop_bit_xor xor.commute)
qed

text \<open>The reference: division by the Castagnoli polynomial, bit by bit.\<close>

definition crc_bit :: "u32 \<Rightarrow> u32" where
  "crc_bit c = drop_bit 1 c XOR (if bit c 0 then 0x82f63b78 else 0)"

definition crc_byte :: "u32 \<Rightarrow> u8 \<Rightarrow> u32" where
  "crc_byte l b = (crc_bit ^^ 8) (l XOR ucast b)"

definition crc32c :: "u32 \<Rightarrow> slice \<Rightarrow> u32" where
  "crc32c crc data = foldl crc_byte (crc XOR 0xFFFFFFFF) data XOR 0xFFFFFFFF"

lemma crc_bit_linear: "xor_linear crc_bit"
  by (auto simp: xor_linear_def crc_bit_def drop_bit_xor bit_xor_iff xor.assoc xor.left_commute)

lemma funpow_8: "(f ^^ 8) x = f (f (f (f (f (f (f (f x)))))))" and funpow_16: "(f ^^ 16) x = (f ^^ 8) ((f ^^ 8) x)"
  by (simp_all add: eval_nat_numeral)

lemma word_step_bits: "word_step w = (crc_bit ^^ 8) w"
proof (rule xor_linear_bits32 [where f = word_step])
  show "list_all (\<lambda>w. word_step w = (crc_bit ^^ 8) w) bits32"
    by (simp add: bits32_eval word_step_eval funpow_8 crc_bit_def split del: if_split)
qed (intro word_step_linear xor_linear_funpow crc_bit_linear)+

lemma STEP1_crc_byte: "STEP1 = crc_byte"
  by (intro ext) (simp add: STEP1_word_step word_step_bits crc_byte_def)

section \<open>A stride is sixteen steps\<close>

definition stride_comb :: "u32 \<Rightarrow> u32" where
  "stride_comb c = xor_comb stride3_basis c XOR xor_comb stride2_basis (drop_bit 8 c) XOR
     xor_comb stride1_basis (drop_bit 16 c) XOR xor_comb stride0_basis (drop_bit 24 c)"

lemma stride_comb_eval:
  "stride_comb w =
     (if bit w 7 then 0xb13145f8 else 0) XOR
     (if bit w 6 then 0x5898a2fc else 0) XOR
     (if bit w 5 then 0x2c4c517e else 0) XOR
     (if bit w 4 then 0x162628bf else 0) XOR
     (if bit w 3 then 0x89e52f27 else 0) XOR
     (if bit w 2 then 0xc604aceb else 0) XOR
     (if bit w 1 then 0xe1f46d0d else 0) XOR
     (if bit w 0 then 0xf20c0dfe else 0) XOR
     (if bit w 15 then 0x2a03aaa3 else 0) XOR
     (if bit w 14 then 0x97f7ee29 else 0) XOR
     (if bit w 13 then 0xc90dcc6c else 0) XOR
     (if bit w 12 then 0x6486e636 else 0) XOR
     (if bit w 11 then 0x3243731b else 0) XOR
     (if bit w 10 then 0x9bd782f5 else 0) XOR
     (if bit w 9 then 0xcf1dfa02 else 0) XOR
     (if bit w 8 then 0x678efd01 else 0) XOR
     (if bit w 23 then 0x9a9f274a else 0) XOR
     (if bit w 22 then 0x4d4f93a5 else 0) XOR
     (if bit w 21 then 0xa451f2aa else 0) XOR
     (if bit w 20 then 0x5228f955 else 0) XOR
     (if bit w 19 then 0xabe247d2 else 0) XOR
     (if bit w 18 then 0x55f123e9 else 0) XOR
     (if bit w 17 then 0xa80eaa8c else 0) XOR
     (if bit w 16 then 0x54075546 else 0) XOR
     (if bit w 31 then 0x18b8ea18 else 0) XOR
     (if bit w 30 then 0x0c5c750c else 0) XOR
     (if bit w 29 then 0x062e3a86 else 0) XOR
     (if bit w 28 then 0x03171d43 else 0) XOR
     (if bit w 27 then 0x837db5d9 else 0) XOR
     (if bit w 26 then 0xc348e194 else 0) XOR
     (if bit w 25 then 0x61a470ca else 0) XOR
     (if bit w 24 then 0x30d23865 else 0)"
  by (simp add: stride_comb_def stride0_basis_def stride1_basis_def stride2_basis_def stride3_basis_def
      xor_comb_8 bit_drop_bit_eq xor.assoc split del: if_split del: xor_comb.simps)

lemma STEP4_stride: "STEP4 crc w = w XOR stride_comb crc"
  by (simp add: STEP4_def stride_comb_def stride0_span stride1_span stride2_span stride3_span
      span_low_byte span_high_byte xor.assoc)

lemma stride_comb_linear: "xor_linear stride_comb"
  unfolding stride_comb_def [abs_def]
  by (intro xor_linear_xor xor_comb_linear xor_linear_comp [OF xor_comb_linear] drop_bit_linear)

text \<open>The stride tables are one another's successors, thirteen steps after the low byte.\<close>

lemma stride_bases:
  "map (word_step ^^ 13) [128, 64, 32, 16, 8, 4, 2, 1] = stride0_basis"
  "map word_step stride0_basis = stride1_basis" "map word_step stride1_basis = stride2_basis"
  "map word_step stride2_basis = stride3_basis"
proof -
  have 13: "(f ^^ 13) x = f (f (f (f (f ((f ^^ 8) x)))))" for f :: "u32 \<Rightarrow> u32" and x
    by (simp add: eval_nat_numeral)
  show "map (word_step ^^ 13) [128, 64, 32, 16, 8, 4, 2, 1] = stride0_basis"
    by (simp add: word_step_eval funpow_8 13 stride0_basis_def split del: if_split)
qed (simp_all add: word_step_eval stride0_basis_def stride1_basis_def stride2_basis_def stride3_basis_def
    split del: if_split)

lemma stride_comb_steps: "stride_comb w = (word_step ^^ 16) w"
proof (rule xor_linear_bits32 [where f = stride_comb])
  have 16: "(f ^^ 16) x = (f ^^ 13) (f (f (f x)))" "(f ^^ 16) x = f ((f ^^ 13) (f (f x)))"
      "(f ^^ 16) x = f (f ((f ^^ 13) (f x)))" "(f ^^ 16) x = f (f (f ((f ^^ 13) x)))"
    for f :: "u32 \<Rightarrow> u32" and x
    by (simp_all add: eval_nat_numeral)
  have shift: "list_all (\<lambda>w. word_step w = drop_bit 8 w) (drop 8 bits32)"
    by (simp add: bits32_eval word_step_eval split del: if_split)
  have "list_all (\<lambda>w. stride_comb w = word_step (word_step (word_step ((word_step ^^ 13) w)))) (take 8 bits32)"
    using stride_bases
    by (simp add: bits32_eval stride_comb_eval stride0_basis_def stride1_basis_def stride2_basis_def
        stride3_basis_def split del: if_split)
  moreover have "list_all (\<lambda>w. stride_comb w = word_step (word_step ((word_step ^^ 13) (word_step w))))
      (take 8 (drop 8 bits32))"
    using stride_bases shift
    by (simp add: bits32_eval stride_comb_eval stride0_basis_def stride1_basis_def stride2_basis_def
        split del: if_split)
  moreover have "list_all (\<lambda>w. stride_comb w = word_step ((word_step ^^ 13) (word_step (word_step w))))
      (take 8 (drop 16 bits32))"
    using stride_bases shift
    by (simp add: bits32_eval stride_comb_eval stride0_basis_def stride1_basis_def split del: if_split)
  moreover have "list_all (\<lambda>w. stride_comb w = (word_step ^^ 13) (word_step (word_step (word_step w))))
      (drop 24 bits32)"
    using stride_bases shift
    by (simp add: bits32_eval stride_comb_eval stride0_basis_def split del: if_split)
  ultimately have "list_all (\<lambda>w. stride_comb w = (word_step ^^ 16) w)
      (take 8 bits32 @ take 8 (drop 8 bits32) @ take 8 (drop 16 bits32) @ drop 24 bits32)"
    unfolding list_all_append by (simp only: 16 [symmetric])
  also have "take 8 bits32 @ take 8 (drop 8 bits32) @ take 8 (drop 16 bits32) @ drop 24 bits32 = bits32"
    by (simp add: bits32_eval)
  finally show "list_all (\<lambda>w. stride_comb w = (word_step ^^ 16) w) bits32" .
qed (intro stride_comb_linear xor_linear_funpow word_step_linear)+

end
