(* ===== verification/Ldb_Crc_Correct.thy ===== *)
theory Ldb_Crc_Correct
  imports Ldb_Crc_Props
begin

text \<open>
  The portable routine equals the bit-by-bit CRC-32C of \<open>Ldb_Crc_Props\<close>, and what its callers rely
  on follows: a checksum can be extended piece by piece (locale \<open>checksum\<close>), and masking is
  inverted.
\<close>

section \<open>Words and bytes\<close>

definition word4 :: "u32 \<Rightarrow> u32" where
  "word4 w = (word_step ^^ 4) w"

lemma word4_linear: "xor_linear word4"
  unfolding word4_def [abs_def] by (intro xor_linear_funpow word_step_linear)

lemmas word4_xor = xor_linearD [OF word4_linear]
lemmas word_step_xor = xor_linearD [OF word_step_linear]

lemma word4_unfold: "word4 w = word_step (word_step (word_step (word_step w)))"
  by (simp add: word4_def eval_nat_numeral)

lemma stride_word4: "stride_comb c = word4 (word4 (word4 (word4 c)))"
  by (simp add: stride_comb_steps word4_def eval_nat_numeral)

lemma word_step_shift:
  assumes "unat w < 2 ^ 24"
  shows "word_step (push_bit 8 w) = w"
proof -
  have "xor_comb byte_basis (push_bit 8 w) = xor_comb byte_basis 0"
    by (intro xor_comb_cong) (simp add: bit_push_bit_iff)
  moreover have "xor_comb byte_basis 0 = 0" by (rule xor_linear_0 [OF xor_comb_linear])
  moreover have "drop_bit 8 (push_bit 8 w) = w"
    using assms by (simp add: word_unat_eq_iff drop_bits_div unat_push_bit_small)
  ultimately show ?thesis by (simp add: word_step_basis)
qed

lemma word_step_byte:
  "word_step (push_bit 8 (ucast (b :: u8))) = ucast b"
  "word_step (push_bit 16 (ucast b)) = push_bit 8 (ucast b)"
  "word_step (push_bit 24 (ucast b)) = push_bit 16 (ucast b)"
proof -
  have b: "unat (ucast b :: u32) < 256" using unat_u8_lt [of b] by simp
  show "word_step (push_bit 8 (ucast b)) = ucast b" using b by (intro word_step_shift) simp
  have "push_bit 16 (ucast b :: u32) = push_bit 8 (push_bit 8 (ucast b))" by simp
  then show "word_step (push_bit 16 (ucast b)) = push_bit 8 (ucast b)"
    using b by (simp only:) (intro word_step_shift, simp add: unat_push_bit_small)
  have "push_bit 24 (ucast b :: u32) = push_bit 8 (push_bit 16 (ucast b))" by simp
  then show "word_step (push_bit 24 (ucast b)) = push_bit 16 (ucast b)"
    using b by (simp only:) (intro word_step_shift, simp add: unat_push_bit_small)
qed

lemma or_xor_push:
  fixes r x :: u32
  assumes "unat r < 2 ^ m"
  shows "r OR push_bit m x = r XOR push_bit m x"
  using bit_word_small [OF assms]
  by (intro bit_word_eqI) (auto simp: bit_or_iff bit_xor_iff bit_push_bit_iff)

lemma bytes_xor:
  "(ucast a OR push_bit 8 (ucast b) OR push_bit 16 (ucast c) OR push_bit 24 (ucast d) :: u32) =
   ucast a XOR push_bit 8 (ucast b) XOR push_bit 16 (ucast c) XOR push_bit 24 (ucast d)" for a b c d :: u8
proof -
  note lt = unat_u8_lt [of a] unat_u8_lt [of b] unat_u8_lt [of c]
  let ?ab = "ucast a OR push_bit 8 (ucast b) :: u32"
  have ab: "unat ?ab = unat a + unat b * 2 ^ 8" using lt by (intro or_byte) simp_all
  have abc: "unat (?ab OR push_bit 16 (ucast c)) = unat a + unat b * 2 ^ 8 + unat c * 2 ^ 16"
    using lt by (intro or_byte [OF ab]) simp_all
  have "(?ab OR push_bit 16 (ucast c)) OR push_bit 24 (ucast d) =
      ((ucast a XOR push_bit 8 (ucast b)) XOR push_bit 16 (ucast c)) XOR push_bit 24 (ucast d)"
    using lt ab abc or_xor_push [of "ucast a" 8 "ucast b"] or_xor_push [of ?ab 16 "ucast c"]
      or_xor_push [of "?ab OR push_bit 16 (ucast c)" 24 "ucast d"]
    by simp
  then show ?thesis by (simp add: or.assoc xor.assoc)
qed

lemma fold_word:
  assumes "4 \<le> length p"
  shows "foldl STEP1 l (take 4 p) = word4 (l XOR ReadUint32LE p)"
proof -
  obtain a b c d where take: "take 4 p = [a, b, c, d]" using assms list_of_4 [of "take 4 p"] by auto
  have "p ! 0 = a" "p ! 1 = b" "p ! 2 = c" "p ! 3 = d"
    using nth_take [of 0 4 p] nth_take [of 1 4 p] nth_take [of 2 4 p] nth_take [of 3 4 p]
    unfolding take by simp_all
  then have "ReadUint32LE p = ucast a XOR push_bit 8 (ucast b) XOR push_bit 16 (ucast c) XOR push_bit 24 (ucast d)"
    using assms bytes_xor [of a b c d] by (simp add: ReadUint32LE_def DecodeFixed32_def)
  then show ?thesis
    by (simp add: take STEP1_word_step word4_unfold word_step_xor word_step_byte xor.assoc)
qed

section \<open>The interleaved checksums\<close>

fun combined :: "strides \<Rightarrow> u32" where
  "combined (crc0, crc1, crc2, crc3) =
     word4 crc3 XOR word4 (word4 crc2) XOR word4 (word4 (word4 crc1)) XOR word4 (word4 (word4 (word4 crc0)))"

lemma combined_fold: "STEP4W crc3 (STEP4W crc2 (STEP4W crc1 (STEP4W crc0 0))) = combined (crc0, crc1, crc2, crc3)"
  by (simp add: STEP4W_def word4_def [symmetric] word4_xor xor.assoc)

lemma fold_16:
  assumes "16 \<le> length p"
  shows "foldl STEP1 l (take 16 p) = word4 (word4 (word4 (word4 (l XOR ReadUint32LE p) XOR ReadUint32LE (drop 4 p))
    XOR ReadUint32LE (drop 8 p)) XOR ReadUint32LE (drop 12 p))"
proof -
  have "take 16 p = take 4 p @ take 4 (drop 4 p) @ take 4 (drop 8 p) @ take 4 (drop 12 p)"
    using take_add [of 4 12 p] take_add [of 4 8 "drop 4 p"] take_add [of 4 4 "drop 8 p"] by simp
  then show ?thesis using assms by (simp add: fold_word)
qed

lemma swath_step:
  assumes "16 \<le> length p"
  shows "combined (STEP4 crc0 (ReadUint32LE p), STEP4 crc1 (ReadUint32LE (drop 4 p)),
      STEP4 crc2 (ReadUint32LE (drop 8 p)), STEP4 crc3 (ReadUint32LE (drop 12 p))) =
    foldl STEP1 (combined (crc0, crc1, crc2, crc3)) (take 16 p)"
  by (simp add: fold_16 [OF assms] STEP4_stride stride_word4 word4_xor xor.assoc xor.commute xor.left_commute)

lemma word_loop_step:
  assumes "4 \<le> length p"
  shows "combined (crc1, crc2, crc3, STEP4 crc0 (ReadUint32LE p)) =
    foldl STEP1 (combined (crc0, crc1, crc2, crc3)) (take 4 p)"
  by (simp add: fold_word [OF assms] STEP4_stride stride_word4 word4_xor xor.assoc xor.commute xor.left_commute)

lemma foldl_take_drop: "foldl f (foldl f a (take n xs)) (drop n xs) = foldl f a xs"
  by (metis append_take_drop_id foldl_append)

lemma swath_loop_fold:
  "foldl STEP1 (combined (fst (swath_loop cs p))) (snd (swath_loop cs p)) = foldl STEP1 (combined cs) p"
proof (induction cs p rule: swath_loop.induct)
  case (1 crc0 crc1 crc2 crc3 p)
  then show ?case
    by (subst (1 2) swath_loop.simps) (simp add: swath_step foldl_take_drop del: combined.simps swath_loop.simps)
qed

lemma word_loop_fold:
  "foldl STEP1 (combined (fst (word_loop cs p))) (snd (word_loop cs p)) = foldl STEP1 (combined cs) p"
proof (induction cs p rule: word_loop.induct)
  case (1 crc0 crc1 crc2 crc3 p)
  then show ?case
    by (subst (1 2) word_loop.simps) (simp add: word_loop_step foldl_take_drop del: combined.simps word_loop.simps)
qed

lemma extend_swaths_fold:
  assumes "16 \<le> length p"
  shows "(case extend_swaths l p of (l, p) \<Rightarrow> foldl STEP1 l p) = foldl STEP1 l p"
proof -
  let ?crcs = "(ReadUint32LE p XOR l, ReadUint32LE (drop 4 p), ReadUint32LE (drop 8 p), ReadUint32LE (drop 12 p))"
  obtain cs q where s: "swath_loop ?crcs (drop 16 p) = (cs, q)" by fastforce
  obtain c0 c1 c2 c3 r where w: "word_loop cs q = ((c0, c1, c2, c3), r)" by (metis surj_pair)
  have "extend_swaths l p = (combined (c0, c1, c2, c3), r)"
    by (simp add: extend_swaths_def s w combined_fold del: combined.simps swath_loop.simps word_loop.simps)
  moreover have "foldl STEP1 (combined (c0, c1, c2, c3)) r = foldl STEP1 (combined ?crcs) (drop 16 p)"
    using word_loop_fold [of cs q] swath_loop_fold [of ?crcs "drop 16 p"] s w by simp
  moreover have "combined ?crcs = foldl STEP1 l (take 16 p)"
    by (simp add: fold_16 [OF assms] word4_xor xor.assoc xor.commute xor.left_commute)
  ultimately show ?thesis by (simp add: foldl_take_drop)
qed

lemma extend_portable_crc32c: "extend_portable addr crc data = crc32c crc data"
proof -
  have swaths: "(case (if 16 \<le> length p then extend_swaths l p else (l, p)) of (l, p) \<Rightarrow> foldl STEP1 l p XOR x) =
      foldl STEP1 l p XOR x" for l p x
    using extend_swaths_fold [of p l] by (simp add: case_prod_beta)
  show ?thesis
    unfolding extend_portable_def crc32c_def Let_def kCRC32Xor_def STEP1_crc_byte [symmetric] swaths
      foldl_take_drop ..
qed

text \<open>C21: the checksum of log records and blocks is CRC-32C: the portable routine, with its
  tables, its four interleaved strides and whatever alignment the data has, gives the remainder
  that division by the Castagnoli polynomial bit by bit gives.\<close>

theorem extend_portable_correct: "extend_portable addr crc data = crc32c crc data"
  by (rule extend_portable_crc32c)

section \<open>What callers rely on\<close>

definition accel_ok :: "(u32 \<Rightarrow> slice \<Rightarrow> u32) \<Rightarrow> bool" where
  "accel_ok accel \<longleftrightarrow> (CanAccelerateCRC32C accel \<longrightarrow> (\<forall>crc data. accel crc data = crc32c crc data))"

lemma Extend_crc32c: "accel_ok accel \<Longrightarrow> Extend accel addr crc data = crc32c crc data"
  by (simp add: Extend_def accel_ok_def extend_portable_crc32c)

lemma crc32c_append: "crc32c (crc32c crc xs) ys = crc32c crc (xs @ ys)"
  by (simp add: crc32c_def xor.assoc)

lemma Unmask_Mask [simp]: "Unmask (Mask crc) = crc"
proof -
  let ?r = "drop_bit 15 crc OR push_bit 17 crc"
  have "drop_bit 17 ?r OR push_bit 15 ?r = crc"
  proof (rule bit_word_eqI)
    fix n assume "n < LENGTH(32)"
    then show "bit (drop_bit 17 ?r OR push_bit 15 ?r) n \<longleftrightarrow> bit crc n"
      by (cases "n < 15") (auto simp: bit_or_iff bit_drop_bit_eq bit_push_bit_iff dest: bit_imp_le_length)
  qed
  then show ?thesis by (simp add: Mask_def Unmask_def Let_def)
qed

section \<open>Corruption that is always noticed\<close>

lemma xor_cancel [simp]: "x XOR z = y XOR z \<longleftrightarrow> x = y" "z XOR x = z XOR y \<longleftrightarrow> x = y" for x y z :: u32
proof -
  have "(x XOR z) XOR z = x" for x z :: u32 by (simp add: xor.assoc)
  then show "x XOR z = y XOR z \<longleftrightarrow> x = y" "z XOR x = z XOR y \<longleftrightarrow> x = y" by (metis xor.commute)+
qed

lemma crc_bit_inj: "inj crc_bit"
proof (rule injI)
  fix a b assume eq: "crc_bit a = crc_bit b"
  have top: "bit (crc_bit c) 31 = bit c 0" for c
    using bit_imp_le_length [of c 32] by (auto simp: crc_bit_def bit_xor_iff bit_drop_bit_eq)
  with eq have low: "bit a 0 = bit b 0" by metis
  have "drop_bit 1 c = crc_bit c XOR (if bit c 0 then 0x82f63b78 else 0)" for c
    by (simp add: crc_bit_def xor.assoc)
  from this [of a] this [of b] have "drop_bit 1 a = drop_bit 1 b" unfolding eq low by (rule trans [OF _ sym])
  then have "bit a (Suc n) = bit b (Suc n)" for n
    by (metis bit_drop_bit_eq comp_apply plus_1_eq_Suc)
  with low show "a = b" by (intro bit_word_eqI) (metis not0_implies_Suc)
qed

lemma word4_inj: "inj word4"
proof -
  have "inj word_step"
    unfolding word_step_bits [abs_def] by (intro inj_fn crc_bit_inj)
  then show ?thesis unfolding word4_def [abs_def] by (intro inj_fn)
qed

lemma word_step_inj: "inj word_step"
  unfolding word_step_bits [abs_def] by (intro inj_fn crc_bit_inj)

lemma fold_inj: "inj (\<lambda>l. foldl STEP1 l data)"
proof (induction data)
  case (Cons b data)
  have "inj (\<lambda>l. l XOR ucast b :: u32)" by (rule injI) simp
  then have "inj (\<lambda>l. STEP1 l b)"
    using inj_compose [OF word_step_inj] by (simp add: STEP1_word_step comp_def)
  with Cons show ?case using inj_compose by (fastforce simp: comp_def)
qed (simp add: inj_on_def)

lemma burst_changes_crc:
  assumes "length burst = 4" and "length burst' = 4" and "burst \<noteq> burst'"
  shows "crc32c crc (before @ burst @ after) \<noteq> crc32c crc (before @ burst' @ after)"
proof
  assume eq: "crc32c crc (before @ burst @ after) = crc32c crc (before @ burst' @ after)"
  let ?l = "foldl crc_byte (crc XOR 0xFFFFFFFF) before"
  have "foldl crc_byte (foldl crc_byte ?l burst) after = foldl crc_byte (foldl crc_byte ?l burst') after"
    using eq by (simp add: crc32c_def)
  then have "foldl crc_byte ?l burst = foldl crc_byte ?l burst'"
    using injD [OF fold_inj] by (simp add: STEP1_crc_byte)
  then have "word4 (?l XOR ReadUint32LE burst) = word4 (?l XOR ReadUint32LE burst')"
    using fold_word [of burst ?l] fold_word [of burst' ?l] assms(1,2) by (simp add: STEP1_crc_byte)
  then have "ReadUint32LE burst = ReadUint32LE burst'" using injD [OF word4_inj] by fastforce
  then have "(of_nat (le_val burst) :: u32) = of_nat (le_val burst')"
    using assms(1,2) by (simp add: ReadUint32LE_def DecodeFixed32_le)
  then have "unat (of_nat (le_val burst) :: u32) = unat (of_nat (le_val burst') :: u32)" by (rule arg_cong)
  then have "le_val burst = le_val burst'"
    using le_val_lt [of burst] le_val_lt [of burst'] assms(1,2)
    by (simp add: unat_of_nat take_bit_nat_eq_self)
  then show False using assms le_bytes_le_val [of burst] le_bytes_le_val [of burst'] by simp
qed

text \<open>A change confined to four consecutive bytes always changes the checksum.\<close>

theorem crc_detects_burst:
  assumes "length burst = 4" and "length burst' = 4" and "burst \<noteq> burst'"
  shows "crc32c crc (before @ burst @ after) \<noteq> crc32c crc (before @ burst' @ after)"
  using assms by (rule burst_changes_crc)

lemma crc_detects_burst_witness:
  "crc32c 0 ([1] @ [2, 3, 4, 5] @ [6]) \<noteq> crc32c 0 ([1] @ [2, 3, 4, 7] @ [6])"
  by (rule crc_detects_burst) simp_all

end
