(* ===== verification/Ldb_Log.thy ===== *)
theory Ldb_Log
  imports Ldb_Crc_Correct Ldb_File
begin

text \<open>
  The write-ahead log: \<open>leveldb-library/db/log_format.h\<close>, \<open>log_writer.cc\<close> and \<open>log_reader.cc\<close>.
  The writer is a destination file with its position in the block; the reader is a record of its
  members, and what it reports to its \<open>Reporter\<close> is a list of sizes and reasons. The operations
  of the files are arguments. Checksums are those of \<open>Ldb_Crc\<close>; the environment says which routine
  the platform has and where data lies in memory. The report of an unknown type leaves out its number. \<open>None\<close> is a file operation that does not return.
\<close>

section \<open>Format\<close>

definition kZeroType :: u32 where "kZeroType = 0"
definition kFullType :: u32 where "kFullType = 1"
definition kFirstType :: u32 where "kFirstType = 2"
definition kMiddleType :: u32 where "kMiddleType = 3"
definition kLastType :: u32 where "kLastType = 4"
definition kMaxRecordType :: u32 where "kMaxRecordType = kLastType"
definition kEof :: u32 where "kEof = kMaxRecordType + 1"
definition kBadRecord :: u32 where "kBadRecord = kMaxRecordType + 2"
definition kBlockSize :: nat where "kBlockSize = 32768"
definition kHeaderSize :: nat where "kHeaderSize = 4 + 2 + 1"

lemmas record_types = kZeroType_def kFullType_def kFirstType_def kMiddleType_def kLastType_def
  kMaxRecordType_def kEof_def kBadRecord_def

record crc_env =
  ce_accel :: "u32 \<Rightarrow> slice \<Rightarrow> u32"
  ce_addr :: "slice \<Rightarrow> u64"

definition crc_extend :: "crc_env \<Rightarrow> u32 \<Rightarrow> slice \<Rightarrow> u32" where
  "crc_extend ce crc data = Extend (ce_accel ce) (ce_addr ce data) crc data"

definition crc_value :: "crc_env \<Rightarrow> slice \<Rightarrow> u32" where
  "crc_value ce data = Value (ce_accel ce) (ce_addr ce data) data"

section \<open>The writer\<close>

record 'f log_writer =
  lw_dest :: 'f
  lw_block_offset :: nat

type_synonym 'f append_op = "u8 list \<Rightarrow> 'f \<Rightarrow> (Status \<times> 'f) option"
type_synonym 'f flush_op = "'f \<Rightarrow> (Status \<times> 'f) option"

definition InitTypeCrc :: "crc_env \<Rightarrow> u32 list" where
  "InitTypeCrc ce = map (\<lambda>i. crc_value ce [of_nat i]) [0..<unat kMaxRecordType + 1]"

text \<open>The constructors: a new file, and one of \<open>dest_length\<close> bytes.\<close>

definition Writer :: "'f \<Rightarrow> 'f log_writer" where
  "Writer dest = \<lparr>lw_dest = dest, lw_block_offset = 0\<rparr>"

definition WriterAt :: "'f \<Rightarrow> u64 \<Rightarrow> 'f log_writer" where
  "WriterAt dest dest_length = \<lparr>lw_dest = dest, lw_block_offset = unat dest_length mod kBlockSize\<rparr>"

definition EmitPhysicalRecord ::
  "crc_env \<Rightarrow> 'f append_op \<Rightarrow> 'f flush_op \<Rightarrow> u32 \<Rightarrow> slice \<Rightarrow> 'f log_writer \<Rightarrow> (Status \<times> 'f log_writer) option"
where
  "EmitPhysicalRecord ce app flush t data w =
     (let n = length data;
          crc = Mask (crc_extend ce (InitTypeCrc ce ! unat t) data);
          buf = EncodeFixed32 crc @ [of_nat n AND 0xFF, of_nat (n div 256), ucast t]
      in do { (s, dest) \<leftarrow> app buf (lw_dest w);
              (s, dest) \<leftarrow>
                (if ok s
                 then do { (s, dest) \<leftarrow> app data dest; if ok s then flush dest else Some (s, dest) }
                 else Some (s, dest));
              Some (s, \<lparr>lw_dest = dest, lw_block_offset = lw_block_offset w + (kHeaderSize + n)\<rparr>) })"

text \<open>What \<open>AddRecord\<close> does before a fragment: a block with no room for a header is filled up. The
  status of that write is not looked at.\<close>

definition switch_block :: "'f append_op \<Rightarrow> 'f log_writer \<Rightarrow> 'f log_writer option" where
  "switch_block app w =
     (let leftover = kBlockSize - lw_block_offset w
      in if leftover < kHeaderSize
         then if leftover > 0
              then do { (s, dest) \<leftarrow> app (replicate leftover 0) (lw_dest w);
                        Some \<lparr>lw_dest = dest, lw_block_offset = 0\<rparr> }
              else Some (w\<lparr>lw_block_offset := 0\<rparr>)
         else Some w)"

definition fragment_type :: "bool \<Rightarrow> bool \<Rightarrow> u32" where
  "fragment_type begin_rec end_rec =
     (if begin_rec \<and> end_rec then kFullType else if begin_rec then kFirstType
      else if end_rec then kLastType else kMiddleType)"

definition add_round ::
  "crc_env \<Rightarrow> 'f append_op \<Rightarrow> 'f flush_op \<Rightarrow> bool \<times> slice \<times> 'f log_writer \<Rightarrow>
     ((bool \<times> slice \<times> 'f log_writer) + (Status \<times> 'f log_writer)) option"
where
  "add_round ce app flush st =
     (case st of (begin_rec, data, w) \<Rightarrow>
        do { w \<leftarrow> switch_block app w;
             let avail = kBlockSize - lw_block_offset w - kHeaderSize;
             let fragment_length = (if length data < avail then length data else avail);
             let end_rec = (length data = fragment_length);
             (s, w) \<leftarrow> EmitPhysicalRecord ce app flush (fragment_type begin_rec end_rec)
                         (take fragment_length data) w;
             let data = drop fragment_length data;
             Some (if ok s \<and> data \<noteq> [] then Inl (False, data, w) else Inr (s, w)) })"

definition AddRecord ::
  "crc_env \<Rightarrow> 'f append_op \<Rightarrow> 'f flush_op \<Rightarrow> slice \<Rightarrow> 'f log_writer \<Rightarrow> (Status \<times> 'f log_writer) option"
where
  "AddRecord ce app flush data w = c_loop (add_round ce app flush) (True, data, w)"

section \<open>The reader\<close>

text \<open>The constant members: whether checksums are verified, where to start, and whether there is a
  reporter.\<close>

record log_options =
  lo_checksum :: bool
  lo_initial_offset :: u64
  lo_reporter :: bool

record 'f log_reader =
  lr_file :: 'f
  lr_buffer :: slice
  lr_eof :: bool
  lr_last_record_offset :: u64
  lr_end_of_buffer_offset :: u64
  lr_resyncing :: bool
  lr_reported :: "(u64 \<times> Status) list"

type_synonym 'f read_op = "nat \<Rightarrow> 'f \<Rightarrow> (Status \<times> slice \<times> 'f) option"
type_synonym 'f skip_op = "u64 \<Rightarrow> 'f \<Rightarrow> (Status \<times> 'f) option"

definition Reader :: "log_options \<Rightarrow> 'f \<Rightarrow> 'f log_reader" where
  "Reader lo file =
     \<lparr>lr_file = file, lr_buffer = [], lr_eof = False, lr_last_record_offset = 0,
      lr_end_of_buffer_offset = 0, lr_resyncing = (lo_initial_offset lo > 0), lr_reported = []\<rparr>"

definition buffer_size :: "'f log_reader \<Rightarrow> u64" where
  "buffer_size r = of_nat (length (lr_buffer r))"

definition ReportDrop :: "log_options \<Rightarrow> u64 \<Rightarrow> Status \<Rightarrow> 'f log_reader \<Rightarrow> 'f log_reader" where
  "ReportDrop lo bytes reason r =
     (if lo_reporter lo \<and> lr_end_of_buffer_offset r - buffer_size r - bytes \<ge> lo_initial_offset lo
      then r\<lparr>lr_reported := lr_reported r @ [(bytes, reason)]\<rparr> else r)"

definition ReportCorruption :: "log_options \<Rightarrow> u64 \<Rightarrow> string \<Rightarrow> 'f log_reader \<Rightarrow> 'f log_reader" where
  "ReportCorruption lo bytes reason r = ReportDrop lo bytes (Corruption reason) r"

definition SkipToInitialBlock ::
  "log_options \<Rightarrow> 'f skip_op \<Rightarrow> 'f log_reader \<Rightarrow> (bool \<times> 'f log_reader) option"
where
  "SkipToInitialBlock lo skip r =
     (let offset_in_block = unat (lo_initial_offset lo) mod kBlockSize;
          block_start_location = lo_initial_offset lo - of_nat offset_in_block;
          block_start_location =
            (if offset_in_block > kBlockSize - 6 then block_start_location + of_nat kBlockSize
             else block_start_location);
          r = r\<lparr>lr_end_of_buffer_offset := block_start_location\<rparr>
      in if block_start_location > 0
         then do { (s, file) \<leftarrow> skip block_start_location (lr_file r);
                   let r = r\<lparr>lr_file := file\<rparr>;
                   if \<not> ok s then Some (False, ReportDrop lo block_start_location s r) else Some (True, r) }
         else Some (True, r))"

text \<open>The loop of \<open>ReadPhysicalRecord\<close>: a round either reads the next block or decides. \<open>result\<close>
  is the caller's fragment, which is only stored to with a record.\<close>

definition refill ::
  "log_options \<Rightarrow> 'f read_op \<Rightarrow> slice \<Rightarrow> 'f log_reader \<Rightarrow>
     ('f log_reader + u32 \<times> slice \<times> 'f log_reader) option"
where
  "refill lo read r0 r =
     do { (s, bytes, file) \<leftarrow> read kBlockSize (lr_file r);
          let r = r\<lparr>lr_file := file, lr_buffer := bytes,
                    lr_end_of_buffer_offset := lr_end_of_buffer_offset r + of_nat (length bytes)\<rparr>;
          if \<not> ok s
          then Some (Inr (kEof, r0, (ReportDrop lo (of_nat kBlockSize) s (r\<lparr>lr_buffer := []\<rparr>))\<lparr>lr_eof := True\<rparr>))
          else Some (Inl (if length bytes < kBlockSize then r\<lparr>lr_eof := True\<rparr> else r)) }"

definition physical_round ::
  "crc_env \<Rightarrow> log_options \<Rightarrow> 'f read_op \<Rightarrow> slice \<Rightarrow> 'f log_reader \<Rightarrow>
     ('f log_reader + u32 \<times> slice \<times> 'f log_reader) option"
where
  "physical_round ce lo read result r =
     (if length (lr_buffer r) < kHeaderSize
      then if \<not> lr_eof r then refill lo read result (r\<lparr>lr_buffer := []\<rparr>)
           else Some (Inr (kEof, result, r\<lparr>lr_buffer := []\<rparr>))
      else
        let header = lr_buffer r;
            a = ucast (header ! 4) :: u32;
            b = ucast (header ! 5) :: u32;
            type = scast (header ! 6) :: u32;
            len = unat (a OR push_bit 8 b)
        in if kHeaderSize + len > length (lr_buffer r)
           then let drop_size = buffer_size r; r = r\<lparr>lr_buffer := []\<rparr>
                in Some (Inr (if \<not> lr_eof r
                              then (kBadRecord, result, ReportCorruption lo drop_size ''bad record length'' r)
                              else (kEof, result, r)))
           else if type = kZeroType \<and> len = 0 then Some (Inr (kBadRecord, result, r\<lparr>lr_buffer := []\<rparr>))
           else do {
             stored \<leftarrow> DecodeFixed32 header;
             if lo_checksum lo \<and> crc_value ce (take (1 + len) (drop 6 header)) \<noteq> Unmask stored
             then let drop_size = buffer_size r; r = r\<lparr>lr_buffer := []\<rparr>
                  in Some (Inr (kBadRecord, result, ReportCorruption lo drop_size ''checksum mismatch'' r))
             else let r = r\<lparr>lr_buffer := drop (kHeaderSize + len) (lr_buffer r)\<rparr>
                  in Some (Inr (
                       if lr_end_of_buffer_offset r - buffer_size r - of_nat kHeaderSize - of_nat len <
                          lo_initial_offset lo
                       then (kBadRecord, [], r)
                       else (type, take len (drop kHeaderSize header), r))) })"

definition ReadPhysicalRecord ::
  "crc_env \<Rightarrow> log_options \<Rightarrow> 'f read_op \<Rightarrow> slice \<Rightarrow> 'f log_reader \<Rightarrow> (u32 \<times> slice \<times> 'f log_reader) option"
where
  "ReadPhysicalRecord ce lo read result r = c_loop (physical_round ce lo read result) r"

text \<open>The local variables of \<open>ReadRecord\<close>.\<close>

record logical_state =
  ls_in_fragmented_record :: bool
  ls_prospective :: u64
  ls_scratch :: slice
  ls_fragment :: slice

definition partial_record :: "log_options \<Rightarrow> string \<Rightarrow> logical_state \<Rightarrow> 'f log_reader \<Rightarrow> 'f log_reader" where
  "partial_record lo reason ls r =
     (if ls_in_fragmented_record ls \<and> ls_scratch ls \<noteq> []
      then ReportCorruption lo (of_nat (length (ls_scratch ls))) reason r else r)"

definition logical_round ::
  "crc_env \<Rightarrow> log_options \<Rightarrow> 'f read_op \<Rightarrow> logical_state \<times> 'f log_reader \<Rightarrow>
     ((logical_state \<times> 'f log_reader) + (slice option \<times> 'f log_reader)) option"
where
  "logical_round ce lo read st =
     (case st of (ls, r) \<Rightarrow>
       do { (type, fragment, r) \<leftarrow> ReadPhysicalRecord ce lo read (ls_fragment ls) r;
            let offset = lr_end_of_buffer_offset r - buffer_size r - of_nat kHeaderSize - of_nat (length fragment);
            let ls = ls\<lparr>ls_fragment := fragment\<rparr>;
            if lr_resyncing r \<and> type = kMiddleType then Some (Inl (ls, r))
            else if lr_resyncing r \<and> type = kLastType then Some (Inl (ls, r\<lparr>lr_resyncing := False\<rparr>))
            else let r = r\<lparr>lr_resyncing := False\<rparr>
              in if type = kFullType
                 then let r = partial_record lo ''partial record without end(1)'' ls r
                      in Some (Inr (Some fragment, r\<lparr>lr_last_record_offset := offset\<rparr>))
                 else if type = kFirstType
                 then let r = partial_record lo ''partial record without end(2)'' ls r
                      in Some (Inl (ls\<lparr>ls_prospective := offset, ls_scratch := fragment,
                                       ls_in_fragmented_record := True\<rparr>, r))
                 else if type = kMiddleType
                 then if \<not> ls_in_fragmented_record ls
                      then Some (Inl (ls, ReportCorruption lo (of_nat (length fragment))
                                            ''missing start of fragmented record(1)'' r))
                      else Some (Inl (ls\<lparr>ls_scratch := ls_scratch ls @ fragment\<rparr>, r))
                 else if type = kLastType
                 then if \<not> ls_in_fragmented_record ls
                      then Some (Inl (ls, ReportCorruption lo (of_nat (length fragment))
                                            ''missing start of fragmented record(2)'' r))
                      else Some (Inr (Some (ls_scratch ls @ fragment),
                                      r\<lparr>lr_last_record_offset := ls_prospective ls\<rparr>))
                 else if type = kEof then Some (Inr (None, r))
                 else if type = kBadRecord
                 then if ls_in_fragmented_record ls
                      then Some (Inl (ls\<lparr>ls_in_fragmented_record := False, ls_scratch := []\<rparr>,
                             ReportCorruption lo (of_nat (length (ls_scratch ls))) ''error in middle of record'' r))
                      else Some (Inl (ls, r))
                 else Some (Inl (ls\<lparr>ls_in_fragmented_record := False, ls_scratch := []\<rparr>,
                        ReportCorruption lo
                          (of_nat (length fragment + (if ls_in_fragmented_record ls then length (ls_scratch ls) else 0)))
                          ''unknown record type'' r)) })"

text \<open>\<open>true\<close> with the record, or \<open>false\<close>.\<close>

definition ReadRecord ::
  "crc_env \<Rightarrow> log_options \<Rightarrow> 'f read_op \<Rightarrow> 'f skip_op \<Rightarrow> 'f log_reader \<Rightarrow> (slice option \<times> 'f log_reader) option"
where
  "ReadRecord ce lo read skip r =
     do { (go, r) \<leftarrow> (if lr_last_record_offset r < lo_initial_offset lo then SkipToInitialBlock lo skip r
                        else Some (True, r));
          if \<not> go then Some (None, r)
          else c_loop (logical_round ce lo read)
                 (\<lparr>ls_in_fragmented_record = False, ls_prospective = 0, ls_scratch = [], ls_fragment = []\<rparr>, r) }"

end
