(* ===== verification/Ldb_Log_Spec.thy ===== *)
theory Ldb_Log_Spec
  imports Ldb_Log "HOL-Library.Sublist"
begin

text \<open>
  The log as a format. A record becomes a list of chunks, each with the padding before it, its type
  and its fragment; the writer writes their bytes, and the reader, positioned anywhere in a file of
  such chunks, gives the record back. On a file that ends inside a record it reports nothing and
  stops. The lemmas about the writer hold for every \<open>writable_file\<close>, those about the reader for
  every \<open>sequential_file\<close>.
\<close>

section \<open>Chunks\<close>

type_synonym chunk = "slice \<times> u32 \<times> slice"

definition padding :: "nat \<Rightarrow> slice" where
  "padding bo = (if kBlockSize - bo < kHeaderSize then replicate (kBlockSize - bo) 0 else [])"

definition chunk_start :: "nat \<Rightarrow> nat" where
  "chunk_start bo = (if kBlockSize - bo < kHeaderSize then 0 else bo)"

lemmas block_sizes = kBlockSize_def kHeaderSize_def

lemma chunk_start_room: "chunk_start bo + kHeaderSize \<le> kBlockSize"
  by (auto simp: chunk_start_def block_sizes)

function log_chunks :: "nat \<Rightarrow> bool \<Rightarrow> slice \<Rightarrow> chunk list" where
  "log_chunks bo first data =
     (let n = min (length data) (kBlockSize - chunk_start bo - kHeaderSize); rest = drop n data
      in (padding bo, fragment_type first (rest = []), take n data) #
         (if rest = [] then [] else log_chunks (chunk_start bo + kHeaderSize + n) False rest))"
  by auto
termination
  by (relation "measure (\<lambda>(bo, first, data). 2 * length data + (if bo = kBlockSize - kHeaderSize then 1 else 0))")
    (auto simp: chunk_start_def block_sizes split: if_split_asm)

declare log_chunks.simps [simp del]

fun log_end :: "nat \<Rightarrow> chunk list \<Rightarrow> nat" where
  "log_end bo [] = bo"
| "log_end bo ((pad, t, fragment) # cs) = log_end (chunk_start bo + kHeaderSize + length fragment) cs"

definition chunk_header :: "u32 \<Rightarrow> slice \<Rightarrow> slice" where
  "chunk_header t fragment =
     EncodeFixed32 (Mask (crc32c 0 (ucast t # fragment))) @
     [of_nat (length fragment), of_nat (length fragment div 256), ucast t]"

fun chunk_bytes :: "chunk \<Rightarrow> slice" where
  "chunk_bytes (pad, t, fragment) = pad @ chunk_header t fragment @ fragment"

definition chunks_bytes :: "chunk list \<Rightarrow> slice" where
  "chunks_bytes cs = concat (map chunk_bytes cs)"

lemma chunks_bytes_simps [simp]: "chunks_bytes [] = []" "chunks_bytes (c # cs) = chunk_bytes c @ chunks_bytes cs"
  by (simp_all add: chunks_bytes_def)

lemma length_chunk_header [simp]: "length (chunk_header t fragment) = kHeaderSize"
  by (simp add: chunk_header_def kHeaderSize_def)

section \<open>What the writer writes\<close>

lemma crc_values:
  assumes "accel_ok (ce_accel ce)"
  shows "crc_value ce data = crc32c 0 data" and "crc_extend ce crc data = crc32c crc data"
  using assms by (simp_all add: crc_value_def crc_extend_def Value_def Extend_crc32c)

lemma record_type_cases:
  assumes "t \<in> {kFullType, kFirstType, kMiddleType, kLastType}"
  obtains "t = 1" | "t = 2" | "t = 3" | "t = 4"
  using assms by (auto simp: record_types)

lemma fragment_type_in: "fragment_type a b \<in> {kFullType, kFirstType, kMiddleType, kLastType}"
  by (simp add: fragment_type_def)

lemma type_crc:
  assumes "t \<in> {kFullType, kFirstType, kMiddleType, kLastType}" and "accel_ok (ce_accel ce)"
  shows "InitTypeCrc ce ! unat t = crc32c 0 [ucast t]"
  using assms(1)
  by (rule record_type_cases) (simp_all add: InitTypeCrc_def record_types crc_values [OF assms(2)] nth_append
      upt_rec del: upt_Suc)

context writable_file
begin

definition writer_at :: "'f log_writer \<Rightarrow> slice \<Rightarrow> nat \<Rightarrow> bool" where
  "writer_at w bytes bo \<longleftrightarrow> good (lw_dest w) \<and> contents (lw_dest w) = bytes \<and> lw_block_offset w = bo"

lemma writer_switch:
  assumes "writer_at w bytes bo"
  shows "\<exists>w'. switch_block append w = Some w' \<and> writer_at w' (bytes @ padding bo) (chunk_start bo)"
  using assms append_good [of "lw_dest w" "replicate (kBlockSize - bo) 0"]
  by (auto simp: writer_at_def switch_block_def Let_def padding_def chunk_start_def)

lemma writer_emit:
  assumes at: "writer_at w bytes bo" and t: "t \<in> {kFullType, kFirstType, kMiddleType, kLastType}"
    and accel: "accel_ok (ce_accel ce)"
  shows "\<exists>w'. EmitPhysicalRecord ce append flush t data w = Some (OK, w') \<and>
    writer_at w' (bytes @ chunk_header t data @ data) (bo + kHeaderSize + length data) \<and>
    written (lw_dest w') = contents (lw_dest w')"
proof -
  have mask: "x AND 0xFF = x" for x :: u8
  proof -
    have "(0xFF :: u8) = - 1" by simp
    then show ?thesis by (simp only: and.right_neutral)
  qed
  have header: "EncodeFixed32 (Mask (crc_extend ce (InitTypeCrc ce ! unat t) data)) @
      [of_nat (length data) AND 0xFF, of_nat (length data div 256), ucast t] = chunk_header t data"
    by (simp add: chunk_header_def mask crc_values [OF accel] type_crc [OF t accel] crc32c_append)
  obtain d1 where d1: "append (chunk_header t data) (lw_dest w) = Some (OK, d1)" "good d1"
      "contents d1 = bytes @ chunk_header t data"
    using at append_good [of "lw_dest w" "chunk_header t data"] by (auto simp: writer_at_def)
  obtain d2 where d2: "append data d1 = Some (OK, d2)" "good d2" "contents d2 = bytes @ chunk_header t data @ data"
    using d1 append_good [of d1 data] by auto
  obtain d3 where d3: "flush d2 = Some (OK, d3)" "good d3" "contents d3 = contents d2" "written d3 = contents d2"
    using flush_good [OF d2(2)] by blast
  show ?thesis
    unfolding EmitPhysicalRecord_def Let_def header using at d1 d2 d3 by (simp add: writer_at_def)
qed

lemma writer_record:
  assumes "writer_at w bytes bo" and accel: "accel_ok (ce_accel ce)"
  shows "\<exists>w'. c_loop (add_round ce append flush) (first, data, w) = Some (OK, w') \<and>
    writer_at w' (bytes @ chunks_bytes (log_chunks bo first data)) (log_end bo (log_chunks bo first data)) \<and>
    written (lw_dest w') = contents (lw_dest w')"
  using assms(1)
proof (induction bo first data arbitrary: w bytes rule: log_chunks.induct)
  case (1 bo first data)
  let ?n = "min (length data) (kBlockSize - chunk_start bo - kHeaderSize)"
  let ?t = "fragment_type first (drop ?n data = [])"
  obtain w1 where w1: "switch_block append w = Some w1" "writer_at w1 (bytes @ padding bo) (chunk_start bo)"
    using writer_switch [OF 1(2)] by blast
  obtain w2 where w2: "EmitPhysicalRecord ce append flush ?t (take ?n data) w1 = Some (OK, w2)"
      "writer_at w2 (bytes @ chunk_bytes (padding bo, ?t, take ?n data)) (chunk_start bo + kHeaderSize + ?n)"
      "written (lw_dest w2) = contents (lw_dest w2)"
    using writer_emit [OF w1(2) fragment_type_in accel, of first "drop ?n data = []" "take ?n data"] by auto
  have n: "(if length data < kBlockSize - lw_block_offset w1 - kHeaderSize then length data
      else kBlockSize - lw_block_offset w1 - kHeaderSize) = ?n"
    using w1(2) by (auto simp: writer_at_def)
  have fin: "(length data = ?n) = (drop ?n data = [])" by auto
  have round: "add_round ce append flush (first, data, w) =
      Some (if drop ?n data \<noteq> [] then Inl (False, drop ?n data, w2) else Inr (OK, w2))"
    unfolding add_round_def prod.case w1(1) Option.bind.simps Let_def n fin w2(1) by simp
  have chunks: "log_chunks bo first data = (padding bo, ?t, take ?n data) #
      (if drop ?n data = [] then [] else log_chunks (chunk_start bo + kHeaderSize + ?n) False (drop ?n data))"
    by (subst log_chunks.simps) (simp add: Let_def)
  show ?case
  proof (cases "drop ?n data = []")
    case True
    then show ?thesis using round w2 chunks by (simp add: c_loop_exit)
  next
    case False
    then have "c_loop (add_round ce append flush) (first, data, w) =
        c_loop (add_round ce append flush) (False, drop ?n data, w2)"
      using round by (simp add: c_loop_next)
    with 1(1) [OF refl refl False w2(2)] False chunks show ?thesis by simp
  qed
qed

end

section \<open>Physical records\<close>

lemma of_nat_word: "n < 2 ^ LENGTH('a) \<Longrightarrow> unat (of_nat n :: 'a::len word) = n"
  by (simp add: unat_of_nat take_bit_nat_eq_self)

lemma header_length:
  assumes "n < 65536"
  shows "unat (ucast (of_nat n :: u8) OR push_bit 8 (ucast (of_nat (n div 256) :: u8)) :: u32) = n"
proof -
  have "(ucast (of_nat n :: u8) OR push_bit 8 (ucast (of_nat (n div 256) :: u8)) :: u32) =
      of_nat (le_val [of_nat n, of_nat (n div 256), 0, 0])"
    using u32_of_bytes [of "of_nat n" "of_nat (n div 256)" 0 0] by simp
  also have "\<dots> = of_nat n"
    using assms by (simp add: unat_of_nat take_bit_eq_mod)
  finally show ?thesis using assms by (simp add: of_nat_word)
qed

lemma chunk_header_nth:
  "chunk_header t fragment ! 4 = of_nat (length fragment)"
  "chunk_header t fragment ! 5 = of_nat (length fragment div 256)"
  "chunk_header t fragment ! 6 = ucast t"
  by (simp_all add: chunk_header_def nth_append)

lemma strict_prefix_after:
  assumes "strict_prefix rest (xs @ ys)" and "length xs \<le> length rest"
  obtains rest' where "rest = xs @ rest'" and "strict_prefix rest' ys"
proof -
  obtain missing where missing: "xs @ ys = rest @ missing" "missing \<noteq> []"
    using assms(1) by (auto simp: strict_prefix_def prefix_def)
  then have "xs = take (length xs) rest" "ys = drop (length xs) rest @ missing"
    using assms(2) by (auto simp: append_eq_append_conv_if)
  with missing(2) that [of "drop (length xs) rest"] show thesis
    by (metis append_take_drop_id prefixI strict_prefixI append_self_conv)
qed

lemma strict_prefix_before:
  assumes "strict_prefix rest (xs @ ys)" and "length rest < length xs"
  shows "strict_prefix rest xs"
  using assms by (auto simp: strict_prefix_def prefix_append)

lemma record_type_byte:
  assumes "t \<in> {kFullType, kFirstType, kMiddleType, kLastType}"
  shows "(scast (ucast t :: u8) :: u32) = t" and "t \<noteq> kZeroType"
  using assms by (auto simp: record_types)

context sequential_file
begin

definition reader_at :: "'f log_reader \<Rightarrow> nat \<Rightarrow> slice \<Rightarrow> bool" where
  "reader_at r bo rest \<longleftrightarrow>
     good (lr_file r) \<and> bo \<le> kBlockSize \<and>
     lr_buffer r = take (kBlockSize - bo) rest \<and> pending (lr_file r) = drop (kBlockSize - bo) rest \<and>
     lr_eof r = (length rest < kBlockSize - bo) \<and> \<not> lr_resyncing r \<and> lr_reported r = []"

lemma reader_refill:
  assumes "reader_at r bo (padding bo @ later)" and "kBlockSize - bo < kHeaderSize"
  shows "\<exists>r'. physical_round ce lo read_file result r = Some (Inl r') \<and> reader_at r' 0 later"
proof -
  have r: "good (lr_file r)" "pending (lr_file r) = later" "\<not> lr_eof r" "length (lr_buffer r) < kHeaderSize"
      "\<not> lr_resyncing r" "lr_reported r = []"
    using assms by (auto simp: reader_at_def padding_def)
  obtain f where "read_file kBlockSize (lr_file r) = Some (OK, take kBlockSize later, f)" "good f"
      "pending f = drop kBlockSize later"
    using read_good [OF r(1)] r(2) by metis
  then show ?thesis
    using r by (auto simp: physical_round_def refill_def reader_at_def Let_def)
qed

lemma reader_chunk:
  assumes at: "reader_at r bo (chunk_header t fragment @ fragment @ later)"
    and room: "bo + kHeaderSize + length fragment \<le> kBlockSize"
    and t: "t \<in> {kFullType, kFirstType, kMiddleType, kLastType}"
    and accel: "accel_ok (ce_accel ce)" and start: "lo_initial_offset lo = 0"
  shows "\<exists>r'. physical_round ce lo read_file result r = Some (Inr (t, fragment, r')) \<and>
    reader_at r' (bo + kHeaderSize + length fragment) later"
proof -
  let ?rest = "take (kBlockSize - bo - kHeaderSize - length fragment) later"
  have buf: "lr_buffer r = chunk_header t fragment @ fragment @ ?rest"
    using at room by (simp add: reader_at_def)
  have len: "unat (ucast (lr_buffer r ! 4) OR push_bit 8 (ucast (lr_buffer r ! 5)) :: u32) = length fragment"
    using header_length [of "length fragment"] room
    by (simp add: buf nth_append chunk_header_nth block_sizes)
  have ty: "(scast (lr_buffer r ! 6) :: u32) = t"
    using record_type_byte(1) [OF t] by (simp add: buf nth_append chunk_header_nth block_sizes)
  have crc: "DecodeFixed32 (lr_buffer r) = Some (Mask (crc_value ce (take (1 + length fragment) (drop 6 (lr_buffer r)))))"
  proof -
    have "take (1 + length fragment) (drop 6 (lr_buffer r)) = ucast t # fragment"
      by (simp add: buf chunk_header_def)
    then show ?thesis by (simp only: buf chunk_header_def append_assoc DecodeFixed32_Encode crc_values [OF accel])
  qed
  have drop: "drop (kHeaderSize + length fragment) (lr_buffer r) = ?rest"
    and frag: "take (length fragment) (drop kHeaderSize (lr_buffer r)) = fragment"
    and long: "length (lr_buffer r) = kHeaderSize + length fragment + length ?rest"
    by (simp_all add: buf)
  have "physical_round ce lo read_file result r = Some (Inr (t, fragment, r\<lparr>lr_buffer := ?rest\<rparr>))"
    unfolding physical_round_def Let_def len ty crc frag drop
    using record_type_byte(2) [OF t] start by (simp add: long Unmask_Mask)
  moreover have "reader_at (r\<lparr>lr_buffer := ?rest\<rparr>) (bo + kHeaderSize + length fragment) later"
    using at room by (auto simp: reader_at_def)
  ultimately show ?thesis by blast
qed

lemma ReadPhysicalRecord_chunk:
  assumes at: "reader_at r bo (chunk_bytes (padding bo, t, fragment) @ later)"
    and room: "chunk_start bo + kHeaderSize + length fragment \<le> kBlockSize"
    and t: "t \<in> {kFullType, kFirstType, kMiddleType, kLastType}"
    and accel: "accel_ok (ce_accel ce)" and start: "lo_initial_offset lo = 0"
  shows "\<exists>r'. ReadPhysicalRecord ce lo read_file result r = Some (t, fragment, r') \<and>
    reader_at r' (chunk_start bo + kHeaderSize + length fragment) later"
proof (cases "kBlockSize - bo < kHeaderSize")
  case True
  obtain r1 where r1: "physical_round ce lo read_file result r = Some (Inl r1)"
      "reader_at r1 (chunk_start bo) (chunk_header t fragment @ fragment @ later)"
    using reader_refill [OF _ True, of r "chunk_header t fragment @ fragment @ later" ce lo result] at True
    by (auto simp: chunk_start_def)
  from reader_chunk [OF r1(2) room t accel start, of result] r1(1) show ?thesis
    by (auto simp: ReadPhysicalRecord_def c_loop_next c_loop_exit)
next
  case False
  then have "reader_at r (chunk_start bo) (chunk_header t fragment @ fragment @ later)"
    using at by (simp add: padding_def chunk_start_def)
  from reader_chunk [OF this room t accel start, of result] show ?thesis
    by (auto simp: ReadPhysicalRecord_def c_loop_exit)
qed

lemma reader_cut:
  assumes at: "reader_at r bo rest"
    and cut: "strict_prefix rest (chunk_header t fragment @ fragment)"
    and room: "bo + kHeaderSize + length fragment \<le> kBlockSize"
  shows "\<exists>r'. physical_round ce lo read_file result r = Some (Inr (kEof, result, r')) \<and> lr_reported r' = []"
proof -
  obtain missing where missing: "chunk_header t fragment @ fragment = rest @ missing" "missing \<noteq> []"
    using cut by (auto simp: strict_prefix_def prefix_def)
  have short: "length rest < kHeaderSize + length fragment"
    using arg_cong [OF missing(1), of length] missing(2) by (cases missing) simp_all
  have r: "lr_buffer r = rest" "lr_eof r" "lr_reported r = []"
    using at short room by (auto simp: reader_at_def)
  show ?thesis
  proof (cases "length rest < kHeaderSize")
    case True
    then show ?thesis using r by (simp add: physical_round_def)
  next
    case False
    have "rest ! i = (chunk_header t fragment @ fragment) ! i" if "i < kHeaderSize" for i
      using that False by (simp only: missing(1) nth_append) simp
    from this [of 4] this [of 5]
    have "unat (ucast (rest ! 4) OR push_bit 8 (ucast (rest ! 5)) :: u32) = length fragment"
      using header_length [of "length fragment"] room
      by (simp add: nth_append chunk_header_nth block_sizes)
    then show ?thesis using False r short by (simp add: physical_round_def Let_def)
  qed
qed

lemma ReadPhysicalRecord_cut:
  assumes at: "reader_at r bo rest"
    and cut: "strict_prefix rest (chunk_bytes (padding bo, t, fragment))"
    and room: "chunk_start bo + kHeaderSize + length fragment \<le> kBlockSize"
  shows "\<exists>r'. ReadPhysicalRecord ce lo read_file result r = Some (kEof, result, r') \<and> lr_reported r' = []"
proof (cases "kBlockSize - bo < kHeaderSize")
  case True
  show ?thesis
  proof (cases "length rest < length (padding bo)")
    case shorter: True
    then have "lr_buffer r = rest" "lr_eof r" "lr_reported r = []"
      using at True by (auto simp: reader_at_def padding_def)
    then have "physical_round ce lo read_file result r = Some (Inr (kEof, result, r\<lparr>lr_buffer := []\<rparr>))"
      using shorter True by (simp add: physical_round_def padding_def)
    then show ?thesis using \<open>lr_reported r = []\<close> by (simp add: ReadPhysicalRecord_def c_loop_exit)
  next
    case False
    then obtain rest' where rest': "rest = padding bo @ rest'"
        "strict_prefix rest' (chunk_header t fragment @ fragment)"
      using strict_prefix_after [of rest "padding bo"] cut by auto
    obtain r1 where r1: "physical_round ce lo read_file result r = Some (Inl r1)" "reader_at r1 (chunk_start bo) rest'"
      using reader_refill [OF _ True, of r rest' ce lo result] at True rest' by (auto simp: chunk_start_def)
    from reader_cut [OF r1(2) rest'(2) room, of ce lo result] r1(1) show ?thesis
      by (auto simp: ReadPhysicalRecord_def c_loop_next c_loop_exit)
  qed
next
  case False
  then have "reader_at r (chunk_start bo) rest" "strict_prefix rest (chunk_header t fragment @ fragment)"
    using at cut by (simp_all add: padding_def chunk_start_def)
  from reader_cut [OF this room, of ce lo result] show ?thesis
    by (auto simp: ReadPhysicalRecord_def c_loop_exit)
qed

lemma logical_fragment:
  assumes "ReadPhysicalRecord ce lo read_file (ls_fragment ls) r = Some (fragment_type first final, fragment, r1)"
    and "\<not> lr_resyncing r1" and "ls_in_fragmented_record ls = (\<not> first)" and "first \<Longrightarrow> ls_scratch ls = []"
  shows "final \<Longrightarrow> \<exists>off. logical_round ce lo read_file (ls, r) =
      Some (Inr (Some (ls_scratch ls @ fragment), r1\<lparr>lr_last_record_offset := off\<rparr>))"
    and "\<not> final \<Longrightarrow> \<exists>ls'. ls_in_fragmented_record ls' \<and> ls_scratch ls' = ls_scratch ls @ fragment \<and>
      logical_round ce lo read_file (ls, r) = Some (Inl (ls', r1))"
proof -
  show "final \<Longrightarrow> \<exists>off. logical_round ce lo read_file (ls, r) =
      Some (Inr (Some (ls_scratch ls @ fragment), r1\<lparr>lr_last_record_offset := off\<rparr>))"
    using assms
    by (cases first; cases r1) (auto simp: logical_round_def Let_def partial_record_def fragment_type_def record_types)
  show "\<not> final \<Longrightarrow> \<exists>ls'. ls_in_fragmented_record ls' \<and> ls_scratch ls' = ls_scratch ls @ fragment \<and>
      logical_round ce lo read_file (ls, r) = Some (Inl (ls', r1))"
    using assms
    by (cases first; cases r1) (auto simp: logical_round_def Let_def partial_record_def fragment_type_def record_types)
qed

lemma reader_logical:
  assumes "reader_at r bo (chunks_bytes (log_chunks bo first data) @ later)"
    and "ls_in_fragmented_record ls = (\<not> first)" and "first \<Longrightarrow> ls_scratch ls = []"
    and accel: "accel_ok (ce_accel ce)" and start: "lo_initial_offset lo = 0"
  shows "\<exists>r'. c_loop (logical_round ce lo read_file) (ls, r) = Some (Some (ls_scratch ls @ data), r') \<and>
    reader_at r' (log_end bo (log_chunks bo first data)) later"
  using assms(1-3)
proof (induction bo first data arbitrary: r ls rule: log_chunks.induct)
  case (1 bo first data)
  let ?n = "min (length data) (kBlockSize - chunk_start bo - kHeaderSize)"
  let ?t = "fragment_type first (drop ?n data = [])"
  let ?fragment = "take ?n data"
  let ?bo = "chunk_start bo + kHeaderSize + ?n"
  let ?others = "if drop ?n data = [] then [] else log_chunks ?bo False (drop ?n data)"
  have chunks: "log_chunks bo first data = (padding bo, ?t, ?fragment) # ?others"
    by (subst log_chunks.simps) (simp add: Let_def)
  have room: "chunk_start bo + kHeaderSize + length ?fragment \<le> kBlockSize"
    using chunk_start_room [of bo] by (simp add: block_sizes)
  obtain r1 where r1: "ReadPhysicalRecord ce lo read_file (ls_fragment ls) r = Some (?t, ?fragment, r1)"
      "reader_at r1 ?bo (chunks_bytes ?others @ later)"
    using ReadPhysicalRecord_chunk [OF _ room fragment_type_in accel start, of r first "drop ?n data = []"
        "chunks_bytes ?others @ later" "ls_fragment ls"] 1(2) chunks by auto
  have idle: "\<not> lr_resyncing r1" using r1(2) by (simp add: reader_at_def)
  show ?case
  proof (cases "drop ?n data = []")
    case True
    then obtain off where "logical_round ce lo read_file (ls, r) =
        Some (Inr (Some (ls_scratch ls @ ?fragment), r1\<lparr>lr_last_record_offset := off\<rparr>))"
      using logical_fragment(1) [OF r1(1) idle 1(3,4)] by blast
    moreover have "reader_at (r1\<lparr>lr_last_record_offset := off\<rparr>) (log_end bo (log_chunks bo first data)) later"
      using r1(2) True by (simp add: chunks reader_at_def)
    ultimately show ?thesis using True by (simp add: c_loop_exit)
  next
    case False
    obtain ls' where ls': "ls_in_fragmented_record ls'" "ls_scratch ls' = ls_scratch ls @ ?fragment"
        "logical_round ce lo read_file (ls, r) = Some (Inl (ls', r1))"
      using logical_fragment(2) [OF r1(1) idle 1(3,4) False] by blast
    have "reader_at r1 ?bo (chunks_bytes (log_chunks ?bo False (drop ?n data)) @ later)"
      using r1(2) False by simp
    from 1(1) [OF refl refl False this, of ls'] ls' False show ?thesis by (simp add: chunks c_loop_next)
  qed
qed

lemma reader_logical_cut:
  assumes "reader_at r bo rest" and "strict_prefix rest (chunks_bytes (log_chunks bo first data))"
    and "ls_in_fragmented_record ls = (\<not> first)" and "first \<Longrightarrow> ls_scratch ls = []"
    and accel: "accel_ok (ce_accel ce)" and start: "lo_initial_offset lo = 0"
  shows "\<exists>r'. c_loop (logical_round ce lo read_file) (ls, r) = Some (None, r') \<and> lr_reported r' = []"
  using assms(1-4)
proof (induction bo first data arbitrary: r ls rest rule: log_chunks.induct)
  case (1 bo first data)
  let ?n = "min (length data) (kBlockSize - chunk_start bo - kHeaderSize)"
  let ?t = "fragment_type first (drop ?n data = [])"
  let ?fragment = "take ?n data"
  let ?bo = "chunk_start bo + kHeaderSize + ?n"
  let ?others = "if drop ?n data = [] then [] else log_chunks ?bo False (drop ?n data)"
  have chunks: "log_chunks bo first data = (padding bo, ?t, ?fragment) # ?others"
    by (subst log_chunks.simps) (simp add: Let_def)
  have room: "chunk_start bo + kHeaderSize + length ?fragment \<le> kBlockSize"
    using chunk_start_room [of bo] by (simp add: block_sizes)
  have cut: "strict_prefix rest (chunk_bytes (padding bo, ?t, ?fragment) @ chunks_bytes ?others)"
    using 1(3) unfolding chunks chunks_bytes_simps .
  show ?case
  proof (cases "length rest < length (chunk_bytes (padding bo, ?t, ?fragment))")
    case True
    note this = strict_prefix_before [OF cut True]
    from ReadPhysicalRecord_cut [OF 1(2) this room, of ce lo "ls_fragment ls"]
    obtain r1 where "ReadPhysicalRecord ce lo read_file (ls_fragment ls) r = Some (kEof, ls_fragment ls, r1)"
        "lr_reported r1 = []" by blast
    then have "logical_round ce lo read_file (ls, r) = Some (Inr (None, r1\<lparr>lr_resyncing := False\<rparr>))"
      by (simp add: logical_round_def Let_def record_types)
    with \<open>lr_reported r1 = []\<close> show ?thesis by (simp add: c_loop_exit)
  next
    case False
    then obtain rest' where rest': "rest = chunk_bytes (padding bo, ?t, ?fragment) @ rest'"
        "strict_prefix rest' (chunks_bytes ?others)"
      using strict_prefix_after [OF cut] by (metis not_less)
    then have more: "drop ?n data \<noteq> []" by auto
    obtain r1 where r1: "ReadPhysicalRecord ce lo read_file (ls_fragment ls) r = Some (?t, ?fragment, r1)"
        "reader_at r1 ?bo rest'"
      using ReadPhysicalRecord_chunk [OF _ room fragment_type_in accel start, of r first "drop ?n data = []"
          rest' "ls_fragment ls"] 1(2) rest' by auto
    have idle: "\<not> lr_resyncing r1" using r1(2) by (simp add: reader_at_def)
    obtain ls' where ls': "ls_in_fragmented_record ls'"
        "logical_round ce lo read_file (ls, r) = Some (Inl (ls', r1))"
      using logical_fragment(2) [OF r1(1) idle 1(4,5) more] by blast
    from 1(1) [OF refl refl more r1(2), of ls'] rest'(2) more ls' show ?thesis by (simp add: c_loop_next)
  qed
qed

end

end
