(* ===== verification/Ldb_Format.thy ===== *)
theory Ldb_Format
  imports Ldb_Log_Spec Ldb_Keys
begin

text \<open>
  The format of table files: \<open>leveldb-library/table/format.h\<close> and \<open>format.cc\<close>, over the two readers of
  files at an offset that \<open>util/env_posix.cc\<close> has. A read gives a status, the bytes, and whether they
  lie in the buffer of the caller. The functions of Snappy (\<open>port/port_stdcxx.h\<close>) are parameters;
  without it they report \<open>false\<close>. \<open>None\<close> is an access outside a buffer. That memory runs out is not
  modelled.
\<close>

section \<open>Reading at an offset\<close>

type_synonym random_read = "u64 \<Rightarrow> nat \<Rightarrow> (Status \<times> slice \<times> bool) option"

text \<open>\<open>PosixMmapReadableFile\<close>: the sum is one of 64 bits. A wrapped sum passes the test.\<close>

definition MmapRead :: "slice \<Rightarrow> random_read" where
  "MmapRead mmap offset n =
     (if unat (offset + of_nat n) > length mmap then Some (IOError ''filename'', [], False)
      else if unat offset + n > length mmap then None
      else Some (OK, take n (drop (unat offset) mmap), False))"

text \<open>\<open>PosixRandomAccessFile\<close>: \<open>opened\<close> is the result of opening the file for this read, \<open>None\<close> when the
  object has a descriptor of its own. A call that is interrupted is not repeated.\<close>

definition PosixRandomRead :: "os_result option \<Rightarrow> (nat \<Rightarrow> u64 \<Rightarrow> os_result \<times> slice) \<Rightarrow> random_read" where
  "PosixRandomRead opened pread offset n =
     (case opened of
        Some (Failed e) \<Rightarrow> Some (PosixError ''filename'' e, [], True)
      | Some Interrupted \<Rightarrow> Some (PosixError ''filename'' False, [], True)
      | _ \<Rightarrow> (case pread n offset of
                (Done k, bytes) \<Rightarrow> Some (OK, take k bytes, True)
              | (Interrupted, _) \<Rightarrow> Some (PosixError ''filename'' False, [], True)
              | (Failed e, _) \<Rightarrow> Some (PosixError ''filename'' e, [], True)))"

text \<open>What tables rely on: bytes of the file are read as they are.\<close>

locale random_access_file =
  fixes read_at :: random_read and whole :: slice
  assumes read_inside: "length whole < 2 ^ 64 \<Longrightarrow> unat offset + n \<le> length whole \<Longrightarrow>
      \<exists>own. read_at offset n = Some (OK, take n (drop (unat offset) whole), own)"

interpretation mmap_file: random_access_file "MmapRead mmap" mmap
proof
  fix offset :: u64 and n :: nat
  assume small: "length mmap < 2 ^ 64" and inside: "unat offset + n \<le> length mmap"
  have "unat (offset + of_nat n) = unat offset + n"
    using small inside by (simp add: unat_word_ariths take_bit_nat_eq_self unsigned_of_nat)
  then show "\<exists>own. MmapRead mmap offset n = Some (OK, take n (drop (unat offset) mmap), own)"
    using inside by (auto simp: MmapRead_def)
qed

definition whole_pread :: "slice \<Rightarrow> nat \<Rightarrow> u64 \<Rightarrow> os_result \<times> slice" where
  "whole_pread whole n offset = (Done (min n (length whole - unat offset)), take n (drop (unat offset) whole))"

interpretation pread_file: random_access_file "PosixRandomRead None (whole_pread whole)" whole
  by unfold_locales (auto simp: PosixRandomRead_def whole_pread_def)

section \<open>Handles and footers\<close>

record BlockHandle =
  bh_offset :: u64
  bh_size :: u64

definition new_handle :: BlockHandle where
  "new_handle = \<lparr>bh_offset = NOT 0, bh_size = NOT 0\<rparr>"

definition kMaxEncodedLength :: nat where "kMaxEncodedLength = 10 + 10"

definition handle_EncodeTo :: "BlockHandle \<Rightarrow> slice \<Rightarrow> slice" where
  "handle_EncodeTo h dst = PutVarint64 (PutVarint64 dst (bh_offset h)) (bh_size h)"

definition handle_DecodeFrom :: "slice \<Rightarrow> BlockHandle \<Rightarrow> Status \<times> BlockHandle \<times> slice" where
  "handle_DecodeFrom input h =
     (case GetVarint64 input of
        (None, input) \<Rightarrow> (Corruption ''bad block handle'', h, input)
      | (Some offset, input) \<Rightarrow>
          (case GetVarint64 input of
             (None, input) \<Rightarrow> (Corruption ''bad block handle'', h\<lparr>bh_offset := offset\<rparr>, input)
           | (Some n, input) \<Rightarrow> (OK, \<lparr>bh_offset = offset, bh_size = n\<rparr>, input)))"

definition kEncodedLength :: nat where "kEncodedLength = 2 * kMaxEncodedLength + 8"
definition kTableMagicNumber :: u64 where "kTableMagicNumber = 0xdb4775248b80fb57"
definition kBlockTrailerSize :: nat where "kBlockTrailerSize = 5"

record Footer =
  ft_metaindex :: BlockHandle
  ft_index :: BlockHandle

definition new_footer :: Footer where
  "new_footer = \<lparr>ft_metaindex = new_handle, ft_index = new_handle\<rparr>"

text \<open>\<open>resize\<close> counts from the start of the destination.\<close>

definition resize :: "nat \<Rightarrow> slice \<Rightarrow> slice" where
  "resize n s = take n s @ replicate (n - length s) 0"

definition footer_EncodeTo :: "Footer \<Rightarrow> slice \<Rightarrow> slice" where
  "footer_EncodeTo f dst =
     (let dst = handle_EncodeTo (ft_metaindex f) dst;
          dst = handle_EncodeTo (ft_index f) dst;
          dst = resize (2 * kMaxEncodedLength) dst;
          dst = PutFixed32 dst (ucast (kTableMagicNumber AND 0xffffffff))
      in PutFixed32 dst (ucast (drop_bit 32 kTableMagicNumber)))"

definition footer_DecodeFrom :: "slice \<Rightarrow> Footer \<Rightarrow> (Status \<times> Footer \<times> slice) option" where
  "footer_DecodeFrom input f =
     do { magic_lo \<leftarrow> DecodeFixed32 (drop (kEncodedLength - 8) input);
          magic_hi \<leftarrow> DecodeFixed32 (drop (kEncodedLength - 8 + 4) input);
          let magic = push_bit 32 (ucast magic_hi) OR ucast magic_lo in
          Some (if magic \<noteq> kTableMagicNumber then (Corruption ''not an sstable (bad magic number)'', f, input)
                else
                  let (result, metaindex, rest) = handle_DecodeFrom input (ft_metaindex f);
                      f = f\<lparr>ft_metaindex := metaindex\<rparr>
                  in if \<not> ok result then (result, f, rest)
                     else
                       let (result, index, rest) = handle_DecodeFrom rest (ft_index f);
                           f = f\<lparr>ft_index := index\<rparr>
                       in if \<not> ok result then (result, f, rest)
                          else (result, f, drop kEncodedLength input)) }"

section \<open>Blocks in files\<close>

datatype CompressionType = kNoCompression | kSnappyCompression

fun compression_code :: "CompressionType \<Rightarrow> u8" where
  "compression_code kNoCompression = 0"
| "compression_code kSnappyCompression = 1"

record Snappy =
  sn_compress :: "slice \<Rightarrow> slice option"
  sn_length :: "slice \<Rightarrow> nat option"
  sn_uncompress :: "slice \<Rightarrow> slice option"

definition no_snappy :: Snappy where
  "no_snappy = \<lparr>sn_compress = (\<lambda>_. None), sn_length = (\<lambda>_. None), sn_uncompress = (\<lambda>_. None)\<rparr>"

record BlockContents =
  bc_data :: slice
  bc_cachable :: bool
  bc_heap_allocated :: bool

definition no_contents :: BlockContents where
  "no_contents = \<lparr>bc_data = [], bc_cachable = False, bc_heap_allocated = False\<rparr>"

text \<open>\<open>n + kBlockTrailerSize\<close> is a sum of 64 bits.\<close>

definition ReadBlock ::
  "crc_env \<Rightarrow> Snappy \<Rightarrow> random_read \<Rightarrow> bool \<Rightarrow> BlockHandle \<Rightarrow> (Status \<times> BlockContents) option"
where
  "ReadBlock ce sn read_at verify_checksums handle =
     (let n = unat (bh_size handle);
          total = unat (bh_size handle + of_nat kBlockTrailerSize)
      in do {
        (s, contents, own) \<leftarrow> read_at (bh_offset handle) total;
        if \<not> ok s then Some (s, no_contents)
        else if length contents \<noteq> total then Some (Corruption ''truncated block read'', no_contents)
        else do {
          good \<leftarrow> (if verify_checksums
                   then do { w \<leftarrow> DecodeFixed32 (drop (n + 1) contents);
                             Some (crc_value ce (take (n + 1) contents) = Unmask w) }
                   else Some True);
          if \<not> good then Some (Corruption ''block checksum mismatch'', no_contents)
          else if n \<ge> length contents then None
          else if contents ! n = compression_code kNoCompression
          then Some (OK, \<lparr>bc_data = take n contents, bc_cachable = own, bc_heap_allocated = own\<rparr>)
          else if contents ! n = compression_code kSnappyCompression
          then Some (case sn_length sn (take n contents) of
                  None \<Rightarrow> (Corruption ''corrupted compressed block contents'', no_contents)
                | Some ulength \<Rightarrow>
                    (case sn_uncompress sn (take n contents) of
                       None \<Rightarrow> (Corruption ''corrupted compressed block contents'', no_contents)
                     | Some bytes \<Rightarrow>
                         (OK, \<lparr>bc_data = take ulength bytes, bc_cachable = True, bc_heap_allocated = True\<rparr>)))
          else Some (Corruption ''bad block type'', no_contents) } })"

section \<open>Round trips\<close>

lemma handle_EncodeTo_append: "handle_EncodeTo h dst = dst @ handle_EncodeTo h []"
  by (simp add: handle_EncodeTo_def PutVarint64_def)

lemma handle_roundtrip [simp]: "handle_DecodeFrom (handle_EncodeTo h [] @ rest) h' = (OK, h, rest)"
  by (simp add: handle_DecodeFrom_def handle_EncodeTo_def PutVarint64_def)

lemma handle_bytes: "length (handle_EncodeTo h []) \<le> kMaxEncodedLength"
  using length_varint_u64 [of "bh_offset h"] length_varint_u64 [of "bh_size h"]
  by (simp add: handle_EncodeTo_def PutVarint64_def EncodeVarint64_spec kMaxEncodedLength_def)

lemma resize_short: "length s \<le> n \<Longrightarrow> resize n s = s @ replicate (n - length s) 0"
  by (simp add: resize_def)

lemma magic_words:
  "push_bit 32 (ucast (ucast (drop_bit 32 kTableMagicNumber) :: u32)) OR
   ucast (ucast (kTableMagicNumber AND 0xffffffff) :: u32) = kTableMagicNumber"
  unfolding kTableMagicNumber_def by code_simp

lemma footer_bytes: "\<exists>pad. footer_EncodeTo f [] = handle_EncodeTo (ft_metaindex f) [] @ handle_EncodeTo (ft_index f) [] @ pad @
    EncodeFixed32 (ucast (kTableMagicNumber AND 0xffffffff)) @ EncodeFixed32 (ucast (drop_bit 32 kTableMagicNumber)) \<and>
    length (handle_EncodeTo (ft_metaindex f) [] @ handle_EncodeTo (ft_index f) [] @ pad) = kEncodedLength - 8"
proof -
  let ?hs = "handle_EncodeTo (ft_metaindex f) [] @ handle_EncodeTo (ft_index f) []"
  have "length ?hs \<le> 2 * kMaxEncodedLength" using handle_bytes [of "ft_metaindex f"] handle_bytes [of "ft_index f"] by simp
  then show ?thesis
    by (intro exI [of _ "replicate (2 * kMaxEncodedLength - length ?hs) 0"])
      (simp add: footer_EncodeTo_def Let_def handle_EncodeTo_append [of "ft_index f" "handle_EncodeTo (ft_metaindex f) []"]
        resize_short PutFixed32_def kEncodedLength_def)
qed

lemma length_footer: "length (footer_EncodeTo f []) = kEncodedLength"
proof -
  obtain pad where "footer_EncodeTo f [] = (handle_EncodeTo (ft_metaindex f) [] @ handle_EncodeTo (ft_index f) [] @ pad) @
    EncodeFixed32 (ucast (kTableMagicNumber AND 0xffffffff)) @ EncodeFixed32 (ucast (drop_bit 32 kTableMagicNumber))"
    "length (handle_EncodeTo (ft_metaindex f) [] @ handle_EncodeTo (ft_index f) [] @ pad) = kEncodedLength - 8"
    using footer_bytes [of f] by auto
  then show ?thesis by (simp only: length_append length_EncodeFixed) (simp add: kEncodedLength_def)
qed

lemma drop_front: "drop (length w) (w @ z) = z"
  by simp

lemma footer_decoded:
  "footer_DecodeFrom (footer_EncodeTo f [] @ rest) new_footer = Some (OK, f, rest)"
proof -
  obtain pad where e: "footer_EncodeTo f [] = handle_EncodeTo (ft_metaindex f) [] @ handle_EncodeTo (ft_index f) [] @ pad @
      EncodeFixed32 (ucast (kTableMagicNumber AND 0xffffffff)) @ EncodeFixed32 (ucast (drop_bit 32 kTableMagicNumber))"
    and n: "length (handle_EncodeTo (ft_metaindex f) [] @ handle_EncodeTo (ft_index f) [] @ pad) = kEncodedLength - 8"
    using footer_bytes [of f] by auto
  let ?lo = "ucast (kTableMagicNumber AND 0xffffffff) :: u32" and ?hi = "ucast (drop_bit 32 kTableMagicNumber) :: u32"
  have assoc: "footer_EncodeTo f [] @ rest = (handle_EncodeTo (ft_metaindex f) [] @ handle_EncodeTo (ft_index f) [] @ pad) @
      EncodeFixed32 ?lo @ EncodeFixed32 ?hi @ rest"
    by (simp add: e)
  define inp where "inp = footer_EncodeTo f [] @ rest"
  have 1: "drop (kEncodedLength - 8) inp = EncodeFixed32 ?lo @ EncodeFixed32 ?hi @ rest"
    unfolding inp_def assoc n [symmetric] by (rule drop_front)
  then have 2: "drop (kEncodedLength - 8 + 4) inp = EncodeFixed32 ?hi @ rest"
    unfolding add.commute [of "kEncodedLength - 8"] by (simp only: drop_drop [symmetric]) simp
  have 3: "drop kEncodedLength inp = rest" by (simp add: inp_def length_footer)
  have 4: "handle_DecodeFrom inp h = (OK, ft_metaindex f, handle_EncodeTo (ft_index f) [] @ pad @
      EncodeFixed32 ?lo @ EncodeFixed32 ?hi @ rest)" for h
    by (simp add: inp_def e)
  have "footer_DecodeFrom inp new_footer = Some (OK, f, rest)"
    unfolding footer_DecodeFrom_def by (simp add: 1 2 3 4 magic_words new_footer_def)
  then show ?thesis by (simp add: inp_def)
qed

text \<open>Footers survive: what \<open>EncodeTo\<close> writes has 48 bytes and is decoded to the same two handles,
  leaving what comes after it.\<close>

theorem footer_roundtrip:
  "length (footer_EncodeTo f []) = kEncodedLength \<and>
   footer_DecodeFrom (footer_EncodeTo f [] @ rest) new_footer = Some (OK, f, rest)"
  by (simp add: length_footer footer_decoded)

text \<open>A block as it is stored: its bytes, the type of compression and the masked checksum of both.\<close>

definition stored_block :: "CompressionType \<Rightarrow> slice \<Rightarrow> slice" where
  "stored_block t data = data @ compression_code t # EncodeFixed32 (Mask (crc32c 0 (data @ [compression_code t])))"

lemma length_stored [simp]: "length (stored_block t data) = length data + kBlockTrailerSize"
  by (simp add: stored_block_def kBlockTrailerSize_def)

context random_access_file begin

lemma ReadBlock_stored:
  assumes "whole = pre @ stored_block t data @ post" and "length whole < 2 ^ 64" and "accel_ok (ce_accel ce)"
    and "h = \<lparr>bh_offset = of_nat (length pre), bh_size = of_nat (length data)\<rparr>"
    and "t = kSnappyCompression \<Longrightarrow> sn_length sn data = Some (length raw) \<and> sn_uncompress sn data = Some raw"
    and "t = kNoCompression \<Longrightarrow> raw = data"
  shows "\<exists>c. ReadBlock ce sn read_at verify h = Some (OK, c) \<and> bc_data c = raw"
proof -
  let ?total = "length data + kBlockTrailerSize"
  have small: "length pre + ?total < 2 ^ 64" using assms(1,2) by simp
  have n: "unat (bh_size h) = length data" "unat (bh_offset h) = length pre"
    "unat (bh_size h + of_nat kBlockTrailerSize) = ?total"
    using small by (simp_all add: assms(4) unsigned_of_nat take_bit_nat_eq_self unat_word_ariths kBlockTrailerSize_def)
  obtain own where read: "read_at (bh_offset h) ?total = Some (OK, stored_block t data, own)"
    using read_inside [OF assms(2), of "bh_offset h" ?total] by (auto simp: n assms(1))
  have word: "drop (Suc (length data)) (stored_block t data) = EncodeFixed32 (Mask (crc32c 0 (data @ [compression_code t]))) @ []"
    and type: "stored_block t data ! length data = compression_code t" and body: "take (length data) (stored_block t data) = data"
    and checked: "take (Suc (length data)) (stored_block t data) = data @ [compression_code t]"
    by (simp_all add: stored_block_def)
  show ?thesis
    unfolding ReadBlock_def Let_def n read
    using word type body checked assms(5,6)
    by (cases t) (simp_all del: append_Nil2 add: crc_values [OF assms(3)] kBlockTrailerSize_def)
qed

end



text \<open>A footer is decoded without a look at its size: a read that gives less than the 48 bytes asked
  for, as \<open>pread\<close> may, makes \<open>DecodeFrom\<close> read outside what was read.\<close>

theorem short_footer_undefined:
  "length input < kEncodedLength \<Longrightarrow> footer_DecodeFrom input f = None"
  by (auto simp: footer_DecodeFrom_def kEncodedLength_def kMaxEncodedLength_def DecodeFixed32_def Let_def bind_eq_None_conv
      split: list.splits)

lemma short_footer_undefined_witness: "footer_DecodeFrom [1, 2, 3] new_footer = None"
  by (rule short_footer_undefined) (simp add: kEncodedLength_def kMaxEncodedLength_def)

end
