(* ===== verification/Ldb_Bloom.thy ===== *)
theory Ldb_Bloom
  imports Ldb_Keys
begin

text \<open>
  Filters: \<open>leveldb-library/util/hash.cc\<close>, \<open>bloom.cc\<close>, and the filter policy of internal keys
  (\<open>db/dbformat.cc\<close>). A \<open>FilterPolicy\<close> object is a record of its functions. Locale \<open>filter_policy\<close>
  states their contract: a key that went into a filter is never denied. The number of probes before
  it is clamped is a product of floating-point numbers and a parameter. Sizes stay below \<open>2 ^ 64\<close>.
\<close>

section \<open>Hashing\<close>

definition hash_m :: u32 where "hash_m = 0xc6a4a793"

function hash_loop :: "u32 \<Rightarrow> slice \<Rightarrow> u32 \<times> slice" where
  "hash_loop h data =
     (if length data \<ge> 4
      then let w = (case DecodeFixed32 data of Some w \<Rightarrow> w | None \<Rightarrow> 0);
               h = h + w;
               h = h * hash_m;
               h = h XOR drop_bit 16 h
           in hash_loop h (drop 4 data)
      else (h, data))"
  by auto
termination
  by (relation "measure (\<lambda>(h, data). length data)") auto

text \<open>The last bytes; the cases fall through.\<close>

definition hash_tail :: "u32 \<Rightarrow> slice \<Rightarrow> u32" where
  "hash_tail h data =
     (let n = length data;
          h = (if n = 3 then h + push_bit 16 (ucast (data ! 2)) else h);
          h = (if n = 3 \<or> n = 2 then h + push_bit 8 (ucast (data ! 1)) else h)
      in if n = 3 \<or> n = 2 \<or> n = 1
         then let h = h + ucast (data ! 0); h = h * hash_m in h XOR drop_bit 24 h
         else h)"

definition Hash :: "slice \<Rightarrow> u32 \<Rightarrow> u32" where
  "Hash data seed = (case hash_loop (seed XOR (of_nat (length data) * hash_m)) data of (h, rest) \<Rightarrow> hash_tail h rest)"

section \<open>Bloom filters\<close>

definition string_bytes :: "string \<Rightarrow> slice" where
  "string_bytes s = map (\<lambda>c. of_nat (of_char c)) s"

record FilterPolicy =
  fp_Name :: slice
  fp_CreateFilter :: "slice list \<Rightarrow> slice \<Rightarrow> slice"
  fp_KeyMayMatch :: "slice \<Rightarrow> slice \<Rightarrow> bool"

definition BloomHash :: "slice \<Rightarrow> u32" where
  "BloomHash key = Hash key 0xbc9f1d34"

definition bloom_delta :: "u32 \<Rightarrow> u32" where
  "bloom_delta h = drop_bit 17 h OR push_bit 15 h"

text \<open>\<open>product\<close> is \<open>bits_per_key * 0.69\<close>, rounded down.\<close>

definition bloom_k :: "nat \<Rightarrow> nat" where
  "bloom_k product = (if product < 1 then 1 else if product > 30 then 30 else product)"

primrec set_probes :: "nat \<Rightarrow> nat \<Rightarrow> u32 \<Rightarrow> u32 \<Rightarrow> slice \<Rightarrow> slice" where
  "set_probes 0 bits delta h arr = arr"
| "set_probes (Suc j) bits delta h arr =
     (let bitpos = unat h mod bits
      in set_probes j bits delta (h + delta)
           (arr[bitpos div 8 := arr ! (bitpos div 8) OR push_bit (bitpos mod 8) 1]))"

definition add_key :: "nat \<Rightarrow> nat \<Rightarrow> slice \<Rightarrow> slice \<Rightarrow> slice" where
  "add_key k bits key arr = (let h = BloomHash key in set_probes k bits (bloom_delta h) h arr)"

definition bloom_CreateFilter :: "nat \<Rightarrow> nat \<Rightarrow> slice list \<Rightarrow> slice \<Rightarrow> slice" where
  "bloom_CreateFilter bits_per_key k keys dst =
     (let bits = length keys * bits_per_key;
          bits = (if bits < 64 then 64 else bits);
          bytes = (bits + 7) div 8;
          bits = bytes * 8
      in dst @ fold (add_key k bits) keys (replicate bytes 0) @ [of_nat k])"

primrec probes_set :: "nat \<Rightarrow> nat \<Rightarrow> u32 \<Rightarrow> u32 \<Rightarrow> slice \<Rightarrow> bool" where
  "probes_set 0 bits delta h arr = True"
| "probes_set (Suc j) bits delta h arr =
     (let bitpos = unat h mod bits
      in if arr ! (bitpos div 8) AND push_bit (bitpos mod 8) 1 = 0 then False
         else probes_set j bits delta (h + delta) arr)"

definition bloom_KeyMayMatch :: "slice \<Rightarrow> slice \<Rightarrow> bool" where
  "bloom_KeyMayMatch key bloom_filter =
     (let len = length bloom_filter
      in if len < 2 then False
         else let bits = (len - 1) * 8;
                  k = unat (scast (bloom_filter ! (len - 1)) :: u64)
              in if k > 30 then True
                 else let h = BloomHash key in probes_set k bits (bloom_delta h) h bloom_filter)"

definition NewBloomFilterPolicy :: "nat \<Rightarrow> nat \<Rightarrow> FilterPolicy" where
  "NewBloomFilterPolicy bits_per_key product =
     \<lparr>fp_Name = string_bytes ''leveldb.BuiltinBloomFilter2'', fp_CreateFilter = bloom_CreateFilter bits_per_key (bloom_k product),
      fp_KeyMayMatch = bloom_KeyMayMatch\<rparr>"

definition InternalFilterPolicy :: "FilterPolicy \<Rightarrow> FilterPolicy" where
  "InternalFilterPolicy user =
     \<lparr>fp_Name = fp_Name user, fp_CreateFilter = (\<lambda>keys dst. fp_CreateFilter user (map ExtractUserKey keys) dst),
      fp_KeyMayMatch = (\<lambda>key f. fp_KeyMayMatch user (ExtractUserKey key) f)\<rparr>"

section \<open>The contract\<close>

locale filter_policy =
  fixes policy :: FilterPolicy
  assumes create_appends: "fp_CreateFilter policy keys dst = dst @ fp_CreateFilter policy keys []"
    and created_matches: "key \<in> set keys \<Longrightarrow> fp_KeyMayMatch policy key (fp_CreateFilter policy keys [])"
begin

lemma internal_policy: "filter_policy (InternalFilterPolicy policy)"
proof
  show "fp_CreateFilter (InternalFilterPolicy policy) keys dst = dst @ fp_CreateFilter (InternalFilterPolicy policy) keys []"
    for keys dst
    using create_appends [of "map ExtractUserKey keys" dst] by (simp add: InternalFilterPolicy_def)
  show "key \<in> set keys \<Longrightarrow> fp_KeyMayMatch (InternalFilterPolicy policy) key (fp_CreateFilter (InternalFilterPolicy policy) keys [])"
    for key keys
    using created_matches [of "ExtractUserKey key" "map ExtractUserKey keys"] by (simp add: InternalFilterPolicy_def)
qed

end

section \<open>Bloom filters have no false negatives\<close>

definition bits_kept :: "slice \<Rightarrow> slice \<Rightarrow> bool" where
  "bits_kept arr arr' \<longleftrightarrow> length arr' = length arr \<and> (\<forall>i < length arr. \<forall>n. bit (arr ! i) n \<longrightarrow> bit (arr' ! i) n)"

lemma bits_kept_refl [simp]: "bits_kept arr arr"
  by (simp add: bits_kept_def)

lemma bits_kept_trans: "bits_kept a b \<Longrightarrow> bits_kept b c \<Longrightarrow> bits_kept a c"
  by (simp add: bits_kept_def)

lemma set_probes_kept: "bits_kept arr (set_probes j bits delta h arr)"
proof (induction j arbitrary: h arr)
  case (Suc j)
  let ?p = "unat h mod bits"
  have "bits_kept arr (arr[?p div 8 := arr ! (?p div 8) OR push_bit (?p mod 8) 1])"
    unfolding bits_kept_def
  proof (intro conjI allI impI)
    show "bit (arr[?p div 8 := arr ! (?p div 8) OR push_bit (?p mod 8) 1] ! i) n" if "i < length arr" "bit (arr ! i) n" for i n
      using that by (cases "i = ?p div 8") (simp_all add: bit_or_iff)
  qed simp
  then show ?case unfolding set_probes.simps Let_def using Suc.IH bits_kept_trans by blast
qed simp

lemma probe_bit: "n < 8 \<Longrightarrow> (x AND push_bit n 1 = 0) \<longleftrightarrow> \<not> bit x n" for x :: u8
  by (simp add: push_bit_eq_mult and_exp_eq_0_iff_not_bit)

lemma probes_set_kept:
  assumes "bits_kept arr arr'" and "probes_set j bits delta h arr" and "0 < bits" and "bits \<le> length arr * 8"
  shows "probes_set j bits delta h (arr' @ more')"
  using assms(2)
proof (induction j arbitrary: h)
  case (Suc j)
  let ?p = "unat h mod bits"
  have "?p < bits" using assms(3) by simp
  then have p: "?p div 8 < length arr" using assms(4) by (simp add: less_mult_imp_div_less)
  then have "bit (arr ! (?p div 8)) (?p mod 8)" "probes_set j bits delta (h + delta) arr"
    using Suc.prems probe_bit [of "?p mod 8"] by (simp_all add: Let_def split: if_split_asm)
  then have "bit ((arr' @ more') ! (?p div 8)) (?p mod 8)" using assms(1) p by (auto simp: bits_kept_def nth_append)
  then show ?case
    using Suc.IH \<open>probes_set j bits delta (h + delta) arr\<close> probe_bit [of "?p mod 8"] by (simp add: Let_def)
qed simp

lemma probes_set_after:
  assumes "0 < bits" and "bits \<le> length arr * 8"
  shows "probes_set j bits delta h (set_probes j bits delta h arr)"
  using assms(2)
proof (induction j arbitrary: h arr)
  case (Suc j)
  let ?p = "unat h mod bits"
  let ?arr = "arr[?p div 8 := arr ! (?p div 8) OR push_bit (?p mod 8) 1]"
  have "?p < bits" using assms(1) by simp
  then have p: "?p div 8 < length arr" using Suc.prems by (simp add: less_mult_imp_div_less)
  then have "bit (?arr ! (?p div 8)) (?p mod 8)" by (simp add: bit_or_iff bit_exp_iff)
  then have "bit (set_probes j bits delta (h + delta) ?arr ! (?p div 8)) (?p mod 8)"
    using set_probes_kept [of ?arr j bits delta "h + delta"] p by (simp add: bits_kept_def)
  moreover have "probes_set j bits delta (h + delta) (set_probes j bits delta (h + delta) ?arr)"
    using Suc.IH [of ?arr "h + delta"] Suc.prems by simp
  ultimately show ?case
    unfolding set_probes.simps probes_set.simps Let_def using probe_bit [of "?p mod 8"] by simp
qed simp

lemma add_key_kept: "bits_kept arr (add_key k bits key arr)"
  unfolding add_key_def Let_def by (rule set_probes_kept)

lemma length_add_key [simp]: "length (add_key k bits key arr) = length arr"
  using add_key_kept by (simp add: bits_kept_def)

lemma add_keys_kept: "bits_kept arr (fold (add_key k bits) keys arr)"
  by (induction keys arbitrary: arr) (auto intro: bits_kept_trans add_key_kept)

lemma added_key_set:
  assumes "key \<in> set keys" and "0 < bits" and "bits \<le> length arr * 8"
  shows "probes_set k bits (bloom_delta (BloomHash key)) (BloomHash key) (fold (add_key k bits) keys arr @ more')"
  using assms(1,3)
proof (induction keys arbitrary: arr)
  case (Cons x keys)
  show ?case
  proof (cases "key \<in> set keys")
    case True
    then show ?thesis using Cons.IH [of "add_key k bits x arr"] Cons.prems(2) by simp
  next
    case False
    then have x: "x = key" using Cons.prems by simp
    have "probes_set k bits (bloom_delta (BloomHash key)) (BloomHash key) (add_key k bits key arr)"
      unfolding add_key_def Let_def using assms(2) Cons.prems(2) by (rule probes_set_after)
    then show ?thesis
      using probes_set_kept [OF add_keys_kept [of "add_key k bits x arr" k bits keys] _ assms(2)] Cons.prems(2) x
      by simp
  qed
qed simp

lemma bloom_k_bounds: "1 \<le> bloom_k p" "bloom_k p \<le> 30"
  by (simp_all add: bloom_k_def)

lemma small_byte_scast: "n < 128 \<Longrightarrow> scast (of_nat n :: u8) = (of_nat n :: u64)"
proof -
  assume n: "n < 128"
  have u: "uint (of_nat n :: u8) = int n" using n by (simp add: unsigned_of_nat take_bit_nat_eq_self)
  have "sint (of_nat n :: u8) = int n"
    using n u by (simp add: sint_uint signed_take_bit_int_eq_self)
  then show ?thesis by (simp add: signed_ucast_eq scast_eq)
qed

lemma bloom_keeps_keys:
  assumes "key \<in> set keys"
  shows "bloom_KeyMayMatch key (bloom_CreateFilter b (bloom_k p) keys [])"
proof -
  define n where "n = (if length keys * b < 64 then 64 else length keys * b)"
  define bytes where "bytes = (n + 7) div 8"
  define arr where "arr = fold (add_key (bloom_k p) (bytes * 8)) keys (replicate bytes 0)"
  have n: "64 \<le> n" by (simp add: n_def)
  then have bytes: "8 \<le> bytes" by (simp add: bytes_def)
  have len: "length arr = bytes" using add_keys_kept [of "replicate bytes 0"] by (simp add: arr_def bits_kept_def)
  have f: "bloom_CreateFilter b (bloom_k p) keys [] = arr @ [of_nat (bloom_k p)]"
    by (simp add: bloom_CreateFilter_def Let_def n_def bytes_def arr_def)
  have k: "unat (scast (of_nat (bloom_k p) :: u8) :: u64) = bloom_k p"
    using bloom_k_bounds [of p] by (simp add: small_byte_scast unsigned_of_nat take_bit_nat_eq_self)
  have "probes_set (bloom_k p) (bytes * 8) (bloom_delta (BloomHash key)) (BloomHash key) (arr @ [of_nat (bloom_k p)])"
    unfolding arr_def using assms bytes by (intro added_key_set) auto
  then show ?thesis
    unfolding f bloom_KeyMayMatch_def Let_def using len bytes k bloom_k_bounds(2) [of p] by (simp add: nth_append)
qed

lemma bloom_is_policy: "filter_policy (NewBloomFilterPolicy bits_per_key product)"
proof
  show "fp_CreateFilter (NewBloomFilterPolicy bits_per_key product) keys dst
    = dst @ fp_CreateFilter (NewBloomFilterPolicy bits_per_key product) keys []" for keys dst
    by (simp add: NewBloomFilterPolicy_def bloom_CreateFilter_def Let_def)
qed (simp add: NewBloomFilterPolicy_def bloom_keeps_keys)

interpretation bloom: filter_policy "NewBloomFilterPolicy bits_per_key product"
  by (rule bloom_is_policy)

interpretation internal_bloom: filter_policy "InternalFilterPolicy (NewBloomFilterPolicy bits_per_key product)"
  by (rule bloom.internal_policy)

text \<open>C12: A Bloom filter has no false negatives: every key that \<open>CreateFilter\<close> was given may match the
  filter it builds, for any number of bits per key, any appended bytes before it, and also through the
  policy that strips the sequence number of internal keys.\<close>
theorem bloom_no_false_negatives:
  assumes "key \<in> set keys"
  shows "take (length dst) (fp_CreateFilter (NewBloomFilterPolicy b p) keys dst) = dst \<and>
    bloom_KeyMayMatch key (drop (length dst) (fp_CreateFilter (NewBloomFilterPolicy b p) keys dst)) \<and>
    fp_KeyMayMatch (InternalFilterPolicy (NewBloomFilterPolicy b p)) key
      (fp_CreateFilter (InternalFilterPolicy (NewBloomFilterPolicy b p)) keys [])"
  using bloom.created_matches [OF assms, of b p] internal_bloom.created_matches [OF assms, of b p]
    bloom.create_appends [of b p keys dst]
  by (simp add: NewBloomFilterPolicy_def)

lemma bloom_no_false_negatives_witness:
  "bloom_KeyMayMatch [104, 105] (drop (length ([9] :: slice)) (fp_CreateFilter (NewBloomFilterPolicy 10 6) [[1], [104, 105]] [9]))"
  using bloom_no_false_negatives [of "[104, 105]" "[[1], [104, 105]]" "[9]" 10 6] by simp

end
