(* ===== verification/Ldb_Filter.thy ===== *)
theory Ldb_Filter
  imports Ldb_Bloom
begin

text \<open>
  Filter blocks: \<open>leveldb-library/table/filter_block.cc\<close>. The builder and the reader are the records
  of their members, a pointer into the contents is its offset. A filter is made for every 2048 bytes
  of the file, so several blocks may share one and one block may own several. The contract of the
  filters is locale \<open>filter_policy\<close>. \<open>None\<close> is a shift by 64 or more bits or a read outside the block.
\<close>

section \<open>The builder\<close>

definition kFilterBaseLg :: nat where "kFilterBaseLg = 11"
definition kFilterBase :: nat where "kFilterBase = 2 ^ kFilterBaseLg"

record filter_builder =
  fb_keys :: slice
  fb_start :: "nat list"
  fb_result :: slice
  fb_offsets :: "u32 list"

definition FilterBlockBuilder :: filter_builder where
  "FilterBlockBuilder = \<lparr>fb_keys = [], fb_start = [], fb_result = [], fb_offsets = []\<rparr>"

definition GenerateFilter :: "FilterPolicy \<Rightarrow> filter_builder \<Rightarrow> filter_builder" where
  "GenerateFilter policy b =
     (let num_keys = length (fb_start b)
      in if num_keys = 0 then b\<lparr>fb_offsets := fb_offsets b @ [of_nat (length (fb_result b))]\<rparr>
         else
           let start = fb_start b @ [length (fb_keys b)];
               tmp_keys = map (\<lambda>i. take (start ! (i + 1) - start ! i) (drop (start ! i) (fb_keys b))) [0..<num_keys]
           in \<lparr>fb_keys = [], fb_start = [], fb_result = fp_CreateFilter policy tmp_keys (fb_result b),
               fb_offsets = fb_offsets b @ [of_nat (length (fb_result b))]\<rparr>)"

lemma GenerateFilter_one_more [simp]: "length (fb_offsets (GenerateFilter policy b)) = Suc (length (fb_offsets b))"
  by (simp add: GenerateFilter_def Let_def)

function start_loop :: "FilterPolicy \<Rightarrow> nat \<Rightarrow> filter_builder \<Rightarrow> filter_builder" where
  "start_loop policy filter_index b =
     (if filter_index > length (fb_offsets b) then start_loop policy filter_index (GenerateFilter policy b) else b)"
  by auto
termination
  by (relation "measure (\<lambda>(policy, filter_index, b). filter_index - length (fb_offsets b))") auto

declare start_loop.simps [simp del]

definition StartBlock :: "FilterPolicy \<Rightarrow> nat \<Rightarrow> filter_builder \<Rightarrow> filter_builder" where
  "StartBlock policy block_offset b = start_loop policy (block_offset div kFilterBase) b"

definition filter_AddKey :: "slice \<Rightarrow> filter_builder \<Rightarrow> filter_builder" where
  "filter_AddKey key b = b\<lparr>fb_start := fb_start b @ [length (fb_keys b)], fb_keys := fb_keys b @ key\<rparr>"

definition filter_Finish :: "FilterPolicy \<Rightarrow> filter_builder \<Rightarrow> slice \<times> filter_builder" where
  "filter_Finish policy b =
     (let b = (if fb_start b \<noteq> [] then GenerateFilter policy b else b);
          array_offset = of_nat (length (fb_result b));
          result = fold (\<lambda>w dst. PutFixed32 dst w) (fb_offsets b) (fb_result b);
          result = PutFixed32 result array_offset;
          result = result @ [of_nat kFilterBaseLg]
      in (result, b\<lparr>fb_result := result\<rparr>))"

section \<open>The reader\<close>

record filter_reader =
  fr_data :: slice
  fr_offset :: nat
  fr_num :: nat
  fr_base_lg :: nat

definition FilterBlockReader :: "slice \<Rightarrow> filter_reader" where
  "FilterBlockReader contents =
     (let n = length contents; empty = \<lparr>fr_data = [], fr_offset = 0, fr_num = 0, fr_base_lg = 0\<rparr>
      in if n < 5 then empty
         else
           let base_lg = unat (scast (contents ! (n - 1)) :: u64);
               last_word = (case DecodeFixed32 (drop (n - 5) contents) of Some w \<Rightarrow> unat w | None \<Rightarrow> 0)
           in if last_word > n - 5 then empty\<lparr>fr_base_lg := base_lg\<rparr>
              else \<lparr>fr_data = contents, fr_offset = last_word, fr_num = (n - 5 - last_word) div 4,
                    fr_base_lg = base_lg\<rparr>)"

definition filter_KeyMayMatch :: "FilterPolicy \<Rightarrow> filter_reader \<Rightarrow> nat \<Rightarrow> slice \<Rightarrow> bool option" where
  "filter_KeyMayMatch policy r block_offset key =
     (if fr_base_lg r \<ge> 64 then None
      else
        let index = block_offset div 2 ^ fr_base_lg r
        in if index < fr_num r
           then do {
             start \<leftarrow> map_option unat (DecodeFixed32 (drop (fr_offset r + index * 4) (fr_data r)));
             limit \<leftarrow> map_option unat (DecodeFixed32 (drop (fr_offset r + index * 4 + 4) (fr_data r)));
             if start \<le> limit \<and> limit \<le> fr_offset r
             then Some (fp_KeyMayMatch policy key (take (limit - start) (drop start (fr_data r))))
             else if start = limit then Some False
             else Some True }
           else Some True)"

section \<open>What a builder holds\<close>

text \<open>\<open>gs\<close> are the keys of the filters that were generated, \<open>ps\<close> the keys that wait for one.\<close>

definition key_starts :: "slice list \<Rightarrow> nat list" where
  "key_starts ps = map (\<lambda>i. length (concat (take i ps))) [0..<length ps]"

definition one_filter :: "FilterPolicy \<Rightarrow> slice list \<Rightarrow> slice" where
  "one_filter policy ks = (if ks = [] then [] else fp_CreateFilter policy ks [])"

definition filter_data :: "FilterPolicy \<Rightarrow> slice list list \<Rightarrow> slice" where
  "filter_data policy gs = concat (map (one_filter policy) gs)"

definition filter_starts :: "FilterPolicy \<Rightarrow> slice list list \<Rightarrow> u32 list" where
  "filter_starts policy gs = map (\<lambda>i. of_nat (length (filter_data policy (take i gs)))) [0..<length gs]"

definition builder_of :: "FilterPolicy \<Rightarrow> slice list list \<Rightarrow> slice list \<Rightarrow> filter_builder" where
  "builder_of policy gs ps =
     \<lparr>fb_keys = concat ps, fb_start = key_starts ps, fb_result = filter_data policy gs,
      fb_offsets = filter_starts policy gs\<rparr>"

lemma key_starts_simps [simp]:
  "key_starts [] = []" "length (key_starts ps) = length ps" "key_starts ps = [] \<longleftrightarrow> ps = []"
  "key_starts (ps @ [k]) = key_starts ps @ [length (concat ps)]"
  by (simp_all add: key_starts_def)

lemma filter_data_simps [simp]:
  "filter_data policy [] = []" "filter_data policy (gs @ [ps]) = filter_data policy gs @ one_filter policy ps"
  by (simp_all add: filter_data_def)

lemma filter_starts_simps [simp]:
  "filter_starts policy [] = []" "length (filter_starts policy gs) = length gs"
  "filter_starts policy (gs @ [ps]) = filter_starts policy gs @ [of_nat (length (filter_data policy gs))]"
  by (simp_all add: filter_starts_def)

lemma new_builder: "FilterBlockBuilder = builder_of policy [] []"
  by (simp add: FilterBlockBuilder_def builder_of_def)

lemma add_to_builder: "filter_AddKey k (builder_of policy gs ps) = builder_of policy gs (ps @ [k])"
  by (simp add: filter_AddKey_def builder_of_def)

lemma add_keys_to_builder: "fold filter_AddKey ks (builder_of policy gs ps) = builder_of policy gs (ps @ ks)"
  by (induction ks arbitrary: ps) (simp_all add: add_to_builder)

lemma split_keys:
  assumes "i < length ps" and "start = key_starts ps @ [length (concat ps)]"
  shows "take (start ! (i + 1) - start ! i) (drop (start ! i) (concat ps)) = ps ! i"
proof -
  have at: "start ! j = length (concat (take j ps))" if "j \<le> length ps" for j
    using that by (auto simp: assms(2) key_starts_def nth_append)
  have "concat ps = concat (take i ps) @ ps ! i @ concat (drop (Suc i) ps)"
    by (metis assms(1) append_take_drop_id concat.simps(2) concat_append id_take_nth_drop append_assoc)
  moreover have "length (concat (take (i + 1) ps)) = length (concat (take i ps)) + length (ps ! i)"
    using assms(1) by (simp add: take_Suc_conv_app_nth)
  ultimately show ?thesis using at [of i] at [of "i + 1"] assms(1) by simp
qed

context filter_policy begin

lemma generate_builder:
  "GenerateFilter policy (builder_of policy gs ps) = builder_of policy (gs @ [ps]) []"
proof (cases "ps = []")
  case True
  then show ?thesis by (simp add: GenerateFilter_def builder_of_def one_filter_def)
next
  case False
  let ?start = "key_starts ps @ [length (concat ps)]"
  have "map (\<lambda>i. take (?start ! (i + 1) - ?start ! i) (drop (?start ! i) (concat ps))) [0..<length ps] = ps"
    by (rule nth_equalityI) (use split_keys [OF _ refl] in simp_all)
  then show ?thesis
    using False create_appends [of ps "filter_data policy gs"]
    by (simp add: GenerateFilter_def builder_of_def one_filter_def Let_def)
qed

lemma start_block_builder:
  assumes "length gs \<le> n"
  shows "\<exists>gs' ps'. start_loop policy n (builder_of policy gs ps) = builder_of policy gs' ps' \<and> length gs' = n \<and>
    (\<forall>i < length gs. gs' ! i = gs ! i) \<and> (length gs = n \<longrightarrow> ps' = ps) \<and>
    (length gs < n \<longrightarrow> gs' ! length gs = ps \<and> ps' = [])"
  using assms
proof (induction "n - length gs" arbitrary: gs ps)
  case 0
  then show ?case by (intro exI [of _ gs] exI [of _ ps]) (simp add: start_loop.simps builder_of_def)
next
  case (Suc d)
  then have less: "length gs < n" by simp
  have step: "start_loop policy n (builder_of policy gs ps) = start_loop policy n (builder_of policy (gs @ [ps]) [])"
    using less generate_builder [of gs ps] by (subst start_loop.simps) (simp add: builder_of_def)
  have "d = n - length (gs @ [ps])" "length (gs @ [ps]) \<le> n" using Suc.hyps(2) less by simp_all
  from Suc.hyps(1) [OF this, of "[]"] obtain gs' ps' where more:
    "start_loop policy n (builder_of policy (gs @ [ps]) []) = builder_of policy gs' ps'"
    "length gs' = n" "\<forall>i < length (gs @ [ps]). gs' ! i = (gs @ [ps]) ! i"
    and "length (gs @ [ps]) = n \<longrightarrow> ps' = []" "length (gs @ [ps]) < n \<longrightarrow> ps' = []" by blast
  then have "ps' = []" using \<open>length (gs @ [ps]) \<le> n\<close> by linarith
  with more show ?case using step less by (intro exI [of _ gs'] exI [of _ ps']) (auto simp: nth_append)
qed

end

lemma finished_filters:
  assumes "gs' = (if ps = [] then gs else gs @ [ps])" and "filter_policy policy"
  shows "fst (filter_Finish policy (builder_of policy gs ps)) =
    filter_data policy gs' @ concat (map EncodeFixed32 (filter_starts policy gs' @ [of_nat (length (filter_data policy gs'))]))
      @ [11]"
proof -
  have "(if fb_start (builder_of policy gs ps) \<noteq> [] then GenerateFilter policy (builder_of policy gs ps) else builder_of policy gs ps) =
    builder_of policy gs' []"
    using filter_policy.generate_builder [OF assms(2)] by (auto simp: assms(1) builder_of_def)
  then show ?thesis
    unfolding filter_Finish_def Let_def fold_PutFixed32 by (simp add: builder_of_def PutFixed32_def kFilterBaseLg_def)
qed

lemma filter_at:
  assumes "i < length gs"
  shows "take (length (filter_data policy (take (Suc i) gs)) - length (filter_data policy (take i gs)))
    (drop (length (filter_data policy (take i gs))) (filter_data policy gs @ rest)) = one_filter policy (gs ! i)"
proof -
  have "filter_data policy gs = filter_data policy (take i gs) @ one_filter policy (gs ! i) @ filter_data policy (drop (Suc i) gs)"
    unfolding filter_data_def by (subst id_take_nth_drop [OF assms]) simp
  then show ?thesis using assms by (simp add: take_Suc_conv_app_nth)
qed

lemma data_prefix: "i \<le> j \<Longrightarrow> length (filter_data policy (take i gs)) \<le> length (filter_data policy (take j gs))"
proof -
  assume "i \<le> j"
  then have "take j gs = take i gs @ take (j - i) (drop i gs)" by (simp add: take_add [symmetric])
  then show ?thesis by (simp add: filter_data_def)
qed

lemma filter_read:
  assumes contents: "contents = filter_data policy gs @
      concat (map EncodeFixed32 (filter_starts policy gs @ [of_nat (length (filter_data policy gs))])) @ [11]"
    and small: "length (filter_data policy gs) < 2 ^ 32" and i: "off div 2 ^ 11 < length gs"
  shows "filter_KeyMayMatch policy (FilterBlockReader contents) off key =
    Some (fp_KeyMayMatch policy key (one_filter policy (gs ! (off div 2 ^ 11))))"
proof -
  let ?d = "length (filter_data policy gs)" and ?i = "off div 2 ^ 11"
  let ?ws = "filter_starts policy gs @ [of_nat ?d]"
  have words: "\<exists>rest. drop (?d + j * 4) contents = EncodeFixed32 (?ws ! j) @ rest" if "j \<le> length gs" for j
    using drop_fixed [of j ?ws "[11]"] that by (simp add: contents)
  have at: "unat (?ws ! j) = length (filter_data policy (take j gs))" if "j \<le> length gs" for j
    using that data_prefix [of j "length gs" policy gs] small
    by (auto simp: nth_append filter_starts_def unsigned_of_nat take_bit_nat_eq_self)
  have n: "length contents = ?d + 4 * (length gs + 1) + 1" by (simp add: contents length_fixed)
  have last: "drop (length contents - 5) contents = EncodeFixed32 (of_nat ?d) @ [11]"
    by (simp add: contents length_fixed)
  have r: "FilterBlockReader contents = \<lparr>fr_data = contents, fr_offset = ?d, fr_num = length gs, fr_base_lg = 11\<rparr>"
    using small n at [of "length gs"]
    by (simp add: FilterBlockReader_def Let_def last) (simp add: contents nth_append length_fixed signed_ucast_eq)
  have start: "DecodeFixed32 (drop (?d + ?i * 4) contents) = Some (?ws ! ?i)" using words [of ?i] i by auto
  have limit: "DecodeFixed32 (drop (?d + ?i * 4 + 4) contents) = Some (?ws ! Suc ?i)"
  proof -
    have "?d + ?i * 4 + 4 = ?d + Suc ?i * 4" by simp
    moreover obtain rest where "drop (?d + Suc ?i * 4) contents = EncodeFixed32 (?ws ! Suc ?i) @ rest"
      using words [of "Suc ?i"] i by auto
    ultimately show ?thesis by (simp only: DecodeFixed32_Encode)
  qed
  have "take (unat (?ws ! Suc ?i) - unat (?ws ! ?i)) (drop (unat (?ws ! ?i)) contents) = one_filter policy (gs ! ?i)"
    unfolding at [OF less_imp_le [OF i]] at [OF Suc_leI [OF i]] contents by (rule filter_at [OF i])
  moreover have "unat (?ws ! ?i) \<le> unat (?ws ! Suc ?i)" "unat (?ws ! Suc ?i) \<le> ?d"
    using at [of ?i] at [of "Suc ?i"] data_prefix [of ?i "Suc ?i" policy gs] data_prefix [of "Suc ?i" "length gs" policy gs] i
    by simp_all
  ultimately show ?thesis using i start limit by (simp add: filter_KeyMayMatch_def r Let_def)
qed

section \<open>Filter blocks have no false negatives\<close>

text \<open>Blocks as the table builder adds them: the offset and the keys of each. \<open>has_filter\<close>: where the
  filter of the keys at an offset is, or will be.\<close>

definition add_block :: "FilterPolicy \<Rightarrow> nat \<times> slice list \<Rightarrow> filter_builder \<Rightarrow> filter_builder" where
  "add_block policy blk b = fold filter_AddKey (snd blk) (StartBlock policy (fst blk) b)"

definition filter_block :: "FilterPolicy \<Rightarrow> (nat \<times> slice list) list \<Rightarrow> slice" where
  "filter_block policy blks = fst (filter_Finish policy (fold (add_block policy) blks FilterBlockBuilder))"

definition has_filter :: "slice list list \<Rightarrow> slice list \<Rightarrow> nat \<times> slice list \<Rightarrow> bool" where
  "has_filter gs ps blk \<longleftrightarrow>
     (let i = fst blk div kFilterBase
      in set (snd blk) \<subseteq> set (if i < length gs then gs ! i else ps) \<and> i \<le> length gs)"

context filter_policy begin

lemma add_block_builder:
  assumes "length gs \<le> off div kFilterBase"
  shows "\<exists>gs' ps'. add_block policy (off, ks) (builder_of policy gs ps) = builder_of policy gs' ps' \<and>
    length gs' = off div kFilterBase \<and> has_filter gs' ps' (off, ks) \<and>
    (\<forall>blk. has_filter gs ps blk \<longrightarrow> has_filter gs' ps' blk)"
proof -
  let ?n = "off div kFilterBase"
  obtain gs' ps' where b: "start_loop policy ?n (builder_of policy gs ps) = builder_of policy gs' ps'" "length gs' = ?n"
    and old: "\<forall>i < length gs. gs' ! i = gs ! i" "length gs = ?n \<longrightarrow> ps' = ps" "length gs < ?n \<longrightarrow> gs' ! length gs = ps"
    using start_block_builder [OF assms] by blast
  have "has_filter gs' (ps' @ ks) blk" if "has_filter gs ps blk" for blk
  proof -
    let ?i = "fst blk div kFilterBase"
    have "?i \<le> length gs" using that by (simp add: has_filter_def Let_def)
    then consider "?i < length gs" | "?i = length gs" "length gs = ?n" | "?i = length gs" "length gs < ?n"
      using assms by linarith
    then show ?thesis
      using that old b(2) assms by cases (auto simp: has_filter_def Let_def)
  qed
  moreover have "has_filter gs' (ps' @ ks) (off, ks)" using b(2) by (simp add: has_filter_def Let_def)
  ultimately show ?thesis
    using b by (intro exI [of _ gs'] exI [of _ "ps' @ ks"]) (simp add: add_block_def StartBlock_def add_keys_to_builder)
qed

lemma add_blocks_builder:
  assumes "sorted (map fst blks)" and "\<forall>blk \<in> set blks. length gs \<le> fst blk div kFilterBase"
  shows "\<exists>gs' ps'. fold (add_block policy) blks (builder_of policy gs ps) = builder_of policy gs' ps' \<and>
    (\<forall>blk \<in> set blks. has_filter gs' ps' blk) \<and> (\<forall>blk. has_filter gs ps blk \<longrightarrow> has_filter gs' ps' blk)"
  using assms
proof (induction blks arbitrary: gs ps)
  case (Cons blk blks)
  obtain off ks where blk: "blk = (off, ks)" by (cases blk)
  obtain gs1 ps1 where 1: "add_block policy blk (builder_of policy gs ps) = builder_of policy gs1 ps1"
    "length gs1 = off div kFilterBase" "has_filter gs1 ps1 blk" "\<forall>b. has_filter gs ps b \<longrightarrow> has_filter gs1 ps1 b"
    using add_block_builder [of gs off ks ps] Cons.prems(2) blk by auto
  have "\<forall>b \<in> set blks. length gs1 \<le> fst b div kFilterBase"
    using Cons.prems(1) 1(2) blk by (auto intro: div_le_mono)
  moreover have "sorted (map fst blks)" using Cons.prems(1) by simp
  ultimately obtain gs' ps' where 2: "fold (add_block policy) blks (builder_of policy gs1 ps1) = builder_of policy gs' ps'"
    "\<forall>b \<in> set blks. has_filter gs' ps' b" "\<forall>b. has_filter gs1 ps1 b \<longrightarrow> has_filter gs' ps' b"
    using Cons.IH [of gs1 ps1] by blast
  then show ?case using 1 by (intro exI [of _ gs'] exI [of _ ps']) (simp del: split_paired_All)
qed auto

lemma no_false_negatives:
  assumes "sorted (map fst blks)" and "(off, ks) \<in> set blks" and "key \<in> set ks"
    and "length (filter_block policy blks) < 2 ^ 32"
  shows "filter_KeyMayMatch policy (FilterBlockReader (filter_block policy blks)) off key = Some True"
proof -
  have "\<forall>blk \<in> set blks. length ([] :: slice list list) \<le> fst blk div kFilterBase" by simp
  then obtain gs ps where b: "fold (add_block policy) blks FilterBlockBuilder = builder_of policy gs ps"
    and has: "\<forall>blk \<in> set blks. has_filter gs ps blk"
    unfolding new_builder [of policy] using add_blocks_builder [OF assms(1), of "[]" "[]"] by blast
  let ?gs = "if ps = [] then gs else gs @ [ps]" and ?i = "off div 2 ^ 11"
  have "has_filter gs ps (off, ks)" using has assms(2) by blast
  then have i: "?i < length ?gs" "key \<in> set (?gs ! ?i)"
    using assms(3) by (auto simp: has_filter_def Let_def kFilterBase_def kFilterBaseLg_def nth_append split: if_split_asm)
  have c: "filter_block policy blks = filter_data policy ?gs @
      concat (map EncodeFixed32 (filter_starts policy ?gs @ [of_nat (length (filter_data policy ?gs))])) @ [11]"
    unfolding filter_block_def b by (rule finished_filters [OF refl filter_policy_axioms])
  have "length (filter_data policy ?gs) < 2 ^ 32" using assms(4) unfolding c by simp
  from filter_read [OF c this i(1), of key] i(2) created_matches [of key "?gs ! ?i"]
  show ?thesis by (auto simp: one_filter_def)
qed

end

text \<open>C20: A filter block has no false negatives. Whatever blocks a table has, at offsets that do not fall,
  with several of them in one 2048-byte window or windows without any, the reader of the finished
  filter block never denies a key at the offset of the block that holds it.\<close>

theorem filter_block_sound:
  assumes "sorted (map fst blks)" and "(off, ks) \<in> set blks" and "key \<in> set ks"
    and "policy = InternalFilterPolicy (NewBloomFilterPolicy bits_per_key product)"
    and "length (filter_block policy blks) < 2 ^ 32"
  shows "filter_KeyMayMatch policy (FilterBlockReader (filter_block policy blks)) off key = Some True"
  using internal_bloom.no_false_negatives [OF assms(1-3)] assms(4,5) by blast

lemma small_filter_block:
  "length (filter_block (InternalFilterPolicy (NewBloomFilterPolicy 0 0)) [(0, [[1, 0, 0, 0, 0, 0, 0, 0, 0]]), (5000, [])]) < 2 ^ 32"
  by (simp add: filter_block_def add_block_def filter_Finish_def StartBlock_def start_loop.simps filter_AddKey_def FilterBlockBuilder_def
      GenerateFilter_def InternalFilterPolicy_def NewBloomFilterPolicy_def bloom_CreateFilter_def bloom_k_def
      kFilterBase_def kFilterBaseLg_def fold_PutFixed32 PutFixed32_def Let_def)

lemma filter_block_sound_witness:
  "filter_KeyMayMatch (InternalFilterPolicy (NewBloomFilterPolicy 0 0))
     (FilterBlockReader (filter_block (InternalFilterPolicy (NewBloomFilterPolicy 0 0)) [(0, [[1, 0, 0, 0, 0, 0, 0, 0, 0]]), (5000, [])]))
     0 [1, 0, 0, 0, 0, 0, 0, 0, 0] = Some True"
  by (rule filter_block_sound [of _ 0 "[[1, 0, 0, 0, 0, 0, 0, 0, 0]]", OF _ _ _ refl small_filter_block]) simp_all

end
