(* ===== verification/Ldb_Block.thy ===== *)
theory Ldb_Block
  imports Ldb_Keys
begin

text \<open>
  Blocks of sorted tables: \<open>leveldb-library/table/block_builder.cc\<close> and \<open>block.cc\<close>. The builder is the
  record of its members. A pointer into a block is its offset; \<open>limit - p\<close> and the casts to 32 bits are
  taken as the code has them, and indices of restart points do not wrap, as a block has fewer than
  \<open>2 ^ 30\<close> of them. \<open>None\<close> is a read outside the block.
\<close>

section \<open>The builder\<close>

record block_builder =
  bb_buffer :: slice
  bb_restarts :: "u32 list"
  bb_counter :: nat
  bb_finished :: bool
  bb_last_key :: slice

definition BlockBuilder :: block_builder where
  "BlockBuilder = \<lparr>bb_buffer = [], bb_restarts = [0], bb_counter = 0, bb_finished = False, bb_last_key = []\<rparr>"

definition builder_Reset :: "block_builder \<Rightarrow> block_builder" where
  "builder_Reset b = b\<lparr>bb_buffer := [], bb_restarts := [0], bb_counter := 0, bb_finished := False, bb_last_key := []\<rparr>"

definition CurrentSizeEstimate :: "block_builder \<Rightarrow> nat" where
  "CurrentSizeEstimate b = length (bb_buffer b) + length (bb_restarts b) * 4 + 4"

definition builder_Finish :: "block_builder \<Rightarrow> slice \<times> block_builder" where
  "builder_Finish b =
     (let buffer = fold (\<lambda>r dst. PutFixed32 dst r) (bb_restarts b) (bb_buffer b);
          buffer = PutFixed32 buffer (of_nat (length (bb_restarts b)))
      in (buffer, b\<lparr>bb_buffer := buffer, bb_finished := True\<rparr>))"

definition builder_Add :: "nat \<Rightarrow> slice \<Rightarrow> slice \<Rightarrow> block_builder \<Rightarrow> block_builder" where
  "builder_Add block_restart_interval key v b =
     (let restart = \<not> bb_counter b < block_restart_interval;
          shared = (if restart then 0 else common_prefix (bb_last_key b) key);
          restarts = (if restart then bb_restarts b @ [of_nat (length (bb_buffer b))] else bb_restarts b);
          counter = (if restart then 0 else bb_counter b);
          non_shared = length key - shared;
          buffer = PutVarint32 (bb_buffer b) (of_nat shared);
          buffer = PutVarint32 buffer (of_nat non_shared);
          buffer = PutVarint32 buffer (of_nat (length v));
          buffer = buffer @ take non_shared (drop shared key);
          buffer = buffer @ v
      in b\<lparr>bb_buffer := buffer, bb_restarts := restarts, bb_counter := counter + 1,
           bb_last_key := take shared (bb_last_key b) @ take non_shared (drop shared key)\<rparr>)"

section \<open>Blocks\<close>

definition DecodeEntry :: "slice \<Rightarrow> nat \<Rightarrow> nat \<Rightarrow> (u32 \<times> u32 \<times> u32 \<times> nat) option" where
  "DecodeEntry data p limit =
     (if int limit - int p < 3 then None
      else
        let q = drop p (take limit data);
            shared = ucast (q ! 0) :: u32;
            non_shared = ucast (q ! 1) :: u32;
            value_length = ucast (q ! 2) :: u32
        in do {
          (shared, non_shared, value_length, q) \<leftarrow>
            (if (shared OR non_shared OR value_length) < 128
             then Some (shared, non_shared, value_length, drop 3 q)
             else do { (shared, q) \<leftarrow> GetVarint32Ptr q;
                       (non_shared, q) \<leftarrow> GetVarint32Ptr q;
                       (value_length, q) \<leftarrow> GetVarint32Ptr q;
                       Some (shared, non_shared, value_length, q) });
          if of_nat (length q) < non_shared + value_length then None
          else Some (shared, non_shared, value_length, limit - length q) })"

record block =
  b_data :: slice
  b_restarts :: nat
  b_num_restarts :: nat

datatype block_iterator = ErrorIterator Status | EmptyIterator | BlockIterator block

definition NumRestarts :: "slice \<Rightarrow> nat" where
  "NumRestarts data = (case DecodeFixed32 (drop (length data - 4) data) of Some n \<Rightarrow> unat n | None \<Rightarrow> 0)"

definition Block_size :: "slice \<Rightarrow> nat" where
  "Block_size contents =
     (if length contents < 4 then 0
      else if NumRestarts contents > (length contents - 4) div 4 then 0
      else length contents)"

definition Block_restart_offset :: "slice \<Rightarrow> nat" where
  "Block_restart_offset contents =
     unat (of_nat (length contents) - (1 + of_nat (NumRestarts contents)) * 4 :: u32)"

definition NewIterator :: "slice \<Rightarrow> block_iterator" where
  "NewIterator contents =
     (if Block_size contents < 4 then ErrorIterator (Corruption ''bad block contents'')
      else if NumRestarts contents = 0 then EmptyIterator
      else BlockIterator \<lparr>b_data = contents, b_restarts = Block_restart_offset contents,
                          b_num_restarts = NumRestarts contents\<rparr>)"

section \<open>The iterator\<close>

record block_iter =
  it_current :: nat
  it_restart_index :: nat
  it_key :: slice
  it_value :: nat
  it_value_size :: nat
  it_status :: Status

definition block_Iter :: "block \<Rightarrow> block_iter" where
  "block_Iter b =
     \<lparr>it_current = b_restarts b, it_restart_index = b_num_restarts b, it_key = [], it_value = 0,
      it_value_size = 0, it_status = OK\<rparr>"

definition NextEntryOffset :: "block_iter \<Rightarrow> nat" where
  "NextEntryOffset it = (it_value it + it_value_size it) mod 2 ^ 32"

definition GetRestartPoint :: "block \<Rightarrow> nat \<Rightarrow> nat option" where
  "GetRestartPoint b index = map_option unat (DecodeFixed32 (drop (b_restarts b + index * 4) (b_data b)))"

definition SeekToRestartPoint :: "block \<Rightarrow> nat \<Rightarrow> block_iter \<Rightarrow> block_iter option" where
  "SeekToRestartPoint b index it =
     map_option (\<lambda>offset. it\<lparr>it_key := [], it_restart_index := index, it_value := offset, it_value_size := 0\<rparr>)
       (GetRestartPoint b index)"

definition block_Valid :: "block \<Rightarrow> block_iter \<Rightarrow> bool" where
  "block_Valid b it \<longleftrightarrow> it_current it < b_restarts b"

definition block_slice :: "block \<Rightarrow> nat \<Rightarrow> nat \<Rightarrow> slice option" where
  "block_slice b p n = (if p + n \<le> length (b_data b) then Some (take n (drop p (b_data b))) else None)"

definition block_value :: "block \<Rightarrow> block_iter \<Rightarrow> slice option" where
  "block_value b it = block_slice b (it_value it) (it_value_size it)"

definition CorruptionError :: "block \<Rightarrow> block_iter \<Rightarrow> block_iter" where
  "CorruptionError b it =
     \<lparr>it_current = b_restarts b, it_restart_index = b_num_restarts b, it_key = [], it_value = 0,
      it_value_size = 0, it_status = Corruption ''bad entry in block''\<rparr>"

function advance_restart :: "block \<Rightarrow> nat \<Rightarrow> nat \<Rightarrow> nat option" where
  "advance_restart b current index =
     (if index + 1 < b_num_restarts b
      then case GetRestartPoint b (index + 1) of
             None \<Rightarrow> None
           | Some r \<Rightarrow> if r < current then advance_restart b current (index + 1) else Some index
      else Some index)"
  by auto
termination
  by (relation "measure (\<lambda>(b, current, index). b_num_restarts b - index)") auto

declare advance_restart.simps [simp del]

definition ParseNextKey :: "block \<Rightarrow> block_iter \<Rightarrow> (bool \<times> block_iter) option" where
  "ParseNextKey b it =
     (let current = NextEntryOffset it; it = it\<lparr>it_current := current\<rparr>
      in if current \<ge> b_restarts b
         then Some (False, it\<lparr>it_current := b_restarts b, it_restart_index := b_num_restarts b\<rparr>)
         else case DecodeEntry (b_data b) current (b_restarts b) of
                None \<Rightarrow> Some (False, CorruptionError b it)
              | Some (shared, non_shared, value_length, p) \<Rightarrow>
                  if length (it_key it) < unat shared then Some (False, CorruptionError b it)
                  else do { piece \<leftarrow> block_slice b p (unat non_shared);
                            index \<leftarrow> advance_restart b current (it_restart_index it);
                            Some (True, it\<lparr>it_key := take (unat shared) (it_key it) @ piece,
                                           it_value := p + unat non_shared, it_value_size := unat value_length,
                                           it_restart_index := index\<rparr>) })"

definition block_Next :: "block \<Rightarrow> block_iter \<Rightarrow> block_iter option" where
  "block_Next b it = map_option snd (ParseNextKey b it)"

definition block_SeekToFirst :: "block \<Rightarrow> block_iter \<Rightarrow> block_iter option" where
  "block_SeekToFirst b it = do { it \<leftarrow> SeekToRestartPoint b 0 it; block_Next b it }"

text \<open>The loops \<open>while (ParseNextKey() && NextEntryOffset() < bound)\<close>.\<close>

definition skip_round :: "block \<Rightarrow> nat \<Rightarrow> block_iter \<Rightarrow> (block_iter + block_iter) option" where
  "skip_round b bound it =
     do { (go, it) \<leftarrow> ParseNextKey b it;
          Some (if go \<and> NextEntryOffset it < bound then Inl it else Inr it) }"

definition block_SeekToLast :: "block \<Rightarrow> block_iter \<Rightarrow> block_iter option" where
  "block_SeekToLast b it =
     do { it \<leftarrow> SeekToRestartPoint b (b_num_restarts b - 1) it; c_loop (skip_round b (b_restarts b)) it }"

definition back_round :: "block \<Rightarrow> nat \<Rightarrow> nat \<Rightarrow> (nat + nat option) option" where
  "back_round b original index =
     do { r \<leftarrow> GetRestartPoint b index;
          Some (if r \<ge> original then if index = 0 then Inr None else Inl (index - 1) else Inr (Some index)) }"

definition block_Prev :: "block \<Rightarrow> block_iter \<Rightarrow> block_iter option" where
  "block_Prev b it =
     (let original = it_current it
      in do { found \<leftarrow> c_loop (back_round b original) (it_restart_index it);
              case found of
                None \<Rightarrow> Some (it\<lparr>it_current := b_restarts b, it_restart_index := b_num_restarts b\<rparr>)
              | Some index \<Rightarrow> do { it \<leftarrow> SeekToRestartPoint b index it; c_loop (skip_round b original) it } })"

text \<open>The binary search for a restart point; \<open>None\<close> is a corrupt entry.\<close>

definition restart_round :: "block \<Rightarrow> Comparator \<Rightarrow> slice \<Rightarrow> nat \<times> nat \<Rightarrow> (nat \<times> nat + nat option) option" where
  "restart_round b cmp target lr =
     (case lr of (left, right) \<Rightarrow>
        if left < right
        then let mid = (left + right + 1) div 2
             in do { region_offset \<leftarrow> GetRestartPoint b mid;
                     case DecodeEntry (b_data b) region_offset (b_restarts b) of
                       None \<Rightarrow> Some (Inr None)
                     | Some (shared, non_shared, value_length, p) \<Rightarrow>
                         if shared \<noteq> 0 then Some (Inr None)
                         else do { mid_key \<leftarrow> block_slice b p (unat non_shared);
                                   Some (Inl (if cmp_Compare cmp mid_key target < 0 then (mid, right)
                                              else (left, mid - 1))) } }
        else Some (Inr (Some left)))"

definition seek_round :: "block \<Rightarrow> Comparator \<Rightarrow> slice \<Rightarrow> block_iter \<Rightarrow> (block_iter + block_iter) option" where
  "seek_round b cmp target it =
     do { (go, it) \<leftarrow> ParseNextKey b it;
          Some (if \<not> go then Inr it
                else if cmp_Compare cmp (it_key it) target \<ge> 0 then Inr it else Inl it) }"

definition block_Seek :: "block \<Rightarrow> Comparator \<Rightarrow> slice \<Rightarrow> block_iter \<Rightarrow> block_iter option" where
  "block_Seek b cmp target it =
     do { found \<leftarrow> c_loop (restart_round b cmp target) (0, b_num_restarts b - 1);
          case found of
            None \<Rightarrow> Some (CorruptionError b it)
          | Some left \<Rightarrow> do { it \<leftarrow> SeekToRestartPoint b left it; c_loop (seek_round b cmp target) it } }"

end
