(* ===== verification/Ldb_Table_Builder.thy ===== *)
theory Ldb_Table_Builder
  imports Ldb_Format Ldb_Filter Ldb_Block
begin

text \<open>
  The builder of table files: \<open>leveldb-library/table/table_builder.cc\<close>, with the options it uses. The
  operations of the file, the checksums' environment and Snappy come as the record \<open>build_env\<close>. The
  buffer for compressed output, which is empty between operations, is not kept. \<open>None\<close> is a file
  operation that does not return, or the name of a filter policy that is missing.
\<close>

record Options =
  op_comparator :: Comparator
  op_paranoid_checks :: bool
  op_block_size :: nat
  op_block_restart_interval :: nat
  op_compression :: CompressionType
  op_filter_policy :: "FilterPolicy option"

record 'f build_env =
  be_crc :: crc_env
  be_snappy :: Snappy
  be_append :: "'f append_op"
  be_flush :: "'f flush_op"

record 'f table_builder =
  tb_options :: Options
  tb_file :: 'f
  tb_offset :: u64
  tb_status :: Status
  tb_data_block :: block_builder
  tb_index_block :: block_builder
  tb_last_key :: slice
  tb_num_entries :: nat
  tb_closed :: bool
  tb_filter :: "(FilterPolicy \<times> filter_builder) option"
  tb_pending_index_entry :: bool
  tb_pending_handle :: BlockHandle

definition TableBuilder :: "Options \<Rightarrow> 'f \<Rightarrow> 'f table_builder" where
  "TableBuilder options dest =
     \<lparr>tb_options = options, tb_file = dest, tb_offset = 0, tb_status = OK, tb_data_block = BlockBuilder,
      tb_index_block = BlockBuilder, tb_last_key = [], tb_num_entries = 0, tb_closed = False,
      tb_filter = map_option (\<lambda>policy. (policy, StartBlock policy 0 FilterBlockBuilder)) (op_filter_policy options),
      tb_pending_index_entry = False, tb_pending_handle = new_handle\<rparr>"

text \<open>\<open>same_comparator\<close>: the pointers are equal.\<close>

definition ChangeOptions :: "bool \<Rightarrow> Options \<Rightarrow> 'f table_builder \<Rightarrow> Status \<times> 'f table_builder" where
  "ChangeOptions same_comparator options r =
     (if \<not> same_comparator then (InvalidArgument ''changing comparator while building table'', r)
      else (OK, r\<lparr>tb_options := options\<rparr>))"

definition builder_ok :: "'f table_builder \<Rightarrow> bool" where
  "builder_ok r \<longleftrightarrow> ok (tb_status r)"

definition builder_empty :: "block_builder \<Rightarrow> bool" where
  "builder_empty b \<longleftrightarrow> bb_buffer b = []"

section \<open>Writing blocks\<close>

definition WriteRawBlock ::
  "'f build_env \<Rightarrow> slice \<Rightarrow> CompressionType \<Rightarrow> 'f table_builder \<Rightarrow> (BlockHandle \<times> 'f table_builder) option"
where
  "WriteRawBlock env block_contents type r =
     (let handle = \<lparr>bh_offset = tb_offset r, bh_size = of_nat (length block_contents)\<rparr>
      in do {
        (s, f) \<leftarrow> be_append env block_contents (tb_file r);
        let r = r\<lparr>tb_file := f, tb_status := s\<rparr> in
        if ok s
        then
          let crc = crc_value (be_crc env) block_contents;
              crc = crc_extend (be_crc env) crc [compression_code type];
              trailer = compression_code type # EncodeFixed32 (Mask crc)
          in do {
            (s, f) \<leftarrow> be_append env trailer (tb_file r);
            let r = r\<lparr>tb_file := f, tb_status := s\<rparr> in
            Some (handle,
              if ok s then r\<lparr>tb_offset := tb_offset r + of_nat (length block_contents + kBlockTrailerSize)\<rparr> else r) }
        else Some (handle, r) })"

text \<open>The switch over the kinds of compression.\<close>

definition compress_block :: "Snappy \<Rightarrow> CompressionType \<Rightarrow> slice \<Rightarrow> slice \<times> CompressionType" where
  "compress_block sn type raw =
     (case type of
        kNoCompression \<Rightarrow> (raw, kNoCompression)
      | kSnappyCompression \<Rightarrow>
          (case sn_compress sn raw of
             Some compressed \<Rightarrow>
               if length compressed < length raw - length raw div 8 then (compressed, kSnappyCompression)
               else (raw, kNoCompression)
           | None \<Rightarrow> (raw, kNoCompression)))"

definition WriteBlock ::
  "'f build_env \<Rightarrow> block_builder \<Rightarrow> 'f table_builder \<Rightarrow> (block_builder \<times> BlockHandle \<times> 'f table_builder) option"
where
  "WriteBlock env block r =
     (let (raw, block) = builder_Finish block;
          (block_contents, type) = compress_block (be_snappy env) (op_compression (tb_options r)) raw
      in do { (handle, r) \<leftarrow> WriteRawBlock env block_contents type r;
              Some (builder_Reset block, handle, r) })"

section \<open>The operations\<close>

definition table_Flush :: "'f build_env \<Rightarrow> 'f table_builder \<Rightarrow> 'f table_builder option" where
  "table_Flush env r =
     (if \<not> builder_ok r then Some r
      else if builder_empty (tb_data_block r) then Some r
      else do {
        (block, handle, r) \<leftarrow> WriteBlock env (tb_data_block r) r;
        let r = r\<lparr>tb_data_block := block, tb_pending_handle := handle\<rparr> in do {
        r \<leftarrow> (if builder_ok r
              then do { (s, f) \<leftarrow> be_flush env (tb_file r);
                        Some (r\<lparr>tb_pending_index_entry := True, tb_status := s, tb_file := f\<rparr>) }
              else Some r);
        Some (r\<lparr>tb_filter := map_option (\<lambda>(policy, b). (policy, StartBlock policy (unat (tb_offset r)) b)) (tb_filter r)\<rparr>) } })"

definition add_index_entry :: "slice \<Rightarrow> 'f table_builder \<Rightarrow> 'f table_builder" where
  "add_index_entry key r =
     (let handle_encoding = handle_EncodeTo (tb_pending_handle r) []
      in r\<lparr>tb_last_key := key, tb_index_block := builder_Add 1 key handle_encoding (tb_index_block r),
           tb_pending_index_entry := False\<rparr>)"

definition table_Add :: "'f build_env \<Rightarrow> slice \<Rightarrow> slice \<Rightarrow> 'f table_builder \<Rightarrow> 'f table_builder option" where
  "table_Add env key v r =
     (if \<not> builder_ok r then Some r
      else
        let r = (if tb_pending_index_entry r
                 then add_index_entry (cmp_FindShortestSeparator (op_comparator (tb_options r)) (tb_last_key r) key) r
                 else r);
            r = r\<lparr>tb_filter := map_option (\<lambda>(policy, b). (policy, filter_AddKey key b)) (tb_filter r)\<rparr>;
            r = r\<lparr>tb_last_key := key, tb_num_entries := tb_num_entries r + 1,
                  tb_data_block := builder_Add (op_block_restart_interval (tb_options r)) key v (tb_data_block r)\<rparr>;
            estimated_block_size = CurrentSizeEstimate (tb_data_block r)
        in if estimated_block_size \<ge> op_block_size (tb_options r) then table_Flush env r else Some r)"

definition finish_filter :: "'f build_env \<Rightarrow> 'f table_builder \<Rightarrow> (BlockHandle \<times> 'f table_builder) option" where
  "finish_filter env r =
     (case (builder_ok r, tb_filter r) of
        (True, Some (policy, b)) \<Rightarrow>
          let (contents, b) = filter_Finish policy b
          in WriteRawBlock env contents kNoCompression (r\<lparr>tb_filter := Some (policy, b)\<rparr>)
      | _ \<Rightarrow> Some (new_handle, r))"

definition finish_metaindex :: "'f build_env \<Rightarrow> BlockHandle \<Rightarrow> 'f table_builder \<Rightarrow> (BlockHandle \<times> 'f table_builder) option" where
  "finish_metaindex env filter_handle r =
     (if builder_ok r
      then do {
        meta \<leftarrow> (case tb_filter r of
                   None \<Rightarrow> Some BlockBuilder
                 | Some _ \<Rightarrow> do {
                     policy \<leftarrow> op_filter_policy (tb_options r);
                     let key = string_bytes ''filter.'' @ fp_Name policy in
                     Some (builder_Add (op_block_restart_interval (tb_options r)) key
                       (handle_EncodeTo filter_handle []) BlockBuilder) });
        (_, handle, r) \<leftarrow> WriteBlock env meta r;
        Some (handle, r) }
      else Some (new_handle, r))"

definition finish_index :: "'f build_env \<Rightarrow> 'f table_builder \<Rightarrow> (BlockHandle \<times> 'f table_builder) option" where
  "finish_index env r =
     (if builder_ok r
      then
        let r = (if tb_pending_index_entry r
                 then add_index_entry (cmp_FindShortSuccessor (op_comparator (tb_options r)) (tb_last_key r)) r else r)
        in do { (block, handle, r) \<leftarrow> WriteBlock env (tb_index_block r) r;
                Some (handle, r\<lparr>tb_index_block := block\<rparr>) }
      else Some (new_handle, r))"

definition finish_footer ::
  "'f build_env \<Rightarrow> BlockHandle \<Rightarrow> BlockHandle \<Rightarrow> 'f table_builder \<Rightarrow> 'f table_builder option"
where
  "finish_footer env metaindex_handle index_handle r =
     (if builder_ok r
      then
        let footer_encoding = footer_EncodeTo \<lparr>ft_metaindex = metaindex_handle, ft_index = index_handle\<rparr> []
        in do { (s, f) \<leftarrow> be_append env footer_encoding (tb_file r);
                let r = r\<lparr>tb_status := s, tb_file := f\<rparr> in
                Some (if ok s then r\<lparr>tb_offset := tb_offset r + of_nat (length footer_encoding)\<rparr> else r) }
      else Some r)"

definition table_Finish :: "'f build_env \<Rightarrow> 'f table_builder \<Rightarrow> (Status \<times> 'f table_builder) option" where
  "table_Finish env r =
     do { r \<leftarrow> table_Flush env r;
          let r = r\<lparr>tb_closed := True\<rparr> in do {
          (filter_handle, r) \<leftarrow> finish_filter env r;
          (metaindex_handle, r) \<leftarrow> finish_metaindex env filter_handle r;
          (index_handle, r) \<leftarrow> finish_index env r;
          r \<leftarrow> finish_footer env metaindex_handle index_handle r;
          Some (tb_status r, r) } }"

definition table_Abandon :: "'f table_builder \<Rightarrow> 'f table_builder" where
  "table_Abandon r = r\<lparr>tb_closed := True\<rparr>"

definition NumEntries :: "'f table_builder \<Rightarrow> nat" where
  "NumEntries r = tb_num_entries r"

definition FileSize :: "'f table_builder \<Rightarrow> u64" where
  "FileSize r = tb_offset r"

end
