(* ===== verification/Ldb_Table.thy ===== *)
theory Ldb_Table
  imports Ldb_Table_Builder
begin

text \<open>
  Table files: \<open>leveldb-library/table/table.cc\<close>, over any reader of files. A \<open>Block\<close> is its contents.
  The cache of blocks is a record of the operations that are used, over any state; \<open>None\<close> as cache is
  the null pointer. The callback that gets what \<open>InternalGet\<close> finds is modelled by its arguments.
  The outer \<open>None\<close> is an access outside a buffer.
\<close>

section \<open>Iterators over blocks\<close>

datatype table_iter = EmptyIter Status | BlockIter block block_iter

definition new_iter :: "slice \<Rightarrow> table_iter" where
  "new_iter contents =
     (case NewIterator contents of
        ErrorIterator s \<Rightarrow> EmptyIter s
      | EmptyIterator \<Rightarrow> EmptyIter OK
      | BlockIterator b \<Rightarrow> BlockIter b (block_Iter b))"

fun iter_Seek :: "Comparator \<Rightarrow> slice \<Rightarrow> table_iter \<Rightarrow> table_iter option" where
  "iter_Seek cmp target (EmptyIter s) = Some (EmptyIter s)"
| "iter_Seek cmp target (BlockIter b it) = map_option (BlockIter b) (block_Seek b cmp target it)"

fun iter_Valid :: "table_iter \<Rightarrow> bool" where
  "iter_Valid (EmptyIter s) = False"
| "iter_Valid (BlockIter b it) = block_Valid b it"

fun iter_key :: "table_iter \<Rightarrow> slice" where
  "iter_key (EmptyIter s) = []"
| "iter_key (BlockIter b it) = it_key it"

fun iter_value :: "table_iter \<Rightarrow> slice option" where
  "iter_value (EmptyIter s) = Some []"
| "iter_value (BlockIter b it) = block_value b it"

fun iter_status :: "table_iter \<Rightarrow> Status" where
  "iter_status (EmptyIter s) = s"
| "iter_status (BlockIter b it) = it_status it"

section \<open>Opening\<close>

record Table =
  ta_options :: Options
  ta_file :: random_read
  ta_cache_id :: u64
  ta_filter :: "filter_reader option"
  ta_metaindex_handle :: BlockHandle
  ta_index_block :: slice

definition ReadFilter :: "crc_env \<Rightarrow> Snappy \<Rightarrow> slice \<Rightarrow> Table \<Rightarrow> Table option" where
  "ReadFilter ce sn filter_handle_value t =
     (let (s, filter_handle, _) = handle_DecodeFrom filter_handle_value new_handle
      in if \<not> ok s then Some t
         else do {
           (s, blk) \<leftarrow> ReadBlock ce sn (ta_file t) (op_paranoid_checks (ta_options t)) filter_handle;
           Some (if \<not> ok s then t else t\<lparr>ta_filter := Some (FilterBlockReader (bc_data blk))\<rparr>) })"

definition ReadMeta :: "crc_env \<Rightarrow> Snappy \<Rightarrow> Footer \<Rightarrow> Table \<Rightarrow> Table option" where
  "ReadMeta ce sn footer t =
     (case op_filter_policy (ta_options t) of
        None \<Rightarrow> Some t
      | Some policy \<Rightarrow> do {
          (s, contents) \<leftarrow> ReadBlock ce sn (ta_file t) (op_paranoid_checks (ta_options t)) (ft_metaindex footer);
          if \<not> ok s then Some t
          else
            let key = string_bytes ''filter.'' @ fp_Name policy
            in do {
              iter \<leftarrow> iter_Seek BytewiseComparator key (new_iter (bc_data contents));
              if iter_Valid iter \<and> iter_key iter = key
              then do { v \<leftarrow> iter_value iter; ReadFilter ce sn v t }
              else Some t } })"

definition table_Open ::
  "crc_env \<Rightarrow> Snappy \<Rightarrow> Options \<Rightarrow> u64 \<Rightarrow> random_read \<Rightarrow> u64 \<Rightarrow> (Status \<times> Table option) option"
where
  "table_Open ce sn options cache_id read_at file_size =
     (if file_size < of_nat kEncodedLength then Some (Corruption ''file is too short to be an sstable'', None)
      else do {
        (s, footer_input, _) \<leftarrow> read_at (file_size - of_nat kEncodedLength) kEncodedLength;
        if \<not> ok s then Some (s, None)
        else do {
          (s, footer, _) \<leftarrow> footer_DecodeFrom footer_input new_footer;
          if \<not> ok s then Some (s, None)
          else do {
            (s, contents) \<leftarrow> ReadBlock ce sn read_at (op_paranoid_checks options) (ft_index footer);
            if ok s
            then do {
              t \<leftarrow> ReadMeta ce sn footer
                \<lparr>ta_options = options, ta_file = read_at, ta_cache_id = cache_id, ta_filter = None,
                 ta_metaindex_handle = ft_metaindex footer, ta_index_block = bc_data contents\<rparr>;
              Some (s, Some t) }
            else Some (s, None) } } })"

section \<open>Reading\<close>

record 'c block_cache =
  ca_lookup :: "slice \<Rightarrow> 'c \<Rightarrow> slice option \<times> 'c"
  ca_insert :: "slice \<Rightarrow> slice \<Rightarrow> nat \<Rightarrow> 'c \<Rightarrow> 'c"

record ReadOptions =
  ro_verify_checksums :: bool
  ro_fill_cache :: bool

definition cache_key :: "Table \<Rightarrow> BlockHandle \<Rightarrow> slice" where
  "cache_key t handle = EncodeFixed64 (ta_cache_id t) @ EncodeFixed64 (bh_offset handle)"

definition BlockReader ::
  "crc_env \<Rightarrow> Snappy \<Rightarrow> 'c block_cache option \<Rightarrow> ReadOptions \<Rightarrow> Table \<Rightarrow> slice \<Rightarrow> 'c \<Rightarrow> (table_iter \<times> 'c) option"
where
  "BlockReader ce sn cache opts t index_value c =
     (let (s, handle, _) = handle_DecodeFrom index_value new_handle
      in if \<not> ok s then Some (EmptyIter s, c)
         else
           case cache of
             Some ops \<Rightarrow>
               (case ca_lookup ops (cache_key t handle) c of
                  (Some blk, c) \<Rightarrow> Some (new_iter blk, c)
                | (None, c) \<Rightarrow> do {
                    (s, contents) \<leftarrow> ReadBlock ce sn (ta_file t) (ro_verify_checksums opts) handle;
                    Some (if ok s
                          then (new_iter (bc_data contents),
                            if bc_cachable contents \<and> ro_fill_cache opts
                            then ca_insert ops (cache_key t handle) (bc_data contents) (Block_size (bc_data contents)) c
                            else c)
                          else (EmptyIter s, c)) })
           | None \<Rightarrow> do {
               (s, contents) \<leftarrow> ReadBlock ce sn (ta_file t) (ro_verify_checksums opts) handle;
               Some (if ok s then new_iter (bc_data contents) else EmptyIter s, c) })"

text \<open>Whether the filter rules the key out.\<close>

definition filter_denies :: "Table \<Rightarrow> slice \<Rightarrow> slice \<Rightarrow> bool option" where
  "filter_denies t handle_value k =
     (case (ta_filter t, op_filter_policy (ta_options t)) of
        (Some reader, Some policy) \<Rightarrow>
          let (s, handle, _) = handle_DecodeFrom handle_value new_handle
          in if ok s then map_option Not (filter_KeyMayMatch policy reader (unat (bh_offset handle)) k) else Some False
      | _ \<Rightarrow> Some False)"

definition InternalGet ::
  "crc_env \<Rightarrow> Snappy \<Rightarrow> 'c block_cache option \<Rightarrow> ReadOptions \<Rightarrow> Table \<Rightarrow> slice \<Rightarrow> 'c \<Rightarrow>
   (Status \<times> (slice \<times> slice) option \<times> 'c) option"
where
  "InternalGet ce sn cache opts t k c =
     do { iiter \<leftarrow> iter_Seek (op_comparator (ta_options t)) k (new_iter (ta_index_block t));
          (s, found, c) \<leftarrow>
            (if iter_Valid iiter
             then do {
               handle_value \<leftarrow> iter_value iiter;
               denied \<leftarrow> filter_denies t handle_value k;
               if denied then Some (OK, None, c)
               else do {
                 (block_iter, c) \<leftarrow> BlockReader ce sn cache opts t handle_value c;
                 block_iter \<leftarrow> iter_Seek (op_comparator (ta_options t)) k block_iter;
                 found \<leftarrow> (if iter_Valid block_iter
                           then do { v \<leftarrow> iter_value block_iter; Some (Some (iter_key block_iter, v)) }
                           else Some None);
                 Some (iter_status block_iter, found, c) } }
             else Some (OK, None, c));
          Some (if ok s then iter_status iiter else s, found, c) }"

definition ApproximateOffsetOf :: "Table \<Rightarrow> slice \<Rightarrow> u64 option" where
  "ApproximateOffsetOf t key =
     do { index_iter \<leftarrow> iter_Seek (op_comparator (ta_options t)) key (new_iter (ta_index_block t));
          if iter_Valid index_iter
          then do {
            input \<leftarrow> iter_value index_iter;
            let (s, handle, _) = handle_DecodeFrom input new_handle in
            Some (if ok s then bh_offset handle else bh_offset (ta_metaindex_handle t)) }
          else Some (bh_offset (ta_metaindex_handle t)) }"

end
