(* ===== verification/Ldb_Block_Props.thy ===== *)
theory Ldb_Block_Props
  imports Ldb_Block
begin

text \<open>
  What a block is: the bytes of a list of entries, each with the number of bytes it shares with the key
  before it, and the offsets of those that share none. The builder makes such blocks; on them the
  iterator visits the entries in order, forwards and backwards, and \<open>Seek\<close> finds the first entry that
  is not below its target.
\<close>

section \<open>Entries\<close>

type_synonym entry = "nat \<times> slice \<times> slice"

fun entry_bytes :: "entry \<Rightarrow> slice" where
  "entry_bytes (s, k, v) =
     EncodeVarint32 (of_nat s) @ EncodeVarint32 (of_nat (length k - s)) @ EncodeVarint32 (of_nat (length v)) @
     drop s k @ v"

definition e_shared :: "entry \<Rightarrow> nat" where "e_shared e = fst e"
definition e_key :: "entry \<Rightarrow> slice" where "e_key e = fst (snd e)"
definition e_value :: "entry \<Rightarrow> slice" where "e_value e = snd (snd e)"

definition block_bytes :: "entry list \<Rightarrow> slice" where
  "block_bytes es = concat (map entry_bytes es)"

definition e_offset :: "entry list \<Rightarrow> nat \<Rightarrow> nat" where
  "e_offset es i = length (block_bytes (take i es))"

lemma block_bytes_append: "block_bytes (xs @ ys) = block_bytes xs @ block_bytes ys"
  by (simp add: block_bytes_def)

lemma varint_first:
  "EncodeVarint32 v = (if v < 128 then [ucast v] else ucast (v OR 128) # tl (EncodeVarint32 v))"
  "EncodeVarint32 v \<noteq> []"
  by (simp_all add: EncodeVarint32_def)

lemma high_byte: "\<not> (ucast (ucast (v OR 128) :: u8) :: u32) < 128" for v :: u32
proof
  let ?y = "ucast (ucast (v OR 128) :: u8) :: u32"
  assume "?y < 128"
  then have "take_bit 7 (unat ?y) = unat ?y" by (simp add: word_less_nat_alt take_bit_nat_eq_self)
  moreover have "bit ?y 7" by (simp add: bit_ucast_iff bit_or_iff)
  then have "bit (unat ?y) 7" by (simp add: bit_unsigned_iff)
  ultimately show False by (metis bit_take_bit_iff less_irrefl_nat)
qed

lemma first_small:
  assumes "q = EncodeVarint32 v @ rest" and "(ucast (q ! 0) :: u32) < 128"
  shows "q = ucast v # rest" and "(ucast (q ! 0) :: u32) = v"
proof -
  have small: "v < 128"
    using assms varint_first(1) [of v] high_byte [of v] by (metis append_Cons nth_Cons_0)
  then show q: "q = ucast v # rest" using assms(1) varint_first(1) [of v] by simp
  have "unat v < 128" using small by (simp add: word_less_nat_alt)
  then show "(ucast (q ! 0) :: u32) = v"
    by (simp add: q word_unat_eq_iff unsigned_ucast_eq unsigned_take_bit_eq take_bit_nat_eq_self)
qed

lemma entry_nonempty: "3 \<le> length (entry_bytes e)"
proof -
  have one: "1 \<le> length (EncodeVarint32 v)" for v using varint_first(2) [of v] by (cases "EncodeVarint32 v") auto
  obtain s k v where "e = (s, k, v)" by (cases e)
  with one [of "of_nat s"] one [of "of_nat (length k - s)"] one [of "of_nat (length v)"] show ?thesis by simp
qed

lemma or_small: "(x OR y) < c \<Longrightarrow> x < c \<and> y < c" for x y c :: u32
  using le_word_or2 [of x y] le_word_or2 [of y x] by (auto simp: or.commute [of y x] intro: order_le_less_trans)

lemma DecodeEntry_entry:
  assumes q: "drop p (take limit data) = entry_bytes (s, k, v) @ rest"
    and bounds: "p \<le> limit" "limit \<le> length data" "limit < 2 ^ 32" and fits: "s \<le> length k" "length k < 2 ^ 32"
  shows "DecodeEntry data p limit =
    Some (of_nat s, of_nat (length k - s), of_nat (length v), limit - length (drop s k @ v @ rest))"
proof -
  let ?tail = "drop s k @ v @ rest"
  have len: "length (entry_bytes (s, k, v) @ rest) = limit - p" using arg_cong [OF q, of length] bounds by simp
  then have three: "\<not> int limit - int p < 3" using entry_nonempty [of "(s, k, v)"] bounds by simp
  have sizes: "length k - s + length v \<le> length ?tail" "length ?tail < 2 ^ 32" using len bounds fits by simp_all
  then have sum: "\<not> (of_nat (length ?tail) :: u32) < of_nat (length k - s) + of_nat (length v)"
    by (simp add: word_less_nat_alt unat_of_nat take_bit_nat_eq_self flip: of_nat_add)
  let ?q = "entry_bytes (s, k, v) @ rest"
  have small: "?q = [ucast (of_nat s :: u32), ucast (of_nat (length k - s) :: u32), ucast (of_nat (length v) :: u32)] @ ?tail \<and>
      (ucast (?q ! 0) :: u32) = of_nat s \<and> (ucast (?q ! 1) :: u32) = of_nat (length k - s) \<and>
      (ucast (?q ! 2) :: u32) = of_nat (length v)"
    if less: "((ucast (?q ! 0) :: u32) OR ucast (?q ! 1) OR ucast (?q ! 2)) < 128"
  proof -
    let ?q1 = "EncodeVarint32 (of_nat (length k - s)) @ EncodeVarint32 (of_nat (length v)) @ ?tail"
    let ?q2 = "EncodeVarint32 (of_nat (length v)) @ ?tail"
    have l: "(ucast (?q ! 0) :: u32) < 128" "(ucast (?q ! 1) :: u32) < 128" "(ucast (?q ! 2) :: u32) < 128"
      using less or_small by blast+
    have 0: "?q = ucast (of_nat s :: u32) # ?q1" "(ucast (?q ! 0) :: u32) = of_nat s"
      using first_small [of ?q "of_nat s" ?q1] l(1) by simp_all
    then have "?q ! 1 = ?q1 ! 0" by simp
    then have 1: "?q1 = ucast (of_nat (length k - s) :: u32) # ?q2" "(ucast (?q ! 1) :: u32) = of_nat (length k - s)"
      using first_small [of ?q1 "of_nat (length k - s)" ?q2] l(2) by simp_all
    then have "?q ! 2 = ?q2 ! 0" using 0(1) by (simp del: entry_bytes.simps)
    then have "?q2 = ucast (of_nat (length v) :: u32) # ?tail" "(ucast (?q ! 2) :: u32) = of_nat (length v)"
      using first_small [of ?q2 "of_nat (length v)" ?tail] l(3) by simp_all
    with 0 1 show ?thesis by (simp del: entry_bytes.simps)
  qed
  have slow: "GetVarint32Ptr ?q = Some (of_nat s, EncodeVarint32 (of_nat (length k - s)) @ EncodeVarint32 (of_nat (length v)) @ ?tail)"
    by (simp add: GetVarint32Ptr_Encode)
  show ?thesis
  proof (cases "((ucast (?q ! 0) :: u32) OR ucast (?q ! 1) OR ucast (?q ! 2)) < 128")
    case True
    have d: "drop 3 ?q = ?tail" by (subst conjunct1 [OF small [OF True]]) simp
    note bytes = conjunct2 [OF small [OF True]]
    note bytes = conjunct1 [OF bytes] conjunct1 [OF conjunct2 [OF bytes]] conjunct2 [OF conjunct2 [OF bytes]]
    have less: "((of_nat s :: u32) OR of_nat (length k - s) OR of_nat (length v)) < 128" using True unfolding bytes .
    show ?thesis
      unfolding DecodeEntry_def Let_def q if_not_P [OF three] d bytes if_P [OF less] Option.bind.simps prod.case
        if_not_P [OF sum] ..
  next
    case False
    show ?thesis
      unfolding DecodeEntry_def Let_def q if_not_P [OF False] if_not_P [OF three] slow GetVarint32Ptr_Encode
        Option.bind.simps prod.case if_not_P [OF sum] ..
  qed
qed

section \<open>Blocks of entries\<close>

definition entries_ok :: "entry list \<Rightarrow> bool" where
  "entries_ok es \<longleftrightarrow>
     (\<forall>e \<in> set es. e_shared e \<le> length (e_key e) \<and> length (e_key e) < 2 ^ 32 \<and> length (e_value e) < 2 ^ 32) \<and>
     (\<forall>i < length es. e_shared (es ! i) \<noteq> 0 \<longrightarrow>
        0 < i \<and> e_shared (es ! i) \<le> length (e_key (es ! (i - 1))) \<and>
        take (e_shared (es ! i)) (e_key (es ! (i - 1))) = take (e_shared (es ! i)) (e_key (es ! i)))"

definition restarts_ok :: "entry list \<Rightarrow> nat list \<Rightarrow> bool" where
  "restarts_ok es rs \<longleftrightarrow>
     rs \<noteq> [] \<and> rs ! 0 = 0 \<and> sorted_wrt (<) rs \<and>
     (\<forall>r \<in> set rs. r < length es \<longrightarrow> e_shared (es ! r) = 0) \<and> (\<forall>r \<in> set rs. r < length es \<or> r = 0)"

definition is_block :: "block \<Rightarrow> entry list \<Rightarrow> nat list \<Rightarrow> bool" where
  "is_block b es rs \<longleftrightarrow>
     entries_ok es \<and> restarts_ok es rs \<and>
     b_restarts b = length (block_bytes es) \<and> b_restarts b < 2 ^ 32 \<and>
     take (b_restarts b) (b_data b) = block_bytes es \<and> b_restarts b \<le> length (b_data b) \<and>
     b_num_restarts b = length rs \<and> (\<forall>j < length rs. GetRestartPoint b j = Some (e_offset es (rs ! j)))"

definition at_entry :: "entry list \<Rightarrow> nat \<Rightarrow> block_iter \<Rightarrow> bool" where
  "at_entry es i it \<longleftrightarrow>
     NextEntryOffset it = e_offset es i \<and>
     (i < length es \<longrightarrow> e_shared (es ! i) \<le> length (it_key it) \<and>
        take (e_shared (es ! i)) (it_key it) = take (e_shared (es ! i)) (e_key (es ! i)))"

definition on_entry :: "block \<Rightarrow> entry list \<Rightarrow> nat \<Rightarrow> block_iter \<Rightarrow> bool" where
  "on_entry b es i it \<longleftrightarrow>
     i < length es \<and> it_current it = e_offset es i \<and> it_key it = e_key (es ! i) \<and>
     block_value b it = Some (e_value (es ! i)) \<and> NextEntryOffset it = e_offset es (i + 1) \<and>
     it_restart_index it < b_num_restarts b"

lemma e_offset_Suc: "i < length es \<Longrightarrow> e_offset es (Suc i) = e_offset es i + length (entry_bytes (es ! i))"
  by (simp add: e_offset_def take_Suc_conv_app_nth block_bytes_append) (simp add: block_bytes_def)

lemma e_offset_simps [simp]: "e_offset es 0 = 0" "e_offset es (length es) = length (block_bytes es)"
  by (simp_all add: e_offset_def block_bytes_def)

lemma e_offset_less: "i < j \<Longrightarrow> j \<le> length es \<Longrightarrow> e_offset es i < e_offset es j"
proof (induction j)
  case (Suc j)
  have "e_offset es j < e_offset es (Suc j)"
    using e_offset_Suc [of j es] entry_nonempty [of "es ! j"] Suc.prems by (cases "entry_bytes (es ! j)") simp_all
  with Suc show ?case by (cases "i = j") auto
qed simp

lemma e_offset_le: "i \<le> j \<Longrightarrow> j \<le> length es \<Longrightarrow> e_offset es i \<le> e_offset es j"
  using e_offset_less [of i j es] by (cases "i = j") auto

lemma e_offset_less_iff: "i \<le> length es \<Longrightarrow> j \<le> length es \<Longrightarrow> e_offset es i < e_offset es j \<longleftrightarrow> i < j"
  using e_offset_less [of i j es] e_offset_le [of j i es] by (cases "i < j") auto

lemma block_split:
  assumes "i < length es"
  shows "drop (e_offset es i) (block_bytes es) = entry_bytes (es ! i) @ block_bytes (drop (Suc i) es)"
proof -
  have "block_bytes es = block_bytes (take i es) @ block_bytes (drop i es)"
    by (simp flip: block_bytes_append)
  also have "block_bytes (drop i es) = entry_bytes (es ! i) @ block_bytes (drop (Suc i) es)"
    using assms by (simp add: Cons_nth_drop_Suc [symmetric] block_bytes_def)
  finally show ?thesis by (simp add: e_offset_def)
qed

lemma block_offsets:
  assumes "is_block b es rs" and "i \<le> length es"
  shows "e_offset es i \<le> b_restarts b" and "e_offset es i mod 2 ^ 32 = e_offset es i"
    and "i < length es \<Longrightarrow> e_offset es i < b_restarts b"
proof -
  show le: "e_offset es i \<le> b_restarts b"
    using e_offset_le [of i "length es" es] assms by (simp add: is_block_def)
  then show "e_offset es i mod 2 ^ 32 = e_offset es i" using assms(1) by (simp add: is_block_def)
  show "i < length es \<Longrightarrow> e_offset es i < b_restarts b"
    using e_offset_less [of i "length es" es] assms by (simp add: is_block_def)
qed

lemma entry_read:
  assumes blk: "is_block b es rs" and i: "i < length es" and e: "es ! i = (s, k, v)"
  shows "DecodeEntry (b_data b) (e_offset es i) (b_restarts b) =
      Some (of_nat s, of_nat (length k - s), of_nat (length v), e_offset es (Suc i) - (length k - s) - length v)"
    and "block_slice b (e_offset es (Suc i) - (length k - s) - length v) (length k - s) = Some (drop s k)"
    and "block_slice b (e_offset es (Suc i) - length v) (length v) = Some v"
    and "s \<le> length k" and "length k < 2 ^ 32" and "length v < 2 ^ 32"
    and "length k - s + length v \<le> e_offset es (Suc i)"
proof -
  have fits: "s \<le> length k \<and> length k < 2 ^ 32 \<and> length v < 2 ^ 32"
  proof -
    have "(s, k, v) \<in> set es" using i e by (metis nth_mem)
    then show ?thesis using blk by (auto simp: is_block_def entries_ok_def e_shared_def e_key_def e_value_def)
  qed
  then show "s \<le> length k" "length k < 2 ^ 32" "length v < 2 ^ 32" by simp_all
  let ?later = "block_bytes (drop (Suc i) es)"
  have bytes: "take (b_restarts b) (b_data b) = block_bytes es" "b_restarts b \<le> length (b_data b)"
      "b_restarts b = length (block_bytes es)" "b_restarts b < 2 ^ 32"
    using blk unfolding is_block_def by blast+
  have data: "drop (e_offset es i) (take (b_restarts b) (b_data b)) = entry_bytes (s, k, v) @ ?later"
    unfolding bytes(1) using block_split [OF i] e by simp
  have later: "e_offset es (Suc i) + length ?later = b_restarts b"
    using i by (simp add: bytes(3) e_offset_def flip: length_append block_bytes_append)
  have offset: "e_offset es (Suc i) = e_offset es i + length (entry_bytes (s, k, v))"
    using e_offset_Suc [OF i] e by simp
  then show "length k - s + length v \<le> e_offset es (Suc i)" by simp
  have limit: "b_restarts b - length (drop s k @ v @ ?later) = e_offset es (Suc i) - (length k - s) - length v"
    using later by simp
  show "DecodeEntry (b_data b) (e_offset es i) (b_restarts b) =
      Some (of_nat s, of_nat (length k - s), of_nat (length v), e_offset es (Suc i) - (length k - s) - length v)"
    using DecodeEntry_entry [OF data _ bytes(2,4)] fits i block_offsets(1) [OF blk, of i] limit
    by (simp del: entry_bytes.simps)
  let ?header = "EncodeVarint32 (of_nat s) @ EncodeVarint32 (of_nat (length k - s)) @ EncodeVarint32 (of_nat (length v))"
  have split: "take (b_restarts b) (b_data b) =
      (take (e_offset es i) (block_bytes es) @ ?header) @ drop s k @ v @ ?later"
    using data append_take_drop_id [of "e_offset es i" "block_bytes es"] by (simp add: bytes(1))
  have at: "length (take (e_offset es i) (block_bytes es) @ ?header) = e_offset es (Suc i) - (length k - s) - length v"
    using offset block_offsets(1) [OF blk, of i] i by (simp add: bytes(3))
  have slice: "block_slice b (length a) (length m) = Some m" if "take (b_restarts b) (b_data b) = a @ m @ c" for a m c
  proof -
    have "length a + length m + length c = b_restarts b"
      using arg_cong [OF that, of length] bytes(2) by simp
    moreover have "b_data b = a @ m @ c @ drop (b_restarts b) (b_data b)"
      using that append_take_drop_id [of "b_restarts b" "b_data b"] by simp
    ultimately show ?thesis using bytes(2) by (metis append_eq_conv_conj block_slice_def le_add1 le_trans)
  qed
  show "block_slice b (e_offset es (Suc i) - (length k - s) - length v) (length k - s) = Some (drop s k)"
    using slice [OF split] at by simp
  have "length ((take (e_offset es i) (block_bytes es) @ ?header) @ drop s k) = e_offset es (Suc i) - length v"
    using at offset fits by simp
  with slice [of "(take (e_offset es i) (block_bytes es) @ ?header) @ drop s k" v ?later] split
  show "block_slice b (e_offset es (Suc i) - length v) (length v) = Some v" by simp
qed

lemma advance_restart_total:
  assumes "is_block b es rs" and "index < length rs"
  shows "\<exists>j < length rs. advance_restart b current index = Some j"
  using assms
proof (induction b current index rule: advance_restart.induct)
  case (1 b current index)
  have num: "b_num_restarts b = length rs" using 1(2) by (simp add: is_block_def)
  show ?case
  proof (cases "index + 1 < length rs")
    case True
    then obtain r where r: "GetRestartPoint b (index + 1) = Some r" using 1(2) by (auto simp: is_block_def)
    show ?thesis
      using 1 True r num by (subst advance_restart.simps) auto
  next
    case False
    then show ?thesis using 1(3) num by (subst advance_restart.simps) simp
  qed
qed

lemma parse_entry:
  assumes blk: "is_block b es rs" and at: "at_entry es i it" and i: "i < length es"
    and index: "it_restart_index it < length rs"
  shows "\<exists>it'. ParseNextKey b it = Some (True, it') \<and> on_entry b es i it' \<and> it_status it' = it_status it"
proof -
  obtain s k v where e: "es ! i = (s, k, v)" by (cases "es ! i")
  note read = entry_read [OF blk i e]
  obtain j where j: "advance_restart b (e_offset es i) (it_restart_index it) = Some j" "j < length rs"
    using advance_restart_total [OF blk index] by blast
  have u: "unat (of_nat s :: u32) = s" "unat (of_nat (length k - s) :: u32) = length k - s"
      "unat (of_nat (length v) :: u32) = length v"
    using read(4-6) by (simp_all add: unat_of_nat take_bit_nat_eq_self del: of_nat_diff)
  have key: "\<not> length (it_key it) < s" "take s (it_key it) @ drop s k = k"
    using at i e by (simp_all add: at_entry_def e_shared_def e_key_def)
  have cur: "NextEntryOffset it = e_offset es i" "\<not> e_offset es i \<ge> b_restarts b"
    using at block_offsets(3) [OF blk _ i] i by (simp_all add: at_entry_def)
  let ?it = "it\<lparr>it_current := e_offset es i, it_key := k,
      it_value := e_offset es (Suc i) - (length k - s) - length v + (length k - s),
      it_value_size := length v, it_restart_index := j\<rparr>"
  have "ParseNextKey b it = Some (True, ?it)"
    unfolding ParseNextKey_def Let_def cur(1) if_not_P [OF cur(2)] read(1) option.case prod.case u if_not_P [OF key(1)]
    using read(2) j(1) key by simp
  moreover have "on_entry b es i ?it"
    using i e j(2) read(3,7) block_offsets(2) [OF blk, of "Suc i"] blk
    by (simp add: on_entry_def e_key_def e_value_def block_value_def NextEntryOffset_def is_block_def)
  ultimately show ?thesis by (intro exI [of _ ?it]) simp
qed

lemma parse_end:
  assumes "is_block b es rs" and "at_entry es (length es) it"
  shows "\<exists>it'. ParseNextKey b it = Some (False, it') \<and> \<not> block_Valid b it' \<and> it_status it' = it_status it"
  using assms block_offsets [OF assms(1), of "length es"]
  by (simp add: ParseNextKey_def at_entry_def Let_def is_block_def block_Valid_def)

section \<open>Moving over a block\<close>

lemma on_then_at:
  assumes "is_block b es rs" and "on_entry b es i it"
  shows "at_entry es (Suc i) it"
proof -
  have "e_shared (es ! Suc i) \<le> length (e_key (es ! i)) \<and>
      take (e_shared (es ! Suc i)) (e_key (es ! i)) = take (e_shared (es ! Suc i)) (e_key (es ! Suc i))"
    if "Suc i < length es"
  proof (cases "e_shared (es ! Suc i) = 0")
    case False
    moreover have "entries_ok es" using assms(1) by (simp add: is_block_def)
    ultimately show ?thesis unfolding entries_ok_def using that by (metis diff_Suc_1)
  qed simp
  then show ?thesis using assms(2) by (simp add: at_entry_def on_entry_def)
qed

lemma seek_restart:
  assumes blk: "is_block b es rs" and j: "j < length rs"
  shows "\<exists>it'. SeekToRestartPoint b j it = Some it' \<and> at_entry es (rs ! j) it' \<and> it_restart_index it' = j \<and>
    it_status it' = it_status it"
proof -
  have r: "rs ! j < length es \<longrightarrow> e_shared (es ! (rs ! j)) = 0" "rs ! j \<le> length es"
    using blk j nth_mem [OF j] by (auto simp: is_block_def restarts_ok_def intro: less_imp_le)
  have "GetRestartPoint b j = Some (e_offset es (rs ! j))" using blk j by (simp add: is_block_def)
  then show ?thesis
    using r block_offsets(2) [OF blk r(2)] by (auto simp: SeekToRestartPoint_def at_entry_def NextEntryOffset_def)
qed

lemma skip_to:
  assumes blk: "is_block b es rs" and "at_entry es m it" and "it_restart_index it < length rs"
    and i: "m < i" "i \<le> length es"
  shows "\<exists>it'. c_loop (skip_round b (e_offset es i)) it = Some it' \<and> on_entry b es (i - 1) it' \<and> it_status it' = it_status it"
  using assms(2-4)
proof (induction "i - m" arbitrary: m it rule: less_induct)
  case less
  obtain it1 where it1: "ParseNextKey b it = Some (True, it1)" "on_entry b es m it1" "it_status it1 = it_status it"
    using parse_entry [OF blk less(2) _ less(3)] less(4) i by auto
  have num: "b_num_restarts b = length rs" using blk by (simp add: is_block_def)
  have next_offset: "NextEntryOffset it1 < e_offset es i \<longleftrightarrow> Suc m < i"
    using it1(2) e_offset_less_iff [of "Suc m" es i] less(4) i by (simp add: on_entry_def)
  show ?case
  proof (cases "Suc m < i")
    case True
    then have "skip_round b (e_offset es i) it = Some (Inl it1)" using it1(1) next_offset by (simp add: skip_round_def)
    with less(1) [OF _ on_then_at [OF blk it1(2)] _ True] True less(4) it1 num show ?thesis
      by (auto simp: c_loop_next on_entry_def)
  next
    case False
    then have "skip_round b (e_offset es i) it = Some (Inr it1)" using it1(1) next_offset by (simp add: skip_round_def)
    moreover have "m = i - 1" using False less(4) by simp
    ultimately show ?thesis using it1 by (auto simp: c_loop_exit)
  qed
qed

lemma block_next:
  assumes blk: "is_block b es rs" and on: "on_entry b es i it"
  shows "\<exists>it'. block_Next b it = Some it' \<and> it_status it' = it_status it \<and>
    (if Suc i < length es then on_entry b es (Suc i) it' else \<not> block_Valid b it')"
proof (cases "Suc i < length es")
  case True
  have "it_restart_index it < length rs" using blk on by (simp add: is_block_def on_entry_def)
  from parse_entry [OF blk on_then_at [OF blk on] True this] True show ?thesis by (auto simp: block_Next_def)
next
  case False
  then have "Suc i = length es" using on by (simp add: on_entry_def)
  with on_then_at [OF blk on] have "at_entry es (length es) it" by simp
  from parse_end [OF blk this] False show ?thesis by (auto simp: block_Next_def)
qed

lemma first_restart: "is_block b es rs \<Longrightarrow> rs ! 0 = 0 \<and> 0 < length rs"
  by (auto simp: is_block_def restarts_ok_def)

lemma block_first:
  assumes blk: "is_block b es rs"
  shows "\<exists>it'. block_SeekToFirst b it = Some it' \<and> it_status it' = it_status it \<and>
    (if es \<noteq> [] then on_entry b es 0 it' else \<not> block_Valid b it')"
proof -
  obtain it1 where it1: "SeekToRestartPoint b 0 it = Some it1" "at_entry es 0 it1" "it_restart_index it1 = 0"
      "it_status it1 = it_status it"
    using seek_restart [OF blk, of 0 it] first_restart [OF blk] by auto
  show ?thesis
  proof (cases "es = []")
    case True
    then show ?thesis using parse_end [OF blk] it1 by (fastforce simp: block_SeekToFirst_def block_Next_def)
  next
    case False
    then show ?thesis
      using parse_entry [OF blk it1(2)] it1 first_restart [OF blk] by (auto simp: block_SeekToFirst_def block_Next_def)
  qed
qed

lemma block_last:
  assumes blk: "is_block b es rs" and "es \<noteq> []"
  shows "\<exists>it'. block_SeekToLast b it = Some it' \<and> it_status it' = it_status it \<and> on_entry b es (length es - 1) it'"
proof -
  let ?j = "length rs - 1"
  have j: "?j < length rs" "b_num_restarts b = length rs" using first_restart [OF blk] blk by (simp_all add: is_block_def)
  have r: "rs ! ?j < length es"
    using blk nth_mem [OF j(1)] assms(2) by (auto simp: is_block_def restarts_ok_def)
  obtain it1 where it1: "SeekToRestartPoint b ?j it = Some it1" "at_entry es (rs ! ?j) it1" "it_restart_index it1 = ?j"
      "it_status it1 = it_status it"
    using seek_restart [OF blk j(1), of it] by auto
  have "e_offset es (length es) = b_restarts b" using blk by (simp add: is_block_def)
  with skip_to [OF blk it1(2) _ r, of] it1 j show ?thesis by (auto simp: block_SeekToLast_def)
qed

lemma back_to:
  assumes blk: "is_block b es rs" and i: "i < length es" and "index < length rs"
  shows "\<exists>found. c_loop (back_round b (e_offset es i)) index = Some found \<and>
    (if i = 0 then found = None else \<exists>j < length rs. found = Some j \<and> rs ! j < i)"
  using assms(3)
proof (induction index)
  case 0
  have "GetRestartPoint b 0 = Some 0" using blk first_restart [OF blk] by (simp add: is_block_def)
  moreover have "e_offset es i = 0 \<longleftrightarrow> i = 0" using e_offset_less [of 0 i es] i by (cases i) simp_all
  ultimately show ?case using first_restart [OF blk] by (auto simp: back_round_def c_loop_exit)
next
  case (Suc index)
  have "rs ! Suc index \<in> set rs" using Suc.prems nth_mem by blast
  then have "rs ! Suc index \<le> length es" using blk by (auto simp: is_block_def restarts_ok_def intro: less_imp_le)
  then have off: "e_offset es (rs ! Suc index) < e_offset es i \<longleftrightarrow> rs ! Suc index < i"
    using i by (simp add: e_offset_less_iff)
  have "GetRestartPoint b (Suc index) = Some (e_offset es (rs ! Suc index))" using blk Suc.prems by (simp add: is_block_def)
  then have round: "back_round b (e_offset es i) (Suc index) =
      Some (if rs ! Suc index < i then Inr (Some (Suc index)) else Inl index)"
    using off by (simp add: back_round_def not_le [symmetric])
  show ?case
  proof (cases "rs ! Suc index < i")
    case True
    then show ?thesis using round Suc.prems by (auto simp: c_loop_exit)
  next
    case False
    then show ?thesis using round Suc by (simp add: c_loop_next)
  qed
qed

lemma block_prev:
  assumes blk: "is_block b es rs" and on: "on_entry b es i it"
  shows "\<exists>it'. block_Prev b it = Some it' \<and> it_status it' = it_status it \<and>
    (if i = 0 then \<not> block_Valid b it' else on_entry b es (i - 1) it')"
proof -
  have i: "i < length es" "it_current it = e_offset es i" "it_restart_index it < length rs"
    using on blk by (simp_all add: on_entry_def is_block_def)
  obtain found where found: "c_loop (back_round b (e_offset es i)) (it_restart_index it) = Some found"
      "if i = 0 then found = None else \<exists>j < length rs. found = Some j \<and> rs ! j < i"
    using back_to [OF blk i(1,3)] by blast
  show ?thesis
  proof (cases "i = 0")
    case True
    then show ?thesis using found i(2) by (simp add: block_Prev_def block_Valid_def)
  next
    case False
    then obtain j where j: "j < length rs" "found = Some j" "rs ! j < i" using found(2) by auto
    obtain it1 where it1: "SeekToRestartPoint b j it = Some it1" "at_entry es (rs ! j) it1" "it_restart_index it1 = j"
        "it_status it1 = it_status it"
      using seek_restart [OF blk j(1), of it] by auto
    from skip_to [OF blk it1(2) _ j(3)] it1 j i False found(1) show ?thesis by (auto simp: block_Prev_def)
  qed
qed

section \<open>Reading a block from its start\<close>

text \<open>A client's loop over a block: the keys and values while the iterator is valid.\<close>

definition scan_round ::
  "block \<Rightarrow> (slice \<times> slice) list \<times> block_iter \<Rightarrow>
     ((slice \<times> slice) list \<times> block_iter + (slice \<times> slice) list \<times> block_iter) option"
where
  "scan_round b st =
     (case st of (acc, it) \<Rightarrow>
        if block_Valid b it
        then do { v \<leftarrow> block_value b it; it' \<leftarrow> block_Next b it; Some (Inl (acc @ [(it_key it, v)], it')) }
        else Some (Inr (acc, it)))"

definition scan_block :: "block \<Rightarrow> ((slice \<times> slice) list \<times> block_iter) option" where
  "scan_block b = do { it \<leftarrow> block_SeekToFirst b (block_Iter b); c_loop (scan_round b) ([], it) }"

lemma on_entry_valid: "is_block b es rs \<Longrightarrow> on_entry b es i it \<Longrightarrow> block_Valid b it"
  using block_offsets(3) [of b es rs i] by (simp add: block_Valid_def on_entry_def)

lemma scan_stop: "\<not> block_Valid b it \<Longrightarrow> c_loop (scan_round b) (acc, it) = Some (acc, it)"
  by (simp add: scan_round_def c_loop_exit)

lemma scan_from:
  assumes blk: "is_block b es rs" and "on_entry b es i it"
  shows "\<exists>it'. c_loop (scan_round b) (acc, it) = Some (acc @ map snd (drop i es), it') \<and> it_status it' = it_status it"
  using assms(2)
proof (induction "length es - i" arbitrary: i it acc rule: less_induct)
  case less
  obtain it1 where it1: "block_Next b it = Some it1" "it_status it1 = it_status it"
      "if Suc i < length es then on_entry b es (Suc i) it1 else \<not> block_Valid b it1"
    using block_next [OF blk less(2)] by blast
  have i: "i < length es" "block_value b it = Some (e_value (es ! i))" "it_key it = e_key (es ! i)"
    using less(2) by (simp_all add: on_entry_def)
  have pair: "(e_key (es ! i), e_value (es ! i)) = snd (es ! i)" by (simp add: e_key_def e_value_def)
  have "scan_round b (acc, it) = Some (Inl (acc @ [snd (es ! i)], it1))"
    using on_entry_valid [OF blk less(2)] i it1(1) pair by (simp add: scan_round_def)
  then have step: "c_loop (scan_round b) (acc, it) = c_loop (scan_round b) (acc @ [snd (es ! i)], it1)"
    by (rule c_loop_next)
  have later: "map snd (drop i es) = snd (es ! i) # map snd (drop (Suc i) es)"
    using i(1) by (simp add: Cons_nth_drop_Suc [symmetric])
  show ?case
  proof (cases "Suc i < length es")
    case True
    with less(1) [of "Suc i" it1 "acc @ [snd (es ! i)]"] it1 i(1) step later show ?thesis by auto
  next
    case False
    then show ?thesis using it1 step later by (simp add: scan_stop)
  qed
qed

lemma scan_entries:
  assumes blk: "is_block b es rs"
  shows "\<exists>it. scan_block b = Some (map snd es, it) \<and> it_status it = OK"
proof -
  obtain it1 where it1: "block_SeekToFirst b (block_Iter b) = Some it1" "it_status it1 = OK"
      "if es \<noteq> [] then on_entry b es 0 it1 else \<not> block_Valid b it1"
    using block_first [OF blk, of "block_Iter b"] by (auto simp: block_Iter_def)
  show ?thesis
    using it1 scan_from [OF blk, of 0 it1 "[]"] scan_stop [of b it1 "[]"]
    by (cases "es = []") (auto simp: scan_block_def)
qed

text \<open>The same from the last entry to the first.\<close>

definition scan_back_round ::
  "block \<Rightarrow> (slice \<times> slice) list \<times> block_iter \<Rightarrow>
     ((slice \<times> slice) list \<times> block_iter + (slice \<times> slice) list \<times> block_iter) option"
where
  "scan_back_round b st =
     (case st of (acc, it) \<Rightarrow>
        if block_Valid b it
        then do { v \<leftarrow> block_value b it; it' \<leftarrow> block_Prev b it; Some (Inl (acc @ [(it_key it, v)], it')) }
        else Some (Inr (acc, it)))"

definition scan_block_back :: "block \<Rightarrow> ((slice \<times> slice) list \<times> block_iter) option" where
  "scan_block_back b = do { it \<leftarrow> block_SeekToLast b (block_Iter b); c_loop (scan_back_round b) ([], it) }"

lemma scan_back_from:
  assumes blk: "is_block b es rs" and "on_entry b es i it"
  shows "\<exists>it'. c_loop (scan_back_round b) (acc, it) = Some (acc @ map snd (rev (take (Suc i) es)), it') \<and>
    it_status it' = it_status it"
  using assms(2)
proof (induction i arbitrary: it acc)
  case (Suc i)
  obtain it1 where it1: "block_Prev b it = Some it1" "it_status it1 = it_status it" "on_entry b es i it1"
    using block_prev [OF blk Suc.prems] by auto
  have "scan_back_round b (acc, it) = Some (Inl (acc @ [snd (es ! Suc i)], it1))"
    using on_entry_valid [OF blk Suc.prems] Suc.prems it1(1)
    by (simp add: scan_back_round_def on_entry_def e_key_def e_value_def)
  then have step: "c_loop (scan_back_round b) (acc, it) = c_loop (scan_back_round b) (acc @ [snd (es ! Suc i)], it1)"
    by (rule c_loop_next)
  have "Suc i < length es" using Suc.prems by (simp add: on_entry_def)
  then have "rev (take (Suc (Suc i)) es) = es ! Suc i # rev (take (Suc i) es)" by (simp add: take_Suc_conv_app_nth)
  with Suc.IH [OF it1(3), of "acc @ [snd (es ! Suc i)]"] step it1(2) show ?case by auto
next
  case 0
  obtain it1 where it1: "block_Prev b it = Some it1" "it_status it1 = it_status it" "\<not> block_Valid b it1"
    using block_prev [OF blk 0] by auto
  have "scan_back_round b (acc, it) = Some (Inl (acc @ [snd (es ! 0)], it1))"
    using on_entry_valid [OF blk 0] 0 it1(1) by (simp add: scan_back_round_def on_entry_def e_key_def e_value_def)
  moreover have "scan_back_round b (acc', it1) = Some (Inr (acc', it1))" for acc'
    using it1(3) by (simp add: scan_back_round_def)
  moreover have "0 < length es" using 0 by (simp add: on_entry_def)
  then have "take (Suc 0) es = [es ! 0]" by (simp add: take_Suc_conv_app_nth)
  ultimately show ?case using it1(2) by (simp add: c_loop_next c_loop_exit)
qed

lemma scan_back_entries:
  assumes blk: "is_block b es rs"
  shows "\<exists>it. scan_block_back b = Some (rev (map snd es), it) \<and> it_status it = OK"
proof (cases "es = []")
  case True
  have "rs = [0]"
  proof -
    have rs: "sorted_wrt (<) rs" "rs \<noteq> []" "\<forall>r \<in> set rs. r = 0"
      using blk True by (auto simp: is_block_def restarts_ok_def)
    then show ?thesis by (cases rs; cases "tl rs") auto
  qed
  then have num: "b_num_restarts b = 1" using blk by (simp add: is_block_def)
  obtain it1 where it1: "SeekToRestartPoint b 0 (block_Iter b) = Some it1" "at_entry es 0 it1" "it_status it1 = OK"
    using seek_restart [OF blk, of 0 "block_Iter b"] first_restart [OF blk] by (auto simp: block_Iter_def)
  obtain it2 where it2: "ParseNextKey b it1 = Some (False, it2)" "\<not> block_Valid b it2" "it_status it2 = OK"
    using parse_end [OF blk, of it1] it1 True by auto
  then show ?thesis
    using it1(1) num True by (simp add: scan_block_back_def block_SeekToLast_def skip_round_def scan_back_round_def c_loop_exit)
next
  case False
  obtain it1 where it1: "block_SeekToLast b (block_Iter b) = Some it1" "it_status it1 = OK" "on_entry b es (length es - 1) it1"
    using block_last [OF blk False, of "block_Iter b"] by (auto simp: block_Iter_def)
  from scan_back_from [OF blk it1(3), of "[]"] it1 False show ?thesis
    by (auto simp: scan_block_back_def rev_map)
qed

section \<open>Seeking\<close>

context key_order
begin

definition e_below :: "slice \<Rightarrow> entry \<Rightarrow> bool" where
  "e_below target e \<longleftrightarrow> cmp_Compare cmp (e_key e) target < 0"

lemma restart_search:
  assumes blk: "is_block b es rs" and "left \<le> right" "right < length rs"
    and "left = 0 \<or> e_below target (es ! (rs ! left))"
  shows "\<exists>j < length rs. c_loop (restart_round b cmp target) (left, right) = Some (Some j) \<and>
    (j = 0 \<or> e_below target (es ! (rs ! j)))"
  using assms(2-4)
proof (induction "right - left" arbitrary: left right rule: less_induct)
  case less
  show ?case
  proof (cases "left < right")
    case False
    then show ?thesis using less by (auto simp: restart_round_def c_loop_exit)
  next
    case True
    let ?mid = "(left + right + 1) div 2"
    have mid: "left < ?mid" "?mid \<le> right" "?mid < length rs" using True less by auto
    have "0 < rs ! ?mid"
      using sorted_wrt_nth_less [of "(<)" rs 0 ?mid] mid blk by (simp add: is_block_def restarts_ok_def)
    moreover have "rs ! ?mid \<in> set rs" using mid by simp
    ultimately have r: "rs ! ?mid < length es" "e_shared (es ! (rs ! ?mid)) = 0"
      using blk by (fastforce simp: is_block_def restarts_ok_def)+
    then obtain k v where e: "es ! (rs ! ?mid) = (0, k, v)" by (metis e_shared_def prod.collapse)
    note read = entry_read [OF blk r(1) e]
    have u: "unat (of_nat (length k) :: u32) = length k"
      using read(5) by (simp add: unat_of_nat take_bit_nat_eq_self)
    have "GetRestartPoint b ?mid = Some (e_offset es (rs ! ?mid))" using blk mid by (simp add: is_block_def)
    then have round: "restart_round b cmp target (left, right) = Some (Inl (if e_below target (es ! (rs ! ?mid))
        then (?mid, right) else (left, ?mid - 1)))"
      using True read(1,2) u e by (simp add: restart_round_def Let_def e_below_def e_key_def)
    show ?thesis
    proof (cases "e_below target (es ! (rs ! ?mid))")
      case below: True
      with less(1) [of right ?mid] mid less round show ?thesis by (simp add: c_loop_next)
    next
      case False
      with less(1) [of "?mid - 1" left] mid less round show ?thesis by (simp add: c_loop_next)
    qed
  qed
qed

lemma seek_linear:
  assumes blk: "is_block b es rs" and "at_entry es i it" and "it_restart_index it < length rs" and "i \<le> length es"
    and "\<forall>j < i. e_below target (es ! j)"
  shows "\<exists>it'. c_loop (seek_round b cmp target) it = Some it' \<and> it_status it' = it_status it \<and>
    (let n = length (takeWhile (e_below target) es)
     in if n < length es then on_entry b es n it' else \<not> block_Valid b it')"
  using assms(2-5)
proof (induction "length es - i" arbitrary: i it rule: less_induct)
  case less
  have num: "b_num_restarts b = length rs" using blk by (simp add: is_block_def)
  show ?case
  proof (cases "i < length es")
    case False
    then have i: "i = length es" using less(4) by simp
    then have all: "takeWhile (e_below target) es = es" using less(5) by (simp add: takeWhile_eq_all_conv all_set_conv_all_nth)
    obtain it1 where "ParseNextKey b it = Some (False, it1)" "\<not> block_Valid b it1" "it_status it1 = it_status it"
      using parse_end [OF blk, of it] less(2) i by blast
    with arg_cong [OF all, of length] show ?thesis by (simp add: seek_round_def c_loop_exit del: takeWhile_eq_all_conv)
  next
    case True
    obtain it1 where it1: "ParseNextKey b it = Some (True, it1)" "on_entry b es i it1" "it_status it1 = it_status it"
      using parse_entry [OF blk less(2) True less(3)] by blast
    then have below: "cmp_Compare cmp (it_key it1) target < 0 \<longleftrightarrow> e_below target (es ! i)"
      by (simp add: on_entry_def e_below_def)
    show ?thesis
    proof (cases "e_below target (es ! i)")
      case yes: True
      then have "seek_round b cmp target it = Some (Inl it1)" using it1(1) below by (simp add: seek_round_def)
      moreover have "\<forall>j < Suc i. e_below target (es ! j)" using less(5) yes by (simp add: less_Suc_eq)
      moreover have "it_restart_index it1 < length rs" using it1(2) num by (simp add: on_entry_def)
      ultimately show ?thesis
        using less(1) [OF _ on_then_at [OF blk it1(2)]] True it1(3) by (simp add: c_loop_next Suc_leI)
    next
      case no: False
      then have "seek_round b cmp target it = Some (Inr it1)" using it1(1) below by (simp add: seek_round_def)
      moreover have "takeWhile (e_below target) es = take i es"
        using True no less(5) by (intro takeWhile_eq_take_P_nth) simp_all
      ultimately show ?thesis using True it1 by (simp add: c_loop_exit)
    qed
  qed
qed

lemma Seek_entries:
  assumes blk: "is_block b es rs" and valid: "\<forall>e \<in> set es. valid (e_key e)" "valid target"
    and sorted: "sorted_wrt key_less (map e_key es)"
  shows "\<exists>it'. block_Seek b cmp target it = Some it' \<and> it_status it' = it_status it \<and>
    (let n = length (takeWhile (e_below target) es)
     in if n < length es then on_entry b es n it' else \<not> block_Valid b it')"
proof -
  have num: "b_num_restarts b = length rs" "rs ! 0 = 0" "0 < length rs"
    using first_restart [OF blk] blk by (simp_all add: is_block_def)
  obtain j where j: "j < length rs" "c_loop (restart_round b cmp target) (0, length rs - 1) = Some (Some j)"
      "j = 0 \<or> e_below target (es ! (rs ! j))"
    using restart_search [OF blk, of 0 "length rs - 1" target] num by auto
  have r: "rs ! j \<le> length es" using blk nth_mem [OF j(1)] by (auto simp: is_block_def restarts_ok_def intro: less_imp_le)
  have before: "e_below target (es ! i)" if i: "i < rs ! j" for i
  proof -
    have "0 < j" using i num by (cases j) simp_all
    moreover have "rs ! j < length es" using blk nth_mem [OF j(1)] i by (auto simp: is_block_def restarts_ok_def)
    moreover from this have "key_less (e_key (es ! i)) (e_key (es ! (rs ! j)))"
      using sorted_wrt_nth_less [OF sorted, of i "rs ! j"] i by simp
    ultimately show ?thesis
      using j(3) i valid key_less_trans [of "e_key (es ! i)" "e_key (es ! (rs ! j))" target]
      by (simp add: e_below_def key_less_def)
  qed
  obtain it1 where it1: "SeekToRestartPoint b j it = Some it1" "at_entry es (rs ! j) it1" "it_restart_index it1 = j"
      "it_status it1 = it_status it"
    using seek_restart [OF blk j(1), of it] by auto
  have "it_restart_index it1 < length rs" using it1(3) j(1) by simp
  from seek_linear [OF blk it1(2) this r, of target] before it1(1,4) j(2) num(1)
  show ?thesis by (simp add: block_Seek_def)
qed

end

section \<open>What the builder builds\<close>

lemma common_prefix_le: "common_prefix a b \<le> length a" "common_prefix a b \<le> length b"
  by (induction a b rule: common_prefix.induct) auto

lemma take_common_prefix: "take (common_prefix a b) a = take (common_prefix a b) b"
  by (induction a b rule: common_prefix.induct) auto

definition built :: "block_builder \<Rightarrow> entry list \<Rightarrow> nat list \<Rightarrow> bool" where
  "built b es rs \<longleftrightarrow>
     entries_ok es \<and> restarts_ok es rs \<and> bb_buffer b = block_bytes es \<and>
     bb_restarts b = map (\<lambda>r. of_nat (e_offset es r)) rs \<and>
     bb_last_key b = (if es = [] then [] else e_key (last es)) \<and> (bb_counter b = 0 \<longleftrightarrow> es = [])"

lemma built_new: "built BlockBuilder [] [0]"
  by (simp add: built_def BlockBuilder_def entries_ok_def restarts_ok_def block_bytes_def)

lemma built_Reset: "built (builder_Reset b) [] [0]"
  by (simp add: built_def builder_Reset_def entries_ok_def restarts_ok_def block_bytes_def)

lemma entries_ok_snoc:
  assumes "entries_ok es" and "s \<le> length k" "length k < 2 ^ 32" "length v < 2 ^ 32"
    and "s \<noteq> 0 \<Longrightarrow> es \<noteq> [] \<and> s \<le> length (e_key (last es)) \<and> take s (e_key (last es)) = take s k"
  shows "entries_ok (es @ [(s, k, v)])"
proof -
  have "e_shared ((es @ [(s, k, v)]) ! i) \<noteq> 0 \<longrightarrow>
      0 < i \<and> e_shared ((es @ [(s, k, v)]) ! i) \<le> length (e_key ((es @ [(s, k, v)]) ! (i - 1))) \<and>
      take (e_shared ((es @ [(s, k, v)]) ! i)) (e_key ((es @ [(s, k, v)]) ! (i - 1))) =
      take (e_shared ((es @ [(s, k, v)]) ! i)) (e_key ((es @ [(s, k, v)]) ! i))" if "i \<le> length es" for i
  proof (cases "i < length es")
    case True
    then have "e_shared (es ! i) \<noteq> 0 \<longrightarrow> 0 < i \<and> e_shared (es ! i) \<le> length (e_key (es ! (i - 1))) \<and>
        take (e_shared (es ! i)) (e_key (es ! (i - 1))) = take (e_shared (es ! i)) (e_key (es ! i))"
      using assms(1) unfolding entries_ok_def by blast
    moreover have "i - 1 < length es" using True by simp
    ultimately show ?thesis using True by (simp add: nth_append)
  next
    case False
    then have "i = length es" using that by simp
    then show ?thesis using assms(5) by (auto simp: nth_append e_shared_def e_key_def last_conv_nth)
  qed
  then show ?thesis using assms(1-4) by (auto simp: entries_ok_def e_shared_def e_key_def e_value_def less_Suc_eq_le)
qed

lemma e_offset_append [simp]: "r \<le> length es \<Longrightarrow> e_offset (es @ es') r = e_offset es r"
  by (simp add: e_offset_def)

lemma built_Add:
  assumes b: "built b es rs" and interval: "1 \<le> interval" and fits: "length k < 2 ^ 32" "length v < 2 ^ 32"
  shows "\<exists>s rs'. built (builder_Add interval k v b) (es @ [(s, k, v)]) rs'"
proof -
  define restart where "restart = (\<not> bb_counter b < interval)"
  define s where "s = (if restart then 0 else common_prefix (bb_last_key b) k)"
  define rs' where "rs' = (if restart then rs @ [length es] else rs)"
  have ok: "entries_ok es" "bb_buffer b = block_bytes es" "bb_restarts b = map (\<lambda>r. of_nat (e_offset es r)) rs"
      "bb_last_key b = (if es = [] then [] else e_key (last es))"
    using b by (simp_all add: built_def)
  have s: "s \<le> length k" "take s (bb_last_key b) = take s k" "s \<le> length (bb_last_key b)"
    using common_prefix_le [of "bb_last_key b" k] take_common_prefix [of "bb_last_key b" k] by (simp_all add: s_def)
  have s0: "es \<noteq> [] \<and> s \<le> length (e_key (last es)) \<and> take s (e_key (last es)) = take s k" if "s \<noteq> 0"
    using s that ok(4) by (auto split: if_splits)
  have some: "es \<noteq> [] \<and> s = 0" if restart
    using that interval b by (auto simp: built_def restart_def s_def)
  have r: "\<forall>r \<in> set rs. r < length es \<or> r = 0" "\<forall>r \<in> set rs. r < length es \<longrightarrow> e_shared (es ! r) = 0"
      "rs \<noteq> []" "rs ! 0 = 0" "sorted_wrt (<) rs"
    using b by (simp_all add: built_def restarts_ok_def)
  have old: "r \<le> length es" if "r \<in> set rs" for r using r(1) that by auto
  have "e_shared ((es @ [(s, k, v)]) ! x) = 0" if x: "x \<in> set rs'" "x < Suc (length es)" for x
  proof (cases "x < length es")
    case True
    then show ?thesis using r(2) x by (auto simp: rs'_def nth_append split: if_splits)
  next
    case False
    then have "x = length es" using x by simp
    moreover have "s = 0" using s0 some r(1) x \<open>x = length es\<close> by (cases restart) (auto simp: rs'_def)
    ultimately show ?thesis by (simp add: e_shared_def)
  qed
  moreover have "sorted_wrt (<) rs'" using r some by (auto simp: rs'_def sorted_wrt_append)
  moreover have "\<forall>x \<in> set rs'. x < Suc (length es) \<or> x = 0" using r(1) by (auto simp: rs'_def)
  moreover have "rs' \<noteq> [] \<and> rs' ! 0 = 0" using r(3,4) by (simp add: rs'_def nth_append)
  ultimately have "restarts_ok (es @ [(s, k, v)]) rs'" by (simp add: restarts_ok_def)
  moreover have "entries_ok (es @ [(s, k, v)])" using entries_ok_snoc [OF ok(1) s(1) fits] s0 by blast
  moreover have "bb_restarts (builder_Add interval k v b) = map (\<lambda>x. of_nat (e_offset (es @ [(s, k, v)]) x)) rs'"
    using ok(2,3) old by (simp add: builder_Add_def Let_def rs'_def restart_def)
  moreover have "bb_buffer (builder_Add interval k v b) = block_bytes (es @ [(s, k, v)])"
    using ok(2) s(1) by (simp add: builder_Add_def Let_def PutVarint32_def block_bytes_append s_def restart_def
        del: of_nat_diff) (simp add: block_bytes_def del: of_nat_diff)
  moreover have "bb_last_key (builder_Add interval k v b) = k"
    using s(1,2) by (simp add: builder_Add_def Let_def s_def restart_def)
  moreover have "bb_counter (builder_Add interval k v b) \<noteq> 0" by (simp add: builder_Add_def Let_def)
  ultimately have "built (builder_Add interval k v b) (es @ [(s, k, v)]) rs'"
    by (simp add: built_def e_key_def)
  then show ?thesis by blast
qed

definition builder_entries :: "nat \<Rightarrow> (slice \<times> slice) list \<Rightarrow> block_builder \<Rightarrow> block_builder" where
  "builder_entries interval kvs b = fold (\<lambda>(k, v). builder_Add interval k v) kvs b"

lemma built_entries:
  assumes "built b es rs" and "1 \<le> interval" and "\<forall>(k, v) \<in> set kvs. length k < 2 ^ 32 \<and> length v < 2 ^ 32"
  shows "\<exists>es' rs'. built (builder_entries interval kvs b) es' rs' \<and> map snd es' = map snd es @ kvs"
  using assms(1,3)
proof (induction kvs arbitrary: b es rs)
  case (Cons kv kvs)
  obtain k v where kv: "kv = (k, v)" by (cases kv)
  obtain s rs' where "built (builder_Add interval k v b) (es @ [(s, k, v)]) rs'"
    using built_Add [OF Cons.prems(1) assms(2), of k v] Cons.prems(2) kv by auto
  from Cons.IH [OF this] Cons.prems(2) kv show ?case by (auto simp: builder_entries_def)
qed (auto simp: builder_entries_def)

lemma Finish_block:
  assumes b: "built b es rs" and size: "length (fst (builder_Finish b)) < 2 ^ 32"
  shows "\<exists>blk. NewIterator (fst (builder_Finish b)) = BlockIterator blk \<and> is_block blk es rs"
proof -
  define xs :: "u32 list" where "xs = map (\<lambda>r. of_nat (e_offset es r)) rs"
  let ?c = "block_bytes es @ concat (map EncodeFixed32 xs) @ EncodeFixed32 (of_nat (length rs))"
  have c: "fst (builder_Finish b) = ?c"
    using b by (simp add: builder_Finish_def built_def fold_PutFixed32 Let_def xs_def, simp add: PutFixed32_def)
  have lxs: "length xs = length rs" by (simp add: xs_def)
  have len: "length ?c = length (block_bytes es) + 4 * length rs + 4" by (simp add: length_fixed lxs)
  have L: "length (block_bytes es) < 2 ^ 32" "length rs < 2 ^ 32" using size unfolding c len by simp_all
  have num: "NumRestarts ?c = length rs"
    using DecodeFixed32_Encode [of "of_nat (length rs)" "[]"] L len
    by (simp add: NumRestarts_def length_fixed lxs unat_of_nat take_bit_nat_eq_self)
  have off: "Block_restart_offset ?c = length (block_bytes es)"
  proof -
    have "(of_nat (length ?c) :: u32) = of_nat (length (block_bytes es)) + (1 + of_nat (length rs)) * 4"
      unfolding len by simp
    then have "Block_restart_offset ?c = unat (of_nat (length (block_bytes es)) :: u32)"
      unfolding Block_restart_offset_def num by simp
    with L show ?thesis by (simp add: unat_of_nat take_bit_nat_eq_self)
  qed
  let ?b = "\<lparr>b_data = ?c, b_restarts = length (block_bytes es), b_num_restarts = length rs\<rparr>"
  have rs: "rs \<noteq> []" using b by (simp add: built_def restarts_ok_def)
  have "NewIterator ?c = BlockIterator ?b"
    using rs by (simp add: NewIterator_def Block_size_def num off length_fixed lxs)
  moreover have "GetRestartPoint ?b j = Some (e_offset es (rs ! j))" if j: "j < length rs" for j
  proof -
    obtain rest where "drop (j * 4) (concat (map EncodeFixed32 xs) @ EncodeFixed32 (of_nat (length rs))) =
        EncodeFixed32 (xs ! j) @ rest"
      using drop_fixed [of j xs "EncodeFixed32 (of_nat (length rs))"] j unfolding lxs by blast
    moreover have "rs ! j \<le> length es"
      using b nth_mem [of j rs] j by (auto simp: built_def restarts_ok_def intro: less_imp_le)
    then have "e_offset es (rs ! j) < 2 ^ 32" using e_offset_le [of "rs ! j" "length es" es] L by simp
    ultimately show ?thesis
      using j by (simp add: GetRestartPoint_def xs_def unat_of_nat take_bit_nat_eq_self)
  qed
  ultimately show ?thesis using b L by (auto simp: c is_block_def built_def)
qed

section \<open>What readers get\<close>

definition block_of :: "nat \<Rightarrow> (slice \<times> slice) list \<Rightarrow> slice" where
  "block_of interval kvs = fst (builder_Finish (builder_entries interval kvs BlockBuilder))"

lemma block_of_entries:
  assumes "1 \<le> interval" and "\<forall>(k, v) \<in> set kvs. length k < 2 ^ 32 \<and> length v < 2 ^ 32"
    and "length (block_of interval kvs) < 2 ^ 32"
  obtains b es rs where "NewIterator (block_of interval kvs) = BlockIterator b" and "is_block b es rs" and "map snd es = kvs"
proof -
  obtain es rs where built: "built (builder_entries interval kvs BlockBuilder) es rs" "map snd es = kvs"
    using built_entries [OF built_new assms(1,2)] by auto
  with Finish_block [OF built(1)] assms(3) that show thesis by (auto simp: block_of_def)
qed

text \<open>C15: a block holds what was put into it: a block built from keys and values, with any restart
  interval and however much the keys share, opens, and reading it from its first entry to the end
  gives exactly these keys and values in order, with status \<open>OK\<close>.\<close>

theorem block_roundtrip:
  assumes "1 \<le> interval" and "\<forall>(k, v) \<in> set kvs. length k < 2 ^ 32 \<and> length v < 2 ^ 32"
    and "length (block_of interval kvs) < 2 ^ 32"
  shows "\<exists>b it. NewIterator (block_of interval kvs) = BlockIterator b \<and> scan_block b = Some (kvs, it) \<and> it_status it = OK"
proof -
  obtain b es rs where "NewIterator (block_of interval kvs) = BlockIterator b" "is_block b es rs" "map snd es = kvs"
    using block_of_entries [OF assms] by blast
  with scan_entries show ?thesis by blast
qed

lemma small_block: "length (block_of 2 [([1, 2], [7]), ([1, 2, 3], []), ([1, 3], [8, 9])]) < 2 ^ 32"
  by (simp add: block_of_def builder_entries_def builder_Finish_def builder_Add_def BlockBuilder_def PutVarint32_def
      PutFixed32_def EncodeVarint32_def Let_def)

lemma block_roundtrip_witness:
  "\<exists>b it. NewIterator (block_of 2 [([1, 2], [7]), ([1, 2, 3], []), ([1, 3], [8, 9])]) = BlockIterator b \<and>
    scan_block b = Some ([([1, 2], [7]), ([1, 2, 3], []), ([1, 3], [8, 9])], it) \<and> it_status it = OK"
  by (rule block_roundtrip [OF _ _ small_block]) simp_all

text \<open>What \<open>Seek\<close> finds, for any order of keys.\<close>

context key_order
begin

lemma Seek_block_of:
  assumes "1 \<le> interval" and "\<forall>(k, v) \<in> set kvs. length k < 2 ^ 32 \<and> length v < 2 ^ 32"
    and "length (block_of interval kvs) < 2 ^ 32" and "NewIterator (block_of interval kvs) = BlockIterator b"
    and "\<forall>k \<in> set (map fst kvs). valid k" and "sorted_wrt key_less (map fst kvs)" and "valid target"
    and "below = (\<lambda>(k, v). cmp_Compare cmp k target < 0)"
  shows "\<exists>it. block_Seek b cmp target (block_Iter b) = Some it \<and> it_status it = OK \<and>
    (case dropWhile below kvs of
       [] \<Rightarrow> \<not> block_Valid b it
     | (k, v) # _ \<Rightarrow> block_Valid b it \<and> it_key it = k \<and> block_value b it = Some v)"
proof -
  obtain b' es rs where blk': "NewIterator (block_of interval kvs) = BlockIterator b'" "is_block b' es rs" "map snd es = kvs"
    using block_of_entries [OF assms(1-3)] by blast
  then have blk: "is_block b es rs" using assms(4) by simp
  have keys: "map e_key es = map fst kvs" using blk'(3) by (auto simp: e_key_def)
  have "\<forall>e \<in> set es. valid (e_key e)" using assms(5) unfolding keys [symmetric] by simp
  moreover have "sorted_wrt key_less (map e_key es)" using assms(6) unfolding keys .
  ultimately obtain it where it: "block_Seek b cmp target (block_Iter b) = Some it" "it_status it = OK"
      "let n = length (takeWhile (e_below target) es) in if n < length es then on_entry b es n it else \<not> block_Valid b it"
    using Seek_entries [OF blk, of target "block_Iter b"] assms(7) by (auto simp: block_Iter_def)
  have below: "e_below target = below \<circ> snd" unfolding e_below_def [abs_def] by (auto simp: assms(8) e_key_def)
  let ?n = "length (takeWhile below kvs)"
  have n: "length (takeWhile (e_below target) es) = ?n" "length es = length kvs"
    unfolding below blk'(3) [symmetric] by (simp_all add: takeWhile_map)
  have split: "dropWhile below kvs = drop ?n kvs" by (simp add: dropWhile_eq_drop)
  show ?thesis
  proof (cases "?n < length kvs")
    case True
    then have on: "on_entry b es ?n it" using it(3) n by simp
    obtain k v where kv: "kvs ! ?n = (k, v)" by (cases "kvs ! ?n")
    have "snd (es ! ?n) = (k, v)" using kv True n(2) blk'(3) by (metis nth_map)
    moreover have "dropWhile below kvs = (k, v) # drop (Suc ?n) kvs"
      using True kv by (simp add: split Cons_nth_drop_Suc [symmetric])
    ultimately show ?thesis
      using it(1,2) on on_entry_valid [OF blk on] by (simp add: on_entry_def e_key_def e_value_def)
  next
    case False
    then have none: "dropWhile below kvs = []" by (simp add: split)
    show ?thesis unfolding none using it n False by simp
  qed
qed

end

text \<open>C16: \<open>Seek\<close> finds: in a block whose keys are in order, the binary search over the restart points
  and the search that follows stop at the first entry whose key is not below the target, with its key
  and value, or make the iterator invalid when there is none.\<close>

theorem block_seek_correct:
  assumes "1 \<le> interval" and "\<forall>(k, v) \<in> set kvs. length k < 2 ^ 32 \<and> length v < 2 ^ 32"
    and "length (block_of interval kvs) < 2 ^ 32" and "NewIterator (block_of interval kvs) = BlockIterator b"
    and "\<forall>k \<in> set (map fst kvs). internal_key_ok k"
    and "sorted_wrt (\<lambda>k k'. InternalCompare BytewiseComparator k k' < 0) (map fst kvs)"
    and "internal_key_ok target"
    and "below = (\<lambda>(k, v). InternalCompare BytewiseComparator k target < 0)"
  shows "\<exists>it. block_Seek b (InternalKeyComparator BytewiseComparator) target (block_Iter b) = Some it \<and> it_status it = OK \<and>
    (case dropWhile below kvs of
       [] \<Rightarrow> \<not> block_Valid b it
     | (k, v) # _ \<Rightarrow> block_Valid b it \<and> it_key it = k \<and> block_value b it = Some v)"
proof -
  have "sorted_wrt internal.key_less (map fst kvs)"
    using assms(6) unfolding internal.key_less_def [abs_def] by (simp add: InternalKeyComparator_def)
  moreover have "below = (\<lambda>(k, v). cmp_Compare (InternalKeyComparator BytewiseComparator) k target < 0)"
    by (simp add: assms(8) InternalKeyComparator_def)
  ultimately show ?thesis using internal.Seek_block_of [OF assms(1-4)] assms(5,7) by simp
qed

lemma block_seek_correct_witness:
  "\<exists>b it. NewIterator (block_of 1 [(InternalKey [1] 9 kTypeValue, [7]), (InternalKey [3] 4 kTypeValue, [8])]) = BlockIterator b \<and>
    block_Seek b (InternalKeyComparator BytewiseComparator) (InternalKey [2] 5 kTypeValue) (block_Iter b) = Some it \<and>
    it_key it = InternalKey [3] 4 kTypeValue \<and> block_value b it = Some [8]"
proof -
  let ?kvs = "[(InternalKey [1] 9 kTypeValue, [7]), (InternalKey [3] 4 kTypeValue, [8])]"
  have fits: "\<forall>(k, v) \<in> set ?kvs. length k < 2 ^ 32 \<and> length v < 2 ^ 32"
    by (simp add: InternalKey_def AppendInternalKey_split)
  have size: "length (block_of 1 ?kvs) < 2 ^ 32"
    by (simp add: block_of_def builder_entries_def builder_Finish_def builder_Add_def BlockBuilder_def PutVarint32_def
        PutFixed32_def EncodeVarint32_def InternalKey_def AppendInternalKey_split Let_def)
  obtain b where b: "NewIterator (block_of 1 ?kvs) = BlockIterator b" using block_of_entries [OF _ fits size] by auto
  from block_seek_correct [OF _ fits size b _ _ _ refl, of "InternalKey [2] 5 kTypeValue"]
  show ?thesis using b by (auto simp: InternalCompare_def BytewiseComparator_def)
qed

text \<open>Going back is the reverse of going forward: from the last entry of a block, \<open>Prev\<close> visits the
  entries in reverse order and then makes the iterator invalid.\<close>

theorem block_backwards:
  assumes "1 \<le> interval" and "\<forall>(k, v) \<in> set kvs. length k < 2 ^ 32 \<and> length v < 2 ^ 32"
    and "length (block_of interval kvs) < 2 ^ 32"
  shows "\<exists>b it. NewIterator (block_of interval kvs) = BlockIterator b \<and>
    scan_block_back b = Some (rev kvs, it) \<and> it_status it = OK"
proof -
  obtain b es rs where "NewIterator (block_of interval kvs) = BlockIterator b" "is_block b es rs" "map snd es = kvs"
    using block_of_entries [OF assms] by blast
  with scan_back_entries show ?thesis by blast
qed

lemma block_backwards_witness:
  "\<exists>b it. NewIterator (block_of 2 [([1, 2], [7]), ([1, 2, 3], []), ([1, 3], [8, 9])]) = BlockIterator b \<and>
    scan_block_back b = Some (rev [([1, 2], [7]), ([1, 2, 3], []), ([1, 3], [8, 9])], it) \<and> it_status it = OK"
  by (rule block_backwards [OF _ _ small_block]) simp_all


end

