(* ===== verification/Ldb_Table_Spec.thy ===== *)
theory Ldb_Table_Spec
  imports Ldb_Table_Builder Ldb_Block_Props
begin

text \<open>
  What the table builder writes. The entries are cut into blocks; the file holds the stored blocks, the
  filter block, the metaindex block, the index block and the footer. \<open>laid_out\<close> relates a builder to
  the blocks it has written and the entries that wait; every operation keeps it, for every
  \<open>writable_file\<close>.
\<close>

section \<open>The layout\<close>

definition file_block :: "Options \<Rightarrow> Snappy \<Rightarrow> slice \<Rightarrow> slice" where
  "file_block opts sn raw = (case compress_block sn (op_compression opts) raw of (data, t) \<Rightarrow> stored_block t data)"

definition block_handle :: "Options \<Rightarrow> Snappy \<Rightarrow> slice \<Rightarrow> slice \<Rightarrow> BlockHandle" where
  "block_handle opts sn before raw =
     \<lparr>bh_offset = of_nat (length before), bh_size = of_nat (length (fst (compress_block sn (op_compression opts) raw)))\<rparr>"

definition raw_block :: "Options \<Rightarrow> (slice \<times> slice) list \<Rightarrow> slice" where
  "raw_block opts d = block_of (op_block_restart_interval opts) d"

definition data_bytes :: "Options \<Rightarrow> Snappy \<Rightarrow> (slice \<times> slice) list list \<Rightarrow> slice" where
  "data_bytes opts sn ds = concat (map (\<lambda>d. file_block opts sn (raw_block opts d)) ds)"

definition handle_of :: "Options \<Rightarrow> Snappy \<Rightarrow> (slice \<times> slice) list list \<Rightarrow> nat \<Rightarrow> BlockHandle" where
  "handle_of opts sn ds i = block_handle opts sn (data_bytes opts sn (take i ds)) (raw_block opts (ds ! i))"

definition index_entries :: "Options \<Rightarrow> Snappy \<Rightarrow> (slice \<times> slice) list list \<Rightarrow> slice list \<Rightarrow> (slice \<times> slice) list" where
  "index_entries opts sn ds seps =
     zip seps (map (\<lambda>i. handle_EncodeTo (handle_of opts sn ds i) []) [0..<length ds])"

definition filter_blocks ::
  "Options \<Rightarrow> Snappy \<Rightarrow> (slice \<times> slice) list list \<Rightarrow> (slice \<times> slice) list \<Rightarrow> (nat \<times> slice list) list"
where
  "filter_blocks opts sn ds cur =
     map (\<lambda>i. (unat (of_nat (length (data_bytes opts sn (take i ds))) :: u64), map fst (ds ! i))) [0..<length ds] @
     [(unat (of_nat (length (data_bytes opts sn ds)) :: u64), map fst cur)]"

definition last_key_of :: "(slice \<times> slice) list \<Rightarrow> slice" where
  "last_key_of kvs = (if kvs = [] then [] else fst (last kvs))"

text \<open>The filter block and the entry of the metaindex block that names it.\<close>

definition meta_part ::
  "Options \<Rightarrow> Snappy \<Rightarrow> (slice \<times> slice) list list \<Rightarrow> slice \<times> (slice \<times> slice) list"
where
  "meta_part opts sn ds =
     (case op_filter_policy opts of
        None \<Rightarrow> ([], [])
      | Some policy \<Rightarrow>
          let contents = filter_block policy (filter_blocks opts sn ds [])
          in (stored_block kNoCompression contents,
              [(string_bytes ''filter.'' @ fp_Name policy,
                handle_EncodeTo \<lparr>bh_offset = of_nat (length (data_bytes opts sn ds)), bh_size = of_nat (length contents)\<rparr> [])]))"

definition meta_raw :: "Options \<Rightarrow> Snappy \<Rightarrow> (slice \<times> slice) list list \<Rightarrow> slice" where
  "meta_raw opts sn ds = raw_block opts (snd (meta_part opts sn ds))"

definition before_meta :: "Options \<Rightarrow> Snappy \<Rightarrow> (slice \<times> slice) list list \<Rightarrow> slice" where
  "before_meta opts sn ds = data_bytes opts sn ds @ fst (meta_part opts sn ds)"

definition before_index :: "Options \<Rightarrow> Snappy \<Rightarrow> (slice \<times> slice) list list \<Rightarrow> slice" where
  "before_index opts sn ds = before_meta opts sn ds @ file_block opts sn (meta_raw opts sn ds)"

definition index_raw :: "Options \<Rightarrow> Snappy \<Rightarrow> (slice \<times> slice) list list \<Rightarrow> slice list \<Rightarrow> slice" where
  "index_raw opts sn ds seps = block_of 1 (index_entries opts sn ds seps)"

definition table_footer :: "Options \<Rightarrow> Snappy \<Rightarrow> (slice \<times> slice) list list \<Rightarrow> slice list \<Rightarrow> Footer" where
  "table_footer opts sn ds seps =
     \<lparr>ft_metaindex = block_handle opts sn (before_meta opts sn ds) (meta_raw opts sn ds),
      ft_index = block_handle opts sn (before_index opts sn ds) (index_raw opts sn ds seps)\<rparr>"

definition table_bytes :: "Options \<Rightarrow> Snappy \<Rightarrow> (slice \<times> slice) list list \<Rightarrow> slice list \<Rightarrow> slice" where
  "table_bytes opts sn ds seps =
     before_index opts sn ds @ file_block opts sn (index_raw opts sn ds seps) @
     footer_EncodeTo (table_footer opts sn ds seps) []"

text \<open>The keys of the index, for blocks that are followed by the entries \<open>rest\<close>.\<close>

definition seps_between :: "Comparator \<Rightarrow> (slice \<times> slice) list list \<Rightarrow> (slice \<times> slice) list \<Rightarrow> slice list \<Rightarrow> bool" where
  "seps_between cmp ds cur seps \<longleftrightarrow>
     (\<forall>i < length seps. concat (drop (Suc i) ds) @ cur \<noteq> [] \<and>
        seps ! i = cmp_FindShortestSeparator cmp (fst (last (ds ! i))) (fst (hd (concat (drop (Suc i) ds) @ cur))))"

definition index_keys :: "Comparator \<Rightarrow> (slice \<times> slice) list list \<Rightarrow> slice list \<Rightarrow> bool" where
  "index_keys cmp ds seps \<longleftrightarrow> length seps = length ds \<and>
     (\<forall>i < length ds. seps ! i =
        (if Suc i < length ds then cmp_FindShortestSeparator cmp (fst (last (ds ! i))) (fst (hd (ds ! Suc i)))
         else cmp_FindShortSuccessor cmp (fst (last (ds ! i)))))"

text \<open>Adding a list of entries.\<close>

primrec table_add_all :: "'f build_env \<Rightarrow> (slice \<times> slice) list \<Rightarrow> 'f table_builder \<Rightarrow> 'f table_builder option" where
  "table_add_all env [] r = Some r"
| "table_add_all env (kv # kvs) r = do { r \<leftarrow> table_Add env (fst kv) (snd kv) r; table_add_all env kvs r }"

section \<open>Building blocks\<close>

lemma builder_entries_simps [simp]:
  "builder_entries n [] b = b"
  "builder_entries n (kvs @ [(k, v)]) b = builder_Add n k v (builder_entries n kvs b)"
  by (simp_all add: builder_entries_def)

lemma Add_not_empty: "\<not> builder_empty (builder_Add n k v b)"
  by (simp add: builder_empty_def builder_Add_def PutVarint32_def EncodeVarint32_def Let_def)

lemma builder_empty_iff: "builder_empty (builder_entries n kvs BlockBuilder) \<longleftrightarrow> kvs = []"
  by (cases kvs rule: rev_cases) (auto simp: Add_not_empty, simp add: builder_empty_def BlockBuilder_def)

lemma Reset_new [simp]: "builder_Reset b = BlockBuilder"
  by (simp add: builder_Reset_def BlockBuilder_def)

lemma data_bytes_simps [simp]:
  "data_bytes opts sn [] = []"
  "data_bytes opts sn (ds @ [d]) = data_bytes opts sn ds @ file_block opts sn (raw_block opts d)"
  by (simp_all add: data_bytes_def)

lemma handle_of_append: "i < length ds \<Longrightarrow> handle_of opts sn (ds @ [d]) i = handle_of opts sn ds i"
  by (simp add: handle_of_def nth_append)

lemma index_entries_append:
  "length seps \<le> length ds \<Longrightarrow> index_entries opts sn (ds @ [d]) seps = index_entries opts sn ds seps"
proof -
  have "map (\<lambda>i. handle_EncodeTo (handle_of opts sn (ds @ [d]) i) []) [0..<length ds] =
      map (\<lambda>i. handle_EncodeTo (handle_of opts sn ds i) []) [0..<length ds]"
    by (simp add: handle_of_append)
  then show "length seps \<le> length ds \<Longrightarrow> ?thesis" by (simp add: index_entries_def zip_append2 del: map_eq_conv)
qed

lemma index_entries_next:
  "Suc (length seps) = length ds \<Longrightarrow> index_entries opts sn ds (seps @ [s]) =
    index_entries opts sn ds seps @ [(s, handle_EncodeTo (handle_of opts sn ds (length ds - 1)) [])]"
  by (cases ds rule: rev_cases) (simp_all add: index_entries_def zip_append2)

lemma filter_blocks_append:
  "filter_blocks opts sn (ds @ [d]) [] =
    filter_blocks opts sn ds d @ [(unat (of_nat (length (data_bytes opts sn (ds @ [d]))) :: u64), [])]"
  by (simp add: filter_blocks_def nth_append cong: map_cong)

lemma add_filter_key:
  "fold (add_block policy) (filter_blocks opts sn ds (cur @ [(k, v)])) b =
    filter_AddKey k (fold (add_block policy) (filter_blocks opts sn ds cur) b)"
  by (simp add: filter_blocks_def add_block_def)

lemma start_filter_block:
  "fold (add_block policy) (blks @ [(n, [])]) b = StartBlock policy n (fold (add_block policy) blks b)"
  by (simp add: add_block_def)


lemma seps_between_block:
  "length seps \<le> length ds \<Longrightarrow> seps_between cmp ds cur seps \<Longrightarrow> seps_between cmp (ds @ [cur]) [] seps"
  by (simp add: seps_between_def nth_append)

lemma seps_between_entry:
  "seps_between cmp ds cur seps \<Longrightarrow> seps_between cmp ds (cur @ [e]) seps"
  by (auto simp: seps_between_def hd_append)

lemma no_index_keys: "seps_between cmp ds [] seps \<Longrightarrow> length seps = length ds \<Longrightarrow> ds = []"
proof (cases ds rule: rev_cases)
  case (snoc ds1 d)
  assume "seps_between cmp ds [] seps" "length seps = length ds"
  then have "concat (drop (Suc (length ds1)) ds) \<noteq> []" using snoc by (auto simp: seps_between_def)
  then show ?thesis using snoc by simp
qed simp

lemma index_keys_last:
  assumes n: "length ds = Suc (length seps)" and between: "seps_between cmp ds [] seps" and filled: "\<forall>d \<in> set ds. d \<noteq> []"
  shows "index_keys cmp ds (seps @ [cmp_FindShortSuccessor cmp (last_key_of (concat ds))])"
proof -
  have first: "hd (concat (drop (Suc i) ds)) = hd (ds ! Suc i)" if "Suc i < length ds" for i
    using that filled by (auto simp: Cons_nth_drop_Suc [symmetric] hd_append)
  obtain ds1 d where d: "ds = ds1 @ [d]" "length ds1 = length seps" using n by (cases ds rule: rev_cases) auto
  then have "last_key_of (concat ds) = fst (last d)" using filled by (auto simp: last_key_of_def)
  moreover have "seps ! i = cmp_FindShortestSeparator cmp (fst (last (ds ! i))) (fst (hd (ds ! Suc i)))" if "i < length seps" for i
    using that between first [of i] n by (simp add: seps_between_def)
  ultimately show ?thesis using n d by (auto simp: index_keys_def nth_append less_Suc_eq)
qed

section \<open>The builder writes the layout\<close>

context writable_file
begin

definition env :: "crc_env \<Rightarrow> Snappy \<Rightarrow> 'f build_env" where
  "env ce sn = \<lparr>be_crc = ce, be_snappy = sn, be_append = append, be_flush = flush\<rparr>"

text \<open>A builder in order: its file has the bytes \<open>bytes\<close>.\<close>

definition writes :: "'f table_builder \<Rightarrow> slice \<Rightarrow> bool" where
  "writes r bytes \<longleftrightarrow> tb_status r = OK \<and> good (tb_file r) \<and> contents (tb_file r) = bytes \<and> tb_offset r = of_nat (length bytes)"

definition set_file :: "'f \<Rightarrow> slice \<Rightarrow> 'f table_builder \<Rightarrow> 'f table_builder" where
  "set_file f bytes r = r\<lparr>tb_file := f, tb_status := OK, tb_offset := of_nat (length bytes)\<rparr>"

lemma writes_set_file: "good f \<Longrightarrow> contents f = bytes \<Longrightarrow> writes (set_file f bytes r) bytes"
  by (simp add: writes_def set_file_def)

lemma set_file_simps [simp]:
  "tb_options (set_file f bytes r) = tb_options r" "tb_data_block (set_file f bytes r) = tb_data_block r"
  "tb_index_block (set_file f bytes r) = tb_index_block r" "tb_last_key (set_file f bytes r) = tb_last_key r"
  "tb_filter (set_file f bytes r) = tb_filter r" "tb_pending_handle (set_file f bytes r) = tb_pending_handle r"
  "tb_pending_index_entry (set_file f bytes r) = tb_pending_index_entry r" "tb_status (set_file f bytes r) = OK"
  "tb_offset (set_file f bytes r) = of_nat (length bytes)" "tb_file (set_file f bytes r) = f"
  by (simp_all add: set_file_def)

lemma WriteRawBlock_good:
  assumes "writes r bytes" and "accel_ok (ce_accel ce)"
  shows "\<exists>f. WriteRawBlock (env ce sn) data t r = Some (\<lparr>bh_offset = of_nat (length bytes), bh_size = of_nat (length data)\<rparr>,
      set_file f (bytes @ stored_block t data) r) \<and> good f \<and> contents f = bytes @ stored_block t data"
proof -
  obtain f1 where f1: "append data (tb_file r) = Some (OK, f1)" "good f1" "contents f1 = bytes @ data"
    using append_good [of "tb_file r" data] assms(1) by (auto simp: writes_def)
  let ?trailer = "compression_code t # EncodeFixed32 (Mask (crc32c 0 (data @ [compression_code t])))"
  obtain f2 where f2: "append ?trailer f1 = Some (OK, f2)" "good f2" "contents f2 = bytes @ stored_block t data"
    using append_good [OF f1(2), of ?trailer] f1(3) by (auto simp: stored_block_def)
  have "be_append (env ce sn) = append" "be_crc (env ce sn) = ce" by (simp_all add: env_def)
  then show ?thesis
    using assms f1 f2
    by (intro exI [of _ f2])
      (simp add: WriteRawBlock_def Let_def crc_values [OF assms(2)] crc32c_append writes_def set_file_def algebra_simps)
qed

lemma WriteBlock_good:
  assumes "writes r bytes" and "accel_ok (ce_accel ce)" and "fst (builder_Finish b) = raw" and "tb_options r = opts"
  shows "\<exists>f. WriteBlock (env ce sn) b r = Some (BlockBuilder, block_handle opts sn bytes raw,
      set_file f (bytes @ file_block opts sn raw) r) \<and> good f \<and> contents f = bytes @ file_block opts sn raw"
proof -
  obtain data t where c: "compress_block sn (op_compression opts) raw = (data, t)" by force
  have "be_snappy (env ce sn) = sn" by (simp add: env_def)
  then show ?thesis
    using WriteRawBlock_good [OF assms(1,2), of sn data t] assms(3,4) c
    by (auto simp: WriteBlock_def block_handle_def file_block_def split_beta Let_def)
qed

definition laid_out ::
  "Options \<Rightarrow> Snappy \<Rightarrow> (slice \<times> slice) list list \<Rightarrow> slice list \<Rightarrow> (slice \<times> slice) list \<Rightarrow> 'f table_builder \<Rightarrow> bool"
where
  "laid_out opts sn ds seps cur r \<longleftrightarrow>
     writes r (data_bytes opts sn ds) \<and> tb_options r = opts \<and>
     tb_data_block r = builder_entries (op_block_restart_interval opts) cur BlockBuilder \<and>
     tb_index_block r = builder_entries 1 (index_entries opts sn ds seps) BlockBuilder \<and>
     tb_last_key r = last_key_of (concat ds @ cur) \<and>
     tb_filter r = map_option (\<lambda>p. (p, fold (add_block p) (filter_blocks opts sn ds cur) FilterBlockBuilder))
       (op_filter_policy opts) \<and>
     (if tb_pending_index_entry r
      then cur = [] \<and> length ds = Suc (length seps) \<and> tb_pending_handle r = handle_of opts sn ds (length ds - 1)
      else length seps = length ds) \<and>
     (\<forall>d \<in> set ds. d \<noteq> []) \<and> seps_between (op_comparator opts) ds cur seps"

lemma new_table: "good f \<Longrightarrow> contents f = [] \<Longrightarrow> laid_out opts sn [] [] [] (TableBuilder opts f)"
  by (simp add: laid_out_def TableBuilder_def writes_def index_entries_def last_key_of_def seps_between_def
      filter_blocks_def add_block_def option.map_comp)

lemma Flush_laid_out:
  assumes r: "laid_out opts sn ds seps cur r" and accel: "accel_ok (ce_accel ce)" and cur: "cur \<noteq> []"
  shows "\<exists>r'. table_Flush (env ce sn) r = Some r' \<and> laid_out opts sn (ds @ [cur]) seps [] r' \<and> tb_pending_index_entry r'"
proof -
  let ?raw = "raw_block opts cur" and ?bytes = "data_bytes opts sn ds"
  have w: "writes r ?bytes" and opts: "tb_options r = opts"
    and block: "fst (builder_Finish (tb_data_block r)) = ?raw" "\<not> builder_empty (tb_data_block r)"
    using r cur by (simp_all add: laid_out_def raw_block_def block_of_def builder_empty_iff)
  obtain f where f: "WriteBlock (env ce sn) (tb_data_block r) r = Some (BlockBuilder, block_handle opts sn ?bytes ?raw,
      set_file f (?bytes @ file_block opts sn ?raw) r)" "good f" "contents f = ?bytes @ file_block opts sn ?raw"
    using WriteBlock_good [OF w accel block(1) opts] by blast
  obtain f2 where f2: "flush f = Some (OK, f2)" "good f2" "contents f2 = contents f" using flush_good [OF f(2)] by blast
  define r1 where "r1 = (set_file f2 (?bytes @ file_block opts sn ?raw) r)\<lparr>tb_data_block := BlockBuilder,
      tb_pending_handle := block_handle opts sn ?bytes ?raw, tb_pending_index_entry := True\<rparr>"
  define r2 where "r2 = r1\<lparr>tb_filter := map_option (\<lambda>(policy, b). (policy, StartBlock policy (unat (tb_offset r1)) b)) (tb_filter r1)\<rparr>"
  have "be_flush (env ce sn) = flush" by (simp add: env_def)
  then have "table_Flush (env ce sn) r = Some r2"
    using f(1) f2(1) block(2) w by (simp add: table_Flush_def builder_ok_def writes_def Let_def r2_def r1_def set_file_def)
  moreover have "laid_out opts sn (ds @ [cur]) seps [] r2"
  proof -
    have n: "length seps = length ds" "\<forall>d \<in> set ds. d \<noteq> []" "seps_between (op_comparator opts) ds cur seps"
      using r cur by (auto simp: laid_out_def split: if_split_asm)
    have "writes r2 (data_bytes opts sn (ds @ [cur]))"
      using f(2,3) f2 by (simp add: r2_def r1_def writes_def set_file_def)
    moreover have "tb_filter r2 = map_option (\<lambda>p. (p, fold (add_block p) (filter_blocks opts sn (ds @ [cur]) []) FilterBlockBuilder))
       (op_filter_policy opts)"
      using r unfolding filter_blocks_append start_filter_block
      by (simp add: laid_out_def r2_def r1_def option.map_comp comp_def)
    moreover have "handle_of opts sn (ds @ [cur]) (length ds) = block_handle opts sn ?bytes ?raw"
      by (simp add: handle_of_def)
    ultimately show ?thesis
      using r n cur unfolding laid_out_def by (simp add: r2_def r1_def index_entries_append seps_between_block)
  qed
  moreover have "tb_pending_index_entry r2" by (simp add: r2_def r1_def)
  ultimately show ?thesis by blast
qed

lemma index_entry_laid_out:
  assumes r: "laid_out opts sn ds seps [] r" and pending: "tb_pending_index_entry r"
  shows "tb_index_block (add_index_entry s r) = builder_entries 1 (index_entries opts sn ds (seps @ [s])) BlockBuilder"
proof -
  have "length ds = Suc (length seps)" using r pending by (simp add: laid_out_def)
  then have "index_entries opts sn ds (seps @ [s]) =
      index_entries opts sn ds seps @ [(s, handle_EncodeTo (handle_of opts sn ds (length ds - 1)) [])]"
    by (simp add: index_entries_next)
  then show ?thesis using r pending by (simp add: laid_out_def add_index_entry_def Let_def)
qed

lemma Add_laid_out:
  assumes r: "laid_out opts sn ds seps cur r" and accel: "accel_ok (ce_accel ce)"
  shows "\<exists>r' ds' seps' cur'. table_Add (env ce sn) k v r = Some r' \<and> laid_out opts sn ds' seps' cur' r' \<and>
    concat ds' @ cur' = concat ds @ cur @ [(k, v)]"
proof -
  define s where "s = cmp_FindShortestSeparator (op_comparator opts) (tb_last_key r) k"
  define r1 where "r1 = (if tb_pending_index_entry r then add_index_entry s r else r)"
  define seps1 where "seps1 = (if tb_pending_index_entry r then seps @ [s] else seps)"
  define r2 where "r2 = r1\<lparr>tb_filter := map_option (\<lambda>(policy, b). (policy, filter_AddKey k b)) (tb_filter r1),
    tb_last_key := k, tb_num_entries := tb_num_entries r1 + 1,
    tb_data_block := builder_Add (op_block_restart_interval opts) k v (tb_data_block r1)\<rparr>"
  have opts: "tb_options r = opts" "tb_options r1 = opts" "builder_ok r"
    using r by (auto simp: laid_out_def r1_def add_index_entry_def Let_def builder_ok_def writes_def)
  have add: "table_Add (env ce sn) k v r =
      (if CurrentSizeEstimate (tb_data_block r2) \<ge> op_block_size opts then table_Flush (env ce sn) r2 else Some r2)"
    using opts by (simp add: table_Add_def Let_def r2_def r1_def s_def add_index_entry_def)
  have "laid_out opts sn ds seps1 (cur @ [(k, v)]) r2"
  proof -
    have "seps_between (op_comparator opts) ds (cur @ [(k, v)]) seps1"
    proof (cases "tb_pending_index_entry r")
      case True
      then have p: "cur = []" "length ds = Suc (length seps)" "seps_between (op_comparator opts) ds [] seps" "\<forall>d \<in> set ds. d \<noteq> []"
        "tb_last_key r = last_key_of (concat ds)"
        using r by (auto simp: laid_out_def)
      have "seps_between (op_comparator opts) ds [(k, v)] seps" using seps_between_entry [OF p(3), of "(k, v)"] by simp
      moreover obtain ds1 d where d: "ds = ds1 @ [d]" "length ds1 = length seps" using p(2) by (cases ds rule: rev_cases) auto
      moreover have "last_key_of (concat ds) = fst (last d)" using d p(4) by (auto simp: last_key_of_def)
      ultimately show ?thesis using p True
        by (auto simp: seps_between_def seps1_def s_def nth_append less_Suc_eq)
    next
      case False
      then show ?thesis using r seps_between_entry by (auto simp: laid_out_def seps1_def)
    qed
    moreover have "tb_index_block r1 = builder_entries 1 (index_entries opts sn ds seps1) BlockBuilder"
    proof (cases "tb_pending_index_entry r")
      case True
      then have "cur = []" using r by (simp add: laid_out_def)
      then show ?thesis using index_entry_laid_out [OF _ True] r True by (simp add: r1_def seps1_def)
    qed (use r in \<open>simp add: laid_out_def r1_def seps1_def\<close>)
    moreover have "tb_filter r2 = map_option (\<lambda>p. (p, fold (add_block p) (filter_blocks opts sn ds (cur @ [(k, v)])) FilterBlockBuilder))
       (op_filter_policy opts)"
      using r unfolding add_filter_key
      by (simp add: laid_out_def r2_def r1_def add_index_entry_def Let_def option.map_comp comp_def)
    ultimately show ?thesis
      using r unfolding laid_out_def
      by (auto simp: r2_def r1_def seps1_def add_index_entry_def Let_def writes_def last_key_of_def split: if_split_asm)
  qed
  moreover from Flush_laid_out [OF this accel] obtain r' where
    "table_Flush (env ce sn) r2 = Some r'" "laid_out opts sn (ds @ [cur @ [(k, v)]]) seps1 [] r'" by auto
  ultimately show ?thesis unfolding add by (cases "CurrentSizeEstimate (tb_data_block r2) \<ge> op_block_size opts") fastforce+
qed

lemma add_all_laid_out:
  assumes "laid_out opts sn ds seps cur r" and "accel_ok (ce_accel ce)"
  shows "\<exists>r' ds' seps' cur'. table_add_all (env ce sn) kvs r = Some r' \<and> laid_out opts sn ds' seps' cur' r' \<and>
    concat ds' @ cur' = concat ds @ cur @ kvs"
  using assms(1)
proof (induction kvs arbitrary: ds seps cur r)
  case Nil
  then show ?case by (intro exI [of _ r] exI [of _ ds] exI [of _ seps] exI [of _ cur]) simp
next
  case (Cons kv kvs)
  obtain r1 ds1 seps1 cur1 where 1: "table_Add (env ce sn) (fst kv) (snd kv) r = Some r1" "laid_out opts sn ds1 seps1 cur1 r1"
    "concat ds1 @ cur1 = concat ds @ cur @ [kv]"
    using Add_laid_out [OF Cons.prems assms(2), of "fst kv" "snd kv"] by auto
  obtain r' ds' seps' cur' where "table_add_all (env ce sn) kvs r1 = Some r'" "laid_out opts sn ds' seps' cur' r'"
    "concat ds' @ cur' = concat ds1 @ cur1 @ kvs"
    using Cons.IH [OF 1(2)] by blast
  with 1 show ?case
    by (intro exI [of _ r'] exI [of _ ds'] exI [of _ seps'] exI [of _ cur']) (simp flip: append_assoc)
qed

definition same_index :: "'f table_builder \<Rightarrow> 'f table_builder \<Rightarrow> bool" where
  "same_index r r' \<longleftrightarrow> tb_options r' = tb_options r \<and> tb_index_block r' = tb_index_block r \<and>
     tb_last_key r' = tb_last_key r \<and> tb_pending_index_entry r' = tb_pending_index_entry r \<and>
     tb_pending_handle r' = tb_pending_handle r \<and> (tb_filter r' = None \<longleftrightarrow> tb_filter r = None)"

lemma finish_filter_written:
  assumes r: "laid_out opts sn ds seps [] r" and accel: "accel_ok (ce_accel ce)"
  shows "\<exists>r' h. finish_filter (env ce sn) (r\<lparr>tb_closed := True\<rparr>) = Some (h, r') \<and> writes r' (before_meta opts sn ds) \<and> same_index r r' \<and>
    (\<forall>policy. op_filter_policy opts = Some policy \<longrightarrow> snd (meta_part opts sn ds) =
      [(string_bytes ''filter.'' @ fp_Name policy, handle_EncodeTo h [])])"
proof (cases "op_filter_policy opts")
  case None
  then show ?thesis using r
    by (auto simp: laid_out_def finish_filter_def builder_ok_def writes_def before_meta_def meta_part_def same_index_def)
next
  case (Some policy)
  let ?b = "fold (add_block policy) (filter_blocks opts sn ds []) FilterBlockBuilder"
  let ?c = "filter_block policy (filter_blocks opts sn ds [])"
  obtain b where b: "filter_Finish policy ?b = (?c, b)" by (metis filter_block_def prod.collapse)
  let ?r = "r\<lparr>tb_closed := True, tb_filter := Some (policy, b)\<rparr>"
  have "writes ?r (data_bytes opts sn ds)" using r by (simp add: laid_out_def writes_def)
  from WriteRawBlock_good [OF this accel, of sn ?c kNoCompression] obtain f where
    f: "WriteRawBlock (env ce sn) ?c kNoCompression ?r =
        Some (\<lparr>bh_offset = of_nat (length (data_bytes opts sn ds)), bh_size = of_nat (length ?c)\<rparr>,
          set_file f (data_bytes opts sn ds @ stored_block kNoCompression ?c) ?r)" "good f"
       "contents f = data_bytes opts sn ds @ stored_block kNoCompression ?c" by blast
  then show ?thesis
    using r Some b
    by (intro exI [of _ "set_file f (data_bytes opts sn ds @ stored_block kNoCompression ?c) ?r"]
        exI [of _ "\<lparr>bh_offset = of_nat (length (data_bytes opts sn ds)), bh_size = of_nat (length ?c)\<rparr>"])
      (auto simp: laid_out_def finish_filter_def builder_ok_def writes_def before_meta_def meta_part_def same_index_def
        set_file_def Let_def)
qed

lemma finish_metaindex_written:
  assumes "writes r (before_meta opts sn ds)" and "tb_options r = opts" and "tb_filter r = None \<longleftrightarrow> op_filter_policy opts = None"
    and meta: "\<forall>policy. op_filter_policy opts = Some policy \<longrightarrow> snd (meta_part opts sn ds) =
      [(string_bytes ''filter.'' @ fp_Name policy, handle_EncodeTo h [])]"
    and accel: "accel_ok (ce_accel ce)"
  shows "\<exists>r'. finish_metaindex (env ce sn) h r = Some (block_handle opts sn (before_meta opts sn ds) (meta_raw opts sn ds), r') \<and>
    writes r' (before_index opts sn ds) \<and> same_index r r'"
proof -
  define b where "b = builder_entries (op_block_restart_interval opts) (snd (meta_part opts sn ds)) BlockBuilder"
  have raw: "fst (builder_Finish b) = meta_raw opts sn ds" by (simp add: b_def meta_raw_def raw_block_def block_of_def)
  obtain f where f: "WriteBlock (env ce sn) b r = Some (BlockBuilder, block_handle opts sn (before_meta opts sn ds) (meta_raw opts sn ds),
      set_file f (before_index opts sn ds) r)" "good f" "contents f = before_index opts sn ds"
    using WriteBlock_good [OF assms(1) accel raw assms(2)] by (auto simp: before_index_def)
  have "finish_metaindex (env ce sn) h r = map_option snd (WriteBlock (env ce sn) b r)"
  proof (cases "op_filter_policy opts")
    case None
    then have "b = BlockBuilder" "tb_filter r = None" using assms(3) by (simp_all add: b_def meta_part_def)
    then show ?thesis using assms(1) f(1) by (simp add: finish_metaindex_def builder_ok_def writes_def)
  next
    case (Some policy)
    then have "b = builder_Add (op_block_restart_interval opts) (string_bytes ''filter.'' @ fp_Name policy)
        (handle_EncodeTo h []) BlockBuilder"
      using meta by (simp add: b_def builder_entries_def)
    moreover obtain p where "tb_filter r = Some p" using assms(3) Some by auto
    ultimately show ?thesis using assms(1,2) f(1) Some
      by (simp add: finish_metaindex_def builder_ok_def writes_def Let_def)
  qed
  then show ?thesis using f by (auto simp: writes_set_file same_index_def)
qed

lemma finish_index_written:
  assumes w: "writes r (before_index opts sn ds)" and r0: "laid_out opts sn ds seps [] r0" and same: "same_index r0 r"
    and accel: "accel_ok (ce_accel ce)"
  shows "\<exists>r' seps'. finish_index (env ce sn) r = Some (block_handle opts sn (before_index opts sn ds) (index_raw opts sn ds seps'), r') \<and>
    writes r' (before_index opts sn ds @ file_block opts sn (index_raw opts sn ds seps')) \<and> index_keys (op_comparator opts) ds seps'"
proof -
  define s where "s = cmp_FindShortSuccessor (op_comparator opts) (tb_last_key r)"
  define r1 where "r1 = (if tb_pending_index_entry r then add_index_entry s r else r)"
  define seps' where "seps' = (if tb_pending_index_entry r then seps @ [s] else seps)"
  have opts: "tb_options r1 = opts" "tb_options r = opts" and w1: "writes r1 (before_index opts sn ds)"
    using r0 same w by (auto simp: laid_out_def same_index_def r1_def add_index_entry_def Let_def writes_def)
  have block: "tb_index_block r1 = builder_entries 1 (index_entries opts sn ds seps') BlockBuilder"
  proof (cases "tb_pending_index_entry r")
    case True
    then have "tb_pending_index_entry r0" using same by (simp add: same_index_def)
    then have "tb_index_block (add_index_entry s r0) = builder_entries 1 (index_entries opts sn ds (seps @ [s])) BlockBuilder"
      by (rule index_entry_laid_out [OF r0])
    then show ?thesis using same True by (simp add: same_index_def add_index_entry_def Let_def r1_def seps'_def)
  qed (use r0 same in \<open>simp add: laid_out_def same_index_def r1_def seps'_def\<close>)
  then have raw: "fst (builder_Finish (tb_index_block r1)) = index_raw opts sn ds seps'"
    by (simp add: index_raw_def block_of_def)
  obtain f where f: "WriteBlock (env ce sn) (tb_index_block r1) r1 = Some (BlockBuilder,
      block_handle opts sn (before_index opts sn ds) (index_raw opts sn ds seps'),
      set_file f (before_index opts sn ds @ file_block opts sn (index_raw opts sn ds seps')) r1)" "good f"
      "contents f = before_index opts sn ds @ file_block opts sn (index_raw opts sn ds seps')"
    using WriteBlock_good [OF w1 accel raw opts(1)] by blast
  have "index_keys (op_comparator opts) ds seps'"
  proof (cases "tb_pending_index_entry r")
    case True
    then have "tb_pending_index_entry r0" "tb_last_key r = tb_last_key r0" using same by (simp_all add: same_index_def)
    then have "length ds = Suc (length seps)" "seps_between (op_comparator opts) ds [] seps" "\<forall>d \<in> set ds. d \<noteq> []"
      "tb_last_key r = last_key_of (concat ds)"
      using r0 by (simp_all add: laid_out_def)
    then show ?thesis using True index_keys_last by (simp add: seps'_def s_def)
  next
    case False
    then have "\<not> tb_pending_index_entry r0" using same by (simp add: same_index_def)
    then have "length seps = length ds" "seps_between (op_comparator opts) ds [] seps"
      using r0 by (simp_all add: laid_out_def)
    then have "ds = []" using no_index_keys by blast
    then show ?thesis using False \<open>length seps = length ds\<close> by (simp add: seps'_def index_keys_def)
  qed
  moreover have "finish_index (env ce sn) r = Some (block_handle opts sn (before_index opts sn ds) (index_raw opts sn ds seps'),
      (set_file f (before_index opts sn ds @ file_block opts sn (index_raw opts sn ds seps')) r1)\<lparr>tb_index_block := BlockBuilder\<rparr>)"
  proof -
    have "finish_index (env ce sn) r = do { (block, handle, r) \<leftarrow> WriteBlock (env ce sn) (tb_index_block r1) r1;
        Some (handle, r\<lparr>tb_index_block := block\<rparr>) }"
      using w opts(2) by (simp add: finish_index_def builder_ok_def writes_def Let_def r1_def s_def)
    then show ?thesis using f(1) by simp
  qed
  ultimately show ?thesis using f(2,3) by (fastforce simp: writes_def)
qed

theorem Finish_written:
  assumes r: "laid_out opts sn ds seps cur r" and accel: "accel_ok (ce_accel ce)"
  shows "\<exists>r' ds' seps'. table_Finish (env ce sn) r = Some (OK, r') \<and> concat ds' = concat ds @ cur \<and> (\<forall>d \<in> set ds'. d \<noteq> []) \<and>
    index_keys (op_comparator opts) ds' seps' \<and> contents (tb_file r') = table_bytes opts sn ds' seps'"
proof -
  obtain r0 ds' where flush: "table_Flush (env ce sn) r = Some r0" "laid_out opts sn ds' seps [] r0" "concat ds' = concat ds @ cur"
  proof (cases "cur = []")
    case True
    then have "table_Flush (env ce sn) r = Some r"
      using r builder_empty_iff [of "op_block_restart_interval opts" cur] by (simp add: table_Flush_def laid_out_def)
    then show thesis using r True that by simp
  next
    case False
    from Flush_laid_out [OF r accel this] show thesis using that by force
  qed
  obtain r1 h where filter: "finish_filter (env ce sn) (r0\<lparr>tb_closed := True\<rparr>) = Some (h, r1)" "writes r1 (before_meta opts sn ds')"
    "same_index r0 r1" "\<forall>policy. op_filter_policy opts = Some policy \<longrightarrow> snd (meta_part opts sn ds') =
      [(string_bytes ''filter.'' @ fp_Name policy, handle_EncodeTo h [])]"
    using finish_filter_written [OF flush(2) accel] by blast
  have "tb_options r1 = opts" "tb_filter r1 = None \<longleftrightarrow> op_filter_policy opts = None"
    using filter(3) flush(2) by (auto simp: same_index_def laid_out_def)
  from finish_metaindex_written [OF filter(2) this filter(4) accel] obtain r2 where
    meta: "finish_metaindex (env ce sn) h r1 = Some (block_handle opts sn (before_meta opts sn ds') (meta_raw opts sn ds'), r2)"
    "writes r2 (before_index opts sn ds')" "same_index r1 r2" by blast
  have "same_index r0 r2" using filter(3) meta(3) by (simp add: same_index_def)
  from finish_index_written [OF meta(2) flush(2) this accel] obtain r3 seps' where
    index: "finish_index (env ce sn) r2 = Some (block_handle opts sn (before_index opts sn ds') (index_raw opts sn ds' seps'), r3)"
    "writes r3 (before_index opts sn ds' @ file_block opts sn (index_raw opts sn ds' seps'))" "index_keys (op_comparator opts) ds' seps'"
    by blast
  obtain f where f: "append (footer_EncodeTo (table_footer opts sn ds' seps') []) (tb_file r3) = Some (OK, f)"
    "contents f = table_bytes opts sn ds' seps'"
    using append_good [of "tb_file r3" "footer_EncodeTo (table_footer opts sn ds' seps') []"] index(2)
    by (auto simp: writes_def table_bytes_def)
  have "be_append (env ce sn) = append" by (simp add: env_def)
  then have "finish_footer (env ce sn) (block_handle opts sn (before_meta opts sn ds') (meta_raw opts sn ds'))
      (block_handle opts sn (before_index opts sn ds') (index_raw opts sn ds' seps')) r3 =
    Some (r3\<lparr>tb_status := OK, tb_file := f,
      tb_offset := tb_offset r3 + of_nat (length (footer_EncodeTo (table_footer opts sn ds' seps') []))\<rparr>)"
    using f(1) index(2) by (simp add: finish_footer_def builder_ok_def writes_def Let_def flip: table_footer_def)
  then have "table_Finish (env ce sn) r = Some (OK, r3\<lparr>tb_status := OK, tb_file := f,
      tb_offset := tb_offset r3 + of_nat (length (footer_EncodeTo (table_footer opts sn ds' seps') []))\<rparr>)"
    using flush(1) filter(1) meta(1) index(1) by (simp add: table_Finish_def Let_def)
  then show ?thesis
    using flush(2,3) index(3) f(2) by (auto simp: laid_out_def)
qed

text \<open>From a new file to the finished table.\<close>

theorem table_written:
  assumes "good f" and "contents f = []" and "accel_ok (ce_accel ce)"
  shows "\<exists>r r' ds seps. table_add_all (env ce sn) kvs (TableBuilder opts f) = Some r \<and> table_Finish (env ce sn) r = Some (OK, r') \<and>
    concat ds = kvs \<and> (\<forall>d \<in> set ds. d \<noteq> []) \<and> index_keys (op_comparator opts) ds seps \<and>
    contents (tb_file r') = table_bytes opts sn ds seps"
proof -
  obtain r ds seps cur where r: "table_add_all (env ce sn) kvs (TableBuilder opts f) = Some r" "laid_out opts sn ds seps cur r"
    "concat ds @ cur = kvs"
    using add_all_laid_out [OF new_table [OF assms(1,2), of opts sn] assms(3), of kvs] by auto
  with Finish_written [OF r(2) assms(3)] show ?thesis by metis
qed

end

end
