(* ===== verification/Ldb_Log_Props.thy ===== *)
theory Ldb_Log_Props
  imports Ldb_Log_Spec
begin

text \<open>
  What the log promises. The records written to a file by \<open>AddRecord\<close> are those that \<open>ReadRecord\<close>
  returns, in order, before it returns \<open>false\<close>, whatever their lengths. If the file is cut, as a crash
  may leave it, every record that was wholly in it is still returned and nothing is reported.
\<close>

section \<open>Sequences of records\<close>

fun add_records ::
  "crc_env \<Rightarrow> 'f append_op \<Rightarrow> 'f flush_op \<Rightarrow> slice list \<Rightarrow> 'f log_writer \<Rightarrow> (Status list \<times> 'f log_writer) option"
where
  "add_records ce app flush [] w = Some ([], w)"
| "add_records ce app flush (data # records) w =
     do { (s, w) \<leftarrow> AddRecord ce app flush data w;
          (ss, w) \<leftarrow> add_records ce app flush records w;
          Some (s # ss, w) }"

text \<open>The loop of a reader's client, \<open>while (reader.ReadRecord(&record, &scratch))\<close>.\<close>

definition read_log_round ::
  "crc_env \<Rightarrow> log_options \<Rightarrow> 'f read_op \<Rightarrow> 'f skip_op \<Rightarrow> slice list \<times> 'f log_reader \<Rightarrow>
     (slice list \<times> 'f log_reader + slice list \<times> 'f log_reader) option"
where
  "read_log_round ce lo read skip st =
     (case st of (records, r) \<Rightarrow>
        do { (found, r) \<leftarrow> ReadRecord ce lo read skip r;
             Some (case found of Some data \<Rightarrow> Inl (records @ [data], r) | None \<Rightarrow> Inr (records, r)) })"

definition read_log ::
  "crc_env \<Rightarrow> log_options \<Rightarrow> 'f read_op \<Rightarrow> 'f skip_op \<Rightarrow> 'f log_reader \<Rightarrow> (slice list \<times> 'f log_reader) option"
where
  "read_log ce lo read skip r = c_loop (read_log_round ce lo read skip) ([], r)"

text \<open>The bytes of a sequence of records from an offset in a block, and the offset after them.\<close>

fun log_bytes :: "nat \<Rightarrow> slice list \<Rightarrow> slice" where
  "log_bytes bo [] = []"
| "log_bytes bo (data # records) =
     chunks_bytes (log_chunks bo True data) @ log_bytes (log_end bo (log_chunks bo True data)) records"

fun log_offset :: "nat \<Rightarrow> slice list \<Rightarrow> nat" where
  "log_offset bo [] = bo"
| "log_offset bo (data # records) = log_offset (log_end bo (log_chunks bo True data)) records"

lemma log_bytes_append: "log_bytes bo (xs @ ys) = log_bytes bo xs @ log_bytes (log_offset bo xs) ys"
  by (induction bo xs rule: log_bytes.induct) simp_all

context writable_file
begin

lemma writer_records:
  assumes "writer_at w bytes bo" and "accel_ok (ce_accel ce)"
  shows "\<exists>w'. add_records ce append flush records w = Some (map (\<lambda>_. OK) records, w') \<and>
    writer_at w' (bytes @ log_bytes bo records) (log_offset bo records) \<and>
    (written (lw_dest w) = contents (lw_dest w) \<longrightarrow> written (lw_dest w') = contents (lw_dest w'))"
  using assms(1)
proof (induction records arbitrary: w bytes bo)
  case (Cons data records)
  obtain w1 where w1: "AddRecord ce append flush data w = Some (OK, w1)"
      "writer_at w1 (bytes @ chunks_bytes (log_chunks bo True data)) (log_end bo (log_chunks bo True data))"
      "written (lw_dest w1) = contents (lw_dest w1)"
    using writer_record [OF Cons.prems assms(2), of True data] by (auto simp: AddRecord_def)
  from Cons.IH [OF w1(2)] w1 show ?case by auto
qed simp

end

context sequential_file
begin

lemma ReadRecord_start:
  "lo_initial_offset lo = 0 \<Longrightarrow> ReadRecord ce lo read_file skip r = c_loop (logical_round ce lo read_file)
     (\<lparr>ls_in_fragmented_record = False, ls_prospective = 0, ls_scratch = [], ls_fragment = []\<rparr>, r)"
  by (simp add: ReadRecord_def)

lemma ReadRecord_cut:
  assumes "reader_at r bo rest" and "strict_prefix rest (chunks_bytes (log_chunks bo True data))"
    and "accel_ok (ce_accel ce)" and start: "lo_initial_offset lo = 0"
  shows "\<exists>r'. ReadRecord ce lo read_file skip r = Some (None, r') \<and> lr_reported r' = []"
  unfolding ReadRecord_start [OF start] by (rule reader_logical_cut [OF assms(1,2) _ _ assms(3,4)]) simp_all

lemma ReadRecord_next:
  assumes "reader_at r bo (chunks_bytes (log_chunks bo True data) @ later)"
    and "accel_ok (ce_accel ce)" and start: "lo_initial_offset lo = 0"
  shows "\<exists>r'. ReadRecord ce lo read_file skip r = Some (Some data, r') \<and>
    reader_at r' (log_end bo (log_chunks bo True data)) later"
  unfolding ReadRecord_start [OF start]
  using reader_logical [OF assms(1) _ _ assms(2,3),
      of "\<lparr>ls_in_fragmented_record = False, ls_prospective = 0, ls_scratch = [], ls_fragment = []\<rparr>"]
  by simp

lemma reader_records:
  assumes "reader_at r bo rest" and "prefix rest (log_bytes bo records)"
    and accel: "accel_ok (ce_accel ce)" and start: "lo_initial_offset lo = 0"
  shows "\<exists>k r'. c_loop (read_log_round ce lo read_file skip) (found, r) = Some (found @ take k records, r') \<and>
    k \<le> length records \<and> lr_reported r' = [] \<and>
    length (log_bytes bo (take k records)) \<le> length rest \<and>
    (k < length records \<longrightarrow> length rest < length (log_bytes bo (take (Suc k) records)))"
  using assms(1,2)
proof (induction records arbitrary: r bo rest found)
  case Nil
  have "chunks_bytes (log_chunks bo True []) \<noteq> []"
    by (subst log_chunks.simps) (simp add: chunk_header_def)
  with Nil have "strict_prefix rest (chunks_bytes (log_chunks bo True []))"
    by (simp add: strict_prefix_def)
  from ReadRecord_cut [OF Nil(1) this accel start, of skip] show ?case
    by (auto simp: read_log_round_def c_loop_exit)
next
  case (Cons data records)
  let ?c = "chunks_bytes (log_chunks bo True data)"
  show ?case
  proof (cases "length rest < length ?c")
    case True
    then have "strict_prefix rest ?c"
      using Cons.prems(2) by (auto simp: strict_prefix_def prefix_append)
    from ReadRecord_cut [OF Cons.prems(1) this accel start, of skip]
    have "\<exists>r'. c_loop (read_log_round ce lo read_file skip) (found, r) = Some (found, r') \<and> lr_reported r' = []"
      by (auto simp: read_log_round_def c_loop_exit)
    then show ?thesis using True by (auto intro!: exI [of _ "0 :: nat"])
  next
    case False
    then have "prefix ?c rest"
      using prefix_length_prefix [of ?c "log_bytes bo (data # records)" rest] Cons.prems(2) by simp
    then obtain rest' where rest': "rest = ?c @ rest'"
        "prefix rest' (log_bytes (log_end bo (log_chunks bo True data)) records)"
      using Cons.prems(2) by (auto elim!: prefixE)
    obtain r1 where r1: "ReadRecord ce lo read_file skip r = Some (Some data, r1)"
        "reader_at r1 (log_end bo (log_chunks bo True data)) rest'"
      using ReadRecord_next [OF _ accel start, of r bo data rest' skip] Cons.prems(1) rest'(1) by blast
    have "c_loop (read_log_round ce lo read_file skip) (found, r) =
        c_loop (read_log_round ce lo read_file skip) (found @ [data], r1)"
      using r1(1) by (simp add: read_log_round_def c_loop_next)
    with Cons.IH [OF r1(2) rest'(2), of "found @ [data]"] obtain k r' where
      "c_loop (read_log_round ce lo read_file skip) (found, r) = Some (found @ [data] @ take k records, r')"
      "k \<le> length records" "lr_reported r' = []"
      "length (log_bytes (log_end bo (log_chunks bo True data)) (take k records)) \<le> length rest'"
      "k < length records \<longrightarrow>
        length rest' < length (log_bytes (log_end bo (log_chunks bo True data)) (take (Suc k) records))"
      by auto
    then show ?thesis using rest'(1) by (intro exI [of _ "Suc k"] exI [of _ r']) simp
  qed
qed

lemma reader_new:
  "good f \<Longrightarrow> lo_initial_offset lo = 0 \<Longrightarrow> reader_at (Reader lo f) kBlockSize (pending f)"
  by (simp add: Reader_def reader_at_def)

end

text \<open>A new log starts a block, which is the same as the end of one.\<close>

lemma log_bytes_new: "log_bytes kBlockSize records = log_bytes 0 records"
proof (cases records)
  case (Cons data rest)
  have "padding kBlockSize = padding 0" "chunk_start kBlockSize = chunk_start 0"
    by (simp_all add: padding_def chunk_start_def block_sizes)
  then have "log_chunks kBlockSize True data = log_chunks 0 True data"
    by (subst (1 2) log_chunks.simps) (simp cong: if_cong)
  moreover have "log_end kBlockSize (log_chunks 0 True data) = log_end 0 (log_chunks 0 True data)"
    by (subst (1 2) log_chunks.simps) (simp add: chunk_start_def block_sizes Let_def)
  ultimately show ?thesis using Cons by simp
qed simp

section \<open>The log over POSIX files\<close>

definition new_file :: "nat option list \<Rightarrow> scripted_os PosixWritableFile" where
  "new_file script = \<lparr>pw_buf = [], pw_os = \<lparr>so_bytes = [], so_script = script\<rparr>\<rparr>"

abbreviation posix_add where "posix_add ce \<equiv> add_records ce (PosixAppend scripted_write) (FlushBuffer scripted_write)"

lemma posix_records:
  assumes "accel_ok (ce_accel ce)"
  shows "\<exists>w. posix_add ce records (Writer (new_file script)) = Some (map (\<lambda>_. OK) records, w) \<and>
    posix_written (lw_dest w) = log_bytes 0 records \<and> posix_writer.writer_at w (log_bytes 0 records) (log_offset 0 records)"
proof -
  have "posix_writer.writer_at (Writer (new_file script)) [] 0"
    "posix_written (lw_dest (Writer (new_file script))) = posix_contents (lw_dest (Writer (new_file script)))"
    by (simp_all add: posix_writer.writer_at_def Writer_def new_file_def posix_contents_def posix_written_def)
  with posix_writer.writer_records [OF this(1) assms, of records] show ?thesis
    by (auto simp: posix_writer.writer_at_def)
qed

definition reader_on :: "log_options \<Rightarrow> slice \<Rightarrow> nat option list \<Rightarrow> scripted_os log_reader" where
  "reader_on lo bytes script = Reader lo \<lparr>so_bytes = bytes, so_script = script\<rparr>"

lemma posix_read:
  assumes "prefix bytes (log_bytes 0 records)" and accel: "accel_ok (ce_accel ce)" and start: "lo_initial_offset lo = 0"
  obtains k r where "read_log ce lo (PosixRead scripted_read) skip (reader_on lo bytes script) = Some (take k records, r)"
    and "lr_reported r = []" and "k \<le> length records" and "length (log_bytes 0 (take k records)) \<le> length bytes"
    and "k < length records \<longrightarrow> length bytes < length (log_bytes 0 (take (Suc k) records))"
proof -
  have "posix_reader.reader_at (reader_on lo bytes script) kBlockSize bytes"
    using posix_reader.reader_new [of lo "\<lparr>so_bytes = bytes, so_script = script\<rparr>"] start by (simp add: reader_on_def)
  from posix_reader.reader_records [OF this _ accel start, where records = records and skip = skip and found = "[]"] assms(1) that
  show thesis by (auto simp: read_log_def log_bytes_new)
qed

text \<open>C13: what is logged is what is recovered. Records of any lengths, appended one by one to a new
  log file, are all reported as written; after the last flush, reading the file from its start gives
  exactly these records in order, then \<open>false\<close>, and reports no corruption. Neither the interruptions
  of the system calls nor partial writes and the reader's options change that.\<close>

theorem log_roundtrip:
  assumes "accel_ok (ce_accel ce)" and "lo_initial_offset lo = 0"
  shows "\<exists>w r. posix_add ce records (Writer (new_file script)) = Some (map (\<lambda>_. OK) records, w) \<and>
    read_log ce lo (PosixRead scripted_read) skip (reader_on lo (posix_written (lw_dest w)) script') =
      Some (records, r) \<and> lr_reported r = []"
proof -
  obtain w where w: "posix_add ce records (Writer (new_file script)) = Some (map (\<lambda>_. OK) records, w)"
      "posix_written (lw_dest w) = log_bytes 0 records"
    using posix_records [OF assms(1)] by blast
  obtain k r where kr: "read_log ce lo (PosixRead scripted_read) skip (reader_on lo (log_bytes 0 records) script') =
      Some (take k records, r)" "lr_reported r = []" "k \<le> length records"
      "k < length records \<longrightarrow> length (log_bytes 0 records) < length (log_bytes 0 (take (Suc k) records))"
    by (rule posix_read [OF prefix_order.refl assms, where records = records and skip = skip and script = script']) blast
  have "log_bytes 0 records = log_bytes 0 (take (Suc k) records) @ log_bytes (log_offset 0 (take (Suc k) records)) (drop (Suc k) records)"
    by (metis append_take_drop_id log_bytes_append)
  with kr(3,4) have "k = length records" by (metis le_neq_implies_less length_append not_add_less1)
  with w kr(1,2) show ?thesis by auto
qed

lemma accel_off: "accel_ok (\<lambda>crc data. 0)"
  by (simp add: accel_ok_def CanAccelerateCRC32C_def)

lemma log_roundtrip_witness:
  "\<exists>w r. posix_add \<lparr>ce_accel = \<lambda>crc data. 0, ce_addr = \<lambda>_. 1\<rparr> [[1, 2, 3], replicate 40000 7, []]
        (Writer (new_file [Some 2, None])) = Some ([OK, OK, OK], w) \<and>
    read_log \<lparr>ce_accel = \<lambda>crc data. 0, ce_addr = \<lambda>_. 1\<rparr> \<lparr>lo_checksum = True, lo_initial_offset = 0, lo_reporter = True\<rparr>
      (PosixRead scripted_read) (\<lambda>n f. None)
      (reader_on \<lparr>lo_checksum = True, lo_initial_offset = 0, lo_reporter = True\<rparr> (posix_written (lw_dest w)) [None]) =
      Some ([[1, 2, 3], replicate 40000 7, []], r) \<and> lr_reported r = []"
  using log_roundtrip [of "\<lparr>ce_accel = \<lambda>crc data. 0, ce_addr = \<lambda>_. 1\<rparr>"
      "\<lparr>lo_checksum = True, lo_initial_offset = 0, lo_reporter = True\<rparr>" "[[1, 2, 3], replicate 40000 7, []]"
      "[Some 2, None]" "\<lambda>n f. None" "[None]"] accel_off by simp

text \<open>C14: recovery after a crash. Whatever records were flushed before and after, and wherever the
  file was cut behind what had been flushed first, reading what is left gives all records flushed
  first and then some of the others in order, and reports no corruption.\<close>

theorem log_recovers:
  assumes "accel_ok (ce_accel ce)" and "lo_initial_offset lo = 0"
    and "posix_add ce before (Writer (new_file script)) = Some (ss, w)"
    and "posix_add ce after w = Some (ss', w')"
    and "length (posix_written (lw_dest w)) \<le> n"
  shows "\<exists>k r. read_log ce lo (PosixRead scripted_read) skip (reader_on lo (take n (posix_written (lw_dest w'))) script') =
    Some (before @ take k after, r) \<and> lr_reported r = []"
proof -
  have w: "posix_written (lw_dest w) = log_bytes 0 before" "posix_writer.writer_at w (log_bytes 0 before) (log_offset 0 before)"
    using posix_records [OF assms(1), of before script] assms(3) by auto
  have w': "posix_written (lw_dest w') = log_bytes 0 (before @ after)"
    using posix_writer.writer_records [OF w(2) assms(1), of after] assms(4) w
    by (auto simp: log_bytes_append posix_writer.writer_at_def)
  have w'_prefix: "prefix (take n (posix_written (lw_dest w'))) (log_bytes 0 (before @ after))"
    by (simp add: w' take_is_prefix)
  obtain k r where kr: "read_log ce lo (PosixRead scripted_read) skip
        (reader_on lo (take n (posix_written (lw_dest w'))) script') = Some (take k (before @ after), r)"
      "lr_reported r = []"
      "k < length (before @ after) \<longrightarrow> length (take n (posix_written (lw_dest w'))) < length (log_bytes 0 (take (Suc k) (before @ after)))"
    by (rule posix_read [OF w'_prefix assms(1,2), where skip = skip and script = script']) blast
  have "length before \<le> k"
  proof (rule ccontr)
    assume "\<not> length before \<le> k"
    then have k: "Suc k \<le> length before" by simp
    then have "length (log_bytes 0 (take (Suc k) before)) \<le> length (log_bytes 0 before)"
      by (metis append_take_drop_id length_append le_add1 log_bytes_append)
    with kr(3) k assms(5) w(1) w' show False by (simp add: log_bytes_append)
  qed
  with kr(1,2) show ?thesis by auto
qed

lemma log_recovers_witness:
  "\<exists>w w' k r.
    posix_add \<lparr>ce_accel = \<lambda>crc data. 0, ce_addr = \<lambda>_. 1\<rparr> [[1, 2, 3]] (Writer (new_file [None])) = Some ([OK], w) \<and>
    posix_add \<lparr>ce_accel = \<lambda>crc data. 0, ce_addr = \<lambda>_. 1\<rparr> [replicate 40000 7, []] w = Some ([OK, OK], w') \<and>
    read_log \<lparr>ce_accel = \<lambda>crc data. 0, ce_addr = \<lambda>_. 1\<rparr> \<lparr>lo_checksum = True, lo_initial_offset = 0, lo_reporter = True\<rparr>
      (PosixRead scripted_read) (\<lambda>n f. None)
      (reader_on \<lparr>lo_checksum = True, lo_initial_offset = 0, lo_reporter = True\<rparr>
        (take (length (posix_written (lw_dest w)) + 3) (posix_written (lw_dest w'))) [None]) =
      Some ([[1, 2, 3]] @ take k [replicate 40000 7, []], r) \<and> lr_reported r = []"
proof -
  let ?ce = "\<lparr>ce_accel = \<lambda>crc data. 0, ce_addr = \<lambda>_. 1\<rparr>"
  have accel: "accel_ok (ce_accel ?ce)" using accel_off by simp
  obtain w where w: "posix_add ?ce [[1, 2, 3]] (Writer (new_file [None])) = Some ([OK], w)"
      "posix_writer.writer_at w (log_bytes 0 [[1, 2, 3]]) (log_offset 0 [[1, 2, 3]])"
    using posix_records [OF accel, of "[[1, 2, 3]]" "[None]"] by auto
  obtain w' where w': "posix_add ?ce [replicate 40000 7, []] w = Some ([OK, OK], w')"
    using posix_writer.writer_records [OF w(2) accel, of "[replicate 40000 7, []]"] by auto
  from log_recovers [OF accel _ w(1) w', of "\<lparr>lo_checksum = True, lo_initial_offset = 0, lo_reporter = True\<rparr>"
      "length (posix_written (lw_dest w)) + 3" "\<lambda>n f. None" "[None]"] w(1) w'
  show ?thesis by auto
qed

section \<open>Damaged records\<close>

context sequential_file
begin

lemma reader_exhausted:
  assumes "good (lr_file r)" and "lr_buffer r = []" and "pending (lr_file r) = []"
  shows "\<exists>r'. ReadPhysicalRecord ce lo read_file result r = Some (kEof, result, r') \<and> lr_reported r' = lr_reported r"
proof -
  have stop: "\<exists>r'. ReadPhysicalRecord ce lo read_file result r = Some (kEof, result, r') \<and> lr_reported r' = lr_reported r"
    if "lr_buffer r = []" and "lr_eof r" for r
    using that by (simp add: ReadPhysicalRecord_def physical_round_def c_loop_exit block_sizes)
  show ?thesis
  proof (cases "lr_eof r")
    case False
    obtain f where "read_file kBlockSize (lr_file r) = Some (OK, [], f)"
      using read_good [OF assms(1), of kBlockSize] assms(3) by auto
    then obtain r1 where "physical_round ce lo read_file result r = Some (Inl r1)" "lr_buffer r1 = []" "lr_eof r1"
        "lr_reported r1 = lr_reported r"
      using assms(2) False by (simp add: physical_round_def refill_def Let_def block_sizes)
    with stop [of r1] show ?thesis by (auto simp: ReadPhysicalRecord_def c_loop_next)
  qed (use stop assms in blast)
qed

lemma reader_damaged:
  assumes at: "reader_at r 0 bytes" and size: "length bytes = kHeaderSize + len" "length bytes \<le> kBlockSize" "0 < len"
    and field: "unat (ucast (bytes ! 4) OR push_bit 8 (ucast (bytes ! 5)) :: u32) = len"
    and stored: "DecodeFixed32 bytes = Some (Mask crc)" and crc: "crc32c 0 (drop 6 bytes) \<noteq> crc"
    and accel: "accel_ok (ce_accel ce)" and lo: "lo_initial_offset lo = 0" "lo_checksum lo" "lo_reporter lo"
  shows "physical_round ce lo read_file result r = Some (Inr (kBadRecord, result,
    r\<lparr>lr_buffer := [], lr_reported := [(of_nat (length bytes), Corruption ''checksum mismatch'')]\<rparr>))"
proof -
  have r: "lr_buffer r = bytes" "lr_reported r = []" using at size by (simp_all add: reader_at_def)
  have whole: "take (1 + len) (drop 6 bytes) = drop 6 bytes" using size by (simp add: block_sizes)
  show ?thesis
    unfolding physical_round_def Let_def r(1) field stored whole
    using size crc lo r
    by (simp add: ReportCorruption_def ReportDrop_def crc_values [OF accel] buffer_size_def)
qed

end



end
