(* ===== verification/Ldb_Table_Props.thy ===== *)
theory Ldb_Table_Props
  imports Ldb_Table Ldb_Table_Spec Ldb_Log_Props
begin

text \<open>
  Reading finished tables. A file with the bytes of a table opens, every handle of its index leads to
  its block, and a lookup finds the first entry that is not below the key, unless the table has no
  entry for it. Locale \<open>table_order\<close> adds to an order of keys which keys belong together, as the
  internal keys of one user key do: a lookup may be answered by any of them.
\<close>

section \<open>Keys that belong together\<close>

locale table_order = key_order +
  fixes same :: "slice \<Rightarrow> slice \<Rightarrow> bool"
  assumes same_refl: "same a a"
    and same_between: "valid a \<Longrightarrow> valid b \<Longrightarrow> valid c \<Longrightarrow> same a c \<Longrightarrow> \<not> cmp_Compare cmp b a < 0 \<Longrightarrow>
      \<not> cmp_Compare cmp c b < 0 \<Longrightarrow> same a b"
    and same_gap: "valid a \<Longrightarrow> valid b \<Longrightarrow> valid t \<Longrightarrow> valid c \<Longrightarrow> cmp_Compare cmp a b < 0 \<Longrightarrow> cmp_Compare cmp a t < 0 \<Longrightarrow>
      \<not> cmp_Compare cmp (cmp_FindShortestSeparator cmp a b) t < 0 \<Longrightarrow> \<not> cmp_Compare cmp c b < 0 \<Longrightarrow> \<not> same t c"
    and separator_shorter: "valid a \<Longrightarrow> valid b \<Longrightarrow> length (cmp_FindShortestSeparator cmp a b) \<le> length a"
    and successor_shorter: "valid a \<Longrightarrow> length (cmp_FindShortSuccessor cmp a) \<le> length a"

text \<open>The bytewise order, where only equal keys belong together, and the order of internal keys.\<close>

lemma FindShortSuccessor_shorter: "length (FindShortSuccessor k) \<le> length k"
  by (induction k) auto

lemma FindShortestSeparator_shorter: "length (FindShortestSeparator a b) \<le> length a"
  by (auto simp: FindShortestSeparator_def Let_def)

interpretation bytewise_table: table_order BytewiseComparator "\<lambda>_. True" "(=)"
proof
  fix a b c t :: slice
  let ?less = "\<lambda>x y. cmp_Compare BytewiseComparator x y < 0"
  show "a = c \<Longrightarrow> \<not> ?less b a \<Longrightarrow> \<not> ?less c b \<Longrightarrow> a = b"
    using bytewise.compare_eq [of a b] bytewise.compare_swap [of b a] by auto
  show "t \<noteq> c" if "?less a b" "\<not> ?less (cmp_FindShortestSeparator BytewiseComparator a b) t" "\<not> ?less c b"
  proof
    assume "t = c"
    have "?less (cmp_FindShortestSeparator BytewiseComparator a b) b"
      using bytewise.separator_between [OF _ _ that(1) refl] by simp
    moreover have "b = c \<or> ?less b c" using bytewise.key_less_linear [of b c] that(3) by (auto simp: bytewise.key_less_def)
    ultimately have "?less (cmp_FindShortestSeparator BytewiseComparator a b) c"
      using bytewise.compare_trans by blast
    then show False using that(2) \<open>t = c\<close> by simp
  qed
qed (simp_all add: BytewiseComparator_def FindShortSuccessor_shorter FindShortestSeparator_shorter)

context key_order
begin

lemma internal_table_order:
  "table_order (InternalKeyComparator cmp) (\<lambda>k. internal_key_ok k \<and> valid (ExtractUserKey k))
    (\<lambda>a b. ExtractUserKey a = ExtractUserKey b)"
proof -
  let ?icmp = "InternalKeyComparator cmp" and ?valid = "\<lambda>k. internal_key_ok k \<and> valid (ExtractUserKey k)"
  have less: "cmp_Compare ?icmp a b < 0 \<longleftrightarrow> key_less (ExtractUserKey a) (ExtractUserKey b) \<or>
      cmp_Compare cmp (ExtractUserKey a) (ExtractUserKey b) = 0 \<and> key_number b < key_number a" for a b
    by (simp add: InternalKeyComparator_def internal_less key_less_def)
  show ?thesis
  proof (intro table_order.intro internal_order table_order_axioms.intro)
    fix a b c t
    assume "?valid a" "?valid b"
    then have a: "internal_key_ok a" "valid (ExtractUserKey a)" and b: "internal_key_ok b" "valid (ExtractUserKey b)" by auto
    show "ExtractUserKey a = ExtractUserKey b"
      if "?valid c" "ExtractUserKey a = ExtractUserKey c" "\<not> cmp_Compare ?icmp b a < 0" "\<not> cmp_Compare ?icmp c b < 0"
      using that a b key_less_linear [of "ExtractUserKey a" "ExtractUserKey b"] by (auto simp: less)
    show "ExtractUserKey t \<noteq> ExtractUserKey c"
      if v: "?valid t" "?valid c" and ab: "cmp_Compare ?icmp a b < 0" and at: "cmp_Compare ?icmp a t < 0"
        and st: "\<not> cmp_Compare ?icmp (cmp_FindShortestSeparator ?icmp a b) t < 0" and cb: "\<not> cmp_Compare ?icmp c b < 0"
    proof -
      let ?ua = "ExtractUserKey a" and ?ub = "ExtractUserKey b" and ?tmp = "cmp_FindShortestSeparator cmp (ExtractUserKey a) (ExtractUserKey b)"
      have short: "length ?tmp < length ?ua \<and> cmp_Compare cmp ?ua ?tmp < 0"
        using at st by (auto simp: InternalKeyComparator_def InternalSeparator_def Let_def split: if_split_asm)
      then have "cmp_Compare cmp ?ua ?ub < 0" using separator_same [OF a(2) b(2)] by fastforce
      from separator_between [OF a(2) b(2) this refl] have tmp: "valid ?tmp" "key_less ?tmp ?ub" by (auto simp: key_less_def)
      have "cmp_FindShortestSeparator ?icmp a b = PutFixed64 ?tmp (PackSequenceAndType kMaxSequenceNumber kValueTypeForSeek)"
        using short by (simp add: InternalKeyComparator_def InternalSeparator_def Let_def)
      then have "\<not> key_less ?tmp (ExtractUserKey t)" using st by (auto simp: less PutFixed64_def)
      moreover have "\<not> key_less (ExtractUserKey c) ?ub" using cb by (auto simp: less)
      ultimately show ?thesis
        using tmp v b key_less_linear [of ?ub "ExtractUserKey c"] key_less_trans [of ?tmp ?ub "ExtractUserKey c"] by auto
    qed
    show "length (cmp_FindShortestSeparator ?icmp a b) \<le> length a" "length (cmp_FindShortSuccessor ?icmp a) \<le> length a"
      using a(1) by (auto simp: InternalKeyComparator_def InternalSeparator_def InternalSuccessor_def PutFixed64_def
          ExtractUserKey_def internal_key_ok_def Let_def)
  qed simp
qed

end

interpretation internal_table: table_order "InternalKeyComparator BytewiseComparator"
    "\<lambda>k. internal_key_ok k \<and> True" "\<lambda>a b. ExtractUserKey a = ExtractUserKey b"
  by (rule bytewise.internal_table_order)

section \<open>Where a search ends\<close>

definition iter_at :: "table_iter \<Rightarrow> (slice \<times> slice) option \<Rightarrow> bool" where
  "iter_at it e = (case e of None \<Rightarrow> \<not> iter_Valid it | Some (k, v) \<Rightarrow> iter_Valid it \<and> iter_key it = k \<and> iter_value it = Some v)"

definition fits :: "(slice \<times> slice) list \<Rightarrow> bool" where
  "fits kvs \<longleftrightarrow> (\<forall>(k, v) \<in> set kvs. length k < 2 ^ 32 \<and> length v < 2 ^ 32)"

context key_order
begin

definition first_from :: "slice \<Rightarrow> (slice \<times> slice) list \<Rightarrow> (slice \<times> slice) option" where
  "first_from k kvs = find (\<lambda>e. \<not> key_less (fst e) k) kvs"

lemma find_dropWhile: "find (\<lambda>e. \<not> p e) xs = (case dropWhile p xs of [] \<Rightarrow> None | e # _ \<Rightarrow> Some e)"
  by (induction xs) auto

lemma first_from_append: "first_from k (xs @ ys) = (case first_from k xs of None \<Rightarrow> first_from k ys | Some e \<Rightarrow> Some e)"
  by (induction xs) (auto simp: first_from_def)

lemma first_from_None: "first_from k kvs = None \<longleftrightarrow> (\<forall>e \<in> set kvs. key_less (fst e) k)"
  by (auto simp: first_from_def find_None_iff)

lemma iter_Seek_block:
  assumes "1 \<le> interval" and "fits kvs" and "length (block_of interval kvs) < 2 ^ 32" and "\<forall>e \<in> set kvs. valid (fst e)"
    and "sorted_wrt key_less (map fst kvs)" and "valid target"
  shows "\<exists>it. iter_Seek cmp target (new_iter (block_of interval kvs)) = Some it \<and> iter_status it = OK \<and>
    iter_at it (first_from target kvs)"
proof -
  have kvs: "\<forall>(k, v) \<in> set kvs. length k < 2 ^ 32 \<and> length v < 2 ^ 32" using assms(2) by (simp add: fits_def)
  obtain b es rs where b: "NewIterator (block_of interval kvs) = BlockIterator b"
    using block_of_entries [OF assms(1) kvs assms(3)] by blast
  obtain it where it: "block_Seek b cmp target (block_Iter b) = Some it" "it_status it = OK"
    "case dropWhile (\<lambda>(k, v). cmp_Compare cmp k target < 0) kvs of
       [] \<Rightarrow> \<not> block_Valid b it
     | (k, v) # _ \<Rightarrow> block_Valid b it \<and> it_key it = k \<and> block_value b it = Some v"
    using Seek_block_of [OF assms(1) kvs assms(3) b _ assms(5,6) refl] assms(4) by auto
  have below: "(\<lambda>(k, v). cmp_Compare cmp k target < 0) = (\<lambda>e. key_less (fst e) target)" by (auto simp: key_less_def)
  have "iter_at (BlockIter b it) (first_from target kvs)"
    using it(3) unfolding below first_from_def find_dropWhile iter_at_def
    by (cases "dropWhile (\<lambda>e. key_less (fst e) target) kvs") (auto simp del: dropWhile_eq_Nil_conv)
  then show ?thesis using b it by (simp add: new_iter_def)
qed

end

section \<open>Blocks of the file\<close>

text \<open>What is asked of Snappy: what it compresses it restores.\<close>

definition snappy_ok :: "Snappy \<Rightarrow> bool" where
  "snappy_ok sn \<longleftrightarrow> (\<forall>raw c. sn_compress sn raw = Some c \<longrightarrow> sn_length sn c = Some (length raw) \<and> sn_uncompress sn c = Some raw)"

lemma no_snappy_ok: "snappy_ok no_snappy"
  by (simp add: snappy_ok_def no_snappy_def)

lemma read_file_block:
  assumes "random_access_file read_at whole" and "whole = before @ file_block opts sn raw @ behind" and "length whole < 2 ^ 64"
    and "accel_ok (ce_accel ce)" and "snappy_ok sn"
  shows "\<exists>c. ReadBlock ce sn read_at verify (block_handle opts sn before raw) = Some (OK, c) \<and> bc_data c = raw"
proof -
  obtain data t where c: "compress_block sn (op_compression opts) raw = (data, t)" by force
  have restored: "t = kSnappyCompression \<Longrightarrow> sn_length sn data = Some (length raw) \<and> sn_uncompress sn data = Some raw"
    "t = kNoCompression \<Longrightarrow> raw = data"
    using c assms(5) by (auto simp: compress_block_def snappy_ok_def split: CompressionType.splits option.splits if_splits)
  have bytes: "whole = before @ stored_block t data @ behind" using assms(2) c by (simp add: file_block_def)
  have "block_handle opts sn before raw = \<lparr>bh_offset = of_nat (length before), bh_size = of_nat (length data)\<rparr>"
    using c by (simp add: block_handle_def)
  from random_access_file.ReadBlock_stored [OF assms(1) bytes assms(3,4) this restored, of verify] show ?thesis .
qed

lemma handle_decoded [simp]: "handle_DecodeFrom (handle_EncodeTo h []) h' = (OK, h, [])"
  using handle_roundtrip [of h "[]" h'] by simp

lemma length_handle: "length (handle_EncodeTo h []) < 2 ^ 32"
  using handle_bytes [of h] by (simp add: kMaxEncodedLength_def)

lemma data_block_at:
  "i < length ds \<Longrightarrow> data_bytes opts sn ds =
    data_bytes opts sn (take i ds) @ file_block opts sn (raw_block opts (ds ! i)) @ data_bytes opts sn (drop (Suc i) ds)"
  unfolding data_bytes_def by (subst id_take_nth_drop [of i ds]) simp_all

lemma table_bytes_data:
  "table_bytes opts sn ds seps = data_bytes opts sn ds @ fst (meta_part opts sn ds) @ file_block opts sn (meta_raw opts sn ds) @
    file_block opts sn (index_raw opts sn ds seps) @ footer_EncodeTo (table_footer opts sn ds seps) []"
  by (simp add: table_bytes_def before_index_def before_meta_def)

section \<open>Opening\<close>

text \<open>A table that can be read: sizes that its formats can hold.\<close>

definition table_small :: "Options \<Rightarrow> Snappy \<Rightarrow> (slice \<times> slice) list list \<Rightarrow> slice list \<Rightarrow> bool" where
  "table_small opts sn ds seps \<longleftrightarrow>
     length (table_bytes opts sn ds seps) < 2 ^ 64 \<and> (\<forall>d \<in> set ds. length (raw_block opts d) < 2 ^ 32) \<and>
     length (index_raw opts sn ds seps) < 2 ^ 32 \<and> length (meta_raw opts sn ds) < 2 ^ 32 \<and>
     (\<forall>policy. op_filter_policy opts = Some policy \<longrightarrow>
        length (filter_block policy (filter_blocks opts sn ds [])) < 2 ^ 32 \<and> length (fp_Name policy) < 2 ^ 31)"

definition opened_table :: "Options \<Rightarrow> Snappy \<Rightarrow> (slice \<times> slice) list list \<Rightarrow> slice list \<Rightarrow> random_read \<Rightarrow> u64 \<Rightarrow> Table" where
  "opened_table opts sn ds seps read_at cache_id =
     \<lparr>ta_options = opts, ta_file = read_at, ta_cache_id = cache_id,
      ta_filter = map_option (\<lambda>policy. FilterBlockReader (filter_block policy (filter_blocks opts sn ds []))) (op_filter_policy opts),
      ta_metaindex_handle = ft_metaindex (table_footer opts sn ds seps), ta_index_block = index_raw opts sn ds seps\<rparr>"

lemma read_meta:
  assumes rf: "random_access_file read_at (table_bytes opts sn ds seps)" and small: "table_small opts sn ds seps"
    and env: "accel_ok (ce_accel ce)" "snappy_ok sn" and interval: "1 \<le> op_block_restart_interval opts"
  shows "ReadMeta ce sn (table_footer opts sn ds seps) ((opened_table opts sn ds seps read_at cache_id)\<lparr>ta_filter := None\<rparr>) =
    Some (opened_table opts sn ds seps read_at cache_id)"
proof (cases "op_filter_policy opts")
  case None
  then show ?thesis by (simp add: ReadMeta_def opened_table_def)
next
  case (Some policy)
  let ?contents = "filter_block policy (filter_blocks opts sn ds [])" and ?key = "string_bytes ''filter.'' @ fp_Name policy"
  let ?h = "\<lparr>bh_offset = of_nat (length (data_bytes opts sn ds)), bh_size = of_nat (length ?contents)\<rparr>"
  let ?t = "(opened_table opts sn ds seps read_at cache_id)\<lparr>ta_filter := None\<rparr>"
  have part: "meta_part opts sn ds = (stored_block kNoCompression ?contents, [(?key, handle_EncodeTo ?h [])])"
    using Some by (simp add: meta_part_def Let_def)
  have big: "length (table_bytes opts sn ds seps) < 2 ^ 64" using small by (simp add: table_small_def)
  have "table_bytes opts sn ds seps = before_meta opts sn ds @ file_block opts sn (meta_raw opts sn ds) @
      file_block opts sn (index_raw opts sn ds seps) @ footer_EncodeTo (table_footer opts sn ds seps) []"
    by (simp add: table_bytes_def before_index_def)
  from read_file_block [OF rf this big env, of "op_paranoid_checks opts"] obtain c where
    c: "ReadBlock ce sn read_at (op_paranoid_checks opts) (ft_metaindex (table_footer opts sn ds seps)) = Some (OK, c)"
       "bc_data c = meta_raw opts sn ds"
    by (auto simp: table_footer_def)
  have "fits [(?key, handle_EncodeTo ?h [])]"
    using length_handle [of ?h] small Some by (simp add: fits_def table_small_def string_bytes_def)
  moreover have "length (block_of (op_block_restart_interval opts) [(?key, handle_EncodeTo ?h [])]) < 2 ^ 32"
    using small part by (simp add: table_small_def meta_raw_def raw_block_def)
  ultimately obtain it where it: "iter_Seek BytewiseComparator ?key (new_iter (meta_raw opts sn ds)) = Some it"
    "iter_at it (bytewise.first_from ?key [(?key, handle_EncodeTo ?h [])])"
    using bytewise.iter_Seek_block [OF interval, of "[(?key, handle_EncodeTo ?h [])]" ?key] part
    by (auto simp: meta_raw_def raw_block_def)
  then have at: "iter_Valid it" "iter_key it = ?key" "iter_value it = Some (handle_EncodeTo ?h [])"
    by (simp_all add: iter_at_def bytewise.first_from_def)
  have whole: "table_bytes opts sn ds seps = data_bytes opts sn ds @ stored_block kNoCompression ?contents @
      file_block opts sn (meta_raw opts sn ds) @ file_block opts sn (index_raw opts sn ds seps) @
      footer_EncodeTo (table_footer opts sn ds seps) []"
    unfolding table_bytes_data part by simp
  from random_access_file.ReadBlock_stored [OF rf whole big env(1) refl, of sn ?contents "op_paranoid_checks opts"] obtain c' where
    c': "ReadBlock ce sn read_at (op_paranoid_checks opts) ?h = Some (OK, c')" "bc_data c' = ?contents"
    by auto
  have "ReadFilter ce sn (handle_EncodeTo ?h []) ?t = Some (opened_table opts sn ds seps read_at cache_id)"
    using c' Some by (simp add: ReadFilter_def opened_table_def)
  then show ?thesis
    using Some c it(1) at by (simp add: ReadMeta_def Let_def opened_table_def)
qed

lemma table_opens:
  assumes rf: "random_access_file read_at (table_bytes opts sn ds seps)" and small: "table_small opts sn ds seps"
    and env: "accel_ok (ce_accel ce)" "snappy_ok sn" and interval: "1 \<le> op_block_restart_interval opts"
  shows "table_Open ce sn opts cache_id read_at (of_nat (length (table_bytes opts sn ds seps))) =
    Some (OK, Some (opened_table opts sn ds seps read_at cache_id))"
proof -
  let ?whole = "table_bytes opts sn ds seps" and ?footer = "footer_EncodeTo (table_footer opts sn ds seps) []"
  let ?front = "before_index opts sn ds @ file_block opts sn (index_raw opts sn ds seps)"
  have whole: "?whole = ?front @ ?footer" by (simp add: table_bytes_def)
  have big: "length ?whole < 2 ^ 64" using small by (simp add: table_small_def)
  have n: "length ?whole = length ?front + kEncodedLength" unfolding whole by (simp add: length_footer)
  have "of_nat (length ?whole) - of_nat kEncodedLength = (of_nat (length ?front) :: u64)" unfolding n by simp
  moreover have off: "unat (of_nat (length ?front) :: u64) = length ?front"
    using big n by (simp add: unsigned_of_nat take_bit_nat_eq_self del: length_append of_nat_add)
  ultimately obtain own where
    read: "read_at (of_nat (length ?whole) - of_nat kEncodedLength) kEncodedLength = Some (OK, ?footer, own)"
    using random_access_file.read_inside [OF rf big, of "of_nat (length ?front)" kEncodedLength] n
    by (auto simp: whole length_footer)
  have "table_bytes opts sn ds seps = before_index opts sn ds @ file_block opts sn (index_raw opts sn ds seps) @ ?footer"
    by (simp add: table_bytes_def)
  from read_file_block [OF rf this big env, of "op_paranoid_checks opts"] obtain c where
    c: "ReadBlock ce sn read_at (op_paranoid_checks opts) (ft_index (table_footer opts sn ds seps)) = Some (OK, c)"
       "bc_data c = index_raw opts sn ds seps"
    by (auto simp: table_footer_def)
  have long: "\<not> of_nat (length ?whole) < (of_nat kEncodedLength :: u64)"
  proof -
    have "unat (of_nat (length ?whole) :: u64) = length ?whole" "unat (of_nat kEncodedLength :: u64) = kEncodedLength"
      using big by (simp_all add: unsigned_of_nat take_bit_nat_eq_self kEncodedLength_def kMaxEncodedLength_def)
    then show ?thesis unfolding word_less_nat_alt using n by simp
  qed
  have foot: "footer_DecodeFrom ?footer new_footer = Some (OK, table_footer opts sn ds seps, [])"
    using footer_decoded [of "table_footer opts sn ds seps" "[]"] by simp
  have t: "\<lparr>ta_options = opts, ta_file = read_at, ta_cache_id = cache_id, ta_filter = None,
      ta_metaindex_handle = ft_metaindex (table_footer opts sn ds seps), ta_index_block = index_raw opts sn ds seps\<rparr> =
    (opened_table opts sn ds seps read_at cache_id)\<lparr>ta_filter := None\<rparr>"
    by (simp add: opened_table_def)
  show ?thesis
    using long read foot c read_meta [OF assms, of cache_id] by (simp add: table_Open_def t)
qed

section \<open>The index\<close>

lemma sorted_concat_parts:
  assumes "sorted_wrt P (concat xss)"
  shows "i < length xss \<Longrightarrow> sorted_wrt P (xss ! i)"
    and "i < j \<Longrightarrow> j < length xss \<Longrightarrow> x \<in> set (xss ! i) \<Longrightarrow> y \<in> set (xss ! j) \<Longrightarrow> P x y"
proof -
  have split: "concat xss = concat (take i xss) @ xss ! i @ concat (drop (Suc i) xss)" if "i < length xss" for i
    using that by (subst id_take_nth_drop [of i xss]) simp_all
  show "i < length xss \<Longrightarrow> sorted_wrt P (xss ! i)"
    using assms split [of i] by (simp add: sorted_wrt_append)
  show "P x y" if "i < j" "j < length xss" "x \<in> set (xss ! i)" "y \<in> set (xss ! j)"
  proof -
    have "xss ! i = take j xss ! i" "i < length (take j xss)" using that by simp_all
    then have "x \<in> set (concat (take j xss))" using that(3) nth_mem [of i "take j xss"] by (auto simp del: nth_take)
    moreover have "sorted_wrt P (concat (take j xss) @ xss ! j @ concat (drop (Suc j) xss))"
      using assms split [of j] that(2) by simp
    ultimately show ?thesis using that(4) by (auto simp: sorted_wrt_append)
  qed
qed

lemma in_concat: "e \<in> set (concat ds) \<Longrightarrow> \<exists>i < length ds. e \<in> set (ds ! i)"
  by (metis UN_iff in_set_conv_nth set_concat)

context table_order
begin

definition ordered_table :: "Options \<Rightarrow> (slice \<times> slice) list list \<Rightarrow> slice list \<Rightarrow> bool" where
  "ordered_table opts ds seps \<longleftrightarrow> op_comparator opts = cmp \<and> 1 \<le> op_block_restart_interval opts \<and> (\<forall>d \<in> set ds. d \<noteq> []) \<and>
     index_keys cmp ds seps \<and> fits (concat ds) \<and> (\<forall>e \<in> set (concat ds). valid (fst e)) \<and>
     sorted_wrt key_less (map fst (concat ds))"

lemma block_entry:
  assumes "ordered_table opts ds seps" and "i < length ds"
  shows "e \<in> set (ds ! i) \<Longrightarrow> valid (fst e)" and "ds ! i \<noteq> []" and "sorted_wrt key_less (map fst (ds ! i))" and "fits (ds ! i)"
    and "j < length ds \<Longrightarrow> i < j \<Longrightarrow> e \<in> set (ds ! i) \<Longrightarrow> e' \<in> set (ds ! j) \<Longrightarrow> key_less (fst e) (fst e')"
proof -
  have sorted: "sorted_wrt key_less (concat (map (map fst) ds))" using assms(1) by (simp add: ordered_table_def map_concat)
  show "sorted_wrt key_less (map fst (ds ! i))" using sorted_concat_parts(1) [OF sorted, of i] assms(2) by simp
  show "key_less (fst e) (fst e')" if "j < length ds" "i < j" "e \<in> set (ds ! i)" "e' \<in> set (ds ! j)"
    using sorted_concat_parts(2) [OF sorted, of i j "fst e" "fst e'"] that by simp
qed (use assms nth_mem [of i ds] in \<open>auto simp: ordered_table_def fits_def\<close>)

lemma last_entry:
  assumes "ordered_table opts ds seps" and "i < length ds" and "e \<in> set (ds ! i)"
  shows "e = last (ds ! i) \<or> key_less (fst e) (fst (last (ds ! i)))"
proof -
  obtain es l where "ds ! i = es @ [l]" using block_entry(2) [OF assms(1,2)] by (cases "ds ! i" rule: rev_cases) auto
  then show ?thesis using block_entry(3) [OF assms(1,2)] assms(3) by (auto simp: sorted_wrt_append)
qed

lemma hd_entry:
  assumes "ordered_table opts ds seps" and "i < length ds" and "e \<in> set (ds ! i)"
  shows "e = hd (ds ! i) \<or> key_less (fst (hd (ds ! i))) (fst e)"
  using block_entry(3) [OF assms(1,2)] assms(3) by (cases "ds ! i") auto

text \<open>The key of block \<open>i\<close> in the index is not below its keys and below those of later blocks.\<close>

lemma index_key:
  assumes t: "ordered_table opts ds seps" and i: "i < length ds"
  shows "valid (seps ! i)" and "length (seps ! i) < 2 ^ 32"
    and "e \<in> set (ds ! i) \<Longrightarrow> \<not> key_less (seps ! i) (fst e)"
    and "j < length ds \<Longrightarrow> i < j \<Longrightarrow> e \<in> set (ds ! j) \<Longrightarrow> key_less (seps ! i) (fst e)"
proof -
  let ?l = "last (ds ! i)"
  have l: "?l \<in> set (ds ! i)" using block_entry(2) [OF t i] by simp
  note vl = block_entry(1) [OF t i l]
  have short: "length (fst ?l) < 2 ^ 32" using block_entry(4) [OF t i] l by (auto simp: fits_def)
  have keys: "index_keys cmp ds seps" using t by (simp add: ordered_table_def)
  have sep: "valid (seps ! i) \<and> length (seps ! i) < 2 ^ 32 \<and> \<not> key_less (seps ! i) (fst ?l) \<and>
      (Suc i < length ds \<longrightarrow> key_less (seps ! i) (fst (hd (ds ! Suc i))))"
  proof (cases "Suc i < length ds")
    case True
    have h: "hd (ds ! Suc i) \<in> set (ds ! Suc i)" using block_entry(2) [OF t True] by simp
    note vh = block_entry(1) [OF t True h]
    have less: "key_less (fst ?l) (fst (hd (ds ! Suc i)))" using block_entry(5) [OF t i True _ l h] by simp
    have "seps ! i = cmp_FindShortestSeparator cmp (fst ?l) (fst (hd (ds ! Suc i)))"
      using keys True by (simp add: index_keys_def)
    then show ?thesis
      using separator_between [OF vl vh _ refl] separator_shorter [OF vl vh] less short vl
      by (auto simp: key_less_def compare_swap)
  next
    case False
    then have "seps ! i = cmp_FindShortSuccessor cmp (fst ?l)" using keys i by (simp add: index_keys_def)
    then show ?thesis using successor_after [OF vl refl] successor_shorter [OF vl] short False vl
      by (auto simp: key_less_def compare_swap)
  qed
  then show "valid (seps ! i)" "length (seps ! i) < 2 ^ 32" by auto
  show "\<not> key_less (seps ! i) (fst e)" if "e \<in> set (ds ! i)"
    using sep last_entry [OF t i that] block_entry(1) [OF t i that] vl key_less_trans [of "seps ! i" "fst e" "fst ?l"] by auto
  show "key_less (seps ! i) (fst e)" if j: "j < length ds" "i < j" "e \<in> set (ds ! j)"
  proof -
    have s: "Suc i < length ds" using j by simp
    let ?h = "hd (ds ! Suc i)"
    have h: "?h \<in> set (ds ! Suc i)" using block_entry(2) [OF t s] by simp
    have "?h = e \<or> key_less (fst ?h) (fst e)"
      using hd_entry [OF t s, of e] block_entry(5) [OF t s j(1) _ h j(3)] j by (cases "j = Suc i") auto
    then show ?thesis
      using sep s block_entry(1) [OF t s h] block_entry(1) [OF t j(1,3)] key_less_trans [of "seps ! i" "fst ?h" "fst e"] by auto
  qed
qed

lemma index_sorted:
  assumes t: "ordered_table opts ds seps"
  shows "map fst (index_entries opts' sn ds seps) = seps" and "sorted_wrt key_less seps"
proof -
  have n: "length seps = length ds" using t by (simp add: ordered_table_def index_keys_def)
  then show "map fst (index_entries opts' sn ds seps) = seps" by (simp add: index_entries_def)
  show "sorted_wrt key_less seps"
    unfolding sorted_wrt_iff_nth_less
  proof (intro allI impI)
    fix i j assume ij: "i < j" "j < length seps"
    then have i: "i < length ds" and j: "j < length ds" using n by auto
    have h: "hd (ds ! j) \<in> set (ds ! j)" using block_entry(2) [OF t j] by simp
    show "key_less (seps ! i) (seps ! j)"
      using index_key(4) [OF t i j ij(1) h] index_key(3) [OF t j h] index_key(1) [OF t i] index_key(1) [OF t j]
        block_entry(1) [OF t j h] key_less_linear [of "seps ! j" "fst (hd (ds ! j))"]
        key_less_trans [of "seps ! i" "fst (hd (ds ! j))" "seps ! j"] by auto
  qed
qed

lemma Seek_index:
  assumes t: "ordered_table opts ds seps" and small: "table_small opts sn ds seps" and k: "valid k"
  shows "\<exists>it. iter_Seek cmp k (new_iter (index_raw opts sn ds seps)) = Some it \<and> iter_status it = OK \<and>
    (\<not> iter_Valid it \<and> (\<forall>i < length ds. key_less (seps ! i) k) \<or>
     (\<exists>j < length ds. iter_Valid it \<and> iter_value it = Some (handle_EncodeTo (handle_of opts sn ds j) []) \<and>
        \<not> key_less (seps ! j) k \<and> (\<forall>i < j. key_less (seps ! i) k)))"
proof -
  let ?es = "index_entries opts sn ds seps"
  have n: "length seps = length ds" using t by (simp add: ordered_table_def index_keys_def)
  have at: "?es ! i = (seps ! i, handle_EncodeTo (handle_of opts sn ds i) [])" "length ?es = length ds" if "i < length ds" for i
    using that n by (simp_all add: index_entries_def)
  have len: "length ?es = length ds" using n by (simp add: index_entries_def)
  have "fits ?es"
    using index_key(2) [OF t] length_handle n unfolding fits_def index_entries_def by (auto simp: set_zip)
  moreover have "\<forall>e \<in> set ?es. valid (fst e)"
    using index_key(1) [OF t] n unfolding index_entries_def by (auto simp: set_zip)
  moreover have "length (block_of 1 ?es) < 2 ^ 32" using small by (simp add: table_small_def index_raw_def)
  ultimately obtain it where it: "iter_Seek cmp k (new_iter (index_raw opts sn ds seps)) = Some it" "iter_status it = OK"
    "iter_at it (first_from k ?es)"
    using iter_Seek_block [of 1 ?es k] index_sorted(1) [OF t, of opts sn] index_sorted(2) [OF t] k by (auto simp: index_raw_def)
  show ?thesis
  proof (cases "first_from k ?es")
    case None
    then have below: "\<forall>e \<in> set ?es. key_less (fst e) k" by (simp only: first_from_None)
    have "key_less (seps ! i) k" if "i < length ds" for i
      using below nth_mem [of i ?es] at [OF that] that by auto
    then show ?thesis using it None by (auto simp: iter_at_def)
  next
    case (Some e)
    then obtain j where j: "j < length ?es" "\<not> key_less (fst (?es ! j)) k" "e = ?es ! j" "\<forall>i < j. key_less (fst (?es ! i)) k"
      by (auto simp: first_from_def find_Some_iff)
    then have "iter_Valid it" "iter_value it = Some (handle_EncodeTo (handle_of opts sn ds j) [])"
      using it(3) Some at [of j] len by (auto simp: iter_at_def)
    moreover have "\<not> key_less (seps ! j) k" "\<forall>i < j. key_less (seps ! i) k"
      using j at len by auto
    ultimately show ?thesis using it(1,2) j(1) len by auto
  qed
qed

lemma entries_before:
  assumes t: "ordered_table opts ds seps" and i: "i < length ds" and k: "valid k" "key_less (seps ! i) k" and e: "e \<in> set (ds ! i)"
  shows "key_less (fst e) k"
  using index_key(1,3) [OF t i] e block_entry(1) [OF t i e] k key_less_linear [of "seps ! i" "fst e"]
    key_less_trans [of "fst e" "seps ! i" k] by auto

lemma first_from_block:
  assumes t: "ordered_table opts ds seps" and j: "j < length ds" and k: "valid k" "\<forall>i < j. key_less (seps ! i) k"
    and e: "first_from k (ds ! j) = Some e"
  shows "first_from k (concat ds) = Some e"
proof -
  have "first_from k (concat (take j ds)) = None"
    unfolding first_from_None
  proof
    fix e' assume "e' \<in> set (concat (take j ds))"
    then obtain i where "i < j" "i < length ds" "e' \<in> set (ds ! i)" using in_concat [of e' "take j ds"] by auto
    then show "key_less (fst e') k" using entries_before [OF t _ k(1)] k(2) by blast
  qed
  moreover have "concat ds = concat (take j ds) @ ds ! j @ concat (drop (Suc j) ds)"
    by (subst id_take_nth_drop [OF j]) simp
  ultimately show ?thesis using e by (simp add: first_from_append)
qed

lemma same_in_block:
  assumes t: "ordered_table opts ds seps" and j: "j < length ds" and k: "valid k" "\<not> key_less (seps ! j) k" "\<forall>i < j. key_less (seps ! i) k"
    and e: "e \<in> set (concat ds)" "\<not> key_less (fst e) k" "same k (fst e)"
  shows "\<exists>m \<in> set (ds ! j). same k (fst m) \<and> \<not> key_less (fst m) k"
proof -
  obtain i where i: "i < length ds" "e \<in> set (ds ! i)" using in_concat [OF e(1)] by blast
  consider "i < j" | "i = j" | "j < i" by linarith
  then show ?thesis
  proof cases
    case 1
    then show ?thesis using entries_before [OF t i(1) k(1) _ i(2)] k(3) e(2) by blast
  next
    case 2
    then show ?thesis using i e by blast
  next
    case 3
    let ?l = "last (ds ! j)" and ?h = "hd (ds ! Suc j)"
    have s: "Suc j < length ds" using 3 i by simp
    have l: "?l \<in> set (ds ! j)" and h: "?h \<in> set (ds ! Suc j)" using block_entry(2) [OF t j] block_entry(2) [OF t s] by simp_all
    have he: "\<not> key_less (fst e) (fst ?h)"
      using block_entry(1) [OF t s h] block_entry(1) [OF t i] hd_entry [OF t s, of e] block_entry(5) [OF t s i(1) _ h i(2)] 3 i(2)
        key_less_asym [of "fst ?h" "fst e"] by (cases "i = Suc j") auto
    have le: "key_less (fst ?l) (fst e)" using block_entry(5) [OF t j i(1) 3 l i(2)] .
    note v = block_entry(1) [OF t j l] block_entry(1) [OF t s h] block_entry(1) [OF t i]
    have "\<not> key_less (fst ?l) k"
    proof
      assume "key_less (fst ?l) k"
      moreover have "seps ! j = cmp_FindShortestSeparator cmp (fst ?l) (fst ?h)"
        using t s by (simp add: ordered_table_def index_keys_def)
      moreover have "key_less (fst ?l) (fst ?h)" using block_entry(5) [OF t j s _ l h] by simp
      ultimately show False
        using same_gap [OF v(1,2) k(1) v(3)] k(2) he e(3) by (simp add: key_less_def)
    qed
    moreover from this have "same k (fst ?l)"
      using same_between [OF k(1) v(1,3) e(3)] key_less_asym [OF v(1,3) le] by (simp add: key_less_def)
    ultimately show ?thesis using l by blast
  qed
qed

end

section \<open>The filter\<close>

lemma filter_of_block:
  assumes small: "table_small opts sn ds seps" and policy: "op_filter_policy opts = Some policy" "filter_policy policy"
    and j: "j < length ds" and m: "m \<in> set (ds ! j)"
  shows "filter_KeyMayMatch policy (FilterBlockReader (filter_block policy (filter_blocks opts sn ds [])))
    (unat (bh_offset (handle_of opts sn ds j))) (fst m) = Some True"
proof -
  let ?off = "\<lambda>i. unat (of_nat (length (data_bytes opts sn (take i ds))) :: u64)"
  have big: "length (data_bytes opts sn ds) < 2 ^ 64"
    using small by (simp add: table_small_def table_bytes_data)
  have len: "length (data_bytes opts sn (take i ds)) \<le> length (data_bytes opts sn (take i' ds))" if "i \<le> i'" for i i'
  proof -
    have "take i' ds = take i ds @ take (i' - i) (drop i ds)" using that by (simp add: take_add [symmetric])
    then show ?thesis by (simp add: data_bytes_def)
  qed
  have off: "?off i = length (data_bytes opts sn (take i ds))" for i
    using big len [of i "max i (length ds)"] by (simp add: unsigned_of_nat take_bit_nat_eq_self)
  have offs: "map fst (filter_blocks opts sn ds []) = map (\<lambda>i. length (data_bytes opts sn (take i ds))) [0..<Suc (length ds)]"
    using off [of "length ds"] by (simp add: filter_blocks_def comp_def off)
  have "sorted (map fst (filter_blocks opts sn ds []))"
    unfolding offs by (auto simp: sorted_iff_nth_mono len simp del: upt_Suc)
  moreover have "(?off j, map fst (ds ! j)) \<in> set (filter_blocks opts sn ds [])"
    using j by (auto simp: filter_blocks_def)
  moreover have "bh_offset (handle_of opts sn ds j) = of_nat (length (data_bytes opts sn (take j ds)))"
    by (simp add: handle_of_def block_handle_def)
  ultimately show ?thesis
    using filter_policy.no_false_negatives [OF policy(2), of "filter_blocks opts sn ds []" "?off j" "map fst (ds ! j)" "fst m"]
      small policy(1) m by (simp add: table_small_def)
qed

lemma filter_answers:
  assumes "filter_KeyMayMatch policy r off m = Some x"
  shows "\<exists>y. filter_KeyMayMatch policy r off k = Some y \<and> (fp_KeyMayMatch policy k = fp_KeyMayMatch policy m \<longrightarrow> y = x)"
proof -
  let ?i = "off div 2 ^ fr_base_lg r"
  have lg: "\<not> 64 \<le> fr_base_lg r" using assms by (auto simp: filter_KeyMayMatch_def)
  have "\<exists>f. \<forall>key. filter_KeyMayMatch policy r off key = Some (f (fp_KeyMayMatch policy key))"
  proof (cases "?i < fr_num r")
    case True
    then obtain a b where "DecodeFixed32 (drop (fr_offset r + ?i * 4) (fr_data r)) = Some a"
      "DecodeFixed32 (drop (fr_offset r + ?i * 4 + 4) (fr_data r)) = Some b"
      using assms lg by (auto simp: filter_KeyMayMatch_def Let_def bind_eq_Some_conv)
    then have "\<forall>key. filter_KeyMayMatch policy r off key = Some ((\<lambda>q. if unat a \<le> unat b \<and> unat b \<le> fr_offset r
        then q (take (unat b - unat a) (drop (unat a) (fr_data r))) else unat a \<noteq> unat b) (fp_KeyMayMatch policy key))"
      using lg True by (auto simp: filter_KeyMayMatch_def Let_def)
    then show ?thesis
      by (intro exI [of _ "\<lambda>q. if unat a \<le> unat b \<and> unat b \<le> fr_offset r
        then q (take (unat b - unat a) (drop (unat a) (fr_data r))) else unat a \<noteq> unat b"]) simp
  next
    case False
    then have "\<forall>key. filter_KeyMayMatch policy r off key = Some ((\<lambda>q. True) (fp_KeyMayMatch policy key))"
      using lg by (simp add: filter_KeyMayMatch_def Let_def)
    then show ?thesis by (intro exI [of _ "\<lambda>q. True"]) simp
  qed
  then show ?thesis using assms by auto
qed

definition policy_ok :: "(slice \<Rightarrow> slice \<Rightarrow> bool) \<Rightarrow> Options \<Rightarrow> bool" where
  "policy_ok same opts \<longleftrightarrow> (\<forall>policy. op_filter_policy opts = Some policy \<longrightarrow>
     filter_policy policy \<and> (\<forall>a b. same a b \<longrightarrow> fp_KeyMayMatch policy a = fp_KeyMayMatch policy b))"

lemma filter_allows:
  assumes small: "table_small opts sn ds seps" and policy: "policy_ok same opts" and j: "j < length ds" "ds ! j \<noteq> []"
  shows "\<exists>denied. filter_denies (opened_table opts sn ds seps read_at cache_id) (handle_EncodeTo (handle_of opts sn ds j) []) k = Some denied \<and>
    (denied \<longrightarrow> \<not> (\<exists>m \<in> set (ds ! j). same k (fst m)))"
proof (cases "op_filter_policy opts")
  case None
  then show ?thesis by (intro exI [of _ False]) (simp add: filter_denies_def opened_table_def)
next
  case (Some p)
  let ?r = "FilterBlockReader (filter_block p (filter_blocks opts sn ds []))" and ?off = "unat (bh_offset (handle_of opts sn ds j))"
  have p: "filter_policy p" "\<And>a b. same a b \<Longrightarrow> fp_KeyMayMatch p a = fp_KeyMayMatch p b"
    using policy Some by (auto simp: policy_ok_def)
  obtain y where y: "filter_KeyMayMatch p ?r ?off k = Some y"
    using filter_answers [OF filter_of_block [OF small Some p(1) j(1), of "hd (ds ! j)"]] j(2) by auto
  moreover have "y" if "m \<in> set (ds ! j)" "same k (fst m)" for m
    using filter_answers [OF filter_of_block [OF small Some p(1) j(1) that(1)], of k] p(2) [OF that(2)] y by simp
  ultimately show ?thesis using Some by (auto simp: filter_denies_def opened_table_def)
qed

section \<open>Lookups\<close>

text \<open>What is in the cache under the key of a block of this table is that block.\<close>

definition cache_serves ::
  "'c block_cache option \<Rightarrow> Options \<Rightarrow> Snappy \<Rightarrow> (slice \<times> slice) list list \<Rightarrow> Table \<Rightarrow> 'c \<Rightarrow> bool"
where
  "cache_serves cache opts sn ds t c \<longleftrightarrow> (\<forall>ops. cache = Some ops \<longrightarrow>
     (\<forall>i < length ds. \<forall>blk c'. ca_lookup ops (cache_key t (handle_of opts sn ds i)) c = (Some blk, c') \<longrightarrow>
        blk = raw_block opts (ds ! i)))"

lemma BlockReader_block:
  assumes rf: "random_access_file read_at (table_bytes opts sn ds seps)" and small: "table_small opts sn ds seps"
    and env: "accel_ok (ce_accel ce)" "snappy_ok sn" and t: "t = opened_table opts sn ds seps read_at cache_id"
    and cache: "cache_serves cache opts sn ds t c" and j: "j < length ds"
  shows "\<exists>c'. BlockReader ce sn cache ro t (handle_EncodeTo (handle_of opts sn ds j) []) c =
    Some (new_iter (raw_block opts (ds ! j)), c')"
proof -
  let ?h = "handle_of opts sn ds j"
  have "table_bytes opts sn ds seps = data_bytes opts sn (take j ds) @ file_block opts sn (raw_block opts (ds ! j)) @
      data_bytes opts sn (drop (Suc j) ds) @ fst (meta_part opts sn ds) @ file_block opts sn (meta_raw opts sn ds) @
      file_block opts sn (index_raw opts sn ds seps) @ footer_EncodeTo (table_footer opts sn ds seps) []"
    unfolding table_bytes_data by (subst data_block_at [OF j]) simp
  from read_file_block [OF rf this _ env, of "ro_verify_checksums ro"] small obtain contents where
    r: "ReadBlock ce sn read_at (ro_verify_checksums ro) ?h = Some (OK, contents)" "bc_data contents = raw_block opts (ds ! j)"
    by (auto simp: handle_of_def table_small_def)
  have f: "ta_file t = read_at" by (simp add: t opened_table_def)
  show ?thesis
  proof (cases cache)
    case None
    then show ?thesis using r f by (simp add: BlockReader_def)
  next
    case (Some ops)
    obtain found c1 where l: "ca_lookup ops (cache_key t ?h) c = (found, c1)" by force
    then have "found = Some blk \<Longrightarrow> blk = raw_block opts (ds ! j)" for blk using cache Some j by (auto simp: cache_serves_def)
    then show ?thesis using r f Some l by (cases found) (simp_all add: BlockReader_def)
  qed
qed

context table_order
begin

lemma table_get:
  assumes t: "ordered_table opts ds seps" and rf: "random_access_file read_at (table_bytes opts sn ds seps)"
    and small: "table_small opts sn ds seps" and env: "accel_ok (ce_accel ce)" "snappy_ok sn" and policy: "policy_ok same opts"
    and opened: "tab = opened_table opts sn ds seps read_at cache_id" and cache: "cache_serves cache opts sn ds tab c"
    and k: "valid k"
  shows "\<exists>found c'. InternalGet ce sn cache ro tab k c = Some (OK, found, c') \<and>
    (case found of
       Some e \<Rightarrow> first_from k (concat ds) = Some e
     | None \<Rightarrow> \<forall>e \<in> set (concat ds). \<not> key_less (fst e) k \<longrightarrow> \<not> same k (fst e))"
proof -
  have tab: "ta_index_block tab = index_raw opts sn ds seps" "op_comparator (ta_options tab) = cmp"
    using t by (simp_all add: opened opened_table_def ordered_table_def)
  obtain it where it: "iter_Seek cmp k (new_iter (index_raw opts sn ds seps)) = Some it" "iter_status it = OK"
    and at: "\<not> iter_Valid it \<and> (\<forall>i < length ds. key_less (seps ! i) k) \<or>
     (\<exists>j < length ds. iter_Valid it \<and> iter_value it = Some (handle_EncodeTo (handle_of opts sn ds j) []) \<and>
        \<not> key_less (seps ! j) k \<and> (\<forall>i < j. key_less (seps ! i) k))"
    using Seek_index [OF t small k] by blast
  from at show ?thesis
  proof (elim disjE exE conjE)
    assume none: "\<not> iter_Valid it" "\<forall>i < length ds. key_less (seps ! i) k"
    have "key_less (fst e) k" if e: "e \<in> set (concat ds)" for e
      using in_concat [OF e] entries_before [OF t _ k] none(2) by blast
    then show ?thesis using it none(1) by (simp add: InternalGet_def tab)
  next
    fix j
    assume j: "j < length ds" and valid: "iter_Valid it" and h: "iter_value it = Some (handle_EncodeTo (handle_of opts sn ds j) [])"
      and sep: "\<not> key_less (seps ! j) k" "\<forall>i < j. key_less (seps ! i) k"
    obtain denied where denied: "filter_denies tab (handle_EncodeTo (handle_of opts sn ds j) []) k = Some denied"
      "denied \<Longrightarrow> \<not> (\<exists>m \<in> set (ds ! j). same k (fst m))"
      using filter_allows [OF small policy j block_entry(2) [OF t j]] unfolding opened by blast
    show ?thesis
    proof (cases denied)
      case True
      then have "\<forall>e \<in> set (concat ds). \<not> key_less (fst e) k \<longrightarrow> \<not> same k (fst e)"
        using same_in_block [OF t j k sep] denied(2) by blast
      then show ?thesis using it valid h denied(1) True by (simp add: InternalGet_def tab)
    next
      case False
      obtain c1 where c1: "BlockReader ce sn cache ro tab (handle_EncodeTo (handle_of opts sn ds j) []) c =
          Some (new_iter (raw_block opts (ds ! j)), c1)"
        using BlockReader_block [OF rf small env opened cache j] by blast
      have "\<forall>e \<in> set (ds ! j). valid (fst e)" using block_entry(1) [OF t j] by blast
      moreover have "length (block_of (op_block_restart_interval opts) (ds ! j)) < 2 ^ 32"
        using small j by (simp add: table_small_def raw_block_def)
      ultimately obtain bi where bi: "iter_Seek cmp k (new_iter (raw_block opts (ds ! j))) = Some bi" "iter_status bi = OK"
        "iter_at bi (first_from k (ds ! j))"
        using iter_Seek_block [of "op_block_restart_interval opts" "ds ! j" k] t k block_entry(3,4) [OF t j]
        by (auto simp: raw_block_def ordered_table_def)
      show ?thesis
      proof (cases "first_from k (ds ! j)")
        case None
        then have "\<forall>e \<in> set (concat ds). \<not> key_less (fst e) k \<longrightarrow> \<not> same k (fst e)"
          using same_in_block [OF t j k sep] by (auto simp: first_from_None)
        then show ?thesis using it valid h denied(1) False c1 bi None by (simp add: InternalGet_def tab iter_at_def)
      next
        case (Some e)
        then have "first_from k (concat ds) = Some e" using first_from_block [OF t j k sep(2)] by blast
        moreover have "iter_Valid bi" "iter_key bi = fst e" "iter_value bi = Some (snd e)"
          using bi(3) Some by (auto simp: iter_at_def split: prod.splits)
        ultimately show ?thesis using it valid h denied(1) False c1 bi(1,2) by (simp add: InternalGet_def tab)
      qed
    qed
  qed
qed

end

section \<open>From the builder to lookups\<close>

lemma without_snappy: "file_block opts no_snappy raw = stored_block kNoCompression raw"
  by (simp add: file_block_def compress_block_def no_snappy_def split: CompressionType.split)

lemma small_file:
  assumes "length (table_bytes opts no_snappy ds seps) < 2 ^ 32"
    and "\<forall>policy. op_filter_policy opts = Some policy \<longrightarrow> length (fp_Name policy) < 2 ^ 31"
  shows "table_small opts no_snappy ds seps"
proof -
  have parts: "length (table_bytes opts no_snappy ds seps) = length (data_bytes opts no_snappy ds) +
      length (fst (meta_part opts no_snappy ds)) + length (stored_block kNoCompression (meta_raw opts no_snappy ds)) +
      length (stored_block kNoCompression (index_raw opts no_snappy ds seps)) +
      length (footer_EncodeTo (table_footer opts no_snappy ds seps) [])"
    by (simp add: table_bytes_data without_snappy)
  have "length (raw_block opts d) \<le> length (data_bytes opts no_snappy ds)" if d: "d \<in> set ds" for d
  proof -
    obtain i where i: "i < length ds" "ds ! i = d" using d unfolding in_set_conv_nth by blast
    then show ?thesis using data_block_at [OF i(1), of opts no_snappy] by (simp add: without_snappy)
  qed
  then have "\<forall>d \<in> set ds. length (raw_block opts d) < 2 ^ 32" using assms(1) parts by force
  moreover have "length (filter_block policy (filter_blocks opts no_snappy ds [])) < 2 ^ 32" if "op_filter_policy opts = Some policy" for policy
    using assms(1) parts that by (simp add: meta_part_def Let_def)
  ultimately show ?thesis using assms parts by (simp add: table_small_def)
qed

lemma internal_bloom_ok:
  assumes "op_filter_policy opts \<in> {None, Some (InternalFilterPolicy (NewBloomFilterPolicy bits_per_key product))}"
  shows "policy_ok (\<lambda>a b. ExtractUserKey a = ExtractUserKey b) opts"
  unfolding policy_ok_def
proof (intro allI impI)
  fix policy assume "op_filter_policy opts = Some policy"
  then have p: "policy = InternalFilterPolicy (NewBloomFilterPolicy bits_per_key product)" using assms by simp
  have "fp_KeyMayMatch policy a = fp_KeyMayMatch policy b" if "ExtractUserKey a = ExtractUserKey b" for a b
    unfolding p InternalFilterPolicy_def using that by simp
  then show "filter_policy policy \<and> (\<forall>a b. ExtractUserKey a = ExtractUserKey b \<longrightarrow> fp_KeyMayMatch policy a = fp_KeyMayMatch policy b)"
    using internal_bloom.filter_policy_axioms unfolding p by blast
qed

abbreviation posix_env :: "crc_env \<Rightarrow> scripted_os PosixWritableFile build_env" where
  "posix_env ce \<equiv> \<lparr>be_crc = ce, be_snappy = no_snappy, be_append = PosixAppend scripted_write, be_flush = FlushBuffer scripted_write\<rparr>"

text \<open>C3: tables answer lookups. Entries in the order of internal keys, added to a table builder over a
  file whose writes may be short or interrupted, give a file that opens, if it is smaller than 4 GiB;
  a lookup in it returns without an error and finds the first entry that is not below the key, or
  nothing, and then there is no entry of that user key at or after it. The filter, when there is one,
  and the shortened keys of the index change nothing of that.\<close>

theorem table_lookup_correct:
  assumes "sorted_wrt (\<lambda>a b. InternalCompare BytewiseComparator a b < 0) (map fst kvs)"
    and "\<forall>(k, v) \<in> set kvs. internal_key_ok k \<and> length k < 2 ^ 32 \<and> length v < 2 ^ 32"
    and "accel_ok (ce_accel ce)" and "op_comparator opts = InternalKeyComparator BytewiseComparator"
    and "1 \<le> op_block_restart_interval opts"
    and "op_filter_policy opts \<in> {None, Some (InternalFilterPolicy (NewBloomFilterPolicy bits_per_key product))}"
  shows "\<exists>r r'. table_add_all (posix_env ce) kvs (TableBuilder opts (new_file script)) = Some r \<and>
    table_Finish (posix_env ce) r = Some (OK, r') \<and>
    (let bytes = posix_contents (tb_file r') in
     length bytes < 2 ^ 32 \<longrightarrow>
       (\<exists>t. table_Open ce no_snappy opts cache_id (MmapRead bytes) (of_nat (length bytes)) = Some (OK, Some t) \<and>
         (\<forall>k. internal_key_ok k \<longrightarrow>
           (\<exists>found. InternalGet ce no_snappy None ro t k () = Some (OK, found, ()) \<and>
             (case found of
                Some e \<Rightarrow> find (\<lambda>e. \<not> InternalCompare BytewiseComparator (fst e) k < 0) kvs = Some e
              | None \<Rightarrow> \<forall>e \<in> set kvs. \<not> InternalCompare BytewiseComparator (fst e) k < 0 \<longrightarrow>
                  ExtractUserKey k \<noteq> ExtractUserKey (fst e))))))"
proof -
  have env: "posix_writer.env ce no_snappy = posix_env ce" by (simp add: posix_writer.env_def)
  have new: "posix_contents (new_file script) = []" by (simp add: posix_contents_def new_file_def)
  obtain r r' ds seps where built: "table_add_all (posix_env ce) kvs (TableBuilder opts (new_file script)) = Some r"
    "table_Finish (posix_env ce) r = Some (OK, r')" "concat ds = kvs" "\<forall>d \<in> set ds. d \<noteq> []"
    "index_keys (op_comparator opts) ds seps" "posix_contents (tb_file r') = table_bytes opts no_snappy ds seps"
    using posix_writer.table_written [OF TrueI new assms(3), of no_snappy kvs opts] unfolding env by blast
  have less: "internal.key_less = (\<lambda>a b. InternalCompare BytewiseComparator a b < 0)"
    unfolding internal.key_less_def [abs_def] by (simp add: InternalKeyComparator_def)
  have t: "internal_table.ordered_table opts ds seps"
    unfolding internal_table.ordered_table_def fits_def less using assms(1,2,4,5) built(3-5) by auto
  have "policy_ok (\<lambda>a b. ExtractUserKey a = ExtractUserKey b) opts"
    using assms(6) by (rule internal_bloom_ok)
  note policy = this
  let ?bytes = "posix_contents (tb_file r')" and ?t = "\<lambda>read_at. opened_table opts no_snappy ds seps read_at cache_id"
  have open_get: "\<exists>t. table_Open ce no_snappy opts cache_id (MmapRead ?bytes) (of_nat (length ?bytes)) = Some (OK, Some t) \<and>
      (\<forall>k. internal_key_ok k \<longrightarrow>
        (\<exists>found. InternalGet ce no_snappy None ro t k () = Some (OK, found, ()) \<and>
          (case found of Some e \<Rightarrow> internal.first_from k kvs = Some e
           | None \<Rightarrow> \<forall>e \<in> set kvs. \<not> internal.key_less (fst e) k \<longrightarrow> ExtractUserKey k \<noteq> ExtractUserKey (fst e))))"
    if "length ?bytes < 2 ^ 32"
  proof -
    have small: "table_small opts no_snappy ds seps"
      using small_file [of opts ds seps] that assms(6) built(6)
      by (auto simp: InternalFilterPolicy_def NewBloomFilterPolicy_def string_bytes_def)
    note rf = mmap_file.random_access_file_axioms [of "table_bytes opts no_snappy ds seps"]
    have "table_Open ce no_snappy opts cache_id (MmapRead ?bytes) (of_nat (length ?bytes)) = Some (OK, Some (?t (MmapRead ?bytes)))"
      using table_opens [OF rf small assms(3) no_snappy_ok assms(5)] built(6) by simp
    moreover have "\<exists>found. InternalGet ce no_snappy None ro (?t (MmapRead ?bytes)) k () = Some (OK, found, ()) \<and>
        (case found of Some e \<Rightarrow> internal.first_from k kvs = Some e
         | None \<Rightarrow> \<forall>e \<in> set kvs. \<not> internal.key_less (fst e) k \<longrightarrow> ExtractUserKey k \<noteq> ExtractUserKey (fst e))"
      if "internal_key_ok k" for k
      using internal_table.table_get [OF t rf small assms(3) no_snappy_ok policy refl, of None cache_id "()" k ro] that
        built(3,6) by (auto simp: cache_serves_def)
    ultimately show ?thesis by blast
  qed
  have first: "internal.first_from k kvs = find (\<lambda>e. \<not> InternalCompare BytewiseComparator (fst e) k < 0) kvs" for k
    by (simp add: internal.first_from_def less)
  show ?thesis
    using built(1,2) open_get unfolding first less Let_def by blast
qed

lemma table_lookup_correct_witness:
  "\<exists>r r'. table_add_all (posix_env \<lparr>ce_accel = \<lambda>crc data. 0, ce_addr = \<lambda>_. 1\<rparr>)
      [(InternalKey [1] 9 kTypeValue, [7]), (InternalKey [3] 4 kTypeValue, [8])]
      (TableBuilder \<lparr>op_comparator = InternalKeyComparator BytewiseComparator, op_paranoid_checks = True, op_block_size = 4096,
        op_block_restart_interval = 16, op_compression = kSnappyCompression,
        op_filter_policy = Some (InternalFilterPolicy (NewBloomFilterPolicy 10 6))\<rparr> (new_file [Some 2, None])) = Some r \<and>
    table_Finish (posix_env \<lparr>ce_accel = \<lambda>crc data. 0, ce_addr = \<lambda>_. 1\<rparr>) r = Some (OK, r')"
proof -
  let ?kvs = "[(InternalKey [1] 9 kTypeValue, [7]), (InternalKey [3] 4 kTypeValue, [8])]"
  have sorted: "sorted_wrt (\<lambda>a b. InternalCompare BytewiseComparator a b < 0) (map fst ?kvs)"
    by (simp add: InternalCompare_def BytewiseComparator_def)
  have valid: "\<forall>(k, v) \<in> set ?kvs. internal_key_ok k \<and> length k < 2 ^ 32 \<and> length v < 2 ^ 32"
    by (simp add: InternalKey_def AppendInternalKey_split internal_key_ok_def)
  have accel: "accel_ok (ce_accel \<lparr>ce_accel = \<lambda>crc data. 0, ce_addr = \<lambda>_. 1\<rparr>)"
    by (simp add: accel_ok_def CanAccelerateCRC32C_def)
  let ?opts = "\<lparr>op_comparator = InternalKeyComparator BytewiseComparator, op_paranoid_checks = True, op_block_size = 4096,
      op_block_restart_interval = 16, op_compression = kSnappyCompression,
      op_filter_policy = Some (InternalFilterPolicy (NewBloomFilterPolicy 10 6))\<rparr>"
  have opts: "op_comparator ?opts = InternalKeyComparator BytewiseComparator" "1 \<le> op_block_restart_interval ?opts"
    "op_filter_policy ?opts \<in> {None, Some (InternalFilterPolicy (NewBloomFilterPolicy 10 6))}" by simp_all
  show ?thesis using table_lookup_correct [OF sorted valid accel opts, of "[Some 2, None]"] by blast
qed

end
