(* ===== verification/Ldb_Batch.thy ===== *)
theory Ldb_Batch
  imports Ldb_Keys
begin

text \<open>
  Write batches: \<open>leveldb-library/db/write_batch.cc\<close>. A batch is its \<open>rep_\<close>: eight bytes of sequence
  number, four of count, and the operations. A \<open>Handler\<close> is a pair of functions on the handler's
  state. \<open>Count\<close>, \<open>SetCount\<close> and the sequence number are only used with a whole header, as the
  code's asserts have it.
\<close>

section \<open>The class\<close>

definition kHeader :: nat where "kHeader = 12"

type_synonym write_batch = slice

definition batch_Clear :: write_batch where
  "batch_Clear = replicate kHeader 0"

definition ApproximateSize :: "write_batch \<Rightarrow> nat" where
  "ApproximateSize rep = length rep"

definition Count :: "write_batch \<Rightarrow> u32" where
  "Count rep = (case DecodeFixed32 (drop 8 rep) of Some n \<Rightarrow> n | None \<Rightarrow> 0)"

definition SetCount :: "write_batch \<Rightarrow> u32 \<Rightarrow> write_batch" where
  "SetCount rep n = take 8 rep @ EncodeFixed32 n @ drop 12 rep"

definition Sequence :: "write_batch \<Rightarrow> u64" where
  "Sequence rep = (case DecodeFixed64 rep of Some n \<Rightarrow> n | None \<Rightarrow> 0)"

definition SetSequence :: "write_batch \<Rightarrow> u64 \<Rightarrow> write_batch" where
  "SetSequence rep seq = EncodeFixed64 seq @ drop 8 rep"

definition tag_byte :: "ValueType \<Rightarrow> u8" where
  "tag_byte t = ucast (type_code t)"

definition batch_Put :: "write_batch \<Rightarrow> slice \<Rightarrow> slice \<Rightarrow> write_batch" where
  "batch_Put rep key v =
     (let rep = SetCount rep (Count rep + 1); rep = rep @ [tag_byte kTypeValue];
          rep = PutLengthPrefixedSlice rep key
      in PutLengthPrefixedSlice rep v)"

definition batch_Delete :: "write_batch \<Rightarrow> slice \<Rightarrow> write_batch" where
  "batch_Delete rep key =
     (let rep = SetCount rep (Count rep + 1); rep = rep @ [tag_byte kTypeDeletion]
      in PutLengthPrefixedSlice rep key)"

definition batch_Append :: "write_batch \<Rightarrow> write_batch \<Rightarrow> write_batch" where
  "batch_Append dst src = SetCount dst (Count dst + Count src) @ drop kHeader src"

definition SetContents :: "slice \<Rightarrow> write_batch" where
  "SetContents contents = contents"

record 'h Handler =
  h_Put :: "slice \<Rightarrow> slice \<Rightarrow> 'h \<Rightarrow> 'h"
  h_Delete :: "slice \<Rightarrow> 'h \<Rightarrow> 'h"

text \<open>The loop of \<open>Iterate\<close> ends with a status, or with the number of operations found.\<close>

function iterate_loop :: "'h Handler \<Rightarrow> slice \<Rightarrow> nat \<Rightarrow> 'h \<Rightarrow> (Status + nat) \<times> 'h" where
  "iterate_loop handler [] found h = (Inr found, h)"
| "iterate_loop handler (t # input) found h =
     (if t = tag_byte kTypeValue
      then case GetLengthPrefixedSlice input of
             (Some key, input) \<Rightarrow>
               (case GetLengthPrefixedSlice input of
                  (Some v, input) \<Rightarrow> iterate_loop handler input (found + 1) (h_Put handler key v h)
                | (None, _) \<Rightarrow> (Inl (Corruption ''bad WriteBatch Put''), h))
           | (None, _) \<Rightarrow> (Inl (Corruption ''bad WriteBatch Put''), h)
      else if t = tag_byte kTypeDeletion
      then case GetLengthPrefixedSlice input of
             (Some key, input) \<Rightarrow> iterate_loop handler input (found + 1) (h_Delete handler key h)
           | (None, _) \<Rightarrow> (Inl (Corruption ''bad WriteBatch Delete''), h)
      else (Inl (Corruption ''unknown WriteBatch tag''), h))"
  by pat_completeness auto
termination
  by (relation "measure (\<lambda>(handler, input, found, h). length input)")
    (auto dest!: sym [of _ "GetLengthPrefixedSlice _"] GetLengthPrefixedSlice_shorter)

definition Iterate :: "'h Handler \<Rightarrow> write_batch \<Rightarrow> 'h \<Rightarrow> Status \<times> 'h" where
  "Iterate handler rep h =
     (if length rep < kHeader then (Corruption ''malformed WriteBatch (too small)'', h)
      else case iterate_loop handler (drop kHeader rep) 0 h of
             (Inl s, h) \<Rightarrow> (s, h)
           | (Inr found, h) \<Rightarrow>
               (if int found \<noteq> sint (Count rep) then Corruption ''WriteBatch has wrong count'' else OK, h))"

text \<open>The inserter of a memory table: \<open>add\<close> is the table's operation, the state is the next
  sequence number and the table.\<close>

definition MemTableInserter ::
  "(u64 \<Rightarrow> ValueType \<Rightarrow> slice \<Rightarrow> slice \<Rightarrow> 'm \<Rightarrow> 'm) \<Rightarrow> (u64 \<times> 'm) Handler"
where
  "MemTableInserter add =
     \<lparr>h_Put = (\<lambda>key v (seq, mem). (seq + 1, add seq kTypeValue key v mem)),
      h_Delete = (\<lambda>key (seq, mem). (seq + 1, add seq kTypeDeletion key [] mem))\<rparr>"

definition InsertInto ::
  "(u64 \<Rightarrow> ValueType \<Rightarrow> slice \<Rightarrow> slice \<Rightarrow> 'm \<Rightarrow> 'm) \<Rightarrow> write_batch \<Rightarrow> 'm \<Rightarrow> Status \<times> 'm"
where
  "InsertInto add rep mem = (case Iterate (MemTableInserter add) rep (Sequence rep, mem) of (s, _, mem) \<Rightarrow> (s, mem))"

section \<open>Batches as lists of operations\<close>

datatype batch_op = BPut slice slice | BDelete slice

primrec op_fits :: "batch_op \<Rightarrow> bool" where
  "op_fits (BPut k v) = (length k < 2 ^ 32 \<and> length v < 2 ^ 32)"
| "op_fits (BDelete k) = (length k < 2 ^ 32)"

primrec op_bytes :: "batch_op \<Rightarrow> slice" where
  "op_bytes (BPut k v) = tag_byte kTypeValue # PutLengthPrefixedSlice (PutLengthPrefixedSlice [] k) v"
| "op_bytes (BDelete k) = tag_byte kTypeDeletion # PutLengthPrefixedSlice [] k"

primrec batch_add :: "batch_op \<Rightarrow> write_batch \<Rightarrow> write_batch" where
  "batch_add (BPut k v) rep = batch_Put rep k v"
| "batch_add (BDelete k) rep = batch_Delete rep k"

primrec op_handle :: "'h Handler \<Rightarrow> batch_op \<Rightarrow> 'h \<Rightarrow> 'h" where
  "op_handle handler (BPut k v) = h_Put handler k v"
| "op_handle handler (BDelete k) = h_Delete handler k"

definition batch_of :: "u64 \<Rightarrow> batch_op list \<Rightarrow> write_batch" where
  "batch_of seq ops = EncodeFixed64 seq @ EncodeFixed32 (of_nat (length ops)) @ concat (map op_bytes ops)"

lemma tag_bytes [simp]: "tag_byte kTypeValue \<noteq> tag_byte kTypeDeletion" "tag_byte kTypeDeletion \<noteq> tag_byte kTypeValue"
  by (simp_all add: tag_byte_def)

lemma PutLengthPrefixedSlice_append: "PutLengthPrefixedSlice dst v = dst @ EncodeVarint32 (of_nat (length v)) @ v"
  by (simp add: PutLengthPrefixedSlice_def PutVarint32_def)

lemma batch_parts [simp]:
  "length (batch_of seq ops) = kHeader + length (concat (map op_bytes ops))"
  "Count (batch_of seq ops) = of_nat (length ops)" "Sequence (batch_of seq ops) = seq"
  "drop kHeader (batch_of seq ops) = concat (map op_bytes ops)"
  by (simp_all add: batch_of_def Count_def Sequence_def kHeader_def)

lemma batch_Clear_of: "batch_Clear = batch_of 0 []"
  by (simp add: batch_Clear_def batch_of_def kHeader_def EncodeFixed32_def EncodeFixed64_def numeral_eq_Suc)

lemma batch_add_of: "batch_add op (batch_of seq ops) = batch_of seq (ops @ [op])"
  by (cases op)
    (simp_all add: batch_Put_def batch_Delete_def SetCount_def PutLengthPrefixedSlice_append Let_def,
      simp_all add: batch_of_def PutLengthPrefixedSlice_append add.commute)

lemma SetSequence_of: "SetSequence (batch_of seq ops) seq' = batch_of seq' ops"
  by (simp add: SetSequence_def batch_of_def)

lemma batch_Append_of: "batch_Append (batch_of seq ops) (batch_of seq' ops') = batch_of seq (ops @ ops')"
  by (simp add: batch_Append_def SetCount_def) (simp add: batch_of_def)

lemma iterate_op:
  assumes "op_fits op"
  shows "iterate_loop handler (op_bytes op @ rest) found h =
    iterate_loop handler rest (found + 1) (op_handle handler op h)"
  using assms by (cases op) (simp_all add: PutLengthPrefixedSlice_append)

lemma iterate_ops:
  assumes "\<forall>op \<in> set ops. op_fits op"
  shows "iterate_loop handler (concat (map op_bytes ops) @ rest) found h =
    iterate_loop handler rest (found + length ops) (fold (op_handle handler) ops h)"
  using assms by (induction ops arbitrary: found h) (simp_all add: iterate_op)

section \<open>What a batch does\<close>

lemma batch_built:
  "fold batch_add ops (batch_of seq ops') = batch_of seq (ops' @ ops)"
  by (induction ops arbitrary: ops') (simp_all add: batch_add_of)

lemma count_int: "n < 2 ^ 31 \<Longrightarrow> sint (of_nat n :: u32) = int n"
  by transfer (simp add: signed_take_bit_int_eq_self)

lemma Iterate_batch:
  assumes "\<forall>op \<in> set ops. op_fits op" and "length ops < 2 ^ 31"
  shows "Iterate handler (batch_of seq ops) h = (OK, fold (op_handle handler) ops h)"
proof -
  have "sint (of_nat (length ops) :: u32) = int (length ops)"
    using assms(2) by (rule count_int)
  with iterate_ops [OF assms(1), of handler "[]" 0 h] show ?thesis by (simp add: Iterate_def)
qed

text \<open>C17: a batch replays what was put into it: the operations of a batch that was built by \<open>Put\<close> and
  \<open>Delete\<close>, given a sequence number and extended by another such batch, are handed to any handler in
  the order they were made, with their keys and values, and \<open>Iterate\<close> returns \<open>OK\<close>.\<close>

theorem batch_replayed:
  assumes "\<forall>op \<in> set (ops @ ops'). op_fits op" and "length (ops @ ops') < 2 ^ 31"
  shows "Iterate handler (batch_Append (SetSequence (fold batch_add ops batch_Clear) seq) (fold batch_add ops' batch_Clear)) h =
    (OK, fold (op_handle handler) (ops @ ops') h)"
  unfolding batch_Clear_of batch_built SetSequence_of batch_Append_of append_Nil by (rule Iterate_batch [OF assms])

lemma batch_replayed_witness:
  "Iterate (MemTableInserter (\<lambda>s t k v m. m @ [(s, t, k, v)])) (batch_Append (SetSequence
      (fold batch_add [BPut [1] [2, 3]] batch_Clear) 9) (fold batch_add [BDelete [1]] batch_Clear)) (9, []) =
    (OK, (11, [(9, kTypeValue, [1], [2, 3]), (10, kTypeDeletion, [1], [])]))"
  using batch_replayed [of "[BPut [1] [2, 3]]" "[BDelete [1]]" "MemTableInserter (\<lambda>s t k v m. m @ [(s, t, k, v)])" 9 "(9, [])"]
  by (simp add: MemTableInserter_def)

text \<open>The entries a batch adds to a table: consecutive sequence numbers from the batch's own.\<close>

primrec op_entry :: "batch_op \<Rightarrow> ValueType \<times> slice \<times> slice" where
  "op_entry (BPut k v) = (kTypeValue, k, v)"
| "op_entry (BDelete k) = (kTypeDeletion, k, [])"

fun add_entries ::
  "(u64 \<Rightarrow> ValueType \<Rightarrow> slice \<Rightarrow> slice \<Rightarrow> 'm \<Rightarrow> 'm) \<Rightarrow> u64 \<Rightarrow> batch_op list \<Rightarrow> 'm \<Rightarrow> 'm"
where
  "add_entries add seq [] mem = mem"
| "add_entries add seq (op # ops) mem =
     (case op_entry op of (t, k, v) \<Rightarrow> add_entries add (seq + 1) ops (add seq t k v mem))"

lemma inserter_entries:
  "snd (fold (op_handle (MemTableInserter add)) ops (seq, mem)) = add_entries add seq ops mem"
proof (induction ops arbitrary: seq mem)
  case (Cons op ops)
  then show ?case by (cases op) (simp_all add: MemTableInserter_def)
qed simp

lemma InsertInto_batch:
  assumes "\<forall>op \<in> set ops. op_fits op" and "length ops < 2 ^ 31"
  shows "InsertInto add (batch_of seq ops) mem = (OK, add_entries add seq ops mem)"
  using inserter_entries [of add ops seq mem]
  by (simp add: InsertInto_def Iterate_batch [OF assms] case_prod_beta)

section \<open>Damaged batches\<close>

text \<open>A reader that succeeds does not look further.\<close>

lemma varint32_loop_extend:
  "varint32_loop p shift r = Some (v, q) \<Longrightarrow> varint32_loop (p @ m) shift r = Some (v, q @ m)"
  by (induction p arbitrary: shift r) (auto simp: Let_def split: if_split_asm)

lemma GetVarint32Ptr_extend: "GetVarint32Ptr p = Some (v, q) \<Longrightarrow> GetVarint32Ptr (p @ m) = Some (v, q @ m)"
  by (cases p) (auto simp: GetVarint32Ptr_def GetVarint32PtrFallback_def dest: varint32_loop_extend split: if_split_asm)

lemma GetLengthPrefixedSlice_extend:
  "GetLengthPrefixedSlice p = (Some v, q) \<Longrightarrow> GetLengthPrefixedSlice (p @ m) = (Some v, q @ m)"
  by (auto simp: GetLengthPrefixedSlice_def GetVarint32_def and_then_def dest: GetVarint32Ptr_extend [where m = m]
      split: option.splits prod.splits if_split_asm)

lemma iterate_extend:
  "iterate_loop handler p found h = (Inr n, h') \<Longrightarrow> iterate_loop handler (p @ m) found h = iterate_loop handler m n h'"
proof (induction handler p found h rule: iterate_loop.induct)
  case (2 handler t input found h)
  obtain k q where k: "GetLengthPrefixedSlice input = (k, q)" by fastforce
  obtain v q' where v: "GetLengthPrefixedSlice q = (v, q')" by fastforce
  show ?case
  proof (cases k)
    case None
    then show ?thesis using 2(3) k by (simp split: if_split_asm)
  next
    case (Some key)
    note ext = GetLengthPrefixedSlice_extend [of input key q m] GetLengthPrefixedSlice_extend [of q _ q' m]
    show ?thesis
      using 2 k v ext Some by (cases v) (simp_all split: if_split_asm)
  qed
qed simp

lemma iterate_not_ok: "iterate_loop handler p found h = (Inl s, h') \<Longrightarrow> \<not> ok s"
  by (induction handler p found h rule: iterate_loop.induct)
    (auto simp: ok_def split: if_split_asm option.splits prod.splits)

lemma iterate_found: "iterate_loop handler p found h = (Inr n, h') \<Longrightarrow> p \<noteq> [] \<Longrightarrow> found < n"
proof (induction handler p found h rule: iterate_loop.induct)
  case (2 handler t input found h)
  have le: "iterate_loop handler q f g = (Inr n, h') \<Longrightarrow> (q \<noteq> [] \<Longrightarrow> f < n) \<Longrightarrow> f \<le> n" for q f g
    by (cases q) auto
  show ?case
    using 2 le by (fastforce split: if_split_asm option.splits prod.splits)
qed simp

text \<open>C32: a batch that was cut off is not accepted: no proper part of a batch, down to nothing, passes
  \<open>Iterate\<close>, whatever its operations are.\<close>

theorem cut_batch_rejected:
  assumes "\<forall>op \<in> set ops. op_fits op" and "length ops < 2 ^ 31"
    and "rep @ rest = fold batch_add ops batch_Clear" and "rest \<noteq> []"
  shows "\<not> ok (fst (Iterate handler rep h))"
proof
  assume "ok (fst (Iterate handler rep h))"
  then obtain n h' where big: "kHeader \<le> length rep" and loop: "iterate_loop handler (drop kHeader rep) 0 h = (Inr n, h')"
    and count: "int n = sint (Count rep)"
    using iterate_not_ok [of handler "drop kHeader rep" 0 h]
    by (simp add: Iterate_def split: if_split_asm prod.split_asm sum.split_asm)
  have whole: "rep @ rest = batch_of 0 ops" using assms(3) batch_built [of ops 0 "[]"] by (simp add: batch_Clear_of)
  have body: "drop kHeader rep @ rest = concat (map op_bytes ops)"
    using arg_cong [OF whole, of "drop kHeader"] big by simp
  have "Count rep = Count (rep @ rest)" using big by (simp add: Count_def DecodeFixed32_le kHeader_def)
  then have n: "int n = int (length ops)"
    using count assms(2) whole by (simp add: count_int)
  have "iterate_loop handler rest n h' = (Inr (length ops), fold (op_handle handler) ops h)"
    using iterate_extend [OF loop, of rest] iterate_ops [OF assms(1), of handler "[]" 0 h] body by simp
  from iterate_found [OF this assms(4)] have "n < length ops" .
  with n show False by simp
qed

lemma cut_batch_rejected_witness:
  "\<not> ok (fst (Iterate (MemTableInserter (\<lambda>s t k v m. m @ [(s, t, k, v)]))
      (take 15 (fold batch_add [BPut [1] [2, 3]] batch_Clear)) (9, [])))"
  by (rule cut_batch_rejected [of "[BPut [1] [2, 3]]" _ "drop 15 (fold batch_add [BPut [1] [2, 3]] batch_Clear)"])
    (simp_all add: batch_Clear_of batch_add_of [of "BPut k v" for k v, simplified] kHeader_def PutLengthPrefixedSlice_append
      EncodeVarint32_def)

end
