(* ===== verification/Ldb_Skiplist.thy ===== *)
theory Ldb_Skiplist
  imports Ldb_Coding
begin

text \<open>
  The skip list of a memory table (\<open>leveldb-library/db/skiplist.h\<close>) and the generator it draws the
  heights of its nodes from (\<open>util/random.h\<close>). The nodes are a list, a node's address is its place
  in it, and the head is node 0; \<open>None\<close> is \<open>nullptr\<close>. A link that was never written holds no
  pointer: reading it, or a link above the height of its node, is undefined, as is reading an entry of
  \<open>prev\<close> that was not filled; these are the \<open>None\<close> of an operation's result. The body of each
  endless loop is a definition of its own, which reads one link: \<open>while_true\<close> iterates it here, and
  \<open>Ldb_Skiplist_Shared\<close> interleaves it with the stores of an insertion.
\<close>

section \<open>Random numbers\<close>

definition Random_M :: u32 where "Random_M = 2147483647"

definition Random_new :: "u32 \<Rightarrow> u32" where
  "Random_new s = (let seed = s AND 0x7fffffff in if seed = 0 \<or> seed = Random_M then 1 else seed)"

text \<open>The number \<open>Next\<close> returns is the new seed.\<close>

definition Random_Next :: "u32 \<Rightarrow> u32" where
  "Random_Next seed =
     (let product = ucast seed * (16807 :: u64);
          seed = ucast (drop_bit 31 product + (product AND ucast Random_M))
      in if seed > Random_M then seed - Random_M else seed)"

text \<open>The signed argument is converted to an unsigned number by \<open>%\<close>.\<close>

definition Random_Uniform :: "u32 \<Rightarrow> u32 \<Rightarrow> u32 \<times> u32" where
  "Random_Uniform seed n = (let seed = Random_Next seed in (seed mod n, seed))"

definition Random_OneIn :: "u32 \<Rightarrow> u32 \<Rightarrow> bool \<times> u32" where
  "Random_OneIn seed n = (let seed = Random_Next seed in (seed mod n = 0, seed))"

definition Random_Skewed :: "u32 \<Rightarrow> u32 \<Rightarrow> u32 \<times> u32" where
  "Random_Skewed seed max_log =
     (case Random_Uniform seed (max_log + 1) of (bits, seed) \<Rightarrow> Random_Uniform seed (push_bit (unat bits) 1))"

section \<open>Nodes\<close>

type_synonym node_ptr = "nat option"

record 'k Node =
  nd_key :: 'k
  nd_next :: "node_ptr option list"

record 'k SkipList =
  sl_nodes :: "'k Node list"
  sl_max_height :: nat
  sl_rnd :: u32

definition kMaxHeight :: nat where "kMaxHeight = 12"
definition kBranching :: u32 where "kBranching = 4"
definition head_node :: nat where "head_node = 0"

definition node_key :: "'k SkipList \<Rightarrow> nat \<Rightarrow> 'k" where
  "node_key s x = nd_key (sl_nodes s ! x)"

definition Node_Next :: "'k SkipList \<Rightarrow> nat \<Rightarrow> nat \<Rightarrow> node_ptr option" where
  "Node_Next s x n =
     (if x < length (sl_nodes s) \<and> n < length (nd_next (sl_nodes s ! x)) then nd_next (sl_nodes s ! x) ! n else None)"

definition SetNext :: "'k SkipList \<Rightarrow> nat \<Rightarrow> nat \<Rightarrow> node_ptr \<Rightarrow> 'k SkipList option" where
  "SetNext s x n p =
     (if x < length (sl_nodes s) \<and> n < length (nd_next (sl_nodes s ! x))
      then Some (s\<lparr>sl_nodes := (sl_nodes s)[x := (sl_nodes s ! x)\<lparr>nd_next := (nd_next (sl_nodes s ! x))[n := Some p]\<rparr>]\<rparr>)
      else None)"

definition NewNode :: "'k SkipList \<Rightarrow> 'k \<Rightarrow> nat \<Rightarrow> nat \<times> 'k SkipList" where
  "NewNode s key height =
     (length (sl_nodes s), s\<lparr>sl_nodes := sl_nodes s @ [\<lparr>nd_key = key, nd_next = replicate height None\<rparr>]\<rparr>)"

text \<open>The constructor: the head with all its links null.\<close>

definition SkipList_new :: "'k \<Rightarrow> 'k SkipList" where
  "SkipList_new any_key =
     \<lparr>sl_nodes = [\<lparr>nd_key = any_key, nd_next = replicate kMaxHeight (Some None)\<rparr>], sl_max_height = 1,
      sl_rnd = Random_new 0xdeadbeef\<rparr>"

section \<open>Searching\<close>

partial_function (option) while_true :: "('s \<Rightarrow> ('s + 'r) option) \<Rightarrow> 's \<Rightarrow> 'r option" where
  "while_true body s =
     (case body s of None \<Rightarrow> None | Some (Inl s) \<Rightarrow> while_true body s | Some (Inr r) \<Rightarrow> Some r)"

definition KeyIsAfterNode :: "('k \<Rightarrow> 'k \<Rightarrow> int) \<Rightarrow> 'k SkipList \<Rightarrow> 'k \<Rightarrow> node_ptr \<Rightarrow> bool" where
  "KeyIsAfterNode cmp s key n = (case n of None \<Rightarrow> False | Some n \<Rightarrow> cmp (node_key s n) key < 0)"

type_synonym prev_array = "nat option list"

definition ge_body ::
  "('k \<Rightarrow> 'k \<Rightarrow> int) \<Rightarrow> 'k SkipList \<Rightarrow> 'k \<Rightarrow> nat \<times> nat \<times> prev_array option \<Rightarrow>
   (nat \<times> nat \<times> prev_array option + node_ptr \<times> prev_array option) option"
where
  "ge_body cmp s key = (\<lambda>(x, level, prev).
     case Node_Next s x level of
       None \<Rightarrow> None
     | Some link \<Rightarrow>
         if KeyIsAfterNode cmp s key link then Some (Inl (the link, level, prev))
         else let prev = map_option (\<lambda>v. v[level := Some x]) prev
              in if level = 0 then Some (Inr (link, prev)) else Some (Inl (x, level - 1, prev)))"

definition FindGreaterOrEqual ::
  "('k \<Rightarrow> 'k \<Rightarrow> int) \<Rightarrow> 'k SkipList \<Rightarrow> 'k \<Rightarrow> prev_array option \<Rightarrow> (node_ptr \<times> prev_array option) option"
where
  "FindGreaterOrEqual cmp s key prev = while_true (ge_body cmp s key) (head_node, sl_max_height s - 1, prev)"

definition lt_body ::
  "('k \<Rightarrow> 'k \<Rightarrow> int) \<Rightarrow> 'k SkipList \<Rightarrow> 'k \<Rightarrow> nat \<times> nat \<Rightarrow> (nat \<times> nat + nat) option"
where
  "lt_body cmp s key = (\<lambda>(x, level).
     case Node_Next s x level of
       None \<Rightarrow> None
     | Some link \<Rightarrow>
         if (case link of None \<Rightarrow> True | Some n \<Rightarrow> cmp (node_key s n) key \<ge> 0)
         then if level = 0 then Some (Inr x) else Some (Inl (x, level - 1))
         else Some (Inl (the link, level)))"

definition FindLessThan :: "('k \<Rightarrow> 'k \<Rightarrow> int) \<Rightarrow> 'k SkipList \<Rightarrow> 'k \<Rightarrow> nat option" where
  "FindLessThan cmp s key = while_true (lt_body cmp s key) (head_node, sl_max_height s - 1)"

definition last_body :: "'k SkipList \<Rightarrow> nat \<times> nat \<Rightarrow> (nat \<times> nat + nat) option" where
  "last_body s = (\<lambda>(x, level).
     case Node_Next s x level of
       None \<Rightarrow> None
     | Some None \<Rightarrow> if level = 0 then Some (Inr x) else Some (Inl (x, level - 1))
     | Some (Some n) \<Rightarrow> Some (Inl (n, level)))"

definition FindLast :: "'k SkipList \<Rightarrow> nat option" where
  "FindLast s = while_true (last_body s) (head_node, sl_max_height s - 1)"

section \<open>Insertion\<close>

function random_height :: "u32 \<Rightarrow> nat \<Rightarrow> nat \<times> u32" where
  "random_height seed height =
     (if height < kMaxHeight
      then let seed = Random_Next seed
           in if seed mod kBranching = 0 then random_height seed (height + 1) else (height, seed)
      else (height, seed))"
  by auto
termination
  by (relation "measure (\<lambda>(seed, height). kMaxHeight - height)") auto

declare random_height.simps [simp del]

definition RandomHeight :: "'k SkipList \<Rightarrow> nat \<times> 'k SkipList" where
  "RandomHeight s = (case random_height (sl_rnd s) 1 of (height, seed) \<Rightarrow> (height, s\<lparr>sl_rnd := seed\<rparr>))"

text \<open>\<open>Insert\<close> up to the creation of the new node: its address, its height and its predecessors.\<close>

record insertion =
  in_node :: nat
  in_height :: nat
  in_prev :: prev_array

definition raise_height :: "nat \<Rightarrow> prev_array \<times> 'k SkipList \<Rightarrow> prev_array \<times> 'k SkipList" where
  "raise_height height = (\<lambda>(prev, s).
     if height > sl_max_height s
     then (fold (\<lambda>i prev. prev[i := Some head_node]) [sl_max_height s..<height] prev, s\<lparr>sl_max_height := height\<rparr>)
     else (prev, s))"

definition insert_begin :: "('k \<Rightarrow> 'k \<Rightarrow> int) \<Rightarrow> 'k SkipList \<Rightarrow> 'k \<Rightarrow> (insertion \<times> 'k SkipList) option" where
  "insert_begin cmp s key =
     (case FindGreaterOrEqual cmp s key (Some (replicate kMaxHeight None)) of
        Some (x, Some prev) \<Rightarrow>
          (case RandomHeight s of
             (height, s) \<Rightarrow>
               (case raise_height height (prev, s) of
                  (prev, s) \<Rightarrow>
                    (case NewNode s key height of
                       (x, s) \<Rightarrow> Some (\<lparr>in_node = x, in_height = height, in_prev = prev\<rparr>, s))))
      | _ \<Rightarrow> None)"

text \<open>The two statements of the last loop: the new node's own link, then the link that publishes it.\<close>

definition insert_link :: "insertion \<Rightarrow> nat \<Rightarrow> 'k SkipList \<Rightarrow> 'k SkipList option" where
  "insert_link ins i s =
     (case in_prev ins ! i of
        None \<Rightarrow> None
      | Some p \<Rightarrow> (case Node_Next s p i of None \<Rightarrow> None | Some link \<Rightarrow> SetNext s (in_node ins) i link))"

definition insert_publish :: "insertion \<Rightarrow> nat \<Rightarrow> 'k SkipList \<Rightarrow> 'k SkipList option" where
  "insert_publish ins i s =
     (case in_prev ins ! i of None \<Rightarrow> None | Some p \<Rightarrow> SetNext s p i (Some (in_node ins)))"

fun insert_loop :: "insertion \<Rightarrow> nat list \<Rightarrow> 'k SkipList \<Rightarrow> 'k SkipList option" where
  "insert_loop ins [] s = Some s"
| "insert_loop ins (i # levels) s =
     (case insert_link ins i s of
        None \<Rightarrow> None
      | Some s \<Rightarrow> (case insert_publish ins i s of None \<Rightarrow> None | Some s \<Rightarrow> insert_loop ins levels s))"

definition SkipList_Insert :: "('k \<Rightarrow> 'k \<Rightarrow> int) \<Rightarrow> 'k SkipList \<Rightarrow> 'k \<Rightarrow> 'k SkipList option" where
  "SkipList_Insert cmp s key =
     (case insert_begin cmp s key of
        None \<Rightarrow> None
      | Some (ins, s) \<Rightarrow> insert_loop ins [0..<in_height ins] s)"

definition SkipList_Contains :: "('k \<Rightarrow> 'k \<Rightarrow> int) \<Rightarrow> 'k SkipList \<Rightarrow> 'k \<Rightarrow> bool option" where
  "SkipList_Contains cmp s key =
     (case FindGreaterOrEqual cmp s key None of
        None \<Rightarrow> None
      | Some (x, _) \<Rightarrow> Some (case x of None \<Rightarrow> False | Some x \<Rightarrow> cmp key (node_key s x) = 0))"

section \<open>Iterators\<close>

text \<open>An iterator is its current node; \<open>Next\<close> and \<open>Prev\<close> require a valid one.\<close>

type_synonym skip_iter = node_ptr

definition skip_Valid :: "skip_iter \<Rightarrow> bool" where
  "skip_Valid it = (it \<noteq> None)"

definition skip_key :: "'k SkipList \<Rightarrow> skip_iter \<Rightarrow> 'k option" where
  "skip_key s it = map_option (node_key s) it"

definition skip_Next :: "'k SkipList \<Rightarrow> skip_iter \<Rightarrow> skip_iter option" where
  "skip_Next s it = (case it of None \<Rightarrow> None | Some n \<Rightarrow> Node_Next s n 0)"

definition skip_of :: "nat \<Rightarrow> skip_iter" where
  "skip_of n = (if n = head_node then None else Some n)"

definition skip_Prev :: "('k \<Rightarrow> 'k \<Rightarrow> int) \<Rightarrow> 'k SkipList \<Rightarrow> skip_iter \<Rightarrow> skip_iter option" where
  "skip_Prev cmp s it =
     (case it of None \<Rightarrow> None | Some n \<Rightarrow> map_option skip_of (FindLessThan cmp s (node_key s n)))"

definition skip_Seek :: "('k \<Rightarrow> 'k \<Rightarrow> int) \<Rightarrow> 'k SkipList \<Rightarrow> 'k \<Rightarrow> skip_iter option" where
  "skip_Seek cmp s target = map_option fst (FindGreaterOrEqual cmp s target None)"

definition skip_SeekToFirst :: "'k SkipList \<Rightarrow> skip_iter option" where
  "skip_SeekToFirst s = Node_Next s head_node 0"

definition skip_SeekToLast :: "'k SkipList \<Rightarrow> skip_iter option" where
  "skip_SeekToLast s = map_option skip_of (FindLast s)"

text \<open>The nodes of a level in their order, and what the list holds: the keys of the lowest level.\<close>

fun walk :: "'k SkipList \<Rightarrow> nat \<Rightarrow> nat \<Rightarrow> nat \<Rightarrow> nat list" where
  "walk s level 0 x = []"
| "walk s level (Suc fuel) x =
     (case Node_Next s x level of Some (Some n) \<Rightarrow> n # walk s level fuel n | _ \<Rightarrow> [])"

definition level_nodes :: "'k SkipList \<Rightarrow> nat \<Rightarrow> nat list" where
  "level_nodes s level = walk s level (length (sl_nodes s)) head_node"

definition contents :: "'k SkipList \<Rightarrow> 'k list" where
  "contents s = map (node_key s) (level_nodes s 0)"

section \<open>The random numbers\<close>

text \<open>\<open>Next\<close> reduces without dividing: \<open>2 ^ 31\<close> leaves the remainder 1.\<close>

lemma Random_Next_mod:
  assumes "0 < seed" and "seed < Random_M"
  shows "unat (Random_Next seed) = unat seed * 16807 mod unat Random_M"
proof -
  define M :: nat where "M = 2147483647"
  define p where "p = unat seed * 16807"
  define q r where "q = p div 2 ^ 31" and "r = p mod 2 ^ 31"
  define product where "product = ucast seed * (16807 :: u64)"
  have M: "unat Random_M = M" by (simp add: Random_M_def M_def)
  have seed: "0 < unat seed" "unat seed < M"
    using assms by (simp_all add: M [symmetric] word_less_nat_alt)
  have p: "unat product = p"
    using seed by (simp add: product_def unat_mult_lem [THEN iffD1] unsigned_ucast_eq unsigned_take_bit_eq take_bit_nat_eq_self p_def M_def)
  have p_lt: "p < 2 ^ 64" using seed by (simp add: p_def M_def)
  have q: "q < 16807" using seed by (simp add: q_def p_def M_def less_mult_imp_div_less)
  have r: "r \<le> M" using mod_less_divisor [of "2 ^ 31" p] by (simp add: r_def M_def)
  have parts: "p = q * M + (q + r)" using div_mult_mod_eq [of p "2 ^ 31"] by (simp add: q_def r_def M_def)
  have mask: "product AND ucast Random_M = take_bit 31 product"
    by (simp add: Random_M_def take_bit_eq_mask mask_eq_exp_minus_1)
  have "unat (drop_bit 31 product) = q" "unat (take_bit 31 product) = r"
    using p p_lt by (simp_all add: unsigned_drop_bit_eq unsigned_take_bit_eq take_bit_nat_eq_self q_def r_def
      drop_bit_eq_div [of _ p] take_bit_eq_mod [of _ p])
  then have "unat (drop_bit 31 product + take_bit 31 product) = q + r"
    using q r by (simp add: unat_word_ariths M_def del: take_bit_eq_mod drop_bit_eq_div)
  then have sum: "unat (ucast (drop_bit 31 product + (product AND ucast Random_M)) :: u32) = q + r"
    using q r by (simp add: mask unsigned_ucast_eq take_bit_nat_eq_self M_def)
  have not_M: "q + r \<noteq> M"
  proof
    assume "q + r = M"
    then have "M dvd p" using parts by simp
    moreover have "coprime M 16807" by (simp add: M_def coprime_iff_gcd_eq_1 gcd_non_0_nat)
    ultimately have "M dvd unat seed" by (simp add: p_def coprime_dvd_mult_left_iff)
    then show False using seed by (simp add: nat_dvd_not_less)
  qed
  have rem: "p mod M = (q + r) mod M" using parts by (metis mod_mult_self4 mult.commute)
  have Next: "unat (Random_Next seed) = (if M < q + r then q + r - M else q + r)"
    using sum M by (simp add: Random_Next_def product_def [symmetric] Let_def word_less_nat_alt unat_sub word_le_nat_alt)
  show ?thesis
  proof (cases "M < q + r")
    case True
    then have "q + r - M < M" using q r by (simp add: M_def)
    then show ?thesis using True Next rem by (simp add: M p_def [symmetric] le_mod_geq)
  next
    case False
    then show ?thesis using Next rem not_M by (simp add: M p_def [symmetric])
  qed
qed

end
