(* ===== verification/Ldb_Skiplist_Props.thy ===== *)
theory Ldb_Skiplist_Props
  imports Ldb_Skiplist
begin

text \<open>
  The skip list holds a sorted list. Predicate \<open>links\<close> says which nodes the links of each level chain
  together; \<open>sorted_levels\<close> that every level is sorted. All three searches cut the levels at a predicate
  that holds in front and not behind: \<open>cut_search\<close> gives their result for any such cut. An insertion
  keeps the invariant with every level it links, so it holds between any two of its stores, which is
  what readers without a lock rely on (\<open>Ldb_Skiplist_Shared\<close>).
\<close>

section \<open>Chains\<close>

definition first :: "nat list \<Rightarrow> node_ptr" where
  "first ns = (case ns of [] \<Rightarrow> None | n # _ \<Rightarrow> Some n)"

lemma first_simps [simp]: "first [] = None" "first (n # ns) = Some n"
  by (simp_all add: first_def)

fun chain :: "'k SkipList \<Rightarrow> nat \<Rightarrow> nat \<Rightarrow> nat list \<Rightarrow> bool" where
  "chain s l x [] = (Node_Next s x l = Some None)"
| "chain s l x (n # ns) = (Node_Next s x l = Some (Some n) \<and> chain s l n ns)"

definition links :: "'k SkipList \<Rightarrow> (nat \<Rightarrow> nat list) \<Rightarrow> bool" where
  "links s L \<longleftrightarrow>
     (\<forall>l < kMaxHeight. chain s l head_node (L l) \<and> distinct (head_node # L l) \<and> (sl_max_height s \<le> l \<longrightarrow> L l = [])) \<and>
     (\<forall>l. Suc l < kMaxHeight \<longrightarrow> set (L (Suc l)) \<subseteq> set (L l)) \<and> 1 \<le> sl_max_height s \<and> sl_max_height s \<le> kMaxHeight"

lemma chain_append: "chain s l x (pre @ post) \<Longrightarrow> chain s l (last (x # pre)) post"
  by (induction pre arbitrary: x) auto

lemma chain_first: "chain s l x ns \<Longrightarrow> Node_Next s x l = Some (first ns)"
  by (cases ns) auto

lemma chain_next: "chain s l x (pre @ post) \<Longrightarrow> Node_Next s (last (x # pre)) l = Some (first post)"
  by (rule chain_first, rule chain_append)

lemma chain_cong:
  assumes "\<And>y. y \<in> set (x # ns) \<Longrightarrow> Node_Next t y l = Node_Next s y l"
  shows "chain t l x ns = chain s l x ns"
  using assms by (induction ns arbitrary: x) auto

text \<open>A node linked in behind the last of \<open>pre\<close>.\<close>

lemma chain_insert:
  assumes "chain s l x (pre @ post)" and "distinct (x # pre @ post)" and "n \<notin> set (x # pre @ post)"
    and "Node_Next t n l = Node_Next s (last (x # pre)) l" and "Node_Next t (last (x # pre)) l = Some (Some n)"
    and "\<And>y. y \<noteq> n \<Longrightarrow> y \<noteq> last (x # pre) \<Longrightarrow> Node_Next t y l = Node_Next s y l"
  shows "chain t l x (pre @ n # post)"
  using assms
proof (induction pre arbitrary: x)
  case Nil
  have "chain t l n post"
  proof (cases post)
    case Nil
    with Nil.prems show ?thesis by simp
  next
    case (Cons m post')
    have "chain t l m post' = chain s l m post'"
      using Nil.prems(2,3) Cons by (intro chain_cong Nil.prems(6)) auto
    then show ?thesis using Nil.prems Cons by simp
  qed
  then show ?case using Nil.prems by simp
next
  case (Cons m pre)
  have "last (m # pre) \<noteq> x" using Cons.prems(2) last_in_set [of "m # pre"] by (metis UnI1 distinct.simps(2) list.discI set_append)
  then have "Node_Next t x l = Node_Next s x l" using Cons.prems(3) Cons.prems(6) [of x] by simp
  moreover have "chain t l m (pre @ n # post)"
    by (rule Cons.IH) (use Cons.prems in simp_all)
  ultimately show ?case using Cons.prems(1) by simp
qed

lemma chain_nodes: "chain s l x ns \<Longrightarrow> set (x # ns) \<subseteq> {..<length (sl_nodes s)}"
  by (induction ns arbitrary: x) (auto simp: Node_Next_def split: if_split_asm)

lemma chain_walk: "chain s l x ns \<Longrightarrow> length ns \<le> fuel \<Longrightarrow> walk s l fuel x = ns"
proof (induction ns arbitrary: x fuel)
  case Nil
  then show ?case by (cases fuel) auto
next
  case (Cons n ns)
  then show ?case by (cases fuel) auto
qed

lemma links_chain:
  assumes "links s L" and "l < kMaxHeight"
  shows "chain s l head_node (L l)" and "distinct (head_node # L l)"
  using assms by (auto simp: links_def)

lemma linksI:
  assumes "\<And>l. l < kMaxHeight \<Longrightarrow> chain s l head_node (L l)" and "\<And>l. l < kMaxHeight \<Longrightarrow> distinct (head_node # L l)"
    and "\<And>l. l < kMaxHeight \<Longrightarrow> sl_max_height s \<le> l \<Longrightarrow> L l = []" and "\<And>l. Suc l < kMaxHeight \<Longrightarrow> set (L (Suc l)) \<subseteq> set (L l)"
    and "1 \<le> sl_max_height s" and "sl_max_height s \<le> kMaxHeight"
  shows "links s L"
  using assms unfolding links_def by blast

lemma links_step: "links s L \<Longrightarrow> Suc l < kMaxHeight \<Longrightarrow> set (L (Suc l)) \<subseteq> set (L l)"
  unfolding links_def by blast

lemma links_top: "links s L \<Longrightarrow> l < kMaxHeight \<Longrightarrow> sl_max_height s \<le> l \<Longrightarrow> L l = []"
  unfolding links_def by blast

lemma links_height: "links s L \<Longrightarrow> 1 \<le> sl_max_height s" "links s L \<Longrightarrow> sl_max_height s \<le> kMaxHeight"
  unfolding links_def by blast+

lemma links_nested:
  assumes "links s L"
  shows "l' \<le> l \<Longrightarrow> l < kMaxHeight \<Longrightarrow> set (L l) \<subseteq> set (L l')"
proof (induction l)
  case (Suc l)
  show ?case
  proof (cases "l' = Suc l")
    case False
    then have "set (L l) \<subseteq> set (L l')" using Suc by simp
    moreover have "set (L (Suc l)) \<subseteq> set (L l)"
      using assms Suc.prems(2) unfolding links_def by blast
    ultimately show ?thesis by simp
  qed simp
qed simp

lemma links_level:
  assumes "links s L" and "l < kMaxHeight"
  shows "level_nodes s l = L l"
proof -
  note c = links_chain [OF assms]
  have "set (L l) \<subseteq> {..<length (sl_nodes s)}" using chain_nodes [OF c(1)] by simp
  then have "card (set (L l)) \<le> length (sl_nodes s)" using card_mono [of "{..<length (sl_nodes s)}"] by simp
  then have "length (L l) \<le> length (sl_nodes s)" using c(2) distinct_card [of "L l"] by simp
  with c(1) show ?thesis unfolding level_nodes_def by (rule chain_walk)
qed

section \<open>Cutting the levels\<close>

definition cuts :: "(nat \<Rightarrow> nat list) \<Rightarrow> (nat \<Rightarrow> bool) \<Rightarrow> bool" where
  "cuts L P \<longleftrightarrow> (\<forall>l < kMaxHeight. sorted_wrt (\<lambda>a b. P b \<longrightarrow> P a) (L l))"

abbreviation before :: "(nat \<Rightarrow> nat list) \<Rightarrow> (nat \<Rightarrow> bool) \<Rightarrow> nat \<Rightarrow> nat list" where
  "before L P l \<equiv> takeWhile P (L l)"

abbreviation behind :: "(nat \<Rightarrow> nat list) \<Rightarrow> (nat \<Rightarrow> bool) \<Rightarrow> nat \<Rightarrow> nat list" where
  "behind L P l \<equiv> dropWhile P (L l)"

lemma takeWhile_filter: "sorted_wrt (\<lambda>a b. P b \<longrightarrow> P a) ns \<Longrightarrow> set (takeWhile P ns) = {n \<in> set ns. P n}"
  by (induction ns) auto

lemma dropWhile_cut: "sorted_wrt (\<lambda>a b. P b \<longrightarrow> P a) ns \<Longrightarrow> m \<in> set (dropWhile P ns) \<Longrightarrow> \<not> P m"
proof (induction ns)
  case (Cons n ns)
  then show ?case by (cases "P n") auto
qed simp

text \<open>Where a search may be: at the head, or at a node in front of the cut.\<close>

definition search_at :: "(nat \<Rightarrow> nat list) \<Rightarrow> (nat \<Rightarrow> bool) \<Rightarrow> nat \<Rightarrow> nat \<Rightarrow> bool" where
  "search_at L P x l \<longleftrightarrow> l < kMaxHeight \<and> (x = head_node \<or> x \<in> set (L l) \<and> P x)"

lemma search_at_split:
  assumes "cuts L P" and "search_at L P x l"
  obtains pre mid where "before L P l = pre @ mid" and "x = last (head_node # pre)"
proof (cases "x = head_node")
  case True
  then show ?thesis using that [of "[]"] by simp
next
  case False
  then have "x \<in> set (before L P l)" using assms by (simp add: search_at_def cuts_def takeWhile_filter)
  then obtain pre mid where "before L P l = pre @ x # mid" by (meson split_list)
  then show ?thesis using that [of "pre @ [x]" mid] by simp
qed

lemma search_at_before:
  assumes "before L P l = pre @ mid" and "l < kMaxHeight"
  shows "search_at L P (last (head_node # pre)) l"
proof (cases "pre = []")
  case False
  then have "last pre \<in> set (before L P l)" using assms(1) by (metis Un_iff last_in_set set_append)
  then show ?thesis using assms(2) False by (auto simp: search_at_def dest: set_takeWhileD)
qed (use assms(2) in \<open>simp add: search_at_def\<close>)

lemma search_at_below: "links s L \<Longrightarrow> search_at L P x (Suc l) \<Longrightarrow> search_at L P x l"
  using links_nested [of s L l "Suc l"] by (auto simp: search_at_def)

lemma next_at:
  assumes "links s L" and "l < kMaxHeight" and "before L P l = pre @ mid"
  shows "Node_Next s (last (head_node # pre)) l = Some (first (mid @ behind L P l))"
proof -
  have "L l = pre @ mid @ behind L P l"
    using assms(3) takeWhile_dropWhile_id [of P "L l"] by simp
  then have "chain s l head_node (pre @ mid @ behind L P l)" using links_chain(1) [OF assms(1,2)] by simp
  then show ?thesis by (rule chain_next)
qed

lemma first_behind: "first (dropWhile P ns) = Some n \<Longrightarrow> \<not> P n"
  by (induction ns) (auto split: if_split_asm)

lemma first_before: "takeWhile P ns = pre @ m # mid \<Longrightarrow> P m"
  by (metis in_set_conv_decomp set_takeWhileD)

section \<open>The searches\<close>

lemma while_true_done: "body st = Some (Inr r) \<Longrightarrow> while_true body st = Some r"
  by (subst while_true.simps) simp

lemma while_true_step: "body st = Some (Inl st') \<Longrightarrow> while_true body st = while_true body st'"
  by (subst while_true.simps) simp

text \<open>The predecessors a search leaves in \<open>prev\<close>.\<close>

primrec filled :: "(nat \<Rightarrow> nat list) \<Rightarrow> (nat \<Rightarrow> bool) \<Rightarrow> nat \<Rightarrow> prev_array \<Rightarrow> prev_array" where
  "filled L P 0 v = v[0 := Some (last (head_node # before L P 0))]"
| "filled L P (Suc l) v = filled L P l (v[Suc l := Some (last (head_node # before L P (Suc l)))])"

lemma length_filled [simp]: "length (filled L P l v) = length v"
  by (induction l arbitrary: v) auto

lemma filled_above: "l < i \<Longrightarrow> filled L P l v ! i = v ! i"
  by (induction l arbitrary: v) auto

lemma filled_nth: "i \<le> l \<Longrightarrow> l < length v \<Longrightarrow> filled L P l v ! i = Some (last (head_node # before L P i))"
proof (induction l arbitrary: v)
  case (Suc l)
  then show ?case by (cases "i = Suc l") (simp_all add: filled_above)
qed simp

definition key_before :: "('k \<Rightarrow> 'k \<Rightarrow> int) \<Rightarrow> 'k SkipList \<Rightarrow> 'k \<Rightarrow> nat \<Rightarrow> bool" where
  "key_before cmp s key n \<longleftrightarrow> cmp (node_key s n) key < 0"

lemma key_behind: "first (behind L (key_before cmp s key) l) = Some n \<Longrightarrow> 0 \<le> cmp (node_key s n) key"
  by (drule first_behind) (simp add: key_before_def)

lemma ge_body_at:
  assumes "links s L" and "l < kMaxHeight" and "before L (key_before cmp s key) l = pre @ mid"
  shows "ge_body cmp s key (last (head_node # pre), l, prev) =
    (case mid of
       m # _ \<Rightarrow> Some (Inl (m, l, prev))
     | [] \<Rightarrow> let prev = map_option (\<lambda>v. v[l := Some (last (head_node # pre))]) prev
             in if l = 0 then Some (Inr (first (behind L (key_before cmp s key) 0), prev))
                else Some (Inl (last (head_node # pre), l - 1, prev)))"
proof (cases mid)
  case Nil
  have "\<not> KeyIsAfterNode cmp s key (first (behind L (key_before cmp s key) l))"
    using first_behind [of "key_before cmp s key" "L l"]
    by (auto simp: KeyIsAfterNode_def key_before_def split: option.split)
  then show ?thesis using next_at [OF assms] Nil by (auto simp: ge_body_def Let_def)
next
  case (Cons m mid')
  then have "key_before cmp s key m" using assms(3) by (auto intro: first_before)
  then show ?thesis using next_at [OF assms] Cons by (auto simp: ge_body_def KeyIsAfterNode_def key_before_def)
qed

lemma find_ge_along:
  assumes "links s L" and "l < kMaxHeight" and "before L (key_before cmp s key) l = pre @ mid"
  shows "while_true (ge_body cmp s key) (last (head_node # pre), l, prev) =
    while_true (ge_body cmp s key) (last (head_node # before L (key_before cmp s key) l), l, prev)"
  using assms(3)
proof (induction mid arbitrary: pre)
  case (Cons m mid)
  have "ge_body cmp s key (last (head_node # pre), l, prev) = Some (Inl (m, l, prev))"
    using ge_body_at [OF assms(1,2) Cons.prems] by simp
  then show ?case using Cons.IH [of "pre @ [m]"] Cons.prems by (simp add: while_true_step)
qed simp

lemma find_ge_from:
  assumes "links s L" and "cuts L (key_before cmp s key)" and "search_at L (key_before cmp s key) x l"
  shows "while_true (ge_body cmp s key) (x, l, prev) =
    Some (first (behind L (key_before cmp s key) 0), map_option (filled L (key_before cmp s key) l) prev)"
  using assms(3)
proof (induction l arbitrary: x prev)
  case (0 x prev)
  obtain pre mid where split: "before L (key_before cmp s key) 0 = pre @ mid" "x = last (head_node # pre)"
    using search_at_split [OF assms(2) 0] .
  let ?y = "last (head_node # before L (key_before cmp s key) 0)"
  have "ge_body cmp s key (?y, 0, prev) =
      Some (Inr (first (behind L (key_before cmp s key) 0), map_option (\<lambda>v. v[0 := Some ?y]) prev))"
    using ge_body_at [OF assms(1), of 0 cmp key "before L (key_before cmp s key) 0" "[]" prev]
    by (simp add: kMaxHeight_def Let_def)
  moreover have "map_option (filled L (key_before cmp s key) 0) prev = map_option (\<lambda>v. v[0 := Some ?y]) prev"
    by (cases prev) simp_all
  ultimately show ?case
    using find_ge_along [OF assms(1) _ split(1), of prev] split(2) by (simp add: kMaxHeight_def while_true_done)
next
  case (Suc l x prev)
  let ?P = "key_before cmp s key"
  have l: "Suc l < kMaxHeight" using Suc.prems by (simp add: search_at_def)
  obtain pre mid where split: "before L ?P (Suc l) = pre @ mid" "x = last (head_node # pre)"
    using search_at_split [OF assms(2) Suc.prems] .
  let ?y = "last (head_node # before L ?P (Suc l))"
  have "search_at L ?P ?y (Suc l)" using l by (rule search_at_before [where mid = "[]", rotated]) simp
  then have "search_at L ?P ?y l" by (rule search_at_below [OF assms(1)])
  note IH = Suc.IH [OF this, of "map_option (\<lambda>v. v[Suc l := Some ?y]) prev"]
  have "ge_body cmp s key (?y, Suc l, prev) = Some (Inl (?y, l, map_option (\<lambda>v. v[Suc l := Some ?y]) prev))"
    using ge_body_at [OF assms(1) l, of cmp key "before L ?P (Suc l)" "[]" prev] by (simp add: Let_def)
  then show ?case
    using find_ge_along [OF assms(1) l split(1), of prev] split(2) IH
    by (simp add: while_true_step option.map_comp comp_def)
qed

text \<open>The two searches that return the last node in front of the cut.\<close>

lemma descend:
  assumes "links s L" and "cuts L P"
    and body: "\<And>l pre mid. l < kMaxHeight \<Longrightarrow> before L P l = pre @ mid \<Longrightarrow> body (last (head_node # pre), l) =
      (case mid of
         m # _ \<Rightarrow> Some (Inl (m, l))
       | [] \<Rightarrow> if l = 0 then Some (Inr (last (head_node # pre))) else Some (Inl (last (head_node # pre), l - 1)))"
    and "search_at L P x l"
  shows "while_true body (x, l) = Some (last (head_node # before L P 0))"
proof -
  have along: "while_true body (last (head_node # pre), l) = while_true body (last (head_node # before L P l), l)"
    if "l < kMaxHeight" "before L P l = pre @ mid" for l pre mid
    using that
  proof (induction mid arbitrary: pre)
    case (Cons m mid)
    have "body (last (head_node # pre), l) = Some (Inl (m, l))" using body [OF Cons.prems] by simp
    then show ?case using Cons.IH [of "pre @ [m]"] Cons.prems by (simp add: while_true_step)
  qed simp
  from assms(4) show ?thesis
  proof (induction l arbitrary: x)
    case (0 x)
    obtain pre mid where split: "before L P 0 = pre @ mid" "x = last (head_node # pre)"
      using search_at_split [OF assms(2) 0] .
    have "body (last (head_node # before L P 0), 0) = Some (Inr (last (head_node # before L P 0)))"
      using body [of 0 "before L P 0" "[]"] by (simp add: kMaxHeight_def)
    note finish = while_true_done [of body, OF this]
    have "while_true body (x, 0) = while_true body (last (head_node # before L P 0), 0)"
      unfolding split(2) by (rule along [OF _ split(1)]) (simp add: kMaxHeight_def)
    with finish show ?case by (rule trans [rotated])
  next
    case (Suc l x)
    have l: "Suc l < kMaxHeight" using Suc.prems by (simp add: search_at_def)
    obtain pre mid where split: "before L P (Suc l) = pre @ mid" "x = last (head_node # pre)"
      using search_at_split [OF assms(2) Suc.prems] .
    let ?y = "last (head_node # before L P (Suc l))"
    have "search_at L P ?y (Suc l)" using l by (rule search_at_before [where mid = "[]", rotated]) simp
    then have "while_true body (?y, l) = Some (last (head_node # before L P 0))"
      by (rule Suc.IH [OF search_at_below [OF assms(1)]])
    moreover have "body (?y, Suc l) = Some (Inl (?y, l))" using body [OF l, of "before L P (Suc l)" "[]"] by simp
    then have "while_true body (?y, Suc l) = while_true body (?y, l)" by (rule while_true_step)
    moreover have "while_true body (x, Suc l) = while_true body (?y, Suc l)"
      unfolding split(2) by (rule along [OF l split(1)])
    ultimately show ?case by simp
  qed
qed

lemma top_level:
  assumes "links s L"
  shows "search_at L P head_node (sl_max_height s - 1)"
  using assms by (auto simp: search_at_def links_def)

lemma FindGreaterOrEqual_cut:
  assumes "links s L" and "cuts L (key_before cmp s key)"
  shows "FindGreaterOrEqual cmp s key prev =
    Some (first (behind L (key_before cmp s key) 0), map_option (filled L (key_before cmp s key) (sl_max_height s - 1)) prev)"
  unfolding FindGreaterOrEqual_def by (rule find_ge_from [OF assms top_level [OF assms(1)]])

lemma FindLessThan_cut:
  assumes "links s L" and "cuts L (key_before cmp s key)"
  shows "FindLessThan cmp s key = Some (last (head_node # before L (key_before cmp s key) 0))"
  unfolding FindLessThan_def
proof (rule descend [OF assms _ top_level [OF assms(1)]])
  fix l pre mid
  let ?P = "key_before cmp s key"
  assume *: "l < kMaxHeight" "before L ?P l = pre @ mid"
  show "lt_body cmp s key (last (head_node # pre), l) =
    (case mid of
       m # _ \<Rightarrow> Some (Inl (m, l))
     | [] \<Rightarrow> if l = 0 then Some (Inr (last (head_node # pre))) else Some (Inl (last (head_node # pre), l - 1)))"
  proof (cases mid)
    case Nil
    show ?thesis
    proof (cases "first (behind L ?P l)")
      case None
      then show ?thesis using next_at [OF assms(1) *] Nil by (simp add: lt_body_def)
    next
      case (Some n)
      then have "0 \<le> cmp (node_key s n) key" by (rule key_behind)
      then show ?thesis using next_at [OF assms(1) *] Nil Some by (simp add: lt_body_def)
    qed
  next
    case (Cons m mid')
    then have "?P m" using *(2) by (auto intro: first_before)
    then show ?thesis using next_at [OF assms(1) *] Cons by (simp add: lt_body_def key_before_def)
  qed
qed

lemma FindLast_links:
  assumes "links s L"
  shows "FindLast s = Some (last (head_node # L 0))"
proof -
  have "FindLast s = Some (last (head_node # before L (\<lambda>_. True) 0))"
    unfolding FindLast_def
  proof (rule descend [OF assms _ _ top_level [OF assms]])
    fix l pre mid
    assume *: "l < kMaxHeight" "before L (\<lambda>_. True) l = pre @ mid"
    have none: "dropWhile (\<lambda>_. True) ns = []" for ns :: "nat list" by (induction ns) simp_all
    show "last_body s (last (head_node # pre), l) =
      (case mid of
         m # _ \<Rightarrow> Some (Inl (m, l))
       | [] \<Rightarrow> if l = 0 then Some (Inr (last (head_node # pre))) else Some (Inl (last (head_node # pre), l - 1)))"
      using next_at [OF assms *] none by (cases mid) (simp_all add: last_body_def)
  qed (simp add: cuts_def sorted_wrt_iff_nth_less)
  moreover have "takeWhile (\<lambda>_. True) ns = ns" for ns :: "nat list" by (induction ns) simp_all
  ultimately show ?thesis by simp
qed

section \<open>Insertion\<close>

definition has_link :: "'k SkipList \<Rightarrow> nat \<Rightarrow> nat \<Rightarrow> bool" where
  "has_link s x l \<longleftrightarrow> x < length (sl_nodes s) \<and> l < length (nd_next (sl_nodes s ! x))"

lemma Next_has_link: "Node_Next s x l = Some p \<Longrightarrow> has_link s x l"
  by (simp add: Node_Next_def has_link_def split: if_split_asm)

text \<open>What a store changes.\<close>

definition stored :: "'k SkipList \<Rightarrow> nat \<Rightarrow> nat \<Rightarrow> node_ptr \<Rightarrow> 'k SkipList \<Rightarrow> bool" where
  "stored s x l p t \<longleftrightarrow>
     (\<forall>y m. Node_Next t y m = (if y = x \<and> m = l then Some p else Node_Next s y m)) \<and>
     node_key t = node_key s \<and> has_link t = has_link s \<and> sl_max_height t = sl_max_height s \<and>
     length (sl_nodes t) = length (sl_nodes s)"

lemma SetNext_stored:
  assumes "has_link s x l"
  obtains t where "SetNext s x l p = Some t" and "stored s x l p t"
proof -
  let ?t = "s\<lparr>sl_nodes := (sl_nodes s)[x := (sl_nodes s ! x)\<lparr>nd_next := (nd_next (sl_nodes s ! x))[l := Some p]\<rparr>]\<rparr>"
  have "SetNext s x l p = Some ?t" using assms by (simp add: SetNext_def has_link_def)
  moreover have "stored s x l p ?t"
    using assms unfolding stored_def
    by (auto simp: Node_Next_def node_key_def has_link_def nth_list_update fun_eq_iff)
  ultimately show ?thesis using that by blast
qed

definition inserted :: "(nat \<Rightarrow> nat list) \<Rightarrow> (nat \<Rightarrow> bool) \<Rightarrow> nat \<Rightarrow> nat \<Rightarrow> nat \<Rightarrow> nat list" where
  "inserted L P n i l = (if l < i then before L P l @ n # behind L P l else L l)"

lemma inserted_0 [simp]: "inserted L P n 0 = L"
  by (simp add: inserted_def fun_eq_iff)

lemma set_inserted: "set (inserted L P n i l) = set (L l) \<union> (if l < i then {n} else {})"
proof -
  have "set (before L P l) \<union> set (behind L P l) = set (L l)" by (metis set_append takeWhile_dropWhile_id)
  then show ?thesis by (auto simp: inserted_def)
qed

definition inserting :: "'k SkipList \<Rightarrow> (nat \<Rightarrow> nat list) \<Rightarrow> (nat \<Rightarrow> bool) \<Rightarrow> insertion \<Rightarrow> nat \<Rightarrow> bool" where
  "inserting s L P ins i \<longleftrightarrow>
     links s (inserted L P (in_node ins) i) \<and> in_node ins \<notin> set (head_node # L 0) \<and>
     (\<forall>l < kMaxHeight. set (L l) \<subseteq> set (L 0)) \<and> i \<le> in_height ins \<and> 1 \<le> in_height ins \<and> in_height ins \<le> sl_max_height s \<and>
     (\<forall>l < in_height ins. in_prev ins ! l = Some (last (head_node # before L P l)) \<and> has_link s (in_node ins) l)"

lemma inserting_fresh: "inserting s L P ins i \<Longrightarrow> l < kMaxHeight \<Longrightarrow> in_node ins \<notin> set (head_node # L l)"
  by (auto simp: inserting_def)

lemma inserting_height: "inserting s L P ins i \<Longrightarrow> in_height ins \<le> kMaxHeight"
  by (auto simp: inserting_def links_def)

lemma links_stored:
  assumes "links s L" and "stored s x m p t"
    and "\<And>l. l < kMaxHeight \<Longrightarrow> chain s l head_node (L l) \<Longrightarrow> chain t l head_node (L l)"
  shows "links t L"
proof (rule linksI)
  have eq: "sl_max_height t = sl_max_height s" using assms(2) by (simp add: stored_def)
  show "chain t l head_node (L l)" "distinct (head_node # L l)" if "l < kMaxHeight" for l
    using links_chain [OF assms(1) that] assms(3) [OF that] by blast+
  show "L l = []" if "l < kMaxHeight" "sl_max_height t \<le> l" for l
    using links_top [OF assms(1) that(1)] that(2) eq by simp
  show "set (L (Suc l)) \<subseteq> set (L l)" if "Suc l < kMaxHeight" for l using assms(1) that by (rule links_step)
  show "1 \<le> sl_max_height t" "sl_max_height t \<le> kMaxHeight" using links_height [OF assms(1)] eq by simp_all
qed

text \<open>The new node's link is not part of any chain yet.\<close>

lemma insert_link_ok:
  assumes "inserting s L P ins i" and "i < in_height ins"
  obtains t where "insert_link ins i s = Some t" and "inserting t L P ins i"
    and "Node_Next t (in_node ins) i = Some (first (behind L P i))"
    and "node_key t = node_key s" and "sl_max_height t = sl_max_height s" and "length (sl_nodes t) = length (sl_nodes s)"
proof -
  let ?n = "in_node ins" and ?L = "inserted L P (in_node ins) i"
  have i: "i < kMaxHeight" using assms inserting_height [OF assms(1)] by simp
  have ln: "links s ?L" "in_prev ins ! i = Some (last (head_node # before L P i))" "has_link s ?n i"
    using assms by (auto simp: inserting_def)
  have "chain s i head_node (before L P i @ behind L P i)" using links_chain(1) [OF ln(1) i] by (simp add: inserted_def)
  then have nxt: "Node_Next s (last (head_node # before L P i)) i = Some (first (behind L P i))" by (rule chain_next)
  obtain t where t: "SetNext s ?n i (first (behind L P i)) = Some t" "stored s ?n i (first (behind L P i)) t"
    using SetNext_stored [OF ln(3)] .
  have "links t ?L"
  proof (rule links_stored [OF ln(1) t(2)])
    fix l assume l: "l < kMaxHeight" and c: "chain s l head_node (?L l)"
    have "chain t l head_node (?L l) = chain s l head_node (?L l)"
    proof (rule chain_cong)
      fix y assume y: "y \<in> set (head_node # ?L l)"
      have "\<not> (y = ?n \<and> l = i)"
      proof
        assume eq: "y = ?n \<and> l = i"
        then have "?L l = L l" by (simp add: inserted_def)
        with y eq inserting_fresh [OF assms(1) l] show False by simp
      qed
      then show "Node_Next t y l = Node_Next s y l" using t(2) unfolding stored_def by metis
    qed
    with c show "chain t l head_node (?L l)" by simp
  qed
  then have "inserting t L P ins i" using assms(1) t(2) by (simp add: inserting_def stored_def)
  moreover have "insert_link ins i s = Some t" using ln(2) nxt t(1) by (simp add: insert_link_def del: last.simps)
  ultimately show ?thesis using that [of t] t(2) unfolding stored_def by simp
qed

lemma distinct_between: "distinct (h # a @ b) \<Longrightarrow> n \<notin> set (h # a @ b) \<Longrightarrow> distinct (h # a @ n # b)"
  by auto

lemma insert_publish_ok:
  assumes "inserting s L P ins i" and "i < in_height ins" and "Node_Next s (in_node ins) i = Some (first (behind L P i))"
  obtains t where "insert_publish ins i s = Some t" and "inserting t L P ins (Suc i)"
    and "node_key t = node_key s" and "sl_max_height t = sl_max_height s" and "length (sl_nodes t) = length (sl_nodes s)"
proof -
  let ?n = "in_node ins" and ?L = "inserted L P (in_node ins)" and ?p = "last (head_node # before L P i)"
  have i: "i < kMaxHeight" using assms inserting_height [OF assms(1)] by simp
  have ln: "links s (?L i)" "in_prev ins ! i = Some ?p" using assms by (auto simp: inserting_def)
  have c: "chain s i head_node (before L P i @ behind L P i)" "distinct (head_node # before L P i @ behind L P i)"
    using links_chain [OF ln(1) i] by (simp_all add: inserted_def)
  have nxt: "Node_Next s ?p i = Some (first (behind L P i))" using c(1) by (rule chain_next)
  obtain t where t: "SetNext s ?p i (Some ?n) = Some t" "stored s ?p i (Some ?n) t"
    using SetNext_stored [OF Next_has_link [OF nxt]] .
  have n: "?n \<notin> set (head_node # before L P i @ behind L P i)" using inserting_fresh [OF assms(1) i] by simp
  have "?n \<notin> set (head_node # before L P i)" using inserting_fresh [OF assms(1) i] by (auto dest: set_takeWhileD)
  moreover have "?p \<in> set (head_node # before L P i)" by (rule last_in_set) simp
  ultimately have p: "?p \<noteq> ?n" by metis
  have store: "Node_Next t y m = (if y = ?p \<and> m = i then Some (Some ?n) else Node_Next s y m)" for y m
    using t(2) unfolding stored_def by blast
  have chains: "chain t l head_node (?L (Suc i) l)" if l: "l < kMaxHeight" for l
  proof (cases "l = i")
    case True
    have "chain t i head_node (before L P i @ ?n # behind L P i)"
    proof (rule chain_insert [OF c n])
      show "Node_Next t ?n i = Node_Next s ?p i" using assms(3) nxt p by (simp add: store del: last.simps)
    qed (simp_all add: store del: last.simps)
    then show ?thesis using True by (simp add: inserted_def)
  next
    case False
    then have "?L (Suc i) l = ?L i l" by (auto simp: inserted_def)
    moreover have "chain t l head_node (?L i l) = chain s l head_node (?L i l)"
      by (rule chain_cong) (simp add: store False)
    ultimately show ?thesis using links_chain(1) [OF ln(1) l] by simp
  qed
  have dist: "distinct (head_node # ?L (Suc i) l)" if l: "l < kMaxHeight" for l
  proof (cases "l = i")
    case True
    then show ?thesis using distinct_between [OF c(2) n] by (simp add: inserted_def)
  next
    case False
    then have "?L (Suc i) l = ?L i l" by (auto simp: inserted_def)
    then show ?thesis using links_chain(2) [OF ln(1) l] by simp
  qed
  have "links t (?L (Suc i))"
  proof (rule linksI)
    have eq: "sl_max_height t = sl_max_height s" using t(2) by (simp add: stored_def)
    have high: "in_height ins \<le> sl_max_height s" using assms(1) by (simp add: inserting_def)
    show "?L (Suc i) l = []" if "l < kMaxHeight" "sl_max_height t \<le> l" for l
      using links_top [OF ln(1) that(1)] that(2) eq high assms(2) by (simp add: inserted_def)
    show "set (?L (Suc i) (Suc l)) \<subseteq> set (?L (Suc i) l)" if "Suc l < kMaxHeight" for l
      using links_step [OF ln(1) that] inserting_fresh [OF assms(1) that] by (auto simp: set_inserted split: if_split_asm)
    show "1 \<le> sl_max_height t" "sl_max_height t \<le> kMaxHeight" using links_height [OF ln(1)] eq by simp_all
  qed (fact chains dist)+
  then have "inserting t L P ins (Suc i)" using assms(1,2) t(2) by (simp add: inserting_def stored_def)
  moreover have "insert_publish ins i s = Some t" using ln(2) t(1) by (simp add: insert_publish_def del: last.simps)
  ultimately show ?thesis using that [of t] t(2) unfolding stored_def by simp
qed

text \<open>The loop of \<open>Insert\<close>, and what comes before it.\<close>

lemma insert_loop_ok:
  assumes "inserting s L P ins i"
  obtains t where "insert_loop ins [i..<in_height ins] s = Some t" and "inserting t L P ins (in_height ins)"
    and "node_key t = node_key s" and "sl_max_height t = sl_max_height s" and "length (sl_nodes t) = length (sl_nodes s)"
proof -
  have "i \<le> in_height ins" using assms by (simp add: inserting_def)
  then have "\<exists>t. insert_loop ins [i..<in_height ins] s = Some t \<and> inserting t L P ins (in_height ins) \<and>
      node_key t = node_key s \<and> sl_max_height t = sl_max_height s \<and> length (sl_nodes t) = length (sl_nodes s)"
    using assms
  proof (induction "in_height ins - i" arbitrary: i s)
    case (Suc k)
    then have i: "i < in_height ins" by simp
    obtain s1 where s1: "insert_link ins i s = Some s1" "inserting s1 L P ins i"
      "Node_Next s1 (in_node ins) i = Some (first (behind L P i))" "node_key s1 = node_key s"
      "sl_max_height s1 = sl_max_height s" "length (sl_nodes s1) = length (sl_nodes s)"
      using insert_link_ok [OF Suc.prems(2) i] .
    obtain s2 where s2: "insert_publish ins i s1 = Some s2" "inserting s2 L P ins (Suc i)"
      "node_key s2 = node_key s1" "sl_max_height s2 = sl_max_height s1" "length (sl_nodes s2) = length (sl_nodes s1)"
      using insert_publish_ok [OF s1(2) i s1(3)] .
    have "k = in_height ins - Suc i" "Suc i \<le> in_height ins" using Suc.hyps(2) i by simp_all
    from Suc.hyps(1) [OF this s2(2)] show ?case using s1 s2 by (auto simp: upt_conv_Cons [OF i])
  qed simp
  then show ?thesis using that by blast
qed

lemma random_height_range:
  "1 \<le> height \<Longrightarrow> height \<le> kMaxHeight \<Longrightarrow>
   1 \<le> fst (random_height seed height) \<and> fst (random_height seed height) \<le> kMaxHeight"
proof (induction seed height rule: random_height.induct)
  case (1 seed height)
  then show ?case by (simp add: random_height.simps [of seed height] Let_def)
qed

lemma length_fold_fill [simp]: "length (fold (\<lambda>i v. v[i := c]) ns v) = length v"
  by (induction ns arbitrary: v) simp_all

lemma fold_fill: "j < length v \<Longrightarrow> fold (\<lambda>i v. v[i := c]) ns v ! j = (if j \<in> set ns then c else v ! j)"
  by (induction ns arbitrary: v) (auto simp: nth_list_update)

lemma Node_Next_NewNode:
  "Node_Next (snd (NewNode s key height)) x l =
    (if x = length (sl_nodes s) then None else Node_Next s x l)"
  by (auto simp: Node_Next_def NewNode_def nth_append)

lemma insert_begin_ok:
  assumes "links s L" and "cuts L (key_before cmp s key)"
  obtains ins t where "insert_begin cmp s key = Some (ins, t)" and "inserting t L (key_before cmp s key) ins 0"
    and "in_node ins = length (sl_nodes s)" and "length (sl_nodes t) = Suc (length (sl_nodes s))"
    and "node_key t (in_node ins) = key" and "\<forall>n < length (sl_nodes s). node_key t n = node_key s n"
proof -
  let ?P = "key_before cmp s key" and ?max = "sl_max_height s"
  define prev where "prev = filled L ?P (?max - 1) (replicate kMaxHeight None)"
  obtain height seed where h: "random_height (sl_rnd s) 1 = (height, seed)" by fastforce
  have height: "1 \<le> height" "height \<le> kMaxHeight"
    using random_height_range [of 1 "sl_rnd s"] h by (auto simp: kMaxHeight_def)
  define s1 where "s1 = s\<lparr>sl_rnd := seed, sl_max_height := max height ?max\<rparr>"
  define prev1 where "prev1 = (if height > ?max then fold (\<lambda>i v. v[i := Some head_node]) [?max..<height] prev else prev)"
  define ins where "ins = \<lparr>in_node = length (sl_nodes s), in_height = height, in_prev = prev1\<rparr>"
  define t where "t = snd (NewNode s1 key height)"
  have begins: "insert_begin cmp s key = Some (ins, t)"
    using FindGreaterOrEqual_cut [OF assms, of "Some (replicate kMaxHeight None)"]
    by (simp add: insert_begin_def RandomHeight_def h raise_height_def NewNode_def ins_def t_def s1_def prev1_def
      prev_def [symmetric] max_def del: last.simps One_nat_def)
  have max: "1 \<le> ?max" "?max \<le> kMaxHeight" using links_height [OF assms(1)] by simp_all
  have prev: "prev1 ! l = Some (last (head_node # before L ?P l))" if l: "l < height" for l
  proof (cases "l < ?max")
    case True
    then have "l \<le> ?max - 1" "?max - 1 < length (replicate kMaxHeight (None :: nat option))" using max by simp_all
    then have "prev ! l = Some (last (head_node # before L ?P l))" unfolding prev_def by (rule filled_nth)
    then show ?thesis using True l height by (auto simp: prev1_def fold_fill prev_def)
  next
    case False
    then have "L l = []" using links_top [OF assms(1)] l height by simp
    then show ?thesis using False l height by (simp add: prev1_def fold_fill prev_def)
  qed
  have Next: "Node_Next t x l = (if x = length (sl_nodes s) then None else Node_Next s x l)" for x l
    unfolding t_def Node_Next_NewNode by (simp add: s1_def Node_Next_def)
  have old: "set (head_node # L l) \<subseteq> {..<length (sl_nodes s)}" if "l < kMaxHeight" for l
    by (rule chain_nodes [OF links_chain(1) [OF assms(1) that]])
  have new: "length (sl_nodes s) \<notin> set (head_node # L l)" if "l < kMaxHeight" for l using old [OF that] by auto
  have tm: "sl_max_height t = max height ?max" by (simp add: t_def NewNode_def s1_def)
  have "links t L"
  proof (rule linksI)
    show "chain t l head_node (L l)" if l: "l < kMaxHeight" for l
    proof -
      have "chain t l head_node (L l) = chain s l head_node (L l)"
        by (rule chain_cong) (use Next new [OF l] in auto)
      then show ?thesis using links_chain(1) [OF assms(1) l] by simp
    qed
    show "distinct (head_node # L l)" if "l < kMaxHeight" for l by (rule links_chain(2) [OF assms(1) that])
    show "L l = []" if "l < kMaxHeight" "sl_max_height t \<le> l" for l
      using links_top [OF assms(1) that(1)] that(2) tm by simp
    show "set (L (Suc l)) \<subseteq> set (L l)" if "Suc l < kMaxHeight" for l by (rule links_step [OF assms(1) that])
    show "1 \<le> sl_max_height t" "sl_max_height t \<le> kMaxHeight" using tm height max by simp_all
  qed
  moreover have "has_link t (length (sl_nodes s)) l" if "l < height" for l
    using that by (simp add: has_link_def t_def NewNode_def s1_def)
  moreover have "set (L l) \<subseteq> set (L 0)" if "l < kMaxHeight" for l by (rule links_nested [OF assms(1) _ that]) simp
  ultimately have "inserting t L ?P ins 0"
    using new [of 0] height prev tm by (simp add: inserting_def ins_def kMaxHeight_def del: last.simps)
  moreover have "node_key t n = node_key s n" if "n < length (sl_nodes s)" for n
    using that by (simp add: node_key_def t_def NewNode_def s1_def nth_append)
  ultimately show ?thesis
    using that [OF begins] by (simp add: ins_def t_def NewNode_def s1_def node_key_def nth_append)
qed

section \<open>The list as a sorted list\<close>

text \<open>What the list asks of its comparator: keys that compare equal are interchangeable.\<close>

locale skip_order =
  fixes cmp :: "'k \<Rightarrow> 'k \<Rightarrow> int" and valid :: "'k \<Rightarrow> bool"
  assumes cmp_swap: "valid a \<Longrightarrow> valid b \<Longrightarrow> cmp a b < 0 \<longleftrightarrow> 0 < cmp b a"
    and cmp_trans: "valid a \<Longrightarrow> valid b \<Longrightarrow> valid c \<Longrightarrow> cmp a b < 0 \<Longrightarrow> cmp b c < 0 \<Longrightarrow> cmp a c < 0"
    and cmp_same: "valid a \<Longrightarrow> valid b \<Longrightarrow> valid c \<Longrightarrow> cmp a b < 0 \<Longrightarrow> cmp b c = 0 \<Longrightarrow> cmp a c < 0"

definition sorted_levels ::
  "('k \<Rightarrow> 'k \<Rightarrow> int) \<Rightarrow> ('k \<Rightarrow> bool) \<Rightarrow> 'k SkipList \<Rightarrow> (nat \<Rightarrow> nat list) \<Rightarrow> bool"
where
  "sorted_levels cmp valid s L \<longleftrightarrow>
     (\<forall>l < kMaxHeight. sorted_wrt (\<lambda>a b. cmp (node_key s a) (node_key s b) < 0) (L l)) \<and>
     (\<forall>n \<in> set (L 0). valid (node_key s n))"

definition skip_inv ::
  "('k \<Rightarrow> 'k \<Rightarrow> int) \<Rightarrow> ('k \<Rightarrow> bool) \<Rightarrow> 'k SkipList \<Rightarrow> (nat \<Rightarrow> nat list) \<Rightarrow> bool"
where
  "skip_inv cmp valid s L \<longleftrightarrow> links s L \<and> sorted_levels cmp valid s L"

definition skip_ok :: "('k \<Rightarrow> 'k \<Rightarrow> int) \<Rightarrow> ('k \<Rightarrow> bool) \<Rightarrow> 'k SkipList \<Rightarrow> bool" where
  "skip_ok cmp valid s \<longleftrightarrow> skip_inv cmp valid s (level_nodes s)"

definition insert_sorted :: "('k \<Rightarrow> 'k \<Rightarrow> int) \<Rightarrow> 'k \<Rightarrow> 'k list \<Rightarrow> 'k list" where
  "insert_sorted cmp key ks =
     takeWhile (\<lambda>k. cmp k key < 0) ks @ key # dropWhile (\<lambda>k. cmp k key < 0) ks"

lemma max_positive: "0 < kMaxHeight"
  by (simp add: kMaxHeight_def)

lemma links_below: "links s L \<Longrightarrow> l < kMaxHeight \<Longrightarrow> set (L l) \<subseteq> set (L 0)"
  by (rule links_nested) simp_all

lemma skip_inv_ok:
  assumes "skip_inv cmp valid s L"
  shows "skip_ok cmp valid s" and "level_nodes s 0 = L 0"
proof -
  have ln: "links s L" using assms by (simp add: skip_inv_def sorted_levels_def)
  have eq: "level_nodes s l = L l" if "l < kMaxHeight" for l using links_level [OF ln that] .
  have "links s (level_nodes s)"
  proof (rule linksI)
    show "chain s l head_node (level_nodes s l)" "distinct (head_node # level_nodes s l)" if "l < kMaxHeight" for l
      using links_chain [OF ln that] eq [OF that] by simp_all
    show "level_nodes s l = []" if "l < kMaxHeight" "sl_max_height s \<le> l" for l
      using links_top [OF ln that] eq [OF that(1)] by simp
    show "set (level_nodes s (Suc l)) \<subseteq> set (level_nodes s l)" if "Suc l < kMaxHeight" for l
      using links_step [OF ln that] eq [OF that] eq [of l] that by simp
    show "1 \<le> sl_max_height s" "sl_max_height s \<le> kMaxHeight" using links_height [OF ln] by simp_all
  qed
  then show "skip_ok cmp valid s" "level_nodes s 0 = L 0"
    using assms eq max_positive by (simp_all add: skip_ok_def skip_inv_def sorted_levels_def)
qed

context skip_order
begin

lemma skip_cuts:
  assumes "skip_inv cmp valid s L" and "valid key"
  shows "cuts L (key_before cmp s key)"
  unfolding cuts_def
proof (intro allI impI)
  fix l assume l: "l < kMaxHeight"
  have v: "valid (node_key s n)" if "n \<in> set (L l)" for n
    using assms(1) that links_below [of s L l] l by (auto simp: skip_inv_def sorted_levels_def)
  have "sorted_wrt (\<lambda>a b. cmp (node_key s a) (node_key s b) < 0) (L l)" using assms(1) l by (simp add: skip_inv_def sorted_levels_def)
  then show "sorted_wrt (\<lambda>a b. key_before cmp s key b \<longrightarrow> key_before cmp s key a) (L l)"
  proof (rule sorted_wrt_mono_rel [rotated])
    fix a b assume "a \<in> set (L l)" "b \<in> set (L l)" "cmp (node_key s a) (node_key s b) < 0"
    then show "key_before cmp s key b \<longrightarrow> key_before cmp s key a"
      using cmp_trans [OF v v assms(2), of a b] by (simp add: key_before_def)
  qed
qed

lemma not_before:
  assumes "skip_inv cmp valid s L" and "valid key" and "l < kMaxHeight" and "n \<in> set (behind L (key_before cmp s key) l)"
  shows "0 \<le> cmp (node_key s n) key"
proof -
  have "sorted_wrt (\<lambda>a b. key_before cmp s key b \<longrightarrow> key_before cmp s key a) (L l)"
    using skip_cuts [OF assms(1,2)] assms(3) by (simp add: cuts_def)
  then have "\<not> key_before cmp s key n" using assms(4) by (rule dropWhile_cut)
  then show ?thesis by (simp add: key_before_def)
qed

text \<open>The new key fits where it is linked in.\<close>

lemma inserted_sorted:
  assumes "skip_inv cmp valid s L" and "valid key" and "\<forall>m \<in> set (L 0). cmp (node_key s m) key \<noteq> 0"
    and "node_key t n = key" and "\<forall>m \<in> set (L 0). node_key t m = node_key s m"
  shows "sorted_levels cmp valid t (inserted L (key_before cmp s key) n i)"
proof -
  let ?P = "key_before cmp s key" and ?n = n
  have ln: "links s L" using assms(1) by (simp add: skip_inv_def sorted_levels_def)
  have "sorted_wrt (\<lambda>a b. cmp (node_key t a) (node_key t b) < 0) (inserted L ?P ?n i l)" if l: "l < kMaxHeight" for l
  proof -
    have same: "node_key t m = node_key s m" "valid (node_key s m)" "cmp (node_key s m) key \<noteq> 0" if "m \<in> set (L l)" for m
      using that assms(1,3,5) links_below [OF ln l] by (auto simp: skip_inv_def sorted_levels_def)
    have "sorted_wrt (\<lambda>a b. cmp (node_key s a) (node_key s b) < 0) (L l)" using assms(1) l by (simp add: skip_inv_def sorted_levels_def)
    then have old: "sorted_wrt (\<lambda>a b. cmp (node_key t a) (node_key t b) < 0) (L l)"
      by (rule sorted_wrt_mono_rel [rotated]) (simp add: same)
    have lo: "cmp (node_key t m) key < 0" if "m \<in> set (before L ?P l)" for m
      using set_takeWhileD [OF that] same(1) [of m] by (simp add: key_before_def)
    have hi: "cmp key (node_key t m) < 0" if m: "m \<in> set (behind L ?P l)" for m
    proof -
      have in_l: "m \<in> set (L l)" using m by (rule set_dropWhileD)
      then have "0 < cmp (node_key s m) key" using not_before [OF assms(1,2) l m] same(3) [OF in_l] by simp
      then show ?thesis using cmp_swap assms(2) same [OF in_l] by simp
    qed
    have "sorted_wrt (\<lambda>a b. cmp (node_key t a) (node_key t b) < 0) (before L ?P l @ behind L ?P l)" using old by simp
    then have "sorted_wrt (\<lambda>a b. cmp (node_key t a) (node_key t b) < 0) (before L ?P l @ ?n # behind L ?P l)"
      unfolding sorted_wrt_append using lo hi assms(4) by simp
    then show ?thesis using old by (simp add: inserted_def)
  qed
  moreover have "valid (node_key t m)" if "m \<in> set (inserted L ?P ?n i 0)" for m
    using that assms(1,2,4,5) by (auto simp: set_inserted skip_inv_def sorted_levels_def split: if_split_asm)
  ultimately show ?thesis by (simp add: sorted_levels_def)
qed

text \<open>The invariant holds at every point of an insertion.\<close>

lemma inserting_inv:
  assumes "skip_inv cmp valid s L" and "valid key" and "\<forall>n \<in> set (L 0). cmp (node_key s n) key \<noteq> 0"
    and "inserting t L (key_before cmp s key) ins i" and "node_key t (in_node ins) = key"
    and "\<forall>n \<in> set (L 0). node_key t n = node_key s n"
  shows "skip_inv cmp valid t (inserted L (key_before cmp s key) (in_node ins) i)"
  using inserted_sorted [OF assms(1,2,3,5,6)] assms(4) by (simp add: skip_inv_def inserting_def)

end

lemma skip_ok_inv:
  assumes "skip_ok cmp valid s"
  shows "skip_inv cmp valid s (level_nodes s)" and "contents s = map (node_key s) (level_nodes s 0)"
  using assms by (simp_all add: skip_ok_def contents_def)

lemma contents_inserted:
  assumes "skip_inv cmp valid s L" and "skip_inv cmp valid t (inserted L (key_before cmp s key) n i)" and "0 < i"
    and "node_key t n = key" and "\<forall>m \<in> set (L 0). node_key t m = node_key s m"
  shows "contents t = insert_sorted cmp key (contents s)"
proof -
  let ?P = "key_before cmp s key"
  have s: "contents s = map (node_key s) (L 0)" using skip_inv_ok(2) [OF assms(1)] by (simp add: contents_def)
  have "contents t = map (node_key t) (inserted L ?P n i 0)" using skip_inv_ok(2) [OF assms(2)] by (simp add: contents_def)
  also have "\<dots> = map (node_key t) (before L ?P 0) @ key # map (node_key t) (behind L ?P 0)"
    using assms(3,4) by (simp add: inserted_def)
  also have "map (node_key t) (before L ?P 0) = map (node_key s) (before L ?P 0)"
    using assms(5) by (auto dest: set_takeWhileD)
  also have "map (node_key t) (behind L ?P 0) = map (node_key s) (behind L ?P 0)"
    using assms(5) by (auto dest: set_dropWhileD)
  finally show ?thesis
    by (simp add: insert_sorted_def s takeWhile_map dropWhile_map comp_def key_before_def [abs_def])
qed

lemma new_ok: "skip_ok cmp valid (SkipList_new any_key)" "contents (SkipList_new any_key) = []"
proof -
  let ?s = "SkipList_new any_key"
  have "links ?s (\<lambda>_. [])"
    by (rule linksI) (simp_all add: SkipList_new_def Node_Next_def head_node_def kMaxHeight_def)
  then have "skip_inv cmp valid ?s (\<lambda>_. [])" by (simp add: skip_inv_def sorted_levels_def)
  then show "skip_ok cmp valid ?s" "contents ?s = []"
    using skip_inv_ok [of cmp valid ?s "\<lambda>_. []"] by (simp_all add: contents_def)
qed

lemma Insert_sorted_list:
  assumes "skip_order cmp valid" and "skip_ok cmp valid s" and "valid key" and "\<forall>k \<in> set (contents s). cmp k key \<noteq> 0"
  shows "\<exists>t. SkipList_Insert cmp s key = Some t \<and> skip_ok cmp valid t \<and> contents t = insert_sorted cmp key (contents s)"
proof -
  let ?L = "level_nodes s" and ?P = "key_before cmp s key"
  note inv = skip_ok_inv [OF assms(2)]
  then have ln: "links s ?L" by (simp add: skip_inv_def sorted_levels_def)
  have nodes: "m < length (sl_nodes s)" if "m \<in> set (?L 0)" for m
    using chain_nodes [OF links_chain(1) [OF ln max_positive]] that by auto
  obtain ins s1 where s1: "insert_begin cmp s key = Some (ins, s1)" "inserting s1 ?L ?P ins 0"
    "in_node ins = length (sl_nodes s)" "length (sl_nodes s1) = Suc (length (sl_nodes s))" "node_key s1 (in_node ins) = key" "\<forall>n < length (sl_nodes s). node_key s1 n = node_key s n"
    using insert_begin_ok [OF ln skip_order.skip_cuts [OF assms(1) inv(1) assms(3)]] .
  obtain t where t: "insert_loop ins [0..<in_height ins] s1 = Some t" "inserting t ?L ?P ins (in_height ins)"
    "node_key t = node_key s1" "sl_max_height t = sl_max_height s1" "length (sl_nodes t) = length (sl_nodes s1)"
    using insert_loop_ok [OF s1(2)] .
  have keys: "node_key t (in_node ins) = key" "\<forall>m \<in> set (?L 0). node_key t m = node_key s m"
    using t(3) s1(5,6) nodes by simp_all
  have "\<forall>m \<in> set (?L 0). cmp (node_key s m) key \<noteq> 0" using assms(4) inv(2) by simp
  note inv' = skip_order.inserting_inv [OF assms(1) inv(1) assms(3) this t(2) keys]
  have "0 < in_height ins" using t(2) by (simp add: inserting_def)
  note contents_inserted [OF inv(1) inv' this keys]
  then show ?thesis using s1(1) t(1) skip_inv_ok(1) [OF inv'] by (simp add: SkipList_Insert_def)
qed

text \<open>C6: an insertion into the skip list is an insertion into a sorted list: whatever heights the random
  numbers give, \<open>Insert\<close> returns without an undefined read or store, keeps every level sorted and part
  of the level below, and the keys of the list are the old ones with the new key put where it belongs.\<close>

theorem skip_insert_refines:
  assumes "skip_order cmp valid" and "skip_ok cmp valid s" and "valid key" and "\<forall>k \<in> set (contents s). cmp k key \<noteq> 0"
  shows "\<exists>t. SkipList_Insert cmp s key = Some t \<and> skip_ok cmp valid t \<and> contents t = insert_sorted cmp key (contents s)"
  by (rule Insert_sorted_list [OF assms])

lemma minus_order: "skip_order (\<lambda>a b. a - b) (\<lambda>_ :: int. True)"
  by unfold_locales auto

lemma skip_insert_refines_witness:
  "\<exists>s t. SkipList_Insert (\<lambda>a b. a - b) (SkipList_new 0) (5 :: int) = Some s \<and> contents s = [5] \<and>
    SkipList_Insert (\<lambda>a b. a - b) s 3 = Some t \<and> contents t = [3, 5]"
proof -
  obtain s where s: "SkipList_Insert (\<lambda>a b. a - b) (SkipList_new 0) (5 :: int) = Some s"
    "skip_ok (\<lambda>a b. a - b) (\<lambda>_. True) s" "contents s = [5]"
    using skip_insert_refines [OF minus_order new_ok(1), of 0 5] by (auto simp: new_ok insert_sorted_def)
  with skip_insert_refines [OF minus_order s(2), of 3] show ?thesis by (auto simp: insert_sorted_def)
qed

section \<open>Iterators over the sorted list\<close>

text \<open>The iterator at the key of a given number.\<close>

definition iter_at :: "'k SkipList \<Rightarrow> nat \<Rightarrow> skip_iter" where
  "iter_at s i = (if i < length (contents s) then Some (level_nodes s 0 ! i) else None)"

lemma first_drop: "first (drop i ns) = (if i < length ns then Some (ns ! i) else None)"
  by (simp add: first_def drop_Cons' hd_drop_conv_nth split: list.split) (metis Cons_nth_drop_Suc list.inject)

lemma first_dropWhile: "first (dropWhile P ns) = first (drop (length (takeWhile P ns)) ns)"
  by (simp add: dropWhile_eq_drop)

text \<open>C10: an iterator over the skip list moves over the sorted list of its keys: \<open>Seek\<close> finds the first key
  that is not before the target, \<open>SeekToFirst\<close> and \<open>SeekToLast\<close> the ends, \<open>Next\<close> and \<open>Prev\<close> the
  neighbours, each of them invalid where there is no such key, and \<open>key\<close> reads the key it stands at.\<close>

theorem skip_iterator_refines:
  assumes "skip_order cmp valid" and "skip_ok cmp valid s" and "valid target" and "i < length (contents s)"
  shows "skip_Seek cmp s target = Some (iter_at s (length (takeWhile (\<lambda>k. cmp k target < 0) (contents s)))) \<and>
    skip_SeekToFirst s = Some (iter_at s 0) \<and> skip_SeekToLast s = Some (iter_at s (length (contents s) - 1)) \<and>
    skip_key s (iter_at s i) = Some (contents s ! i) \<and> skip_Next s (iter_at s i) = Some (iter_at s (i + 1)) \<and>
    skip_Prev cmp s (iter_at s i) = Some (if i = 0 then None else iter_at s (i - 1))"
proof -
  let ?L = "level_nodes s" and ?n = "length (level_nodes s 0)"
  note inv = skip_ok_inv [OF assms(2)]
  then have ln: "links s ?L" by (simp add: skip_inv_def sorted_levels_def)
  note ch = links_chain [OF ln max_positive]
  have n: "length (contents s) = ?n" "i < ?n" using inv(2) assms(4) by simp_all
  have at: "iter_at s j = first (drop j (?L 0))" for j by (simp add: iter_at_def n(1) first_drop)
  have "skip_Seek cmp s target = Some (first (dropWhile (key_before cmp s target) (?L 0)))"
    using FindGreaterOrEqual_cut [OF ln skip_order.skip_cuts [OF assms(1) inv(1) assms(3)], of None]
    by (simp add: skip_Seek_def)
  moreover have "length (takeWhile (\<lambda>k. cmp k target < 0) (contents s)) = length (takeWhile (key_before cmp s target) (?L 0))"
    by (simp add: inv(2) takeWhile_map comp_def key_before_def [abs_def])
  ultimately have Seek: "skip_Seek cmp s target = Some (iter_at s (length (takeWhile (\<lambda>k. cmp k target < 0) (contents s))))"
    by (simp add: at first_dropWhile)
  have First: "skip_SeekToFirst s = Some (iter_at s 0)"
    using chain_first [OF ch(1)] by (simp add: skip_SeekToFirst_def at)
  have "last (?L 0) \<noteq> head_node" using ch(2) n(2) last_in_set [of "?L 0"] by force
  then have Last: "skip_SeekToLast s = Some (iter_at s (length (contents s) - 1))"
    using FindLast_links [OF ln] n by (auto simp: skip_SeekToLast_def iter_at_def skip_of_def last_conv_nth)
  have key: "skip_key s (iter_at s i) = Some (contents s ! i)"
    using inv(2) n by (simp add: skip_key_def iter_at_def)
  have "chain s 0 head_node (take (Suc i) (?L 0) @ drop (Suc i) (?L 0))" using ch(1) by simp
  from chain_next [OF this] have Next: "skip_Next s (iter_at s i) = Some (iter_at s (i + 1))"
    using n by (simp add: skip_Next_def at [of "Suc i"] iter_at_def [of s i] take_Suc_conv_app_nth)
  have keys: "cmp (node_key s (?L 0 ! j)) (node_key s (?L 0 ! k)) < 0" if "j < k" "k < ?n" for j k
    using inv(1) that max_positive by (simp add: skip_inv_def sorted_levels_def sorted_wrt_iff_nth_less)
  let ?k = "node_key s (?L 0 ! i)"
  have valid: "valid ?k" using inv(1) n by (simp add: skip_inv_def sorted_levels_def)
  have "takeWhile (key_before cmp s ?k) (?L 0) = take i (?L 0)"
  proof (rule takeWhile_eq_take_P_nth)
    show "\<not> key_before cmp s ?k (?L 0 ! i)"
      using skip_order.cmp_swap [OF assms(1) valid valid] unfolding key_before_def by linarith
  qed (use keys n in \<open>simp_all add: key_before_def\<close>)
  then have "FindLessThan cmp s ?k = Some (last (head_node # take i (?L 0)))"
    using FindLessThan_cut [OF ln skip_order.skip_cuts [OF assms(1) inv(1) valid]] by simp
  moreover have "?L 0 ! (i - 1) \<in> set (?L 0)" using n(2) by simp
  then have "?L 0 ! (i - 1) \<noteq> head_node" using ch(2) by (metis distinct.simps(2))
  ultimately have Prev: "skip_Prev cmp s (iter_at s i) = Some (if i = 0 then None else iter_at s (i - 1))"
    using n by (cases i) (auto simp: skip_Prev_def iter_at_def skip_of_def take_Suc_conv_app_nth)
  show ?thesis using Seek First Last key Next Prev by blast
qed

lemma skip_iterator_refines_witness:
  "\<exists>s. SkipList_Insert (\<lambda>a b. a - b) (SkipList_new 0) (5 :: int) = Some s \<and>
    (case skip_Seek (\<lambda>a b. a - b) s 4 of Some it \<Rightarrow> skip_key s it = Some 5 \<and> skip_Next s it = Some None | None \<Rightarrow> False)"
proof -
  obtain s where s: "SkipList_Insert (\<lambda>a b. a - b) (SkipList_new 0) (5 :: int) = Some s"
    "skip_ok (\<lambda>a b. a - b) (\<lambda>_. True) s" "contents s = [5]"
    using Insert_sorted_list [OF minus_order new_ok(1), of 0 5] by (auto simp: new_ok insert_sorted_def)
  have "skip_Seek (\<lambda>a b. a - b) s 4 = Some (iter_at s 0) \<and> skip_key s (iter_at s 0) = Some 5 \<and>
      skip_Next s (iter_at s 0) = Some (iter_at s 1)"
    using skip_iterator_refines [OF minus_order s(2), where target = 4 and i = 0] by (simp add: s(3))
  then show ?thesis using s by (simp add: iter_at_def [of s "Suc 0"])
qed

text \<open>\<open>Contains\<close> answers whether some key of the list compares equal.\<close>

theorem skip_contains_correct:
  assumes "skip_order cmp valid" and "skip_ok cmp valid s" and "valid key"
  shows "SkipList_Contains cmp s key = Some (\<exists>k \<in> set (contents s). cmp key k = 0)"
proof -
  let ?L = "level_nodes s" and ?P = "key_before cmp s key"
  note inv = skip_ok_inv [OF assms(2)]
  then have ln: "links s ?L" by (simp add: skip_inv_def sorted_levels_def)
  note cut = skip_order.skip_cuts [OF assms(1) inv(1) assms(3)]
  have search: "FindGreaterOrEqual cmp s key None = Some (first (behind ?L ?P 0), None)"
    using FindGreaterOrEqual_cut [OF ln cut, of None] by simp
  have v: "valid (node_key s m)" if "m \<in> set (?L 0)" for m using inv(1) that by (simp add: skip_inv_def sorted_levels_def)
  have zero: "cmp a key = 0 \<longleftrightarrow> cmp key a = 0" if "valid a" for a
    using skip_order.cmp_swap [OF assms(1) that assms(3)] skip_order.cmp_swap [OF assms(1) assms(3) that] by linarith
  have parts: "set (?L 0) = set (before ?L ?P 0) \<union> set (behind ?L ?P 0)" by (metis set_append takeWhile_dropWhile_id)
  have front: "cmp key (node_key s m) \<noteq> 0" if "m \<in> set (before ?L ?P 0)" for m
  proof -
    have "m \<in> set (?L 0)" "cmp (node_key s m) key < 0"
      using set_takeWhileD [OF that] by (simp_all add: key_before_def)
    then show ?thesis using zero [OF v, of m] by simp
  qed
  show ?thesis
  proof (cases "behind ?L ?P 0")
    case Nil
    have "set (?L 0) = set (before ?L ?P 0)" using parts unfolding Nil by simp
    then have "\<forall>m \<in> set (?L 0). cmp key (node_key s m) \<noteq> 0" using front by blast
    then have "\<not> (\<exists>k \<in> set (contents s). cmp key k = 0)" using inv(2) by simp
    then show ?thesis using search Nil by (simp add: SkipList_Contains_def)
  next
    case (Cons m rest)
    have m: "m \<in> set (?L 0)" "0 \<le> cmp (node_key s m) key"
      using Cons parts skip_order.not_before [OF assms(1) inv(1) assms(3) max_positive, of m] by auto
    have "sorted_wrt (\<lambda>a b. cmp (node_key s a) (node_key s b) < 0) (before ?L ?P 0 @ m # rest)"
      using inv(1) max_positive takeWhile_dropWhile_id [of ?P "?L 0"] Cons by (simp add: skip_inv_def sorted_levels_def)
    then have less: "cmp (node_key s m) (node_key s k) < 0" if "k \<in> set rest" for k
      using that by (simp add: sorted_wrt_append)
    have rest: "cmp key (node_key s k) \<noteq> 0" if "k \<in> set rest" for k
    proof
      have k: "k \<in> set (?L 0)" using that Cons parts by auto
      assume "cmp key (node_key s k) = 0"
      then have "cmp (node_key s k) key = 0" using zero [OF v [OF k]] by simp
      from skip_order.cmp_same [OF assms(1) v [OF m(1)] v [OF k] assms(3) less [OF that] this] m(2) show False by simp
    qed
    have "(\<exists>k \<in> set (contents s). cmp key k = 0) \<longleftrightarrow> cmp key (node_key s m) = 0"
      using inv(2) parts Cons front rest by auto
    then show ?thesis using search Cons by (simp add: SkipList_Contains_def)
  qed
qed

lemma skip_contains_correct_witness:
  "SkipList_Contains (\<lambda>a b. a - b) (SkipList_new 0) (5 :: int) = Some False"
  using skip_contains_correct [OF minus_order new_ok(1), of 0 5] by (simp add: new_ok)

end
