(* ===== verification/Ldb_Skiplist_Shared.thy ===== *)
theory Ldb_Skiplist_Shared
  imports Ldb_Skiplist_Props
begin

text \<open>
  Readers of the skip list (\<open>leveldb-library/db/skiplist.h\<close>) take no lock. Here any number of searches
  runs beside one insertion at a time (writers are synchronized by their callers), and a step of the
  system is one read of a shared link by a search, or one store of the insertion; what an insertion
  reads before its first store nobody else changes. The stores are seen in the order they are made,
  which is what the release stores and acquire loads of the code are for. A search keeps the height it
  read at its start.
\<close>

section \<open>The system\<close>

datatype writer = Idle | Linking insertion nat | Publishing insertion nat

datatype 'k reader = Resting | Searching 'k nat nat | Returned 'k node_ptr

record 'k shared =
  sh_list :: "'k SkipList"
  sh_writer :: writer
  sh_reader :: "nat \<Rightarrow> 'k reader"

definition shared_new :: "'k \<Rightarrow> 'k shared" where
  "shared_new any_key = \<lparr>sh_list = SkipList_new any_key, sh_writer = Idle, sh_reader = (\<lambda>_. Resting)\<rparr>"

inductive shared_step :: "('k \<Rightarrow> 'k \<Rightarrow> int) \<Rightarrow> ('k \<Rightarrow> bool) \<Rightarrow> 'k shared \<Rightarrow> 'k shared \<Rightarrow> bool"
  for cmp :: "'k \<Rightarrow> 'k \<Rightarrow> int" and valid :: "'k \<Rightarrow> bool"
where
  w_begin: "sh_writer w = Idle \<Longrightarrow> valid key \<Longrightarrow> \<forall>k \<in> set (contents (sh_list w)). cmp k key \<noteq> 0 \<Longrightarrow>
    insert_begin cmp (sh_list w) key = Some (ins, s) \<Longrightarrow>
    shared_step cmp valid w (w\<lparr>sh_list := s, sh_writer := Linking ins 0\<rparr>)"
| w_link: "sh_writer w = Linking ins i \<Longrightarrow> i < in_height ins \<Longrightarrow> insert_link ins i (sh_list w) = Some s \<Longrightarrow>
    shared_step cmp valid w (w\<lparr>sh_list := s, sh_writer := Publishing ins i\<rparr>)"
| w_publish: "sh_writer w = Publishing ins i \<Longrightarrow> insert_publish ins i (sh_list w) = Some s \<Longrightarrow>
    shared_step cmp valid w (w\<lparr>sh_list := s, sh_writer := Linking ins (Suc i)\<rparr>)"
| w_finish: "sh_writer w = Linking ins (in_height ins) \<Longrightarrow> shared_step cmp valid w (w\<lparr>sh_writer := Idle\<rparr>)"
| r_start: "\<forall>k x l. sh_reader w r \<noteq> Searching k x l \<Longrightarrow> valid key \<Longrightarrow>
    shared_step cmp valid w
      (w\<lparr>sh_reader := (sh_reader w)(r := Searching key head_node (sl_max_height (sh_list w) - 1))\<rparr>)"
| r_move: "sh_reader w r = Searching key x level \<Longrightarrow> ge_body cmp (sh_list w) key (x, level, None) = Some (Inl (y, m, None)) \<Longrightarrow>
    shared_step cmp valid w (w\<lparr>sh_reader := (sh_reader w)(r := Searching key y m)\<rparr>)"
| r_return: "sh_reader w r = Searching key x level \<Longrightarrow> ge_body cmp (sh_list w) key (x, level, None) = Some (Inr (n, None)) \<Longrightarrow>
    shared_step cmp valid w (w\<lparr>sh_reader := (sh_reader w)(r := Returned key n)\<rparr>)"

definition shared_reachable :: "('k \<Rightarrow> 'k \<Rightarrow> int) \<Rightarrow> ('k \<Rightarrow> bool) \<Rightarrow> 'k \<Rightarrow> 'k shared \<Rightarrow> bool" where
  "shared_reachable cmp valid any_key = (shared_step cmp valid)\<^sup>*\<^sup>* (shared_new any_key)"

section \<open>Invariants\<close>

text \<open>In the middle of an insertion the list has the new key at the levels below \<open>i\<close>.\<close>

definition mid_insert :: "('k \<Rightarrow> 'k \<Rightarrow> int) \<Rightarrow> ('k \<Rightarrow> bool) \<Rightarrow> 'k SkipList \<Rightarrow> (nat \<Rightarrow> nat list) \<Rightarrow> (nat \<Rightarrow> bool) \<Rightarrow> insertion \<Rightarrow> nat \<Rightarrow> bool" where
  "mid_insert cmp valid s L P ins i \<longleftrightarrow>
     inserting s L P ins i \<and> (\<forall>j. sorted_levels cmp valid s (inserted L P (in_node ins) j)) \<and>
     (\<forall>m \<in> set (L 0). P m \<longleftrightarrow> cmp (node_key s m) (node_key s (in_node ins)) < 0)"

fun writer_inv :: "('k \<Rightarrow> 'k \<Rightarrow> int) \<Rightarrow> ('k \<Rightarrow> bool) \<Rightarrow> 'k SkipList \<Rightarrow> writer \<Rightarrow> bool" where
  "writer_inv cmp valid s Idle = skip_ok cmp valid s"
| "writer_inv cmp valid s (Linking ins i) = (\<exists>L P. mid_insert cmp valid s L P ins i)"
| "writer_inv cmp valid s (Publishing ins i) =
     (\<exists>L P. mid_insert cmp valid s L P ins i \<and> i < in_height ins \<and>
        Node_Next s (in_node ins) i = Some (first (behind L P i)))"

fun reader_inv :: "('k \<Rightarrow> 'k \<Rightarrow> int) \<Rightarrow> ('k \<Rightarrow> bool) \<Rightarrow> 'k SkipList \<Rightarrow> 'k reader \<Rightarrow> bool" where
  "reader_inv cmp valid s (Searching key x l) =
     (valid key \<and> search_at (level_nodes s) (key_before cmp s key) x l)"
| "reader_inv cmp valid s r = True"

definition shared_inv :: "('k \<Rightarrow> 'k \<Rightarrow> int) \<Rightarrow> ('k \<Rightarrow> bool) \<Rightarrow> 'k shared \<Rightarrow> bool" where
  "shared_inv cmp valid w \<longleftrightarrow>
     writer_inv cmp valid (sh_list w) (sh_writer w) \<and> (\<forall>r. reader_inv cmp valid (sh_list w) (sh_reader w r))"

lemma mid_insert_inv: "mid_insert cmp valid s L P ins i \<Longrightarrow> skip_inv cmp valid s (inserted L P (in_node ins) i)"
  by (simp add: mid_insert_def skip_inv_def inserting_def)

lemma writer_inv_ok: "writer_inv cmp valid s wr \<Longrightarrow> skip_ok cmp valid s"
  by (cases wr) (auto intro: skip_inv_ok(1) mid_insert_inv)

text \<open>A store keeps every node a reader may stand at: it only adds nodes to levels.\<close>

definition grows :: "'k SkipList \<Rightarrow> 'k SkipList \<Rightarrow> bool" where
  "grows s t \<longleftrightarrow>
     (\<forall>l < kMaxHeight. set (level_nodes s l) \<subseteq> set (level_nodes t l) \<and>
        (\<forall>n \<in> set (level_nodes s l). node_key t n = node_key s n))"

lemma reader_inv_grows: "grows s t \<Longrightarrow> reader_inv cmp valid s rd \<Longrightarrow> reader_inv cmp valid t rd"
  by (cases rd) (auto simp: grows_def search_at_def key_before_def)

lemma begin_mid_insert:
  assumes "skip_order cmp valid" and "skip_ok cmp valid s" and "valid key" and "\<forall>k \<in> set (contents s). cmp k key \<noteq> 0"
  obtains ins t where "insert_begin cmp s key = Some (ins, t)"
    and "mid_insert cmp valid t (level_nodes s) (key_before cmp s key) ins 0"
    and "node_key t (in_node ins) = key" and "\<forall>m \<in> set (level_nodes s 0). node_key t m = node_key s m"
proof -
  let ?L = "level_nodes s" and ?P = "key_before cmp s key"
  note inv = skip_ok_inv [OF assms(2)]
  then have ln: "links s ?L" by (simp add: skip_inv_def)
  obtain ins t where t: "insert_begin cmp s key = Some (ins, t)" "inserting t ?L ?P ins 0"
    "in_node ins = length (sl_nodes s)" "length (sl_nodes t) = Suc (length (sl_nodes s))"
    "node_key t (in_node ins) = key" "\<forall>n < length (sl_nodes s). node_key t n = node_key s n"
    using insert_begin_ok [OF ln skip_order.skip_cuts [OF assms(1) inv(1) assms(3)]] .
  have keys: "\<forall>m \<in> set (?L 0). node_key t m = node_key s m"
    using t(6) chain_nodes [OF links_chain(1) [OF ln max_positive]] by auto
  have "\<forall>m \<in> set (?L 0). cmp (node_key s m) key \<noteq> 0" using assms(4) inv(2) by simp
  from skip_order.inserted_sorted [OF assms(1) inv(1) assms(3) this t(5) keys] t(2) keys
  have "mid_insert cmp valid t ?L ?P ins 0" by (simp add: mid_insert_def key_before_def t(5))
  then show ?thesis using that t(1,5) keys by blast
qed

lemma sorted_levels_keys: "node_key t = node_key s \<Longrightarrow> sorted_levels cmp valid t L = sorted_levels cmp valid s L"
  by (simp add: sorted_levels_def)

lemma mid_insert_level:
  assumes "mid_insert cmp valid s L P ins i" and "l < kMaxHeight"
  shows "level_nodes s l = inserted L P (in_node ins) i l"
  by (rule links_level [OF _ assms(2)]) (use mid_insert_inv [OF assms(1)] in \<open>simp add: skip_inv_def\<close>)

lemma mid_insert_step:
  assumes "mid_insert cmp valid s L P ins i" and "inserting t L P ins j" and "node_key t = node_key s" and "i \<le> j"
  shows "mid_insert cmp valid t L P ins j" and "grows s t"
proof -
  show mid: "mid_insert cmp valid t L P ins j"
    using assms by (simp add: mid_insert_def sorted_levels_keys [OF assms(3)])
  show "grows s t"
    using mid_insert_level [OF assms(1)] mid_insert_level [OF mid] assms(3,4) by (auto simp: grows_def set_inserted)
qed

lemma grows_begin:
  assumes "skip_ok cmp valid s" and "mid_insert cmp valid t (level_nodes s) P ins 0"
    and "\<forall>m \<in> set (level_nodes s 0). node_key t m = node_key s m"
  shows "grows s t"
proof -
  have ln: "links s (level_nodes s)" using skip_ok_inv(1) [OF assms(1)] by (simp add: skip_inv_def)
  show ?thesis using mid_insert_level [OF assms(2)] assms(3) links_below [OF ln] by (auto simp: grows_def)
qed

text \<open>What one step of a search does.\<close>

lemma ge_body_reader:
  assumes "skip_order cmp valid" and "skip_ok cmp valid s" and "reader_inv cmp valid s (Searching key x l)"
  obtains (moved) y m where "ge_body cmp s key (x, l, None) = Some (Inl (y, m, None))"
      and "reader_inv cmp valid s (Searching key y m)"
  | (found) "ge_body cmp s key (x, l, None) = Some (Inr (first (behind (level_nodes s) (key_before cmp s key) 0), None))"
proof -
  let ?L = "level_nodes s" and ?P = "key_before cmp s key"
  note inv = skip_ok_inv(1) [OF assms(2)]
  then have ln: "links s ?L" by (simp add: skip_inv_def)
  have key: "valid key" "search_at ?L ?P x l" "l < kMaxHeight" using assms(3) by (simp_all add: search_at_def)
  obtain pre mid where split: "before ?L ?P l = pre @ mid" "x = last (head_node # pre)"
    using search_at_split [OF skip_order.skip_cuts [OF assms(1) inv key(1)] key(2)] .
  note body = ge_body_at [OF ln key(3) split(1), of None, folded split(2)]
  show ?thesis
  proof (cases mid)
    case (Cons m mid')
    have "search_at ?L ?P m l"
      using search_at_before [where L = ?L and P = ?P and pre = "pre @ [m]" and mid = mid'] split(1) Cons key(3) by simp
    then show ?thesis using moved [of m l] body Cons key(1) by simp
  next
    case Nil
    show ?thesis
    proof (cases l)
      case 0
      then show ?thesis using found body Nil by simp
    next
      case (Suc k)
      then have "search_at ?L ?P x k" using search_at_below [OF ln] key(2) by simp
      then show ?thesis using moved [of x k] body Nil Suc key(1) by simp
    qed
  qed
qed

lemma shared_inv_store:
  assumes "shared_inv cmp valid w" and "grows (sh_list w) s" and "writer_inv cmp valid s wr"
  shows "shared_inv cmp valid (w\<lparr>sh_list := s, sh_writer := wr\<rparr>)"
  using assms reader_inv_grows [OF assms(2)] by (simp add: shared_inv_def)

lemma shared_inv_reader:
  assumes "shared_inv cmp valid w" and "reader_inv cmp valid (sh_list w) rd"
  shows "shared_inv cmp valid (w\<lparr>sh_reader := (sh_reader w)(r := rd)\<rparr>)"
  using assms by (simp add: shared_inv_def)

lemma shared_list_ok: "shared_inv cmp valid w \<Longrightarrow> skip_ok cmp valid (sh_list w)"
  by (auto simp: shared_inv_def dest: writer_inv_ok)

lemma link_step:
  assumes "mid_insert cmp valid s L P ins i" and "i < in_height ins"
  obtains t where "insert_link ins i s = Some t" and "mid_insert cmp valid t L P ins i" and "grows s t"
    and "Node_Next t (in_node ins) i = Some (first (behind L P i))" and "node_key t = node_key s"
proof -
  have "inserting s L P ins i" using assms(1) by (simp add: mid_insert_def)
  then obtain t where t: "insert_link ins i s = Some t" "inserting t L P ins i"
    "Node_Next t (in_node ins) i = Some (first (behind L P i))" "node_key t = node_key s"
    "sl_max_height t = sl_max_height s" "length (sl_nodes t) = length (sl_nodes s)"
    using insert_link_ok [OF _ assms(2)] by blast
  then show ?thesis using that mid_insert_step [OF assms(1) t(2,4) order_refl] by blast
qed

lemma publish_step:
  assumes "mid_insert cmp valid s L P ins i" and "i < in_height ins"
    and "Node_Next s (in_node ins) i = Some (first (behind L P i))"
  obtains t where "insert_publish ins i s = Some t" and "mid_insert cmp valid t L P ins (Suc i)" and "grows s t"
    and "node_key t = node_key s"
proof -
  have ins: "inserting s L P ins i" using assms(1) by (simp add: mid_insert_def)
  obtain t where t: "insert_publish ins i s = Some t" "inserting t L P ins (Suc i)" "node_key t = node_key s"
    "sl_max_height t = sl_max_height s" "length (sl_nodes t) = length (sl_nodes s)"
    using insert_publish_ok [OF ins assms(2,3)] .
  then show ?thesis using that mid_insert_step [OF assms(1) t(2,3)] by simp
qed

lemma shared_inv_step:
  assumes "shared_step cmp valid w w'" and "skip_order cmp valid" and inv: "shared_inv cmp valid w"
  shows "shared_inv cmp valid w'"
proof -
  note ok = shared_list_ok [OF inv]
  have wr: "writer_inv cmp valid (sh_list w) (sh_writer w)" and rd: "reader_inv cmp valid (sh_list w) (sh_reader w r)" for r
    using inv by (simp_all add: shared_inv_def)
  from assms(1) show ?thesis
  proof cases
    case (w_begin key ins s)
    obtain ins' t where t: "insert_begin cmp (sh_list w) key = Some (ins', t)"
      "mid_insert cmp valid t (level_nodes (sh_list w)) (key_before cmp (sh_list w) key) ins' 0"
      "node_key t (in_node ins') = key" "\<forall>m \<in> set (level_nodes (sh_list w) 0). node_key t m = node_key (sh_list w) m"
      using begin_mid_insert [OF assms(2) ok w_begin(3,4)] .
    then have "ins' = ins" "t = s" using w_begin(5) by simp_all
    then show ?thesis
      unfolding w_begin(1) using t grows_begin [OF ok t(2,4)] by (intro shared_inv_store [OF inv]) auto
  next
    case (w_link ins i s)
    then obtain L P where "mid_insert cmp valid (sh_list w) L P ins i" using wr by auto
    from link_step [OF this w_link(3)] show ?thesis
      unfolding w_link(1) using w_link(3,4) by (metis option.inject shared_inv_store [OF inv] writer_inv.simps(3))
  next
    case (w_publish ins i s)
    then obtain L P where mid: "mid_insert cmp valid (sh_list w) L P ins i" "i < in_height ins"
      "Node_Next (sh_list w) (in_node ins) i = Some (first (behind L P i))"
      using wr by auto
    from publish_step [OF this] show ?thesis
      unfolding w_publish(1) using w_publish(3) by (metis option.inject shared_inv_store [OF inv] writer_inv.simps(2))
  next
    case (w_finish ins)
    have "grows (sh_list w) (sh_list w)" by (simp add: grows_def)
    from shared_inv_store [OF inv this, of Idle] ok show ?thesis unfolding w_finish(1) by simp
  next
    case (r_start r key)
    have "links (sh_list w) (level_nodes (sh_list w))" using skip_ok_inv(1) [OF ok] by (simp add: skip_inv_def)
    from top_level [OF this] show ?thesis unfolding r_start(1) using r_start(3) by (intro shared_inv_reader [OF inv]) simp
  next
    case (r_move r key x l y m)
    have "reader_inv cmp valid (sh_list w) (Searching key x l)" using rd [of r] r_move(2) by simp
    then have "reader_inv cmp valid (sh_list w) (Searching key y m)"
      by (rule ge_body_reader [OF assms(2) ok]) (use r_move(3) in auto)
    then show ?thesis unfolding r_move(1) by (rule shared_inv_reader [OF inv])
  next
    case (r_return r key x l n)
    show ?thesis unfolding r_return(1) by (rule shared_inv_reader [OF inv]) simp
  qed
qed

lemma shared_inv_new: "shared_inv cmp valid (shared_new any_key)"
  by (simp add: shared_inv_def shared_new_def new_ok)

lemma reachable_inv:
  assumes "skip_order cmp valid" and "shared_reachable cmp valid any_key w"
  shows "shared_inv cmp valid w"
  using assms(2) unfolding shared_reachable_def
  by (induction rule: rtranclp_induct) (auto intro: shared_inv_new shared_inv_step assms(1))

section \<open>An insertion caught between two stores\<close>

text \<open>The list is empty, 5 is about to be published, and a search for 4 has begun.\<close>

lemma caught_insert:
  obtains w w' ins l where "shared_reachable (\<lambda>a b. a - b) (\<lambda>_. True) (0 :: int) w"
    and "sh_writer w = Publishing ins 0" and "sh_reader w 0 = Searching 4 head_node l"
    and "shared_step (\<lambda>a b. a - b) (\<lambda>_. True) w w'"
proof -
  let ?cmp = "\<lambda>a b :: int. a - b" and ?valid = "\<lambda>_ :: int. True"
  let ?w0 = "shared_new (0 :: int)" and ?s0 = "SkipList_new (0 :: int)"
  note new = new_ok(1) [of ?cmp ?valid 0]
  obtain ins s1 where s1: "insert_begin ?cmp ?s0 5 = Some (ins, s1)"
    "mid_insert ?cmp ?valid s1 (level_nodes ?s0) (key_before ?cmp ?s0 5) ins 0"
    "node_key s1 (in_node ins) = 5" "\<forall>m \<in> set (level_nodes ?s0 0). node_key s1 m = node_key ?s0 m"
    by (rule begin_mid_insert [OF minus_order new, where key = 5], simp, simp add: new_ok(2), rule that)
  have i: "0 < in_height ins" using s1(2) by (simp add: mid_insert_def inserting_def)
  define w1 where "w1 = ?w0\<lparr>sh_list := s1, sh_writer := Linking ins 0\<rparr>"
  have w1: "shared_step ?cmp ?valid ?w0 w1"
    unfolding w1_def by (rule w_begin [where key = 5]) (use s1(1) in \<open>simp_all add: shared_new_def new_ok(2)\<close>)
  obtain s2 where s2: "insert_link ins 0 s1 = Some s2"
    "mid_insert ?cmp ?valid s2 (level_nodes ?s0) (key_before ?cmp ?s0 5) ins 0" "grows s1 s2"
    "Node_Next s2 (in_node ins) 0 = Some (first (behind (level_nodes ?s0) (key_before ?cmp ?s0 5) 0))"
    "node_key s2 = node_key s1"
    using link_step [OF s1(2) i] .
  define w2 where "w2 = w1\<lparr>sh_list := s2, sh_writer := Publishing ins 0\<rparr>"
  have w2: "shared_step ?cmp ?valid w1 w2"
    unfolding w2_def by (rule w_link [OF _ i]) (use s2(1) in \<open>simp_all add: w1_def\<close>)
  define w3 where "w3 = w2\<lparr>sh_reader := (sh_reader w2)(0 := Searching 4 head_node (sl_max_height (sh_list w2) - 1))\<rparr>"
  have w3: "shared_step ?cmp ?valid w2 w3"
    unfolding w3_def by (rule r_start) (simp_all add: w2_def w1_def shared_new_def)
  have state: "sh_list w3 = s2" "sh_writer w3 = Publishing ins 0" "sh_reader w3 0 = Searching 4 head_node (sl_max_height s2 - 1)"
    by (simp_all add: w3_def w2_def)
  obtain s3 where "insert_publish ins 0 s2 = Some s3" using publish_step [OF s2(2) i s2(4)] by blast
  then have w4: "shared_step ?cmp ?valid w3 (w3\<lparr>sh_list := s3, sh_writer := Linking ins (Suc 0)\<rparr>)"
    by (intro w_publish) (simp_all only: state)
  have "(shared_step ?cmp ?valid)\<^sup>*\<^sup>* ?w0 w3"
    using w1 w2 w3 by (meson converse_rtranclp_into_rtranclp rtranclp.rtrancl_refl)
  then have "shared_reachable ?cmp ?valid 0 w3" by (simp add: shared_reachable_def)
  then show ?thesis using state(2,3) w4 by (rule that)
qed

section \<open>What readers and writers see\<close>

definition first_not_before :: "('k \<Rightarrow> 'k \<Rightarrow> int) \<Rightarrow> 'k \<Rightarrow> 'k list \<Rightarrow> 'k option" where
  "first_not_before cmp key ks = (case dropWhile (\<lambda>k. cmp k key < 0) ks of [] \<Rightarrow> None | k # _ \<Rightarrow> Some k)"

lemma first_behind_contents:
  "map_option (node_key s) (first (behind (level_nodes s) (key_before cmp s key) 0)) = first_not_before cmp key (contents s)"
proof -
  have "dropWhile (\<lambda>k. cmp k key < 0) (contents s) = map (node_key s) (behind (level_nodes s) (key_before cmp s key) 0)"
    by (simp add: contents_def dropWhile_map comp_def key_before_def [abs_def])
  moreover have "map_option f (first ns) = (case map f ns of [] \<Rightarrow> None | k # _ \<Rightarrow> Some k)" for f :: "nat \<Rightarrow> 'a" and ns
    by (cases ns) simp_all
  ultimately show ?thesis unfolding first_not_before_def by simp
qed

text \<open>C7: searching beside an insertion is safe and linearizable: wherever the insertions stand, a search
  of the skip list never reads an undefined link, and when it returns, the node it returns holds the
  first key not before the one searched for, in the sorted list as it is at that read.\<close>

theorem shared_search_linearizable:
  assumes "skip_order cmp valid" and "shared_reachable cmp valid any_key w" and "sh_reader w r = Searching key x l"
  shows "(\<exists>y m. ge_body cmp (sh_list w) key (x, l, None) = Some (Inl (y, m, None))) \<or>
    (\<exists>n. ge_body cmp (sh_list w) key (x, l, None) = Some (Inr (n, None)) \<and>
      map_option (node_key (sh_list w)) n = first_not_before cmp key (contents (sh_list w)))"
proof -
  have inv: "shared_inv cmp valid w" using reachable_inv [OF assms(1,2)] .
  then have "reader_inv cmp valid (sh_list w) (Searching key x l)" using assms(3) by (metis shared_inv_def)
  then show ?thesis
    by (rule ge_body_reader [OF assms(1) shared_list_ok [OF inv]]) (auto simp: first_behind_contents)
qed

lemma shared_search_linearizable_witness:
  "\<exists>(w :: int shared) ins l. sh_writer w = Publishing ins 0 \<and> sh_reader w 0 = Searching 4 head_node l \<and>
    ((\<exists>y m. ge_body (\<lambda>a b. a - b) (sh_list w) 4 (head_node, l, None) = Some (Inl (y, m, None))) \<or>
     (\<exists>n. ge_body (\<lambda>a b. a - b) (sh_list w) 4 (head_node, l, None) = Some (Inr (n, None)) \<and>
       map_option (node_key (sh_list w)) n = first_not_before (\<lambda>a b. a - b) 4 (contents (sh_list w))))"
proof -
  obtain w w' ins l where w: "shared_reachable (\<lambda>a b. a - b) (\<lambda>_. True) (0 :: int) w" "sh_writer w = Publishing ins 0"
    "sh_reader w 0 = Searching 4 head_node l" "shared_step (\<lambda>a b. a - b) (\<lambda>_. True) w w'"
    using caught_insert .
  show ?thesis
    by (intro exI conjI) (rule w(2), rule w(3), rule shared_search_linearizable [OF minus_order w(1,3)])
qed

text \<open>The key an insertion is adding, as long as it is not in the list.\<close>

fun pending :: "'k SkipList \<Rightarrow> writer \<Rightarrow> 'k option" where
  "pending s (Linking ins i) = (if i = 0 then Some (node_key s (in_node ins)) else None)"
| "pending s (Publishing ins i) = (if i = 0 then Some (node_key s (in_node ins)) else None)"
| "pending s Idle = None"

lemma contents_same:
  assumes "set (level_nodes s 0) \<subseteq> {n. node_key t n = node_key s n}" and "level_nodes t 0 = level_nodes s 0"
  shows "contents t = contents s"
  using assms by (auto simp: contents_def)

lemma mid_contents:
  assumes "mid_insert cmp valid s L P ins i"
  shows "contents s = map (node_key s) (inserted L P (in_node ins) i 0)"
  by (simp add: contents_def mid_insert_level [OF assms max_positive])

text \<open>C8: an insertion beside readers is atomic: of all the steps of the system, only the store that
  publishes a node at the lowest level changes the sorted list of keys, and it puts the new key where
  it belongs; the stores to the upper levels, and every step of a search, leave the keys as they are.\<close>

theorem shared_insert_atomic:
  assumes "skip_order cmp valid" and "shared_reachable cmp valid any_key w" and "shared_step cmp valid w w'"
  shows "contents (sh_list w') = contents (sh_list w) \<or>
    (\<exists>ins key. sh_writer w = Publishing ins 0 \<and> pending (sh_list w) (sh_writer w) = Some key \<and>
      contents (sh_list w') = insert_sorted cmp key (contents (sh_list w)))"
proof -
  have inv: "shared_inv cmp valid w" using reachable_inv [OF assms(1,2)] .
  then have wr: "writer_inv cmp valid (sh_list w) (sh_writer w)" by (simp add: shared_inv_def)
  note ok = shared_list_ok [OF inv]
  from assms(3) show ?thesis
  proof cases
    case (w_begin key ins s)
    obtain ins' t where t: "insert_begin cmp (sh_list w) key = Some (ins', t)"
      "mid_insert cmp valid t (level_nodes (sh_list w)) (key_before cmp (sh_list w) key) ins' 0"
      "node_key t (in_node ins') = key" "\<forall>m \<in> set (level_nodes (sh_list w) 0). node_key t m = node_key (sh_list w) m"
      using begin_mid_insert [OF assms(1) ok w_begin(3,4)] .
    then have "contents s = contents (sh_list w)"
      using w_begin(5) mid_contents [OF t(2)] by (simp add: contents_def)
    then show ?thesis unfolding w_begin(1) by simp
  next
    case (w_link ins i s)
    then obtain L P where mid: "mid_insert cmp valid (sh_list w) L P ins i" using wr by auto
    obtain t where t: "insert_link ins i (sh_list w) = Some t" "mid_insert cmp valid t L P ins i" "grows (sh_list w) t"
      "Node_Next t (in_node ins) i = Some (first (behind L P i))" "node_key t = node_key (sh_list w)"
      using link_step [OF mid w_link(3)] .
    then have "contents s = contents (sh_list w)"
      using w_link(4) mid_contents [OF t(2)] mid_contents [OF mid] by simp
    then show ?thesis unfolding w_link(1) by simp
  next
    case (w_publish ins i s)
    then obtain L P where mid: "mid_insert cmp valid (sh_list w) L P ins i" "i < in_height ins"
      "Node_Next (sh_list w) (in_node ins) i = Some (first (behind L P i))"
      using wr by auto
    obtain t where t: "insert_publish ins i (sh_list w) = Some t" "mid_insert cmp valid t L P ins (Suc i)"
      "grows (sh_list w) t" "node_key t = node_key (sh_list w)"
      using publish_step [OF mid] .
    have s: "t = s" using t(1) w_publish(3) by simp
    note after = mid_contents [OF t(2), unfolded s] and now = mid_contents [OF mid(1)]
    show ?thesis
    proof (cases i)
      case 0
      let ?key = "node_key (sh_list w) (in_node ins)"
      have P: "P m \<longleftrightarrow> cmp (node_key (sh_list w) m) ?key < 0" if "m \<in> set (L 0)" for m
        using mid(1) that by (simp add: mid_insert_def)
      have "takeWhile P (L 0) = takeWhile (key_before cmp (sh_list w) ?key) (L 0)"
        "dropWhile P (L 0) = dropWhile (key_before cmp (sh_list w) ?key) (L 0)"
        using P by (auto intro: takeWhile_cong dropWhile_cong simp: key_before_def)
      then have "contents s = insert_sorted cmp ?key (contents (sh_list w))"
        using after now t(4) s 0
        by (simp add: inserted_def insert_sorted_def takeWhile_map dropWhile_map comp_def key_before_def [abs_def])
      then show ?thesis unfolding w_publish(1) using w_publish(2) 0 by simp
    next
      case (Suc k)
      then have "contents s = contents (sh_list w)" using after now t(4) s by (simp add: inserted_def)
      then show ?thesis unfolding w_publish(1) by simp
    qed
  qed simp_all
qed

lemma shared_insert_atomic_witness:
  "\<exists>w w' ins. sh_writer w = Publishing ins 0 \<and> shared_step (\<lambda>a b. a - b) (\<lambda>_ :: int. True) w w' \<and>
    (contents (sh_list w') = contents (sh_list w) \<or>
      (\<exists>ins key. sh_writer w = Publishing ins 0 \<and> pending (sh_list w) (sh_writer w) = Some key \<and>
        contents (sh_list w') = insert_sorted (\<lambda>a b. a - b) key (contents (sh_list w))))"
proof -
  obtain w w' ins l where w: "shared_reachable (\<lambda>a b. a - b) (\<lambda>_. True) (0 :: int) w" "sh_writer w = Publishing ins 0"
    "sh_reader w 0 = Searching 4 head_node l" "shared_step (\<lambda>a b. a - b) (\<lambda>_. True) w w'"
    using caught_insert .
  show ?thesis
    by (intro exI conjI) (rule w(2), rule w(4), rule shared_insert_atomic [OF minus_order w(1,4)])
qed

section \<open>Progress\<close>

lemma ge_body_None: "ge_body cmp s key (x, l, None) = Some (Inl (y, m, p)) \<Longrightarrow> p = None"
  "ge_body cmp s key (x, l, None) = Some (Inr (n, p)) \<Longrightarrow> p = None"
  by (auto simp: ge_body_def Let_def split: option.split_asm if_split_asm)

lemma search_run:
  assumes "while_true body st = Some res"
  shows "body = ge_body cmp (sh_list w) key \<Longrightarrow> st = (x, l, None) \<Longrightarrow> sh_reader w r = Searching key x l \<Longrightarrow>
    (shared_step cmp valid)\<^sup>*\<^sup>* w (w\<lparr>sh_reader := (sh_reader w)(r := Returned key (fst res))\<rparr>)"
  using assms
proof (induction arbitrary: w x l rule: while_true.raw_induct [rotated, consumes 1, case_names iterate])
  case (iterate loop body st res)
  note body = iterate.prems(1) and st = iterate.prems(2) and searching = iterate.prems(3)
  from iterate.hyps consider (step) st' where "body st = Some (Inl st')" "loop body st' = Some res" | (found) "body st = Some (Inr res)"
    by (auto split: option.split_asm sum.split_asm)
  then show ?case
  proof cases
    case step
    obtain y m p where st': "st' = (y, m, p)" by (cases st')
    then have ge: "ge_body cmp (sh_list w) key (x, l, None) = Some (Inl (y, m, p))" using step(1) unfolding body st by simp
    then have p: "p = None" by (rule ge_body_None)
    let ?w = "w\<lparr>sh_reader := (sh_reader w)(r := Searching key y m)\<rparr>"
    have "shared_step cmp valid w ?w" by (rule r_move [OF searching ge [unfolded p]])
    moreover have "(shared_step cmp valid)\<^sup>*\<^sup>* ?w (?w\<lparr>sh_reader := (sh_reader ?w)(r := Returned key (fst res))\<rparr>)"
      by (rule iterate.IH [OF step(2)]) (simp_all add: body st' p)
    ultimately have "(shared_step cmp valid)\<^sup>*\<^sup>* w (?w\<lparr>sh_reader := (sh_reader ?w)(r := Returned key (fst res))\<rparr>)"
      by (rule converse_rtranclp_into_rtranclp)
    then have "(shared_step cmp valid)\<^sup>*\<^sup>* w (w\<lparr>sh_reader := (sh_reader w)(r := Returned key (fst res))\<rparr>)" by simp
    then show ?thesis unfolding fun_upd_def .
  next
    case found
    obtain n p where res: "res = (n, p)" by (cases res)
    then have ge: "ge_body cmp (sh_list w) key (x, l, None) = Some (Inr (n, p))" using found unfolding body st by simp
    then have p: "p = None" by (rule ge_body_None)
    show ?thesis unfolding res fst_conv by (rule r_into_rtranclp, rule r_return [OF searching ge [unfolded p]])
  qed
qed

lemma loop_run:
  "insert_loop ins [i..<in_height ins] s = Some t \<Longrightarrow> i \<le> in_height ins \<Longrightarrow>
   sh_list w = s \<Longrightarrow> sh_writer w = Linking ins i \<Longrightarrow>
   (shared_step cmp valid)\<^sup>*\<^sup>* w (w\<lparr>sh_list := t, sh_writer := Idle\<rparr>)"
proof (induction "in_height ins - i" arbitrary: i s w)
  case 0
  then have "shared_step cmp valid w (w\<lparr>sh_writer := Idle\<rparr>)" by (intro w_finish [of _ ins]) simp
  moreover have "w\<lparr>sh_writer := Idle\<rparr> = w\<lparr>sh_list := t, sh_writer := Idle\<rparr>" using 0 by simp
  ultimately show ?case by simp
next
  case (Suc k)
  then have i: "i < in_height ins" by simp
  obtain s1 s2 where s: "insert_link ins i s = Some s1" "insert_publish ins i s1 = Some s2"
    "insert_loop ins [Suc i..<in_height ins] s2 = Some t"
    using Suc.prems(1) by (auto simp: upt_conv_Cons [OF i] split: option.split_asm)
  let ?w1 = "w\<lparr>sh_list := s1, sh_writer := Publishing ins i\<rparr>" and ?w2 = "w\<lparr>sh_list := s2, sh_writer := Linking ins (Suc i)\<rparr>"
  have "shared_step cmp valid w ?w1" using Suc.prems i s(1) by (intro w_link) simp_all
  moreover have "shared_step cmp valid ?w1 (?w1\<lparr>sh_list := s2, sh_writer := Linking ins (Suc i)\<rparr>)"
    using s(2) by (intro w_publish) simp_all
  moreover have "(shared_step cmp valid)\<^sup>*\<^sup>* ?w2 (?w2\<lparr>sh_list := t, sh_writer := Idle\<rparr>)"
    by (rule Suc.hyps(1) [OF _ s(3)]) (use Suc.hyps(2) i in simp_all)
  ultimately show ?case by (simp add: converse_rtranclp_into_rtranclp)
qed

text \<open>\<open>Insert\<close> is the run of the system in which nobody else moves.\<close>

lemma insert_run:
  assumes "SkipList_Insert cmp (sh_list w) key = Some t" and "sh_writer w = Idle" and "valid key"
    and "\<forall>k \<in> set (contents (sh_list w)). cmp k key \<noteq> 0"
  shows "(shared_step cmp valid)\<^sup>*\<^sup>* w (w\<lparr>sh_list := t, sh_writer := Idle\<rparr>)"
proof -
  obtain ins s where s: "insert_begin cmp (sh_list w) key = Some (ins, s)" "insert_loop ins [0..<in_height ins] s = Some t"
    using assms(1) by (auto simp: SkipList_Insert_def split: option.split_asm)
  let ?w = "w\<lparr>sh_list := s, sh_writer := Linking ins 0\<rparr>"
  have "shared_step cmp valid w ?w" by (rule w_begin [where key = key]) (use assms s(1) in simp_all)
  moreover have "(shared_step cmp valid)\<^sup>*\<^sup>* ?w (?w\<lparr>sh_list := t, sh_writer := Idle\<rparr>)" by (rule loop_run [OF s(2)]) simp_all
  ultimately show ?thesis by (simp add: converse_rtranclp_into_rtranclp)
qed

lemma writer_finishes:
  assumes "shared_inv cmp valid w"
  shows "\<exists>s. (shared_step cmp valid)\<^sup>*\<^sup>* w (w\<lparr>sh_list := s, sh_writer := Idle\<rparr>)"
proof -
  have linking: "\<exists>t. (shared_step cmp valid)\<^sup>*\<^sup>* v (v\<lparr>sh_list := t, sh_writer := Idle\<rparr>)"
    if "sh_writer v = Linking ins i" "mid_insert cmp valid (sh_list v) L P ins i" for v ins i L P
  proof -
    have ins: "inserting (sh_list v) L P ins i" using that(2) by (simp add: mid_insert_def)
    obtain t where "insert_loop ins [i..<in_height ins] (sh_list v) = Some t" "inserting t L P ins (in_height ins)"
      "node_key t = node_key (sh_list v)" "sl_max_height t = sl_max_height (sh_list v)"
      "length (sl_nodes t) = length (sl_nodes (sh_list v))"
      using insert_loop_ok [OF ins] .
    from loop_run [OF this(1) _ refl that(1)] ins show ?thesis by (auto simp: inserting_def)
  qed
  have wr: "writer_inv cmp valid (sh_list w) (sh_writer w)" using assms by (simp add: shared_inv_def)
  show ?thesis
  proof (cases "sh_writer w")
    case Idle
    then have "w\<lparr>sh_list := sh_list w, sh_writer := Idle\<rparr> = w" by simp
    then show ?thesis by (metis rtranclp.rtrancl_refl)
  next
    case (Linking ins i)
    then show ?thesis using wr linking by auto
  next
    case (Publishing ins i)
    then obtain L P where mid: "mid_insert cmp valid (sh_list w) L P ins i" "i < in_height ins"
      "Node_Next (sh_list w) (in_node ins) i = Some (first (behind L P i))"
      using wr by auto
    obtain t where t: "insert_publish ins i (sh_list w) = Some t" "mid_insert cmp valid t L P ins (Suc i)"
      "grows (sh_list w) t" "node_key t = node_key (sh_list w)"
      using publish_step [OF mid] .
    let ?w = "w\<lparr>sh_list := t, sh_writer := Linking ins (Suc i)\<rparr>"
    have "shared_step cmp valid w ?w" by (rule w_publish [OF Publishing t(1)])
    moreover obtain u where "(shared_step cmp valid)\<^sup>*\<^sup>* ?w (?w\<lparr>sh_list := u, sh_writer := Idle\<rparr>)"
      using linking [of ?w ins "Suc i" L P] t(2) by auto
    ultimately show ?thesis by (auto intro: converse_rtranclp_into_rtranclp)
  qed
qed

text \<open>C9: nobody is blocked: from any state the system can reach, whatever the insertion in progress has
  stored so far, each search returns by its own steps alone, with the first key not before its own,
  and the insertion in progress can be finished.\<close>

theorem shared_progress:
  assumes "skip_order cmp valid" and "shared_reachable cmp valid any_key w" and "sh_reader w r = Searching key x l"
  shows "(\<exists>n. (shared_step cmp valid)\<^sup>*\<^sup>* w (w\<lparr>sh_reader := (sh_reader w)(r := Returned key n)\<rparr>) \<and>
      map_option (node_key (sh_list w)) n = first_not_before cmp key (contents (sh_list w))) \<and>
    (\<exists>s. (shared_step cmp valid)\<^sup>*\<^sup>* w (w\<lparr>sh_list := s, sh_writer := Idle\<rparr>))"
proof
  let ?s = "sh_list w"
  have inv: "shared_inv cmp valid w" using reachable_inv [OF assms(1,2)] .
  then show "\<exists>s. (shared_step cmp valid)\<^sup>*\<^sup>* w (w\<lparr>sh_list := s, sh_writer := Idle\<rparr>)" by (rule writer_finishes)
  have rd: "reader_inv cmp valid ?s (Searching key x l)" using inv assms(3) by (metis shared_inv_def)
  note ok = skip_ok_inv(1) [OF shared_list_ok [OF inv]]
  have "links ?s (level_nodes ?s)" "cuts (level_nodes ?s) (key_before cmp ?s key)"
    using ok skip_order.skip_cuts [OF assms(1) ok] rd by (simp_all add: skip_inv_def)
  from find_ge_from [OF this, of x l None] rd
  have "while_true (ge_body cmp ?s key) (x, l, None) = Some (first (behind (level_nodes ?s) (key_before cmp ?s key) 0), None)"
    by simp
  from search_run [OF this refl refl assms(3)]
  show "\<exists>n. (shared_step cmp valid)\<^sup>*\<^sup>* w (w\<lparr>sh_reader := (sh_reader w)(r := Returned key n)\<rparr>) \<and>
      map_option (node_key ?s) n = first_not_before cmp key (contents ?s)"
    by (intro exI [of _ "first (behind (level_nodes ?s) (key_before cmp ?s key) 0)"]) (simp add: first_behind_contents)
qed

lemma shared_progress_witness:
  "\<exists>w ins l. sh_writer w = Publishing ins 0 \<and> sh_reader w 0 = Searching (4 :: int) head_node l \<and>
    (\<exists>n. (shared_step (\<lambda>a b. a - b) (\<lambda>_. True))\<^sup>*\<^sup>* w (w\<lparr>sh_reader := (sh_reader w)(0 := Returned 4 n)\<rparr>)) \<and>
    (\<exists>s. (shared_step (\<lambda>a b. a - b) (\<lambda>_. True))\<^sup>*\<^sup>* w (w\<lparr>sh_list := s, sh_writer := Idle\<rparr>))"
proof -
  obtain w w' ins l where w: "shared_reachable (\<lambda>a b. a - b) (\<lambda>_. True) (0 :: int) w" "sh_writer w = Publishing ins 0"
    "sh_reader w 0 = Searching 4 head_node l" "shared_step (\<lambda>a b. a - b) (\<lambda>_. True) w w'"
    using caught_insert .
  show ?thesis
    using w(2,3) shared_progress [OF minus_order w(1,3)] by blast
qed

end
