(* ===== verification/Ldb_Memtable.thy ===== *)
theory Ldb_Memtable
  imports Ldb_Batch Ldb_Skiplist_Shared
begin

text \<open>
  The memory table (\<open>leveldb-library/db/memtable.cc\<close>, \<open>memtable.h\<close>): a skip list of encoded entries,
  each an internal key and a value with their lengths, ordered by the internal keys. A pointer into an
  entry is the list of the bytes from there to its end. The order of entries is the order the skip list
  asks for (locale \<open>skip_order\<close>), so an added entry is found: \<open>Get\<close> returns the newest entry of a
  user key that a sequence number may see, whatever order the entries were added in.
\<close>

section \<open>Entries\<close>

text \<open>\<open>GetLengthPrefixedSlice\<close> of this file: at most five bytes for the length; with it, what follows.\<close>

definition entry_slice :: "slice \<Rightarrow> (slice \<times> slice) option" where
  "entry_slice data =
     (case GetVarint32Ptr (take 5 data) of
        None \<Rightarrow> None
      | Some (len, q) \<Rightarrow>
          let p = drop (length (take 5 data) - length q) data
          in if unat len \<le> length p then Some (take (unat len) p, drop (unat len) p) else None)"

definition KeyComparator :: "Comparator \<Rightarrow> slice \<Rightarrow> slice \<Rightarrow> int" where
  "KeyComparator user aptr bptr =
     (case (entry_slice aptr, entry_slice bptr) of
        (Some (a, _), Some (b, _)) \<Rightarrow> cmp_Compare (InternalKeyComparator user) a b
      | _ \<Rightarrow> 0)"

definition EncodeKey :: "slice \<Rightarrow> slice" where
  "EncodeKey target = PutVarint32 [] (of_nat (length target)) @ target"

definition mem_encoded_len :: "slice \<Rightarrow> slice \<Rightarrow> nat" where
  "mem_encoded_len key v =
     (let key_size = length key; val_size = length v; internal_key_size = key_size + 8
      in VarintLength (of_nat internal_key_size) + internal_key_size + VarintLength (of_nat val_size) + val_size)"

definition mem_entry :: "u64 \<Rightarrow> ValueType \<Rightarrow> slice \<Rightarrow> slice \<Rightarrow> slice" where
  "mem_entry s t key v =
     (let key_size = length key; val_size = length v; internal_key_size = key_size + 8
      in EncodeVarint32 (of_nat internal_key_size) @ key @ EncodeFixed64 (push_bit 8 s OR type_code t) @
         EncodeVarint32 (of_nat val_size) @ v)"

section \<open>The table\<close>

record MemTable =
  mt_comparator :: Comparator
  mt_refs :: int
  mt_table :: "slice SkipList"

definition MemTable_new :: "Comparator \<Rightarrow> MemTable" where
  "MemTable_new comparator = \<lparr>mt_comparator = comparator, mt_refs = 0, mt_table = SkipList_new []\<rparr>"

definition mem_Ref :: "MemTable \<Rightarrow> MemTable" where
  "mem_Ref m = m\<lparr>mt_refs := mt_refs m + 1\<rparr>"

text \<open>\<open>None\<close>: the object is deleted.\<close>

definition mem_Unref :: "MemTable \<Rightarrow> MemTable option" where
  "mem_Unref m = (let m = m\<lparr>mt_refs := mt_refs m - 1\<rparr> in if mt_refs m \<le> 0 then None else Some m)"

definition mem_Add :: "u64 \<Rightarrow> ValueType \<Rightarrow> slice \<Rightarrow> slice \<Rightarrow> MemTable \<Rightarrow> MemTable option" where
  "mem_Add s t key v m =
     map_option (\<lambda>table. m\<lparr>mt_table := table\<rparr>)
       (SkipList_Insert (KeyComparator (mt_comparator m)) (mt_table m) (mem_entry s t key v))"

text \<open>\<open>Get\<close>: whether the key was decided here, with the value and the status as they are left.\<close>

definition mem_Get :: "slice \<Rightarrow> u64 \<Rightarrow> slice \<times> Status \<Rightarrow> MemTable \<Rightarrow> (bool \<times> slice \<times> Status) option" where
  "mem_Get user_key seq = (\<lambda>(v, s) m.
     case skip_Seek (KeyComparator (mt_comparator m)) (mt_table m) (memtable_key user_key seq) of
       None \<Rightarrow> None
     | Some it \<Rightarrow>
         (case skip_key (mt_table m) it of
            None \<Rightarrow> Some (False, v, s)
          | Some entry \<Rightarrow>
              (case entry_slice entry of
                 None \<Rightarrow> None
               | Some (k, rest) \<Rightarrow>
                   if length k < 8 then None
                   else if cmp_Compare (mt_comparator m) (take (length k - 8) k) (lookup_user_key user_key seq) = 0
                   then (case DecodeFixed64 (drop (length k - 8) k) of
                           None \<Rightarrow> None
                         | Some num \<Rightarrow>
                             if num AND 0xff = type_code kTypeValue
                             then map_option (\<lambda>(w, _). (True, w, s)) (entry_slice rest)
                             else if num AND 0xff = type_code kTypeDeletion then Some (True, v, NotFound '''')
                             else Some (False, v, s))
                   else Some (False, v, s))))"

section \<open>Iterators\<close>

definition mem_Valid :: "skip_iter \<Rightarrow> bool" where "mem_Valid it = skip_Valid it"

definition mem_Seek :: "MemTable \<Rightarrow> slice \<Rightarrow> skip_iter option" where
  "mem_Seek m k = skip_Seek (KeyComparator (mt_comparator m)) (mt_table m) (EncodeKey k)"

definition mem_SeekToFirst :: "MemTable \<Rightarrow> skip_iter option" where
  "mem_SeekToFirst m = skip_SeekToFirst (mt_table m)"

definition mem_SeekToLast :: "MemTable \<Rightarrow> skip_iter option" where
  "mem_SeekToLast m = skip_SeekToLast (mt_table m)"

definition mem_Next :: "MemTable \<Rightarrow> skip_iter \<Rightarrow> skip_iter option" where
  "mem_Next m it = skip_Next (mt_table m) it"

definition mem_Prev :: "MemTable \<Rightarrow> skip_iter \<Rightarrow> skip_iter option" where
  "mem_Prev m it = skip_Prev (KeyComparator (mt_comparator m)) (mt_table m) it"

definition mem_key :: "MemTable \<Rightarrow> skip_iter \<Rightarrow> slice option" where
  "mem_key m it =
     (case skip_key (mt_table m) it of None \<Rightarrow> None | Some entry \<Rightarrow> map_option fst (entry_slice entry))"

definition mem_value :: "MemTable \<Rightarrow> skip_iter \<Rightarrow> slice option" where
  "mem_value m it =
     (case skip_key (mt_table m) it of
        None \<Rightarrow> None
      | Some entry \<Rightarrow>
          (case entry_slice entry of None \<Rightarrow> None | Some (_, rest) \<Rightarrow> map_option fst (entry_slice rest)))"

section \<open>The order of entries\<close>

lemma length_EncodeVarint32: "length (EncodeVarint32 v) \<le> 5"
  by (simp add: EncodeVarint32_def)

lemma entry_slice_Encode:
  assumes "length v < 2 ^ 32"
  shows "entry_slice (EncodeVarint32 (of_nat (length v)) @ v @ rest) = Some (v, rest)"
proof -
  let ?n = "EncodeVarint32 (of_nat (length v))"
  have "take 5 (?n @ v @ rest) = ?n @ take (5 - length ?n) (v @ rest)" using length_EncodeVarint32 by simp
  then show ?thesis using assms
    by (simp add: entry_slice_def GetVarint32Ptr_Encode unat_of_nat take_bit_nat_eq_self Let_def)
qed

text \<open>Entries and lookup keys: a readable internal key in front.\<close>

definition mem_valid :: "(slice \<Rightarrow> bool) \<Rightarrow> slice \<Rightarrow> bool" where
  "mem_valid valid e =
     (case entry_slice e of None \<Rightarrow> False | Some (k, _) \<Rightarrow> internal_key_ok k \<and> valid (ExtractUserKey k))"

context key_order
begin

lemma entry_order: "skip_order (KeyComparator cmp) (mem_valid valid)"
proof
  note ik = internal_order
  fix a b c
  assume a: "mem_valid valid a" and b: "mem_valid valid b"
  obtain k r where k: "entry_slice a = Some (k, r)" "internal_key_ok k \<and> valid (ExtractUserKey k)"
    using a by (auto simp: mem_valid_def split: option.split_asm)
  obtain m q where m: "entry_slice b = Some (m, q)" "internal_key_ok m \<and> valid (ExtractUserKey m)"
    using b by (auto simp: mem_valid_def split: option.split_asm)
  show "KeyComparator cmp a b < 0 \<longleftrightarrow> 0 < KeyComparator cmp b a"
    using key_order.compare_swap [OF ik k(2) m(2)] k(1) m(1) by (simp add: KeyComparator_def)
  assume "mem_valid valid c"
  then obtain n p where n: "entry_slice c = Some (n, p)" "internal_key_ok n \<and> valid (ExtractUserKey n)"
    by (auto simp: mem_valid_def split: option.split_asm)
  show "KeyComparator cmp a b < 0 \<Longrightarrow> KeyComparator cmp b c < 0 \<Longrightarrow> KeyComparator cmp a c < 0"
    using key_order.compare_trans [OF ik k(2) m(2) n(2)] k(1) m(1) n(1) by (simp add: KeyComparator_def)
  show "KeyComparator cmp a b < 0 \<Longrightarrow> KeyComparator cmp b c = 0 \<Longrightarrow> KeyComparator cmp a c < 0"
    using key_order.compare_eq [OF ik m(2) n(2)] k(1) m(1) n(1) by (auto simp: KeyComparator_def)
qed

end

interpretation mem: skip_order "KeyComparator BytewiseComparator" "mem_valid (\<lambda>_. True)"
  by (rule bytewise.entry_order)

section \<open>A table as a set of entries\<close>

text \<open>An entry: sequence number, type, user key and value.\<close>

type_synonym mem_item = "u64 \<times> ValueType \<times> slice \<times> slice"

fun item_bytes :: "mem_item \<Rightarrow> slice" where
  "item_bytes (s, t, k, v) = mem_entry s t k v"

fun item_fits :: "(slice \<Rightarrow> bool) \<Rightarrow> mem_item \<Rightarrow> bool" where
  "item_fits valid (s, t, k, v) = (s \<le> kMaxSequenceNumber \<and> length k + 8 < 2 ^ 32 \<and> length v < 2 ^ 32 \<and> valid k)"

fun item_id :: "mem_item \<Rightarrow> slice \<times> u64" where
  "item_id (s, t, k, v) = (k, s)"

definition visible :: "mem_item list \<Rightarrow> slice \<Rightarrow> u64 \<Rightarrow> mem_item list" where
  "visible items u q = filter (\<lambda>(s, t, k, v). k = u \<and> s \<le> q) items"

fun newest :: "mem_item list \<Rightarrow> mem_item option" where
  "newest [] = None"
| "newest (i # items) =
     (case newest items of None \<Rightarrow> Some i | Some j \<Rightarrow> if fst i > fst j then Some i else Some j)"

definition mem_answer :: "mem_item option \<Rightarrow> slice \<times> Status \<Rightarrow> bool \<times> slice \<times> Status" where
  "mem_answer item = (\<lambda>(v, s).
     case item of
       None \<Rightarrow> (False, v, s)
     | Some (_, kTypeValue, _, w) \<Rightarrow> (True, w, s)
     | Some (_, kTypeDeletion, _, _) \<Rightarrow> (True, v, NotFound ''''))"

definition mem_holds :: "(slice \<Rightarrow> bool) \<Rightarrow> MemTable \<Rightarrow> mem_item list \<Rightarrow> bool" where
  "mem_holds valid m items \<longleftrightarrow>
     skip_ok (KeyComparator (mt_comparator m)) (mem_valid valid) (mt_table m) \<and>
     set (contents (mt_table m)) = item_bytes ` set items"

lemma newest_None [simp]: "newest items = None \<longleftrightarrow> items = []"
  by (cases items) (auto split: option.splits)

lemma newest_max: "newest items = Some n \<Longrightarrow> n \<in> set items \<and> (\<forall>i \<in> set items. fst i \<le> fst n)"
proof (induction items arbitrary: n)
  case (Cons i items)
  then show ?case
  proof (cases "newest items")
    case (Some j)
    then have j: "j \<in> set items" "\<forall>i \<in> set items. fst i \<le> fst j" using Cons.IH by simp_all
    show ?thesis
    proof (cases "fst i > fst j")
      case True
      then have "n = i" using Cons.prems Some by simp
      then show ?thesis using j(2) True by auto
    next
      case False
      then have "n = j" using Cons.prems Some by simp
      then show ?thesis using j False by simp
    qed
  qed simp
qed simp

text \<open>What an entry and a lookup key have in front.\<close>

lemma InternalKey_split: "InternalKey k s t = k @ EncodeFixed64 (PackSequenceAndType s t)"
  by (simp add: InternalKey_def AppendInternalKey_split)

lemma mem_entry_key:
  assumes "length k + 8 < 2 ^ 32"
  shows "entry_slice (mem_entry s t k v) = Some (InternalKey k s t, EncodeVarint32 (of_nat (length v)) @ v)"
proof -
  have "mem_entry s t k v =
      EncodeVarint32 (of_nat (length (InternalKey k s t))) @ InternalKey k s t @ EncodeVarint32 (of_nat (length v)) @ v"
    by (simp add: mem_entry_def InternalKey_split PackSequenceAndType_def Let_def)
  moreover have "length (InternalKey k s t) < 2 ^ 32" using assms by (simp add: InternalKey_split)
  ultimately show ?thesis by (simp add: entry_slice_Encode)
qed

lemma lookup_entry_key:
  assumes "length u + 8 < 2 ^ 32"
  shows "entry_slice (memtable_key u q) = Some (InternalKey u q kTypeValue, [])" and "lookup_user_key u q = u"
proof -
  have "memtable_key u q = EncodeVarint32 (of_nat (length (InternalKey u q kTypeValue))) @ InternalKey u q kTypeValue @ []"
    by (simp add: memtable_key_def LookupKey_def InternalKey_split kValueTypeForSeek_def)
  moreover have "length (InternalKey u q kTypeValue) < 2 ^ 32" using assms by (simp add: InternalKey_split)
  ultimately show "entry_slice (memtable_key u q) = Some (InternalKey u q kTypeValue, [])" by (simp only: entry_slice_Encode)
  show "lookup_user_key u q = u" by (simp add: lookup_user_key_def lookup_internal_key_def lookup_kstart_def LookupKey_def)
qed

text \<open>An entry is written into exactly the bytes that were allocated for it.\<close>

lemma mem_entry_length:
  assumes "length key + 8 < 2 ^ 32" and "length v < 2 ^ 32"
  shows "length (mem_entry s t key v) = mem_encoded_len key v"
proof -
  have "length (EncodeVarint32 (of_nat n)) = VarintLength (of_nat n)" if "n < 2 ^ 32" for n
    using that by (simp add: VarintLength_spec EncodeVarint64_spec EncodeVarint32_spec unat_of_nat take_bit_nat_eq_self)
  from this [of "length key + 8"] this [of "length v"] assms show ?thesis
    by (simp add: mem_entry_def mem_encoded_len_def Let_def)
qed

lemma first_not_before_simps [simp]:
  "first_not_before cmp key [] = None"
  "first_not_before cmp key (k # ks) = (if cmp k key < 0 then first_not_before cmp key ks else Some k)"
  by (simp_all add: first_not_before_def)

lemma first_not_before_Some:
  "sorted_wrt (\<lambda>a b. cmp a b < 0) ks \<Longrightarrow> first_not_before cmp key ks = Some e \<Longrightarrow>
   e \<in> set ks \<and> 0 \<le> cmp e key \<and> (\<forall>k \<in> set ks. 0 \<le> cmp k key \<longrightarrow> k = e \<or> cmp e k < 0)"
proof (induction ks)
  case (Cons k ks)
  then show ?case by (cases "cmp k key < 0") simp_all
qed simp

lemma first_not_before_None: "first_not_before cmp key ks = None \<Longrightarrow> \<forall>k \<in> set ks. cmp k key < 0"
  by (induction ks) (simp_all split: if_split_asm)

lemma seek_first:
  assumes "skip_order cmp valid" and "skip_ok cmp valid s" and "valid target"
  obtains it where "skip_Seek cmp s target = Some it" and "skip_key s it = first_not_before cmp target (contents s)"
proof -
  note inv = skip_ok_inv(1) [OF assms(2)]
  then have ln: "links s (level_nodes s)" by (simp add: skip_inv_def)
  show ?thesis
    using that FindGreaterOrEqual_cut [OF ln skip_order.skip_cuts [OF assms(1) inv assms(3)], of None]
      first_behind_contents [of s cmp target]
    by (simp add: skip_Seek_def skip_key_def)
qed

text \<open>Entries in the table's order: by user key, newest first.\<close>

lemma entries_less:
  assumes "length k + 8 < 2 ^ 32" and "length k' + 8 < 2 ^ 32"
  shows "KeyComparator user (mem_entry s t k v) (mem_entry s' t' k' v') =
    InternalCompare user (InternalKey k s t) (InternalKey k' s' t')"
  by (simp add: KeyComparator_def mem_entry_key [OF assms(1)] mem_entry_key [OF assms(2)] InternalKeyComparator_def)

lemma mem_valid_item: "item_fits valid i \<Longrightarrow> mem_valid valid (item_bytes i)"
  by (cases i) (simp add: mem_valid_def mem_entry_key)

lemma mem_valid_lookup: "length u + 8 < 2 ^ 32 \<Longrightarrow> valid u \<Longrightarrow> mem_valid valid (memtable_key u q)"
  by (simp add: mem_valid_def lookup_entry_key)

lemma sorted_contents:
  assumes "skip_ok cmp valid s"
  shows "sorted_wrt (\<lambda>a b. cmp a b < 0) (contents s)"
  using skip_ok_inv [OF assms] max_positive by (simp add: skip_inv_def sorted_levels_def sorted_wrt_map)

context key_order
begin

lemma pack_equal:
  assumes "s \<le> kMaxSequenceNumber" and "s' \<le> kMaxSequenceNumber"
  shows "PackSequenceAndType s t = PackSequenceAndType s' t' \<Longrightarrow> s = s'"
  using pack_fields(1) [OF assms(1), of t] pack_fields(1) [OF assms(2), of t'] by metis

lemma add_holds:
  assumes "mem_holds valid m items" and "mt_comparator m = cmp" and "item_fits valid (s, t, k, v)"
    and "\<forall>i \<in> set items. item_fits valid i" and "item_id (s, t, k, v) \<notin> item_id ` set items"
  obtains m' where "mem_Add s t k v m = Some m'" and "mem_holds valid m' ((s, t, k, v) # items)" and "mt_comparator m' = cmp"
proof -
  let ?cmp = "KeyComparator cmp" and ?e = "mem_entry s t k v"
  have ok: "skip_ok ?cmp (mem_valid valid) (mt_table m)" and es: "set (contents (mt_table m)) = item_bytes ` set items"
    using assms(1,2) by (simp_all add: mem_holds_def)
  have new: "?cmp (item_bytes i) ?e \<noteq> 0" if i: "i \<in> set items" for i
  proof
    obtain s' t' k' v' where i': "i = (s', t', k', v')" by (cases i)
    assume "?cmp (item_bytes i) ?e = 0"
    then have "InternalCompare cmp (InternalKey k' s' t') (InternalKey k s t) = 0"
      using assms(3,4) i i' by (auto simp: entries_less)
    then have "cmp_Compare cmp k' k = 0 \<and> PackSequenceAndType s' t' = PackSequenceAndType s t"
      by (simp add: InternalCompare_def Let_def split: if_split_asm)
    moreover have "s \<le> kMaxSequenceNumber" "s' \<le> kMaxSequenceNumber" "valid k" "valid k'"
      using assms(3,4) i i' by auto
    ultimately have "k' = k" "s' = s" using compare_eq [of k' k] pack_equal [of s' s t' t] by auto
    then show False using assms(5) i i' by force
  qed
  then have "\<forall>e \<in> set (contents (mt_table m)). ?cmp e ?e \<noteq> 0" by (simp add: es)
  with mem_valid_item [OF assms(3)] obtain table where table: "SkipList_Insert ?cmp (mt_table m) ?e = Some table"
    "skip_ok ?cmp (mem_valid valid) table" "contents table = insert_sorted ?cmp ?e (contents (mt_table m))"
    using Insert_sorted_list [OF entry_order ok] by auto
  have "set (contents table) = insert ?e (set (contents (mt_table m)))"
    unfolding table(3) insert_sorted_def by (metis Un_insert_right list.simps(15) set_append takeWhile_dropWhile_id)
  then show ?thesis using that [of "m\<lparr>mt_table := table\<rparr>"] table es assms(2) by (simp add: mem_Add_def mem_holds_def)
qed

lemma entry_before_lookup:
  assumes "item_fits valid (s, t, k, v)" and "length u + 8 < 2 ^ 32" and "valid u" and "q \<le> kMaxSequenceNumber"
  shows "KeyComparator cmp (mem_entry s t k v) (memtable_key u q) < 0 \<longleftrightarrow> cmp_Compare cmp k u < 0 \<or> k = u \<and> q < s"
proof -
  have "type_code kTypeValue < type_code t \<longleftrightarrow> False" by (cases t) simp_all
  then have "PackSequenceAndType q kTypeValue < PackSequenceAndType s t \<longleftrightarrow> q < s"
    using pack_less [of q s kTypeValue t] assms by simp
  then show ?thesis
    using assms compare_eq [of k u]
    by (simp add: KeyComparator_def mem_entry_key lookup_entry_key InternalKeyComparator_def internal_less)
qed

text \<open>The first entry that is not before the lookup key is the newest visible one, if there is one.\<close>

lemma first_is_newest:
  assumes "mem_holds valid m items" and "mt_comparator m = cmp" and fits: "\<forall>i \<in> set items. item_fits valid i"
    and "distinct (map item_id items)" and u: "length u + 8 < 2 ^ 32" "valid u" and q: "q \<le> kMaxSequenceNumber"
    and "newest (visible items u q) = Some n"
  shows "first_not_before (KeyComparator cmp) (memtable_key u q) (contents (mt_table m)) = Some (item_bytes n)"
proof -
  let ?cmp = "KeyComparator cmp" and ?key = "memtable_key u q" and ?es = "contents (mt_table m)"
  have ok: "skip_ok ?cmp (mem_valid valid) (mt_table m)" and es: "set ?es = item_bytes ` set items"
    using assms(1,2) by (simp_all add: mem_holds_def)
  note chars = first_not_before_Some [OF sorted_contents [OF ok], of ?key] first_not_before_None [of ?cmp ?key ?es]
  obtain s t v where n: "n = (s, t, u, v)" "n \<in> set items" "s \<le> q" "\<forall>i \<in> set (visible items u q). fst i \<le> s"
    using newest_max [OF assms(8)] by (auto simp: visible_def)
  have fit: "item_fits valid (s, t, u, v)" using n(1,2) fits by blast
  have not_before: "0 \<le> ?cmp (item_bytes n) ?key"
    using entry_before_lookup [OF fit u q] compare_eq [OF u(2) u(2)] n(1,3) by auto
  then obtain e where e: "first_not_before ?cmp ?key ?es = Some e"
    using chars(2) n(2) es by (cases "first_not_before ?cmp ?key ?es") fastforce+
  from chars(1) [OF e] obtain i where i: "i \<in> set items" "e = item_bytes i" "0 \<le> ?cmp e ?key"
    "item_bytes n = e \<or> ?cmp e (item_bytes n) < 0"
    using es n(2) not_before by auto
  obtain s' t' k' v' where i': "i = (s', t', k', v')" by (cases i)
  have fit': "item_fits valid (s', t', k', v')" using i(1) i' fits by blast
  have after: "\<not> cmp_Compare cmp k' u < 0" "k' = u \<longrightarrow> s' \<le> q"
    using entry_before_lookup [OF fit' u q] i(2,3) i' by auto
  show ?thesis
  proof (cases "item_bytes n = e")
    case False
    then have "InternalCompare cmp (InternalKey k' s' t') (InternalKey u s t) < 0"
      using i(2,4) i' n(1) fit fit' entries_less by simp
    then have "cmp_Compare cmp k' u = 0 \<and> PackSequenceAndType s t < PackSequenceAndType s' t'"
      using after(1) by (simp add: internal_less)
    then have "k' = u" "s \<le> s'" using compare_eq [of k' u] u(2) fit fit' pack_less [of s s' t t'] by auto
    moreover from this have "(s', t', k', v') \<in> set (visible items u q)" using i(1) i' after(2) by (simp add: visible_def)
    then have "s' \<le> s" using n(4) by fastforce
    ultimately have "item_id i = item_id n" using i' n(1) by simp
    then have "i = n" using assms(4) i(1) n(2) by (auto simp: distinct_map dest: inj_onD)
    then show ?thesis using e i(2) by simp
  qed (use e in simp)
qed

lemma Get_newest:
  assumes "mem_holds valid m items" and "mt_comparator m = cmp" and fits: "\<forall>i \<in> set items. item_fits valid i"
    and "distinct (map item_id items)" and u: "length u + 8 < 2 ^ 32" "valid u" and q: "q \<le> kMaxSequenceNumber"
  shows "mem_Get u q r m = Some (mem_answer (newest (visible items u q)) r)"
proof -
  let ?cmp = "KeyComparator cmp" and ?key = "memtable_key u q" and ?es = "contents (mt_table m)"
  obtain w st where r: "r = (w, st)" by (cases r)
  have ok: "skip_ok ?cmp (mem_valid valid) (mt_table m)" and es: "set ?es = item_bytes ` set items"
    using assms(1,2) by (simp_all add: mem_holds_def)
  note chars = first_not_before_Some [OF sorted_contents [OF ok], of ?key] first_not_before_None [of ?cmp ?key ?es]
  obtain it where it: "skip_Seek ?cmp (mt_table m) ?key = Some it" "skip_key (mt_table m) it = first_not_before ?cmp ?key ?es"
    using seek_first [OF entry_order ok mem_valid_lookup [where valid = valid, OF u]] .
  show ?thesis
  proof (cases "first_not_before ?cmp ?key ?es")
    case None
    then have "newest (visible items u q) = None"
      using first_is_newest [OF assms] by (cases "newest (visible items u q)") simp_all
    then show ?thesis using it None assms(2) by (simp add: mem_Get_def r mem_answer_def)
  next
    case (Some e)
    obtain s t k v where i: "(s, t, k, v) \<in> set items" "e = mem_entry s t k v"
      using chars(1) [OF Some] es by auto
    have fit: "item_fits valid (s, t, k, v)" using i(1) fits by blast
    have entry: "entry_slice e = Some (InternalKey k s t, EncodeVarint32 (of_nat (length v)) @ v)"
      using fit by (simp add: i(2) mem_entry_key)
    have parts: "take (length (InternalKey k s t) - 8) (InternalKey k s t) = k"
      "DecodeFixed64 (drop (length (InternalKey k s t) - 8) (InternalKey k s t)) = Some (PackSequenceAndType s t)"
      "\<not> length (InternalKey k s t) < 8"
      using DecodeFixed64_Encode [of "PackSequenceAndType s t" "[]"] by (simp_all add: InternalKey_split)
    show ?thesis
    proof (cases "k = u")
      case True
      have "\<not> ?cmp e ?key < 0" using chars(1) [OF Some] by simp
      then have "s \<le> q" using entry_before_lookup [OF fit u q] True i(2) by auto
      then have "newest (visible items u q) \<noteq> None" using i(1) True by (auto simp: visible_def filter_empty_conv)
      then obtain n where n: "newest (visible items u q) = Some n" by blast
      obtain s' t' v' where n': "n = (s', t', u, v')" "n \<in> set items"
        using newest_max [OF n] by (auto simp: visible_def)
      then have fit': "item_fits valid (s', t', u, v')" using fits by blast
      have "e = mem_entry s' t' u v'" using first_is_newest [OF assms n] Some n'(1) by simp
      then have same: "InternalKey u s' t' = InternalKey k s t" "v' = v"
        using entry mem_entry_key [of u s' t' v'] fit fit' entry_slice_Encode [of v "[]"] entry_slice_Encode [of v' "[]"] by auto
      have tag: "PackSequenceAndType s' t' AND 0xff = type_code t'"
        "PackSequenceAndType s' t' = PackSequenceAndType s t"
        using pack_fields(2) [of s' t'] fit' arg_cong [OF same(1), of key_number] by simp_all
      have "entry_slice (EncodeVarint32 (of_nat (length v)) @ v) = Some (v, [])"
        using entry_slice_Encode [of v "[]"] fit by simp
      then show ?thesis
        using it Some assms(2) entry parts True n n' same(2) tag compare_eq [OF u(2) u(2)]
        by (cases t') (simp_all add: mem_Get_def r mem_answer_def lookup_entry_key [OF u(1)] del: length_append)
    next
      case False
      have "newest (visible items u q) = None"
      proof (rule ccontr)
        assume "newest (visible items u q) \<noteq> None"
        then obtain n where n: "newest (visible items u q) = Some n" by blast
        obtain s' t' v' where n': "n = (s', t', u, v')" "n \<in> set items"
          using newest_max [OF n] by (auto simp: visible_def)
        have "e = mem_entry s' t' u v'" using first_is_newest [OF assms n] Some n'(1) by simp
        then have "InternalKey u s' t' = InternalKey k s t" using entry mem_entry_key [OF u(1), of s' t' v'] by simp
        then have "u = k" using InternalKey_parts(1) by metis
        with False show False by simp
      qed
      then show ?thesis
        using it Some assms(2) entry parts False fit compare_eq [of k u] u
        by (simp add: mem_Get_def r mem_answer_def lookup_entry_key [OF u(1)])
    qed
  qed
qed

end

section \<open>What a table answers\<close>

text \<open>Adding entries one after the other.\<close>

fun mem_AddAll :: "mem_item list \<Rightarrow> MemTable \<Rightarrow> MemTable option" where
  "mem_AddAll [] m = Some m"
| "mem_AddAll ((s, t, k, v) # items) m = Option.bind (mem_Add s t k v m) (mem_AddAll items)"

lemma new_holds: "mem_holds valid (MemTable_new user) []"
  by (simp add: mem_holds_def MemTable_new_def new_ok)

lemma mem_holds_cong: "mem_holds valid m held \<Longrightarrow> set held = set held' \<Longrightarrow> mem_holds valid m held'"
  by (simp add: mem_holds_def)

context key_order
begin

lemma AddAll_holds:
  "mem_holds valid m held \<Longrightarrow> mt_comparator m = cmp \<Longrightarrow> \<forall>i \<in> set (held @ items). item_fits valid i \<Longrightarrow>
   distinct (map item_id (held @ items)) \<Longrightarrow>
   \<exists>m'. mem_AddAll items m = Some m' \<and> mem_holds valid m' (held @ items) \<and> mt_comparator m' = cmp"
proof (induction items arbitrary: m held)
  case (Cons i items)
  obtain s t k v where i: "i = (s, t, k, v)" by (cases i)
  obtain m1 where m1: "mem_Add s t k v m = Some m1" "mem_holds valid m1 ((s, t, k, v) # held)" "mt_comparator m1 = cmp"
    by (rule add_holds [OF Cons.prems(1,2), of s t k v]) (use Cons.prems(3,4) i in auto)
  have "mem_holds valid m1 (held @ [i])" using m1(2) by (rule mem_holds_cong) (simp add: i)
  from Cons.IH [OF this m1(3)] Cons.prems(3,4) show ?case by (simp add: i m1(1))
qed simp

end

text \<open>C5: a memory table is a map with versions: whatever entries were added, in whatever order, each user
  key and sequence number at most once, the table takes them all, and \<open>Get\<close> of a user key at a
  sequence number is decided by the newest entry of that key that is not newer than the number: its
  value, \<open>NotFound\<close> for a deletion, and not decided when there is none.\<close>

theorem memtable_get_newest:
  assumes "key_order user valid" and "\<forall>i \<in> set items. item_fits valid i" and "distinct (map item_id items)"
    and "length u + 8 < 2 ^ 32" and "valid u" and "q \<le> kMaxSequenceNumber"
  shows "\<exists>m. mem_AddAll items (MemTable_new user) = Some m \<and>
    mem_Get u q r m = Some (mem_answer (newest (visible items u q)) r)"
proof -
  have "mt_comparator (MemTable_new user) = user" by (simp add: MemTable_new_def)
  from key_order.AddAll_holds [OF assms(1) new_holds this, of items] assms(2,3)
  obtain m where m: "mem_AddAll items (MemTable_new user) = Some m" "mem_holds valid m items" "mt_comparator m = user"
    by auto
  with key_order.Get_newest [OF assms(1) m(2,3) assms(2-6)] show ?thesis by blast
qed

lemma memtable_get_newest_witness:
  "\<exists>m. mem_AddAll [(7, kTypeValue, [1], [9]), (9, kTypeDeletion, [1], []), (8, kTypeValue, [2], [5])]
      (MemTable_new BytewiseComparator) = Some m \<and> mem_Get [1] 8 ([], OK) m = Some (True, [9], OK)"
  using memtable_get_newest [OF bytewise.key_order_axioms,
    of "[(7, kTypeValue, [1], [9]), (9, kTypeDeletion, [1], []), (8, kTypeValue, [2], [5])]" "[1]" 8 "([], OK)"]
  by (simp add: kMaxSequenceNumber_def visible_def mem_answer_def)

section \<open>From a batch to a lookup\<close>

definition mem_insert :: "u64 \<Rightarrow> ValueType \<Rightarrow> slice \<Rightarrow> slice \<Rightarrow> MemTable option \<Rightarrow> MemTable option" where
  "mem_insert s t k v m = Option.bind m (mem_Add s t k v)"

lemma mem_insert_simps [simp]: "mem_insert s t k v None = None" "mem_insert s t k v (Some m) = mem_Add s t k v m"
  by (simp_all add: mem_insert_def)

fun batch_items :: "u64 \<Rightarrow> batch_op list \<Rightarrow> mem_item list" where
  "batch_items seq [] = []"
| "batch_items seq (op # ops) = (seq, op_entry op) # batch_items (seq + 1) ops"

text \<open>The last operation of a batch on a key.\<close>

fun last_op :: "batch_op list \<Rightarrow> slice \<Rightarrow> (ValueType \<times> slice) option" where
  "last_op [] u = None"
| "last_op (op # ops) u =
     (case last_op ops u of
        Some r \<Rightarrow> Some r
      | None \<Rightarrow> (case op_entry op of (t, k, v) \<Rightarrow> if k = u then Some (t, v) else None))"

lemma insert_items: "add_entries mem_insert seq ops (Some m) = mem_AddAll (batch_items seq ops) m"
proof -
  have none: "add_entries mem_insert s ops None = None" for s ops
    by (induction ops arbitrary: s) (simp_all split: prod.split)
  show ?thesis
  proof (induction ops arbitrary: seq m)
    case (Cons op ops)
    obtain t k v where op: "op_entry op = (t, k, v)" by (cases "op_entry op")
    show ?case using Cons.IH [of "seq + 1"] none by (cases "mem_Add seq t k v m") (simp_all add: op)
  qed simp
qed

lemma next_seq: "unat seq + n \<le> 2 ^ 56 \<Longrightarrow> 0 < n \<Longrightarrow> unat (seq + 1) = unat seq + 1" for seq :: u64
  by (simp add: unat_word_ariths)

lemma batch_items_range:
  "unat seq + length ops \<le> 2 ^ 56 \<Longrightarrow> i \<in> set (batch_items seq ops) \<Longrightarrow>
   unat seq \<le> unat (fst i) \<and> unat (fst i) < unat seq + length ops \<and> snd i \<in> op_entry ` set ops"
proof (induction ops arbitrary: seq)
  case (Cons op ops)
  have "unat (seq + 1) = unat seq + 1" using Cons.prems(1) by (intro next_seq [where n = "length (op # ops)"]) simp_all
  then show ?case using Cons.IH [of "seq + 1"] Cons.prems by auto
qed simp

lemma batch_items_distinct: "unat seq + length ops \<le> 2 ^ 56 \<Longrightarrow> distinct (map item_id (batch_items seq ops))"
proof (induction ops arbitrary: seq)
  case (Cons op ops)
  have next_: "unat (seq + 1) = unat seq + 1" using Cons.prems(1) by (intro next_seq [where n = "length (op # ops)"]) simp_all
  have "item_id (seq, op_entry op) \<noteq> item_id i" if "i \<in> set (batch_items (seq + 1) ops)" for i
  proof
    assume "item_id (seq, op_entry op) = item_id i"
    then have "seq = fst i" by (cases i; cases "op_entry op") simp
    then show False using batch_items_range [OF _ that] Cons.prems next_ by simp
  qed
  then show ?case using Cons next_ by auto
qed simp

lemma newest_batch:
  "unat seq + length ops \<le> 2 ^ 56 \<Longrightarrow> unat seq + length ops \<le> unat q + 1 \<Longrightarrow>
   map_option (\<lambda>(s, t, k, v). (t, v)) (newest (visible (batch_items seq ops) u q)) = last_op ops u"
proof (induction ops arbitrary: seq)
  case (Cons op ops)
  obtain t k v where op: "op_entry op = (t, k, v)" by (cases "op_entry op")
  have next_: "unat (seq + 1) = unat seq + 1" using Cons.prems(1) by (intro next_seq [where n = "length (op # ops)"]) simp_all
  note IH = Cons.IH [of "seq + 1", unfolded next_]
  have q: "seq \<le> q" using Cons.prems(2) by (simp add: word_le_nat_alt)
  let ?rest = "visible (batch_items (seq + 1) ops) u q"
  have items: "visible (batch_items seq (op # ops)) u q = (if k = u then [(seq, t, k, v)] else []) @ ?rest"
    by (simp add: visible_def op q)
  show ?case
  proof (cases "newest ?rest")
    case None
    then show ?thesis using IH Cons.prems by (simp add: items op del: batch_items.simps)
  next
    case (Some j)
    have "j \<in> set (batch_items (seq + 1) ops)" using newest_max [OF Some] by (simp add: visible_def)
    then have "\<not> seq > fst j" using batch_items_range [of "seq + 1" ops j] Cons.prems(1) next_ by (simp add: word_less_nat_alt)
    then have "newest (visible (batch_items seq (op # ops)) u q) = Some j"
      using Some by (simp add: items del: batch_items.simps)
    moreover have "last_op ops u = map_option (\<lambda>(s, t, k, v). (t, v)) (Some j)" using IH Cons.prems Some by simp
    ultimately show ?thesis by (cases j) (simp del: batch_items.simps)
  qed
qed (simp add: visible_def)

text \<open>C4: what a batch writes is read: a batch of puts and deletions that is given its sequence number and
  inserted into a new memory table is accepted, and \<open>Get\<close> at the batch's last number answers each
  key by the last operation of the batch on it.\<close>

theorem batch_written_is_read:
  assumes "\<forall>op \<in> set ops. op_fits op \<and> length (fst (snd (op_entry op))) + 8 < 2 ^ 32" and "length ops < 2 ^ 31"
    and "unat seq + length ops \<le> 2 ^ 56" and "unat q + 1 = unat seq + length ops" and "length u + 8 < 2 ^ 32"
  shows "\<exists>m. InsertInto mem_insert (SetSequence (fold batch_add ops batch_Clear) seq) (Some (MemTable_new BytewiseComparator))
      = (OK, Some m) \<and>
    mem_Get u q (w, st) m =
      Some (case last_op ops u of
              None \<Rightarrow> (False, w, st)
            | Some (kTypeValue, v) \<Rightarrow> (True, v, st)
            | Some (kTypeDeletion, _) \<Rightarrow> (True, w, NotFound ''''))"
proof -
  let ?items = "batch_items seq ops" and ?new = "MemTable_new BytewiseComparator"
  have max: "unat kMaxSequenceNumber = 2 ^ 56 - 1" by (simp add: kMaxSequenceNumber_def)
  have q: "q \<le> kMaxSequenceNumber" using assms(3,4) max by (simp add: word_le_nat_alt)
  have len: "op_fits op \<Longrightarrow> length (snd (snd (op_entry op))) < 2 ^ 32" for op by (cases op) simp_all
  have fits: "\<forall>i \<in> set ?items. item_fits (\<lambda>_. True) i"
  proof
    fix i assume i: "i \<in> set ?items"
    obtain s t k v where i': "i = (s, t, k, v)" by (cases i)
    have s: "unat s < 2 ^ 56" using batch_items_range [OF assms(3) i] assms(3) i' by simp
    obtain op where op: "op \<in> set ops" "op_entry op = (t, k, v)"
      using batch_items_range [OF assms(3) i] i' by force
    have "length k + 8 < 2 ^ 32" "length v < 2 ^ 32" using assms(1) op len [of op] by force+
    moreover have "s \<le> kMaxSequenceNumber" using s max by (simp add: word_le_nat_alt)
    ultimately show "item_fits (\<lambda>_. True) i" by (simp add: i')
  qed
  have "mt_comparator ?new = BytewiseComparator" by (simp add: MemTable_new_def)
  from bytewise.AddAll_holds [OF new_holds this, of ?items] fits batch_items_distinct [OF assms(3)]
  obtain m where m: "mem_AddAll ?items ?new = Some m" "mem_holds (\<lambda>_. True) m ?items" "mt_comparator m = BytewiseComparator"
    by auto
  have "InsertInto mem_insert (batch_of seq ops) (Some ?new) = (OK, Some m)"
    using InsertInto_batch [of ops mem_insert seq "Some ?new"] assms(1,2) m(1) by (simp add: insert_items)
  moreover have "SetSequence (fold batch_add ops batch_Clear) seq = batch_of seq ops"
    by (simp add: batch_Clear_of batch_built SetSequence_of)
  moreover have "mem_Get u q (w, st) m = Some (mem_answer (newest (visible ?items u q)) (w, st))"
    by (rule bytewise.Get_newest [OF m(2,3) fits batch_items_distinct [OF assms(3)] assms(5) _ q]) simp
  moreover have "last_op ops u = map_option (\<lambda>(s, t, k, v). (t, v)) (newest (visible ?items u q))"
    using newest_batch [OF assms(3), of q u] assms(4) by simp
  ultimately show ?thesis
    by (cases "newest (visible ?items u q)") (auto simp: mem_answer_def split: ValueType.split)
qed

lemma batch_written_is_read_witness:
  "\<exists>m. InsertInto mem_insert (SetSequence (fold batch_add [BPut [1] [7], BPut [2] [8], BPut [1] [9], BDelete [2]] batch_Clear) 5)
      (Some (MemTable_new BytewiseComparator)) = (OK, Some m) \<and>
    mem_Get [1] 8 ([], OK) m = Some (True, [9], OK)"
  using batch_written_is_read [of "[BPut [1] [7], BPut [2] [8], BPut [1] [9], BDelete [2]]" 5 8 "[1]" "[]" OK] by simp

end
