(* ===== verification/Spec2Isabelle.thy ===== *)
theory Spec2Isabelle
  imports Pb_Roundtrip Unw_Rows Unw_Dwarf_Props Unw_Compact_Props Unw_Images Unw_Frames_Props
    Ldb_Edit Ldb_Table_Props Ldb_Memtable
begin

text \<open>
  A verification development for the C and C++ code of the MasGas iOS app.

  The app itself is Swift; its C and C++ code comes with three of its pods, under \<open>src/MasGas/Pods\<close>:

  \<^item> \<open>nanopb\<close>, the protocol-buffer runtime through which the Firebase pods serialise what they
    upload (\<open>pb.h\<close>, \<open>pb_common.c\<close>, \<open>pb_encode.c\<close>, \<open>pb_decode.c\<close>), with the message
    descriptors generated for it;
  \<^item> the crash-time code of \<open>FirebaseCrashlytics\<close>: when a thread has crashed, it walks the
    stacks of all threads (\<open>Unwind/\<close>) with the images known to be loaded (\<open>Components/\<close>) and
    writes the stack traces;
  \<^item> \<open>leveldb-library\<close>, the storage engine in which \<open>FirebaseDatabase\<close> keeps what the app has
    seen of the database: the formats of its files with their writers and readers.

  They meet in the readers of variable-length integers only (\<open>Varint\<close> describes the formats), so
  the theories form three branches over a common ground.

  \<^bold>\<open>Conventions.\<close> A C function is a definition of the same name. What C leaves undefined is the
  value \<open>None\<close> of an outer option; a function that reports failure through a Boolean result
  returns an inner option, \<open>None\<close> for \<open>false\<close>. Integers are words of their C width on the
  64-bit targets the app ships for, and sums, shifts and conversions wrap or are undefined as C has it. Loops
  with a bound in the code are recursive over it; other loops are \<open>c_loop\<close>, a partial function
  with no fuel whose value is \<open>None\<close> if the loop does not end, so that a statement with a
  \<open>Some\<close> result includes termination. Memory is a map from 64-bit addresses to bytes, of which
  the bytes of no object are missing, with the heap's blocks (\<open>Memory\<close>).

  \<^bold>\<open>Common ground.\<close> \<open>Prelude\<close>: words, the failure combinator \<open>c_try\<close>, \<open>c_loop\<close> with its
  rules for partial and total correctness, little-endian bytes. \<open>Memory\<close>: loads, stores, frame
  lemmas, \<open>realloc\<close> and \<open>free\<close>. \<open>Varint\<close>: the base-128 representation.

  \<^bold>\<open>nanopb.\<close>

  \<^item> \<open>Pb_Types\<close>: \<open>pb.h\<close>, with field descriptors as a record and the initialiser macros as functions.
  \<^item> \<open>Pb_IStream\<close>, \<open>Pb_Decode_Prim\<close>, \<open>Pb_OStream\<close>: streams over a buffer or any callback, and
    the token readers. Locales \<open>input_source\<close> and \<open>output_sink\<close> are what the rest of the code
    relies on; buffers implement them.
  \<^item> \<open>Pb_Wire\<close>, \<open>Pb_Tokens\<close>, \<open>Pb_Wire_Props\<close>: what each writer emits and each reader consumes;
    round trips of varints, tags, fixed values and strings; readers on arbitrary bytes; the 32-bit
    reader's acceptance, and its bit position that wraps.
  \<^item> \<open>Pb_Common\<close>: the field iterator (\<open>pb_common.c\<close>).
  \<^item> \<open>Pb_Encode\<close>: \<open>pb_encode.c\<close>. \<open>Pb_Enc_Spec\<close> describes the wire form of a message by
    recursion on its fields; \<open>Pb_Enc_Refine\<close> shows that the encoder writes it, or fails just when
    the buffer is too small or the message has none.
  \<^item> \<open>Pb_Release\<close>, \<open>Pb_Decode\<close>: defaults, release and the decoder of \<open>pb_decode.c\<close>.
    \<open>Pb_Dec_Safe\<close>, \<open>Pb_Dec_Msg\<close>: on any bytes, decoding a message of static fields ends, reads
    its input in order and changes nothing outside the message. \<open>Pb_Dec_Props\<close>: required fields,
    allocation sizes, values that fit, and the corners that misbehave.
  \<^item> \<open>Pb_Messages\<close>, \<open>Pb_Roundtrip\<close>: the client metrics descriptors of GoogleDataTransport, the
    maximal size of a message and its round trip through encoder and decoder.

  The recursion of encoder and decoder into submessages carries a depth (undefined at 0): the
  nesting of C calls, which for a type without recursion is its own nesting. The callbacks of
  users, extension types and the allocator are parameters.

  \<^bold>\<open>Crashlytics.\<close>

  \<^item> \<open>Unw_Data\<close>: \<open>FIRCLSDataParsing.c\<close>, readers of the unwind sections. The eight rounds of the
    LEB128 loops are the code's own limit on the shift. Which numbers they read exactly is shown for both
    forms; the others shift an \<open>int\<close> out of its range.
  \<^item> \<open>Unw_Regs\<close>: the ARM64 thread context (\<open>FIRCLSThreadState.c\<close>), DWARF's numbering of it
    and frames without unwind information (\<open>FIRCLSUnwind_arm.c\<close>); locale \<open>register_file\<close>.
  \<^item> \<open>Unw_Expr\<close>: \<open>FIRCLSDwarfExpressionMachine.c\<close>. \<open>Unw_Expr_Spec\<close>: its buffer implements a
    bounded stack (locale \<open>bounded_stack\<close>); evaluation computes the meaning of the expression, and
    ends on any bytes.
  \<^item> \<open>Unw_Dwarf\<close>: \<open>FIRCLSDwarfUnwind.c\<close>. \<open>Unw_Dwarf_Safe\<close>: on any bytes, running call frame
    instructions ends and keeps the rules within the 32 registers. \<open>Unw_Rows\<close>: it gives the row
    of the unwind table, except for the short advance instruction, which is wrong.
    \<open>Unw_Dwarf_Props\<close>: the registers handed back are those the rules name.
  \<^item> \<open>Unw_Compact\<close>, \<open>Unw_Compact_Props\<close>: \<open>FIRCLSCompactUnwind.c\<close>, the two-level lookup; its
    binary search agrees with a search from the front, what it finds contains the program counter,
    the last function of a page is not found. The offsets and masks of the section's structures
    are in a system header; the record \<open>compact_format\<close> holds them as a parameter.
  \<^item> \<open>Unw_Frames\<close>: the frame step (\<open>FIRCLSUnwind.c\<close>), the image table
    (\<open>FIRCLSBinaryImage.m\<close>) and the loop that writes a stack trace (\<open>FIRCLSProcess.c\<close>).
    \<open>Unw_Images\<close>: the table agrees with the list of loaded images (locale \<open>image_store\<close>), unless
    an image comes back to its address. \<open>Unw_Frames_Props\<close>: a walk ends within the 100000 frames
    of \<open>FIRCLSUnwindMaxFrames\<close>, and on a chain of frame records gives their return addresses.

  Memory is the same throughout a walk (the threads are suspended), the image table is changed by
  one thread at a time (its queue), and a pointer is stripped of its upper 28 bits as the code
  does.

  \<^bold>\<open>leveldb.\<close> A \<open>Slice\<close> or \<open>std::string\<close> is the list of its bytes, a pointer into one is the
  rest of it (or an offset where the code computes with offsets), an object is the record of its
  members and a virtual class the record of its functions. Sizes are natural numbers where the code has
  \<open>size_t\<close> and words where it has \<open>uint32_t\<close>. An assertion of the debug build is not code; the
  theorems state what it asks for.

  \<^item> \<open>Ldb_Coding\<close>: \<open>util/coding.cc\<close>, fixed-width, varint and length-prefixed values.
  \<^item> \<open>Ldb_Crc\<close>, \<open>Ldb_Crc_Props\<close>, \<open>Ldb_Crc_Correct\<close>: \<open>util/crc32c.cc\<close>; the strided, table-driven
    loop computes the bitwise CRC-32C, and damage within four bytes changes it.
  \<^item> \<open>Ldb_File\<close>: status values, the buffered writer and the sequential reader of
    \<open>util/env_posix.cc\<close> over system calls that may be interrupted or short; locales
    \<open>writable_file\<close> and \<open>sequential_file\<close> are what the log relies on.
  \<^item> \<open>Ldb_Log\<close>, \<open>Ldb_Log_Spec\<close>, \<open>Ldb_Log_Props\<close>: the write-ahead log (\<open>db/log_writer.cc\<close>,
    \<open>db/log_reader.cc\<close>): round trip, recovery after a cut, and damage that is reported.
  \<^item> \<open>Ldb_Keys\<close>: slices, comparators and internal keys (\<open>util/comparator.cc\<close>,
    \<open>db/dbformat.cc\<close>); locale \<open>key_order\<close> is what an order of keys and its separators promise.
  \<^item> \<open>Ldb_Batch\<close>: \<open>db/write_batch.cc\<close>, the record of the log. \<open>Ldb_Edit\<close>:
    \<open>db/version_edit.cc\<close>, the record of the manifest.
  \<^item> \<open>Ldb_Skiplist\<close>, \<open>Ldb_Skiplist_Props\<close>: \<open>db/skiplist.h\<close> with its random numbers
    (\<open>util/random.h\<close>), which refines a sorted list for any comparator with the laws of locale
    \<open>skip_order\<close>. The endless loops of the searches are \<open>while_true\<close>, a partial function without
    fuel, so a \<open>Some\<close> result includes termination. \<open>Ldb_Skiplist_Shared\<close>: an insertion interleaved
    with any number of searches, one link at a time: searches are linearizable, insertions atomic, and
    nobody is blocked. Orderings weaker than the one in which the stores are made are not modelled.
  \<^item> \<open>Ldb_Memtable\<close>: \<open>db/memtable.cc\<close>, whose entries give the skip list its order; \<open>Get\<close> finds the
    newest visible entry, and what a write batch inserts is what is read.
  \<^item> \<open>Ldb_Block\<close>, \<open>Ldb_Block_Props\<close>: \<open>table/block_builder.cc\<close> and \<open>table/block.cc\<close>, scanning in
    both directions and the binary search.
  \<^item> \<open>Ldb_Bloom\<close>, \<open>Ldb_Filter\<close>: \<open>util/hash.cc\<close>, \<open>util/bloom.cc\<close> and
    \<open>table/filter_block.cc\<close>; locale \<open>filter_policy\<close> is the contract of a filter, and no key of a
    block is denied by the filter block.
  \<^item> \<open>Ldb_Format\<close>: \<open>table/format.cc\<close>, over the readers at an offset of \<open>env_posix.cc\<close> (locale
    \<open>random_access_file\<close>). \<open>Ldb_Table_Builder\<close>: \<open>table/table_builder.cc\<close>; \<open>Ldb_Table_Spec\<close>: the
    layout it writes, kept by every operation. \<open>Ldb_Table\<close>: \<open>table/table.cc\<close>.
    \<open>Ldb_Table_Props\<close>: a finished table opens and answers lookups; locale \<open>table_order\<close> adds to
    \<open>key_order\<close> which keys belong to one user key. Snappy is a parameter; the app is built without
    it (no \<open>HAVE_SNAPPY\<close>), which is what the statement from builder to lookup says.

  \<^bold>\<open>Not modelled.\<close> The compile-time checks of \<open>pb.h\<close>; the generated descriptors of the other
  messages (data of the same form); the 32-bit ARM and x86 variants of the unwinder; the reading of an image's load
  commands (system structures), Mach exceptions and signals, logging and the report's
  output (system calls); the region allocator of Crashlytics; of leveldb, the database object with its
  threads, versions and compaction, iterators over several tables, the block cache, the arena in which
  nodes and entries are allocated, and the calls of the system; the other pods (Objective-C
  and Swift) and the app itself (Swift).
\<close>

end
